(* ===== verification/Prelude.thy ===== *)
theory Prelude
  imports Main "HOL-Library.Word" "HOL-Library.Monad_Syntax"
begin

text \<open>
  Shared vocabulary of the development. A kernel routine that may reach a failing
  \<open>assert\<close>, a \<open>panic\<close>, or a pointer loop that never comes back is a function into
  \<open>'a option\<close>: \<open>None\<close> is the kernel that does not return, \<open>Some r\<close> a normal return
  with value and state \<open>r\<close>. Errors that the C code returns as negative numbers stay
  ordinary integers built from the codes of \<open>libs/error.h\<close>.
\<close>

named_theorems kdefs \<open>definitions of small kernel routines, unfolded together\<close>
named_theorems errno \<open>values of the error codes\<close>

section \<open>Assertions\<close>

text \<open>\<open>assert(x)\<close> of \<open>kern/debug/assert.h\<close>: panics unless the condition holds.\<close>

definition kassert :: "bool \<Rightarrow> unit option" where
  "kassert c = (if c then Some () else None)"

lemma kassert_eq_Some [simp]: "kassert c = Some u \<longleftrightarrow> c"
  by (simp add: kassert_def)

lemma bind_kassert [simp]: "Option.bind (kassert c) f = (if c then f () else None)"
  by (simp add: kassert_def)

lemma bind_None_conv: "Option.bind x f = None \<longleftrightarrow> x = None \<or> (\<exists>y. x = Some y \<and> f y = None)"
  by (cases x) auto

lemma bind_SomeE:
  assumes "Option.bind x f = Some r"
  obtains y where "x = Some y" "f y = Some r"
  using assms by (cases x) auto

section \<open>Error codes\<close>

text \<open>\<open>libs/error.h\<close>.\<close>

definition E_BAD_PROC :: int where "E_BAD_PROC = 2"
definition E_INVAL :: int where "E_INVAL = 3"
definition E_NO_MEM :: int where "E_NO_MEM = 4"
definition E_NO_FREE_PROC :: int where "E_NO_FREE_PROC = 5"
definition E_KILLED :: int where "E_KILLED = 9"
definition E_BUSY :: int where "E_BUSY = 15"
definition E_NOENT :: int where "E_NOENT = 16"
definition E_ISDIR :: int where "E_ISDIR = 17"
definition E_NOTDIR :: int where "E_NOTDIR = 18"
definition E_UNIMP :: int where "E_UNIMP = 20"
definition E_MAX_OPEN :: int where "E_MAX_OPEN = 22"
definition E_EXISTS :: int where "E_EXISTS = 23"
definition E_NOTEMPTY :: int where "E_NOTEMPTY = 24"

lemmas errno_values [errno] =
  E_BAD_PROC_def E_INVAL_def E_NO_MEM_def E_NO_FREE_PROC_def E_KILLED_def E_BUSY_def
  E_NOENT_def E_ISDIR_def E_NOTDIR_def E_UNIMP_def E_MAX_OPEN_def E_EXISTS_def E_NOTEMPTY_def

section \<open>Generic lemmas\<close>

lemma last_Cons_in [simp]: "last (x # xs) \<in> insert x (set xs)"
  by (cases xs) auto

lemma hd_append_in [simp]: "hd (xs @ [y]) \<in> insert y (set xs)"
  by (cases xs) auto

lemma distinct_butlast_last: "distinct (x # xs) \<Longrightarrow> y \<in> set (butlast (x # xs)) \<Longrightarrow> y \<noteq> last (x # xs)"
  by (metis append_butlast_last_id distinct_append list.distinct(1) disjoint_iff list.set_intros(1))

lemma fun_upd_other: "x \<notin> A \<Longrightarrow> y \<in> A \<Longrightarrow> (f(x := v)) y = f y"
  by auto

end
