(* ===== verification/ListH.thy ===== *)
theory ListH
  imports Prelude
begin

text \<open>
  \<open>libs/list.h\<close>: the intrusive circular doubly linked list every kernel component uses.
  The links live in a heap of \<open>prev\<close>/\<open>next\<close> fields indexed by node addresses (any type:
  a component chooses how it names its nodes). The routines are the C ones, write by
  write, so that aliasing and misuse have the effect they have in the kernel. \<open>dlist d h
  xs\<close> says that the heap \<open>d\<close> holds, behind the head \<open>h\<close>, exactly the nodes \<open>xs\<close> in order;
  the lemmas show that the routines implement insertion and deletion on \<open>xs\<close>, and the
  locale \<open>node_list\<close> is the contract the other components rely on.
\<close>

section \<open>The link fields and the routines\<close>

text \<open>\<open>struct list_entry\<close>: one pair of link fields per node.\<close>

record 'a dll =
  nxt :: "'a \<Rightarrow> 'a"
  prv :: "'a \<Rightarrow> 'a"

text \<open>\<open>list_init\<close>: \<open>elm->prev = elm->next = elm\<close>.\<close>

definition list_init :: "'a dll \<Rightarrow> 'a \<Rightarrow> 'a dll" where
  "list_init d elm = d\<lparr>nxt := (nxt d)(elm := elm), prv := (prv d)(elm := elm)\<rparr>"

text \<open>\<open>__list_add\<close>: the four assignments, in the order C evaluates them.\<close>

definition list_add_link :: "'a dll \<Rightarrow> 'a \<Rightarrow> 'a \<Rightarrow> 'a \<Rightarrow> 'a dll" where
  "list_add_link d elm prev next =
     (let d = d\<lparr>prv := (prv d)(next := elm)\<rparr>;
          d = d\<lparr>nxt := (nxt d)(prev := elm)\<rparr>;
          d = d\<lparr>nxt := (nxt d)(elm := next)\<rparr>;
          d = d\<lparr>prv := (prv d)(elm := prev)\<rparr>
      in d)"

text \<open>\<open>__list_del\<close>.\<close>

definition list_del_link :: "'a dll \<Rightarrow> 'a \<Rightarrow> 'a \<Rightarrow> 'a dll" where
  "list_del_link d prev next =
     (let d = d\<lparr>nxt := (nxt d)(prev := next)\<rparr>;
          d = d\<lparr>prv := (prv d)(next := prev)\<rparr>
      in d)"

definition list_next :: "'a dll \<Rightarrow> 'a \<Rightarrow> 'a" where
  "list_next d listelm = nxt d listelm"

definition list_prev :: "'a dll \<Rightarrow> 'a \<Rightarrow> 'a" where
  "list_prev d listelm = prv d listelm"

definition list_empty :: "'a dll \<Rightarrow> 'a \<Rightarrow> bool" where
  "list_empty d l \<longleftrightarrow> nxt d l = l"

definition list_add_after :: "'a dll \<Rightarrow> 'a \<Rightarrow> 'a \<Rightarrow> 'a dll" where
  "list_add_after d listelm elm = list_add_link d elm listelm (nxt d listelm)"

definition list_add_before :: "'a dll \<Rightarrow> 'a \<Rightarrow> 'a \<Rightarrow> 'a dll" where
  "list_add_before d listelm elm = list_add_link d elm (prv d listelm) listelm"

definition list_add :: "'a dll \<Rightarrow> 'a \<Rightarrow> 'a \<Rightarrow> 'a dll" where
  "list_add d listelm elm = list_add_after d listelm elm"

definition list_del :: "'a dll \<Rightarrow> 'a \<Rightarrow> 'a dll" where
  "list_del d listelm = list_del_link d (prv d listelm) (nxt d listelm)"

definition list_del_init :: "'a dll \<Rightarrow> 'a \<Rightarrow> 'a dll" where
  "list_del_init d listelm = list_init (list_del d listelm) listelm"

lemmas list_h_defs =
  list_init_def list_add_link_def list_del_link_def list_next_def list_prev_def
  list_empty_def list_add_after_def list_add_before_def list_add_def list_del_def
  list_del_init_def

section \<open>The abstraction to a sequence of nodes\<close>

text \<open>\<open>linked d a xs b\<close>: following \<open>next\<close> from \<open>a\<close> passes through \<open>xs\<close> and arrives at \<open>b\<close>, and
  the \<open>prev\<close> fields lead back.\<close>

fun linked :: "'a dll \<Rightarrow> 'a \<Rightarrow> 'a list \<Rightarrow> 'a \<Rightarrow> bool" where
  "linked d a [] b \<longleftrightarrow> nxt d a = b \<and> prv d b = a"
| "linked d a (x # xs) b \<longleftrightarrow> nxt d a = x \<and> prv d x = a \<and> linked d x xs b"

definition dlist :: "'a dll \<Rightarrow> 'a \<Rightarrow> 'a list \<Rightarrow> bool" where
  "dlist d h xs \<longleftrightarrow> distinct (h # xs) \<and> linked d h xs h"

lemma linked_append:
  "linked d a (xs @ y # ys) b \<longleftrightarrow> linked d a xs y \<and> linked d y ys b"
  by (induction xs arbitrary: a) auto

lemma linked_last: "linked d a xs b \<Longrightarrow> nxt d (last (a # xs)) = b \<and> prv d b = last (a # xs)"
  by (induction xs arbitrary: a) auto

lemma linked_first: "linked d a xs b \<Longrightarrow> nxt d a = hd (xs @ [b]) \<and> prv d (hd (xs @ [b])) = a"
  by (cases xs) auto

lemma linked_split:
  "linked d a (xs @ ys) b \<longleftrightarrow> linked d a xs (hd (ys @ [b])) \<and> linked d (last (a # xs)) ys b"
proof (cases ys)
  case Nil
  then show ?thesis using linked_last by fastforce
next
  case (Cons y zs)
  have "linked d a xs y \<Longrightarrow> nxt d (last (a # xs)) = y \<and> prv d y = last (a # xs)"
    by (rule linked_last)
  with Cons show ?thesis by (auto simp: linked_append)
qed

lemma linked_cong:
  assumes "\<forall>x \<in> set (a # xs). nxt d' x = nxt d x" "\<forall>x \<in> set (xs @ [b]). prv d' x = prv d x"
  shows "linked d' a xs b \<longleftrightarrow> linked d a xs b"
  using assms by (induction xs arbitrary: a) auto

text \<open>Redirecting the last link of a segment, and the first.\<close>

lemma linked_retarget:
  assumes "linked d a xs m" "\<forall>x \<in> set (butlast (a # xs)). nxt d' x = nxt d x"
    "\<forall>x \<in> set xs. prv d' x = prv d x" "nxt d' (last (a # xs)) = e" "prv d' e = last (a # xs)"
  shows "linked d' a xs e"
  using assms by (induction xs arbitrary: a) auto

lemma linked_resource:
  assumes "linked d a ys b" "\<forall>x \<in> set ys. nxt d' x = nxt d x"
    "\<forall>x \<in> set (tl (ys @ [b])). prv d' x = prv d x"
    "nxt d' e = hd (ys @ [b])" "prv d' (hd (ys @ [b])) = e"
  shows "linked d' e ys b"
proof (cases ys)
  case Nil
  with assms show ?thesis by simp
next
  case (Cons y zs)
  with assms have "linked d' y zs b" by (subst linked_cong [of y zs d' d b]) auto
  with assms Cons show ?thesis by simp
qed

lemma dlist_distinct: "dlist d h xs \<Longrightarrow> distinct xs \<and> h \<notin> set xs"
  by (simp add: dlist_def)

lemma dlist_cong:
  "\<forall>x \<in> set (h # xs). nxt d' x = nxt d x \<and> prv d' x = prv d x \<Longrightarrow> dlist d' h xs \<longleftrightarrow> dlist d h xs"
  unfolding dlist_def by (subst linked_cong [of h xs d' d h]) auto

lemma dlist_Nil [simp]: "dlist d h [] \<longleftrightarrow> nxt d h = h \<and> prv d h = h"
  by (simp add: dlist_def)

text \<open>A heap determines the sequence behind a head.\<close>

lemma linked_unique:
  "linked d a xs h \<Longrightarrow> linked d a ys h \<Longrightarrow> h \<notin> set xs \<Longrightarrow> h \<notin> set ys \<Longrightarrow> xs = ys"
proof (induction xs arbitrary: a ys)
  case Nil
  then show ?case by (cases ys) auto
next
  case (Cons x xs)
  then show ?case by (cases ys) auto
qed

lemma dlist_unique: "dlist d h xs \<Longrightarrow> dlist d h ys \<Longrightarrow> xs = ys"
  by (meson dlist_def distinct.simps(2) linked_unique)

section \<open>The routines on the abstract sequence\<close>

lemma dlist_init: "dlist (list_init d h) h []"
  by (simp add: list_init_def)

lemma list_empty_iff: "dlist d h xs \<Longrightarrow> list_empty d h \<longleftrightarrow> xs = []"
  by (cases xs) (auto simp: list_empty_def dlist_def)

lemma dlist_next:
  "dlist d h (xs @ ys) \<Longrightarrow> list_next d (last (h # xs)) = hd (ys @ [h])"
  unfolding dlist_def list_next_def linked_split by (meson linked_first)

lemma dlist_prev:
  "dlist d h (xs @ ys) \<Longrightarrow> list_prev d (hd (ys @ [h])) = last (h # xs)"
  unfolding dlist_def list_prev_def linked_split by (meson linked_first)

lemma dlist_next_head: "dlist d h xs \<Longrightarrow> list_next d h = hd (xs @ [h])"
  using dlist_next [of d h "[]" xs] by simp

lemma dlist_prev_head: "dlist d h xs \<Longrightarrow> list_prev d h = last (h # xs)"
  using dlist_prev [of d h xs "[]"] by simp

lemma dlist_next_mid: "dlist d h (xs @ x # ys) \<Longrightarrow> list_next d x = hd (ys @ [h])"
  using dlist_next [of d h "xs @ [x]" ys] by simp

lemma dlist_prev_mid: "dlist d h (xs @ x # ys) \<Longrightarrow> list_prev d x = last (h # xs)"
  using dlist_prev [of d h xs "x # ys"] by simp

lemma dlist_add_link:
  assumes dl: "dlist d h (xs @ ys)" and e: "e \<notin> set (h # xs @ ys)"
  shows "dlist (list_add_link d e (last (h # xs)) (hd (ys @ [h]))) h (xs @ e # ys)"
    (is "dlist ?d' _ _")
proof -
  let ?a = "last (h # xs)" and ?b = "hd (ys @ [h])"
  have dis: "distinct (h # xs @ ys)" and l: "linked d h xs ?b" "linked d ?a ys h"
    using dl by (auto simp: dlist_def linked_split)
  have a: "?a \<in> insert h (set xs)" and b: "?b \<in> insert h (set ys)"
    using last_Cons_in [of h xs] hd_append_in [of ys h] by blast+
  have bt: "?b \<notin> set (tl (ys @ [h]))" and bx: "?b \<notin> set xs" and ay: "?a \<notin> set ys"
    using dis a b by (cases ys; auto)+
  have ab: "\<forall>x \<in> set (butlast (h # xs)). x \<noteq> ?a" "\<forall>x \<in> set (butlast (h # xs)). x \<noteq> e"
    using dis e distinct_butlast_last [of h xs] by (auto dest!: in_set_butlastD)
  have te: "e \<notin> set (tl (ys @ [h]))" using e by (cases ys) auto
  have nx: "nxt ?d' z = (if z = e then ?b else if z = ?a then e else nxt d z)" for z
    by (simp add: list_add_link_def Let_def)
  have pv: "prv ?d' z = (if z = e then ?a else if z = ?b then e else prv d z)" for z
    by (simp add: list_add_link_def Let_def)
  have ne: "?a \<noteq> e" "?b \<noteq> e" using a b e by auto
  have "linked ?d' h xs e"
    by (rule linked_retarget [OF l(1)]) (use ab ne e bx in \<open>auto simp: nx pv simp del: last.simps butlast.simps\<close>)
  moreover have "linked ?d' e ys h"
    by (rule linked_resource [OF l(2)]) (use ne e ay te bt in \<open>auto simp: nx pv simp del: last.simps\<close>)
  ultimately show ?thesis
    using dis e by (auto simp: dlist_def linked_append)
qed

lemma dlist_add_after:
  assumes "dlist d h (xs @ ys)" "e \<notin> set (h # xs @ ys)"
  shows "dlist (list_add_after d (last (h # xs)) e) h (xs @ e # ys)"
  using dlist_add_link [OF assms] dlist_next [OF assms(1)]
  by (simp add: list_add_after_def list_next_def)

lemma dlist_add_before:
  assumes "dlist d h (xs @ ys)" "e \<notin> set (h # xs @ ys)"
  shows "dlist (list_add_before d (hd (ys @ [h])) e) h (xs @ e # ys)"
  using dlist_add_link [OF assms] dlist_prev [OF assms(1)]
  by (simp add: list_add_before_def list_prev_def)

lemma dlist_add_head:
  "dlist d h xs \<Longrightarrow> e \<notin> set (h # xs) \<Longrightarrow> dlist (list_add d h e) h (e # xs)"
  using dlist_add_after [of d h "[]" xs e] by (simp add: list_add_def)

lemma dlist_add_tail:
  "dlist d h xs \<Longrightarrow> e \<notin> set (h # xs) \<Longrightarrow> dlist (list_add_before d h e) h (xs @ [e])"
  using dlist_add_before [of d h xs "[]" e] by simp

lemma dlist_del:
  assumes dl: "dlist d h (xs @ x # ys)"
  shows "dlist (list_del d x) h (xs @ ys)"
proof -
  let ?a = "last (h # xs)" and ?b = "hd (ys @ [h])"
  let ?d' = "list_del d x"
  have dis: "distinct (h # xs @ x # ys)" and l: "linked d h xs x" "linked d x ys h"
    using dl by (auto simp: dlist_def linked_append)
  have pn: "prv d x = ?a" "nxt d x = ?b"
    using dlist_next_mid [OF dl] dlist_prev_mid [OF dl] by (auto simp: list_next_def list_prev_def)
  have nx: "nxt ?d' z = (if z = ?a then ?b else nxt d z)" for z
    using pn by (simp add: list_del_def list_del_link_def Let_def)
  have pv: "prv ?d' z = (if z = ?b then ?a else prv d z)" for z
    using pn by (simp add: list_del_def list_del_link_def Let_def)
  have a: "?a \<in> insert h (set xs)" and b: "?b \<in> insert h (set ys)"
    using last_Cons_in [of h xs] hd_append_in [of ys h] by blast+
  have sd: "?b \<notin> set (tl (ys @ [h]))" "?b \<notin> set xs" "?a \<notin> set ys"
    using dis a b by (cases ys; auto)+
  have ab: "\<forall>z \<in> set (butlast (h # xs)). z \<noteq> ?a"
    using dis distinct_butlast_last [of h xs] by auto
  have "linked ?d' h xs ?b"
    by (rule linked_retarget [OF l(1)]) (use ab sd in \<open>auto simp: nx pv simp del: last.simps butlast.simps\<close>)
  moreover have "linked ?d' ?a ys h"
    by (rule linked_resource [OF l(2)]) (use sd in \<open>auto simp: nx pv simp del: last.simps\<close>)
  ultimately show ?thesis
    using dis by (auto simp: dlist_def linked_split)
qed

lemma dlist_del_init:
  assumes dl: "dlist d h (xs @ x # ys)"
  shows "dlist (list_del_init d x) h (xs @ ys)" "list_empty (list_del_init d x) x"
proof -
  have "x \<notin> set (h # xs @ ys)" using dl by (auto simp: dlist_def)
  then have "dlist (list_init (list_del d x) x) h (xs @ ys) \<longleftrightarrow> dlist (list_del d x) h (xs @ ys)"
    by (intro dlist_cong) (auto simp: list_init_def)
  with dlist_del [OF dl] show "dlist (list_del_init d x) h (xs @ ys)"
    by (simp add: list_del_init_def)
qed (simp add: list_del_init_def list_init_def list_empty_def)

text \<open>What the two updates leave alone, for several lists in one link heap.\<close>

lemma dlist_add_head_frame:
  assumes "dlist d h xs" "y \<notin> set (e # h # xs)"
  shows "nxt (list_add d h e) y = nxt d y \<and> prv (list_add d h e) y = prv d y"
proof -
  have "nxt d h \<in> insert h (set xs)"
    using dlist_next_head [OF assms(1)] hd_append_in [of xs h] by (simp add: list_next_def)
  with assms(2) show ?thesis by (auto simp: list_add_def list_add_after_def list_add_link_def Let_def)
qed

lemma dlist_del_frame:
  assumes "dlist d h (xs @ x # ys)" "y \<notin> set (h # xs @ ys)"
  shows "nxt (list_del d x) y = nxt d y \<and> prv (list_del d x) y = prv d y"
proof -
  have "nxt d x \<in> insert h (set ys)" "prv d x \<in> insert h (set xs)"
    using dlist_next_mid [OF assms(1)] dlist_prev_mid [OF assms(1)] hd_append_in [of ys h] last_Cons_in [of h xs]
    unfolding list_next_def list_prev_def by metis+
  with assms(2) show ?thesis by (auto simp: list_del_def list_del_link_def Let_def)
qed

section \<open>Traversals\<close>

text \<open>
  The two shapes of \<open>while ((le = list_next(le)) != head)\<close> loops: a search that breaks at
  the first node satisfying \<open>P\<close> (and leaves \<open>le\<close> at the head otherwise), and a loop
  that folds over every node. On a corrupted heap either may run forever, which is the
  value \<open>None\<close>; on a list they return what \<open>find\<close> and \<open>fold\<close> return.
\<close>

partial_function (option) list_scan :: "'a dll \<Rightarrow> 'a \<Rightarrow> ('a \<Rightarrow> bool) \<Rightarrow> 'a \<Rightarrow> 'a option" where
  "list_scan d h P le =
     (if nxt d le = h then Some h
      else if P (nxt d le) then Some (nxt d le)
      else list_scan d h P (nxt d le))"

partial_function (option) list_fold :: "'a dll \<Rightarrow> 'a \<Rightarrow> ('a \<Rightarrow> 'b \<Rightarrow> 'b) \<Rightarrow> 'a \<Rightarrow> 'b \<Rightarrow> 'b option" where
  "list_fold d h f le acc =
     (if nxt d le = h then Some acc
      else list_fold d h f (nxt d le) (f (nxt d le) acc))"

declare list_scan.simps [code] list_fold.simps [code]

lemma linked_scan:
  "linked d a ys h \<Longrightarrow> h \<notin> set ys \<Longrightarrow>
   list_scan d h P a = Some (case find P ys of None \<Rightarrow> h | Some x \<Rightarrow> x)"
proof (induction ys arbitrary: a)
  case Nil
  then show ?case by (subst list_scan.simps) simp
next
  case (Cons y ys)
  then show ?case by (subst list_scan.simps) auto
qed

lemma dlist_scan:
  "dlist d h xs \<Longrightarrow> list_scan d h P h = Some (case find P xs of None \<Rightarrow> h | Some x \<Rightarrow> x)"
  by (simp add: dlist_def linked_scan)

lemma linked_fold:
  "linked d a ys h \<Longrightarrow> h \<notin> set ys \<Longrightarrow> list_fold d h f a acc = Some (fold f ys acc)"
proof (induction ys arbitrary: a acc)
  case Nil
  then show ?case by (subst list_fold.simps) simp
next
  case (Cons y ys)
  then show ?case by (subst list_fold.simps) auto
qed

lemma dlist_fold: "dlist d h xs \<Longrightarrow> list_fold d h f h acc = Some (fold f xs acc)"
  by (simp add: dlist_def linked_fold)

section \<open>The contract of the list routines\<close>

text \<open>
  What a component may assume of the routines: a view \<open>seq d h xs\<close> of the heap as a list of
  nodes, and the effect of every routine on it. The client facts below (a node added is
  removed again, a queue is first-in first-out) follow from the contract alone.
\<close>

locale node_list =
  fixes seq :: "'d \<Rightarrow> 'a \<Rightarrow> 'a list \<Rightarrow> bool"
    and init :: "'d \<Rightarrow> 'a \<Rightarrow> 'd"
    and first :: "'d \<Rightarrow> 'a \<Rightarrow> 'a"
    and push_front :: "'d \<Rightarrow> 'a \<Rightarrow> 'a \<Rightarrow> 'd"
    and push_back :: "'d \<Rightarrow> 'a \<Rightarrow> 'a \<Rightarrow> 'd"
    and remove :: "'d \<Rightarrow> 'a \<Rightarrow> 'd"
  assumes seq_init: "seq (init d h) h []"
    and seq_distinct: "seq d h xs \<Longrightarrow> distinct (h # xs)"
    and seq_first: "seq d h xs \<Longrightarrow> first d h = hd (xs @ [h])"
    and seq_push_front: "seq d h xs \<Longrightarrow> e \<notin> set (h # xs) \<Longrightarrow> seq (push_front d h e) h (e # xs)"
    and seq_push_back: "seq d h xs \<Longrightarrow> e \<notin> set (h # xs) \<Longrightarrow> seq (push_back d h e) h (xs @ [e])"
    and seq_remove: "seq d h (xs @ x # ys) \<Longrightarrow> seq (remove d x) h (xs @ ys)"
begin

lemma push_all:
  "seq d h xs \<Longrightarrow> distinct (h # xs @ es) \<Longrightarrow> seq (fold (\<lambda>e d. push_back d h e) es d) h (xs @ es)"
proof (induction es arbitrary: d xs)
  case Nil
  then show ?case by simp
next
  case (Cons e es)
  from Cons.prems have "seq (push_back d h e) h (xs @ [e])" by (intro seq_push_back) auto
  with Cons.IH [of "push_back d h e" "xs @ [e]"] Cons.prems show ?case by simp
qed

lemma pop_front: "seq d h (x # xs) \<Longrightarrow> first d h = x \<and> seq (remove d (first d h)) h xs"
  using seq_first [of d h "x # xs"] seq_remove [of d h "[]" x xs] by simp

lemma push_back_remove:
  "seq d h xs \<Longrightarrow> e \<notin> set (h # xs) \<Longrightarrow> seq (remove (push_back d h e) e) h xs"
  using seq_push_back [of d h xs e] seq_remove [of _ h xs e "[]"] by simp

end

interpretation dl: node_list dlist list_init list_next list_add list_add_before list_del
  by unfold_locales
    (auto simp: dlist_init dlist_next_head dlist_add_head dlist_add_tail dlist_del
      simp del: dlist_Nil dest: dlist_distinct)

end
