(* ===== verification/PmmPage.thy ===== *)
theory PmmPage
  imports ListH
begin

unbundle bit_operations_syntax

text \<open>
  Page descriptors and the free list shared by the physical memory managers
  (\<open>kern/mm/memlayout.h\<close>, and the code that \<open>default_pmm.c\<close> and \<open>best_fit_pmm.c\<close> have in
  common): the page array, the flag bits, the free list threaded through the page
  descriptors, and the representation invariant \<open>free_area\<close>. A page descriptor is named by
  its index in the array \<open>pages\<close>, so \<open>page + n\<close> is index arithmetic; the links of the free
  list live in a heap of \<open>list.h\<close> nodes. Counts are unbounded: the array is far shorter than
  \<open>2^32\<close> entries, so the \<open>unsigned int\<close> fields cannot wrap.
\<close>

section \<open>struct Page\<close>

record page =
  pg_ref :: int
  pg_flags :: "64 word"
  pg_property :: nat

definition PG_reserved :: nat where "PG_reserved = 0"
definition PG_property :: nat where "PG_property = 1"

definition SetPageReserved :: "page \<Rightarrow> page" where
  "SetPageReserved p = p\<lparr>pg_flags := set_bit PG_reserved (pg_flags p)\<rparr>"
definition PageReserved :: "page \<Rightarrow> bool" where
  "PageReserved p = bit (pg_flags p) PG_reserved"
definition SetPageProperty :: "page \<Rightarrow> page" where
  "SetPageProperty p = p\<lparr>pg_flags := set_bit PG_property (pg_flags p)\<rparr>"
definition ClearPageProperty :: "page \<Rightarrow> page" where
  "ClearPageProperty p = p\<lparr>pg_flags := unset_bit PG_property (pg_flags p)\<rparr>"
definition PageProperty :: "page \<Rightarrow> bool" where
  "PageProperty p = bit (pg_flags p) PG_property"

lemma page_flag_simps [simp]:
  "PageProperty (SetPageProperty p)" "\<not> PageProperty (ClearPageProperty p)"
  "PageReserved (SetPageProperty p) = PageReserved p"
  "PageReserved (ClearPageProperty p) = PageReserved p"
  "PageReserved (SetPageReserved p)" "PageProperty (SetPageReserved p) = PageProperty p"
  "pg_property (SetPageProperty p) = pg_property p"
  "pg_property (ClearPageProperty p) = pg_property p"
  "pg_ref (SetPageProperty p) = pg_ref p" "pg_ref (ClearPageProperty p) = pg_ref p"
  "PageProperty (p\<lparr>pg_property := n\<rparr>) = PageProperty p"
  "PageReserved (p\<lparr>pg_property := n\<rparr>) = PageReserved p"
  "PageProperty (p\<lparr>pg_ref := r\<rparr>) = PageProperty p"
  "PageReserved (p\<lparr>pg_ref := r\<rparr>) = PageReserved p"
  "\<not> PageProperty (p\<lparr>pg_flags := 0\<rparr>)" "\<not> PageReserved (p\<lparr>pg_flags := 0\<rparr>)"
  by (auto simp: PageProperty_def PageReserved_def SetPageProperty_def ClearPageProperty_def
      SetPageReserved_def PG_reserved_def PG_property_def bit_set_bit_iff bit_unset_bit_iff)

lemma zero_flags: "pg_flags p = 0 \<Longrightarrow> \<not> PageProperty p \<and> \<not> PageReserved p"
  by (simp add: PageProperty_def PageReserved_def)

section \<open>The free area\<close>

text \<open>A link of the free list is the list head \<open>free_list\<close> or the \<open>page_link\<close> of a page;
  \<open>le2page\<close> is only applied to the latter.\<close>

datatype le = FreeList | PageLink nat

primrec le2page :: "le \<Rightarrow> nat" where
  "le2page (PageLink p) = p"

text \<open>\<open>free_area_t\<close> together with the page array it is threaded through.\<close>

record pmm =
  pg :: "nat \<Rightarrow> page"
  links :: "le dll"
  nr_free :: nat

section \<open>Code the two list-based managers share\<close>

text \<open>\<open>for (; p != base + n; p ++) body\<close>: the body checks and resets one descriptor.\<close>

fun for_pages :: "(page \<Rightarrow> page option) \<Rightarrow> (nat \<Rightarrow> page) \<Rightarrow> nat \<Rightarrow> nat \<Rightarrow> (nat \<Rightarrow> page) option" where
  "for_pages body pgs p 0 = Some pgs"
| "for_pages body pgs p (Suc n) = do {
     x \<leftarrow> body (pgs p);
     for_pages body (pgs(p := x)) (Suc p) n
   }"

text \<open>
  The ordered insertion of \<open>init_memmap\<close> and \<open>free_pages\<close>. The \<open>else if\<close> branch adds the
  block after the last node and has no \<open>break\<close>: the loop goes on from the node it stands on.
\<close>

partial_function (option) insert_loop :: "le dll \<Rightarrow> nat \<Rightarrow> le \<Rightarrow> le dll option" where
  "insert_loop d base le =
     (if nxt d le = FreeList then Some d
      else if base < le2page (nxt d le) then Some (list_add_before d (nxt d le) (PageLink base))
      else if nxt d (nxt d le) = FreeList then
        insert_loop (list_add d (nxt d le) (PageLink base)) base (nxt d le)
      else insert_loop d base (nxt d le))"

declare insert_loop.simps [code]

definition insert_free :: "le dll \<Rightarrow> nat \<Rightarrow> le dll option" where
  "insert_free d base =
     (if list_empty d FreeList then Some (list_add d FreeList (PageLink base))
      else insert_loop d base FreeList)"

text \<open>The tail of \<open>alloc_pages\<close>: unlink \<open>page\<close>, put what is left of it back, clear its flag.\<close>

definition take_block :: "pmm \<Rightarrow> nat \<Rightarrow> nat \<Rightarrow> pmm" where
  "take_block s page n =
     (let prev = list_prev (links s) (PageLink page);
          d = list_del (links s) (PageLink page);
          (pgs, d) =
            (if n < pg_property (pg s page) then
               let p = page + n;
                   x = (pg s p)\<lparr>pg_property := pg_property (pg s page) - n\<rparr>
               in ((pg s)(p := SetPageProperty x), list_add d prev (PageLink p))
             else (pg s, d))
      in s\<lparr>pg := pgs(page := ClearPageProperty (pgs page)), links := d, nr_free := nr_free s - n\<rparr>)"

text \<open>Merging the block at \<open>q\<close> into the block at \<open>p\<close>, as both merge steps of \<open>free_pages\<close> do.\<close>

definition merge_blocks :: "pmm \<Rightarrow> nat \<Rightarrow> nat \<Rightarrow> pmm" where
  "merge_blocks s p q =
     (let x = (pg s p)\<lparr>pg_property := pg_property (pg s p) + pg_property (pg s q)\<rparr>;
          pgs = (pg s)(p := x)
      in s\<lparr>pg := pgs(q := ClearPageProperty (pgs q)), links := list_del (links s) (PageLink q)\<rparr>)"

text \<open>The end of \<open>free_pages\<close>: try the block below, then the block above.\<close>

definition merge_low :: "pmm \<Rightarrow> nat \<Rightarrow> pmm \<times> nat" where
  "merge_low s base =
     (case list_prev (links s) (PageLink base) of
        FreeList \<Rightarrow> (s, base)
      | PageLink p \<Rightarrow>
          if p + pg_property (pg s p) = base then (merge_blocks s p base, p) else (s, base))"

definition merge_high :: "pmm \<Rightarrow> nat \<Rightarrow> pmm" where
  "merge_high s base =
     (case list_next (links s) (PageLink base) of
        FreeList \<Rightarrow> s
      | PageLink p \<Rightarrow>
          if base + pg_property (pg s base) = p then merge_blocks s base p else s)"

definition coalesce :: "pmm \<Rightarrow> nat \<Rightarrow> pmm" where
  "coalesce s base = (let (s, base) = merge_low s base in merge_high s base)"

section \<open>The invariant of the free area\<close>

definition block :: "(nat \<Rightarrow> page) \<Rightarrow> nat \<Rightarrow> nat set" where
  "block pgs p = {p ..< p + pg_property (pgs p)}"

definition freeset :: "(nat \<Rightarrow> page) \<Rightarrow> nat list \<Rightarrow> nat set" where
  "freeset pgs xs = (\<Union>p \<in> set xs. block pgs p)"

definition spaced :: "(nat \<Rightarrow> page) \<Rightarrow> nat list \<Rightarrow> bool" where
  "spaced pgs xs \<longleftrightarrow> sorted_wrt (\<lambda>p q. p + pg_property (pgs p) \<le> q) xs"

definition coalesced :: "(nat \<Rightarrow> page) \<Rightarrow> nat list \<Rightarrow> bool" where
  "coalesced pgs xs \<longleftrightarrow> sorted_wrt (\<lambda>p q. p + pg_property (pgs p) < q) xs"

text \<open>The free list of \<open>s\<close> holds exactly the blocks headed by \<open>xs\<close>: in address order, pairwise
  disjoint, not empty, flagged, and counted by \<open>nr_free\<close>.\<close>

definition free_area :: "pmm \<Rightarrow> nat list \<Rightarrow> bool" where
  "free_area s xs \<longleftrightarrow>
     dlist (links s) FreeList (map PageLink xs)
     \<and> spaced (pg s) xs
     \<and> (\<forall>p \<in> set xs. 0 < pg_property (pg s p))
     \<and> (\<forall>p. PageProperty (pg s p) \<longleftrightarrow> p \<in> set xs)
     \<and> (\<forall>q \<in> freeset (pg s) xs. \<not> PageReserved (pg s q))
     \<and> nr_free s = sum_list (map (\<lambda>p. pg_property (pg s p)) xs)"

lemma freeset_simps [simp]:
  "freeset pgs [] = {}" "freeset pgs (x # xs) = block pgs x \<union> freeset pgs xs"
  "freeset pgs (xs @ ys) = freeset pgs xs \<union> freeset pgs ys"
  by (auto simp: freeset_def)

lemma head_in_block: "0 < pg_property (pgs p) \<Longrightarrow> p \<in> block pgs p"
  by (simp add: block_def)

lemma freeset_cong: "\<forall>p \<in> set xs. pg_property (pgs' p) = pg_property (pgs p) \<Longrightarrow> freeset pgs' xs = freeset pgs xs"
  by (auto simp: freeset_def block_def)

lemma spaced_append:
  "spaced pgs (xs @ ys) \<longleftrightarrow> spaced pgs xs \<and> spaced pgs ys \<and>
     (\<forall>p \<in> set xs. \<forall>q \<in> set ys. p + pg_property (pgs p) \<le> q)"
  by (auto simp: spaced_def sorted_wrt_append)

lemma spaced_Cons:
  "spaced pgs (x # xs) \<longleftrightarrow> spaced pgs xs \<and> (\<forall>q \<in> set xs. x + pg_property (pgs x) \<le> q)"
  by (auto simp: spaced_def)

lemma coalesced_append:
  "coalesced pgs (xs @ ys) \<longleftrightarrow> coalesced pgs xs \<and> coalesced pgs ys \<and>
     (\<forall>p \<in> set xs. \<forall>q \<in> set ys. p + pg_property (pgs p) < q)"
  by (auto simp: coalesced_def sorted_wrt_append)

lemma coalesced_Cons:
  "coalesced pgs (x # xs) \<longleftrightarrow> coalesced pgs xs \<and> (\<forall>q \<in> set xs. x + pg_property (pgs x) < q)"
  by (auto simp: coalesced_def)

lemma coalesced_cong:
  "\<forall>p \<in> set xs. pg_property (pgs' p) = pg_property (pgs p) \<Longrightarrow> coalesced pgs' xs \<longleftrightarrow> coalesced pgs xs"
  unfolding coalesced_def
  by (induction xs) auto

lemma spaced_cong:
  "\<forall>p \<in> set xs. pg_property (pgs' p) = pg_property (pgs p) \<Longrightarrow> spaced pgs' xs \<longleftrightarrow> spaced pgs xs"
  unfolding spaced_def
  by (induction xs) auto

lemma free_area_distinct: "free_area s xs \<Longrightarrow> distinct xs"
  by (auto simp: free_area_def dlist_def distinct_map)

lemma card_freeset:
  "spaced pgs xs \<Longrightarrow> \<forall>p \<in> set xs. 0 < pg_property (pgs p) \<Longrightarrow>
   finite (freeset pgs xs) \<and> card (freeset pgs xs) = sum_list (map (\<lambda>p. pg_property (pgs p)) xs)"
proof (induction xs)
  case Nil
  then show ?case by simp
next
  case (Cons x xs)
  then have "block pgs x \<inter> freeset pgs xs = {}"
    by (force simp: spaced_Cons block_def freeset_def)
  with Cons show ?case
    by (auto simp: spaced_Cons block_def card_Un_disjoint)
qed

text \<open>The block list is determined by the state, so the invariant names the free pages.\<close>

lemma free_area_unique: "free_area s xs \<Longrightarrow> free_area s ys \<Longrightarrow> xs = ys"
  using dlist_unique [of "links s" FreeList "map PageLink xs" "map PageLink ys"]
  by (auto simp: free_area_def dest: map_injective intro: injI)

definition free_pages_of :: "pmm \<Rightarrow> nat set" where
  "free_pages_of s = {q. \<exists>p. PageProperty (pg s p) \<and> q \<in> block (pg s) p}"

lemma free_pages_of_area: "free_area s xs \<Longrightarrow> free_pages_of s = freeset (pg s) xs"
  by (auto simp: free_area_def free_pages_of_def freeset_def)

lemma free_area_card:
  "free_area s xs \<Longrightarrow> finite (free_pages_of s) \<and> card (free_pages_of s) = nr_free s"
  using card_freeset [of "pg s" xs] free_pages_of_area [of s xs] by (simp add: free_area_def)

lemma free_area_inside:
  "free_area s xs \<Longrightarrow> p \<in> set xs \<Longrightarrow> q \<in> set xs \<Longrightarrow> q \<in> block (pg s) p \<Longrightarrow> q = p"
proof -
  assume fa: "free_area s xs" and "p \<in> set xs" and q: "q \<in> set xs" "q \<in> block (pg s) p"
  then obtain us vs where "xs = us @ p # vs" by (meson split_list)
  with fa q show "q = p"
    by (force simp: free_area_def spaced_append spaced_Cons block_def)
qed

end
