(* ===== verification/FreeArea.thy ===== *)
theory FreeArea
  imports PmmPage
begin

text \<open>
  The shared steps of the list-based managers keep the free area: carving an allocation out
  of a block, inserting a freed block in address order, and merging it with its neighbours.
  The last section follows the insertion loop into the branch without \<open>break\<close>.
\<close>

section \<open>The loop over page descriptors\<close>

lemma for_pages_Some:
  "for_pages body pgs p n = Some pgs' \<longleftrightarrow>
     (\<forall>q. if p \<le> q \<and> q < p + n then body (pgs q) = Some (pgs' q) else pgs' q = pgs q)"
proof (induction n arbitrary: pgs p)
  case 0
  then show ?case by auto
next
  case (Suc n)
  show ?case
  proof (cases "body (pgs p)")
    case None
    then show ?thesis by (auto intro!: exI [of _ p])
  next
    case (Some x)
    have *: "(if Suc p \<le> q \<and> q < Suc p + n then body ((pgs(p := x)) q) = Some (pgs' q) else pgs' q = (pgs(p := x)) q)
      \<longleftrightarrow> (if p \<le> q \<and> q < p + Suc n then body (pgs q) = Some (pgs' q) else pgs' q = pgs q)" for q
      using Some by (cases "q = p") auto
    show ?thesis using Some by (simp only: for_pages.simps Suc.IH * Option.bind.simps)
  qed
qed

lemma for_pages_reset:
  "for_pages (\<lambda>x. if ok x then Some (f x) else None) pgs p n =
     (if \<forall>q. p \<le> q \<and> q < p + n \<longrightarrow> ok (pgs q)
      then Some (\<lambda>q. if p \<le> q \<and> q < p + n then f (pgs q) else pgs q) else None)"
  (is "?l = ?r")
proof (cases "\<forall>q. p \<le> q \<and> q < p + n \<longrightarrow> ok (pgs q)")
  case True
  then show ?thesis by (auto simp: for_pages_Some)
next
  case False
  then obtain q where q: "p \<le> q" "q < p + n" "\<not> ok (pgs q)" by auto
  have "?l \<noteq> Some g" for g
  proof
    assume "?l = Some g"
    with q show False unfolding for_pages_Some by (auto dest!: spec [of _ q])
  qed
  with False show ?thesis by (cases ?l) auto
qed

section \<open>Ordered insertion\<close>

lemma insert_loop_before:
  "linked d a (map PageLink (us @ v # vs)) FreeList \<Longrightarrow> \<forall>u \<in> set us. u \<le> base \<Longrightarrow> base < v \<Longrightarrow>
   insert_loop d base a = Some (list_add_before d (PageLink v) (PageLink base))"
proof (induction us arbitrary: a)
  case Nil
  then show ?case by (subst insert_loop.simps) simp
next
  case (Cons u us)
  have "nxt d (PageLink u) \<noteq> FreeList"
    using Cons.prems(1) by (cases us) auto
  with Cons show ?case by (subst insert_loop.simps) auto
qed

lemma insert_free_before:
  assumes "dlist d FreeList (map PageLink (us @ v # vs))" "\<forall>u \<in> set us. u < base" "base < v"
    and "\<forall>w \<in> set vs. base < w"
  obtains d' where "insert_free d base = Some d'"
    "dlist d' FreeList (map PageLink (us @ base # v # vs))"
proof -
  have "\<not> list_empty d FreeList"
    using assms(1) list_empty_iff [of d FreeList] by simp
  moreover have "insert_loop d base FreeList = Some (list_add_before d (PageLink v) (PageLink base))"
    using assms by (intro insert_loop_before [of d FreeList us v vs]) (auto simp: dlist_def)
  moreover have "dlist (list_add_before d (PageLink v) (PageLink base)) FreeList
      (map PageLink (us @ base # v # vs))"
    using dlist_add_before [of d FreeList "map PageLink us" "PageLink v # map PageLink vs" "PageLink base"]
      assms by auto
  ultimately show ?thesis by (intro that) (simp_all add: insert_free_def)
qed

lemma insert_free_empty:
  assumes "dlist d FreeList []"
  obtains d' where "insert_free d base = Some d'" "dlist d' FreeList [PageLink base]"
  using assms dlist_add_head [OF assms, of "PageLink base"] list_empty_iff [OF assms]
  by (intro that [of "list_add d FreeList (PageLink base)"]) (simp_all add: insert_free_def)

section \<open>Taking pages out of a block\<close>

lemma take_block_area:
  assumes fa: "free_area s (us @ p # vs)" and n: "0 < n" "n \<le> pg_property (pg s p)"
  defines "rest \<equiv> if n < pg_property (pg s p) then [p + n] else []"
  shows "free_area (take_block s p n) (us @ rest @ vs)"
    and "freeset (pg (take_block s p n)) (us @ rest @ vs) = freeset (pg s) (us @ p # vs) - {p ..< p + n}"
    and "\<And>q. q \<noteq> p \<Longrightarrow> q \<noteq> p + n \<or> n = pg_property (pg s p) \<Longrightarrow> pg (take_block s p n) q = pg s q"
    and "pg_property (pg (take_block s p n) (p + n)) =
           (if n < pg_property (pg s p) then pg_property (pg s p) - n else pg_property (pg s (p + n)))"
proof -
  let ?L = "pg_property (pg s p)" and ?s' = "take_block s p n"
  have dl: "dlist (links s) FreeList (map PageLink us @ PageLink p # map PageLink vs)"
    and sp: "spaced (pg s) (us @ p # vs)" and fl: "\<And>q. PageProperty (pg s q) \<longleftrightarrow> q \<in> set (us @ p # vs)"
    and res: "\<And>q. q \<in> freeset (pg s) (us @ p # vs) \<Longrightarrow> \<not> PageReserved (pg s q)"
    and pos: "\<And>q. q \<in> set (us @ p # vs) \<Longrightarrow> 0 < pg_property (pg s q)"
    and nr: "nr_free s = sum_list (map (\<lambda>p. pg_property (pg s p)) (us @ p # vs))"
    using fa by (auto simp: free_area_def)
  have lo: "\<And>u. u \<in> set us \<Longrightarrow> u + pg_property (pg s u) \<le> p"
    and hi: "\<And>v. v \<in> set vs \<Longrightarrow> p + ?L \<le> v"
    and ulv: "\<And>u v. u \<in> set us \<Longrightarrow> v \<in> set vs \<Longrightarrow> u + pg_property (pg s u) \<le> v"
    using sp by (auto simp: spaced_append spaced_Cons)
  have lo': "u < p" if "u \<in> set us" for u using lo [OF that] pos [of u] that by auto
  have new: "p + n \<notin> set (us @ p # vs)" if "n < ?L"
    using that n lo' hi by force
  have pgs': "pg ?s' q = (if q = p then ClearPageProperty (pg s p)
      else if n < ?L \<and> q = p + n then SetPageProperty ((pg s q)\<lparr>pg_property := ?L - n\<rparr>) else pg s q)" for q
    using n by (auto simp: take_block_def Let_def)
  have prop': "pg_property (pg ?s' q) = (if n < ?L \<and> q = p + n then ?L - n else pg_property (pg s q))" for q
    by (auto simp: pgs')
  show "\<And>q. q \<noteq> p \<Longrightarrow> q \<noteq> p + n \<or> n = ?L \<Longrightarrow> pg ?s' q = pg s q"
    by (auto simp: pgs')
  show "pg_property (pg ?s' (p + n)) = (if n < ?L then ?L - n else pg_property (pg s (p + n)))"
    by (simp add: prop')
  have same: "\<forall>q \<in> set us \<union> set vs. pg_property (pg ?s' q) = pg_property (pg s q)"
    using new by (auto simp: prop')
  have fs_uv: "freeset (pg ?s') us = freeset (pg s) us" "freeset (pg ?s') vs = freeset (pg s) vs"
    using same by (auto intro!: freeset_cong)
  have below: "freeset (pg s) us \<inter> {p ..< p + n} = {}" and above: "freeset (pg s) vs \<inter> {p ..< p + n} = {}"
    using lo hi n by (force simp: freeset_def block_def)+
  have fs_rest: "freeset (pg ?s') rest = block (pg s) p - {p ..< p + n}"
    using n by (auto simp: rest_def block_def prop')
  show fs: "freeset (pg ?s') (us @ rest @ vs) = freeset (pg s) (us @ p # vs) - {p ..< p + n}"
    using fs_uv fs_rest below above by auto
  have dl': "dlist (list_del (links s) (PageLink p)) FreeList (map PageLink us @ map PageLink vs)"
    by (rule dlist_del [OF dl])
  have prev: "list_prev (links s) (PageLink p) = last (FreeList # map PageLink us)"
    by (rule dlist_prev_mid [OF dl])
  have "dlist (links ?s') FreeList (map PageLink (us @ rest @ vs))"
  proof (cases "n < ?L")
    case True
    have "PageLink (p + n) \<notin> set (FreeList # map PageLink us @ map PageLink vs)"
      using new [OF True] by auto
    from dlist_add_after [OF dl' this] True show ?thesis
      by (simp add: take_block_def Let_def rest_def list_add_def prev)
  next
    case False
    with dl' show ?thesis by (simp add: take_block_def Let_def rest_def)
  qed
  moreover have "spaced (pg ?s') (us @ rest @ vs)"
  proof -
    have "spaced (pg ?s') us" "spaced (pg ?s') vs"
      using sp same spaced_cong [of us "pg ?s'" "pg s"] spaced_cong [of vs "pg ?s'" "pg s"]
      by (auto simp: spaced_append spaced_Cons)
    moreover have "\<forall>u \<in> set us. u + pg_property (pg ?s' u) \<le> p + n"
      "\<forall>u \<in> set us. \<forall>v \<in> set vs. u + pg_property (pg ?s' u) \<le> v"
      using same lo ulv by (auto intro: trans_le_add1)
    moreover have "n < ?L \<Longrightarrow> \<forall>v \<in> set vs. p + n + pg_property (pg ?s' (p + n)) \<le> v"
      using hi by (simp add: prop')
    ultimately show ?thesis
      by (auto simp: spaced_append spaced_Cons rest_def spaced_def [of _ "[]"])
  qed
  moreover have "\<forall>q \<in> set (us @ rest @ vs). 0 < pg_property (pg ?s' q)"
    using same pos by (auto simp: rest_def prop')
  moreover have "PageProperty (pg ?s' q) \<longleftrightarrow> q \<in> set (us @ rest @ vs)" for q
    using fl [of q] n lo' hi by (force simp: pgs' rest_def)
  moreover have "\<forall>q \<in> freeset (pg ?s') (us @ rest @ vs). \<not> PageReserved (pg ?s' q)"
    using res fs by (auto simp: pgs')
  moreover have "nr_free ?s' = sum_list (map (\<lambda>p. pg_property (pg ?s' p)) (us @ rest @ vs))"
  proof -
    have "sum_list (map (\<lambda>p. pg_property (pg ?s' p)) us) = sum_list (map (\<lambda>p. pg_property (pg s p)) us)"
      "sum_list (map (\<lambda>p. pg_property (pg ?s' p)) vs) = sum_list (map (\<lambda>p. pg_property (pg s p)) vs)"
      using same by (auto intro!: arg_cong [of _ _ sum_list])
    moreover have "sum_list (map (\<lambda>p. pg_property (pg ?s' p)) rest) = ?L - n"
      using n by (simp add: rest_def prop')
    moreover have "nr_free ?s' = nr_free s - n"
      by (simp add: take_block_def Let_def split_def)
    ultimately show ?thesis using nr n by simp
  qed
  ultimately show "free_area ?s' (us @ rest @ vs)" by (simp add: free_area_def)
qed

section \<open>Merging\<close>

text \<open>Merging two adjacent blocks of the list changes no page's membership.\<close>

lemma merge_blocks_area:
  assumes fa: "free_area s (us @ p # q # vs)" and adj: "p + pg_property (pg s p) = q"
  shows "free_area (merge_blocks s p q) (us @ p # vs)"
    and "freeset (pg (merge_blocks s p q)) (us @ p # vs) = freeset (pg s) (us @ p # q # vs)"
    and "pg_property (pg (merge_blocks s p q) x) =
      (if x = p then pg_property (pg s p) + pg_property (pg s q) else pg_property (pg s x))"
proof -
  let ?s' = "merge_blocks s p q"
  have dl: "dlist (links s) FreeList (map PageLink (us @ [p]) @ PageLink q # map PageLink vs)"
    and sp: "spaced (pg s) (us @ p # q # vs)" and fl: "\<And>x. PageProperty (pg s x) \<longleftrightarrow> x \<in> set (us @ p # q # vs)"
    and res: "\<And>x. x \<in> freeset (pg s) (us @ p # q # vs) \<Longrightarrow> \<not> PageReserved (pg s x)"
    and pos: "\<And>x. x \<in> set (us @ p # q # vs) \<Longrightarrow> 0 < pg_property (pg s x)"
    and nr: "nr_free s = sum_list (map (\<lambda>p. pg_property (pg s p)) (us @ p # q # vs))"
    and dis: "distinct (us @ p # q # vs)"
    using fa free_area_distinct [OF fa] by (auto simp: free_area_def)
  have pgs': "pg ?s' x = (if x = q then ClearPageProperty (pg s q)
      else if x = p then (pg s p)\<lparr>pg_property := pg_property (pg s p) + pg_property (pg s q)\<rparr> else pg s x)" for x
    using dis by (auto simp: merge_blocks_def Let_def)
  show prop': "pg_property (pg ?s' x) =
      (if x = p then pg_property (pg s p) + pg_property (pg s q) else pg_property (pg s x))" for x
    using dis by (auto simp: pgs')
  have same: "\<forall>x \<in> set us \<union> set vs. pg_property (pg ?s' x) = pg_property (pg s x)"
    using dis by (auto simp: prop')
  have fs_uv: "freeset (pg ?s') us = freeset (pg s) us" "freeset (pg ?s') vs = freeset (pg s) vs"
    using same by (auto intro!: freeset_cong)
  have "block (pg ?s') p = block (pg s) p \<union> block (pg s) q"
    using adj by (auto simp: block_def prop')
  with fs_uv show fs: "freeset (pg ?s') (us @ p # vs) = freeset (pg s) (us @ p # q # vs)"
    by auto
  have "dlist (links ?s') FreeList (map PageLink (us @ p # vs))"
    using dlist_del [OF dl] by (simp add: merge_blocks_def Let_def)
  moreover have "spaced (pg ?s') (us @ p # vs)"
  proof -
    have "spaced (pg ?s') us" "spaced (pg ?s') vs"
      using sp same spaced_cong [of us "pg ?s'" "pg s"] spaced_cong [of vs "pg ?s'" "pg s"]
      by (auto simp: spaced_append spaced_Cons)
    moreover have "\<forall>u \<in> set us. \<forall>v \<in> set (p # vs). u + pg_property (pg ?s' u) \<le> v"
      using sp same by (auto simp: spaced_append spaced_Cons)
    moreover have "\<forall>v \<in> set vs. p + pg_property (pg ?s' p) \<le> v"
      using sp adj by (auto simp: spaced_append spaced_Cons prop')
    ultimately show ?thesis by (auto simp: spaced_append spaced_Cons)
  qed
  moreover have "\<forall>x \<in> set (us @ p # vs). 0 < pg_property (pg ?s' x)"
    using pos by (auto simp: prop')
  moreover have "PageProperty (pg ?s' x) \<longleftrightarrow> x \<in> set (us @ p # vs)" for x
    using fl [of x] dis by (auto simp: pgs')
  moreover have "\<forall>x \<in> freeset (pg ?s') (us @ p # vs). \<not> PageReserved (pg ?s' x)"
    using res fs by (auto simp: pgs')
  moreover have "nr_free ?s' = sum_list (map (\<lambda>p. pg_property (pg ?s' p)) (us @ p # vs))"
  proof -
    have "sum_list (map (\<lambda>p. pg_property (pg ?s' p)) us) = sum_list (map (\<lambda>p. pg_property (pg s p)) us)"
      "sum_list (map (\<lambda>p. pg_property (pg ?s' p)) vs) = sum_list (map (\<lambda>p. pg_property (pg s p)) vs)"
      using same by (auto intro!: arg_cong [of _ _ sum_list])
    moreover have "nr_free ?s' = nr_free s" by (simp add: merge_blocks_def Let_def)
    ultimately show ?thesis using nr by (simp add: prop')
  qed
  ultimately show "free_area ?s' (us @ p # vs)" by (simp add: free_area_def)
qed

text \<open>After \<open>merge_low\<close> no block ends where the freed block begins; after \<open>merge_high\<close> none
  begins where it ends.\<close>

lemma merge_low_area:
  assumes fa: "free_area s (us @ base # vs)" and co: "coalesced (pg s) us"
  obtains us' base' where
    "snd (merge_low s base) = base'" "free_area (fst (merge_low s base)) (us' @ base' # vs)"
    "freeset (pg (fst (merge_low s base))) (us' @ base' # vs) = freeset (pg s) (us @ base # vs)"
    "coalesced (pg (fst (merge_low s base))) (us' @ [base'])"
    "\<forall>v \<in> set vs. pg_property (pg (fst (merge_low s base)) v) = pg_property (pg s v)"
proof -
  have dl: "dlist (links s) FreeList (map PageLink us @ PageLink base # map PageLink vs)"
    and sp: "spaced (pg s) (us @ base # vs)"
    and pos: "\<And>x. x \<in> set (us @ base # vs) \<Longrightarrow> 0 < pg_property (pg s x)"
    using fa by (auto simp: free_area_def)
  have prev: "list_prev (links s) (PageLink base) = last (FreeList # map PageLink us)"
    by (rule dlist_prev_mid [OF dl])
  show ?thesis
  proof (cases us rule: rev_cases)
    case Nil
    then have "merge_low s base = (s, base)" using prev by (simp add: merge_low_def)
    with fa Nil show ?thesis by (intro that [of base us]) (auto simp: coalesced_def)
  next
    case (snoc ws p)
    have low: "w + pg_property (pg s w) < p" if "w \<in> set ws" for w
      using co that snoc by (auto simp: coalesced_append)
    show ?thesis
    proof (cases "p + pg_property (pg s p) = base")
      case True
      then have ml: "merge_low s base = (merge_blocks s p base, p)"
        using prev snoc by (simp add: merge_low_def)
      have fa': "free_area s (ws @ p # base # vs)" using fa snoc by simp
      note ma = merge_blocks_area [OF fa' True]
      have "p \<notin> set ws" "p \<notin> set vs" using free_area_distinct [OF fa'] by auto
      then have "coalesced (pg (merge_blocks s p base)) (ws @ [p])"
        using co snoc low coalesced_cong [of ws "pg (merge_blocks s p base)" "pg s"]
        by (auto simp: coalesced_append ma(3) coalesced_def [of _ "[_]"])
      with ma \<open>p \<notin> set vs\<close> show ?thesis using ml snoc by (intro that [of p ws]) auto
    next
      case False
      then have ml: "merge_low s base = (s, base)"
        using prev snoc by (simp add: merge_low_def)
      have "p + pg_property (pg s p) < base" using sp snoc False by (auto simp: spaced_append spaced_Cons)
      with low have "\<forall>u \<in> set us. u + pg_property (pg s u) < base" using snoc by fastforce
      then have "coalesced (pg s) (us @ [base])"
        using co by (simp add: coalesced_append coalesced_def [of _ "[_]"])
      with fa ml show ?thesis by (intro that [of base us]) auto
    qed
  qed
qed

lemma merge_high_area:
  assumes fa: "free_area s (us @ base # vs)" and co: "coalesced (pg s) (us @ [base])" "coalesced (pg s) vs"
  obtains xs where "free_area (merge_high s base) xs" "coalesced (pg (merge_high s base)) xs"
    "freeset (pg (merge_high s base)) xs = freeset (pg s) (us @ base # vs)"
proof -
  have dl: "dlist (links s) FreeList (map PageLink us @ PageLink base # map PageLink vs)"
    and sp: "spaced (pg s) (us @ base # vs)"
    and pos: "\<And>x. x \<in> set (us @ base # vs) \<Longrightarrow> 0 < pg_property (pg s x)"
    using fa by (auto simp: free_area_def)
  have nxt: "list_next (links s) (PageLink base) = hd (map PageLink vs @ [FreeList])"
    by (rule dlist_next_mid [OF dl])
  have lows: "\<forall>u \<in> set us. \<forall>v \<in> set (base # vs). u + pg_property (pg s u) < v"
    using sp co(1) pos by (force simp: spaced_append spaced_Cons coalesced_append)
  show ?thesis
  proof (cases vs)
    case Nil
    with nxt fa co show ?thesis by (intro that [of "us @ [base]"]) (auto simp: merge_high_def)
  next
    case (Cons v ws)
    show ?thesis
    proof (cases "base + pg_property (pg s base) = v")
      case True
      then have mh: "merge_high s base = merge_blocks s base v"
        using nxt Cons by (simp add: merge_high_def)
      have fa': "free_area s (us @ base # v # ws)" using fa Cons by simp
      note ma = merge_blocks_area [OF fa' True]
      have nb: "base \<notin> set us" "base \<notin> set ws" using free_area_distinct [OF fa'] by auto
      have "coalesced (pg (merge_blocks s base v)) us" "coalesced (pg (merge_blocks s base v)) ws"
        using co Cons nb coalesced_cong [of us "pg (merge_blocks s base v)" "pg s"]
          coalesced_cong [of ws "pg (merge_blocks s base v)" "pg s"]
        by (auto simp: coalesced_append coalesced_Cons ma(3))
      moreover have "\<forall>w \<in> set ws. base + pg_property (pg (merge_blocks s base v) base) < w"
        using co(2) Cons True by (auto simp: coalesced_Cons ma(3))
      moreover have "\<forall>u \<in> set us. \<forall>w \<in> set (base # ws). u + pg_property (pg (merge_blocks s base v) u) < w"
        using lows nb Cons by (auto simp: ma(3))
      ultimately have "coalesced (pg (merge_blocks s base v)) (us @ base # ws)"
        by (simp add: coalesced_append coalesced_Cons)
      with ma mh show ?thesis by (intro that [of "us @ base # ws"]) (simp_all add: Cons)
    next
      case False
      then have mh: "merge_high s base = s"
        using nxt Cons by (simp add: merge_high_def)
      have "\<forall>w \<in> set vs. base + pg_property (pg s base) < w"
        using sp False Cons pos by (force simp: spaced_append spaced_Cons)
      then have "coalesced (pg s) (us @ base # vs)"
        using co lows by (auto simp: coalesced_append coalesced_Cons)
      with fa mh show ?thesis by (intro that [of "us @ base # vs"]) simp_all
    qed
  qed
qed

lemma coalesce_area:
  assumes "free_area s (us @ base # vs)" "coalesced (pg s) us" "coalesced (pg s) vs"
  obtains xs where "free_area (coalesce s base) xs" "coalesced (pg (coalesce s base)) xs"
    "freeset (pg (coalesce s base)) xs = freeset (pg s) (us @ base # vs)"
proof -
  obtain us' base' where ml: "snd (merge_low s base) = base'"
    "free_area (fst (merge_low s base)) (us' @ base' # vs)"
    "freeset (pg (fst (merge_low s base))) (us' @ base' # vs) = freeset (pg s) (us @ base # vs)"
    "coalesced (pg (fst (merge_low s base))) (us' @ [base'])"
    "\<forall>v \<in> set vs. pg_property (pg (fst (merge_low s base)) v) = pg_property (pg s v)"
    by (rule merge_low_area [OF assms(1,2)])
  have "coalesced (pg (fst (merge_low s base))) vs"
    using assms(3) by (subst coalesced_cong [OF ml(5)])
  then obtain xs where
    "free_area (merge_high (fst (merge_low s base)) base') xs"
    "coalesced (pg (merge_high (fst (merge_low s base)) base')) xs"
    "freeset (pg (merge_high (fst (merge_low s base)) base')) xs
       = freeset (pg (fst (merge_low s base))) (us' @ base' # vs)"
    by (rule merge_high_area [OF ml(2,4)])
  with ml(1,3) show ?thesis
    by (intro that [of xs]) (simp_all add: coalesce_def split_beta Let_def)
qed

end
