(* ===== verification/PmmManager.thy ===== *)
theory PmmManager
  imports FreeArea
begin

text \<open>
  \<open>struct pmm_manager\<close> (\<open>kern/mm/pmm.h\<close>): the interface behind which the kernel chooses a
  physical page allocator. The locale \<open>pmm_alloc\<close> is the allocation half, \<open>pmm_manager\<close> adds
  \<open>free_pages\<close>. Both speak of the set of free pages and the set of allocated pages of a
  manager state. The page-table code and \<open>kmalloc\<close> are clients of this contract; the first
  fit and best fit managers provide all of it, the buddy system only the first half.
\<close>

text \<open>A client that serves a list of requests with a manager's \<open>alloc_pages\<close> and stops at the
  first refusal.\<close>

primrec alloc_all :: "('s \<Rightarrow> nat \<Rightarrow> (nat option \<times> 's) option) \<Rightarrow> 's \<Rightarrow> nat list \<Rightarrow> (nat list \<times> 's) option" where
  "alloc_all alloc s [] = Some ([], s)"
| "alloc_all alloc s (n # ns) = do {
     (r, s') \<leftarrow> alloc s n;
     case r of None \<Rightarrow> Some ([], s)
     | Some p \<Rightarrow> do { (ps, s'') \<leftarrow> alloc_all alloc s' ns; Some (p # ps, s'') }
   }"

locale pmm_alloc =
  fixes alloc :: "'s \<Rightarrow> nat \<Rightarrow> (nat option \<times> 's) option"
    and granted :: "nat \<Rightarrow> nat"
    and free :: "'s \<Rightarrow> nat set"
    and allocated :: "'s \<Rightarrow> nat set"
    and inv :: "'s \<Rightarrow> bool"
  assumes granted_ge: "n \<le> granted n"
    and free_finite: "inv s \<Longrightarrow> finite (free s)"
    and free_allocated: "inv s \<Longrightarrow> free s \<inter> allocated s = {}"
    and alloc_some: "inv s \<Longrightarrow> alloc s n = Some (Some p, s') \<Longrightarrow>
      inv s' \<and> {p ..< p + granted n} \<subseteq> free s \<and> free s' = free s - {p ..< p + granted n} \<and>
      allocated s' = allocated s \<union> {p ..< p + granted n}"
    and alloc_none: "inv s \<Longrightarrow> alloc s n = Some (None, s') \<Longrightarrow> s' = s"
begin

lemma alloc_all_sound:
  "inv s \<Longrightarrow> alloc_all alloc s ns = Some (ps, s') \<Longrightarrow>
   inv s' \<and> length ps \<le> length ns
   \<and> free s' = free s - (\<Union>i < length ps. {ps ! i ..< ps ! i + granted (ns ! i)})
   \<and> (\<forall>i < length ps. {ps ! i ..< ps ! i + granted (ns ! i)} \<subseteq> free s)
   \<and> (\<forall>i j. i < j \<and> j < length ps \<longrightarrow>
        {ps ! i ..< ps ! i + granted (ns ! i)} \<inter> {ps ! j ..< ps ! j + granted (ns ! j)} = {})"
proof (induction ns arbitrary: s ps)
  case Nil
  then show ?case by simp
next
  case (Cons n ns)
  from Cons.prems(2) obtain r s1 where al: "alloc s n = Some (r, s1)" by (auto elim: bind_SomeE)
  show ?case
  proof (cases r)
    case None
    with Cons.prems al show ?thesis by auto
  next
    case (Some p)
    with Cons.prems(2) al obtain qs where qs: "alloc_all alloc s1 ns = Some (qs, s')" "ps = p # qs"
      by (auto elim!: bind_SomeE)
    from alloc_some [OF Cons.prems(1)] al Some have
      s1: "inv s1" "{p ..< p + granted n} \<subseteq> free s" "free s1 = free s - {p ..< p + granted n}" by auto
    note IH = Cons.IH [OF s1(1) qs(1)]
    have "(\<Union>i < length ps. {ps ! i ..< ps ! i + granted ((n # ns) ! i)}) =
      {p ..< p + granted n} \<union> (\<Union>i < length qs. {qs ! i ..< qs ! i + granted (ns ! i)})"
      using qs(2) by (simp add: lessThan_Suc_eq_insert_0)
    moreover have "\<forall>i < length ps. {ps ! i ..< ps ! i + granted ((n # ns) ! i)} \<subseteq> free s"
      using IH s1 qs(2) by (auto simp: nth_Cons subset_iff split: nat.splits)
    moreover have "\<forall>i j. i < j \<and> j < length ps \<longrightarrow>
      {ps ! i ..< ps ! i + granted ((n # ns) ! i)} \<inter> {ps ! j ..< ps ! j + granted ((n # ns) ! j)} = {}"
    proof (intro allI impI)
      fix i j assume ij: "i < j \<and> j < length ps"
      then obtain j' where j': "j = Suc j'" "j' < length qs" using qs(2) by (cases j) auto
      show "{ps ! i ..< ps ! i + granted ((n # ns) ! i)} \<inter> {ps ! j ..< ps ! j + granted ((n # ns) ! j)} = {}"
      proof (cases i)
        case 0
        have "{qs ! j' ..< qs ! j' + granted (ns ! j')} \<subseteq> free s1" using IH j' by blast
        with s1(3) have "{qs ! j' ..< qs ! j' + granted (ns ! j')} \<inter> {p ..< p + granted n} = {}" by blast
        with 0 j' qs(2) show ?thesis by (simp add: Int_commute)
      next
        case (Suc i')
        with IH ij j' qs(2) show ?thesis by auto
      qed
    qed
    ultimately show ?thesis using IH s1 qs(2) by auto
  qed
qed

end

locale pmm_manager = pmm_alloc alloc granted free allocated inv
  for alloc :: "'s \<Rightarrow> nat \<Rightarrow> (nat option \<times> 's) option" and granted :: "nat \<Rightarrow> nat"
    and free :: "'s \<Rightarrow> nat set" and allocated :: "'s \<Rightarrow> nat set" and inv :: "'s \<Rightarrow> bool" +
  fixes release :: "'s \<Rightarrow> nat \<Rightarrow> nat \<Rightarrow> 's option"
  assumes alloc_total: "inv s \<Longrightarrow> 0 < n \<Longrightarrow> alloc s n \<noteq> None"
    and release_ok: "inv s \<Longrightarrow> 0 < n \<Longrightarrow> {p ..< p + n} \<subseteq> allocated s \<Longrightarrow>
      free s = {} \<or> (\<exists>q \<in> free s. p < q) \<Longrightarrow>
      \<exists>s'. release s p n = Some s' \<and> inv s' \<and> free s' = free s \<union> {p ..< p + n} \<and>
        allocated s' = allocated s - {p ..< p + n}"
begin

text \<open>An allocation can be given back, and giving it back restores both sets.\<close>

lemma alloc_release:
  assumes "inv s" "0 < n" "alloc s n = Some (Some p, s')" "granted n = n"
    and "free s' = {} \<or> (\<exists>q \<in> free s'. p < q)"
  shows "\<exists>s''. release s' p n = Some s'' \<and> inv s'' \<and> free s'' = free s \<and> allocated s'' = allocated s"
proof -
  have a: "inv s'" "{p ..< p + n} \<subseteq> free s" "free s' = free s - {p ..< p + n}"
    "allocated s' = allocated s \<union> {p ..< p + n}"
    using alloc_some [OF assms(1,3)] assms(4) by auto
  obtain s'' where "release s' p n = Some s''" "inv s''" "free s'' = free s' \<union> {p ..< p + n}"
    "allocated s'' = allocated s' - {p ..< p + n}"
    using release_ok [OF a(1) assms(2) _ assms(5)] a by auto
  with a free_allocated [OF assms(1)] show ?thesis by auto
qed

end

text \<open>How the list-based managers see the two sets: a page is free when it lies in a block of
  the free list; it is allocated when it is neither free nor reserved.\<close>

definition allocated_pages :: "pmm \<Rightarrow> nat set" where
  "allocated_pages s = {q. \<not> PageReserved (pg s q) \<and> q \<notin> free_pages_of s}"

definition pmm_inv :: "pmm \<Rightarrow> bool" where
  "pmm_inv s \<longleftrightarrow> (\<exists>xs. free_area s xs \<and> coalesced (pg s) xs)"

section \<open>Coalesced free lists are canonical\<close>

lemma freeset_above: "coalesced pgs (x # xs) \<Longrightarrow> \<forall>q \<in> freeset pgs xs. x + pg_property (pgs x) < q"
  by (force simp: coalesced_Cons freeset_def block_def)

lemma freeset_ge: "coalesced pgs (x # xs) \<Longrightarrow> \<forall>q \<in> freeset pgs (x # xs). x \<le> q"
  using freeset_above [of pgs x xs] by (auto simp: block_def)

lemma block_end_not_free:
  "coalesced pgs (x # xs) \<Longrightarrow> x + pg_property (pgs x) \<notin> freeset pgs (x # xs)"
  using freeset_above [of pgs x xs] by (auto simp: block_def)

lemma first_block_eq:
  assumes "coalesced pgs (x # xs)" "coalesced pgs' (x # ys)"
    and "freeset pgs (x # xs) = freeset pgs' (x # ys)"
  shows "pg_property (pgs x) = pg_property (pgs' x)"
proof (rule ccontr)
  assume "pg_property (pgs x) \<noteq> pg_property (pgs' x)"
  then consider "pg_property (pgs x) < pg_property (pgs' x)" | "pg_property (pgs' x) < pg_property (pgs x)"
    by linarith
  then show False
  proof cases
    case 1
    then have "x + pg_property (pgs x) \<in> freeset pgs' (x # ys)" by (simp add: block_def)
    then have "x + pg_property (pgs x) \<in> freeset pgs (x # xs)" by (simp only: assms(3))
    then show False using block_end_not_free [OF assms(1)] by blast
  next
    case 2
    then have "x + pg_property (pgs' x) \<in> freeset pgs (x # xs)" by (simp add: block_def)
    then have "x + pg_property (pgs' x) \<in> freeset pgs' (x # ys)" by (simp only: assms(3))
    then show False using block_end_not_free [OF assms(2)] by blast
  qed
qed

lemma coalesced_unique:
  assumes "coalesced pgs xs" "coalesced pgs' ys" "freeset pgs xs = freeset pgs' ys"
    and "\<forall>p \<in> set xs. 0 < pg_property (pgs p)" "\<forall>p \<in> set ys. 0 < pg_property (pgs' p)"
  shows "xs = ys \<and> (\<forall>p \<in> set xs. pg_property (pgs p) = pg_property (pgs' p))"
  using assms
proof (induction xs arbitrary: ys)
  case Nil
  then show ?case by (cases ys) (auto dest: head_in_block)
next
  case (Cons x xs)
  have xin: "x \<in> freeset pgs (x # xs)" using Cons.prems(4) by (simp add: block_def)
  then obtain y ys' where ys: "ys = y # ys'" using Cons.prems(3) by (cases ys) auto
  have yin: "y \<in> freeset pgs' ys" using Cons.prems(5) ys by (simp add: block_def)
  have "x = y"
    using freeset_ge [OF Cons.prems(1)] freeset_ge [of pgs' y ys'] xin yin Cons.prems(2,3) ys
    by (metis le_antisym)
  note ys = ys [folded this]
  have pe: "pg_property (pgs x) = pg_property (pgs' x)"
    using first_block_eq [of pgs x xs pgs' ys'] Cons.prems ys by simp
  then have be: "block pgs x = block pgs' x" by (simp add: block_def)
  have "block pgs x \<inter> freeset pgs xs = {}" "block pgs' x \<inter> freeset pgs' ys' = {}"
    using freeset_above [of pgs x xs] freeset_above [of pgs' x ys'] Cons.prems ys by (force simp: block_def)+
  then have "freeset pgs xs = freeset pgs' ys'"
    using Cons.prems(3) ys be by auto
  with Cons.IH [of ys'] Cons.prems ys pe show ?case by (auto simp: coalesced_Cons)
qed

end
