(* ===== verification/FirstFit.thy ===== *)
theory FirstFit
  imports PmmManager
begin

text \<open>
  \<open>kern/mm/default_pmm.c\<close>: the first fit page allocator. The definitions follow the C
  routines; the lemmas show that they keep the free area well formed and coalesced, that
  allocation returns the lowest suitable block, and that freeing adds exactly the freed
  pages, as long as the freed block lies below some free page.
\<close>

section \<open>The routines\<close>

text \<open>\<open>default_init\<close>.\<close>

definition default_init :: "pmm \<Rightarrow> pmm" where
  "default_init s = s\<lparr>links := list_init (links s) FreeList, nr_free := 0\<rparr>"

text \<open>\<open>default_init_memmap\<close>.\<close>

definition default_init_memmap :: "pmm \<Rightarrow> nat \<Rightarrow> nat \<Rightarrow> pmm option" where
  "default_init_memmap s base n = do {
     kassert (0 < n);
     pgs \<leftarrow> for_pages (\<lambda>p. if PageReserved p then Some (p\<lparr>pg_flags := 0, pg_property := 0, pg_ref := 0\<rparr>)
                            else None) (pg s) base n;
     let pgs = pgs(base := SetPageProperty ((pgs base)\<lparr>pg_property := n\<rparr>));
     d \<leftarrow> insert_free (links s) base;
     Some (s\<lparr>pg := pgs, links := d, nr_free := nr_free s + n\<rparr>)
   }"

text \<open>\<open>default_alloc_pages\<close>.\<close>

definition default_alloc_pages :: "pmm \<Rightarrow> nat \<Rightarrow> (nat option \<times> pmm) option" where
  "default_alloc_pages s n = do {
     kassert (0 < n);
     if nr_free s < n then Some (None, s)
     else do {
       le \<leftarrow> list_scan (links s) FreeList (\<lambda>le. n \<le> pg_property (pg s (le2page le))) FreeList;
       Some (case le of FreeList \<Rightarrow> (None, s) | PageLink page \<Rightarrow> (Some page, take_block s page n))
     }
   }"

text \<open>\<open>default_free_pages\<close>.\<close>

definition default_free_pages :: "pmm \<Rightarrow> nat \<Rightarrow> nat \<Rightarrow> pmm option" where
  "default_free_pages s base n = do {
     kassert (0 < n);
     pgs \<leftarrow> for_pages (\<lambda>p. if \<not> PageReserved p \<and> \<not> PageProperty p
                            then Some (p\<lparr>pg_flags := 0, pg_ref := 0\<rparr>) else None) (pg s) base n;
     let pgs = pgs(base := SetPageProperty ((pgs base)\<lparr>pg_property := n\<rparr>));
     d \<leftarrow> insert_free (links s) base;
     Some (coalesce (s\<lparr>pg := pgs, links := d, nr_free := nr_free s + n\<rparr>) base)
   }"

text \<open>\<open>default_nr_free_pages\<close>.\<close>

definition default_nr_free_pages :: "pmm \<Rightarrow> nat" where
  "default_nr_free_pages s = nr_free s"

section \<open>Allocation\<close>

lemma find_split:
  "find P xs = Some p \<Longrightarrow> \<exists>us vs. xs = us @ p # vs \<and> P p \<and> (\<forall>u \<in> set us. \<not> P u)"
proof (induction xs)
  case (Cons x xs)
  show ?case
  proof (cases "P x")
    case True
    with Cons.prems have "x # xs = [] @ p # xs \<and> P p" by simp
    then show ?thesis by (metis empty_iff list.set(1))
  next
    case False
    with Cons obtain us vs where "xs = us @ p # vs" "P p" "\<forall>u \<in> set us. \<not> P u" by auto
    with False have "x # xs = (x # us) @ p # vs \<and> P p \<and> (\<forall>u \<in> set (x # us). \<not> P u)" by simp
    then show ?thesis by blast
  qed
qed simp

lemma free_area_scan:
  assumes "free_area s xs"
  shows "list_scan (links s) FreeList (\<lambda>le. n \<le> pg_property (pg s (le2page le))) FreeList =
    Some (case find (\<lambda>p. n \<le> pg_property (pg s p)) xs of None \<Rightarrow> FreeList | Some p \<Rightarrow> PageLink p)"
proof -
  have "find (\<lambda>le. n \<le> pg_property (pg s (le2page le))) (map PageLink xs) =
    map_option PageLink (find (\<lambda>p. n \<le> pg_property (pg s p)) xs)"
    by (induction xs) auto
  moreover have "dlist (links s) FreeList (map PageLink xs)" using assms by (simp add: free_area_def)
  ultimately show ?thesis by (subst dlist_scan) (auto split: option.splits)
qed

lemma default_alloc_eq:
  assumes "free_area s xs" "0 < n"
  shows "default_alloc_pages s n = Some (case find (\<lambda>p. n \<le> pg_property (pg s p)) xs of
      None \<Rightarrow> (None, s) | Some p \<Rightarrow> (Some p, take_block s p n))"
proof (cases "nr_free s < n")
  case True
  have "find (\<lambda>p. n \<le> pg_property (pg s p)) xs = None"
  proof (rule ccontr)
    assume "find (\<lambda>p. n \<le> pg_property (pg s p)) xs \<noteq> None"
    then obtain p where "p \<in> set xs" "n \<le> pg_property (pg s p)"
      using find_split by fastforce
    moreover from this(1) have "pg_property (pg s p) \<le> sum_list (map (\<lambda>p. pg_property (pg s p)) xs)"
      by (intro member_le_sum_list) auto
    ultimately show False using True assms(1) by (simp add: free_area_def)
  qed
  with True assms(2) show ?thesis by (simp add: default_alloc_pages_def)
next
  case False
  with assms(2) free_area_scan [OF assms(1), of n] show ?thesis
    by (auto simp: default_alloc_pages_def split: option.splits)
qed

lemma take_block_coalesced:
  assumes fa: "free_area s (us @ p # vs)" and n: "0 < n" "n \<le> pg_property (pg s p)"
    and co: "coalesced (pg s) (us @ p # vs)"
  shows "pmm_inv (take_block s p n)"
proof -
  let ?rest = "if n < pg_property (pg s p) then [p + n] else []"
  note tb = take_block_area [OF fa n]
  have dis: "distinct (us @ p # vs)" by (rule free_area_distinct [OF fa])
  have lo: "\<And>u. u \<in> set us \<Longrightarrow> u < p" "\<And>v. v \<in> set vs \<Longrightarrow> p + pg_property (pg s p) < v"
    using co fa by (force simp: coalesced_append coalesced_Cons free_area_def)+
  have same: "pg_property (pg (take_block s p n) q) = pg_property (pg s q)" if "q \<in> set us \<union> set vs" for q
  proof -
    have "q \<noteq> p" "q \<noteq> p + n" using that lo n dis by (auto dest: lo)
    then show ?thesis using tb(3) by simp
  qed
  have "coalesced (pg (take_block s p n)) us" "coalesced (pg (take_block s p n)) vs"
    using co same coalesced_cong [of us "pg (take_block s p n)" "pg s"]
      coalesced_cong [of vs "pg (take_block s p n)" "pg s"] by (auto simp: coalesced_append coalesced_Cons)
  moreover have "\<forall>u \<in> set us. u + pg_property (pg (take_block s p n) u) < p"
    "\<forall>u \<in> set us. \<forall>v \<in> set vs. u + pg_property (pg (take_block s p n) u) < v"
    using co same by (auto simp: coalesced_append coalesced_Cons)
  moreover have "n < pg_property (pg s p) \<Longrightarrow>
      \<forall>v \<in> set vs. p + n + pg_property (pg (take_block s p n) (p + n)) < v"
    using lo(2) tb(4) by simp
  ultimately have "coalesced (pg (take_block s p n)) (us @ ?rest @ vs)"
    by (auto simp: coalesced_append coalesced_Cons coalesced_def [of _ "[]"] intro: trans_less_add1)
  with tb(1) show ?thesis by (auto simp: pmm_inv_def)
qed

lemma take_block_sets:
  assumes fa: "free_area s (us @ p # vs)" and n: "0 < n" "n \<le> pg_property (pg s p)"
  shows "free_pages_of (take_block s p n) = free_pages_of s - {p ..< p + n}"
    and "{p ..< p + n} \<subseteq> free_pages_of s"
    and "allocated_pages (take_block s p n) = allocated_pages s \<union> {p ..< p + n}"
proof -
  let ?rest = "if n < pg_property (pg s p) then [p + n] else []"
  note tb = take_block_area [OF fa n]
  show fs: "free_pages_of (take_block s p n) = free_pages_of s - {p ..< p + n}"
    unfolding free_pages_of_area [OF tb(1)] free_pages_of_area [OF fa] by (rule tb(2))
  show sub: "{p ..< p + n} \<subseteq> free_pages_of s"
    unfolding free_pages_of_area [OF fa] using n by (auto simp: block_def)
  have "PageReserved (pg (take_block s p n) q) = PageReserved (pg s q)" for q
    by (auto simp: take_block_def Let_def)
  moreover have "\<forall>q \<in> {p ..< p + n}. \<not> PageReserved (pg s q)"
    using sub fa unfolding free_pages_of_area [OF fa] free_area_def by blast
  ultimately show "allocated_pages (take_block s p n) = allocated_pages s \<union> {p ..< p + n}"
    using fs sub by (auto simp: allocated_pages_def)
qed

section \<open>Freeing\<close>

text \<open>The block to be freed splits the list into the blocks below and the blocks above it.\<close>

lemma free_split:
  assumes fa: "free_area s xs" and dj: "base \<notin> free_pages_of s"
    and up: "free_pages_of s = {} \<or> (\<exists>q \<in> free_pages_of s. base < q)"
  obtains us vs where "xs = us @ vs" "\<forall>u \<in> set us. u < base" "\<forall>v \<in> set vs. base < v" "us = [] \<or> vs \<noteq> []"
proof -
  let ?us = "filter (\<lambda>p. p < base) xs" and ?vs = "filter (\<lambda>p. \<not> p < base) xs"
  have pos: "\<forall>p \<in> set xs. 0 < pg_property (pg s p)" and sp: "spaced (pg s) xs" using fa by (auto simp: free_area_def)
  have fs: "free_pages_of s = freeset (pg s) xs" by (rule free_pages_of_area [OF fa])
  have nb: "base \<notin> set xs" using dj fs pos by (force simp: freeset_def block_def)
  from sp pos have "xs = ?us @ ?vs"
  proof (induction xs)
    case (Cons x xs)
    show ?case
    proof (cases "x < base")
      case True
      with Cons show ?thesis by (auto simp: spaced_Cons)
    next
      case False
      with Cons.prems have "\<forall>y \<in> set xs. \<not> y < base" by (force simp: spaced_Cons)
      then have "filter (\<lambda>p. p < base) xs = []" "filter (\<lambda>p. \<not> p < base) xs = xs"
        by (auto simp: filter_empty_conv)
      with False show ?thesis by simp
    qed
  qed simp
  moreover have "?us = [] \<or> ?vs \<noteq> []"
  proof (cases "xs = []")
    case False
    then have "hd xs \<in> free_pages_of s" using fs pos by (force simp: freeset_def block_def)
    then obtain q p where q: "base < q" "p \<in> set xs" "q \<in> block (pg s) p" using up fs by (auto simp: freeset_def)
    have "\<not> p < base" using q dj fs by (force simp: freeset_def block_def)
    then have "p \<in> set ?vs" using q by simp
    then show ?thesis by (metis empty_iff list.set(1))
  qed simp
  moreover have "\<forall>v \<in> set ?vs. base < v"
  proof
    fix v assume "v \<in> set ?vs"
    then have "v \<in> set xs" "\<not> v < base" by auto
    with nb show "base < v" by (cases "v = base") auto
  qed
  ultimately show ?thesis by (intro that [of ?us ?vs]) auto
qed

lemma insert_free_area:
  assumes "dlist d FreeList (map PageLink (us @ vs))" "\<forall>u \<in> set us. u < base"
    "\<forall>v \<in> set vs. base < v" "us = [] \<or> vs \<noteq> []"
  obtains d' where "insert_free d base = Some d'" "dlist d' FreeList (map PageLink (us @ base # vs))"
proof (cases vs)
  case Nil
  with assms(4) have "us = []" by simp
  with Nil assms show ?thesis using insert_free_empty [of d base] that by auto
next
  case (Cons v ws)
  with assms show ?thesis using insert_free_before [of d us v ws base] that by auto
qed

lemma default_free_area:
  assumes fa: "free_area s xs" and co: "coalesced (pg s) xs" and n: "0 < n"
    and al: "{base ..< base + n} \<subseteq> allocated_pages s"
    and up: "free_pages_of s = {} \<or> (\<exists>q \<in> free_pages_of s. base < q)"
  obtains s' ys where "default_free_pages s base n = Some s'" "free_area s' ys" "coalesced (pg s') ys"
    "freeset (pg s') ys = freeset (pg s) xs \<union> {base ..< base + n}"
    "\<And>q. PageReserved (pg s' q) = (PageReserved (pg s q) \<and> q \<notin> {base ..< base + n})"
proof -
  have fs: "free_pages_of s = freeset (pg s) xs" by (rule free_pages_of_area [OF fa])
  have fl: "\<And>p. PageProperty (pg s p) \<longleftrightarrow> p \<in> set xs"
    and pos: "\<And>p. p \<in> set xs \<Longrightarrow> 0 < pg_property (pg s p)" using fa by (auto simp: free_area_def)
  have nf: "\<And>q. q \<in> {base ..< base + n} \<Longrightarrow> q \<notin> freeset (pg s) xs \<and> \<not> PageReserved (pg s q)"
    using al fs by (auto simp: allocated_pages_def)
  have nx: "\<And>q. q \<in> {base ..< base + n} \<Longrightarrow> q \<notin> set xs"
    using nf pos by (force simp: freeset_def block_def)
  obtain us vs where uv: "xs = us @ vs" "\<forall>u \<in> set us. u < base" "\<forall>v \<in> set vs. base < v" "us = [] \<or> vs \<noteq> []"
    using free_split [OF fa _ up] nf fs n by (metis atLeastLessThan_iff le_refl less_add_same_cancel1)
  obtain d' where d': "insert_free (links s) base = Some d'"
    "dlist d' FreeList (map PageLink (us @ base # vs))"
    using insert_free_area [of "links s" us vs base] fa uv by (auto simp: free_area_def)
  define pgs where "pgs = (\<lambda>q. if base \<le> q \<and> q < base + n then (pg s q)\<lparr>pg_flags := 0, pg_ref := 0\<rparr> else pg s q)"
  define s2 where "s2 = s\<lparr>pg := pgs(base := SetPageProperty ((pgs base)\<lparr>pg_property := n\<rparr>)),
    links := d', nr_free := nr_free s + n\<rparr>"
  have ok: "\<forall>q. base \<le> q \<and> q < base + n \<longrightarrow> \<not> PageReserved (pg s q) \<and> \<not> PageProperty (pg s q)"
    using nf nx fl by auto
  have ret: "default_free_pages s base n = Some (coalesce s2 base)"
    using n ok d'(1) by (simp add: default_free_pages_def for_pages_reset s2_def pgs_def Let_def)
  have prop2: "pg_property (pg s2 q) = (if q = base then n else pg_property (pg s q))" for q
    by (auto simp: s2_def pgs_def)
  have nbase: "base \<notin> set us" "base \<notin> set vs" using uv by auto
  have same: "\<forall>q \<in> set us \<union> set vs. pg_property (pg s2 q) = pg_property (pg s q)"
    using nbase by (auto simp: prop2)
  have fs_uv: "freeset (pg s2) us = freeset (pg s) us" "freeset (pg s2) vs = freeset (pg s) vs"
    using same by (auto intro!: freeset_cong)
  have fs2: "freeset (pg s2) (us @ base # vs) = freeset (pg s) xs \<union> {base ..< base + n}"
    using fs_uv uv(1) by (auto simp: block_def prop2)
  have lowend: "u + pg_property (pg s u) \<le> base" if "u \<in> set us" for u
  proof (rule ccontr)
    assume "\<not> u + pg_property (pg s u) \<le> base"
    then have "base \<in> freeset (pg s) xs" using that uv by (force simp: freeset_def block_def)
    with nf n show False by auto
  qed
  have highst: "base + n \<le> v" if "v \<in> set vs" for v
  proof (rule ccontr)
    assume "\<not> base + n \<le> v"
    moreover have "base < v" "v \<in> set xs" using that uv by auto
    ultimately show False using nx [of v] by simp
  qed
  have "dlist (links s2) FreeList (map PageLink (us @ base # vs))" using d'(2) by (simp add: s2_def)
  moreover have "spaced (pg s2) (us @ base # vs)"
  proof -
    have "spaced (pg s2) us" "spaced (pg s2) vs" "\<forall>u \<in> set us. \<forall>v \<in> set vs. u + pg_property (pg s2 u) \<le> v"
      using fa same uv(1) spaced_cong [of us "pg s2" "pg s"] spaced_cong [of vs "pg s2" "pg s"]
      by (auto simp: free_area_def spaced_append)
    moreover have "\<forall>u \<in> set us. u + pg_property (pg s2 u) \<le> base" using lowend same by auto
    moreover have "\<forall>v \<in> set vs. base + pg_property (pg s2 base) \<le> v" using highst by (simp add: prop2)
    ultimately show ?thesis by (auto simp: spaced_append spaced_Cons)
  qed
  moreover have "\<forall>q \<in> set (us @ base # vs). 0 < pg_property (pg s2 q)"
    using n pos uv(1) by (auto simp: prop2)
  moreover have "\<forall>q. PageProperty (pg s2 q) \<longleftrightarrow> q \<in> set (us @ base # vs)"
    using fl uv(1) nx by (auto simp: s2_def pgs_def)
  moreover have res2: "PageReserved (pg s2 q) = (PageReserved (pg s q) \<and> q \<notin> {base ..< base + n})" for q
    using n by (auto simp: s2_def pgs_def)
  then have "\<forall>q \<in> freeset (pg s2) (us @ base # vs). \<not> PageReserved (pg s2 q)"
    using fs2 fa uv(1) by (auto simp: free_area_def)
  moreover have "nr_free s2 = sum_list (map (\<lambda>p. pg_property (pg s2 p)) (us @ base # vs))"
  proof -
    have "sum_list (map (\<lambda>p. pg_property (pg s2 p)) us) = sum_list (map (\<lambda>p. pg_property (pg s p)) us)"
      "sum_list (map (\<lambda>p. pg_property (pg s2 p)) vs) = sum_list (map (\<lambda>p. pg_property (pg s p)) vs)"
      using same by (auto intro!: arg_cong [of _ _ sum_list])
    moreover have "nr_free s2 = nr_free s + n" by (simp add: s2_def)
    ultimately show ?thesis using fa uv(1) by (simp add: free_area_def prop2)
  qed
  ultimately have fa2: "free_area s2 (us @ base # vs)" by (simp add: free_area_def)
  have "coalesced (pg s2) us" "coalesced (pg s2) vs"
    using co uv(1) same coalesced_cong [of us "pg s2" "pg s"] coalesced_cong [of vs "pg s2" "pg s"]
    by (auto simp: coalesced_append)
  from coalesce_area [OF fa2 this] obtain ys where ys: "free_area (coalesce s2 base) ys"
    "coalesced (pg (coalesce s2 base)) ys"
    "freeset (pg (coalesce s2 base)) ys = freeset (pg s2) (us @ base # vs)" .
  have "PageReserved (pg (coalesce s2 base) q) = PageReserved (pg s2 q)" for q
    by (auto simp: coalesce_def merge_low_def merge_high_def merge_blocks_def Let_def split: le.splits)
  with ys fs2 res2 ret show ?thesis by (intro that [of "coalesce s2 base" ys]) simp_all
qed

section \<open>Initialisation\<close>

lemma default_init_memmap_area:
  assumes n: "0 < n" and res: "\<forall>q. base \<le> q \<and> q < base + n \<longrightarrow> PageReserved (pg s q)"
    and np: "\<forall>q. q < base \<or> base + n \<le> q \<longrightarrow> \<not> PageProperty (pg s q)"
  obtains s' where "default_init_memmap (default_init s) base n = Some s'" "free_area s' [base]"
    "pg_property (pg s' base) = n" "allocated_pages s' = {q. \<not> PageReserved (pg s q)}"
proof -
  define pgs where "pgs = (\<lambda>q. if base \<le> q \<and> q < base + n
      then (pg s q)\<lparr>pg_flags := 0, pg_property := 0, pg_ref := 0\<rparr> else pg s q)"
  have e: "dlist (list_init (links s) FreeList) FreeList []" by (rule dlist_init)
  obtain d' where d': "insert_free (list_init (links s) FreeList) base = Some d'"
    "dlist d' FreeList [PageLink base]"
    by (rule insert_free_empty [OF e])
  define s' where "s' = s\<lparr>pg := pgs(base := SetPageProperty ((pgs base)\<lparr>pg_property := n\<rparr>)),
    links := d', nr_free := n\<rparr>"
  have ret: "default_init_memmap (default_init s) base n = Some s'"
    using n res d'(1) by (simp add: default_init_memmap_def default_init_def for_pages_reset pgs_def s'_def Let_def)
  have pr: "PageProperty (pg s' q) \<longleftrightarrow> q = base" for q
  proof (cases "base \<le> q \<and> q < base + n")
    case True
    then have "pg_flags (pgs q) = 0" by (simp add: pgs_def)
    with zero_flags [of "pgs q"] show ?thesis by (auto simp: s'_def)
  next
    case False
    with np n show ?thesis by (auto simp: s'_def pgs_def)
  qed
  have rs: "PageReserved (pg s' q) = (PageReserved (pg s q) \<and> \<not> (base \<le> q \<and> q < base + n))" for q
    using n by (auto simp: s'_def pgs_def PageReserved_def SetPageProperty_def PG_property_def PG_reserved_def
        bit_set_bit_iff)
  have f: "links s' = d'" "nr_free s' = n" "pg_property (pg s' base) = n"
    by (simp_all add: s'_def)
  have fa: "free_area s' [base]"
    using d'(2) n by (auto simp: free_area_def spaced_def block_def pr rs f)
  moreover have "allocated_pages s' = {q. \<not> PageReserved (pg s q)}"
    using res by (auto simp: allocated_pages_def free_pages_of_area [OF fa] rs block_def f)
  ultimately show ?thesis using ret f by (intro that [of s']) simp_all
qed

section \<open>The manager behind the interface\<close>

lemma default_alloc_cases:
  assumes "free_area s xs" "default_alloc_pages s n = Some (r, s')"
  shows "0 < n \<and> (case r of None \<Rightarrow> s' = s \<and> (\<forall>q \<in> set xs. pg_property (pg s q) < n)
    | Some p \<Rightarrow> \<exists>us vs. xs = us @ p # vs \<and> n \<le> pg_property (pg s p) \<and>
        (\<forall>u \<in> set us. pg_property (pg s u) < n) \<and> s' = take_block s p n)"
proof -
  have n: "0 < n" using assms(2) by (auto simp: default_alloc_pages_def split: if_splits)
  show ?thesis
  proof (cases "find (\<lambda>p. n \<le> pg_property (pg s p)) xs")
    case None
    with default_alloc_eq [OF assms(1) n] assms(2) n show ?thesis by (auto simp: find_None_iff)
  next
    case (Some p)
    with default_alloc_eq [OF assms(1) n] assms(2) have "r = Some p" "s' = take_block s p n" by auto
    with n find_split [OF Some] show ?thesis by (auto simp: not_le; blast)
  qed
qed

interpretation ff: pmm_manager default_alloc_pages "\<lambda>n. n" free_pages_of allocated_pages pmm_inv default_free_pages
proof unfold_locales
  fix s :: pmm and n p :: nat and s' :: pmm
  show "n \<le> n" by simp
  show "pmm_inv s \<Longrightarrow> finite (free_pages_of s)" by (auto simp: pmm_inv_def dest: free_area_card)
  show "pmm_inv s \<Longrightarrow> free_pages_of s \<inter> allocated_pages s = {}" by (auto simp: allocated_pages_def)
  show "pmm_inv s \<Longrightarrow> default_alloc_pages s n = Some (None, s') \<Longrightarrow> s' = s"
    by (auto simp: pmm_inv_def dest: default_alloc_cases)
  show "pmm_inv s \<Longrightarrow> 0 < n \<Longrightarrow> default_alloc_pages s n \<noteq> None"
    by (auto simp: pmm_inv_def default_alloc_eq)
  show "pmm_inv s' \<and> {p ..< p + n} \<subseteq> free_pages_of s \<and> free_pages_of s' = free_pages_of s - {p ..< p + n} \<and>
      allocated_pages s' = allocated_pages s \<union> {p ..< p + n}"
    if "pmm_inv s" "default_alloc_pages s n = Some (Some p, s')"
  proof -
    from that(1) obtain xs where xs: "free_area s xs" "coalesced (pg s) xs" by (auto simp: pmm_inv_def)
    from default_alloc_cases [OF xs(1) that(2)] obtain us vs where
      "0 < n" "xs = us @ p # vs" "n \<le> pg_property (pg s p)" "s' = take_block s p n" by auto
    with xs take_block_coalesced [of s us p vs n] take_block_sets [of s us p vs n] show ?thesis by simp
  qed
  show "\<exists>s'. default_free_pages s p n = Some s' \<and> pmm_inv s' \<and> free_pages_of s' = free_pages_of s \<union> {p ..< p + n} \<and>
      allocated_pages s' = allocated_pages s - {p ..< p + n}"
    if "pmm_inv s" "0 < n" "{p ..< p + n} \<subseteq> allocated_pages s"
      "free_pages_of s = {} \<or> (\<exists>q \<in> free_pages_of s. p < q)"
  proof -
    from that(1) obtain xs where xs: "free_area s xs" "coalesced (pg s) xs" by (auto simp: pmm_inv_def)
    from default_free_area [OF xs that(2-4)] obtain s' ys where s':
      "default_free_pages s p n = Some s'" "free_area s' ys" "coalesced (pg s') ys"
      "freeset (pg s') ys = freeset (pg s) xs \<union> {p ..< p + n}"
      "\<And>q. PageReserved (pg s' q) = (PageReserved (pg s q) \<and> q \<notin> {p ..< p + n})" by blast
    then have "free_pages_of s' = free_pages_of s \<union> {p ..< p + n}"
      using free_pages_of_area [OF xs(1)] free_pages_of_area [OF s'(2)] by simp
    with s' that(3) show ?thesis
      by (intro exI [of _ s']) (auto simp: pmm_inv_def allocated_pages_def)
  qed
qed

section \<open>Properties\<close>

text \<open>A machine fresh out of \<open>page_init\<close>: every descriptor reserved, the list head not yet set up.\<close>

definition boot_pmm :: pmm where
  "boot_pmm = \<lparr>pg = (\<lambda>_. SetPageReserved \<lparr>pg_ref = 0, pg_flags = 0, pg_property = 0\<rparr>),
     links = \<lparr>nxt = (\<lambda>x. x), prv = (\<lambda>x. x)\<rparr>, nr_free = 0\<rparr>"

lemma boot_pmm_flags [simp]:
  "PageReserved (pg boot_pmm q)" "\<not> PageProperty (pg boot_pmm q)"
  by (simp_all add: boot_pmm_def zero_flags)

lemma boot_memmap:
  assumes "0 < n"
  obtains s where "default_init_memmap (default_init boot_pmm) base n = Some s" "free_area s [base]"
    "pg_property (pg s base) = n" "allocated_pages s = {}" "coalesced (pg s) [base]"
  using default_init_memmap_area [of n base boot_pmm] assms that by (auto simp: coalesced_def)

text \<open>C5: First fit. On a well-formed free list \<open>default_alloc_pages\<close> returns; if it returns a page, that
  page heads the lowest free block of at least \<open>n\<close> pages, exactly its first \<open>n\<close> pages leave the free
  set and become allocated, \<open>nr_free\<close> drops by \<open>n\<close> and the free list stays well formed and
  coalesced; it returns \<open>NULL\<close> only when no block has \<open>n\<close> pages, and then changes nothing.\<close>

theorem default_alloc_first_fit:
  assumes "free_area s xs" "coalesced (pg s) xs" "0 < n"
  shows "case default_alloc_pages s n of
      None \<Rightarrow> False
    | Some (None, s') \<Rightarrow> s' = s \<and> (\<forall>q \<in> set xs. pg_property (pg s q) < n)
    | Some (Some p, s') \<Rightarrow>
        p \<in> set xs \<and> n \<le> pg_property (pg s p) \<and> (\<forall>q \<in> set xs. q < p \<longrightarrow> pg_property (pg s q) < n)
        \<and> pmm_inv s' \<and> free_pages_of s' = free_pages_of s - {p ..< p + n}
        \<and> allocated_pages s' = allocated_pages s \<union> {p ..< p + n} \<and> nr_free s' = nr_free s - n"
proof -
  have inv: "pmm_inv s" using assms by (auto simp: pmm_inv_def)
  obtain r s' where al: "default_alloc_pages s n = Some (r, s')"
    using ff.alloc_total [OF inv assms(3)] by auto
  show ?thesis
  proof (cases r)
    case None
    with al default_alloc_cases [OF assms(1) al] show ?thesis by auto
  next
    case (Some p)
    from default_alloc_cases [OF assms(1) al] Some obtain us vs where uv:
      "xs = us @ p # vs" "n \<le> pg_property (pg s p)" "\<forall>u \<in> set us. pg_property (pg s u) < n"
      "s' = take_block s p n" by auto
    have "\<forall>q \<in> set xs. q < p \<longrightarrow> q \<in> set us"
      using assms(1) uv(1) by (force simp: free_area_def spaced_append spaced_Cons)
    moreover have "nr_free s' = nr_free s - n" using uv(4) by (simp add: take_block_def split_def Let_def)
    ultimately show ?thesis
      using al Some uv ff.alloc_some [OF inv, of n p s'] by auto
  qed
qed

theorem default_alloc_first_fit_witness:
  "\<exists>s s'. default_init_memmap (default_init boot_pmm) 3 8 = Some s
     \<and> default_alloc_pages s 5 = Some (Some 3, s') \<and> free_pages_of s' = free_pages_of s - {3 ..< 8}"
proof -
  obtain s where s: "default_init_memmap (default_init boot_pmm) 3 8 = Some s" "free_area s [3]"
    "pg_property (pg s 3) = 8" "coalesced (pg s) [3]" using boot_memmap [of 8 3] by auto
  have "default_alloc_pages s 5 = Some (Some 3, take_block s 3 5)"
    using default_alloc_eq [OF s(2), of 5] s(3) by simp
  with s(1) default_alloc_first_fit [OF s(2,4), of 5] show ?thesis by auto
qed

text \<open>Freeing. \<open>default_free_pages\<close> on \<open>n\<close> allocated pages below some free page (or into an
  empty list) does not panic, adds exactly these pages to the free set, raises \<open>nr_free\<close> by \<open>n\<close>
  and leaves a list in which no two neighbouring blocks touch, so both merges are complete.\<close>

theorem default_free_adds_block:
  assumes "pmm_inv s" "0 < n" "{base ..< base + n} \<subseteq> allocated_pages s"
    and "free_pages_of s = {} \<or> (\<exists>q \<in> free_pages_of s. base < q)"
  shows "\<exists>s'. default_free_pages s base n = Some s' \<and> pmm_inv s'
    \<and> free_pages_of s' = free_pages_of s \<union> {base ..< base + n}
    \<and> allocated_pages s' = allocated_pages s - {base ..< base + n} \<and> nr_free s' = nr_free s + n"
proof -
  obtain s' where s': "default_free_pages s base n = Some s'" "pmm_inv s'"
    "free_pages_of s' = free_pages_of s \<union> {base ..< base + n}"
    "allocated_pages s' = allocated_pages s - {base ..< base + n}"
    using ff.release_ok [OF assms] by blast
  have "finite (free_pages_of s)" "card (free_pages_of s) = nr_free s" "card (free_pages_of s') = nr_free s'"
    using assms(1) s'(2) by (auto simp: pmm_inv_def dest: free_area_card)
  moreover have "free_pages_of s \<inter> {base ..< base + n} = {}"
    using assms(3) by (auto simp: allocated_pages_def)
  ultimately have "nr_free s' = nr_free s + n"
    using s'(3) card_Un_disjoint [of "free_pages_of s" "{base ..< base + n}"] by simp
  with s' show ?thesis by blast
qed

theorem default_free_adds_block_witness:
  "\<exists>s s' s''. default_init_memmap (default_init boot_pmm) 3 8 = Some s
     \<and> default_alloc_pages s 5 = Some (Some 3, s')
     \<and> default_free_pages s' 3 5 = Some s'' \<and> nr_free s'' = 8"
proof -
  obtain s where s: "default_init_memmap (default_init boot_pmm) 3 8 = Some s" "free_area s [3]"
    "pg_property (pg s 3) = 8" "coalesced (pg s) [3]" using boot_memmap [of 8 3] by auto
  have al: "default_alloc_pages s 5 = Some (Some 3, take_block s 3 5)"
    using default_alloc_eq [OF s(2), of 5] s(3) by simp
  have inv: "pmm_inv s" using s by (auto simp: pmm_inv_def)
  note a = ff.alloc_some [OF inv al]
  have "8 \<in> free_pages_of (take_block s 3 5)"
    using a free_pages_of_area [OF s(2)] s(3) by (simp add: block_def)
  then have "\<exists>q \<in> free_pages_of (take_block s 3 5). 3 < q" by (intro bexI [of _ 8]) auto
  moreover have "nr_free (take_block s 3 5) = 3"
    using s by (simp add: take_block_def split_def Let_def free_area_def)
  ultimately show ?thesis
    using default_free_adds_block [of "take_block s 3 5" 5 3] a al s(1) by auto
qed

text \<open>C6: Allocating pages from a coalesced free list and then freeing the same pages restores the free list itself: the same blocks, at
  the same addresses, of the same sizes, because a coalesced list is determined by its free set. This needs one condition: when the
  pages are freed, either no page is free or some free page lies above them. Without it \<open>default_free_pages\<close> corrupts the list, as the
  last section shows.\<close>

theorem default_alloc_free_restores:
  assumes "free_area s xs" "coalesced (pg s) xs" "default_alloc_pages s n = Some (Some p, s')"
    and "free_pages_of s' = {} \<or> (\<exists>q \<in> free_pages_of s'. p < q)"
  shows "\<exists>s''. default_free_pages s' p n = Some s'' \<and> free_area s'' xs
    \<and> (\<forall>q \<in> set xs. pg_property (pg s'' q) = pg_property (pg s q)) \<and> nr_free s'' = nr_free s"
proof -
  have inv: "pmm_inv s" using assms by (auto simp: pmm_inv_def)
  have n: "0 < n" using default_alloc_cases [OF assms(1,3)] by simp
  obtain s'' where s'': "default_free_pages s' p n = Some s''" "pmm_inv s''" "free_pages_of s'' = free_pages_of s"
    using ff.alloc_release [OF inv n assms(3) refl assms(4)] by blast
  then obtain ys where ys: "free_area s'' ys" "coalesced (pg s'') ys" by (auto simp: pmm_inv_def)
  have "freeset (pg s'') ys = freeset (pg s) xs"
    using s''(3) free_pages_of_area [OF ys(1)] free_pages_of_area [OF assms(1)] by simp
  then have "ys = xs \<and> (\<forall>q \<in> set ys. pg_property (pg s'' q) = pg_property (pg s q))"
    using ys assms(1,2) by (intro coalesced_unique) (auto simp: free_area_def)
  moreover have "nr_free s'' = nr_free s"
    using free_area_card [OF ys(1)] free_area_card [OF assms(1)] s''(3) by simp
  ultimately show ?thesis using s''(1) ys(1) by blast
qed

theorem default_alloc_free_restores_witness:
  "\<exists>s s' s''. default_init_memmap (default_init boot_pmm) 3 8 = Some s
     \<and> default_alloc_pages s 5 = Some (Some 3, s')
     \<and> default_free_pages s' 3 5 = Some s'' \<and> free_area s'' [3] \<and> pg_property (pg s'' 3) = 8"
proof -
  obtain s where s: "default_init_memmap (default_init boot_pmm) 3 8 = Some s" "free_area s [3]"
    "pg_property (pg s 3) = 8" "coalesced (pg s) [3]" using boot_memmap [of 8 3] by auto
  have al: "default_alloc_pages s 5 = Some (Some 3, take_block s 3 5)"
    using default_alloc_eq [OF s(2), of 5] s(3) by simp
  have "pmm_inv s" using s by (auto simp: pmm_inv_def)
  from ff.alloc_some [OF this al] have "8 \<in> free_pages_of (take_block s 3 5)"
    using free_pages_of_area [OF s(2)] s(3) by (simp add: block_def)
  then have "\<exists>q \<in> free_pages_of (take_block s 3 5). 3 < q" by (intro bexI [of _ 8]) auto
  with s al default_alloc_free_restores [OF s(2,4) al] show ?thesis by auto
qed

text \<open>A list of requests served one after the other gets pairwise disjoint blocks, all of them
  free before, and what is free afterwards is what none of them took.\<close>

theorem default_requests_disjoint:
  assumes "pmm_inv s" "alloc_all default_alloc_pages s ns = Some (ps, s')"
  shows "free_pages_of s' = free_pages_of s - (\<Union>i < length ps. {ps ! i ..< ps ! i + ns ! i})
    \<and> (\<forall>i < length ps. {ps ! i ..< ps ! i + ns ! i} \<subseteq> free_pages_of s)
    \<and> (\<forall>i j. i < j \<and> j < length ps \<longrightarrow> {ps ! i ..< ps ! i + ns ! i} \<inter> {ps ! j ..< ps ! j + ns ! j} = {})"
  using ff.alloc_all_sound [OF assms] by blast

theorem default_requests_disjoint_witness:
  "\<exists>s s' p q. default_init_memmap (default_init boot_pmm) 3 8 = Some s
     \<and> alloc_all default_alloc_pages s [5, 2] = Some ([p, q], s')
     \<and> {p ..< p + 5} \<inter> {q ..< q + 2} = {}"
proof -
  obtain s where s: "default_init_memmap (default_init boot_pmm) 3 8 = Some s" "free_area s [3]"
    "pg_property (pg s 3) = 8" "coalesced (pg s) [3]" using boot_memmap [of 8 3] by auto
  have inv: "pmm_inv s" using s by (auto simp: pmm_inv_def)
  have al: "default_alloc_pages s 5 = Some (Some 3, take_block s 3 5)"
    using default_alloc_eq [OF s(2), of 5] s(3) by simp
  have fa: "free_area (take_block s 3 5) [8]" "pg_property (pg (take_block s 3 5) 8) = 3"
    using take_block_area(1,4) [of s "[]" 3 "[]" 5] s(2,3) by simp_all
  have "default_alloc_pages (take_block s 3 5) 2 = Some (Some 8, take_block (take_block s 3 5) 8 2)"
    using default_alloc_eq [OF fa(1), of 2] fa(2) by simp
  with al have aa: "alloc_all default_alloc_pages s [5, 2] = Some ([3, 8], take_block (take_block s 3 5) 8 2)"
    by simp
  have "{3 ..< 3 + 5} \<inter> {8 ..< 8 + 2} = ({} :: nat set)"
    using default_requests_disjoint [OF inv aa, THEN conjunct2, THEN conjunct2, rule_format, of 0 1] by simp
  with s(1) aa show ?thesis by blast
qed

text \<open>The freed block lands above every free block: the loop visits the new node once more, links it
  after itself, and its \<open>prev\<close> field ends up pointing to itself.\<close>

lemma insert_loop_above:
  "linked d a (map PageLink (us @ [u])) FreeList \<Longrightarrow> \<forall>x \<in> set (us @ [u]). x < base \<Longrightarrow>
   insert_loop d base a = Some (list_add (list_add d (PageLink u) (PageLink base)) (PageLink base) (PageLink base))"
proof (induction us arbitrary: a)
  case Nil
  then have "nxt d a = PageLink u" "nxt d (PageLink u) = FreeList" "\<not> base < u" by auto
  moreover from this have "insert_loop (list_add d (PageLink u) (PageLink base)) base (PageLink u) =
      Some (list_add (list_add d (PageLink u) (PageLink base)) (PageLink base) (PageLink base))"
    using Nil by (subst insert_loop.simps)
      (auto simp: list_h_defs Let_def insert_loop.simps)
  ultimately show ?case by (subst insert_loop.simps) simp
next
  case (Cons x us)
  have "nxt d (PageLink x) \<noteq> FreeList" using Cons.prems(1) by (cases us) auto
  with Cons show ?case by (subst insert_loop.simps) auto
qed

lemma default_free_above:
  assumes "free_area s (us @ [u])" "0 < n" "{base ..< base + n} \<subseteq> allocated_pages s" "u < base"
  obtains s' where "default_free_pages s base n = Some s'"
    "links s' = list_add (list_add (links s) (PageLink u) (PageLink base)) (PageLink base) (PageLink base)"
    "pg_property (pg s' base) = n" "PageProperty (pg s' base)" "nr_free s' = nr_free s + n"
    "\<And>q. q \<notin> {base ..< base + n} \<Longrightarrow> pg s' q = pg s q"
proof -
  let ?d = "list_add (list_add (links s) (PageLink u) (PageLink base)) (PageLink base) (PageLink base)"
  have dl: "dlist (links s) FreeList (map PageLink (us @ [u]))" and sp: "spaced (pg s) (us @ [u])"
    using assms(1) by (auto simp: free_area_def)
  have below: "\<forall>x \<in> set (us @ [u]). x < base" using sp assms(4) by (fastforce simp: spaced_append)
  have ins: "insert_free (links s) base = Some ?d"
    using dl insert_loop_above [of "links s" FreeList us u base] below list_empty_iff [OF dl]
    by (simp add: insert_free_def dlist_def)
  have fl: "\<And>p. PageProperty (pg s p) \<longleftrightarrow> p \<in> set (us @ [u])" using assms(1) by (auto simp: free_area_def)
  have ok: "\<forall>q. base \<le> q \<and> q < base + n \<longrightarrow> \<not> PageReserved (pg s q) \<and> \<not> PageProperty (pg s q)"
    using assms(3) below fl by (fastforce simp: allocated_pages_def)
  define pgs where "pgs = (\<lambda>q. if base \<le> q \<and> q < base + n then (pg s q)\<lparr>pg_flags := 0, pg_ref := 0\<rparr> else pg s q)"
  define s2 where "s2 = s\<lparr>pg := pgs(base := SetPageProperty ((pgs base)\<lparr>pg_property := n\<rparr>)),
    links := ?d, nr_free := nr_free s + n\<rparr>"
  have ret: "default_free_pages s base n = Some (coalesce s2 base)"
    using assms(2) ok ins by (simp add: default_free_pages_def for_pages_reset s2_def pgs_def Let_def)
  have "list_prev (links s2) (PageLink base) = PageLink base"
    "list_next (links s2) (PageLink base) = FreeList"
    using linked_last [of "links s" FreeList "map PageLink (us @ [u])" FreeList] dl
    by (simp_all add: s2_def list_h_defs Let_def dlist_def)
  moreover have np: "pg_property (pg s2 base) = n" by (simp add: s2_def)
  ultimately have coal: "coalesce s2 base = s2"
    using assms(2) by (simp add: coalesce_def merge_low_def merge_high_def)
  show ?thesis
  proof (rule that)
    show "default_free_pages s base n = Some s2" using ret coal by simp
    show "links s2 = ?d" "nr_free s2 = nr_free s + n" "PageProperty (pg s2 base)" by (simp_all add: s2_def)
    show "pg_property (pg s2 base) = n" by (rule np)
    show "\<And>q. q \<notin> {base ..< base + n} \<Longrightarrow> pg s2 q = pg s q" using assms(2) by (auto simp: s2_def pgs_def)
  qed
qed

text \<open>Freeing a block above every free block corrupts the list: after \<open>default_free_pages\<close> the
  \<open>prev\<close> link of the freed block points to the block itself, so the state no longer represents any
  free list (the \<open>else if\<close> branch of the insertion loop lacks a \<open>break\<close>).\<close>

theorem default_free_above_corrupts:
  assumes "free_area s (us @ [u])" "0 < n" "{base ..< base + n} \<subseteq> allocated_pages s" "u < base"
  shows "\<exists>s'. default_free_pages s base n = Some s'
    \<and> list_prev (links s') (PageLink base) = PageLink base \<and> (\<nexists>ys. free_area s' ys)"
proof -
  obtain s2 where s2: "default_free_pages s base n = Some s2" "PageProperty (pg s2 base)"
    "links s2 = list_add (list_add (links s) (PageLink u) (PageLink base)) (PageLink base) (PageLink base)"
    using default_free_above [OF assms] .
  have prv: "list_prev (links s2) (PageLink base) = PageLink base"
    by (simp add: s2(3) list_h_defs Let_def)
  have "\<not> free_area s2 ys" for ys
  proof
    assume fa: "free_area s2 ys"
    then have "base \<in> set ys" using s2(2) by (auto simp: free_area_def)
    then obtain ws vs where "ys = ws @ base # vs" by (meson split_list)
    with fa have "dlist (links s2) FreeList (map PageLink ws @ PageLink base # map PageLink vs)"
      by (simp add: free_area_def)
    from dlist_prev_mid [OF this] dlist_distinct [OF this] prv show False
      by (cases ws rule: rev_cases) auto
  qed
  with s2(1) prv show ?thesis by auto
qed

text \<open>A machine whose allocator was given only page 0; the pages above it are in use.\<close>

definition tight_pmm :: pmm where
  "tight_pmm = boot_pmm\<lparr>pg := (\<lambda>_. \<lparr>pg_ref = 0, pg_flags = 0, pg_property = 0\<rparr>)(0 := pg boot_pmm 0)\<rparr>"

lemma tight_memmap:
  obtains s where "default_init_memmap (default_init tight_pmm) 0 1 = Some s" "free_area s [0]"
    "pg_property (pg s 0) = 1" "{1 ..< 1 + n} \<subseteq> allocated_pages s"
proof (rule default_init_memmap_area [of 1 0 tight_pmm])
  fix s assume "default_init_memmap (default_init tight_pmm) 0 1 = Some s" "free_area s [0]"
    "pg_property (pg s 0) = 1" "allocated_pages s = {q. \<not> PageReserved (pg tight_pmm q)}"
  then show thesis by (intro that [of s]) (auto simp: tight_pmm_def zero_flags)
qed (auto simp: tight_pmm_def zero_flags)

theorem default_free_above_corrupts_witness:
  "\<exists>s s'. default_init_memmap (default_init tight_pmm) 0 1 = Some s
     \<and> default_free_pages s 1 4 = Some s' \<and> list_prev (links s') (PageLink 1) = PageLink 1"
proof -
  obtain s where s: "default_init_memmap (default_init tight_pmm) 0 1 = Some s" "free_area s [0]"
    "{1 ..< 1 + 4} \<subseteq> allocated_pages s" using tight_memmap [of 4] by blast
  with default_free_above_corrupts [of s "[]" 0 4 1] show ?thesis by auto
qed

text \<open>C7: The corruption leads to double allocation: with one free block of \<open>k\<close> pages, freeing \<open>n\<close> pages
  above it and then asking twice for \<open>m\<close> pages (\<open>k < m < n\<close>, and enough pages in total) hands out
  the freed block both times.\<close>

theorem default_double_allocation:
  assumes "free_area s [u]" "pg_property (pg s u) = k" "u < base" "k < m" "m < n" "2 * m \<le> k + n"
    and "{base ..< base + n} \<subseteq> allocated_pages s"
  shows "do {
     s \<leftarrow> default_free_pages s base n;
     (d, s) \<leftarrow> default_alloc_pages s m;
     (e, s) \<leftarrow> default_alloc_pages s m;
     Some (d, e)
   } = Some (Some base, Some base)"
proof -
  obtain s2 where s2: "default_free_pages s base n = Some s2"
    "links s2 = list_add (list_add (links s) (PageLink u) (PageLink base)) (PageLink base) (PageLink base)"
    "pg_property (pg s2 base) = n" "nr_free s2 = nr_free s + n" "pg s2 u = pg s u"
  proof (rule default_free_above [of s "[]" u n base])
    fix s' assume *: "default_free_pages s base n = Some s'"
      "links s' = list_add (list_add (links s) (PageLink u) (PageLink base)) (PageLink base) (PageLink base)"
      "pg_property (pg s' base) = n" "nr_free s' = nr_free s + n"
      "\<And>q. q \<notin> {base ..< base + n} \<Longrightarrow> pg s' q = pg s q"
    show thesis by (rule that [of s']) (use * assms(3) in auto)
  qed (use assms in auto)
  have l0: "nxt (links s) FreeList = PageLink u" "nxt (links s) (PageLink u) = FreeList"
    and nr: "nr_free s = k" using assms(1,2) by (auto simp: free_area_def dlist_def)
  have l2: "nxt (links s2) FreeList = PageLink u" "nxt (links s2) (PageLink u) = PageLink base"
    "nxt (links s2) (PageLink base) = FreeList" "prv (links s2) (PageLink base) = PageLink base"
    using l0 assms(3) by (auto simp: s2(2) list_h_defs Let_def)
  let ?s3 = "take_block s2 base m"
  have l3: "nxt (links ?s3) FreeList = PageLink u" "nxt (links ?s3) (PageLink u) = PageLink base"
    using l2 assms(3,5) s2(3) by (auto simp: take_block_def list_h_defs Let_def)
  have p3: "pg_property (pg ?s3 base) = n" "pg_property (pg ?s3 u) = k" "nr_free ?s3 = k + n - m"
    using s2 assms(2-5) nr by (auto simp: take_block_def Let_def)
  have "list_scan (links s2) FreeList (\<lambda>le. m \<le> pg_property (pg s2 (le2page le))) FreeList = Some (PageLink base)"
    using l2 s2(3,5) assms(2,4,5) by (auto simp: list_scan.simps)
  then have a2: "default_alloc_pages s2 m = Some (Some base, ?s3)"
    using s2(4) nr assms(4,6) by (auto simp: default_alloc_pages_def)
  have "list_scan (links ?s3) FreeList (\<lambda>le. m \<le> pg_property (pg ?s3 (le2page le))) FreeList = Some (PageLink base)"
    using l3 p3 assms(4,5) by (auto simp: list_scan.simps)
  then have "default_alloc_pages ?s3 m = Some (Some base, take_block ?s3 base m)"
    using p3 assms(4,6) by (auto simp: default_alloc_pages_def)
  with s2(1) a2 show ?thesis by simp
qed

theorem default_double_allocation_witness:
  "\<exists>s. default_init_memmap (default_init tight_pmm) 0 1 = Some s \<and>
    do {
     s \<leftarrow> default_free_pages s 1 3;
     (d, s) \<leftarrow> default_alloc_pages s 2;
     (e, s) \<leftarrow> default_alloc_pages s 2;
     Some (d, e)
   } = Some (Some 1, Some 1)"
proof -
  obtain s where s: "default_init_memmap (default_init tight_pmm) 0 1 = Some s" "free_area s [0]"
    "pg_property (pg s 0) = 1" "{1 ..< 1 + 3} \<subseteq> allocated_pages s" using tight_memmap [of 3] by blast
  with default_double_allocation [OF s(2,3), of 1 2 3] show ?thesis by auto
qed

end
