(* ===== verification/BestFit.thy ===== *)
theory BestFit
  imports FirstFit
begin

text \<open>
  \<open>lab2/kern/mm/best_fit_pmm.c\<close>: the best fit page allocator. Its initialisation and its
  freeing are the code of the first fit manager; its search walks the whole free list and
  keeps the smallest suitable block.
\<close>

section \<open>The routines\<close>

text \<open>\<open>best_fit_init\<close>.\<close>

definition best_fit_init :: "pmm \<Rightarrow> pmm" where
  "best_fit_init s = s\<lparr>links := list_init (links s) FreeList, nr_free := 0\<rparr>"

text \<open>\<open>best_fit_init_memmap\<close>.\<close>

definition best_fit_init_memmap :: "pmm \<Rightarrow> nat \<Rightarrow> nat \<Rightarrow> pmm option" where
  "best_fit_init_memmap s base n = do {
     kassert (0 < n);
     pgs \<leftarrow> for_pages (\<lambda>p. if PageReserved p then Some (p\<lparr>pg_flags := 0, pg_property := 0, pg_ref := 0\<rparr>)
                            else None) (pg s) base n;
     let pgs = pgs(base := SetPageProperty ((pgs base)\<lparr>pg_property := n\<rparr>));
     d \<leftarrow> insert_free (links s) base;
     Some (s\<lparr>pg := pgs, links := d, nr_free := nr_free s + n\<rparr>)
   }"

text \<open>The loop body of \<open>best_fit_alloc_pages\<close>: \<open>page\<close> and \<open>min_size\<close> are the two variables it updates.\<close>

definition best_fit_step :: "(nat \<Rightarrow> page) \<Rightarrow> nat \<Rightarrow> le \<Rightarrow> nat option \<times> nat \<Rightarrow> nat option \<times> nat" where
  "best_fit_step pgs n le = (\<lambda>(page, min_size).
     let p = le2page le in
     if n \<le> pg_property (pgs p) \<and> pg_property (pgs p) < min_size
     then (Some p, pg_property (pgs p)) else (page, min_size))"

text \<open>\<open>best_fit_alloc_pages\<close>.\<close>

definition best_fit_alloc_pages :: "pmm \<Rightarrow> nat \<Rightarrow> (nat option \<times> pmm) option" where
  "best_fit_alloc_pages s n = do {
     kassert (0 < n);
     if nr_free s < n then Some (None, s)
     else do {
       (page, min_size) \<leftarrow> list_fold (links s) FreeList (best_fit_step (pg s) n) FreeList (None, nr_free s + 1);
       Some (case page of None \<Rightarrow> (None, s) | Some p \<Rightarrow> (Some p, take_block s p n))
     }
   }"

text \<open>\<open>best_fit_free_pages\<close>.\<close>

definition best_fit_free_pages :: "pmm \<Rightarrow> nat \<Rightarrow> nat \<Rightarrow> pmm option" where
  "best_fit_free_pages s base n = do {
     kassert (0 < n);
     pgs \<leftarrow> for_pages (\<lambda>p. if \<not> PageReserved p \<and> \<not> PageProperty p
                            then Some (p\<lparr>pg_flags := 0, pg_ref := 0\<rparr>) else None) (pg s) base n;
     let pgs = pgs(base := SetPageProperty ((pgs base)\<lparr>pg_property := n\<rparr>));
     d \<leftarrow> insert_free (links s) base;
     Some (coalesce (s\<lparr>pg := pgs, links := d, nr_free := nr_free s + n\<rparr>) base)
   }"

text \<open>\<open>best_fit_nr_free_pages\<close>.\<close>

definition best_fit_nr_free_pages :: "pmm \<Rightarrow> nat" where
  "best_fit_nr_free_pages s = nr_free s"

text \<open>Initialisation and freeing are line for line those of \<open>default_pmm.c\<close>.\<close>

lemma best_fit_shared:
  "best_fit_init = default_init" "best_fit_init_memmap = default_init_memmap"
  "best_fit_free_pages = default_free_pages"
  by (simp_all add: fun_eq_iff best_fit_init_def default_init_def best_fit_init_memmap_def
      default_init_memmap_def best_fit_free_pages_def default_free_pages_def)

section \<open>The search\<close>

lemma best_fit_fold:
  fixes pgs :: "nat \<Rightarrow> page" and n :: nat
  defines "f \<equiv> \<lambda>p. best_fit_step pgs n (PageLink p)"
  shows "fold f xs (r, m) = (r', m') \<Longrightarrow>
    m' \<le> m \<and> (r' = r \<and> m' = m \<and> (\<forall>q \<in> set xs. n \<le> pg_property (pgs q) \<longrightarrow> m \<le> pg_property (pgs q))
     \<or> (\<exists>us p vs. xs = us @ p # vs \<and> r' = Some p \<and> m' = pg_property (pgs p) \<and> n \<le> m' \<and> m' < m
         \<and> (\<forall>q \<in> set us. n \<le> pg_property (pgs q) \<longrightarrow> m' < pg_property (pgs q))
         \<and> (\<forall>q \<in> set vs. n \<le> pg_property (pgs q) \<longrightarrow> m' \<le> pg_property (pgs q))))"
proof (induction xs arbitrary: r m)
  case Nil
  then show ?case by simp
next
  case (Cons x xs)
  show ?case
  proof (cases "n \<le> pg_property (pgs x) \<and> pg_property (pgs x) < m")
    case True
    then have "fold f xs (Some x, pg_property (pgs x)) = (r', m')"
      using Cons.prems by (simp add: f_def best_fit_step_def)
    from Cons.IH [OF this] consider
      "r' = Some x" "m' = pg_property (pgs x)" "\<forall>q \<in> set xs. n \<le> pg_property (pgs q) \<longrightarrow> m' \<le> pg_property (pgs q)"
    | us p vs where "xs = us @ p # vs" "r' = Some p" "m' = pg_property (pgs p)" "n \<le> m'" "m' < pg_property (pgs x)"
      "\<forall>q \<in> set us. n \<le> pg_property (pgs q) \<longrightarrow> m' < pg_property (pgs q)"
      "\<forall>q \<in> set vs. n \<le> pg_property (pgs q) \<longrightarrow> m' \<le> pg_property (pgs q)" by auto
    then show ?thesis
    proof cases
      case 1
      with True show ?thesis by (intro conjI disjI2 exI [of _ "[]"] exI [of _ x] exI [of _ xs]) auto
    next
      case 2
      with True show ?thesis by (intro conjI disjI2 exI [of _ "x # us"] exI [of _ p] exI [of _ vs]) auto
    qed
  next
    case False
    then have "f x (r, m) = (r, m)" by (auto simp: f_def best_fit_step_def Let_def)
    with Cons.prems have "fold f xs (r, m) = (r', m')" by simp
    from Cons.IH [OF this] consider
      "r' = r" "m' = m" "\<forall>q \<in> set xs. n \<le> pg_property (pgs q) \<longrightarrow> m \<le> pg_property (pgs q)"
    | us p vs where "xs = us @ p # vs" "r' = Some p" "m' = pg_property (pgs p)" "n \<le> m'" "m' < m"
      "\<forall>q \<in> set us. n \<le> pg_property (pgs q) \<longrightarrow> m' < pg_property (pgs q)"
      "\<forall>q \<in> set vs. n \<le> pg_property (pgs q) \<longrightarrow> m' \<le> pg_property (pgs q)" by auto
    then show ?thesis
    proof cases
      case 1
      with False show ?thesis by auto
    next
      case 2
      with False show ?thesis by (intro conjI disjI2 exI [of _ "x # us"] exI [of _ p] exI [of _ vs]) auto
    qed
  qed
qed

lemma fold_map_links: "fold f (map PageLink xs) a = fold (\<lambda>p. f (PageLink p)) xs a"
  by (induction xs arbitrary: a) auto

lemma best_fit_alloc_cases:
  assumes fa: "free_area s xs" and n: "0 < n"
  obtains
    (full) "best_fit_alloc_pages s n = Some (None, s)" "\<forall>q \<in> set xs. pg_property (pg s q) < n"
  | (best) us p vs where "best_fit_alloc_pages s n = Some (Some p, take_block s p n)" "xs = us @ p # vs"
      "n \<le> pg_property (pg s p)"
      "\<forall>q \<in> set us. n \<le> pg_property (pg s q) \<longrightarrow> pg_property (pg s p) < pg_property (pg s q)"
      "\<forall>q \<in> set vs. n \<le> pg_property (pg s q) \<longrightarrow> pg_property (pg s p) \<le> pg_property (pg s q)"
proof -
  have small: "pg_property (pg s q) \<le> nr_free s" if "q \<in> set xs" for q
  proof -
    have "pg_property (pg s q) \<le> sum_list (map (\<lambda>p. pg_property (pg s p)) xs)"
      using that by (intro member_le_sum_list) auto
    with fa show ?thesis by (simp add: free_area_def)
  qed
  show thesis
  proof (cases "nr_free s < n")
    case True
    with n small show thesis by (intro full) (force simp: best_fit_alloc_pages_def)+
  next
    case False
    have dl: "dlist (links s) FreeList (map PageLink xs)" using fa by (simp add: free_area_def)
    obtain r m where r: "fold (\<lambda>p. best_fit_step (pg s) n (PageLink p)) xs (None, nr_free s + 1) = (r, m)"
      by fastforce
    note r' = r [unfolded Suc_eq_plus1 [symmetric]]
    have al: "best_fit_alloc_pages s n =
        Some (case r of None \<Rightarrow> (None, s) | Some p \<Rightarrow> (Some p, take_block s p n))"
      using n False by (simp add: best_fit_alloc_pages_def dlist_fold [OF dl] fold_map_links r' del: fold_map)
    from best_fit_fold [OF r] show thesis
    proof (elim conjE disjE exE)
      assume "r = None" "\<forall>q \<in> set xs. n \<le> pg_property (pg s q) \<longrightarrow> nr_free s + 1 \<le> pg_property (pg s q)"
      with al small show thesis by (intro full) (force simp: not_le [symmetric])+
    next
      fix us p vs
      assume "xs = us @ p # vs" "r = Some p" "m = pg_property (pg s p)" "n \<le> m"
        "\<forall>q \<in> set us. n \<le> pg_property (pg s q) \<longrightarrow> m < pg_property (pg s q)"
        "\<forall>q \<in> set vs. n \<le> pg_property (pg s q) \<longrightarrow> m \<le> pg_property (pg s q)"
      with al show thesis by (intro best [of p us vs]) simp_all
    qed
  qed
qed

section \<open>The manager behind the interface\<close>

interpretation bf: pmm_manager best_fit_alloc_pages "\<lambda>n. n" free_pages_of allocated_pages pmm_inv best_fit_free_pages
proof unfold_locales
  fix s :: pmm and n p :: nat and s' :: pmm
  show "n \<le> n" by simp
  show "pmm_inv s \<Longrightarrow> finite (free_pages_of s)" by (rule ff.free_finite)
  show "pmm_inv s \<Longrightarrow> free_pages_of s \<inter> allocated_pages s = {}" by (rule ff.free_allocated)
  have n: "0 < n" if "best_fit_alloc_pages s n = Some r" for r
    using that by (auto simp: best_fit_alloc_pages_def split: if_splits)
  show "s' = s" if "pmm_inv s" "best_fit_alloc_pages s n = Some (None, s')"
    using that n [OF that(2)] by (auto simp: pmm_inv_def elim!: best_fit_alloc_cases [of s _ n])
  show "best_fit_alloc_pages s n \<noteq> None" if "pmm_inv s" "0 < n"
    using that by (auto simp: pmm_inv_def elim!: best_fit_alloc_cases [of s _ n])
  show "pmm_inv s' \<and> {p ..< p + n} \<subseteq> free_pages_of s \<and> free_pages_of s' = free_pages_of s - {p ..< p + n} \<and>
      allocated_pages s' = allocated_pages s \<union> {p ..< p + n}"
    if "pmm_inv s" "best_fit_alloc_pages s n = Some (Some p, s')"
  proof -
    from that(1) obtain xs where xs: "free_area s xs" "coalesced (pg s) xs" by (auto simp: pmm_inv_def)
    note n = n [OF that(2)]
    from xs(1) n show ?thesis
    proof (cases rule: best_fit_alloc_cases)
      case full
      with that show ?thesis by simp
    next
      case (best us q vs)
      with that have "s' = take_block s p n" "p = q" by auto
      with best xs n take_block_coalesced [of s us q vs n] take_block_sets [of s us q vs n]
      show ?thesis by simp
    qed
  qed
  show "\<exists>s'. best_fit_free_pages s p n = Some s' \<and> pmm_inv s' \<and> free_pages_of s' = free_pages_of s \<union> {p ..< p + n} \<and>
      allocated_pages s' = allocated_pages s - {p ..< p + n}"
    if "pmm_inv s" "0 < n" "{p ..< p + n} \<subseteq> allocated_pages s"
      "free_pages_of s = {} \<or> (\<exists>q \<in> free_pages_of s. p < q)"
    unfolding best_fit_shared by (rule ff.release_ok [OF that])
qed

section \<open>Properties\<close>

text \<open>C8: Best fit. On a well-formed free list \<open>best_fit_alloc_pages\<close> returns; a page it returns heads
  a block that fits and is no larger than any other block that fits (the lowest such block), exactly
  \<open>n\<close> pages leave the free set, and it returns \<open>NULL\<close> only when no block fits.\<close>

theorem best_fit_alloc_smallest:
  assumes "free_area s xs" "coalesced (pg s) xs" "0 < n"
  shows "case best_fit_alloc_pages s n of
      None \<Rightarrow> False
    | Some (None, s') \<Rightarrow> s' = s \<and> (\<forall>q \<in> set xs. pg_property (pg s q) < n)
    | Some (Some p, s') \<Rightarrow>
        p \<in> set xs \<and> n \<le> pg_property (pg s p)
        \<and> (\<forall>q \<in> set xs. n \<le> pg_property (pg s q) \<longrightarrow>
             pg_property (pg s p) < pg_property (pg s q) \<or> pg_property (pg s p) = pg_property (pg s q) \<and> p \<le> q)
        \<and> pmm_inv s' \<and> free_pages_of s' = free_pages_of s - {p ..< p + n} \<and> nr_free s' = nr_free s - n"
proof -
  have inv: "pmm_inv s" using assms by (auto simp: pmm_inv_def)
  from assms(1,3) show ?thesis
  proof (cases rule: best_fit_alloc_cases)
    case full
    then show ?thesis by auto
  next
    case (best us p vs)
    have "\<forall>q \<in> set vs. p \<le> q"
      using assms(1) best(2) by (force simp: free_area_def spaced_append spaced_Cons)
    moreover have "nr_free (take_block s p n) = nr_free s - n" by (simp add: take_block_def split_def Let_def)
    ultimately show ?thesis
      using best bf.alloc_some [OF inv best(1)] by (auto simp: le_less)
  qed
qed

theorem best_fit_alloc_smallest_witness:
  "\<exists>s s'. best_fit_init_memmap (best_fit_init boot_pmm) 3 8 = Some s
     \<and> best_fit_alloc_pages s 5 = Some (Some 3, s') \<and> free_pages_of s' = free_pages_of s - {3 ..< 8}"
proof -
  obtain s where s: "default_init_memmap (default_init boot_pmm) 3 8 = Some s" "free_area s [3]"
    "pg_property (pg s 3) = 8" "coalesced (pg s) [3]" using boot_memmap [of 8 3] by auto
  have "best_fit_alloc_pages s 5 = Some (Some 3, take_block s 3 5)"
    using best_fit_alloc_cases [of s "[3]" 5] s by (auto simp: Cons_eq_append_conv)
  with s(1) best_fit_alloc_smallest [OF s(2,4), of 5] show ?thesis by (auto simp: best_fit_shared)
qed

end
