(* ===== verification/SkewHeap.thy ===== *)
theory SkewHeap
  imports Prelude "HOL-Library.Tree_Multiset"
begin

text \<open>
  \<open>libs/skew_heap.h\<close>: the priority queue of the stride scheduler, at pointer level. A node
  has a parent, a left and a right pointer; a null pointer is \<open>None\<close>. The merge recurses
  along right spines and may run forever on a cyclic heap, so it is a partial function into
  \<open>option\<close>. \<open>heap_at d r t\<close> says that the pointers below \<open>r\<close> form the tree \<open>t\<close>; the lemmas
  show that the C routines compute the skew heap operations on trees, whatever the comparison
  is, and the locale \<open>heap_order\<close> adds what holds when the comparison orders the keys.
\<close>

section \<open>The nodes and the routines\<close>

text \<open>\<open>struct skew_heap_entry\<close>: the three pointers of every node.\<close>

record 'a skew =
  parent :: "'a \<Rightarrow> 'a option"
  left :: "'a \<Rightarrow> 'a option"
  right :: "'a \<Rightarrow> 'a option"

definition skew_heap_init :: "'a skew \<Rightarrow> 'a \<Rightarrow> 'a skew" where
  "skew_heap_init d a = d\<lparr>left := (left d)(a := None), right := (right d)(a := None), parent := (parent d)(a := None)\<rparr>"

text \<open>\<open>if (l) l->parent = a\<close>.\<close>

definition set_parent :: "'a skew \<Rightarrow> 'a option \<Rightarrow> 'a option \<Rightarrow> 'a skew" where
  "set_parent d l p = (case l of None \<Rightarrow> d | Some x \<Rightarrow> d\<lparr>parent := (parent d)(x := p)\<rparr>)"

partial_function (option) skew_heap_merge ::
  "'a skew \<Rightarrow> 'a option \<Rightarrow> 'a option \<Rightarrow> ('a \<Rightarrow> 'a \<Rightarrow> int) \<Rightarrow> ('a option \<times> 'a skew) option" where
  "skew_heap_merge d a b cmp =
     (case (a, b) of
        (None, _) \<Rightarrow> Some (b, d)
      | (_, None) \<Rightarrow> Some (a, d)
      | (Some x, Some y) \<Rightarrow>
          if cmp x y = -1 then do {
            (l, d1) \<leftarrow> skew_heap_merge d (right d x) b cmp;
            let d2 = d1\<lparr>left := (left d1)(x := l), right := (right d1)(x := left d x)\<rparr>;
            Some (a, set_parent d2 l a)
          } else do {
            (l, d1) \<leftarrow> skew_heap_merge d a (right d y) cmp;
            let d2 = d1\<lparr>left := (left d1)(y := l), right := (right d1)(y := left d y)\<rparr>;
            Some (b, set_parent d2 l b)
          })"

declare skew_heap_merge.simps [code]

definition skew_heap_insert ::
  "'a skew \<Rightarrow> 'a option \<Rightarrow> 'a \<Rightarrow> ('a \<Rightarrow> 'a \<Rightarrow> int) \<Rightarrow> ('a option \<times> 'a skew) option" where
  "skew_heap_insert d a b cmp = skew_heap_merge (skew_heap_init d b) a (Some b) cmp"

definition skew_heap_remove ::
  "'a skew \<Rightarrow> 'a option \<Rightarrow> 'a \<Rightarrow> ('a \<Rightarrow> 'a \<Rightarrow> int) \<Rightarrow> ('a option \<times> 'a skew) option" where
  "skew_heap_remove d a b cmp = do {
     let p = parent d b;
     (rep, d) \<leftarrow> skew_heap_merge d (left d b) (right d b) cmp;
     let d = set_parent d rep p;
     case p of
       Some q \<Rightarrow>
         if left d q = Some b then Some (a, d\<lparr>left := (left d)(q := rep)\<rparr>)
         else Some (a, d\<lparr>right := (right d)(q := rep)\<rparr>)
     | None \<Rightarrow> Some (rep, d)
   }"

section \<open>The operations on trees\<close>

function tmerge :: "('a \<Rightarrow> 'a \<Rightarrow> int) \<Rightarrow> 'a tree \<Rightarrow> 'a tree \<Rightarrow> 'a tree" where
  "tmerge cmp Leaf t = t"
| "tmerge cmp (Node l x r) Leaf = Node l x r"
| "tmerge cmp (Node l1 x r1) (Node l2 y r2) =
     (if cmp x y = -1 then Node (tmerge cmp r1 (Node l2 y r2)) x l1
      else Node (tmerge cmp (Node l1 x r1) r2) y l2)"
  by pat_completeness auto
termination by (relation "measure (\<lambda>(_, s, t). size s + size t)") auto

fun tremove :: "('a \<Rightarrow> 'a \<Rightarrow> int) \<Rightarrow> 'a \<Rightarrow> 'a tree \<Rightarrow> 'a tree" where
  "tremove cmp b Leaf = Leaf"
| "tremove cmp b (Node l x r) =
     (if x = b then tmerge cmp l r
      else if b \<in> set_tree l then Node (tremove cmp b l) x r
      else Node l x (tremove cmp b r))"

lemma mset_tmerge [simp]: "mset_tree (tmerge cmp s t) = mset_tree s + mset_tree t"
  by (induction cmp s t rule: tmerge.induct) auto

lemma set_tmerge [simp]: "set_tree (tmerge cmp s t) = set_tree s \<union> set_tree t"
  by (simp flip: set_mset_tree)

lemma mset_tremove: "b \<in> set_tree t \<Longrightarrow> mset_tree t = add_mset b (mset_tree (tremove cmp b t))"
proof (induction t)
  case Leaf
  then show ?case by simp
next
  case (Node l x r)
  then show ?case by (cases "b \<in> set_tree l") (auto simp: add_mset_commute)
qed

lemma tremove_absent: "b \<notin> set_tree t \<Longrightarrow> tremove cmp b t = t"
  by (induction t) auto

lemma set_tremove_sub: "set_tree (tremove cmp b t) \<subseteq> set_tree t"
  by (induction t) auto

section \<open>The abstraction to trees\<close>

text \<open>\<open>heap_at d r t\<close>: below \<open>r\<close> lies the tree \<open>t\<close> and every child points back to its parent; the
  parent field of the root itself is left open, as it is while the merge runs.\<close>

fun root_of :: "'a tree \<Rightarrow> 'a option" where
  "root_of Leaf = None"
| "root_of (Node l x r) = Some x"

fun heap_at :: "'a skew \<Rightarrow> 'a option \<Rightarrow> 'a tree \<Rightarrow> bool" where
  "heap_at d r Leaf \<longleftrightarrow> r = None"
| "heap_at d r (Node lt x rt) \<longleftrightarrow> r = Some x
     \<and> heap_at d (left d x) lt \<and> heap_at d (right d x) rt
     \<and> (\<forall>c. left d x = Some c \<or> right d x = Some c \<longrightarrow> parent d c = Some x)"

definition heap_tree :: "'a skew \<Rightarrow> 'a option \<Rightarrow> 'a tree \<Rightarrow> bool" where
  "heap_tree d r t \<longleftrightarrow> heap_at d r t \<and> distinct (inorder t) \<and> (\<forall>x. r = Some x \<longrightarrow> parent d x = None)"

lemma heap_at_root: "heap_at d r t \<Longrightarrow> r = root_of t"
  by (cases t) auto

lemma root_in: "root_of t = Some x \<Longrightarrow> x \<in> set_tree t"
  by (cases t) auto

lemma heap_at_cong:
  "\<forall>x \<in> set_tree t. left d' x = left d x \<and> right d' x = right d x \<Longrightarrow>
   \<forall>x \<in> set_tree t. Some x \<noteq> r \<longrightarrow> parent d' x = parent d x \<Longrightarrow> distinct (inorder t) \<Longrightarrow>
   heap_at d r t \<Longrightarrow> heap_at d' r t"
proof (induction t arbitrary: r)
  case Leaf
  then show ?case by simp
next
  case (Node lt x rt)
  from Node.prems(4) have h: "r = Some x" "heap_at d (left d x) lt" "heap_at d (right d x) rt" by auto
  note lr = heap_at_root [OF h(2)] heap_at_root [OF h(3)]
  have "heap_at d' (left d x) lt" "heap_at d' (right d x) rt"
    using Node.prems h by (auto intro!: Node.IH)
  moreover have "parent d' c = Some x" if c: "left d x = Some c \<or> right d x = Some c" for c
  proof -
    have "c \<in> set_tree lt \<union> set_tree rt" using c lr by (auto dest: root_in)
    moreover from this have "c \<noteq> x" using Node.prems(3) by auto
    ultimately show ?thesis using Node.prems(2,4) h(1) c by fastforce
  qed
  ultimately show ?case using Node.prems(1) h(1) by simp
qed

lemma heap_at_fun: "heap_at d r s \<Longrightarrow> heap_at d r t \<Longrightarrow> s = t"
proof (induction s arbitrary: r t)
  case Leaf
  then show ?case by (cases t) auto
next
  case (Node l x r')
  then show ?case by (cases t) auto
qed

lemma set_parent_fields [simp]:
  "left (set_parent d l p) = left d" "right (set_parent d l p) = right d"
  "parent (set_parent d l p) x = (if l = Some x then p else parent d x)"
  by (auto simp: set_parent_def split: option.splits)

section \<open>The routines compute the tree operations\<close>

text \<open>What a merge leaves alone: every node outside the two trees, and the parent field of the root
  of the result.\<close>

definition skew_frame :: "'a set \<Rightarrow> 'a option \<Rightarrow> 'a skew \<Rightarrow> 'a skew \<Rightarrow> bool" where
  "skew_frame A r d d' \<longleftrightarrow>
     (\<forall>x. x \<notin> A \<longrightarrow> left d' x = left d x \<and> right d' x = right d x \<and> parent d' x = parent d x)
     \<and> (\<forall>x. r = Some x \<longrightarrow> parent d' x = parent d x)"

text \<open>One step of the merge: the winner \<open>x\<close> takes the merged subtree on its left, its old left subtree
  on its right.\<close>

lemma merge_step:
  assumes h: "heap_at d1 l m" "heap_at d lx tt" "left d x = lx" "lx = root_of tt"
    and par: "\<forall>c. lx = Some c \<longrightarrow> parent d c = Some x"
    and frame: "skew_frame A l d d1" and x: "x \<notin> A" and tt: "set_tree tt \<inter> A = {}" "x \<notin> set_tree tt"
    and m: "set_tree m \<subseteq> A" "distinct (inorder m)" "distinct (inorder tt)"
    and d2: "d2 = set_parent (d1\<lparr>left := (left d1)(x := l), right := (right d1)(x := lx)\<rparr>) l (Some x)"
  shows "heap_at d2 (Some x) (Node m x tt) \<and> skew_frame (insert x (set_tree tt \<union> A)) (Some x) d d2"
proof -
  have rm: "l = root_of m" using h(1) by (rule heap_at_root)
  have "heap_at d2 l m"
    by (rule heap_at_cong [OF _ _ m(2) h(1)]) (use m(1) x in \<open>auto simp: d2\<close>)
  moreover have "heap_at d2 lx tt"
    by (rule heap_at_cong [OF _ _ m(3) h(2)])
      (use tt frame x m(1) rm in \<open>auto simp: d2 skew_frame_def dest: root_in\<close>)
  moreover have "parent d2 c = Some x" if "lx = Some c" for c
  proof -
    have "c \<notin> A" using that h(4) tt(1) by (auto dest: root_in)
    with frame par that show ?thesis by (auto simp: d2 skew_frame_def)
  qed
  moreover have "skew_frame (insert x (set_tree tt \<union> A)) (Some x) d d2"
    using frame x rm m(1) by (auto simp: skew_frame_def d2 dest!: root_in)
  ultimately show ?thesis by (auto simp: d2)
qed

lemma skew_merge_refines:
  "heap_at d a s \<Longrightarrow> heap_at d b t \<Longrightarrow> distinct (inorder s @ inorder t) \<Longrightarrow>
   \<exists>d'. skew_heap_merge d a b cmp = Some (root_of (tmerge cmp s t), d')
     \<and> heap_at d' (root_of (tmerge cmp s t)) (tmerge cmp s t) \<and> distinct (inorder (tmerge cmp s t))
     \<and> skew_frame (set_tree s \<union> set_tree t) (root_of (tmerge cmp s t)) d d'"
proof (induction cmp s t arbitrary: a b rule: tmerge.induct)
  case (1 cmp t)
  then show ?case
    by (auto simp: skew_heap_merge.simps skew_frame_def heap_at_root [symmetric])
next
  case (2 cmp l x r)
  then show ?case by (auto simp: skew_heap_merge.simps skew_frame_def)
next
  case (3 cmp l1 x r1 l2 y r2)
  from 3(3,4) have ab: "a = Some x" "b = Some y" by auto
  have dis: "distinct (inorder l1 @ x # inorder r1 @ inorder l2 @ y # inorder r2)"
    using 3(5) by auto
  show ?case
  proof (cases "cmp x y = -1")
    case True
    let ?m = "tmerge cmp r1 (Node l2 y r2)"
    obtain d1 where d1: "skew_heap_merge d (right d x) b cmp = Some (root_of ?m, d1)"
      "heap_at d1 (root_of ?m) ?m" "distinct (inorder ?m)"
      "skew_frame (set_tree r1 \<union> set_tree (Node l2 y r2)) (root_of ?m) d d1"
      using "3.IH"(1) [OF True, of "right d x" b] 3(3,4) dis by auto
    define d2 where "d2 = set_parent (d1\<lparr>left := (left d1)(x := root_of ?m), right := (right d1)(x := left d x)\<rparr>)
      (root_of ?m) (Some x)"
    have "heap_at d2 (Some x) (Node ?m x l1) \<and>
        skew_frame (insert x (set_tree l1 \<union> (set_tree r1 \<union> set_tree (Node l2 y r2)))) (Some x) d d2"
      by (rule merge_step [OF d1(2) _ _ _ _ d1(4) _ _ _ _ d1(3)])
        (use 3(3) dis in \<open>auto simp: d2_def heap_at_root [symmetric]\<close>)
    moreover have "skew_heap_merge d a b cmp = Some (Some x, d2)"
      using True d1(1) ab by (subst skew_heap_merge.simps) (simp add: d2_def)
    moreover have "distinct (inorder (Node ?m x l1))"
      using d1(3) dis by auto
    ultimately show ?thesis using True by (auto simp: insert_commute Un_ac)
  next
    case False
    let ?m = "tmerge cmp (Node l1 x r1) r2"
    have pre: "heap_at d a (Node l1 x r1)" "heap_at d (right d y) r2"
      "distinct (inorder (Node l1 x r1) @ inorder r2)" using 3(3,4) dis by auto
    obtain d1 where d1: "skew_heap_merge d a (right d y) cmp = Some (root_of ?m, d1)"
      "heap_at d1 (root_of ?m) ?m" "distinct (inorder ?m)"
      "skew_frame (set_tree (Node l1 x r1) \<union> set_tree r2) (root_of ?m) d d1"
      using "3.IH"(2) [OF False pre] by auto
    define d2 where "d2 = set_parent (d1\<lparr>left := (left d1)(y := root_of ?m), right := (right d1)(y := left d y)\<rparr>)
      (root_of ?m) (Some y)"
    have "heap_at d2 (Some y) (Node ?m y l2) \<and>
        skew_frame (insert y (set_tree l2 \<union> (set_tree (Node l1 x r1) \<union> set_tree r2))) (Some y) d d2"
      by (rule merge_step [OF d1(2) _ _ _ _ d1(4) _ _ _ _ d1(3)])
        (use 3(4) dis in \<open>auto simp: d2_def heap_at_root [symmetric]\<close>)
    moreover have "skew_heap_merge d a b cmp = Some (Some y, d2)"
      using False d1(1) ab by (subst skew_heap_merge.simps) (simp add: d2_def)
    moreover have "distinct (inorder (Node ?m y l2))"
      using d1(3) dis by auto
    ultimately show ?thesis using False by (auto simp: insert_commute Un_ac)
  qed
qed

text \<open>Removal. The node \<open>b\<close> has a subtree of its own; unless it is the root it is a child of its
  parent, where the merged children take its place.\<close>

lemma heap_at_sub:
  "heap_at d r t \<Longrightarrow> distinct (inorder t) \<Longrightarrow> b \<in> set_tree t \<Longrightarrow>
   \<exists>lt rt. heap_at d (left d b) lt \<and> heap_at d (right d b) rt \<and> distinct (inorder lt @ inorder rt)
     \<and> set_tree lt \<union> set_tree rt \<subseteq> set_tree t - {b}"
proof (induction t arbitrary: r)
  case Leaf
  then show ?case by simp
next
  case (Node lt x rt)
  consider "b = x" | "b \<in> set_tree lt" "b \<noteq> x" | "b \<in> set_tree rt" "b \<noteq> x" using Node.prems by auto
  then show ?case
  proof cases
    case 1
    with Node.prems show ?thesis by (intro exI [of _ lt] exI [of _ rt]) auto
  next
    case 2
    with Node.prems Node.IH(1) [of "left d x"] have "\<exists>lb rb. heap_at d (left d b) lb \<and> heap_at d (right d b) rb
      \<and> distinct (inorder lb @ inorder rb) \<and> set_tree lb \<union> set_tree rb \<subseteq> set_tree lt - {b}" by simp
    then show ?thesis by fastforce
  next
    case 3
    with Node.prems Node.IH(2) [of "right d x"] have "\<exists>lb rb. heap_at d (left d b) lb \<and> heap_at d (right d b) rb
      \<and> distinct (inorder lb @ inorder rb) \<and> set_tree lb \<union> set_tree rb \<subseteq> set_tree rt - {b}" by simp
    then show ?thesis by fastforce
  qed
qed

definition skew_splice :: "'a skew \<Rightarrow> 'a \<Rightarrow> 'a \<Rightarrow> 'a option \<Rightarrow> 'a skew" where
  "skew_splice d q b rep =
     (if left d q = Some b then d\<lparr>left := (left d)(q := rep)\<rparr> else d\<lparr>right := (right d)(q := rep)\<rparr>)"

definition agree_on :: "'a set \<Rightarrow> 'a skew \<Rightarrow> 'a skew \<Rightarrow> bool" where
  "agree_on A d d' \<longleftrightarrow> (\<forall>x \<in> A. left d' x = left d x \<and> right d' x = right d x \<and> parent d' x = parent d x)"

lemma heap_at_agree:
  "heap_at d r t \<Longrightarrow> distinct (inorder t) \<Longrightarrow> agree_on (set_tree t) d d' \<Longrightarrow> heap_at d' r t"
  by (rule heap_at_cong [of t d' d r]) (auto simp: agree_on_def)

lemma heap_at_new_left:
  assumes "heap_at d (Some x) (Node lt x rt)" "distinct (inorder rt)" "agree_on (set_tree rt) d d'"
    "right d' x = right d x" "heap_at d' (left d' x) lt'" "\<forall>c. left d' x = Some c \<longrightarrow> parent d' c = Some x"
  shows "heap_at d' (Some x) (Node lt' x rt)"
proof -
  have "heap_at d' (right d x) rt" by (rule heap_at_agree) (use assms in auto)
  moreover have "parent d' c = Some x" if "right d x = Some c" for c
  proof -
    have "c \<in> set_tree rt" using that assms(1) heap_at_root [of d "right d x" rt] root_in [of rt c] by simp
    with that assms(1,3) show ?thesis by (simp add: agree_on_def)
  qed
  ultimately show ?thesis using assms by auto
qed

lemma heap_at_new_right:
  assumes "heap_at d (Some x) (Node lt x rt)" "distinct (inorder lt)" "agree_on (set_tree lt) d d'"
    "left d' x = left d x" "heap_at d' (right d' x) rt'" "\<forall>c. right d' x = Some c \<longrightarrow> parent d' c = Some x"
  shows "heap_at d' (Some x) (Node lt x rt')"
proof -
  have "heap_at d' (left d x) lt" by (rule heap_at_agree) (use assms in auto)
  moreover have "parent d' c = Some x" if "left d x = Some c" for c
  proof -
    have "c \<in> set_tree lt" using that assms(1) heap_at_root [of d "left d x" lt] root_in [of lt c] by simp
    with that assms(1,3) show ?thesis by (simp add: agree_on_def)
  qed
  ultimately show ?thesis using assms by auto
qed

text \<open>The removed node is the root of a subtree \<open>Node lb b rb\<close> below \<open>q\<close>: after the splice the merged
  children hang below \<open>q\<close>, and nothing else changed.\<close>

lemma splice_below:
  assumes m: "skew_heap_merge d (left d b) (right d b) cmp = Some (rep, d1)"
    and h: "heap_at d (Some b) (Node lb b rb)" and dis: "distinct (inorder (Node lb b rb))"
    and q: "q \<notin> set_tree (Node lb b rb)"
    and d3: "d3 = skew_splice (set_parent d1 rep (Some q)) q b rep"
  shows "heap_at d3 rep (tmerge cmp lb rb)" "distinct (inorder (tmerge cmp lb rb))"
    "\<forall>c. rep = Some c \<longrightarrow> parent d3 c = Some q"
    "agree_on (- insert q (set_tree (Node lb b rb))) d d3" "parent d3 q = parent d q"
    "left d3 q = (if left d q = Some b then rep else left d q)"
    "right d3 q = (if left d q = Some b then right d q else rep)"
proof -
  have pre: "heap_at d (left d b) lb" "heap_at d (right d b) rb" "distinct (inorder lb @ inorder rb)"
    using h dis by auto
  from skew_merge_refines [OF pre, of cmp] m have
    r: "rep = root_of (tmerge cmp lb rb)" and h1: "heap_at d1 rep (tmerge cmp lb rb)"
    and dm: "distinct (inorder (tmerge cmp lb rb))"
    and fr: "skew_frame (set_tree lb \<union> set_tree rb) rep d d1" by auto
  have rep: "\<forall>c. rep = Some c \<longrightarrow> c \<in> set_tree lb \<union> set_tree rb"
    using r root_in [of "tmerge cmp lb rb"] by auto
  show "distinct (inorder (tmerge cmp lb rb))" by (rule dm)
  show "heap_at d3 rep (tmerge cmp lb rb)"
    by (rule heap_at_cong [OF _ _ dm h1]) (use q in \<open>auto simp: d3 skew_splice_def\<close>)
  show "\<forall>c. rep = Some c \<longrightarrow> parent d3 c = Some q" by (auto simp: d3 skew_splice_def)
  show "agree_on (- insert q (set_tree (Node lb b rb))) d d3"
    using fr rep by (auto simp: agree_on_def d3 skew_splice_def skew_frame_def)
  have "left d1 q = left d q" "right d1 q = right d q" "parent d1 q = parent d q"
    using fr q by (auto simp: skew_frame_def)
  then show "parent d3 q = parent d q" "left d3 q = (if left d q = Some b then rep else left d q)"
    "right d3 q = (if left d q = Some b then right d q else rep)"
    using rep q by (auto simp: d3 skew_splice_def)
qed

lemma agree_frame:
  "agree_on (- A) d d' \<Longrightarrow> A \<subseteq> B \<Longrightarrow> \<forall>x. r = Some x \<longrightarrow> parent d' x = parent d x \<Longrightarrow> skew_frame B r d d'"
  by (auto simp: agree_on_def skew_frame_def)

lemma frame_agree: "skew_frame A r d d' \<Longrightarrow> B \<inter> A = {} \<Longrightarrow> agree_on B d d'"
  by (auto simp: agree_on_def skew_frame_def)

lemma skew_remove_child:
  assumes m: "skew_heap_merge d (left d b) (right d b) cmp = Some (rep, d1)"
  shows "heap_at d r t \<Longrightarrow> distinct (inorder t) \<Longrightarrow> b \<in> set_tree t \<Longrightarrow> r \<noteq> Some b \<Longrightarrow>
    \<exists>q. parent d b = Some q \<and>
      heap_at (skew_splice (set_parent d1 rep (Some q)) q b rep) r (tremove cmp b t)
      \<and> distinct (inorder (tremove cmp b t))
      \<and> skew_frame (set_tree t) r d (skew_splice (set_parent d1 rep (Some q)) q b rep)"
proof (induction t arbitrary: r)
  case Leaf
  then show ?case by simp
next
  case (Node lt x rt)
  from Node.prems have h: "r = Some x" "heap_at d (left d x) lt" "heap_at d (right d x) rt" "x \<noteq> b"
    and whole: "heap_at d (Some x) (Node lt x rt)" by auto
  note dis = Node.prems(2)
  consider (lc) lb rb where "left d x = Some b" "lt = Node lb b rb"
    | (ld) "left d x \<noteq> Some b" "b \<in> set_tree lt"
    | (rc) lb rb where "right d x = Some b" "rt = Node lb b rb"
    | (rd) "right d x \<noteq> Some b" "b \<in> set_tree rt"
  proof (cases "b \<in> set_tree lt")
    case True
    with ld lc heap_at_root [OF h(2)] show thesis by (cases lt) auto
  next
    case False
    with Node.prems h have "b \<in> set_tree rt" by auto
    with rd rc heap_at_root [OF h(3)] show thesis by (cases rt) auto
  qed
  then show ?case
  proof cases
    case lc
    let ?d3 = "skew_splice (set_parent d1 rep (Some x)) x b rep"
    have "heap_at d (Some b) (Node lb b rb)" "distinct (inorder (Node lb b rb))"
      "x \<notin> set_tree (Node lb b rb)" using h dis lc by auto
    note sp = splice_below [OF m this refl]
    have "agree_on (set_tree rt) d ?d3" using sp(4) dis lc by (auto simp: agree_on_def)
    then have "heap_at ?d3 (Some x) (Node (tmerge cmp lb rb) x rt)"
      by (intro heap_at_new_left [OF whole]) (use dis lc sp in auto)
    moreover have "skew_frame (set_tree (Node lt x rt)) r d ?d3"
      by (rule agree_frame [OF sp(4)]) (use lc h sp(5) in auto)
    moreover have "parent d b = Some x" using whole lc(1) by simp
    ultimately show ?thesis using lc h sp(2) dis by (intro exI [of _ x]) auto
  next
    case rc
    let ?d3 = "skew_splice (set_parent d1 rep (Some x)) x b rep"
    have nl: "left d x \<noteq> Some b" "b \<notin> set_tree lt" using heap_at_root [OF h(2)] rc dis by (auto dest: root_in)
    have "heap_at d (Some b) (Node lb b rb)" "distinct (inorder (Node lb b rb))"
      "x \<notin> set_tree (Node lb b rb)" using h dis rc by auto
    note sp = splice_below [OF m this refl]
    have "agree_on (set_tree lt) d ?d3" using sp(4) dis rc by (auto simp: agree_on_def)
    then have "heap_at ?d3 (Some x) (Node lt x (tmerge cmp lb rb))"
      by (intro heap_at_new_right [OF whole]) (use dis rc sp nl in auto)
    moreover have "skew_frame (set_tree (Node lt x rt)) r d ?d3"
      by (rule agree_frame [OF sp(4)]) (use rc h sp(5) in auto)
    moreover have "parent d b = Some x" using whole rc(1) by simp
    ultimately show ?thesis using rc h sp(2) dis nl by (intro exI [of _ x]) auto
  next
    case ld
    let ?d3 = "\<lambda>q. skew_splice (set_parent d1 rep (Some q)) q b rep"
    have dl: "distinct (inorder lt)" using dis by simp
    obtain q where q: "parent d b = Some q" "heap_at (?d3 q) (left d x) (tremove cmp b lt)"
      "distinct (inorder (tremove cmp b lt))" "skew_frame (set_tree lt) (left d x) d (?d3 q)"
      using Node.IH(1) [OF h(2) dl ld(2,1)] by blast
    have xr: "left (?d3 q) x = left d x" "right (?d3 q) x = right d x" "parent (?d3 q) x = parent d x"
      "agree_on (set_tree rt) d (?d3 q)"
      using q(4) dis by (auto simp: skew_frame_def intro!: frame_agree [OF q(4)])
    have "heap_at (?d3 q) (Some x) (Node (tremove cmp b lt) x rt)"
      by (rule heap_at_new_left [OF whole]) (use dis q xr whole in \<open>auto simp: skew_frame_def\<close>)
    moreover have "skew_frame (set_tree (Node lt x rt)) r d (?d3 q)"
      using q(4) xr h by (auto simp: skew_frame_def)
    moreover have "set_tree (tremove cmp b lt) \<subseteq> set_tree lt"
      using mset_tremove [OF ld(2), of cmp] by (metis set_mset_add_mset_insert set_mset_tree subset_insertI)
    ultimately show ?thesis using ld h q dis by (intro exI [of _ q]) auto
  next
    case rd
    let ?d3 = "\<lambda>q. skew_splice (set_parent d1 rep (Some q)) q b rep"
    have nl: "b \<notin> set_tree lt" and dr: "distinct (inorder rt)" using rd dis by auto
    obtain q where q: "parent d b = Some q" "heap_at (?d3 q) (right d x) (tremove cmp b rt)"
      "distinct (inorder (tremove cmp b rt))" "skew_frame (set_tree rt) (right d x) d (?d3 q)"
      using Node.IH(2) [OF h(3) dr rd(2,1)] by blast
    have xr: "left (?d3 q) x = left d x" "right (?d3 q) x = right d x" "parent (?d3 q) x = parent d x"
      "agree_on (set_tree lt) d (?d3 q)"
      using q(4) dis by (auto simp: skew_frame_def intro!: frame_agree [OF q(4)])
    have "heap_at (?d3 q) (Some x) (Node lt x (tremove cmp b rt))"
      by (rule heap_at_new_right [OF whole]) (use dis q xr whole in \<open>auto simp: skew_frame_def\<close>)
    moreover have "skew_frame (set_tree (Node lt x rt)) r d (?d3 q)"
      using q(4) xr h by (auto simp: skew_frame_def)
    moreover have "set_tree (tremove cmp b rt) \<subseteq> set_tree rt"
      using mset_tremove [OF rd(2), of cmp] by (metis set_mset_add_mset_insert set_mset_tree subset_insertI)
    ultimately show ?thesis using rd h q dis nl by (intro exI [of _ q]) auto
  qed
qed


section \<open>The contract of the C routines\<close>

text \<open>Insertion and removal on a well-formed heap: they return, compute the tree operation, and leave
  a well-formed heap; nodes outside the heap are untouched.\<close>

lemma skew_insert_tree:
  assumes "heap_tree d a t" "b \<notin> set_tree t"
  shows "\<exists>a' d'. skew_heap_insert d a b cmp = Some (a', d') \<and> heap_tree d' a' (tmerge cmp t (Node Leaf b Leaf))
    \<and> agree_on (- insert b (set_tree t)) d d'"
proof -
  let ?d = "skew_heap_init d b" and ?m = "tmerge cmp t (Node Leaf b Leaf)"
  have "heap_at ?d a t"
    by (rule heap_at_agree [of d]) (use assms in \<open>auto simp: heap_tree_def agree_on_def skew_heap_init_def\<close>)
  moreover have "heap_at ?d (Some b) (Node Leaf b Leaf)" by (simp add: skew_heap_init_def)
  moreover have "distinct (inorder t @ inorder (Node Leaf b Leaf))" using assms by (simp add: heap_tree_def)
  ultimately obtain d' where d': "skew_heap_merge ?d a (Some b) cmp = Some (root_of ?m, d')"
    "heap_at d' (root_of ?m) ?m" "distinct (inorder ?m)"
    "skew_frame (set_tree t \<union> set_tree (Node Leaf b Leaf)) (root_of ?m) ?d d'"
    using skew_merge_refines by blast
  have "parent d' x = None" if "root_of ?m = Some x" for x
  proof -
    have "Some x = a \<or> x = b" using that assms by (cases t) (auto simp: heap_tree_def split: if_splits)
    with that d'(4) assms show ?thesis by (auto simp: skew_frame_def heap_tree_def skew_heap_init_def)
  qed
  with d' show ?thesis
    by (auto simp: skew_heap_insert_def heap_tree_def agree_on_def skew_frame_def skew_heap_init_def)
qed

lemma skew_remove_tree:
  assumes t: "heap_tree d a t" and b: "b \<in> set_tree t"
  shows "\<exists>a' d'. skew_heap_remove d a b cmp = Some (a', d') \<and> heap_tree d' a' (tremove cmp b t)
    \<and> agree_on (- set_tree t) d d'"
proof -
  from t have h: "heap_at d a t" "distinct (inorder t)" "\<forall>x. a = Some x \<longrightarrow> parent d x = None"
    by (auto simp: heap_tree_def)
  obtain lb rb where lr: "heap_at d (left d b) lb" "heap_at d (right d b) rb" "distinct (inorder lb @ inorder rb)"
    "set_tree lb \<union> set_tree rb \<subseteq> set_tree t - {b}" using heap_at_sub [OF h(1,2) b] by blast
  obtain d1 where d1: "skew_heap_merge d (left d b) (right d b) cmp = Some (root_of (tmerge cmp lb rb), d1)"
    "heap_at d1 (root_of (tmerge cmp lb rb)) (tmerge cmp lb rb)" "distinct (inorder (tmerge cmp lb rb))"
    "skew_frame (set_tree lb \<union> set_tree rb) (root_of (tmerge cmp lb rb)) d d1"
    using skew_merge_refines [OF lr(1-3)] by blast
  show ?thesis
  proof (cases "a = Some b")
    case True
    let ?r = "root_of (tmerge cmp lb rb)" and ?d2 = "set_parent d1 (root_of (tmerge cmp lb rb)) None"
    have root: "parent d b = None" using h True by simp
    have rm: "tremove cmp b t = tmerge cmp lb rb"
    proof -
      obtain l r where tt: "t = Node l b r" using True h(1) by (cases t) auto
      with h(1) lr have "heap_at d (left d b) l" "heap_at d (right d b) r" by auto
      with lr have "l = lb" "r = rb" by (auto intro: heap_at_fun)
      with tt show ?thesis by simp
    qed
    have "heap_at ?d2 ?r (tmerge cmp lb rb)"
      by (rule heap_at_cong [OF _ _ d1(3,2)]) auto
    moreover have "agree_on (- set_tree t) d ?d2"
      using d1(4) lr(4) root_in [of "tmerge cmp lb rb"] by (auto simp: agree_on_def skew_frame_def)
    ultimately show ?thesis
      using root d1(1,3) by (auto simp: skew_heap_remove_def rm heap_tree_def)
  next
    case False
    let ?rep = "root_of (tmerge cmp lb rb)"
    obtain q where q: "parent d b = Some q"
      "heap_at (skew_splice (set_parent d1 ?rep (Some q)) q b ?rep) a (tremove cmp b t)"
      "distinct (inorder (tremove cmp b t))"
      "skew_frame (set_tree t) a d (skew_splice (set_parent d1 ?rep (Some q)) q b ?rep)"
      using skew_remove_child [OF d1(1) h(1,2) b False] by blast
    have "skew_heap_remove d a b cmp = Some (a, skew_splice (set_parent d1 ?rep (Some q)) q b ?rep)"
      using q(1) d1(1) by (simp add: skew_heap_remove_def skew_splice_def)
    with q h show ?thesis by (auto simp: heap_tree_def skew_frame_def agree_on_def)
  qed
qed

section \<open>Heap order\<close>

text \<open>A tree is in heap order when no node has a smaller key than a node above it.\<close>

fun heap_ordered :: "('a \<Rightarrow> 'k::linorder) \<Rightarrow> 'a tree \<Rightarrow> bool" where
  "heap_ordered key Leaf \<longleftrightarrow> True"
| "heap_ordered key (Node l x r) \<longleftrightarrow>
     (\<forall>y \<in> set_tree l \<union> set_tree r. key x \<le> key y) \<and> heap_ordered key l \<and> heap_ordered key r"

text \<open>The contract between a comparison function and the heap: on the elements in play, the comparison
  answers \<open>-1\<close> exactly when the first key is smaller.\<close>

locale heap_order =
  fixes cmp :: "'a \<Rightarrow> 'a \<Rightarrow> int" and key :: "'a \<Rightarrow> 'k::linorder" and S :: "'a set"
  assumes cmp_key: "x \<in> S \<Longrightarrow> y \<in> S \<Longrightarrow> cmp x y = -1 \<longleftrightarrow> key x < key y"
begin

lemma ordered_tmerge:
  "set_tree s \<subseteq> S \<Longrightarrow> set_tree t \<subseteq> S \<Longrightarrow> heap_ordered key s \<Longrightarrow> heap_ordered key t \<Longrightarrow>
   heap_ordered key (tmerge cmp s t)"
proof (induction "size s + size t" arbitrary: s t rule: less_induct)
  case less
  show ?case
  proof (cases "s = Leaf \<or> t = Leaf")
    case True
    with less.prems show ?thesis by (cases s) auto
  next
    case False
    then obtain l1 x r1 l2 y r2 where st: "s = Node l1 x r1" "t = Node l2 y r2" by (meson tree.exhaust)
    then have key: "cmp x y = -1 \<longleftrightarrow> key x < key y" using less.prems by (intro cmp_key) auto
    have le: "\<forall>z \<in> set_tree l1 \<union> set_tree r1. key x \<le> key z" "\<forall>z \<in> set_tree l2 \<union> set_tree r2. key y \<le> key z"
      using less.prems st by auto
    show ?thesis
    proof (cases "key x < key y")
      case True
      have "heap_ordered key (tmerge cmp r1 t)" using less.prems st by (intro less.hyps) auto
      with True less.prems st key le show ?thesis by (auto intro: order.trans [of "key x" "key y"])
    next
      case False
      have "heap_ordered key (tmerge cmp s r2)" using less.prems st by (intro less.hyps) auto
      with False less.prems st key le show ?thesis by (auto intro: order.trans [of "key y" "key x"])
    qed
  qed
qed

lemma ordered_tremove:
  "set_tree t \<subseteq> S \<Longrightarrow> heap_ordered key t \<Longrightarrow> heap_ordered key (tremove cmp b t)"
proof (induction t)
  case (Node l x r)
  then have "heap_ordered key (tremove cmp b l)" "heap_ordered key (tremove cmp b r)"
    "heap_ordered key (tmerge cmp l r)" by (auto intro!: ordered_tmerge)
  with Node.prems set_tremove_sub [of cmp b l] set_tremove_sub [of cmp b r] show ?case by auto
qed auto

lemma ordered_root: "heap_ordered key t \<Longrightarrow> root_of t = Some x \<Longrightarrow> y \<in> set_tree t \<Longrightarrow> key x \<le> key y"
  by (cases t) auto

end

section \<open>Properties\<close>

text \<open>C12: The pointer code of the skew heap is correct for every comparison function. On a well-formed
  heap, insertion of a new node and removal of any node return (the recursive merge ends), leave a
  well-formed heap with exactly one element more or less, put it in the shape of the textbook skew heap
  operation, and touch no node outside the heap.\<close>

theorem skew_heap_refines_tree:
  assumes "heap_tree d a t"
  shows "if b \<in> set_tree t
    then \<exists>a' d'. skew_heap_remove d a b cmp = Some (a', d') \<and> heap_tree d' a' (tremove cmp b t)
      \<and> mset_tree t = add_mset b (mset_tree (tremove cmp b t)) \<and> agree_on (- set_tree t) d d'
    else \<exists>a' d'. skew_heap_insert d a b cmp = Some (a', d') \<and> heap_tree d' a' (tmerge cmp t (Node Leaf b Leaf))
      \<and> mset_tree (tmerge cmp t (Node Leaf b Leaf)) = add_mset b (mset_tree t)
      \<and> agree_on (- insert b (set_tree t)) d d'"
  using skew_remove_tree [OF assms, of b cmp] skew_insert_tree [OF assms, of b cmp] mset_tremove [of b t cmp] by auto

theorem skew_heap_refines_tree_witness:
  "\<exists>a' d'. skew_heap_insert \<lparr>parent = \<lambda>_. None, left = \<lambda>_. None, right = \<lambda>_. None\<rparr> (Some 1) (2 :: nat) (\<lambda>_ _. 0)
     = Some (a', d') \<and> heap_tree d' a' (tmerge (\<lambda>_ _. 0) (Node Leaf 1 Leaf) (Node Leaf 2 Leaf))"
proof -
  have "heap_tree \<lparr>parent = \<lambda>_. None, left = \<lambda>_. None, right = \<lambda>_. None\<rparr> (Some 1) (Node Leaf (1 :: nat) Leaf)"
    by (simp add: heap_tree_def)
  from skew_heap_refines_tree [OF this, of 2 "\<lambda>_ _. 0"] show ?thesis by auto
qed

end
