(* ===== verification/Proc.thy ===== *)
theory Proc
  imports ListH SkewHeap
begin

unbundle bit_operations_syntax

text \<open>
  The process structure and the kernel state the scheduler and the process code share
  (\<open>kern/process/proc.h\<close>, \<open>kern/schedule/sched.h\<close> and the file-scope variables of \<open>proc.c\<close>
  and \<open>sched.c\<close>). A \<open>struct proc_struct\<close> is named by its address, a natural number; a pointer
  that may be null is an option. The three intrusive lists a process can be on (process list,
  hash chain, run queue) and the skew heap node each have a link heap of their own, as each is
  a separate member of the structure. Register contexts and trap frames are not part of the
  model: no operation here looks into them.
\<close>

section \<open>Process structures\<close>

datatype proc_state = PROC_UNINIT | PROC_SLEEPING | PROC_RUNNABLE | PROC_ZOMBIE

record proc_struct =
  p_state :: proc_state
  p_pid :: int
  p_runs :: int
  p_kstack :: "nat option"
  p_need_resched :: bool
  p_parent :: "nat option"
  p_mm :: "nat option"
  p_flags :: "32 word"
  p_name :: string
  p_exit_code :: int
  p_wait_state :: "32 word"
  p_cptr :: "nat option"
  p_yptr :: "nat option"
  p_optr :: "nat option"
  p_rq :: bool
  p_time_slice :: int
  lab6_stride :: "32 word"
  lab6_priority :: "32 word"
  p_filesp :: "nat option"

definition PF_EXITING :: "32 word" where "PF_EXITING = 0x00000001"
definition WT_INTERRUPTED :: "32 word" where "WT_INTERRUPTED = 0x80000000"
definition WT_CHILD :: "32 word" where "WT_CHILD = 0x00000001 OR WT_INTERRUPTED"
definition WT_KSEM :: "32 word" where "WT_KSEM = 0x00000100"
definition WT_TIMER :: "32 word" where "WT_TIMER = 0x00000002 OR WT_INTERRUPTED"
definition WT_KBD :: "32 word" where "WT_KBD = 0x00000004 OR WT_INTERRUPTED"

definition PROC_NAME_LEN :: nat where "PROC_NAME_LEN = 15"
definition MAX_PROCESS :: int where "MAX_PROCESS = 4096"
definition MAX_PID :: int where "MAX_PID = MAX_PROCESS * 2"

section \<open>The kernel state\<close>

text \<open>Addresses of list nodes: the head, the member of a process, or null (a \<open>run_link\<close> that
  \<open>alloc_proc\<close> has just cleared).\<close>

datatype rle = RunList | RunLink nat | RunNull
datatype ple = ProcList | ListLink nat
datatype hle = HashList nat | HashLink nat
datatype tle = TimerList | TimerLink nat

primrec le2run :: "rle \<Rightarrow> nat" where "le2run (RunLink p) = p"
primrec le2list :: "ple \<Rightarrow> nat" where "le2list (ListLink p) = p"
primrec le2hash :: "hle \<Rightarrow> nat" where "le2hash (HashLink p) = p"
primrec le2timer :: "tle \<Rightarrow> nat" where "le2timer (TimerLink t) = t"

text \<open>\<open>timer_t\<close>, without its link.\<close>

record timer =
  t_expires :: "32 word"
  t_proc :: "nat option"

text \<open>\<open>struct run_queue\<close>: the list and the heap it may use.\<close>

record run_queue =
  run_links :: "rle dll"
  proc_num :: "32 word"
  max_time_slice :: int
  lab6_run_pool :: "nat option"
  run_pool_links :: "nat skew"

record kern =
  procs :: "nat \<Rightarrow> proc_struct"
  current :: nat
  idleproc :: nat
  initproc :: nat
  rq :: run_queue
  timers :: "nat \<Rightarrow> timer"
  timer_links :: "tle dll"
  proc_links :: "ple dll"
  hash_links :: "hle dll"
  nr_process :: int
  last_pid :: int
  next_safe :: int

text \<open>Assignment to fields of one process.\<close>

definition upd_proc :: "nat \<Rightarrow> (proc_struct \<Rightarrow> proc_struct) \<Rightarrow> kern \<Rightarrow> kern" where
  "upd_proc p f k = k\<lparr>procs := (procs k)(p := f (procs k p))\<rparr>"

lemma upd_proc_simps [simp]:
  "procs (upd_proc p f k) = (procs k)(p := f (procs k p))"
  "current (upd_proc p f k) = current k" "idleproc (upd_proc p f k) = idleproc k"
  "initproc (upd_proc p f k) = initproc k" "rq (upd_proc p f k) = rq k"
  "timers (upd_proc p f k) = timers k" "timer_links (upd_proc p f k) = timer_links k"
  "proc_links (upd_proc p f k) = proc_links k" "hash_links (upd_proc p f k) = hash_links k"
  "nr_process (upd_proc p f k) = nr_process k" "last_pid (upd_proc p f k) = last_pid k"
  "next_safe (upd_proc p f k) = next_safe k"
  by (simp_all add: upd_proc_def)

section \<open>alloc_proc\<close>

text \<open>The fields \<open>alloc_proc\<close> stores into a structure that \<open>kmalloc\<close> returned.\<close>

definition fresh_proc :: proc_struct where
  "fresh_proc = \<lparr>p_state = PROC_UNINIT, p_pid = -1, p_runs = 0, p_kstack = None, p_need_resched = False,
     p_parent = None, p_mm = None, p_flags = 0, p_name = [], p_exit_code = 0, p_wait_state = 0,
     p_cptr = None, p_yptr = None, p_optr = None, p_rq = False, p_time_slice = 0,
     lab6_stride = 0, lab6_priority = 0, p_filesp = None\<rparr>"

text \<open>\<open>alloc_proc\<close> at the address \<open>kmalloc\<close> returned; \<open>exit_code\<close> keeps the memory's old value.\<close>

definition alloc_proc :: "kern \<Rightarrow> nat option \<Rightarrow> nat option \<times> kern" where
  "alloc_proc k m =
     (case m of
        None \<Rightarrow> (None, k)
      | Some p \<Rightarrow>
          let r = rq k;
              d = run_links r;
              h = run_pool_links r
          in (Some p, k\<lparr>procs := (procs k)(p := fresh_proc\<lparr>p_exit_code := p_exit_code (procs k p)\<rparr>),
                 rq := r\<lparr>run_links := d\<lparr>nxt := (nxt d)(RunLink p := RunNull), prv := (prv d)(RunLink p := RunNull)\<rparr>,
                        run_pool_links := skew_heap_init h p\<rparr>\<rparr>))"

end
