(* ===== verification/SchedClass.thy ===== *)
theory SchedClass
  imports Proc
begin

text \<open>
  \<open>kern/schedule/sched.c\<close> without the timers: the core scheduler, written against
  \<open>struct sched_class\<close>. The class is a record of operations, as in C; the locale
  \<open>sched_policy\<close> is the contract between the core and a class, and holds the correctness of
  \<open>wakeup_proc\<close> and \<open>schedule\<close> for every class that keeps it. The round robin and the stride
  class both do.
\<close>

section \<open>The scheduler class and the core\<close>

text \<open>\<open>struct sched_class\<close>. An operation that can fail an assertion, or loop, is partial.\<close>

record sched_class =
  sc_init :: "kern \<Rightarrow> kern"
  sc_enqueue :: "kern \<Rightarrow> nat \<Rightarrow> kern option"
  sc_dequeue :: "kern \<Rightarrow> nat \<Rightarrow> kern option"
  sc_pick_next :: "kern \<Rightarrow> nat option \<times> kern"
  sc_proc_tick :: "kern \<Rightarrow> nat \<Rightarrow> kern"

definition MAX_TIME_SLICE :: int where "MAX_TIME_SLICE = 5"

definition sched_class_enqueue :: "sched_class \<Rightarrow> kern \<Rightarrow> nat \<Rightarrow> kern option" where
  "sched_class_enqueue c k proc = (if proc \<noteq> idleproc k then sc_enqueue c k proc else Some k)"

definition sched_class_dequeue :: "sched_class \<Rightarrow> kern \<Rightarrow> nat \<Rightarrow> kern option" where
  "sched_class_dequeue c k proc = sc_dequeue c k proc"

definition sched_class_pick_next :: "sched_class \<Rightarrow> kern \<Rightarrow> nat option \<times> kern" where
  "sched_class_pick_next c k = sc_pick_next c k"

definition sched_class_proc_tick :: "sched_class \<Rightarrow> kern \<Rightarrow> nat \<Rightarrow> kern" where
  "sched_class_proc_tick c k proc =
     (if proc \<noteq> idleproc k then sc_proc_tick c k proc
      else upd_proc proc (\<lambda>p. p\<lparr>p_need_resched := True\<rparr>) k)"

definition sched_init :: "sched_class \<Rightarrow> kern \<Rightarrow> kern" where
  "sched_init c k =
     (let k = k\<lparr>timer_links := list_init (timer_links k) TimerList\<rparr>;
          k = k\<lparr>rq := (rq k)\<lparr>max_time_slice := MAX_TIME_SLICE\<rparr>\<rparr>
      in sc_init c k)"

definition wakeup_proc :: "sched_class \<Rightarrow> kern \<Rightarrow> nat \<Rightarrow> kern option" where
  "wakeup_proc c k proc = do {
     kassert (p_state (procs k proc) \<noteq> PROC_ZOMBIE);
     if p_state (procs k proc) \<noteq> PROC_RUNNABLE then do {
       let k = upd_proc proc (\<lambda>p. p\<lparr>p_state := PROC_RUNNABLE, p_wait_state := 0\<rparr>) k;
       if proc \<noteq> current k then sched_class_enqueue c k proc else Some k
     } else Some k
   }"

text \<open>\<open>proc_run\<close>: what the kernel's own data sees of a context switch is the new \<open>current\<close>; the
  page table register, the TLB and the register contexts are outside the model.\<close>

definition proc_run :: "kern \<Rightarrow> nat \<Rightarrow> kern" where
  "proc_run k proc = (if proc \<noteq> current k then k\<lparr>current := proc\<rparr> else k)"

definition schedule :: "sched_class \<Rightarrow> kern \<Rightarrow> kern option" where
  "schedule c k = do {
     let k = upd_proc (current k) (\<lambda>p. p\<lparr>p_need_resched := False\<rparr>) k;
     k \<leftarrow> (if p_state (procs k (current k)) = PROC_RUNNABLE then sched_class_enqueue c k (current k) else Some k);
     let (next, k) = sched_class_pick_next c k;
     k \<leftarrow> (case next of Some n \<Rightarrow> sched_class_dequeue c k n | None \<Rightarrow> Some k);
     let n = (case next of Some n \<Rightarrow> n | None \<Rightarrow> idleproc k);
     let k = upd_proc n (\<lambda>p. p\<lparr>p_runs := p_runs p + 1\<rparr>) k;
     if n \<noteq> current k then Some (proc_run k n) else Some k
   }"

section \<open>What the operations of a class leave alone\<close>

text \<open>A class may change the scheduling fields of processes and the run queue, nothing else.\<close>

definition same_proc :: "proc_struct \<Rightarrow> proc_struct \<Rightarrow> bool" where
  "same_proc p q \<longleftrightarrow>
     q\<lparr>p_rq := p_rq p, p_time_slice := p_time_slice p, lab6_stride := lab6_stride p, p_need_resched := p_need_resched p\<rparr> = p"

definition same_kern :: "kern \<Rightarrow> kern \<Rightarrow> bool" where
  "same_kern k k' \<longleftrightarrow> k'\<lparr>procs := procs k, rq := rq k\<rparr> = k \<and> (\<forall>p. same_proc (procs k p) (procs k' p))"

lemma same_proc_refl [simp]: "same_proc p p"
  by (simp add: same_proc_def)

lemma same_proc_trans: "same_proc p q \<Longrightarrow> same_proc q r \<Longrightarrow> same_proc p r"
  by (cases p; cases q; cases r) (simp add: same_proc_def)

lemma same_proc_fields:
  "same_proc p q \<Longrightarrow> p_state q = p_state p \<and> p_pid q = p_pid p \<and> p_wait_state q = p_wait_state p
     \<and> p_parent q = p_parent p \<and> p_flags q = p_flags p \<and> p_runs q = p_runs p \<and> lab6_priority q = lab6_priority p
     \<and> p_cptr q = p_cptr p \<and> p_yptr q = p_yptr p \<and> p_optr q = p_optr p \<and> p_exit_code q = p_exit_code p"
  by (cases p; cases q) (simp add: same_proc_def)

text \<open>What waking a process never touches: its family and its identity.\<close>

definition same_kin :: "proc_struct \<Rightarrow> proc_struct \<Rightarrow> bool" where
  "same_kin p q \<longleftrightarrow> p_parent q = p_parent p \<and> p_cptr q = p_cptr p \<and> p_yptr q = p_yptr p \<and> p_optr q = p_optr p
     \<and> p_pid q = p_pid p \<and> p_exit_code q = p_exit_code p \<and> p_flags q = p_flags p"

lemma same_kin_refl [simp]: "same_kin p p"
  by (simp add: same_kin_def)

lemma same_kin_trans [trans]: "same_kin p q \<Longrightarrow> same_kin q r \<Longrightarrow> same_kin p r"
  by (simp add: same_kin_def)

lemma same_proc_kin: "same_proc p q \<Longrightarrow> same_kin p q"
  by (cases p; cases q) (simp add: same_proc_def same_kin_def)

lemma same_kern_refl [simp]: "same_kern k k"
  by (simp add: same_kern_def)

text \<open>What lies outside the processes, the run queue and the running process stays as it is.\<close>

definition same_rest :: "kern \<Rightarrow> kern \<Rightarrow> bool" where
  "same_rest k k' \<longleftrightarrow> k'\<lparr>procs := procs k, rq := rq k, current := current k\<rparr> = k"

lemma same_rest_refl [simp]: "same_rest k k"
  by (simp add: same_rest_def)

lemma same_rest_trans [trans]: "same_rest k k' \<Longrightarrow> same_rest k' k'' \<Longrightarrow> same_rest k k''"
  by (cases k; cases k'; cases k'') (simp add: same_rest_def)

lemma same_rest_fields:
  assumes "same_rest k k'"
  shows "idleproc k' = idleproc k" "initproc k' = initproc k"
    "timers k' = timers k" "timer_links k' = timer_links k" "proc_links k' = proc_links k"
    "hash_links k' = hash_links k" "nr_process k' = nr_process k" "last_pid k' = last_pid k"
    "next_safe k' = next_safe k"
  using assms by (cases k; cases k'; simp add: same_rest_def)+

lemma same_kern_rest: "same_kern k k' \<Longrightarrow> same_rest k k'"
  by (cases k; cases k') (simp add: same_kern_def same_rest_def)

lemma same_rest_upd [simp]: "same_rest k (upd_proc p f k)" "same_rest k (k\<lparr>current := n\<rparr>)"
  by (simp_all add: same_rest_def upd_proc_def)

lemma same_kern_fields:
  assumes "same_kern k k'"
  shows "current k' = current k" "idleproc k' = idleproc k" "initproc k' = initproc k"
    "timers k' = timers k" "timer_links k' = timer_links k" "proc_links k' = proc_links k"
    "hash_links k' = hash_links k" "nr_process k' = nr_process k" "last_pid k' = last_pid k"
    "next_safe k' = next_safe k" "same_proc (procs k p) (procs k' p)"
  using assms by (cases k; cases k'; simp add: same_kern_def)+

lemma same_kern_trans: "same_kern k k' \<Longrightarrow> same_kern k' k'' \<Longrightarrow> same_kern k k''"
  by (cases k; cases k'; cases k'') (auto simp: same_kern_def intro: same_proc_trans)

lemma same_kern_upd:
  "(\<And>p. same_proc (procs k p) (pr p)) \<Longrightarrow> same_kern k (k\<lparr>procs := pr, rq := r\<rparr>)"
  by (simp add: same_kern_def)

section \<open>The contract of a scheduler class\<close>

text \<open>The processes that should be in the queue, and the scheduler invariant: the queue holds exactly
  the runnable processes that are neither running nor the idle process, and every process outside it
  can be queued.\<close>

definition ready :: "kern \<Rightarrow> nat set" where
  "ready k = {p. p_state (procs k p) = PROC_RUNNABLE \<and> p \<noteq> current k \<and> p \<noteq> idleproc k}"

definition sched_inv :: "(kern \<Rightarrow> nat set \<Rightarrow> bool) \<Rightarrow> (kern \<Rightarrow> nat \<Rightarrow> bool) \<Rightarrow> kern \<Rightarrow> bool" where
  "sched_inv queued linkable k \<longleftrightarrow> queued k (ready k) \<and> (\<forall>p. p \<notin> ready k \<longrightarrow> linkable k p)"

text \<open>\<open>queued k Q\<close>: the run queue is well formed and holds the processes \<open>Q\<close>. \<open>linkable k p\<close>: the
  queue links of \<open>p\<close> are in the state the class expects of a process it does not hold.\<close>

locale sched_policy =
  fixes c :: sched_class and queued :: "kern \<Rightarrow> nat set \<Rightarrow> bool" and linkable :: "kern \<Rightarrow> nat \<Rightarrow> bool"
  assumes init_queued: "queued (sc_init c k) {}" "same_kern k (sc_init c k)"
    and queued_fun: "queued k A \<Longrightarrow> queued k B \<Longrightarrow> A = B"
    and queued_cong: "rq k' = rq k \<Longrightarrow> (\<forall>p \<in> Q. p_rq (procs k' p) = p_rq (procs k p)) \<Longrightarrow> queued k Q \<Longrightarrow> queued k' Q"
    and linkable_cong: "rq k' = rq k \<Longrightarrow> linkable k p \<Longrightarrow> linkable k' p"
    and enqueue_ok: "queued k Q \<Longrightarrow> p \<notin> Q \<Longrightarrow> linkable k p \<Longrightarrow>
      \<exists>k'. sc_enqueue c k p = Some k' \<and> queued k' (insert p Q) \<and> same_kern k k'
        \<and> (\<forall>q. q \<noteq> p \<longrightarrow> linkable k q \<longrightarrow> linkable k' q)"
    and pick_none: "queued k {} \<Longrightarrow> sc_pick_next c k = (None, k)"
    and pick_dequeue: "queued k Q \<Longrightarrow> Q \<noteq> {} \<Longrightarrow>
      \<exists>p k' k''. sc_pick_next c k = (Some p, k') \<and> p \<in> Q \<and> sc_dequeue c k' p = Some k''
        \<and> queued k'' (Q - {p}) \<and> same_kern k k'' \<and> current k' = current k \<and> idleproc k' = idleproc k
        \<and> linkable k'' p \<and> (\<forall>q. linkable k q \<longrightarrow> linkable k'' q)"
    and tick_ok: "queued k Q \<Longrightarrow> queued (sc_proc_tick c k p) Q \<and> same_kern k (sc_proc_tick c k p)"
      "linkable k q \<Longrightarrow> linkable (sc_proc_tick c k p) q"
begin

lemma enqueue_inv:
  assumes "queued k Q" "p \<notin> Q" "\<forall>q. q \<notin> Q \<longrightarrow> linkable k q" "p \<noteq> idleproc k"
  shows "\<exists>k'. sched_class_enqueue c k p = Some k' \<and> queued k' (insert p Q) \<and> same_kern k k'
    \<and> (\<forall>q. q \<notin> insert p Q \<longrightarrow> linkable k' q)"
  using enqueue_ok [OF assms(1,2)] assms(3,4) assms(2) by (auto simp: sched_class_enqueue_def)

lemma wakeup_ok:
  assumes inv: "sched_inv queued linkable k" and z: "p_state (procs k p) \<noteq> PROC_ZOMBIE"
  shows "\<exists>k'. wakeup_proc c k p = Some k' \<and> sched_inv queued linkable k' \<and> p_state (procs k' p) = PROC_RUNNABLE
    \<and> current k' = current k \<and> idleproc k' = idleproc k \<and> same_rest k k'
    \<and> (p_state (procs k p) \<noteq> PROC_RUNNABLE \<longrightarrow> p_wait_state (procs k' p) = 0)
    \<and> (\<forall>q. q \<noteq> p \<longrightarrow> same_proc (procs k q) (procs k' q))
    \<and> (p_state (procs k p) = PROC_RUNNABLE \<longrightarrow> k' = k) \<and> (\<forall>q. same_kin (procs k q) (procs k' q))"
proof (cases "p_state (procs k p) = PROC_RUNNABLE")
  case True
  with inv show ?thesis by (simp add: wakeup_proc_def)
next
  case False
  let ?k1 = "upd_proc p (\<lambda>p. p\<lparr>p_state := PROC_RUNNABLE, p_wait_state := 0\<rparr>) k"
  have np: "p \<notin> ready k" using False by (simp add: ready_def)
  have q1: "queued ?k1 (ready k)" using inv by (auto simp: sched_inv_def intro!: queued_cong [of ?k1 k] split: if_splits)
  have l1: "\<forall>q. q \<notin> ready k \<longrightarrow> linkable ?k1 q" using inv by (auto simp: sched_inv_def intro!: linkable_cong [of ?k1 k])
  show ?thesis
  proof (cases "p = current k \<or> p = idleproc k")
    case True
    then have "ready ?k1 = ready k" by (auto simp: ready_def)
    with q1 l1 have "sched_inv queued linkable ?k1" by (simp add: sched_inv_def)
    moreover have "wakeup_proc c k p = Some ?k1"
      using True False z by (auto simp: wakeup_proc_def sched_class_enqueue_def Let_def)
    ultimately show ?thesis using False by (intro exI [of _ ?k1]) (simp add: same_kin_def)
  next
    case out: False
    then obtain k' where k': "sched_class_enqueue c ?k1 p = Some k'" "queued k' (insert p (ready k))"
      "same_kern ?k1 k'" "\<forall>q. q \<notin> insert p (ready k) \<longrightarrow> linkable k' q"
      using enqueue_inv [OF q1 np l1] by auto
    note sf = same_kern_fields [OF k'(3)]
    have st: "p_state (procs k' q) = p_state (procs ?k1 q)" for q
      using sf(11) [of q] by (auto dest: same_proc_fields)
    have "ready k' = insert p (ready k)" using sf(1,2) out False by (auto simp: ready_def st split: if_splits)
    moreover have "same_rest k k'"
      by (rule same_rest_trans [OF _ same_kern_rest [OF k'(3)]]) simp
    moreover have "same_kin (procs k q) (procs k' q)" for q
      by (rule same_kin_trans [OF _ same_proc_kin [OF sf(11)]]) (simp add: same_kin_def)
    moreover have "p_wait_state (procs k' p) = 0" using sf(11) [of p] by (auto dest: same_proc_fields)
    moreover have "same_proc (procs k q) (procs k' q)" if "q \<noteq> p" for q using sf(11) [of q] that by simp
    ultimately show ?thesis
      using k' sf(1,2) st [of p] out False z by (auto simp: wakeup_proc_def sched_inv_def Let_def)
  qed
qed

lemma schedule_ok:
  assumes inv: "sched_inv queued linkable k" and idle: "p_state (procs k (idleproc k)) = PROC_RUNNABLE"
  shows "\<exists>k'. schedule c k = Some k' \<and> sched_inv queued linkable k' \<and> idleproc k' = idleproc k \<and> same_rest k k'
    \<and> (\<forall>p. p_state (procs k' p) = p_state (procs k p) \<and> p_wait_state (procs k' p) = p_wait_state (procs k p)
         \<and> p_runs (procs k' p) = p_runs (procs k p) + (if p = current k' then 1 else 0)
         \<and> same_kin (procs k p) (procs k' p))
    \<and> p_state (procs k' (current k')) = PROC_RUNNABLE
    \<and> (current k' = idleproc k' \<longleftrightarrow> (\<forall>p. p_state (procs k p) = PROC_RUNNABLE \<longrightarrow> p = idleproc k))"
proof -
  let ?k1 = "upd_proc (current k) (\<lambda>p. p\<lparr>p_need_resched := False\<rparr>) k"
  let ?R = "{p. p_state (procs k p) = PROC_RUNNABLE \<and> p \<noteq> idleproc k}"
  have st1: "p_state (procs ?k1 q) = p_state (procs k q)" for q by simp
  have q1: "queued ?k1 (ready k)" using inv by (auto simp: sched_inv_def intro!: queued_cong [of ?k1 k] split: if_splits)
  have l1: "\<forall>q. q \<notin> ready k \<longrightarrow> linkable ?k1 q" using inv by (auto simp: sched_inv_def intro!: linkable_cong [of ?k1 k])
  have cr: "current k \<notin> ready k" by (simp add: ready_def)
  obtain k2 where k2: "(if p_state (procs ?k1 (current ?k1)) = PROC_RUNNABLE
      then sched_class_enqueue c ?k1 (current ?k1) else Some ?k1) = Some k2"
    "queued k2 ?R" "same_kern ?k1 k2" "\<forall>q. q \<notin> ?R \<longrightarrow> linkable k2 q"
  proof (cases "p_state (procs k (current k)) = PROC_RUNNABLE \<and> current k \<noteq> idleproc k")
    case True
    then have "insert (current k) (ready k) = ?R" by (auto simp: ready_def)
    with True enqueue_inv [OF q1 cr l1] show thesis by (auto intro: that)
  next
    case False
    then have "ready k = ?R" by (auto simp: ready_def)
    with False q1 l1 show thesis by (intro that [of ?k1]) (auto simp: sched_class_enqueue_def)
  qed
  note s2 = same_kern_fields [OF k2(3)]
  obtain nx k3 k4 where k4: "sc_pick_next c k2 = (nx, k3)"
    "(case nx of Some n \<Rightarrow> sched_class_dequeue c k3 n | None \<Rightarrow> Some k3) = Some k4"
    "queued k4 (?R - {case nx of Some n \<Rightarrow> n | None \<Rightarrow> idleproc k})" "same_kern k2 k4"
    "\<forall>q. q \<notin> ?R \<longrightarrow> linkable k4 q" "nx = None \<longleftrightarrow> ?R = {}" "\<forall>n. nx = Some n \<longrightarrow> n \<in> ?R \<and> linkable k4 n"
  proof (cases "?R = {}")
    case True
    with k2(2) have "queued k2 {}" by simp
    with True pick_none [OF this] k2(2,4) show thesis by (intro that [of None k2 k2]) auto
  next
    case False
    from pick_dequeue [OF k2(2) False] obtain p k3 k4 where
      "sc_pick_next c k2 = (Some p, k3)" "p \<in> ?R" "sc_dequeue c k3 p = Some k4" "queued k4 (?R - {p})"
      "same_kern k2 k4" "linkable k4 p" "\<forall>q. linkable k2 q \<longrightarrow> linkable k4 q" by blast
    with False k2(4) show thesis by (intro that [of "Some p" k3 k4]) (auto simp: sched_class_dequeue_def)
  qed
  note s4 = same_kern_fields [OF k4(4)]
  define n where "n = (case nx of Some n \<Rightarrow> n | None \<Rightarrow> idleproc k)"
  define k5 where "k5 = (upd_proc n (\<lambda>p. p\<lparr>p_runs := p_runs p + 1\<rparr>) k4)\<lparr>current := n\<rparr>"
  have fields: "p_state (procs k4 q) = p_state (procs k q)" "p_runs (procs k4 q) = p_runs (procs k q)"
    "p_wait_state (procs k4 q) = p_wait_state (procs k q)" for q
    using s4(11) [of q] s2(11) [of q] by (auto dest!: same_proc_fields)
  have id4: "idleproc k4 = idleproc k" "current k4 = current k" using s2 s4 by simp_all
  have n4: "(case nx of Some n \<Rightarrow> n | None \<Rightarrow> idleproc k4) = n" by (simp add: n_def id4 split: option.split)
  have "n = current k \<Longrightarrow> upd_proc n (\<lambda>p. p\<lparr>p_runs := p_runs p + 1\<rparr>) k4 = k5"
    using id4 by (cases k4) (simp add: k5_def upd_proc_def)
  then have "schedule c k = Some k5"
    unfolding schedule_def Let_def k2(1) Option.bind.bind_lunit sched_class_pick_next_def k4(1) split_conv k4(2)
    by (simp add: id4 n4) (simp add: k5_def proc_run_def)
  moreover have rdy: "ready k5 = ?R - {n}" using fields s2 s4 by (auto simp: ready_def k5_def)
  moreover have "queued k5 (?R - {n})"
    by (rule queued_cong [OF _ _ k4(3) [folded n_def]]) (simp_all add: k5_def)
  moreover have "\<forall>p. p \<notin> ?R - {n} \<longrightarrow> linkable k5 p"
  proof (intro allI impI)
    fix p assume "p \<notin> ?R - {n}"
    then have "linkable k4 p" using k4(5,7) by (cases nx) (auto simp: n_def)
    then show "linkable k5 p" by (rule linkable_cong [rotated]) (simp add: k5_def)
  qed
  ultimately have sch: "schedule c k = Some k5" and inv5: "sched_inv queued linkable k5"
    unfolding sched_inv_def rdy by blast+
  have "n \<in> ?R \<or> n = idleproc k \<and> ?R = {}"
  proof (cases nx)
    case None
    then show ?thesis using k4(6) by (simp add: n_def)
  next
    case (Some m)
    then show ?thesis using k4(7) by (simp add: n_def)
  qed
  then have run: "p_state (procs k n) = PROC_RUNNABLE" "n = idleproc k \<longleftrightarrow> ?R = {}" using idle by blast+
  have k5: "current k5 = n" "idleproc k5 = idleproc k" "p_state (procs k5 q) = p_state (procs k q)"
    "p_wait_state (procs k5 q) = p_wait_state (procs k q)"
    "p_runs (procs k5 q) = p_runs (procs k q) + (if q = n then 1 else 0)" for q
    using fields [of q] fields [of n] id4 by (simp_all add: k5_def)
  have idl: "current k5 = idleproc k5 \<longleftrightarrow> (\<forall>p. p_state (procs k p) = PROC_RUNNABLE \<longrightarrow> p = idleproc k)"
    unfolding k5(1,2) run(2) by blast
  have rest: "same_rest k k5"
  proof -
    have "same_rest k ?k1" by simp
    also have "same_rest ?k1 k2" by (rule same_kern_rest [OF k2(3)])
    also have "same_rest k2 k4" by (rule same_kern_rest [OF k4(4)])
    also have "same_rest k4 (upd_proc n (\<lambda>p. p\<lparr>p_runs := p_runs p + 1\<rparr>) k4)"
      by (rule same_rest_upd)
    also have "same_rest (upd_proc n (\<lambda>p. p\<lparr>p_runs := p_runs p + 1\<rparr>) k4) k5"
      unfolding k5_def by (rule same_rest_upd)
    finally show ?thesis .
  qed
  have kin: "same_kin (procs k p) (procs k5 p)" for p
  proof -
    have "same_kin (procs k p) (procs ?k1 p)" by (simp add: same_kin_def)
    also have "same_kin (procs ?k1 p) (procs k2 p)" by (rule same_proc_kin [OF s2(11)])
    also have "same_kin (procs k2 p) (procs k4 p)" by (rule same_proc_kin [OF s4(11)])
    also have "same_kin (procs k4 p) (procs k5 p)" by (simp add: k5_def same_kin_def)
    finally show ?thesis .
  qed
  have runs: "p_runs (procs k5 p) = p_runs (procs k p) + (if p = current k5 then 1 else 0)" for p
    using k5(5) [of p] k5(1) by simp
  have cur: "p_state (procs k5 (current k5)) = PROC_RUNNABLE" using run(1) k5(1,3) by simp
  show ?thesis
    by (rule exI [of _ k5], intro conjI allI) (fact sch inv5 k5(2-4) rest kin runs cur idl)+
qed

end

end
