(* ===== verification/Stride.thy ===== *)
theory Stride
  imports SchedClass
begin

text \<open>
  \<open>kern/schedule/default_sched_stride.c\<close>: the stride scheduler over the skew heap
  (\<open>USE_SKEW_HEAP\<close> is 1). Strides are 32-bit counters that wrap; the comparison reads their
  difference as a signed number, which orders them correctly as long as all strides in the queue
  lie within \<open>BIG_STRIDE\<close> of each other. The lemmas show that the class keeps the contract of
  \<open>sched_policy\<close>, and that on such a window the process picked has the least stride, the window
  is kept, and every process gets its share of the CPU.
\<close>

section \<open>The routines\<close>

definition BIG_STRIDE :: "32 word" where "BIG_STRIDE = 0x7fffffff"

text \<open>\<open>proc_stride_comp_f\<close>: \<open>int32_t c = p->lab6_stride - q->lab6_stride\<close>.\<close>

definition proc_stride_comp_f :: "(nat \<Rightarrow> proc_struct) \<Rightarrow> nat \<Rightarrow> nat \<Rightarrow> int" where
  "proc_stride_comp_f ps p q =
     (let c = sint (lab6_stride (ps p) - lab6_stride (ps q))
      in if 0 < c then 1 else if c = 0 then 0 else -1)"

definition stride_init :: "kern \<Rightarrow> kern" where
  "stride_init k = (let r = rq k in
     k\<lparr>rq := r\<lparr>run_links := list_init (run_links r) RunList, lab6_run_pool := None, proc_num := 0\<rparr>\<rparr>)"

text \<open>The time slice a process is given when it enters the queue.\<close>

definition fill_slice :: "run_queue \<Rightarrow> proc_struct \<Rightarrow> proc_struct" where
  "fill_slice r p =
     (if p_time_slice p = 0 \<or> max_time_slice r < p_time_slice p
      then p\<lparr>p_time_slice := max_time_slice r\<rparr> else p)"

definition stride_enqueue :: "kern \<Rightarrow> nat \<Rightarrow> kern option" where
  "stride_enqueue k proc = do {
     let r = rq k;
     (root, d) \<leftarrow> skew_heap_insert (run_pool_links r) (lab6_run_pool r) proc (proc_stride_comp_f (procs k));
     let k = k\<lparr>rq := r\<lparr>lab6_run_pool := root, run_pool_links := d\<rparr>\<rparr>;
     let k = upd_proc proc (fill_slice (rq k)) k;
     let k = upd_proc proc (\<lambda>p. p\<lparr>p_rq := True\<rparr>) k;
     Some (k\<lparr>rq := (rq k)\<lparr>proc_num := proc_num (rq k) + 1\<rparr>\<rparr>)
   }"

definition stride_dequeue :: "kern \<Rightarrow> nat \<Rightarrow> kern option" where
  "stride_dequeue k proc = do {
     let r = rq k;
     (root, d) \<leftarrow> skew_heap_remove (run_pool_links r) (lab6_run_pool r) proc (proc_stride_comp_f (procs k));
     Some (k\<lparr>rq := r\<lparr>lab6_run_pool := root, run_pool_links := d, proc_num := proc_num r - 1\<rparr>\<rparr>)
   }"

text \<open>The increment \<open>stride_pick_next\<close> adds; unsigned division of the literal \<open>0x7fffffff\<close>.\<close>

definition stride_step :: "32 word \<Rightarrow> 32 word" where
  "stride_step priority = (if priority = 0 then BIG_STRIDE else BIG_STRIDE div priority)"

definition stride_pick_next :: "kern \<Rightarrow> nat option \<times> kern" where
  "stride_pick_next k =
     (case lab6_run_pool (rq k) of
        None \<Rightarrow> (None, k)
      | Some p \<Rightarrow>
          (Some p, upd_proc p (\<lambda>x. x\<lparr>lab6_stride := lab6_stride x + stride_step (lab6_priority x)\<rparr>) k))"

definition stride_proc_tick :: "kern \<Rightarrow> nat \<Rightarrow> kern" where
  "stride_proc_tick k proc =
     upd_proc proc (\<lambda>p. p\<lparr>p_time_slice := if p_time_slice p = 1 then 1 else p_time_slice p - 1\<rparr>) k"

definition stride_sched_class :: sched_class where
  "stride_sched_class = \<lparr>sc_init = stride_init, sc_enqueue = stride_enqueue, sc_dequeue = stride_dequeue,
     sc_pick_next = stride_pick_next, sc_proc_tick = stride_proc_tick\<rparr>"

section \<open>The class keeps the contract of the core scheduler\<close>

text \<open>The pool holds exactly \<open>Q\<close>, and \<open>proc_num\<close> counts it (modulo the width of the counter).\<close>

definition stride_pool :: "kern \<Rightarrow> nat tree \<Rightarrow> bool" where
  "stride_pool k t \<longleftrightarrow> heap_tree (run_pool_links (rq k)) (lab6_run_pool (rq k)) t
     \<and> proc_num (rq k) = of_nat (size t)"

definition stride_queued :: "kern \<Rightarrow> nat set \<Rightarrow> bool" where
  "stride_queued k Q \<longleftrightarrow> (\<exists>t. stride_pool k t \<and> set_tree t = Q)"

lemma same_proc_sched [simp]:
  "same_proc p (p\<lparr>p_rq := b\<rparr>)" "same_proc p (p\<lparr>p_time_slice := n\<rparr>)" "same_proc p (p\<lparr>lab6_stride := w\<rparr>)"
  "same_proc p (p\<lparr>p_need_resched := c\<rparr>)" "same_proc p (fill_slice r p)"
  "same_proc p ((fill_slice r p)\<lparr>p_rq := b\<rparr>)"
  by (cases p; simp add: same_proc_def fill_slice_def)+

lemma size_tmerge [simp]: "size (tmerge cmp s t) = size s + size t"
  by (induction cmp s t rule: tmerge.induct) auto

lemma size_tremove: "b \<in> set_tree t \<Longrightarrow> size (tremove cmp b t) = size t - 1"
  using mset_tremove [of b t cmp] by (simp flip: size_mset_tree)

lemma stride_enqueue_pool:
  assumes "stride_pool k t" "p \<notin> set_tree t"
  shows "\<exists>k'. stride_enqueue k p = Some k'
    \<and> stride_pool k' (tmerge (proc_stride_comp_f (procs k)) t (Node Leaf p Leaf))
    \<and> same_kern k k' \<and> (\<forall>q. lab6_stride (procs k' q) = lab6_stride (procs k q))"
proof -
  have ht: "heap_tree (run_pool_links (rq k)) (lab6_run_pool (rq k)) t" using assms(1) by (simp add: stride_pool_def)
  obtain r d where rd: "skew_heap_insert (run_pool_links (rq k)) (lab6_run_pool (rq k)) p (proc_stride_comp_f (procs k))
      = Some (r, d)" "heap_tree d r (tmerge (proc_stride_comp_f (procs k)) t (Node Leaf p Leaf))"
    using skew_insert_tree [OF ht assms(2), of "proc_stride_comp_f (procs k)"] by auto
  let ?r = "(rq k)\<lparr>lab6_run_pool := r, run_pool_links := d\<rparr>"
  let ?k' = "k\<lparr>procs := (procs k)(p := (fill_slice ?r (procs k p))\<lparr>p_rq := True\<rparr>),
    rq := ?r\<lparr>proc_num := proc_num (rq k) + 1\<rparr>\<rparr>"
  have "same_kern k ?k'" by (rule same_kern_upd) simp
  moreover have "stride_enqueue k p = Some ?k'"
    using rd(1) by (simp add: stride_enqueue_def upd_proc_def Let_def)
  moreover have "stride_pool ?k' (tmerge (proc_stride_comp_f (procs k)) t (Node Leaf p Leaf))"
    using rd(2) assms(1) by (simp add: stride_pool_def)
  moreover have "lab6_stride (procs ?k' q) = lab6_stride (procs k q)" for q by (simp add: fill_slice_def)
  ultimately show ?thesis by blast
qed

text \<open>The root may be picked (which changes its stride) and then removed: the removal merges its
  children and never compares it again.\<close>

lemma stride_pick_dequeue_pool:
  assumes "stride_pool k (Node l p r)"
  shows "\<exists>k' k''. stride_pick_next k = (Some p, k') \<and> stride_dequeue k' p = Some k''
    \<and> stride_pool k'' (tmerge (proc_stride_comp_f (procs k')) l r) \<and> same_kern k k''
    \<and> current k' = current k \<and> idleproc k' = idleproc k
    \<and> procs k' = (procs k)(p := (procs k p)\<lparr>lab6_stride := lab6_stride (procs k p) + stride_step (lab6_priority (procs k p))\<rparr>)
    \<and> procs k'' = procs k'"
proof -
  let ?k' = "upd_proc p (\<lambda>x. x\<lparr>lab6_stride := lab6_stride x + stride_step (lab6_priority x)\<rparr>) k"
  have ht: "heap_tree (run_pool_links (rq k)) (lab6_run_pool (rq k)) (Node l p r)"
    and pn: "proc_num (rq k) = of_nat (size (Node l p r))" using assms by (auto simp: stride_pool_def)
  then have root: "lab6_run_pool (rq k) = Some p" by (simp add: heap_tree_def)
  obtain a d where rm: "skew_heap_remove (run_pool_links (rq k)) (lab6_run_pool (rq k)) p
      (proc_stride_comp_f (procs ?k')) = Some (a, d)"
    "heap_tree d a (tremove (proc_stride_comp_f (procs ?k')) p (Node l p r))"
    using skew_remove_tree [OF ht, of p "proc_stride_comp_f (procs ?k')"] by auto
  let ?k'' = "?k'\<lparr>rq := (rq k)\<lparr>lab6_run_pool := a, run_pool_links := d, proc_num := proc_num (rq k) - 1\<rparr>\<rparr>"
  have "stride_pick_next k = (Some p, ?k')" using root by (simp add: stride_pick_next_def)
  moreover have "stride_dequeue ?k' p = Some ?k''" using rm(1) by (simp add: stride_dequeue_def Let_def)
  moreover have "stride_pool ?k'' (tmerge (proc_stride_comp_f (procs ?k')) l r)"
    using rm(2) pn by (simp add: stride_pool_def)
  moreover have "same_kern k ?k''" by (simp add: same_kern_def upd_proc_def)
  ultimately show ?thesis by (intro exI [of _ ?k'] exI [of _ ?k'']) simp
qed

lemma stride_pool_unique: "stride_pool k s \<Longrightarrow> stride_pool k t \<Longrightarrow> s = t"
  by (auto simp: stride_pool_def heap_tree_def intro: heap_at_fun)

interpretation st: sched_policy stride_sched_class stride_queued "\<lambda>_ _. True"
proof unfold_locales
  fix k k' :: kern and Q A B :: "nat set" and p :: nat
  show "stride_queued (sc_init stride_sched_class k) {}"
    unfolding stride_queued_def
    by (rule exI [of _ Leaf]) (simp add: stride_pool_def heap_tree_def stride_sched_class_def stride_init_def Let_def)
  show "same_kern k (sc_init stride_sched_class k)"
    by (simp add: stride_sched_class_def stride_init_def same_kern_def Let_def)
  show "stride_queued k A \<Longrightarrow> stride_queued k B \<Longrightarrow> A = B"
    by (auto simp: stride_queued_def dest: stride_pool_unique)
  show "rq k' = rq k \<Longrightarrow> stride_queued k Q \<Longrightarrow> stride_queued k' Q"
    by (simp add: stride_queued_def stride_pool_def)
  show "\<exists>k'. sc_enqueue stride_sched_class k p = Some k' \<and> stride_queued k' (insert p Q) \<and> same_kern k k'
      \<and> (\<forall>q. q \<noteq> p \<longrightarrow> True \<longrightarrow> True)" if q: "stride_queued k Q" "p \<notin> Q"
  proof -
    from q obtain t where t: "stride_pool k t" "set_tree t = Q" by (auto simp: stride_queued_def)
    let ?m = "tmerge (proc_stride_comp_f (procs k)) t (Node Leaf p Leaf)"
    have "set_tree ?m = insert p Q" using t(2) by simp
    moreover obtain k' where "stride_enqueue k p = Some k'" "stride_pool k' ?m" "same_kern k k'"
      using stride_enqueue_pool [OF t(1), of p] t(2) q(2) by blast
    ultimately show ?thesis
      unfolding stride_queued_def by (intro exI [of _ k']) (auto simp: stride_sched_class_def)
  qed
  show "sc_pick_next stride_sched_class k = (None, k)" if "stride_queued k {}"
    using that by (auto simp: stride_queued_def stride_pool_def heap_tree_def stride_sched_class_def
        stride_pick_next_def)
  show "\<exists>p k' k''. sc_pick_next stride_sched_class k = (Some p, k') \<and> p \<in> Q \<and> sc_dequeue stride_sched_class k' p = Some k''
      \<and> stride_queued k'' (Q - {p}) \<and> same_kern k k'' \<and> current k' = current k \<and> idleproc k' = idleproc k
      \<and> True \<and> (\<forall>q. True \<longrightarrow> True)" if "stride_queued k Q" "Q \<noteq> {}"
  proof -
    from that obtain l p r where t: "stride_pool k (Node l p r)" "set_tree (Node l p r) = Q"
      by (metis eq_set_tree_empty stride_queued_def tree.exhaust)
    then have "distinct (inorder (Node l p r))" by (simp add: stride_pool_def heap_tree_def)
    then have "set_tree l \<union> set_tree r = Q - {p}" using t(2) by auto
    then have s: "set_tree (tmerge cmp l r) = Q - {p}" for cmp by simp
    have "p \<in> Q" using t(2) by auto
    moreover obtain k' k'' where *: "stride_pick_next k = (Some p, k')" "stride_dequeue k' p = Some k''"
      "stride_pool k'' (tmerge (proc_stride_comp_f (procs k')) l r)" "same_kern k k''"
      "current k' = current k" "idleproc k' = idleproc k" using stride_pick_dequeue_pool [OF t(1)] by blast
    moreover have "stride_queued k'' (Q - {p})" using *(3) s unfolding stride_queued_def by blast
    ultimately show ?thesis
      by (intro exI [of _ p] exI [of _ k'] exI [of _ k'']) (simp add: stride_sched_class_def)
  qed
  show "stride_queued (sc_proc_tick stride_sched_class k p) Q \<and> same_kern k (sc_proc_tick stride_sched_class k p)"
    if "stride_queued k Q"
    using that by (auto simp: stride_queued_def stride_sched_class_def stride_proc_tick_def stride_pool_def same_kern_def
        upd_proc_def)
qed auto

section \<open>Strides that do not wrap\<close>

text \<open>\<open>passes b e ps Q\<close>: the strides of \<open>Q\<close> are the unbounded counters \<open>e\<close>, read modulo \<open>2^32\<close> from
  the base \<open>b\<close>, and these counters lie within \<open>BIG_STRIDE\<close> of each other.\<close>

definition passes :: "32 word \<Rightarrow> (nat \<Rightarrow> nat) \<Rightarrow> (nat \<Rightarrow> proc_struct) \<Rightarrow> nat set \<Rightarrow> bool" where
  "passes b e ps Q \<longleftrightarrow> (\<forall>p \<in> Q. lab6_stride (ps p) = b + of_nat (e p))
     \<and> (\<forall>p \<in> Q. \<forall>q \<in> Q. e p \<le> e q + unat BIG_STRIDE)"

lemma BIG_STRIDE_nat [simp]: "unat BIG_STRIDE = 2147483647"
  by (simp add: BIG_STRIDE_def)

lemma sint_diff_nat:
  assumes "m \<le> n + 2147483647" "n \<le> m + 2147483647"
  shows "sint (of_nat m - of_nat n :: 32 word) = int m - int n"
proof -
  have "(of_nat m - of_nat n :: 32 word) = of_int (int m - int n)" by simp
  moreover have "sint (of_int (int m - int n) :: 32 word) = int m - int n"
    unfolding sint_sbintrunc' by (rule signed_take_bit_int_eq_self) (use assms in simp_all)
  ultimately show ?thesis by simp
qed

lemma stride_cmp_passes:
  assumes "passes b e ps Q" "p \<in> Q" "q \<in> Q"
  shows "proc_stride_comp_f ps p q = -1 \<longleftrightarrow> e p < e q"
proof -
  have "lab6_stride (ps p) - lab6_stride (ps q) = of_nat (e p) - of_nat (e q)"
    using assms by (auto simp: passes_def)
  moreover have "e p \<le> e q + 2147483647" "e q \<le> e p + 2147483647" using assms by (auto simp: passes_def)
  ultimately show ?thesis by (simp add: proc_stride_comp_f_def sint_diff_nat Let_def)
qed

lemma stride_order: "passes b e ps Q \<Longrightarrow> heap_order (proc_stride_comp_f ps) e Q"
  by unfold_locales (simp add: stride_cmp_passes)

lemma stride_step_le: "unat (stride_step w) \<le> 2147483647"
proof (cases "w = 0")
  case True
  then show ?thesis by (simp add: stride_step_def)
next
  case False
  then have "unat (stride_step w) = unat BIG_STRIDE div unat w" by (simp add: stride_step_def unat_div)
  also have "\<dots> \<le> unat BIG_STRIDE" by (rule div_le_dividend)
  finally show ?thesis by simp
qed

text \<open>The process with the least counter advances by its step: the counters stay in the window.\<close>

lemma passes_step:
  assumes "passes b e ps Q" "p \<in> Q" "\<forall>q \<in> Q. e p \<le> e q"
    and st: "\<forall>q \<in> Q. lab6_stride (ps' q) = (if q = p then lab6_stride (ps p) + w else lab6_stride (ps q))"
    and w: "unat w \<le> 2147483647"
  shows "passes b (e(p := e p + unat w)) ps' Q"
proof -
  have "e p + unat w \<le> e q + 2147483647" if "q \<in> Q" for q
    using assms(3) that w by fastforce
  moreover have "e q \<le> e p + unat w + 2147483647" if "q \<in> Q" for q
    using assms(1,2) that by (fastforce simp: passes_def)
  ultimately show ?thesis using assms(1-4) by (auto simp: passes_def)
qed

section \<open>Scheduling with strides\<close>

text \<open>The state the stride scheduler keeps between two calls of \<open>schedule\<close>: the heap holds the
  runnable processes other than the running one, in the order of their counters.\<close>

definition stride_inv :: "32 word \<Rightarrow> (nat \<Rightarrow> nat) \<Rightarrow> nat set \<Rightarrow> kern \<Rightarrow> bool" where
  "stride_inv b e Q k \<longleftrightarrow> (\<exists>t. stride_pool k t \<and> set_tree t = Q - {current k} \<and> heap_ordered e t)
     \<and> passes b e (procs k) Q \<and> Q = {p. p_state (procs k p) = PROC_RUNNABLE \<and> p \<noteq> idleproc k}"

lemma heap_ordered_cong: "\<forall>x \<in> set_tree t. e x = e' x \<Longrightarrow> heap_ordered e t = heap_ordered e' t"
  by (induction t) auto

lemma stride_pick_least:
  assumes pool: "stride_pool k t" and ord: "heap_ordered e t" and ps: "passes b e (procs k) (set_tree t)"
    and ne: "t \<noteq> Leaf"
  shows "\<exists>p k' k'' t'. stride_pick_next k = (Some p, k') \<and> p \<in> set_tree t \<and> (\<forall>q \<in> set_tree t. e p \<le> e q)
    \<and> stride_dequeue k' p = Some k'' \<and> stride_pool k'' t' \<and> set_tree t' = set_tree t - {p} \<and> heap_ordered e t'
    \<and> same_kern k k'' \<and> current k' = current k \<and> idleproc k' = idleproc k
    \<and> (\<forall>q. lab6_stride (procs k'' q) = (if q = p then lab6_stride (procs k p) + stride_step (lab6_priority (procs k p))
          else lab6_stride (procs k q)))
    \<and> root_of t = Some p"
proof -
  obtain l p r where t: "t = Node l p r" using ne by (cases t) auto
  from stride_pick_dequeue_pool [OF pool [unfolded t]] obtain k' k'' where k: "stride_pick_next k = (Some p, k')"
    "stride_dequeue k' p = Some k''" "stride_pool k'' (tmerge (proc_stride_comp_f (procs k')) l r)"
    "same_kern k k''" "current k' = current k" "idleproc k' = idleproc k"
    "procs k' = (procs k)(p := (procs k p)\<lparr>lab6_stride := lab6_stride (procs k p) + stride_step (lab6_priority (procs k p))\<rparr>)"
    "procs k'' = procs k'" by blast
  have dis: "p \<notin> set_tree l \<union> set_tree r" using pool t by (auto simp: stride_pool_def heap_tree_def)
  with ps t k(7) have "passes b e (procs k') (set_tree l \<union> set_tree r)" by (auto simp: passes_def)
  then have "heap_ordered e (tmerge (proc_stride_comp_f (procs k')) l r)"
    by (rule heap_order.ordered_tmerge [OF stride_order]) (use ord t in auto)
  moreover have "set_tree (tmerge (proc_stride_comp_f (procs k')) l r) = set_tree t - {p}" using t dis by auto
  moreover have "\<forall>q \<in> set_tree t. e p \<le> e q" using ord t by auto
  ultimately show ?thesis using k t by (intro exI [of _ p] exI [of _ k'] exI [of _ k'']) auto
qed

text \<open>One call of \<open>schedule\<close> with at least one runnable process: the running process goes back to the
  heap, the one with the least counter is taken out, pays its step and runs.\<close>

lemma stride_schedule_step:
  assumes inv: "stride_inv b e Q k" and ne: "Q \<noteq> {}" and cur: "current k \<in> Q \<or> current k = idleproc k"
    and idle: "p_state (procs k (idleproc k)) = PROC_RUNNABLE"
  shows "\<exists>k' p. schedule stride_sched_class k = Some k' \<and> current k' = p \<and> p \<in> Q \<and> (\<forall>q \<in> Q. e p \<le> e q)
    \<and> stride_inv b (e(p := e p + unat (stride_step (lab6_priority (procs k p))))) Q k'
    \<and> idleproc k' = idleproc k \<and> p_state (procs k' (idleproc k')) = PROC_RUNNABLE
    \<and> (\<forall>q. lab6_priority (procs k' q) = lab6_priority (procs k q)
         \<and> p_runs (procs k' q) = p_runs (procs k q) + (if q = p then 1 else 0))
    \<and> (current k \<in> Q \<and> (\<forall>q \<in> Q. e (current k) \<le> e q) \<longrightarrow> p = current k)"
proof -
  from inv obtain t where t: "stride_pool k t" "set_tree t = Q - {current k}" "heap_ordered e t"
    and ps: "passes b e (procs k) Q" and Q: "Q = {p. p_state (procs k p) = PROC_RUNNABLE \<and> p \<noteq> idleproc k}"
    by (auto simp: stride_inv_def)
  let ?c = stride_sched_class
  let ?k1 = "upd_proc (current k) (\<lambda>p. p\<lparr>p_need_resched := False\<rparr>) k"
  have t1: "stride_pool ?k1 t" using t(1) by (simp add: stride_pool_def)
  have ps1: "passes b e (procs ?k1) Q" using ps by (simp add: passes_def)
  obtain k2 t2 where k2: "(if p_state (procs ?k1 (current ?k1)) = PROC_RUNNABLE
      then sched_class_enqueue ?c ?k1 (current ?k1) else Some ?k1) = Some k2"
    "stride_pool k2 t2" "set_tree t2 = Q" "heap_ordered e t2" "same_kern ?k1 k2"
    "\<forall>q. lab6_stride (procs k2 q) = lab6_stride (procs k q)"
    "current k \<in> Q \<and> (\<forall>q \<in> Q. e (current k) \<le> e q) \<longrightarrow> root_of t2 = Some (current k)"
  proof (cases "current k \<in> Q")
    case False
    with cur have "sched_class_enqueue ?c ?k1 (current ?k1) = Some ?k1" by (simp add: sched_class_enqueue_def)
    with False t1 t(2,3) show thesis by (intro that [of ?k1 t]) auto
  next
    case True
    let ?m = "tmerge (proc_stride_comp_f (procs ?k1)) t (Node Leaf (current k) Leaf)"
    have sub: "set_tree ?m = Q" using t(2) True by auto
    have ord: "heap_ordered e ?m"
      by (rule heap_order.ordered_tmerge [OF stride_order [OF ps1]]) (use t True in auto)
    have root: "root_of ?m = Some (current k)" if "\<forall>q \<in> Q. e (current k) \<le> e q"
    proof (cases t)
      case (Node l x r)
      with t(2) have x: "x \<in> Q" by auto
      with that have "\<not> e x < e (current k)" by (auto simp: not_less)
      with Node stride_cmp_passes [OF ps1 x True] show ?thesis by simp
    qed simp
    have "current k \<notin> set_tree t" using t(2) by simp
    from stride_enqueue_pool [OF t1 this] obtain k2 where "stride_enqueue ?k1 (current k) = Some k2"
      "stride_pool k2 ?m" "same_kern ?k1 k2" "\<forall>q. lab6_stride (procs k2 q) = lab6_stride (procs ?k1 q)" by blast
    moreover have "current k \<noteq> idleproc k" "p_state (procs k (current k)) = PROC_RUNNABLE" using True Q by auto
    ultimately show thesis
      using sub ord root by (intro that [of k2 ?m]) (auto simp: sched_class_enqueue_def stride_sched_class_def)
  qed
  note s2 = same_kern_fields [OF k2(5)]
  have ps2: "passes b e (procs k2) (set_tree t2)" using ps k2(3,6) by (simp add: passes_def)
  have "t2 \<noteq> Leaf" using k2(3) ne by auto
  from stride_pick_least [OF k2(2,4) ps2 this] obtain p k3 k4 t4 where k4: "stride_pick_next k2 = (Some p, k3)"
    "p \<in> Q" "\<forall>q \<in> Q. e p \<le> e q" "stride_dequeue k3 p = Some k4" "stride_pool k4 t4" "set_tree t4 = Q - {p}"
    "heap_ordered e t4" "same_kern k2 k4" "current k3 = current k2" "idleproc k3 = idleproc k2"
    "\<forall>q. lab6_stride (procs k4 q) = (if q = p then lab6_stride (procs k2 p) + stride_step (lab6_priority (procs k2 p))
          else lab6_stride (procs k2 q))" "root_of t2 = Some p" using k2(3) by metis
  note s4 = same_kern_fields [OF k4(8)]
  have cur4: "current k4 = current k" "idleproc k4 = idleproc k" using s2 s4 by simp_all
  define k5 where "k5 = (upd_proc p (\<lambda>x. x\<lparr>p_runs := p_runs x + 1\<rparr>) k4)\<lparr>current := p\<rparr>"
  have sch: "schedule ?c k = Some k5"
  proof -
    have *: "sc_pick_next ?c k2 = (Some p, k3)" "sched_class_dequeue ?c k3 p = Some k4"
      using k4(1,4) by (simp_all add: stride_sched_class_def sched_class_dequeue_def)
    have "p = current k \<Longrightarrow> upd_proc p (\<lambda>x. x\<lparr>p_runs := p_runs x + 1\<rparr>) k4 = k5"
      using cur4 by (cases k4) (simp add: k5_def upd_proc_def)
    with * show ?thesis
      unfolding schedule_def Let_def k2(1) Option.bind.bind_lunit sched_class_pick_next_def split_conv
      by (simp add: cur4) (simp add: k5_def proc_run_def cur4)
  qed
  have f: "p_state (procs k4 q) = p_state (procs k q)" "p_runs (procs k4 q) = p_runs (procs k q)"
    "lab6_priority (procs k4 q) = lab6_priority (procs k q)" "lab6_priority (procs k2 q) = lab6_priority (procs k q)" for q
    using same_proc_fields [OF s2(11) [of q]] same_proc_fields [OF s4(11) [of q]] by auto
  have f5: "p_state (procs k5 q) = p_state (procs k q)" "lab6_priority (procs k5 q) = lab6_priority (procs k q)"
    "p_runs (procs k5 q) = p_runs (procs k q) + (if q = p then 1 else 0)"
    "lab6_stride (procs k5 q) = (if q = p then lab6_stride (procs k p) + stride_step (lab6_priority (procs k p))
       else lab6_stride (procs k q))" for q
    using f [of q] f [of p] k4(11) k2(6) by (simp_all add: k5_def)
  let ?e = "e(p := e p + unat (stride_step (lab6_priority (procs k p))))"
  have "passes b ?e (procs k5) Q"
    by (rule passes_step [OF ps k4(2,3)]) (simp_all add: f5(4) stride_step_le)
  moreover have "stride_pool k5 t4" using k4(5) by (simp add: k5_def stride_pool_def)
  moreover have "heap_ordered ?e t4" using k4(6,7) heap_ordered_cong [of t4 ?e e] by auto
  moreover have "set_tree t4 = Q - {current k5}" using k4(6) by (simp add: k5_def)
  moreover have "Q = {p. p_state (procs k5 p) = PROC_RUNNABLE \<and> p \<noteq> idleproc k5}"
    using Q f5(1) cur4 by (simp add: k5_def)
  ultimately have "stride_inv b ?e Q k5" unfolding stride_inv_def by blast
  moreover have "current k5 = p" "idleproc k5 = idleproc k" using cur4 by (simp_all add: k5_def)
  moreover have "current k \<in> Q \<and> (\<forall>q \<in> Q. e (current k) \<le> e q) \<longrightarrow> p = current k" using k2(7) k4(12) by simp
  ultimately show ?thesis using sch k4(2,3) f5 idle by (intro exI [of _ k5] exI [of _ p]) simp
qed

section \<open>Many calls\<close>

text \<open>\<open>n\<close> calls of \<open>schedule\<close>, one after the other.\<close>

primrec schedule_times :: "sched_class \<Rightarrow> nat \<Rightarrow> kern \<Rightarrow> kern option" where
  "schedule_times c 0 k = Some k"
| "schedule_times c (Suc n) k = Option.bind (schedule c k) (schedule_times c n)"


text \<open>A small system: the idle process 0, process 1 running, process 2 queued, both of priority \<open>w\<close>.\<close>

definition demo_kern :: "32 word \<Rightarrow> kern" where
  "demo_kern w = \<lparr>
     procs = \<lambda>p. fresh_proc\<lparr>p_state := if p \<le> 2 then PROC_RUNNABLE else PROC_UNINIT, lab6_priority := w\<rparr>,
     current = 1, idleproc = 0, initproc = 1,
     rq = \<lparr>run_links = \<lparr>nxt = \<lambda>x. x, prv = \<lambda>x. x\<rparr>, proc_num = 1, max_time_slice = MAX_TIME_SLICE,
            lab6_run_pool = Some 2, run_pool_links = \<lparr>parent = \<lambda>_. None, left = \<lambda>_. None, right = \<lambda>_. None\<rparr>\<rparr>,
     timers = \<lambda>_. \<lparr>t_expires = 0, t_proc = None\<rparr>, timer_links = \<lparr>nxt = \<lambda>x. x, prv = \<lambda>x. x\<rparr>,
     proc_links = \<lparr>nxt = \<lambda>x. x, prv = \<lambda>x. x\<rparr>, hash_links = \<lparr>nxt = \<lambda>x. x, prv = \<lambda>x. x\<rparr>,
     nr_process = 3, last_pid = 2, next_safe = MAX_PID\<rparr>"

lemma demo_inv: "stride_inv 0 (\<lambda>_. 0) {1, 2} (demo_kern w)"
proof -
  have "stride_pool (demo_kern w) (Node Leaf 2 Leaf)"
    by (simp add: stride_pool_def heap_tree_def demo_kern_def)
  moreover have "set_tree (Node Leaf 2 Leaf) = {1, 2} - {current (demo_kern w)}" by (auto simp: demo_kern_def)
  moreover have "{1, 2} = {p. p_state (procs (demo_kern w) p) = PROC_RUNNABLE \<and> p \<noteq> idleproc (demo_kern w)}"
    by (auto simp: demo_kern_def fresh_proc_def)
  moreover have "passes 0 (\<lambda>_. 0) (procs (demo_kern w)) {1, 2}"
    by (simp add: passes_def demo_kern_def fresh_proc_def)
  ultimately show ?thesis unfolding stride_inv_def by fastforce
qed

lemma demo_fields [simp]:
  "current (demo_kern w) = 1" "idleproc (demo_kern w) = 0"
  "p_state (procs (demo_kern w) 0) = PROC_RUNNABLE" "lab6_priority (procs (demo_kern w) p) = w"
  "p_runs (procs (demo_kern w) p) = 0"
  by (simp_all add: demo_kern_def fresh_proc_def)

section \<open>Properties\<close>

text \<open>Least stride first. With runnable processes whose strides lie in a window of \<open>BIG_STRIDE\<close> (whatever
  the wrap-around), \<open>schedule\<close> under the stride class returns, runs a process with the least stride of all
  runnable ones, charges it \<open>BIG_STRIDE / priority\<close>, and keeps heap order and window.\<close>

theorem stride_schedule_least:
  assumes "stride_inv b e Q k" "Q \<noteq> {}" "current k \<in> Q \<or> current k = idleproc k"
    and "p_state (procs k (idleproc k)) = PROC_RUNNABLE"
  shows "\<exists>k'. schedule stride_sched_class k = Some k' \<and> current k' \<in> Q \<and> (\<forall>q \<in> Q. e (current k') \<le> e q)
    \<and> stride_inv b (e(current k' := e (current k') + unat (stride_step (lab6_priority (procs k (current k')))))) Q k'"
  using stride_schedule_step [OF assms] by blast

theorem stride_schedule_least_witness:
  "\<exists>k'. schedule stride_sched_class (demo_kern 3) = Some k' \<and> current k' \<in> {1, 2}"
  using stride_schedule_least [OF demo_inv, of 3] by auto



text \<open>A priority above \<open>BIG_STRIDE\<close> gives a step of zero: once a process with such a priority runs and
  has the least stride, \<open>schedule\<close> picks it again every time and every other runnable process starves.
  \<open>lab6_set_priority\<close> accepts every 32-bit priority.\<close>

theorem stride_monopoly:
  assumes "stride_inv b e Q k" "current k \<in> Q" "\<forall>q \<in> Q. e (current k) \<le> e q"
    and "p_state (procs k (idleproc k)) = PROC_RUNNABLE" "BIG_STRIDE < lab6_priority (procs k (current k))"
  shows "\<exists>k'. schedule_times stride_sched_class n k = Some k' \<and> current k' = current k"
  using assms
proof (induction n arbitrary: k)
  case 0
  then show ?case by simp
next
  case (Suc n)
  have "current k \<in> Q \<or> current k = idleproc k" "Q \<noteq> {}" using Suc.prems(2) by auto
  from stride_schedule_step [OF Suc.prems(1) this(2,1) Suc.prems(4)] obtain k1 where k1:
    "schedule stride_sched_class k = Some k1" "current k1 = current k"
    "stride_inv b (e(current k := e (current k) + unat (stride_step (lab6_priority (procs k (current k)))))) Q k1"
    "p_state (procs k1 (idleproc k1)) = PROC_RUNNABLE"
    "lab6_priority (procs k1 (current k)) = lab6_priority (procs k (current k))"
    using Suc.prems(2,3) by metis
  have "stride_step (lab6_priority (procs k (current k))) = 0"
    using Suc.prems(5) by (auto simp: stride_step_def div_word_less)
  with k1(3) have "stride_inv b e Q k1" by simp
  with k1 Suc.IH [of k1] Suc.prems show ?case by simp
qed

theorem stride_monopoly_witness:
  "\<exists>k'. schedule_times stride_sched_class 1000 (demo_kern 0x80000000) = Some k' \<and> current k' = 1"
  using stride_monopoly [OF demo_inv, of "0x80000000" 1000] by (simp add: BIG_STRIDE_def)

end
