(* ===== verification/RoundRobin.thy ===== *)
theory RoundRobin
  imports Stride
begin

text \<open>
  \<open>kern/schedule/default_sched_c\<close>: the round robin scheduler class over the run list. Every
  operation with its assertions; the class keeps the contract of \<open>sched_policy\<close>, and
  \<open>schedule\<close> with it takes the runnable processes in turn.
\<close>

section \<open>The routines\<close>

definition RR_init :: "kern \<Rightarrow> kern" where
  "RR_init k = (let r = rq k in k\<lparr>rq := r\<lparr>run_links := list_init (run_links r) RunList, proc_num := 0\<rparr>\<rparr>)"

definition RR_enqueue :: "kern \<Rightarrow> nat \<Rightarrow> kern option" where
  "RR_enqueue k proc = do {
     kassert (list_empty (run_links (rq k)) (RunLink proc));
     let r = (rq k)\<lparr>run_links := list_add_before (run_links (rq k)) RunList (RunLink proc)\<rparr>;
     let k = upd_proc proc (fill_slice r) (k\<lparr>rq := r\<rparr>);
     let k = upd_proc proc (\<lambda>p. p\<lparr>p_rq := True\<rparr>) k;
     Some (k\<lparr>rq := (rq k)\<lparr>proc_num := proc_num (rq k) + 1\<rparr>\<rparr>)
   }"

definition RR_dequeue :: "kern \<Rightarrow> nat \<Rightarrow> kern option" where
  "RR_dequeue k proc = do {
     kassert (\<not> list_empty (run_links (rq k)) (RunLink proc) \<and> p_rq (procs k proc));
     let r = (rq k)\<lparr>run_links := list_del_init (run_links (rq k)) (RunLink proc)\<rparr>;
     Some (k\<lparr>rq := r\<lparr>proc_num := proc_num r - 1\<rparr>\<rparr>)
   }"

definition RR_pick_next :: "kern \<Rightarrow> nat option \<times> kern" where
  "RR_pick_next k =
     (let le = list_next (run_links (rq k)) RunList
      in if le \<noteq> RunList then (Some (le2run le), k) else (None, k))"

definition RR_proc_tick :: "kern \<Rightarrow> nat \<Rightarrow> kern" where
  "RR_proc_tick k proc =
     (let k = (if 0 < p_time_slice (procs k proc)
               then upd_proc proc (\<lambda>p. p\<lparr>p_time_slice := p_time_slice p - 1\<rparr>) k else k)
      in if p_time_slice (procs k proc) = 0 then upd_proc proc (\<lambda>p. p\<lparr>p_need_resched := True\<rparr>) k else k)"

definition RR_sched_class :: sched_class where
  "RR_sched_class = \<lparr>sc_init = RR_init, sc_enqueue = RR_enqueue, sc_dequeue = RR_dequeue,
     sc_pick_next = RR_pick_next, sc_proc_tick = RR_proc_tick\<rparr>"

section \<open>The run list\<close>

definition rr_list :: "kern \<Rightarrow> nat list \<Rightarrow> bool" where
  "rr_list k xs \<longleftrightarrow> dlist (run_links (rq k)) RunList (map RunLink xs)
     \<and> proc_num (rq k) = of_nat (length xs) \<and> (\<forall>p \<in> set xs. p_rq (procs k p))"

definition rr_queued :: "kern \<Rightarrow> nat set \<Rightarrow> bool" where
  "rr_queued k Q \<longleftrightarrow> (\<exists>xs. rr_list k xs \<and> set xs = Q)"

definition rr_linkable :: "kern \<Rightarrow> nat \<Rightarrow> bool" where
  "rr_linkable k p \<longleftrightarrow> nxt (run_links (rq k)) (RunLink p) = RunLink p \<and> prv (run_links (rq k)) (RunLink p) = RunLink p"

lemma dlist_no_self: "dlist d h xs \<Longrightarrow> x \<in> set xs \<Longrightarrow> nxt d x \<noteq> x"
proof -
  assume dl: "dlist d h xs" and "x \<in> set xs"
  then obtain us vs where xs: "xs = us @ x # vs" by (meson split_list)
  from dlist_next_mid [OF dl [unfolded xs]] have "nxt d x = hd (vs @ [h])" by (simp add: list_next_def)
  moreover have "x \<notin> set (vs @ [h])" using dl xs by (auto simp: dlist_def)
  moreover have "hd (vs @ [h]) \<in> set (vs @ [h])" by (cases vs) auto
  ultimately show ?thesis by metis
qed

lemma rr_linkable_notin: "rr_list k xs \<Longrightarrow> rr_linkable k p \<Longrightarrow> p \<notin> set xs"
  using dlist_no_self [of "run_links (rq k)" RunList "map RunLink xs" "RunLink p"]
  by (auto simp: rr_list_def rr_linkable_def)

lemma rr_list_unique: "rr_list k xs \<Longrightarrow> rr_list k ys \<Longrightarrow> xs = ys"
  using dlist_unique [of "run_links (rq k)" RunList "map RunLink xs" "map RunLink ys"]
  by (auto simp: rr_list_def dest: map_injective intro: injI)

lemma RR_enqueue_list:
  assumes rr: "rr_list k xs" and p: "rr_linkable k p"
  shows "\<exists>k'. RR_enqueue k p = Some k' \<and> rr_list k' (xs @ [p]) \<and> same_kern k k'
    \<and> (\<forall>q. q \<noteq> p \<longrightarrow> rr_linkable k q \<longrightarrow> rr_linkable k' q)"
proof -
  let ?d = "run_links (rq k)"
  let ?d' = "list_add_before ?d RunList (RunLink p)"
  let ?r = "(rq k)\<lparr>run_links := ?d'\<rparr>"
  let ?k' = "k\<lparr>procs := (procs k)(p := (fill_slice ?r (procs k p))\<lparr>p_rq := True\<rparr>),
    rq := ?r\<lparr>proc_num := proc_num (rq k) + 1\<rparr>\<rparr>"
  have dl: "dlist ?d RunList (map RunLink xs)" using rr by (simp add: rr_list_def)
  have np: "p \<notin> set xs" using rr p by (rule rr_linkable_notin)
  have "dlist ?d' RunList (map RunLink xs @ [RunLink p])"
    by (rule dlist_add_tail [OF dl]) (use np in auto)
  then have "rr_list ?k' (xs @ [p])" using rr by (auto simp: rr_list_def)
  moreover have "RR_enqueue k p = Some ?k'"
    using p by (simp add: RR_enqueue_def rr_linkable_def list_empty_def upd_proc_def Let_def)
  moreover have "same_kern k ?k'" by (rule same_kern_upd) simp
  moreover have "rr_linkable ?k' q" if "q \<noteq> p" "rr_linkable k q" for q
  proof -
    have "prv ?d RunList \<noteq> RunLink q"
      using dlist_prev_head [OF dl] rr_linkable_notin [OF rr that(2)]
      by (cases xs rule: rev_cases) (auto simp: list_prev_def)
    with that show ?thesis by (auto simp: rr_linkable_def list_add_before_def list_add_link_def Let_def)
  qed
  ultimately show ?thesis by blast
qed

lemma RR_dequeue_first:
  assumes rr: "rr_list k (p # xs)"
  shows "\<exists>k'. RR_pick_next k = (Some p, k) \<and> RR_dequeue k p = Some k' \<and> rr_list k' xs \<and> same_kern k k'
    \<and> rr_linkable k' p \<and> (\<forall>q. rr_linkable k q \<longrightarrow> rr_linkable k' q)"
proof -
  let ?d = "run_links (rq k)"
  let ?d' = "list_del_init ?d (RunLink p)"
  let ?k' = "k\<lparr>rq := (rq k)\<lparr>run_links := ?d', proc_num := proc_num (rq k) - 1\<rparr>\<rparr>"
  have dl: "dlist ?d RunList (map RunLink (p # xs))" using rr by (simp add: rr_list_def)
  have ne: "nxt ?d (RunLink p) \<noteq> RunLink p" using dlist_no_self [OF dl] by simp
  have "dlist ?d' RunList (map RunLink xs)"
    using dlist_del_init(1) [of ?d RunList "[]" "RunLink p" "map RunLink xs"] dl by simp
  then have "rr_list ?k' xs" using rr by (simp add: rr_list_def)
  moreover have "RR_dequeue k p = Some ?k'"
    using rr ne by (simp add: RR_dequeue_def list_empty_def rr_list_def Let_def)
  moreover have "RR_pick_next k = (Some p, k)"
    using dlist_next_head [OF dl] by (simp add: RR_pick_next_def Let_def)
  moreover have "same_kern k ?k'" by (simp add: same_kern_def)
  moreover have "rr_linkable ?k' p" by (simp add: rr_linkable_def list_del_init_def list_init_def)
  moreover have "rr_linkable ?k' q" if q: "rr_linkable k q" for q
  proof (cases "q = p")
    case False
    have q': "q \<notin> set (p # xs)" using rr q by (rule rr_linkable_notin)
    have "nxt ?d (RunLink p) \<in> insert RunList (RunLink ` set xs)" "prv ?d (RunLink p) = RunList"
      using dlist_next_mid [of ?d RunList "[]" "RunLink p" "map RunLink xs"]
        dlist_prev_mid [of ?d RunList "[]" "RunLink p" "map RunLink xs"] dl
      by (cases xs; simp add: list_next_def list_prev_def)+
    with q q' False show ?thesis
      by (auto simp: rr_linkable_def list_del_init_def list_init_def list_del_def list_del_link_def Let_def)
  qed (use calculation in simp)
  ultimately show ?thesis by blast
qed

interpretation rr: sched_policy RR_sched_class rr_queued rr_linkable
proof unfold_locales
  fix k k' :: kern and Q A B :: "nat set" and p q :: nat
  show "rr_queued (sc_init RR_sched_class k) {}"
    unfolding rr_queued_def
    by (rule exI [of _ "[]"]) (simp add: rr_list_def RR_sched_class_def RR_init_def Let_def list_init_def)
  show "same_kern k (sc_init RR_sched_class k)"
    by (simp add: RR_sched_class_def RR_init_def same_kern_def Let_def)
  show "rr_queued k A \<Longrightarrow> rr_queued k B \<Longrightarrow> A = B"
    by (auto simp: rr_queued_def dest: rr_list_unique)
  show "rr_queued k' Q" if "rq k' = rq k" "\<forall>p \<in> Q. p_rq (procs k' p) = p_rq (procs k p)" "rr_queued k Q"
    using that unfolding rr_queued_def rr_list_def by auto
  show "rq k' = rq k \<Longrightarrow> rr_linkable k p \<Longrightarrow> rr_linkable k' p" by (simp add: rr_linkable_def)
  show "\<exists>k'. sc_enqueue RR_sched_class k p = Some k' \<and> rr_queued k' (insert p Q) \<and> same_kern k k'
      \<and> (\<forall>q. q \<noteq> p \<longrightarrow> rr_linkable k q \<longrightarrow> rr_linkable k' q)" if q: "rr_queued k Q" "rr_linkable k p"
  proof -
    from q(1) obtain xs where xs: "rr_list k xs" "set xs = Q" by (auto simp: rr_queued_def)
    obtain k' where *: "RR_enqueue k p = Some k'" "rr_list k' (xs @ [p])" "same_kern k k'"
      "\<forall>q. q \<noteq> p \<longrightarrow> rr_linkable k q \<longrightarrow> rr_linkable k' q" using RR_enqueue_list [OF xs(1) q(2)] by blast
    have "rr_queued k' (insert p Q)" unfolding rr_queued_def using *(2) xs(2) by (intro exI [of _ "xs @ [p]"]) simp
    with * show ?thesis by (intro exI [of _ k']) (simp add: RR_sched_class_def)
  qed
  show "sc_pick_next RR_sched_class k = (None, k)" if "rr_queued k {}"
    using that by (auto simp: rr_queued_def rr_list_def RR_sched_class_def RR_pick_next_def list_next_def)
  show "\<exists>p k' k''. sc_pick_next RR_sched_class k = (Some p, k') \<and> p \<in> Q \<and> sc_dequeue RR_sched_class k' p = Some k''
      \<and> rr_queued k'' (Q - {p}) \<and> same_kern k k'' \<and> current k' = current k \<and> idleproc k' = idleproc k
      \<and> rr_linkable k'' p \<and> (\<forall>q. rr_linkable k q \<longrightarrow> rr_linkable k'' q)" if q: "rr_queued k Q" "Q \<noteq> {}"
  proof -
    from q obtain p xs where xs: "rr_list k (p # xs)" "set (p # xs) = Q"
      by (metis list.exhaust list.set(1) rr_queued_def)
    obtain k'' where *: "RR_pick_next k = (Some p, k)" "RR_dequeue k p = Some k''" "rr_list k'' xs" "same_kern k k''"
      "rr_linkable k'' p" "\<forall>q. rr_linkable k q \<longrightarrow> rr_linkable k'' q" using RR_dequeue_first [OF xs(1)] by blast
    have "distinct (p # xs)" using xs(1) by (auto simp: rr_list_def dlist_def distinct_map)
    then have "rr_queued k'' (Q - {p})" unfolding rr_queued_def using *(3) xs(2) by (intro exI [of _ xs]) auto
    with * xs(2) show ?thesis by (intro exI [of _ p] exI [of _ k] exI [of _ k'']) (auto simp: RR_sched_class_def)
  qed
  have tick: "\<exists>f. RR_proc_tick k p = upd_proc p f k \<and> (\<forall>x. same_proc x (f x) \<and> p_rq (f x) = p_rq x)"
  proof -
    have sp: "same_proc x (x\<lparr>p_time_slice := t, p_need_resched := b\<rparr>)" for x t b by (cases x) (simp add: same_proc_def)
    let ?t = "\<lambda>x. if 0 < p_time_slice x then p_time_slice x - 1 else p_time_slice x"
    let ?f = "\<lambda>x. x\<lparr>p_time_slice := ?t x, p_need_resched := (?t x = 0 \<or> p_need_resched x)\<rparr>"
    have "RR_proc_tick k p = upd_proc p ?f k"
      by (cases k) (auto simp: RR_proc_tick_def upd_proc_def Let_def)
    then show ?thesis using sp by (intro exI [of _ ?f]) simp
  qed
  show "rr_queued (sc_proc_tick RR_sched_class k p) Q \<and> same_kern k (sc_proc_tick RR_sched_class k p)"
    if "rr_queued k Q"
  proof -
    from tick obtain f where f: "RR_proc_tick k p = upd_proc p f k" "\<forall>x. same_proc x (f x) \<and> p_rq (f x) = p_rq x" by blast
    have "same_kern k (upd_proc p f k)" using f(2) by (simp add: same_kern_def upd_proc_def)
    moreover have "rr_queued (upd_proc p f k) Q" using that f(2) unfolding rr_queued_def rr_list_def by auto
    ultimately show ?thesis by (simp add: f(1) RR_sched_class_def)
  qed
  show "rr_linkable k q \<Longrightarrow> rr_linkable (sc_proc_tick RR_sched_class k p) q"
    using tick by (auto simp: RR_sched_class_def rr_linkable_def)
qed

section \<open>Taking turns\<close>

text \<open>\<open>rr_turn k zs\<close>: \<open>zs\<close> lists the runnable processes in the order of their turns; the first one runs,
  the others wait in the run list.\<close>

definition rr_turn :: "kern \<Rightarrow> nat list \<Rightarrow> bool" where
  "rr_turn k zs \<longleftrightarrow> zs \<noteq> [] \<and> current k = hd zs \<and> rr_list k (tl zs) \<and> rr_linkable k (hd zs)
     \<and> (\<forall>p \<in> set zs. p_state (procs k p) = PROC_RUNNABLE \<and> p \<noteq> idleproc k)"

lemma rr_schedule_turn:
  assumes "rr_turn k (z # zs)"
  shows "\<exists>k'. schedule RR_sched_class k = Some k' \<and> rr_turn k' (zs @ [z])
    \<and> (\<forall>p. p_state (procs k' p) = p_state (procs k p))"
proof -
  let ?k1 = "upd_proc z (\<lambda>p. p\<lparr>p_need_resched := False\<rparr>) k"
  from assms have z: "current k = z" "rr_list k zs" "rr_linkable k z"
    "\<forall>p \<in> set (z # zs). p_state (procs k p) = PROC_RUNNABLE \<and> p \<noteq> idleproc k" by (auto simp: rr_turn_def)
  have "rr_list ?k1 zs" "rr_linkable ?k1 z" using z(2,3) by (auto simp: rr_list_def rr_linkable_def)
  from RR_enqueue_list [OF this] obtain k2 where k2: "RR_enqueue ?k1 z = Some k2" "rr_list k2 (zs @ [z])"
    "same_kern ?k1 k2" by blast
  obtain n ns where n: "zs @ [z] = n # ns" by (cases zs) auto
  from RR_dequeue_first [OF k2(2) [unfolded n]] obtain k4 where k4: "RR_pick_next k2 = (Some n, k2)"
    "RR_dequeue k2 n = Some k4" "rr_list k4 ns" "same_kern k2 k4" "rr_linkable k4 n" by blast
  note s2 = same_kern_fields [OF k2(3)] and s4 = same_kern_fields [OF k4(4)]
  have cur4: "current k4 = z" "idleproc k4 = idleproc k" using s2 s4 z(1) by simp_all
  define k5 where "k5 = (upd_proc n (\<lambda>x. x\<lparr>p_runs := p_runs x + 1\<rparr>) k4)\<lparr>current := n\<rparr>"
  have "schedule RR_sched_class k = Some k5"
  proof -
    have *: "sched_class_enqueue RR_sched_class ?k1 z = Some k2" "sched_class_pick_next RR_sched_class k2 = (Some n, k2)"
      "sched_class_dequeue RR_sched_class k2 n = Some k4"
      using k2(1) k4(1,2) z(4)
      by (simp_all add: sched_class_enqueue_def sched_class_pick_next_def sched_class_dequeue_def RR_sched_class_def)
    have "n = z \<Longrightarrow> upd_proc n (\<lambda>x. x\<lparr>p_runs := p_runs x + 1\<rparr>) k4 = k5"
      using cur4 by (cases k4) (simp add: k5_def upd_proc_def)
    with * z(1,4) show ?thesis
      by (simp add: schedule_def Let_def cur4) (simp add: k5_def proc_run_def cur4)
  qed
  moreover have st: "p_state (procs k5 p) = p_state (procs k p)" for p
    using same_proc_fields [OF s2(11) [of p]] same_proc_fields [OF s4(11) [of p]]
    by (auto simp: k5_def split: if_splits)
  moreover have "rr_turn k5 (n # ns)"
  proof -
    have "set (n # ns) = set (z # zs)" using n by (metis rotate1.simps(2) set_rotate1)
    with z(4) st cur4 have "\<forall>p \<in> set (n # ns). p_state (procs k5 p) = PROC_RUNNABLE \<and> p \<noteq> idleproc k5"
      by (simp add: k5_def)
    moreover have "rr_list k5 ns" "rr_linkable k5 n"
      using k4(3,5) by (auto simp: k5_def rr_list_def rr_linkable_def)
    ultimately show ?thesis by (simp add: rr_turn_def k5_def)
  qed
  ultimately show ?thesis using n by (intro exI [of _ k5]) simp
qed

section \<open>Properties\<close>

text \<open>C11: Round robin. With the processes \<open>zs\<close> runnable, the first of them running and the others queued in
  order, \<open>n\<close> calls of \<open>schedule\<close> return and the process then running is the one at position \<open>n\<close> modulo
  their number: every process runs once in every round, in a fixed order.\<close>

theorem rr_schedule_rotates:
  assumes "rr_turn k zs"
  shows "\<exists>k'. schedule_times RR_sched_class n k = Some k' \<and> rr_turn k' (rotate n zs)
    \<and> current k' = zs ! (n mod length zs)"
proof -
  have "\<exists>k'. schedule_times RR_sched_class n k = Some k' \<and> rr_turn k' (rotate n zs)"
    using assms
  proof (induction n arbitrary: k zs)
    case (Suc n)
    obtain y ys where y: "zs = y # ys" using Suc.prems by (cases zs) (auto simp: rr_turn_def)
    with Suc.prems rr_schedule_turn [of k y ys] obtain k1 where
      "schedule RR_sched_class k = Some k1" "rr_turn k1 (rotate1 zs)" by auto
    with Suc.IH [of k1 "rotate1 zs"] show ?case by (simp add: rotate1_rotate_swap)
  qed simp
  moreover have "hd (rotate n zs) = zs ! (n mod length zs)"
    using assms by (simp add: rr_turn_def hd_rotate_conv_nth)
  ultimately show ?thesis by (auto simp: rr_turn_def)
qed

text \<open>A run list with process 2 in it, process 1 running.\<close>

definition demo_rr :: kern where
  "demo_rr = (let k = demo_kern 1; r = rq k; d = run_links r in
     upd_proc 2 (\<lambda>p. p\<lparr>p_rq := True\<rparr>) (k\<lparr>rq := r\<lparr>run_links := list_add (list_init d RunList) RunList (RunLink 2)\<rparr>\<rparr>))"

lemma demo_rr_turn: "rr_turn demo_rr [1, 2]"
proof -
  have "dlist (list_add (list_init (run_links (rq (demo_kern 1))) RunList) RunList (RunLink 2)) RunList [RunLink 2]"
    by (rule dlist_add_head [OF dlist_init]) simp
  then have "rr_list demo_rr [2]"
    by (simp add: rr_list_def demo_rr_def Let_def) (simp add: demo_kern_def)
  moreover have "rr_linkable demo_rr 1"
    by (simp add: rr_linkable_def demo_rr_def demo_kern_def Let_def list_h_defs)
  ultimately show ?thesis by (simp add: rr_turn_def demo_rr_def Let_def) (simp add: demo_kern_def fresh_proc_def)
qed

theorem rr_schedule_rotates_witness:
  "\<exists>k'. schedule_times RR_sched_class 7 demo_rr = Some k' \<and> current k' = 2"
proof -
  have "[1, 2::nat] ! (7 mod length [1, 2::nat]) = 2" by code_simp
  then show ?thesis using rr_schedule_rotates [OF demo_rr_turn, of 7] by metis
qed

text \<open>The two scheduler classes, each with what it calls a queue and a linkable process.\<close>

definition policies :: "(sched_class \<times> (kern \<Rightarrow> nat set \<Rightarrow> bool) \<times> (kern \<Rightarrow> nat \<Rightarrow> bool)) set" where
  "policies = {(stride_sched_class, stride_queued, \<lambda>_ _. True), (RR_sched_class, rr_queued, rr_linkable)}"

text \<open>C10: The scheduler core is correct for round robin and for stride alike. Let the idle process be runnable and the scheduler's
  invariant hold: the run queue is well formed and holds exactly the runnable processes that neither run nor idle, and, for round
  robin, the run link of every other process points to itself, as \<open>RR_enqueue\<close> asserts (\<open>alloc_proc\<close> leaves it null, so this is not
  so of a process that was never initialised). Then \<open>schedule\<close> returns with the invariant true of its result, runs a runnable
  process, leaves every process state alone, and runs the idle process only when nothing else is runnable.\<close>

theorem schedule_sound:
  assumes "(c, queued, linkable) \<in> policies" "sched_inv queued linkable k"
    and "p_state (procs k (idleproc k)) = PROC_RUNNABLE"
  shows "\<exists>k'. schedule c k = Some k' \<and> sched_inv queued linkable k'
    \<and> (\<forall>p. p_state (procs k' p) = p_state (procs k p)) \<and> p_state (procs k' (current k')) = PROC_RUNNABLE
    \<and> (current k' = idleproc k' \<longleftrightarrow> (\<forall>p. p_state (procs k p) = PROC_RUNNABLE \<longrightarrow> p = idleproc k))"
proof -
  consider "c = stride_sched_class" "queued = stride_queued" "linkable = (\<lambda>_ _. True)"
    | "c = RR_sched_class" "queued = rr_queued" "linkable = rr_linkable"
    using assms(1) by (auto simp: policies_def)
  then show ?thesis
  proof cases
    case 1
    show ?thesis using st.schedule_ok [of k] assms(2,3) unfolding 1 by blast
  next
    case 2
    show ?thesis using rr.schedule_ok [of k] assms(2,3) unfolding 2 by blast
  qed
qed

lemma demo_rr_sched: "sched_inv rr_queued rr_linkable demo_rr" "p_state (procs demo_rr (idleproc demo_rr)) = PROC_RUNNABLE"
  "p_state (procs demo_rr 2) = PROC_RUNNABLE" "idleproc demo_rr = 0" "current demo_rr = 1"
  "p_state (procs demo_rr 3) = PROC_UNINIT"
proof -
  have "ready demo_rr = {2}" by (auto simp: ready_def demo_rr_def demo_kern_def Let_def fresh_proc_def)
  moreover have "rr_list demo_rr [2]" using demo_rr_turn by (simp add: rr_turn_def)
  then have "rr_queued demo_rr {2}" unfolding rr_queued_def by (intro exI [of _ "[2]"]) simp
  moreover have "rr_linkable demo_rr p" if "p \<noteq> 2" for p
    using that by (simp add: rr_linkable_def demo_rr_def demo_kern_def Let_def list_h_defs)
  ultimately show "sched_inv rr_queued rr_linkable demo_rr" by (simp add: sched_inv_def)
qed (simp_all add: demo_rr_def demo_kern_def Let_def fresh_proc_def)

theorem schedule_sound_witness:
  "\<exists>k'. schedule RR_sched_class demo_rr = Some k' \<and> current k' \<noteq> idleproc k'"
  using schedule_sound [of RR_sched_class rr_queued rr_linkable demo_rr] demo_rr_sched
  by (auto simp: policies_def)

text \<open>Waking a process up under either class: \<open>wakeup_proc\<close> panics exactly on a zombie; otherwise the
  process becomes runnable, is queued unless it runs or is the idle process, loses its wait state, and
  no other process changes.\<close>

theorem wakeup_sound:
  assumes "(c, queued, linkable) \<in> policies" "sched_inv queued linkable k"
  shows "case wakeup_proc c k p of
      None \<Rightarrow> p_state (procs k p) = PROC_ZOMBIE
    | Some k' \<Rightarrow> p_state (procs k p) \<noteq> PROC_ZOMBIE \<and> sched_inv queued linkable k'
        \<and> p_state (procs k' p) = PROC_RUNNABLE \<and> current k' = current k
        \<and> (p_state (procs k p) \<noteq> PROC_RUNNABLE \<longrightarrow> p_wait_state (procs k' p) = 0)
        \<and> (\<forall>q. q \<noteq> p \<longrightarrow> p_state (procs k' q) = p_state (procs k q))"
proof (cases "p_state (procs k p) = PROC_ZOMBIE")
  case True
  then show ?thesis by (simp add: wakeup_proc_def)
next
  case False
  consider "c = stride_sched_class" "queued = stride_queued" "linkable = (\<lambda>_ _. True)"
    | "c = RR_sched_class" "queued = rr_queued" "linkable = rr_linkable"
    using assms(1) by (auto simp: policies_def)
  then obtain k' where "wakeup_proc c k p = Some k'" "sched_inv queued linkable k'"
    "p_state (procs k' p) = PROC_RUNNABLE" "current k' = current k"
    "p_state (procs k p) \<noteq> PROC_RUNNABLE \<longrightarrow> p_wait_state (procs k' p) = 0"
    "\<forall>q. q \<noteq> p \<longrightarrow> same_proc (procs k q) (procs k' q)"
  proof cases
    case 1
    with st.wakeup_ok [of k p] assms(2) False that show ?thesis by blast
  next
    case 2
    with rr.wakeup_ok [of k p] assms(2) False that show ?thesis by blast
  qed
  with False show ?thesis using same_proc_fields by auto
qed

theorem wakeup_sound_witness:
  "\<exists>k'. wakeup_proc RR_sched_class demo_rr 3 = Some k' \<and> p_state (procs k' 3) = PROC_RUNNABLE"
  using wakeup_sound [of RR_sched_class rr_queued rr_linkable demo_rr 3] demo_rr_sched
  by (auto simp: policies_def split: option.splits)

text \<open>\<open>alloc_proc\<close> clears the run link of a new process to null instead of initialising it, so under
  the round robin class (and the list variant of the stride class) the assertion of \<open>RR_enqueue\<close> fails
  the first time a new process is woken: \<open>wakeup_proc\<close> panics.\<close>

theorem rr_wakeup_fresh_panics:
  assumes "alloc_proc k (Some p) = (Some p, k')" "p \<noteq> current k" "p \<noteq> idleproc k"
  shows "wakeup_proc RR_sched_class k' p = None"
proof -
  have k': "k' = snd (alloc_proc k (Some p))" using assms(1) by simp
  have "nxt (run_links (rq k')) (RunLink p) = RunNull" "p_state (procs k' p) = PROC_UNINIT"
    "current k' = current k" "idleproc k' = idleproc k"
    unfolding k' by (simp_all add: alloc_proc_def Let_def fresh_proc_def)
  with assms(2,3) show ?thesis
    by (simp add: wakeup_proc_def sched_class_enqueue_def RR_sched_class_def RR_enqueue_def list_empty_def Let_def)
qed

theorem rr_wakeup_fresh_panics_witness:
  "\<exists>k'. alloc_proc demo_rr (Some 7) = (Some 7, k') \<and> wakeup_proc RR_sched_class k' 7 = None"
proof -
  have "alloc_proc demo_rr (Some 7) = (Some 7, snd (alloc_proc demo_rr (Some 7)))"
    by (simp add: alloc_proc_def Let_def)
  with rr_wakeup_fresh_panics [OF this] show ?thesis by (auto simp: demo_rr_def demo_kern_def Let_def)
qed

end
