(* ===== verification/Timer.thy ===== *)
theory Timer
  imports RoundRobin
begin

text \<open>
  The timers of \<open>kern/schedule/sched.c\<close>. The timer list is kept as differences: each timer
  stores how much later than its predecessor it expires. \<open>due\<close> recovers the absolute number of
  ticks; the lemmas show that insertion and deletion keep the absolute times of all other timers,
  and that a tick takes one off every timer and wakes exactly those that reach zero.
\<close>

section \<open>The routines\<close>

definition timer_init :: "kern \<Rightarrow> nat \<Rightarrow> nat \<Rightarrow> 32 word \<Rightarrow> kern" where
  "timer_init k t proc expires =
     k\<lparr>timers := (timers k)(t := \<lparr>t_expires = expires, t_proc = Some proc\<rparr>),
       timer_links := list_init (timer_links k) (TimerLink t)\<rparr>"

definition set_expires :: "(nat \<Rightarrow> timer) \<Rightarrow> nat \<Rightarrow> 32 word \<Rightarrow> (nat \<Rightarrow> timer)" where
  "set_expires ts t w = ts(t := (ts t)\<lparr>t_expires := w\<rparr>)"

text \<open>The loop of \<open>add_timer\<close>: \<open>timer\<close> moves past every timer that expires no later.\<close>

partial_function (option) add_timer_loop ::
  "tle dll \<Rightarrow> nat \<Rightarrow> (nat \<Rightarrow> timer) \<Rightarrow> tle \<Rightarrow> ((nat \<Rightarrow> timer) \<times> tle) option" where
  "add_timer_loop d timer ts le =
     (if le = TimerList then Some (ts, le)
      else let next = le2timer le in
        if t_expires (ts timer) < t_expires (ts next) then
          Some (set_expires ts next (t_expires (ts next) - t_expires (ts timer)), le)
        else add_timer_loop d timer (set_expires ts timer (t_expires (ts timer) - t_expires (ts next))) (list_next d le))"

declare add_timer_loop.simps [code]

definition add_timer :: "kern \<Rightarrow> nat \<Rightarrow> kern option" where
  "add_timer k timer = do {
     kassert (0 < t_expires (timers k timer) \<and> t_proc (timers k timer) \<noteq> None);
     kassert (list_empty (timer_links k) (TimerLink timer));
     (ts, le) \<leftarrow> add_timer_loop (timer_links k) timer (timers k) (list_next (timer_links k) TimerList);
     Some (k\<lparr>timers := ts, timer_links := list_add_before (timer_links k) le (TimerLink timer)\<rparr>)
   }"

definition del_timer :: "kern \<Rightarrow> nat \<Rightarrow> kern" where
  "del_timer k timer =
     (if list_empty (timer_links k) (TimerLink timer) then k
      else
        let ts = (if t_expires (timers k timer) \<noteq> 0 then
                    case list_next (timer_links k) (TimerLink timer) of
                      TimerList \<Rightarrow> timers k
                    | TimerLink next \<Rightarrow>
                        set_expires (timers k) next (t_expires (timers k next) + t_expires (timers k timer))
                  else timers k)
        in k\<lparr>timers := ts, timer_links := list_del_init (timer_links k) (TimerLink timer)\<rparr>)"

text \<open>The loop of \<open>run_timer_list\<close> over the expired timers.\<close>

partial_function (option) run_expired :: "sched_class \<Rightarrow> kern \<Rightarrow> nat \<Rightarrow> tle \<Rightarrow> kern option" where
  "run_expired c k timer le =
     (if t_expires (timers k timer) = 0 then do {
        let le = list_next (timer_links k) le;
        proc \<leftarrow> t_proc (timers k timer);
        kassert (p_wait_state (procs k proc) \<noteq> 0 \<longrightarrow> p_wait_state (procs k proc) AND WT_INTERRUPTED \<noteq> 0);
        k \<leftarrow> wakeup_proc c k proc;
        let k = del_timer k timer;
        if le = TimerList then Some k else run_expired c k (le2timer le) le
      } else Some k)"

declare run_expired.simps [code]

definition run_timer_list :: "sched_class \<Rightarrow> kern \<Rightarrow> kern option" where
  "run_timer_list c k = do {
     let le = list_next (timer_links k) TimerList;
     k \<leftarrow> (if le \<noteq> TimerList then do {
              let timer = le2timer le;
              kassert (t_expires (timers k timer) \<noteq> 0);
              let k = k\<lparr>timers := set_expires (timers k) timer (t_expires (timers k timer) - 1)\<rparr>;
              run_expired c k timer le
            } else Some k);
     Some (sched_class_proc_tick c k (current k))
   }"

section \<open>Absolute times\<close>

definition ticks :: "(nat \<Rightarrow> timer) \<Rightarrow> nat \<Rightarrow> nat" where
  "ticks ts t = unat (t_expires (ts t))"

definition due :: "(nat \<Rightarrow> timer) \<Rightarrow> nat list \<Rightarrow> nat \<Rightarrow> nat" where
  "due ts xs t = sum_list (map (ticks ts) (takeWhile (\<lambda>u. u \<noteq> t) xs)) + ticks ts t"

text \<open>The timer list is well formed: linked, the first timer in the future, and no absolute time
  beyond the width of the counter.\<close>

definition timer_list :: "kern \<Rightarrow> nat list \<Rightarrow> bool" where
  "timer_list k xs \<longleftrightarrow> dlist (timer_links k) TimerList (map TimerLink xs)
     \<and> (\<forall>t ts. xs = t # ts \<longrightarrow> 0 < ticks (timers k) t) \<and> sum_list (map (ticks (timers k)) xs) < 2 ^ 32"

lemma due_Cons: "due ts (x # xs) t = (if x = t then ticks ts t else ticks ts x + due ts xs t)"
  by (simp add: due_def)

lemma due_append:
  "due ts (us @ vs) t = (if t \<in> set us then due ts us t else sum_list (map (ticks ts) us) + due ts vs t)"
  by (induction us) (auto simp: due_Cons)

lemma due_cong:
  "\<forall>x \<in> set xs. ticks ts' x = ticks ts x \<Longrightarrow> t \<in> set xs \<Longrightarrow> due ts' xs t = due ts xs t"
  by (induction xs) (auto simp: due_Cons)

lemma sum_ticks_cong: "\<forall>x \<in> set xs. ticks ts' x = ticks ts x \<Longrightarrow>
    sum_list (map (ticks ts') xs) = sum_list (map (ticks ts) xs)"
  by (intro arg_cong [of _ _ sum_list] map_cong) auto

lemma ticks_set [simp]: "ticks (set_expires ts u w) t = (if t = u then unat w else ticks ts t)"
  by (simp add: ticks_def set_expires_def)

lemma less_ticks: "t_expires (ts t) < t_expires (ts u) \<longleftrightarrow> ticks ts t < ticks ts u"
  by (simp add: ticks_def word_less_nat_alt)

lemma ticks_sub: "ticks ts u \<le> ticks ts t \<Longrightarrow> unat (t_expires (ts t) - t_expires (ts u)) = ticks ts t - ticks ts u"
  by (simp add: ticks_def unat_sub word_le_nat_alt)

lemma ticks_add: "ticks ts u + ticks ts t < 2 ^ 32 \<Longrightarrow> unat (t_expires (ts t) + t_expires (ts u)) = ticks ts t + ticks ts u"
  using unat_add_lem [of "t_expires (ts t)" "t_expires (ts u)"] by (simp add: ticks_def)

lemma t_proc_set [simp]: "t_proc (set_expires ts u w x) = t_proc (ts x)"
  by (simp add: set_expires_def)

section \<open>Insertion\<close>

text \<open>Started at the timers \<open>vs\<close>, the loop stops between \<open>ws\<close>, which expire no later than \<open>t\<close>, and
  \<open>zs\<close>, which expire later; \<open>t\<close> and the first of \<open>zs\<close> are adjusted.\<close>

lemma add_timer_loop_split:
  "linked d a (map TimerLink vs) TimerList \<Longrightarrow> distinct (t # vs) \<Longrightarrow>
   \<exists>ws zs ts'. vs = ws @ zs \<and> add_timer_loop d t ts (hd (map TimerLink vs @ [TimerList])) =
       Some (ts', hd (map TimerLink zs @ [TimerList]))
     \<and> sum_list (map (ticks ts) ws) \<le> ticks ts t \<and> ticks ts' t = ticks ts t - sum_list (map (ticks ts) ws)
     \<and> (\<forall>x. x \<noteq> t \<and> (zs = [] \<or> x \<noteq> hd zs) \<longrightarrow> ticks ts' x = ticks ts x)
     \<and> (zs \<noteq> [] \<longrightarrow> ticks ts' t < ticks ts (hd zs) \<and> ticks ts' (hd zs) = ticks ts (hd zs) - ticks ts' t)
     \<and> (\<forall>x. t_proc (ts' x) = t_proc (ts x))"
proof (induction vs arbitrary: a ts)
  case Nil
  then show ?case by (simp add: add_timer_loop.simps)
next
  case (Cons v vs)
  show ?case
  proof (cases "ticks ts t < ticks ts v")
    case True
    have "add_timer_loop d t ts (TimerLink v) =
        Some (set_expires ts v (t_expires (ts v) - t_expires (ts t)), TimerLink v)"
      using True by (subst add_timer_loop.simps) (simp add: less_ticks)
    with True Cons.prems show ?thesis
      by (intro exI [of _ "[]"] exI [of _ "v # vs"] exI [of _ "set_expires ts v (t_expires (ts v) - t_expires (ts t))"])
        (auto simp: ticks_sub)
  next
    case False
    let ?ts = "set_expires ts t (t_expires (ts t) - t_expires (ts v))"
    have l: "linked d (TimerLink v) (map TimerLink vs) TimerList" using Cons.prems(1) by simp
    have nx: "list_next d (TimerLink v) = hd (map TimerLink vs @ [TimerList])"
      using linked_first [OF l] by (simp add: list_next_def)
    have step: "add_timer_loop d t ts (TimerLink v) = add_timer_loop d t ?ts (hd (map TimerLink vs @ [TimerList]))"
      using False nx by (subst add_timer_loop.simps) (simp add: less_ticks)
    have dis: "distinct (t # vs)" using Cons.prems(2) by auto
    have tk: "ticks ?ts t = ticks ts t - ticks ts v" "\<And>x. x \<noteq> t \<Longrightarrow> ticks ?ts x = ticks ts x"
      using False by (simp_all add: ticks_sub)
    have pr: "t_proc (?ts x) = t_proc (ts x)" for x by (simp add: set_expires_def)
    from Cons.IH [OF l dis, of ?ts] obtain ws zs ts' where *: "vs = ws @ zs"
      "add_timer_loop d t ?ts (hd (map TimerLink vs @ [TimerList])) = Some (ts', hd (map TimerLink zs @ [TimerList]))"
      "sum_list (map (ticks ?ts) ws) \<le> ticks ?ts t" "ticks ts' t = ticks ?ts t - sum_list (map (ticks ?ts) ws)"
      "\<forall>x. x \<noteq> t \<and> (zs = [] \<or> x \<noteq> hd zs) \<longrightarrow> ticks ts' x = ticks ?ts x"
      "zs \<noteq> [] \<longrightarrow> ticks ts' t < ticks ?ts (hd zs) \<and> ticks ts' (hd zs) = ticks ?ts (hd zs) - ticks ts' t"
      "\<forall>x. t_proc (ts' x) = t_proc (?ts x)" by blast
    have ws: "sum_list (map (ticks ?ts) ws) = sum_list (map (ticks ts) ws)"
      using *(1) dis by (intro sum_ticks_cong ballI tk(2)) auto
    have hz: "zs \<noteq> [] \<Longrightarrow> hd zs \<noteq> t" using *(1) dis by (cases zs) auto
    show ?thesis
    proof (rule exI [of _ "v # ws"], rule exI [of _ zs], rule exI [of _ ts'], intro conjI)
      show "v # vs = (v # ws) @ zs" using *(1) by simp
      show "add_timer_loop d t ts (hd (map TimerLink (v # vs) @ [TimerList])) = Some (ts', hd (map TimerLink zs @ [TimerList]))"
        using step *(2) by simp
      show "sum_list (map (ticks ts) (v # ws)) \<le> ticks ts t"
        using *(3) False by (simp only: ws tk(1)) simp
      show "ticks ts' t = ticks ts t - sum_list (map (ticks ts) (v # ws))"
        using *(4) by (simp only: ws tk(1)) simp
      show "\<forall>x. x \<noteq> t \<and> (zs = [] \<or> x \<noteq> hd zs) \<longrightarrow> ticks ts' x = ticks ts x"
        using *(5) by simp
      show "zs \<noteq> [] \<longrightarrow> ticks ts' t < ticks ts (hd zs) \<and> ticks ts' (hd zs) = ticks ts (hd zs) - ticks ts' t"
        using *(6) hz by simp
      show "\<forall>x. t_proc (ts' x) = t_proc (ts x)" using *(7) pr by simp
    qed
  qed
qed

text \<open>\<open>add_timer\<close> on a well-formed list: the new timer is due in \<open>T\<close> ticks, behind the timers due no
  later and before those due later, and no other absolute time changes.\<close>

lemma add_timer_list:
  assumes tl: "timer_list k xs" and t: "list_empty (timer_links k) (TimerLink t)"
    and T: "0 < ticks (timers k) t" "t_proc (timers k t) \<noteq> None"
  shows "\<exists>k' us vs. add_timer k t = Some k' \<and> xs = us @ vs \<and> timer_list k' (us @ t # vs)
    \<and> due (timers k') (us @ t # vs) t = ticks (timers k) t
    \<and> (\<forall>x \<in> set xs. due (timers k') (us @ t # vs) x = due (timers k) xs x)
    \<and> (\<forall>x \<in> set us. due (timers k) xs x \<le> ticks (timers k) t) \<and> (\<forall>x \<in> set vs. ticks (timers k) t < due (timers k) xs x)
    \<and> (\<forall>x. t_proc (timers k' x) = t_proc (timers k x))
    \<and> k'\<lparr>timers := timers k, timer_links := timer_links k\<rparr> = k"
proof -
  let ?d = "timer_links k" and ?ts = "timers k"
  have dl: "dlist ?d TimerList (map TimerLink xs)" using tl by (simp add: timer_list_def)
  have nt: "t \<notin> set xs" using dlist_no_self [OF dl, of "TimerLink t"] t by (auto simp: list_empty_def)
  have dis: "distinct (t # xs)" using dl nt by (auto simp: dlist_def distinct_map)
  have l: "linked ?d TimerList (map TimerLink xs) TimerList" using dl by (simp add: dlist_def)
  have nx: "list_next ?d TimerList = hd (map TimerLink xs @ [TimerList])" by (rule dlist_next_head [OF dl])
  from add_timer_loop_split [OF l dis, of ?ts] obtain us vs ts' where *: "xs = us @ vs"
    "add_timer_loop ?d t ?ts (hd (map TimerLink xs @ [TimerList])) = Some (ts', hd (map TimerLink vs @ [TimerList]))"
    and su: "sum_list (map (ticks ?ts) us) \<le> ticks ?ts t" and tt: "ticks ts' t = ticks ?ts t - sum_list (map (ticks ?ts) us)"
    and ot: "\<forall>x. x \<noteq> t \<and> (vs = [] \<or> x \<noteq> hd vs) \<longrightarrow> ticks ts' x = ticks ?ts x"
    and hv: "vs \<noteq> [] \<longrightarrow> ticks ts' t < ticks ?ts (hd vs) \<and> ticks ts' (hd vs) = ticks ?ts (hd vs) - ticks ts' t"
    and pr: "\<forall>x. t_proc (ts' x) = t_proc (?ts x)" by blast
  define k' where "k' = k\<lparr>timers := ts', timer_links := list_add_before ?d (hd (map TimerLink vs @ [TimerList])) (TimerLink t)\<rparr>"
  have dis': "distinct (us @ vs)" "t \<notin> set us" "t \<notin> set vs" using dis *(1) by auto
  have us: "ticks ts' x = ticks ?ts x" if "x \<in> set us" for x
    using ot that dis' by (cases vs) auto
  have tlv: "ticks ts' x = ticks ?ts x" if "x \<in> set (tl vs)" for x
    using ot that dis' by (cases vs) auto
  have sus: "sum_list (map (ticks ts') us) = sum_list (map (ticks ?ts) us)" by (rule sum_ticks_cong) (simp add: us)
  have dt: "due ts' (us @ t # vs) t = ticks ?ts t"
    using dis'(2) su by (simp add: due_append due_Cons sus tt)
  have du: "due ts' (us @ t # vs) x = due ?ts xs x" if x: "x \<in> set xs" for x
  proof (cases "x \<in> set us")
    case True
    then show ?thesis using *(1) due_cong [of us ts' ?ts x] us by (simp add: due_append)
  next
    case False
    then obtain v zs where v: "vs = v # zs" "x \<in> set (v # zs)" using x *(1) by (cases vs) auto
    have "ticks ts' t + due ts' (v # zs) x = due ?ts (v # zs) x"
      using v hv tlv due_cong [of zs ts' ?ts x] by (auto simp: due_Cons)
    moreover have "x \<noteq> t" using v dis' by auto
    ultimately show ?thesis using False v(1) *(1) by (simp add: due_append due_Cons [of _ t] sus)
  qed
  have ud: "due ?ts xs x \<le> ticks ?ts t" if "x \<in> set us" for x
  proof -
    have "due ?ts us x \<le> sum_list (map (ticks ?ts) us)" using that by (induction us) (auto simp: due_Cons)
    with that *(1) su show ?thesis by (simp add: due_append)
  qed
  have vd: "ticks ?ts t < due ?ts xs x" if x: "x \<in> set vs" for x
  proof -
    obtain v zs where v: "vs = v # zs" using x by (cases vs) auto
    then have "ticks ts' t < due ?ts vs x" using hv by (auto simp: due_Cons)
    moreover have "x \<notin> set us" using x dis' by auto
    ultimately show ?thesis using *(1) tt su by (simp add: due_append)
  qed
  have "dlist (timer_links k') TimerList (map TimerLink us @ TimerLink t # map TimerLink vs)"
    unfolding k'_def using dlist_add_before [of ?d TimerList "map TimerLink us" "map TimerLink vs" "TimerLink t"] dl *(1) dis'
    by (auto simp: image_iff)
  moreover have "\<forall>x xs'. us @ t # vs = x # xs' \<longrightarrow> 0 < ticks ts' x"
    using T tt us tl *(1) by (cases us) (auto simp: timer_list_def)
  moreover have "sum_list (map (ticks ts') (us @ t # vs)) < 2 ^ 32"
  proof (cases vs)
    case Nil
    have "unat (t_expires (?ts t)) < 2 ^ LENGTH(32)" by (rule unsigned_less)
    then have "ticks ?ts t < 2 ^ 32" by (simp add: ticks_def)
    with Nil show ?thesis using su by (simp add: sus tt)
  next
    case (Cons v zs)
    have "sum_list (map (ticks ts') zs) = sum_list (map (ticks ?ts) zs)"
      by (rule sum_ticks_cong) (simp add: tlv Cons)
    then show ?thesis using tl *(1) hv Cons by (simp add: timer_list_def sus)
  qed
  ultimately have "timer_list k' (us @ t # vs)" by (simp add: timer_list_def k'_def)
  moreover have "add_timer k t = Some k'"
    using T t *(2) by (simp add: add_timer_def nx k'_def ticks_def word_less_nat_alt)
  moreover have "k'\<lparr>timers := timers k, timer_links := timer_links k\<rparr> = k" by (simp add: k'_def)
  moreover have "timers k' = ts'" by (simp add: k'_def)
  ultimately show ?thesis using *(1) dt du ud vd pr by blast
qed

section \<open>Deletion\<close>

lemma del_timer_list:
  assumes tl: "timer_list k (us @ t # vs)"
  shows "timer_list (del_timer k t) (us @ vs)
    \<and> (\<forall>x \<in> set (us @ vs). due (timers (del_timer k t)) (us @ vs) x = due (timers k) (us @ t # vs) x)
    \<and> list_empty (timer_links (del_timer k t)) (TimerLink t)
    \<and> (del_timer k t)\<lparr>timers := timers k, timer_links := timer_links k\<rparr> = k
    \<and> (\<forall>x. t_proc (timers (del_timer k t) x) = t_proc (timers k x))
    \<and> (ticks (timers k) t = 0 \<longrightarrow> timers (del_timer k t) = timers k)"
proof -
  let ?d = "timer_links k" and ?ts = "timers k" and ?k' = "del_timer k t"
  have dl: "dlist ?d TimerList (map TimerLink us @ TimerLink t # map TimerLink vs)"
    using tl by (simp add: timer_list_def)
  have dis: "distinct (us @ t # vs)" using dl by (auto simp: dlist_def distinct_map)
  have ne: "\<not> list_empty ?d (TimerLink t)"
    using dlist_no_self [OF dl, of "TimerLink t"] by (simp add: list_empty_def)
  have nx: "list_next ?d (TimerLink t) = hd (map TimerLink vs @ [TimerList])" by (rule dlist_next_mid [OF dl])
  define ts' where "ts' = (if vs = [] then ?ts else
    set_expires ?ts (hd vs) (t_expires (?ts (hd vs)) + t_expires (?ts t)))"
  have k': "?k' = k\<lparr>timers := if ticks ?ts t = 0 then ?ts else ts', timer_links := list_del_init ?d (TimerLink t)\<rparr>"
    using ne nx by (cases vs) (simp_all add: del_timer_def ts'_def Let_def ticks_def unat_eq_0)
  let ?u = "timers ?k'"
  have sum: "sum_list (map (ticks ?ts) us) + ticks ?ts t + sum_list (map (ticks ?ts) vs) < 2 ^ 32"
    using tl by (simp add: timer_list_def)
  have hv: "ticks ?u v = ticks ?ts v + ticks ?ts t" if "vs = v # zs" for v zs
    using that sum by (simp add: k' ts'_def ticks_add)
  have ot: "ticks ?u x = ticks ?ts x" if "vs = [] \<or> x \<noteq> hd vs" for x
    using that by (auto simp: k' ts'_def)
  have us: "\<forall>x \<in> set us. ticks ?u x = ticks ?ts x"
  proof
    fix x assume "x \<in> set us"
    with dis have "vs = [] \<or> x \<noteq> hd vs" by (cases vs) auto
    then show "ticks ?u x = ticks ?ts x" by (rule ot)
  qed
  have zs: "\<forall>x \<in> set zs. ticks ?u x = ticks ?ts x" if v: "vs = v # zs" for v zs
  proof
    fix x assume "x \<in> set zs"
    with dis v have "vs = [] \<or> x \<noteq> hd vs" by auto
    then show "ticks ?u x = ticks ?ts x" by (rule ot)
  qed
  have du: "due ?u (us @ vs) x = due ?ts (us @ t # vs) x" if x: "x \<in> set (us @ vs)" for x
  proof (cases "x \<in> set us")
    case True
    then show ?thesis using due_cong [OF us] by (simp add: due_append)
  next
    case False
    then obtain v zs where v: "vs = v # zs" "x \<in> set (v # zs)" using x by (cases vs) auto
    have "due ?u (v # zs) x = ticks ?ts t + due ?ts (v # zs) x"
      using v(2) hv [OF v(1)] due_cong [OF zs [OF v(1)], of x] by (auto simp: due_Cons)
    moreover have "x \<noteq> t" using x dis by auto
    ultimately show ?thesis
      using False v(1) sum_ticks_cong [OF us] by (simp add: due_append due_Cons)
  qed
  have "dlist (timer_links ?k') TimerList (map TimerLink (us @ vs))" "list_empty (timer_links ?k') (TimerLink t)"
    using dlist_del_init [OF dl] by (simp_all add: k')
  moreover have "sum_list (map (ticks ?u) (us @ vs)) < 2 ^ 32"
  proof (cases vs)
    case Nil
    then show ?thesis using sum sum_ticks_cong [OF us] by simp
  next
    case (Cons v zs)
    then show ?thesis using sum sum_ticks_cong [OF us] sum_ticks_cong [OF zs [OF Cons]] hv [OF Cons] by simp
  qed
  moreover have "0 < ticks ?u x" if x: "us @ vs = x # xs'" for x xs'
  proof (cases us)
    case Nil
    then have "0 < ticks ?ts t" using tl by (simp add: timer_list_def)
    with Nil x hv [of x xs'] show ?thesis by simp
  next
    case (Cons u ws)
    with x us tl show ?thesis by (simp add: timer_list_def)
  qed
  ultimately have "timer_list ?k' (us @ vs)" "list_empty (timer_links ?k') (TimerLink t)" by (auto simp: timer_list_def)
  moreover have "\<forall>x. t_proc (?u x) = t_proc (?ts x)" by (simp add: k' ts'_def)
  moreover have "ticks ?ts t = 0 \<longrightarrow> ?u = ?ts" by (simp add: k')
  moreover have "?k'\<lparr>timers := timers k, timer_links := timer_links k\<rparr> = k" by (simp add: k')
  ultimately show ?thesis using du by blast
qed

section \<open>Ticking\<close>

lemma del_timer_procs [simp]:
  "procs (del_timer k t) = procs k" "rq (del_timer k t) = rq k" "current (del_timer k t) = current k"
  "idleproc (del_timer k t) = idleproc k"
  by (simp_all add: del_timer_def Let_def)

context sched_policy
begin

lemma sched_inv_timers:
  "sched_inv queued linkable k \<Longrightarrow> procs k' = procs k \<Longrightarrow> rq k' = rq k \<Longrightarrow> current k' = current k \<Longrightarrow>
   idleproc k' = idleproc k \<Longrightarrow> sched_inv queued linkable k'"
  unfolding sched_inv_def ready_def
  using queued_cong [of k' k] linkable_cong [of k' k] by auto

text \<open>A process a timer may wake: not a zombie, and waiting interruptibly if it waits at all.\<close>

definition wakeable :: "kern \<Rightarrow> nat \<Rightarrow> bool" where
  "wakeable k p \<longleftrightarrow> p_state (procs k p) \<noteq> PROC_ZOMBIE
     \<and> (p_wait_state (procs k p) \<noteq> 0 \<longrightarrow> p_wait_state (procs k p) AND WT_INTERRUPTED \<noteq> 0)"

text \<open>The loop wakes the owners of the timers whose difference is zero, in order, and unlinks them.
  The list may begin with a timer due now, which is the one case \<open>timer_list\<close> excludes.\<close>

definition timer_chain :: "kern \<Rightarrow> nat list \<Rightarrow> bool" where
  "timer_chain k xs \<longleftrightarrow> dlist (timer_links k) TimerList (map TimerLink xs)"

lemma del_expired:
  assumes "timer_chain k (t # ts)" "ticks (timers k) t = 0"
  shows "timer_chain (del_timer k t) ts \<and> timers (del_timer k t) = timers k"
proof -
  have dl: "dlist (timer_links k) TimerList ([] @ TimerLink t # map TimerLink ts)"
    using assms(1) by (simp add: timer_chain_def)
  have "\<not> list_empty (timer_links k) (TimerLink t)"
    using dlist_no_self [OF dl, of "TimerLink t"] by (simp add: list_empty_def)
  then show ?thesis
    using dlist_del_init(1) [OF dl] assms(2) by (simp add: del_timer_def timer_chain_def Let_def ticks_def unat_eq_0)
qed

lemma wake_step:
  assumes "sched_inv queued linkable k" "wakeable k p"
  shows "\<exists>k1. wakeup_proc c k p = Some k1 \<and> sched_inv queued linkable k1 \<and> same_rest k k1
    \<and> current k1 = current k \<and> p_state (procs k1 p) = PROC_RUNNABLE
    \<and> (\<forall>q. wakeable k q \<longrightarrow> wakeable k1 q) \<and> (\<forall>q. q \<noteq> p \<longrightarrow> p_state (procs k1 q) = p_state (procs k q))"
proof -
  obtain k1 where k1: "wakeup_proc c k p = Some k1" "sched_inv queued linkable k1" "p_state (procs k1 p) = PROC_RUNNABLE"
    "current k1 = current k" "same_rest k k1" "p_state (procs k p) \<noteq> PROC_RUNNABLE \<longrightarrow> p_wait_state (procs k1 p) = 0"
    "\<forall>q. q \<noteq> p \<longrightarrow> same_proc (procs k q) (procs k1 q)" "p_state (procs k p) = PROC_RUNNABLE \<longrightarrow> k1 = k"
    using wakeup_ok [OF assms(1), of p] assms(2) by (auto simp: wakeable_def)
  have o: "p_state (procs k1 q) = p_state (procs k q) \<and> p_wait_state (procs k1 q) = p_wait_state (procs k q)"
    if "q \<noteq> p" for q using same_proc_fields [OF k1(7) [rule_format, OF that]] by simp
  have "wakeable k1 q" if "wakeable k q" for q
  proof (cases "q = p")
    case True
    show ?thesis
    proof (cases "p_state (procs k p) = PROC_RUNNABLE")
      case True
      with that k1(8) show ?thesis by simp
    next
      case False
      with \<open>q = p\<close> k1(3,6) show ?thesis by (simp add: wakeable_def)
    qed
  next
    case False
    with that o [of q] show ?thesis by (simp add: wakeable_def)
  qed
  with k1 o show ?thesis by (intro exI [of _ k1]) simp
qed

lemma run_expired_ok:
  assumes "sched_inv queued linkable k" "timer_chain k (t # us @ vs)"
    "\<forall>x \<in> set (t # us). ticks (timers k) x = 0 \<and> (\<exists>p. t_proc (timers k x) = Some p \<and> wakeable k p)"
    "vs \<noteq> [] \<longrightarrow> ticks (timers k) (hd vs) \<noteq> 0"
  shows "\<exists>k'. run_expired c k t (TimerLink t) = Some k' \<and> sched_inv queued linkable k' \<and> timer_chain k' vs
    \<and> timers k' = timers k \<and> current k' = current k \<and> idleproc k' = idleproc k
    \<and> (\<forall>x \<in> set (t # us). \<forall>p. t_proc (timers k x) = Some p \<longrightarrow> p_state (procs k' p) = PROC_RUNNABLE)
    \<and> (\<forall>p. p_state (procs k' p) = p_state (procs k p) \<or>
          p_state (procs k' p) = PROC_RUNNABLE \<and> (\<exists>x \<in> set (t # us). t_proc (timers k x) = Some p))"
  using assms
proof (induction us arbitrary: k t)
  case Nil
  from Nil.prems(3) obtain p where p: "t_proc (timers k t) = Some p" "wakeable k p" "ticks (timers k) t = 0" by auto
  obtain k1 where k1: "wakeup_proc c k p = Some k1" "sched_inv queued linkable k1" "same_rest k k1"
    "current k1 = current k" "p_state (procs k1 p) = PROC_RUNNABLE"
    "\<forall>q. q \<noteq> p \<longrightarrow> p_state (procs k1 q) = p_state (procs k q)" using wake_step [OF Nil.prems(1) p(2)] by blast
  note sr = same_rest_fields [OF k1(3)]
  have ch: "timer_chain k1 (t # vs)" using Nil.prems(2) sr by (simp add: timer_chain_def)
  have del: "timer_chain (del_timer k1 t) vs" "timers (del_timer k1 t) = timers k"
    using del_expired [OF ch] p(3) sr by simp_all
  have nx: "list_next (timer_links k) (TimerLink t) = hd (map TimerLink vs @ [TimerList])"
    using dlist_next_mid [of "timer_links k" TimerList "[]" "TimerLink t" "map TimerLink vs"] Nil.prems(2)
    by (simp add: timer_chain_def)
  have inv: "sched_inv queued linkable (del_timer k1 t)" by (rule sched_inv_timers [OF k1(2)]) simp_all
  have "run_expired c k t (TimerLink t) = Some (del_timer k1 t)"
  proof (cases vs)
    case Nil
    then show ?thesis
      using p nx k1(1) by (subst run_expired.simps) (simp add: ticks_def unat_eq_0 wakeable_def)
  next
    case (Cons v zs)
    have "run_expired c (del_timer k1 t) v (TimerLink v) = Some (del_timer k1 t)"
      using Nil.prems(4) Cons del(2) by (subst run_expired.simps) (auto simp: ticks_def unat_eq_0)
    with Cons show ?thesis
      using p nx k1(1) by (subst run_expired.simps) (simp add: ticks_def unat_eq_0 wakeable_def)
  qed
  then show ?case using inv del k1 sr p(1) by (intro exI [of _ "del_timer k1 t"]) auto
next
  case (Cons u us)
  from Cons.prems(3) obtain p where p: "t_proc (timers k t) = Some p" "wakeable k p" "ticks (timers k) t = 0" by auto
  obtain k1 where k1: "wakeup_proc c k p = Some k1" "sched_inv queued linkable k1" "same_rest k k1"
    "current k1 = current k" "p_state (procs k1 p) = PROC_RUNNABLE" "\<forall>q. wakeable k q \<longrightarrow> wakeable k1 q"
    "\<forall>q. q \<noteq> p \<longrightarrow> p_state (procs k1 q) = p_state (procs k q)" using wake_step [OF Cons.prems(1) p(2)] by blast
  note sr = same_rest_fields [OF k1(3)]
  let ?k2 = "del_timer k1 t"
  have ch: "timer_chain k1 (t # u # us @ vs)" using Cons.prems(2) sr by (simp add: timer_chain_def)
  have del: "timer_chain ?k2 (u # us @ vs)" "timers ?k2 = timers k"
    using del_expired [OF ch] p(3) sr by simp_all
  have nx: "list_next (timer_links k) (TimerLink t) = TimerLink u"
    using dlist_next_mid [of "timer_links k" TimerList "[]" "TimerLink t" "map TimerLink (u # us @ vs)"] Cons.prems(2)
    by (simp add: timer_chain_def)
  have inv: "sched_inv queued linkable ?k2" by (rule sched_inv_timers [OF k1(2)]) simp_all
  have rest: "\<forall>x \<in> set (u # us). ticks (timers ?k2) x = 0 \<and> (\<exists>p. t_proc (timers ?k2 x) = Some p \<and> wakeable ?k2 p)"
    using Cons.prems(3) k1(6) del(2) by (fastforce simp: wakeable_def)
  have "vs \<noteq> [] \<longrightarrow> ticks (timers ?k2) (hd vs) \<noteq> 0" using Cons.prems(4) del(2) by simp
  from Cons.IH [OF inv del(1) rest this] obtain k' where k': "run_expired c ?k2 u (TimerLink u) = Some k'"
    "sched_inv queued linkable k'" "timer_chain k' vs" "timers k' = timers k" "current k' = current k" "idleproc k' = idleproc k"
    "\<forall>x \<in> set (u # us). \<forall>p. t_proc (timers k x) = Some p \<longrightarrow> p_state (procs k' p) = PROC_RUNNABLE"
    "\<forall>p. p_state (procs k' p) = p_state (procs k1 p) \<or>
          p_state (procs k' p) = PROC_RUNNABLE \<and> (\<exists>x \<in> set (u # us). t_proc (timers k x) = Some p)"
    using del(2) k1(4) sr by auto
  have "run_expired c k t (TimerLink t) = Some k'"
    using p nx k1(1) k'(1) by (subst run_expired.simps) (simp add: ticks_def unat_eq_0 wakeable_def)
  moreover have "p_state (procs k' p) = PROC_RUNNABLE" using k'(8) k1(5) by metis
  moreover have "p_state (procs k' q) = p_state (procs k q) \<or>
      p_state (procs k' q) = PROC_RUNNABLE \<and> (\<exists>x \<in> set (t # u # us). t_proc (timers k x) = Some q)" for q
    using k'(8) k1(5,7) p(1) calculation(2) by (cases "q = p") (force+)
  ultimately show ?case using k' p(1) by (intro exI [of _ k']) auto
qed

lemma proc_tick_ok:
  assumes "sched_inv queued linkable k"
  shows "sched_inv queued linkable (sched_class_proc_tick c k p) \<and> same_kern k (sched_class_proc_tick c k p)"
proof (cases "p = idleproc k")
  case True
  let ?k = "upd_proc p (\<lambda>p. p\<lparr>p_need_resched := True\<rparr>) k"
  have "ready ?k = ready k" by (auto simp: ready_def)
  moreover have "queued ?k (ready k)"
    by (rule queued_cong [of _ k]) (use assms in \<open>auto simp: sched_inv_def\<close>)
  moreover have "linkable k q \<Longrightarrow> linkable ?k q" for q by (rule linkable_cong [of _ k]) simp_all
  moreover have "same_kern k ?k" by (simp add: same_kern_def upd_proc_def)
  ultimately show ?thesis using True assms by (simp add: sched_class_proc_tick_def sched_inv_def)
next
  case False
  let ?k = "sc_proc_tick c k p"
  have q: "queued ?k (ready k)" "same_kern k ?k" using tick_ok(1) assms by (auto simp: sched_inv_def)
  then have "ready ?k = ready k"
    using same_kern_fields [OF q(2)] same_proc_fields [OF same_kern_fields(11) [OF q(2)]] by (auto simp: ready_def)
  with q tick_ok(2) assms False show ?thesis by (simp add: sched_class_proc_tick_def sched_inv_def)
qed

lemma run_timer_list_ok:
  assumes inv: "sched_inv queued linkable k" and tl: "timer_list k xs"
    and own: "\<forall>x \<in> set xs. due (timers k) xs x = 1 \<longrightarrow> (\<exists>p. t_proc (timers k x) = Some p \<and> wakeable k p)"
  shows "\<exists>k'. run_timer_list c k = Some k' \<and> sched_inv queued linkable k'
    \<and> timer_list k' (filter (\<lambda>x. due (timers k) xs x \<noteq> 1) xs)
    \<and> (\<forall>x \<in> set xs. due (timers k) xs x \<noteq> 1 \<longrightarrow>
         due (timers k') (filter (\<lambda>x. due (timers k) xs x \<noteq> 1) xs) x = due (timers k) xs x - 1)
    \<and> (\<forall>x \<in> set xs. \<forall>p. due (timers k) xs x = 1 \<and> t_proc (timers k x) = Some p \<longrightarrow> p_state (procs k' p) = PROC_RUNNABLE)
    \<and> (\<forall>p. p_state (procs k' p) = p_state (procs k p) \<or> p_state (procs k' p) = PROC_RUNNABLE
         \<and> (\<exists>x \<in> set xs. due (timers k) xs x = 1 \<and> t_proc (timers k x) = Some p))"
proof (cases xs)
  case Nil
  then have "list_next (timer_links k) TimerList = TimerList" using tl by (simp add: timer_list_def list_next_def)
  then have "run_timer_list c k = Some (sched_class_proc_tick c k (current k))" by (simp add: run_timer_list_def)
  with Nil tl proc_tick_ok [OF inv, of "current k"] same_kern_fields [of k "sched_class_proc_tick c k (current k)"]
    same_proc_fields show ?thesis by (auto simp: timer_list_def)
next
  case (Cons t ts)
  let ?ts = "timers k"
  let ?tz = "set_expires ?ts t (t_expires (?ts t) - 1)"
  let ?kz = "k\<lparr>timers := ?tz\<rparr>"
  have dl: "dlist (timer_links k) TimerList (map TimerLink (t # ts))" using tl Cons by (simp add: timer_list_def)
  have dis: "t \<notin> set ts" "distinct ts" using dl by (auto simp: dlist_def distinct_map)
  have pos: "0 < ticks ?ts t" using tl Cons by (simp add: timer_list_def)
  then have t0: "ticks ?tz t = ticks ?ts t - 1"
    by (simp add: ticks_def set_expires_def unat_gt_0 unat_minus_one)
  have o0: "ticks ?tz x = ticks ?ts x" if "x \<noteq> t" for x using that by simp
  have nx: "list_next (timer_links k) TimerList = TimerLink t" using dlist_next_head [OF dl] by simp
  define us vs where "us = takeWhile (\<lambda>x. ticks ?ts x = 0) ts" and "vs = dropWhile (\<lambda>x. ticks ?ts x = 0) ts"
  have ts: "ts = us @ vs" by (simp add: us_def vs_def)
  have us: "\<forall>x \<in> set us. ticks ?ts x = 0" unfolding us_def by (blast dest: set_takeWhileD)
  have hv: "vs \<noteq> [] \<longrightarrow> ticks ?ts (hd vs) \<noteq> 0" using hd_dropWhile [of "\<lambda>x. ticks ?ts x = 0" ts] by (simp add: vs_def)
  have su: "sum_list (map (ticks ?ts) us) = 0" using us by simp
  have due_us: "due ?ts xs x = ticks ?ts t" if "x \<in> set us" for x
  proof -
    have "due ?ts us x = 0" using us that by (auto simp: due_def dest: set_takeWhileD)
    with that dis ts Cons show ?thesis by (auto simp: due_Cons due_append)
  qed
  have due_vs: "due ?ts xs x = ticks ?ts t + due ?ts vs x \<and> 0 < due ?ts vs x" if x: "x \<in> set vs" for x
  proof -
    obtain v zs where v: "vs = v # zs" using x by (cases vs) auto
    with hv have "0 < due ?ts vs x" by (auto simp: due_Cons)
    moreover have "x \<notin> set us" "x \<noteq> t" using x dis ts by auto
    ultimately show ?thesis using Cons ts su by (simp add: due_Cons due_append)
  qed
  have due_t: "due ?ts xs t = ticks ?ts t" using Cons by (simp add: due_Cons)
  have sched0: "sched_inv queued linkable ?kz" by (rule sched_inv_timers [OF inv]) simp_all
  have dvs: "due ?tz vs x = due ?ts vs x" if "x \<in> set vs" for x
    by (rule due_cong [OF _ that]) (use dis ts in auto)
  have sum: "sum_list (map (ticks ?ts) vs) < 2 ^ 32" using tl Cons ts by (simp add: timer_list_def)
  have sum0: "sum_list (map (ticks ?tz) vs) = sum_list (map (ticks ?ts) vs)"
    by (rule sum_ticks_cong) (use dis ts in auto)
  have start: "run_timer_list c k = do { k \<leftarrow> run_expired c ?kz t (TimerLink t); Some (sched_class_proc_tick c k (current k)) }"
    using pos nx by (simp add: run_timer_list_def Let_def ticks_def unat_gt_0)
  obtain k1 ys where k1: "run_expired c ?kz t (TimerLink t) = Some k1" "sched_inv queued linkable k1"
    "timer_list k1 ys" "ys = filter (\<lambda>x. due ?ts xs x \<noteq> 1) xs"
    "\<forall>x \<in> set ys. due (timers k1) ys x = due ?ts xs x - 1"
    "\<forall>x \<in> set xs. \<forall>p. due ?ts xs x = 1 \<and> t_proc (?ts x) = Some p \<longrightarrow> p_state (procs k1 p) = PROC_RUNNABLE"
    "\<forall>p. p_state (procs k1 p) = p_state (procs k p) \<or> p_state (procs k1 p) = PROC_RUNNABLE
         \<and> (\<exists>x \<in> set xs. due ?ts xs x = 1 \<and> t_proc (?ts x) = Some p)"
  proof (cases "ticks ?ts t = 1")
    case False
    have "run_expired c ?kz t (TimerLink t) = Some ?kz"
      using False pos t0 by (subst run_expired.simps) (auto simp: ticks_def)
    moreover have none: "\<forall>x \<in> set xs. due ?ts xs x \<noteq> 1"
      using due_t due_us due_vs False pos ts Cons by fastforce
    moreover have "timer_list ?kz xs"
    proof -
      have "sum_list (map (ticks ?tz) ts) = sum_list (map (ticks ?ts) ts)"
        by (rule sum_ticks_cong) (use dis in auto)
      moreover have "0 < ticks ?tz t" "ticks ?tz t \<le> ticks ?ts t" using t0 pos False by linarith+
      ultimately show ?thesis using tl Cons by (simp add: timer_list_def del: ticks_set)
    qed
    moreover have "due ?tz xs x = due ?ts xs x - 1" if "x \<in> set xs" for x
    proof (cases "x = t")
      case True
      then show ?thesis using Cons t0 by (simp add: due_Cons)
    next
      case False
      then have "x \<in> set ts" using that Cons by simp
      then have "due ?tz ts x = due ?ts ts x" by (rule due_cong [rotated]) (use dis in auto)
      with False Cons t0 pos show ?thesis by (simp add: due_Cons)
    qed
    ultimately show thesis using sched0 by (intro that [of ?kz xs]) (auto simp: filter_id_conv)
  next
    case True
    have chain: "timer_chain ?kz (t # us @ vs)" using dl ts by (simp add: timer_chain_def)
    have owner: "\<forall>x \<in> set (t # us). ticks (timers ?kz) x = 0 \<and> (\<exists>p. t_proc (timers ?kz x) = Some p \<and> wakeable ?kz p)"
    proof
      fix x assume x: "x \<in> set (t # us)"
      then have "due ?ts xs x = 1" "x \<in> set xs" using due_us due_t True ts Cons by auto
      with own obtain p where "t_proc (?ts x) = Some p" "wakeable k p" by blast
      with x us t0 o0 [of x] True show "ticks (timers ?kz) x = 0 \<and> (\<exists>p. t_proc (timers ?kz x) = Some p \<and> wakeable ?kz p)"
        by (cases "x = t") (auto simp: wakeable_def)
    qed
    have "vs \<noteq> [] \<longrightarrow> ticks (timers ?kz) (hd vs) \<noteq> 0" using hv dis ts by (cases vs) auto
    from run_expired_ok [OF sched0 chain owner this] obtain k1 where k1: "run_expired c ?kz t (TimerLink t) = Some k1"
      "sched_inv queued linkable k1" "timer_chain k1 vs" "timers k1 = ?tz"
      "\<forall>x \<in> set (t # us). \<forall>p. t_proc (?ts x) = Some p \<longrightarrow> p_state (procs k1 p) = PROC_RUNNABLE"
      "\<forall>p. p_state (procs k1 p) = p_state (procs k p) \<or>
          p_state (procs k1 p) = PROC_RUNNABLE \<and> (\<exists>x \<in> set (t # us). t_proc (?ts x) = Some p)" by auto
    have one: "due ?ts xs x = 1 \<longleftrightarrow> x \<in> set (t # us)" if "x \<in> set xs" for x
      using that due_us [of x] due_vs [of x] due_t True ts Cons by auto
    have flt: "vs = filter (\<lambda>x. due ?ts xs x \<noteq> 1) xs"
    proof -
      have "filter (\<lambda>x. due ?ts xs x \<noteq> 1) us = []" using due_us True by (simp add: filter_empty_conv)
      moreover have "filter (\<lambda>x. due ?ts xs x \<noteq> 1) vs = vs" using due_vs True by (auto simp: filter_id_conv)
      moreover have "filter P xs = (if P t then [t] else []) @ filter P us @ filter P vs" for P by (simp add: Cons ts)
      ultimately show ?thesis using due_t True by simp
    qed
    have "timer_list k1 vs"
      using k1(3,4) sum sum0 hv dis ts by (auto simp: timer_list_def timer_chain_def)
    moreover have "\<forall>x \<in> set vs. due (timers k1) vs x = due ?ts xs x - 1" using dvs due_vs k1(4) True by simp
    moreover have "\<forall>x \<in> set xs. \<forall>p. due ?ts xs x = 1 \<and> t_proc (?ts x) = Some p \<longrightarrow> p_state (procs k1 p) = PROC_RUNNABLE"
      using k1(5) one by blast
    moreover have "set (t # us) \<subseteq> set xs" using Cons ts by auto
    ultimately show thesis using k1(1,2,6) flt one by (intro that [of k1 vs]) blast+
  qed
  let ?k' = "sched_class_proc_tick c k1 (current k1)"
  have tick: "sched_inv queued linkable ?k'" "same_kern k1 ?k'" using proc_tick_ok [OF k1(2)] by auto
  note sk = same_kern_fields [OF tick(2)]
  have "p_state (procs ?k' p) = p_state (procs k1 p)" for p using same_proc_fields [OF sk(11) [of p]] by simp
  moreover have "timer_list ?k' ys" using k1(3) sk by (simp add: timer_list_def)
  moreover have "run_timer_list c k = Some ?k'" using start k1(1) by simp
  ultimately show ?thesis using tick(1) sk(4) k1(4-7) by (intro exI [of _ ?k']) auto
qed

end

section \<open>Properties\<close>

text \<open>Setting a timer. On a well-formed timer list, \<open>add_timer\<close> returns; the new timer is due in exactly
  the ticks asked for, it stands behind the timers due no later and before those due later, and every
  timer that was there is due when it was due before.\<close>

theorem add_timer_due:
  assumes "timer_list k xs" "list_empty (timer_links k) (TimerLink t)"
    and "0 < ticks (timers k) t" "t_proc (timers k t) \<noteq> None"
  shows "\<exists>k' us vs. add_timer k t = Some k' \<and> xs = us @ vs \<and> timer_list k' (us @ t # vs)
    \<and> due (timers k') (us @ t # vs) t = ticks (timers k) t
    \<and> (\<forall>x \<in> set xs. due (timers k') (us @ t # vs) x = due (timers k) xs x)
    \<and> (\<forall>x \<in> set us. due (timers k) xs x \<le> ticks (timers k) t)
    \<and> (\<forall>x \<in> set vs. ticks (timers k) t < due (timers k) xs x)"
  using add_timer_list [OF assms] by blast

text \<open>A state whose timer list is empty, and one process with a timer.\<close>

definition demo_timer :: kern where
  "demo_timer = timer_init (demo_rr\<lparr>timer_links := list_init (timer_links demo_rr) TimerList\<rparr>) 7 2 1"

lemma demo_timer_facts:
  "timer_list demo_timer []" "list_empty (timer_links demo_timer) (TimerLink 7)" "ticks (timers demo_timer) 7 = 1"
  "t_proc (timers demo_timer 7) = Some 2" "procs demo_timer = procs demo_rr" "rq demo_timer = rq demo_rr"
  "current demo_timer = current demo_rr" "idleproc demo_timer = idleproc demo_rr"
  by (simp_all add: timer_list_def demo_timer_def timer_init_def list_init_def list_empty_def ticks_def)

theorem add_timer_due_witness:
  "\<exists>k'. add_timer demo_timer 7 = Some k' \<and> timer_list k' [7] \<and> due (timers k') [7] 7 = 1"
  using add_timer_due [OF demo_timer_facts(1,2)] demo_timer_facts(3,4) by auto

text \<open>Cancelling a timer. \<open>del_timer\<close> on a timer of the list removes it, leaves it unlinked, and every
  other timer is due when it was due before.\<close>

theorem del_timer_due:
  assumes "timer_list k (us @ t # vs)"
  shows "timer_list (del_timer k t) (us @ vs) \<and> list_empty (timer_links (del_timer k t)) (TimerLink t)
    \<and> (\<forall>x \<in> set (us @ vs). due (timers (del_timer k t)) (us @ vs) x = due (timers k) (us @ t # vs) x)"
  using del_timer_list [OF assms] by blast

theorem del_timer_due_witness:
  "\<exists>k'. add_timer demo_timer 7 = Some k' \<and> timer_list (del_timer k' 7) []"
proof -
  obtain k' where k': "add_timer demo_timer 7 = Some k'" "timer_list k' [7]"
    using add_timer_list [OF demo_timer_facts(1,2)] demo_timer_facts(3,4) by auto
  from k'(1) del_timer_due [of k' "[]" 7 "[]"] k'(2) show ?thesis by simp
qed

text \<open>A process a timer may wake: not a zombie, and waiting interruptibly if it waits at all.\<close>

definition may_wake :: "kern \<Rightarrow> nat \<Rightarrow> bool" where
  "may_wake k p \<longleftrightarrow> p_state (procs k p) \<noteq> PROC_ZOMBIE
     \<and> (p_wait_state (procs k p) \<noteq> 0 \<longrightarrow> p_wait_state (procs k p) AND WT_INTERRUPTED \<noteq> 0)"

text \<open>C13: A timer tick. With either scheduler class, \<open>run_timer_list\<close> takes one tick off every timer, removes
  exactly the timers that reach zero and makes their processes runnable, changes the state of no other
  process, and keeps the scheduler's invariant. It panics only on a zombie or uninterruptible owner.\<close>

theorem run_timer_list_tick:
  assumes "(c, queued, linkable) \<in> policies" "sched_inv queued linkable k" "timer_list k xs"
    and "\<forall>x \<in> set xs. due (timers k) xs x = 1 \<longrightarrow> (\<exists>p. t_proc (timers k x) = Some p \<and> may_wake k p)"
    and "ys = filter (\<lambda>x. due (timers k) xs x \<noteq> 1) xs"
  shows "\<exists>k'. run_timer_list c k = Some k' \<and> sched_inv queued linkable k' \<and> timer_list k' ys
    \<and> (\<forall>x \<in> set ys. due (timers k') ys x = due (timers k) xs x - 1)
    \<and> (\<forall>x \<in> set xs. \<forall>p. due (timers k) xs x = 1 \<and> t_proc (timers k x) = Some p \<longrightarrow> p_state (procs k' p) = PROC_RUNNABLE)
    \<and> (\<forall>p. p_state (procs k' p) = p_state (procs k p) \<or> p_state (procs k' p) = PROC_RUNNABLE
         \<and> (\<exists>x \<in> set xs. due (timers k) xs x = 1 \<and> t_proc (timers k x) = Some p))"
proof -
  have w: "st.wakeable k p = may_wake k p" "rr.wakeable k p = may_wake k p" for k p
    by (simp_all add: may_wake_def st.wakeable_def rr.wakeable_def)
  consider "c = stride_sched_class" "queued = stride_queued" "linkable = (\<lambda>_ _. True)"
    | "c = RR_sched_class" "queued = rr_queued" "linkable = rr_linkable"
    using assms(1) by (auto simp: policies_def)
  then show ?thesis
  proof cases
    case 1
    show ?thesis using st.run_timer_list_ok [of k xs] assms(2-5) unfolding 1 w by auto
  next
    case 2
    show ?thesis using rr.run_timer_list_ok [of k xs] assms(2-5) unfolding 2 w by auto
  qed
qed

theorem run_timer_list_tick_witness:
  "\<exists>k k'. add_timer demo_timer 7 = Some k \<and> run_timer_list RR_sched_class k = Some k'
     \<and> timer_list k' [] \<and> p_state (procs k' 2) = PROC_RUNNABLE"
proof -
  obtain k where k: "add_timer demo_timer 7 = Some k" "timer_list k [7]" "due (timers k) [7] 7 = 1"
    "k\<lparr>timers := timers demo_timer, timer_links := timer_links demo_timer\<rparr> = demo_timer"
    "t_proc (timers k 7) = Some 2"
    using add_timer_list [OF demo_timer_facts(1,2)] demo_timer_facts(3,4) by auto
  have same: "procs k = procs demo_rr" "rq k = rq demo_rr" "current k = current demo_rr" "idleproc k = idleproc demo_rr"
    using arg_cong [OF k(4), of procs] arg_cong [OF k(4), of rq] arg_cong [OF k(4), of current]
      arg_cong [OF k(4), of idleproc] demo_timer_facts(5-8) by simp_all
  have inv: "sched_inv rr_queued rr_linkable k" by (rule rr.sched_inv_timers [OF demo_rr_sched(1) same])
  have "may_wake k 2" using same by (simp add: may_wake_def demo_rr_def demo_kern_def Let_def fresh_proc_def)
  with run_timer_list_tick [of RR_sched_class rr_queued rr_linkable k "[7]" "[]"] inv k show ?thesis
    by (auto simp: policies_def)
qed

end
