(* ===== verification/Sync.thy ===== *)
theory Sync
  imports Timer
begin

text \<open>
  \<open>kern/sync/wait.c\<close>, \<open>kern/sync/sem.c\<close> and \<open>kern/sync/monitor.c\<close>: wait queues and the
  semaphores on top of them. Wait structures live on the stacks of the waiting threads and are
  named by addresses; the wait queue of a semaphore is named by the semaphore. Blocking is split
  where the code calls \<open>schedule\<close>: \<open>sem_down_enter\<close> is \<open>__down\<close> up to the moment another
  thread runs, \<open>sem_down_leave\<close> what the thread does when it runs again.
\<close>

section \<open>Wait queues\<close>

record wait =
  w_proc :: "nat option"
  w_flags :: "32 word"
  w_queue :: "nat option"

datatype wle = WaitHead nat | WaitLink nat

primrec le2wait :: "wle \<Rightarrow> nat" where "le2wait (WaitLink w) = w"

text \<open>The kernel state with the wait structures and the semaphore counters.\<close>

record sync =
  ker :: kern
  waits :: "nat \<Rightarrow> wait"
  wait_links :: "wle dll"
  sem_value :: "nat \<Rightarrow> int"

definition wait_init :: "sync \<Rightarrow> nat \<Rightarrow> nat \<Rightarrow> sync" where
  "wait_init s wait proc =
     s\<lparr>waits := (waits s)(wait := (waits s wait)\<lparr>w_proc := Some proc, w_flags := WT_INTERRUPTED\<rparr>),
       wait_links := list_init (wait_links s) (WaitLink wait)\<rparr>"

definition wait_queue_init :: "sync \<Rightarrow> nat \<Rightarrow> sync" where
  "wait_queue_init s queue = s\<lparr>wait_links := list_init (wait_links s) (WaitHead queue)\<rparr>"

definition wait_queue_add :: "sync \<Rightarrow> nat \<Rightarrow> nat \<Rightarrow> sync option" where
  "wait_queue_add s queue wait = do {
     kassert (list_empty (wait_links s) (WaitLink wait) \<and> w_proc (waits s wait) \<noteq> None);
     Some (s\<lparr>waits := (waits s)(wait := (waits s wait)\<lparr>w_queue := Some queue\<rparr>),
             wait_links := list_add_before (wait_links s) (WaitHead queue) (WaitLink wait)\<rparr>)
   }"

definition wait_queue_del :: "sync \<Rightarrow> nat \<Rightarrow> nat \<Rightarrow> sync option" where
  "wait_queue_del s queue wait = do {
     kassert (\<not> list_empty (wait_links s) (WaitLink wait) \<and> w_queue (waits s wait) = Some queue);
     Some (s\<lparr>wait_links := list_del_init (wait_links s) (WaitLink wait)\<rparr>)
   }"

definition wait_queue_next :: "sync \<Rightarrow> nat \<Rightarrow> nat \<Rightarrow> nat option option" where
  "wait_queue_next s queue wait = do {
     kassert (\<not> list_empty (wait_links s) (WaitLink wait) \<and> w_queue (waits s wait) = Some queue);
     let le = list_next (wait_links s) (WaitLink wait);
     Some (if le \<noteq> WaitHead queue then Some (le2wait le) else None)
   }"

definition wait_queue_prev :: "sync \<Rightarrow> nat \<Rightarrow> nat \<Rightarrow> nat option option" where
  "wait_queue_prev s queue wait = do {
     kassert (\<not> list_empty (wait_links s) (WaitLink wait) \<and> w_queue (waits s wait) = Some queue);
     let le = list_prev (wait_links s) (WaitLink wait);
     Some (if le \<noteq> WaitHead queue then Some (le2wait le) else None)
   }"

definition wait_queue_first :: "sync \<Rightarrow> nat \<Rightarrow> nat option" where
  "wait_queue_first s queue =
     (let le = list_next (wait_links s) (WaitHead queue)
      in if le \<noteq> WaitHead queue then Some (le2wait le) else None)"

definition wait_queue_last :: "sync \<Rightarrow> nat \<Rightarrow> nat option" where
  "wait_queue_last s queue =
     (let le = list_prev (wait_links s) (WaitHead queue)
      in if le \<noteq> WaitHead queue then Some (le2wait le) else None)"

definition wait_queue_empty :: "sync \<Rightarrow> nat \<Rightarrow> bool" where
  "wait_queue_empty s queue = list_empty (wait_links s) (WaitHead queue)"

definition wait_in_queue :: "sync \<Rightarrow> nat \<Rightarrow> bool" where
  "wait_in_queue s wait = (\<not> list_empty (wait_links s) (WaitLink wait))"

definition wakeup_wait :: "sched_class \<Rightarrow> sync \<Rightarrow> nat \<Rightarrow> nat \<Rightarrow> 32 word \<Rightarrow> bool \<Rightarrow> sync option" where
  "wakeup_wait c s queue wait wakeup_flags del = do {
     s \<leftarrow> (if del then wait_queue_del s queue wait else Some s);
     let s = s\<lparr>waits := (waits s)(wait := (waits s wait)\<lparr>w_flags := wakeup_flags\<rparr>)\<rparr>;
     p \<leftarrow> w_proc (waits s wait);
     k \<leftarrow> wakeup_proc c (ker s) p;
     Some (s\<lparr>ker := k\<rparr>)
   }"

definition wakeup_first :: "sched_class \<Rightarrow> sync \<Rightarrow> nat \<Rightarrow> 32 word \<Rightarrow> bool \<Rightarrow> sync option" where
  "wakeup_first c s queue wakeup_flags del =
     (case wait_queue_first s queue of
        None \<Rightarrow> Some s
      | Some wait \<Rightarrow> wakeup_wait c s queue wait wakeup_flags del)"

text \<open>The two loops of \<open>wakeup_queue\<close>.\<close>

partial_function (option) wakeup_all_del :: "sched_class \<Rightarrow> sync \<Rightarrow> nat \<Rightarrow> 32 word \<Rightarrow> nat \<Rightarrow> sync option" where
  "wakeup_all_del c s queue wakeup_flags wait = do {
     s \<leftarrow> wakeup_wait c s queue wait wakeup_flags True;
     case wait_queue_first s queue of
       None \<Rightarrow> Some s
     | Some wait \<Rightarrow> wakeup_all_del c s queue wakeup_flags wait
   }"

partial_function (option) wakeup_all_keep :: "sched_class \<Rightarrow> sync \<Rightarrow> nat \<Rightarrow> 32 word \<Rightarrow> nat \<Rightarrow> sync option" where
  "wakeup_all_keep c s queue wakeup_flags wait = do {
     s \<leftarrow> wakeup_wait c s queue wait wakeup_flags False;
     next \<leftarrow> wait_queue_next s queue wait;
     case next of
       None \<Rightarrow> Some s
     | Some wait \<Rightarrow> wakeup_all_keep c s queue wakeup_flags wait
   }"

declare wakeup_all_del.simps [code] wakeup_all_keep.simps [code]

definition wakeup_queue :: "sched_class \<Rightarrow> sync \<Rightarrow> nat \<Rightarrow> 32 word \<Rightarrow> bool \<Rightarrow> sync option" where
  "wakeup_queue c s queue wakeup_flags del =
     (case wait_queue_first s queue of
        None \<Rightarrow> Some s
      | Some wait \<Rightarrow> if del then wakeup_all_del c s queue wakeup_flags wait
                     else wakeup_all_keep c s queue wakeup_flags wait)"

definition wait_current_set :: "sync \<Rightarrow> nat \<Rightarrow> nat \<Rightarrow> 32 word \<Rightarrow> sync option" where
  "wait_current_set s queue wait wait_state = do {
     let cur = current (ker s);
     let s = wait_init s wait cur;
     let s = s\<lparr>ker := upd_proc cur (\<lambda>p. p\<lparr>p_state := PROC_SLEEPING, p_wait_state := wait_state\<rparr>) (ker s)\<rparr>;
     wait_queue_add s queue wait
   }"

definition wait_current_del :: "sync \<Rightarrow> nat \<Rightarrow> nat \<Rightarrow> sync option" where
  "wait_current_del s queue wait = (if wait_in_queue s wait then wait_queue_del s queue wait else Some s)"

section \<open>Semaphores\<close>

definition sem_init :: "sync \<Rightarrow> nat \<Rightarrow> int \<Rightarrow> sync" where
  "sem_init s sem v = wait_queue_init (s\<lparr>sem_value := (sem_value s)(sem := v)\<rparr>) sem"

text \<open>\<open>__up\<close>.\<close>

definition sem_up :: "sched_class \<Rightarrow> sync \<Rightarrow> nat \<Rightarrow> 32 word \<Rightarrow> sync option" where
  "sem_up c s sem wait_state =
     (case wait_queue_first s sem of
        None \<Rightarrow> Some (s\<lparr>sem_value := (sem_value s)(sem := sem_value s sem + 1)\<rparr>)
      | Some wait \<Rightarrow> do {
          p \<leftarrow> w_proc (waits s wait);
          kassert (p_wait_state (procs (ker s) p) = wait_state);
          wakeup_wait c s sem wait wait_state True
        })"

text \<open>\<open>__down\<close>, up to and including \<open>schedule\<close>: \<open>True\<close> when the thread got through, \<open>False\<close> when it
  sleeps and another thread runs.\<close>

definition sem_down_enter :: "sched_class \<Rightarrow> sync \<Rightarrow> nat \<Rightarrow> nat \<Rightarrow> 32 word \<Rightarrow> (bool \<times> sync) option" where
  "sem_down_enter c s sem wait wait_state =
     (if 0 < sem_value s sem then Some (True, s\<lparr>sem_value := (sem_value s)(sem := sem_value s sem - 1)\<rparr>)
      else do {
        s \<leftarrow> wait_current_set s sem wait wait_state;
        k \<leftarrow> schedule c (ker s);
        Some (False, s\<lparr>ker := k\<rparr>)
      })"

text \<open>\<open>__down\<close> after \<open>schedule\<close>, run by the thread that slept on \<open>wait\<close>.\<close>

definition sem_down_leave :: "sync \<Rightarrow> nat \<Rightarrow> nat \<Rightarrow> 32 word \<Rightarrow> (32 word \<times> sync) option" where
  "sem_down_leave s sem wait wait_state = do {
     s \<leftarrow> wait_current_del s sem wait;
     Some (if w_flags (waits s wait) \<noteq> wait_state then w_flags (waits s wait) else 0, s)
   }"

definition up :: "sched_class \<Rightarrow> sync \<Rightarrow> nat \<Rightarrow> sync option" where
  "up c s sem = sem_up c s sem WT_KSEM"

text \<open>\<open>down\<close> asserts that \<open>__down\<close> returned 0.\<close>

definition down_enter :: "sched_class \<Rightarrow> sync \<Rightarrow> nat \<Rightarrow> nat \<Rightarrow> (bool \<times> sync) option" where
  "down_enter c s sem wait = sem_down_enter c s sem wait WT_KSEM"

definition down_leave :: "sync \<Rightarrow> nat \<Rightarrow> nat \<Rightarrow> sync option" where
  "down_leave s sem wait = do {
     (flags, s) \<leftarrow> sem_down_leave s sem wait WT_KSEM;
     kassert (flags = 0);
     Some s
   }"

definition try_down :: "sync \<Rightarrow> nat \<Rightarrow> bool \<times> sync" where
  "try_down s sem =
     (if 0 < sem_value s sem then (True, s\<lparr>sem_value := (sem_value s)(sem := sem_value s sem - 1)\<rparr>) else (False, s))"

section \<open>Monitors\<close>

text \<open>\<open>cond_signal\<close> and \<open>cond_wait\<close> only print: the bodies their comments describe are missing.\<close>

definition cond_signal :: "sync \<Rightarrow> nat \<Rightarrow> sync" where "cond_signal s cvp = s"
definition cond_wait :: "sync \<Rightarrow> nat \<Rightarrow> sync" where "cond_wait s cvp = s"

section \<open>The invariant of a semaphore\<close>

text \<open>\<open>ws\<close> are the wait structures queued on \<open>sem\<close>, in order: each belongs to a different sleeping
  process that waits for this semaphore, and there are none while the counter is positive.\<close>

definition sem_inv :: "sync \<Rightarrow> nat \<Rightarrow> nat list \<Rightarrow> bool" where
  "sem_inv s sem ws \<longleftrightarrow> dlist (wait_links s) (WaitHead sem) (map WaitLink ws)
     \<and> 0 \<le> sem_value s sem \<and> (0 < sem_value s sem \<longrightarrow> ws = [])
     \<and> distinct (map (w_proc \<circ> waits s) ws)
     \<and> (\<forall>w \<in> set ws. w_queue (waits s w) = Some sem \<and> (\<exists>p. w_proc (waits s w) = Some p
          \<and> p_state (procs (ker s) p) = PROC_SLEEPING \<and> p_wait_state (procs (ker s) p) = WT_KSEM))"

lemma wait_first:
  "dlist (wait_links s) (WaitHead q) (map WaitLink ws) \<Longrightarrow>
   wait_queue_first s q = (case ws of [] \<Rightarrow> None | w # _ \<Rightarrow> Some w)"
  using dlist_next_head [of "wait_links s" "WaitHead q" "map WaitLink ws"]
  by (cases ws) (simp_all add: wait_queue_first_def Let_def)

context sched_policy
begin

lemma sem_up_wake:
  assumes inv: "sem_inv s sem (w # ws)" and sch: "sched_inv queued linkable (ker s)"
  shows "\<exists>s' p. up c s sem = Some s' \<and> sem_inv s' sem ws \<and> sched_inv queued linkable (ker s')
    \<and> w_proc (waits s w) = Some p \<and> p_state (procs (ker s') p) = PROC_RUNNABLE
    \<and> \<not> wait_in_queue s' w \<and> w_flags (waits s' w) = WT_KSEM \<and> sem_value s' = sem_value s
    \<and> (\<forall>q. q \<noteq> p \<longrightarrow> p_state (procs (ker s') q) = p_state (procs (ker s) q))"
proof -
  have dl: "dlist (wait_links s) (WaitHead sem) ([] @ WaitLink w # map WaitLink ws)"
    using inv by (simp add: sem_inv_def)
  obtain p where p: "w_proc (waits s w) = Some p" "p_state (procs (ker s) p) = PROC_SLEEPING"
    "p_wait_state (procs (ker s) p) = WT_KSEM" "w_queue (waits s w) = Some sem" using inv by (auto simp: sem_inv_def)
  obtain k where k: "wakeup_proc c (ker s) p = Some k" "sched_inv queued linkable k" "p_state (procs k p) = PROC_RUNNABLE"
    "\<forall>q. q \<noteq> p \<longrightarrow> same_proc (procs (ker s) q) (procs k q)" using wakeup_ok [OF sch, of p] p(2) by auto
  note sp = same_proc_fields [OF k(4) [rule_format]]
  let ?s = "s\<lparr>ker := k, waits := (waits s)(w := (waits s w)\<lparr>w_flags := WT_KSEM\<rparr>),
    wait_links := list_del_init (wait_links s) (WaitLink w)\<rparr>"
  have ne: "\<not> list_empty (wait_links s) (WaitLink w)"
    using dlist_no_self [OF dl, of "WaitLink w"] by (simp add: list_empty_def)
  have "up c s sem = Some ?s"
    using wait_first [of s sem "w # ws"] dl p k(1) ne
    by (simp add: up_def sem_up_def wakeup_wait_def wait_queue_del_def Let_def)
  moreover have "sem_inv ?s sem ws"
  proof -
    have nw: "w \<notin> set ws" using dlist_distinct [OF dl] by auto
    then have pr: "w_proc (waits ?s v) = w_proc (waits s v)" "w_queue (waits ?s v) = w_queue (waits s v)" for v by auto
    have "\<exists>q. w_proc (waits s v) = Some q \<and> p_state (procs k q) = PROC_SLEEPING \<and> p_wait_state (procs k q) = WT_KSEM"
      if v: "v \<in> set ws" for v
    proof -
      obtain q where q: "w_proc (waits s v) = Some q" "p_state (procs (ker s) q) = PROC_SLEEPING"
        "p_wait_state (procs (ker s) q) = WT_KSEM" using inv v by (auto simp: sem_inv_def)
      have "w_proc (waits s v) \<noteq> w_proc (waits s w)" using inv v by (force simp: sem_inv_def)
      then have "q \<noteq> p" using q(1) p(1) by auto
      with q sp show ?thesis by auto
    qed
    with inv pr dlist_del_init(1) [OF dl] show ?thesis by (auto simp: sem_inv_def comp_def)
  qed
  moreover have "\<not> wait_in_queue ?s w" using dlist_del_init(2) [OF dl] by (simp add: wait_in_queue_def)
  ultimately show ?thesis using p(1) k(2,3) sp by (intro exI [of _ ?s] exI [of _ p]) simp
qed

lemma sem_down_block:
  assumes inv: "sem_inv s sem ws" and sch: "sched_inv queued linkable (ker s)" and val: "sem_value s sem = 0"
    and cur: "p_state (procs (ker s) (current (ker s))) = PROC_RUNNABLE" "current (ker s) \<noteq> idleproc (ker s)"
    and idle: "p_state (procs (ker s) (idleproc (ker s))) = PROC_RUNNABLE"
    and w: "w \<notin> set ws"
  shows "\<exists>s'. down_enter c s sem w = Some (False, s') \<and> sem_inv s' sem (ws @ [w]) \<and> sched_inv queued linkable (ker s')
    \<and> w_proc (waits s' w) = Some (current (ker s)) \<and> p_state (procs (ker s') (current (ker s))) = PROC_SLEEPING
    \<and> current (ker s') \<noteq> current (ker s) \<and> sem_value s' = sem_value s"
proof -
  let ?cur = "current (ker s)" and ?f = "\<lambda>p. p\<lparr>p_state := PROC_SLEEPING, p_wait_state := WT_KSEM\<rparr>"
  let ?k = "upd_proc ?cur ?f (ker s)"
  let ?d = "list_init (wait_links s) (WaitLink w)"
  let ?s = "s\<lparr>ker := ?k, waits := (waits s)(w := (waits s w)\<lparr>w_proc := Some ?cur, w_flags := WT_INTERRUPTED, w_queue := Some sem\<rparr>),
    wait_links := list_add_before ?d (WaitHead sem) (WaitLink w)\<rparr>"
  have dl: "dlist ?d (WaitHead sem) (map WaitLink ws)"
    using inv w by (subst dlist_cong [of _ _ _ "wait_links s"]) (auto simp: sem_inv_def list_init_def)
  have dl': "dlist (wait_links ?s) (WaitHead sem) (map WaitLink ws @ [WaitLink w])"
    using dlist_add_tail [OF dl, of "WaitLink w"] w by auto
  have set: "wait_current_set s sem w WT_KSEM = Some ?s"
    by (simp add: wait_current_set_def wait_init_def wait_queue_add_def Let_def list_init_def list_empty_def)
  have rdy: "ready ?k = ready (ker s)" by (auto simp: ready_def)
  have inv1: "sched_inv queued linkable ?k"
    unfolding sched_inv_def rdy
  proof (intro conjI allI impI)
    show "queued ?k (ready (ker s))"
      using sch by (intro queued_cong [of ?k "ker s"]) (simp_all add: sched_inv_def)
    fix p assume "p \<notin> ready (ker s)"
    then show "linkable ?k p" using sch by (intro linkable_cong [of ?k "ker s"]) (simp_all add: sched_inv_def)
  qed
  obtain k' where k': "schedule c ?k = Some k'" "sched_inv queued linkable k'"
    "\<forall>p. p_state (procs k' p) = p_state (procs ?k p) \<and> p_wait_state (procs k' p) = p_wait_state (procs ?k p)"
    "p_state (procs k' (current k')) = PROC_RUNNABLE" using schedule_ok [OF inv1] idle cur by auto
  have st: "p_state (procs k' q) = (if q = ?cur then PROC_SLEEPING else p_state (procs (ker s) q))"
    "p_wait_state (procs k' q) = (if q = ?cur then WT_KSEM else p_wait_state (procs (ker s) q))" for q
    using k'(3) by auto
  have ncur: "w_proc (waits s v) \<noteq> Some ?cur" if "v \<in> set ws" for v
    using inv that cur(1) by (force simp: sem_inv_def)
  have "sem_inv (?s\<lparr>ker := k'\<rparr>) sem (ws @ [w])"
  proof -
    have "map (w_proc \<circ> waits ?s) ws = map (w_proc \<circ> waits s) ws" using w by (intro map_cong) auto
    moreover have "Some ?cur \<notin> set (map (w_proc \<circ> waits s) ws)" using ncur by fastforce
    moreover have "distinct (map (w_proc \<circ> waits s) ws)" using inv by (simp add: sem_inv_def)
    ultimately have "distinct (map (w_proc \<circ> waits ?s) (ws @ [w]))"
      unfolding map_append by (simp del: map_map map_eq_conv set_map)
    moreover have "\<exists>p. w_proc (waits ?s v) = Some p \<and> p_state (procs k' p) = PROC_SLEEPING
        \<and> p_wait_state (procs k' p) = WT_KSEM" if v: "v \<in> set (ws @ [w])" for v
    proof (cases "v = w")
      case True
      then show ?thesis using st by simp
    next
      case False
      with v have vw: "v \<in> set ws" by simp
      then obtain p where "w_proc (waits s v) = Some p" "p_state (procs (ker s) p) = PROC_SLEEPING"
        "p_wait_state (procs (ker s) p) = WT_KSEM" using inv by (auto simp: sem_inv_def)
      moreover from this ncur [OF vw] have "p \<noteq> ?cur" by auto
      ultimately show ?thesis using st False by simp
    qed
    moreover have "w_queue (waits ?s v) = Some sem" if "v \<in> set (ws @ [w])" for v
      using that inv by (auto simp: sem_inv_def)
    ultimately show ?thesis using dl' val by (simp add: sem_inv_def comp_def)
  qed
  moreover have "down_enter c s sem w = Some (False, ?s\<lparr>ker := k'\<rparr>)"
    using set k'(1) val by (simp add: down_enter_def sem_down_enter_def)
  moreover have "current k' \<noteq> ?cur" using k'(4) st(1) [of ?cur] by auto
  ultimately show ?thesis using k'(2) st(1) by (intro exI [of _ "?s\<lparr>ker := k'\<rparr>"]) simp
qed

end

lemma down_leave_woken:
  assumes "\<not> wait_in_queue s w" "w_flags (waits s w) = WT_KSEM"
  shows "down_leave s sem w = Some s"
  using assms by (simp add: down_leave_def sem_down_leave_def wait_current_del_def)

section \<open>Properties\<close>

text \<open>C14: Releasing a semaphore, with either scheduler class. On a well-formed semaphore, and when the scheduler's invariant holds (the
  run queue is well formed and holds exactly the runnable processes that neither run nor idle, and with round robin the run link of
  every other process, so of each waiter, points to itself), \<open>up\<close> returns and keeps the invariant. With
  no waiter it adds one to the counter. Otherwise it hands the semaphore to the process that waited
  longest: that process is runnable again and no longer queued, its \<open>down\<close> will return normally, the
  counter stays, and the other waiters keep waiting.\<close>

theorem sem_up_hands_over:
  assumes "(c, queued, linkable) \<in> policies" "sem_inv s sem ws" "sched_inv queued linkable (ker s)"
  shows "\<exists>s'. up c s sem = Some s' \<and> sched_inv queued linkable (ker s') \<and>
    (case ws of
       [] \<Rightarrow> sem_inv s' sem [] \<and> sem_value s' sem = sem_value s sem + 1 \<and> ker s' = ker s
     | w # ws' \<Rightarrow> sem_inv s' sem ws' \<and> sem_value s' = sem_value s
         \<and> (\<exists>p. w_proc (waits s w) = Some p \<and> p_state (procs (ker s') p) = PROC_RUNNABLE)
         \<and> down_leave s' sem w = Some s')"
proof (cases ws)
  case Nil
  then have "wait_queue_first s sem = None" using assms(2) wait_first [of s sem ws] by (simp add: sem_inv_def)
  with Nil assms(2,3) show ?thesis by (simp add: up_def sem_up_def sem_inv_def)
next
  case (Cons w ws')
  consider "c = stride_sched_class" "queued = stride_queued" "linkable = (\<lambda>_ _. True)"
    | "c = RR_sched_class" "queued = rr_queued" "linkable = rr_linkable"
    using assms(1) by (auto simp: policies_def)
  then obtain s' p where "up c s sem = Some s'" "sem_inv s' sem ws'" "sched_inv queued linkable (ker s')"
    "w_proc (waits s w) = Some p" "p_state (procs (ker s') p) = PROC_RUNNABLE" "\<not> wait_in_queue s' w"
    "w_flags (waits s' w) = WT_KSEM" "sem_value s' = sem_value s"
  proof cases
    case 1
    with st.sem_up_wake [of s sem w ws'] assms(2,3) Cons that show ?thesis by blast
  next
    case 2
    with rr.sem_up_wake [of s sem w ws'] assms(2,3) Cons that show ?thesis by blast
  qed
  with Cons down_leave_woken [of s' w sem] show ?thesis by auto
qed

text \<open>A semaphore with value 0 on top of the round robin state.\<close>

definition demo_sync :: sync where
  "demo_sync = sem_init \<lparr>ker = demo_rr, waits = \<lambda>_. \<lparr>w_proc = None, w_flags = 0, w_queue = None\<rparr>,
     wait_links = \<lparr>nxt = \<lambda>x. x, prv = \<lambda>x. x\<rparr>, sem_value = \<lambda>_. 0\<rparr> 5 0"

lemma demo_sync_facts: "sem_inv demo_sync 5 []" "ker demo_sync = demo_rr" "sem_value demo_sync 5 = 0"
  by (simp_all add: demo_sync_def sem_inv_def sem_init_def wait_queue_init_def list_init_def)

text \<open>Acquiring a semaphore, with either scheduler class. If the counter is positive, \<open>down\<close> takes one
  and goes on. If it is zero the calling process joins the end of the queue, sleeps, and another process
  runs; the semaphore and the scheduler stay well formed. The counter is never negative.\<close>

theorem sem_down_takes_or_blocks:
  assumes "(c, queued, linkable) \<in> policies" "sem_inv s sem ws" "sched_inv queued linkable (ker s)"
    and "p_state (procs (ker s) (current (ker s))) = PROC_RUNNABLE" "current (ker s) \<noteq> idleproc (ker s)"
    and "p_state (procs (ker s) (idleproc (ker s))) = PROC_RUNNABLE" "w \<notin> set ws"
  shows "\<exists>s'. if 0 < sem_value s sem
    then down_enter c s sem w = Some (True, s') \<and> sem_inv s' sem [] \<and> ker s' = ker s
      \<and> sem_value s' sem = sem_value s sem - 1
    else down_enter c s sem w = Some (False, s') \<and> sem_inv s' sem (ws @ [w]) \<and> sched_inv queued linkable (ker s')
      \<and> w_proc (waits s' w) = Some (current (ker s)) \<and> p_state (procs (ker s') (current (ker s))) = PROC_SLEEPING
      \<and> current (ker s') \<noteq> current (ker s) \<and> sem_value s' = sem_value s"
proof (cases "0 < sem_value s sem")
  case True
  then show ?thesis using assms(2) by (auto simp: down_enter_def sem_down_enter_def sem_inv_def)
next
  case False
  then have v: "sem_value s sem = 0" using assms(2) by (simp add: sem_inv_def)
  consider "c = stride_sched_class" "queued = stride_queued" "linkable = (\<lambda>_ _. True)"
    | "c = RR_sched_class" "queued = rr_queued" "linkable = rr_linkable"
    using assms(1) by (auto simp: policies_def)
  then show ?thesis
  proof cases
    case 1
    show ?thesis using st.sem_down_block [OF assms(2) assms(3) [unfolded 1] v assms(4-7)] v unfolding 1 by auto
  next
    case 2
    show ?thesis using rr.sem_down_block [OF assms(2) assms(3) [unfolded 2] v assms(4-7)] v unfolding 2 by auto
  qed
qed

theorem sem_down_takes_or_blocks_witness:
  "\<exists>s'. down_enter RR_sched_class demo_sync 5 9 = Some (False, s') \<and> p_state (procs (ker s') 1) = PROC_SLEEPING"
proof -
  have "p_state (procs demo_rr 1) = PROC_RUNNABLE" by (simp add: demo_rr_def demo_kern_def Let_def fresh_proc_def)
  then show ?thesis
    using sem_down_takes_or_blocks [of RR_sched_class rr_queued rr_linkable demo_sync 5 "[]" 9] demo_sync_facts demo_rr_sched
    by (auto simp: policies_def)
qed

text \<open>Process 1 blocks on the semaphore with the wait structure 9, and \<open>up\<close> wakes it.\<close>

theorem sem_up_hands_over_witness:
  "\<exists>s s'. down_enter RR_sched_class demo_sync 5 9 = Some (False, s) \<and> p_state (procs (ker s) 1) = PROC_SLEEPING
    \<and> up RR_sched_class s 5 = Some s' \<and> p_state (procs (ker s') 1) = PROC_RUNNABLE \<and> sem_value s' 5 = 0
    \<and> sem_inv s' 5 [] \<and> down_leave s' 5 9 = Some s'"
proof -
  have "p_state (procs demo_rr 1) = PROC_RUNNABLE" by (simp add: demo_rr_def demo_kern_def Let_def fresh_proc_def)
  then obtain s where s: "down_enter RR_sched_class demo_sync 5 9 = Some (False, s)" "sem_inv s 5 [9]" "sched_inv rr_queued rr_linkable (ker s)"
    "w_proc (waits s 9) = Some 1" "p_state (procs (ker s) 1) = PROC_SLEEPING" "sem_value s 5 = 0"
    using sem_down_takes_or_blocks [of RR_sched_class rr_queued rr_linkable demo_sync 5 "[]" 9] demo_sync_facts demo_rr_sched
    by (auto simp: policies_def)
  have "(RR_sched_class, rr_queued, rr_linkable) \<in> policies" by (simp add: policies_def)
  from sem_up_hands_over [OF this s(2,3)] obtain s' where "up RR_sched_class s 5 = Some s'" "sem_inv s' 5 []" "sem_value s' = sem_value s"
    "\<exists>p. w_proc (waits s 9) = Some p \<and> p_state (procs (ker s') p) = PROC_RUNNABLE" "down_leave s' 5 9 = Some s'"
    by auto
  with s show ?thesis by auto
qed

end
