(* ===== verification/HashChains.thy ===== *)
theory HashChains
  imports ListH
begin

text \<open>
  Hash tables of intrusive lists, as the process table and the table of file system inodes keep
  them: an array of list heads, and in every element a link into the chain of its hash value. The locale
  \<open>hash_chains\<close> holds for any two injections that name the heads and the links of the elements.
\<close>

text \<open>Every chain below \<open>N\<close> holds exactly the elements of \<open>S\<close> with its index.\<close>

definition chained :: "(nat \<Rightarrow> 'a) \<Rightarrow> ('n \<Rightarrow> 'a) \<Rightarrow> 'a dll \<Rightarrow> nat \<Rightarrow> ('n \<Rightarrow> nat) \<Rightarrow> 'n set \<Rightarrow> bool" where
  "chained head link d N h S \<longleftrightarrow> (\<forall>n < N. \<exists>ys. dlist d (head n) (map link ys) \<and> set ys = {p \<in> S. h p = n})"

lemma chained_cong: "(\<And>p. p \<in> S \<Longrightarrow> h p = h' p) \<Longrightarrow> chained head link d N h S = chained head link d N h' S"
  unfolding chained_def by (rule all_cong, rule ex_cong1) auto

locale hash_chains =
  fixes head :: "nat \<Rightarrow> 'a" and link :: "'n \<Rightarrow> 'a"
  assumes head_eq [simp]: "head m = head n \<longleftrightarrow> m = n"
    and link_eq [simp]: "link p = link q \<longleftrightarrow> p = q"
    and head_link [simp]: "head n \<noteq> link p"
begin

lemma link_head [simp]: "link p \<noteq> head n"
  using head_link [of n p] by (rule not_sym)

lemma link_in [simp]: "link p \<in> link ` A \<longleftrightarrow> p \<in> A"
  by auto

lemma head_in [simp]: "head n \<notin> link ` A"
  by auto

text \<open>Searching a chain.\<close>

lemma scan_none:
  assumes "chained head link d N h S" "n < N" "\<forall>p \<in> S. h p = n \<longrightarrow> \<not> P (link p)"
  shows "list_scan d (head n) P (head n) = Some (head n)"
proof -
  from assms(1,2) obtain ys where ys: "dlist d (head n) (map link ys)" "set ys = {p \<in> S. h p = n}"
    unfolding chained_def by blast
  have "find P (map link ys) = None" unfolding find_None_iff using ys(2) assms(3) by auto
  then show ?thesis using dlist_scan [OF ys(1), of P] by simp
qed

lemma scan_unique:
  assumes "chained head link d N h S" "h p < N" "p \<in> S" "P (link p)" "\<And>q. q \<in> S \<Longrightarrow> P (link q) \<Longrightarrow> q = p"
  shows "list_scan d (head (h p)) P (head (h p)) = Some (link p)"
proof -
  from assms(1,2) obtain ys where ys: "dlist d (head (h p)) (map link ys)" "set ys = {q \<in> S. h q = h p}"
    unfolding chained_def by blast
  have pin: "link p \<in> set (map link ys)" using assms(3) ys(2) by simp
  then have "find P (map link ys) \<noteq> None" unfolding find_None_iff using assms(4) by blast
  then obtain x where x: "find P (map link ys) = Some x" by blast
  then have px: "P x" "x \<in> set (map link ys)" by (auto simp: find_Some_iff)
  then obtain q where q: "x = link q" "q \<in> set ys" by auto
  have "q = p" by (rule assms(5)) (use px(1) q ys(2) in auto)
  then show ?thesis using dlist_scan [OF ys(1), of P] x q(1) by simp
qed

text \<open>Entering an element, and taking one out.\<close>

lemma chained_add:
  assumes c: "chained head link d N h S" and p: "p \<notin> S" "h p < N"
  shows "chained head link (list_add d (head (h p)) (link p)) N h (insert p S)"
proof -
  let ?d' = "list_add d (head (h p)) (link p)"
  obtain ys where ys: "dlist d (head (h p)) (map link ys)" "set ys = {q \<in> S. h q = h p}"
    using c p(2) unfolding chained_def by blast
  have "\<exists>zs. dlist ?d' (head m) (map link zs) \<and> set zs = {q \<in> insert p S. h q = m}" if m: "m < N" for m
  proof (cases "m = h p")
    case True
    have "link p \<notin> set (head (h p) # map link ys)" using ys(2) p(1) by auto
    from dlist_add_head [OF ys(1) this] True ys(2) show ?thesis by (intro exI [of _ "p # ys"]) auto
  next
    case False
    obtain zs where zs: "dlist d (head m) (map link zs)" "set zs = {q \<in> S. h q = m}"
      using c m unfolding chained_def by blast
    have "y \<notin> set (link p # head (h p) # map link ys)" if "y \<in> set (head m # map link zs)" for y
      using that ys(2) zs(2) p(1) False by auto
    then have "dlist ?d' (head m) (map link zs)"
      using zs(1) dlist_add_head_frame [OF ys(1)] dlist_cong [of "head m" "map link zs" ?d' d] by blast
    with zs(2) False show ?thesis by (intro exI [of _ zs]) auto
  qed
  then show ?thesis by (simp add: chained_def)
qed

lemma chained_del:
  assumes c: "chained head link d N h S" and p: "p \<in> S" "h p < N"
  shows "chained head link (list_del d (link p)) N h (S - {p})"
proof -
  let ?d' = "list_del d (link p)"
  obtain ys where ys: "dlist d (head (h p)) (map link ys)" "set ys = {q \<in> S. h q = h p}"
    using c p(2) unfolding chained_def by blast
  from ys(2) p have "p \<in> set ys" by simp
  then obtain us vs where uv: "ys = us @ p # vs" by (meson split_list)
  have dl: "dlist d (head (h p)) (map link us @ link p # map link vs)" using ys(1) uv by simp
  have dis: "p \<notin> set (us @ vs)" using dlist_distinct [OF dl] by auto
  have "\<exists>zs. dlist ?d' (head m) (map link zs) \<and> set zs = {q \<in> S - {p}. h q = m}" if m: "m < N" for m
  proof (cases "m = h p")
    case True
    have "set (us @ vs) = {q \<in> S - {p}. h q = m}" using ys(2) dis True by (auto simp: uv)
    with dlist_del [OF dl] True show ?thesis by (intro exI [of _ "us @ vs"]) simp
  next
    case False
    obtain zs where zs: "dlist d (head m) (map link zs)" "set zs = {q \<in> S. h q = m}"
      using c m unfolding chained_def by blast
    have sub: "set us \<union> set vs \<subseteq> {q \<in> S. h q = h p}" using ys(2) by (auto simp: uv)
    have "y \<notin> set (head (h p) # map link us @ map link vs)" if "y \<in> set (head m # map link zs)" for y
      using that sub zs(2) False by auto
    then have "dlist ?d' (head m) (map link zs)"
      using zs(1) dlist_del_frame [OF dl] dlist_cong [of "head m" "map link zs" ?d' d] by blast
    moreover have "set zs = {q \<in> S - {p}. h q = m}" using zs(2) False by auto
    ultimately show ?thesis by blast
  qed
  then show ?thesis by (simp add: chained_def)
qed

end

end
