(* ===== verification/ProcTable.thy ===== *)
theory ProcTable
  imports Proc HashChains
begin

text \<open>
  The process table of \<open>kern/process/proc.c\<close>: the allocation of process numbers
  (\<open>get_pid\<close>), the hash chains (\<open>hash_proc\<close>, \<open>find_proc\<close>), the list of all processes and
  the family pointers \<open>cptr\<close>, \<open>yptr\<close>, \<open>optr\<close> (\<open>set_links\<close>, \<open>remove_links\<close>, and the
  loop of \<open>do_exit\<close> that hands the children to \<open>initproc\<close>).
\<close>

section \<open>Process numbers\<close>

text \<open>The loops of \<open>get_pid\<close> from the label \<open>repeat\<close> on, standing at \<open>le\<close>; \<open>goto repeat\<close> starts again
  at the head.\<close>

partial_function (option) get_pid_scan :: "kern \<Rightarrow> ple \<Rightarrow> int \<Rightarrow> int \<Rightarrow> (int \<times> int) option" where
  "get_pid_scan k le lastpid safe =
     (let le = list_next (proc_links k) le in
      if le = ProcList then Some (lastpid, safe)
      else
        let pid = p_pid (procs k (le2list le)) in
        if pid = lastpid then
          (if lastpid + 1 \<ge> safe
           then get_pid_scan k ProcList (if lastpid + 1 \<ge> MAX_PID then 1 else lastpid + 1) MAX_PID
           else get_pid_scan k le (lastpid + 1) safe)
        else if pid > lastpid \<and> safe > pid then get_pid_scan k le lastpid pid
        else get_pid_scan k le lastpid safe)"

declare get_pid_scan.simps [code]

definition get_pid :: "kern \<Rightarrow> (int \<times> kern) option" where
  "get_pid k =
     (let lastpid = last_pid k + 1 in
      if lastpid \<ge> MAX_PID then do {
        (lastpid, safe) \<leftarrow> get_pid_scan k ProcList 1 MAX_PID;
        Some (lastpid, k\<lparr>last_pid := lastpid, next_safe := safe\<rparr>)
      } else if lastpid \<ge> next_safe k then do {
        (lastpid, safe) \<leftarrow> get_pid_scan k ProcList lastpid MAX_PID;
        Some (lastpid, k\<lparr>last_pid := lastpid, next_safe := safe\<rparr>)
      } else Some (lastpid, k\<lparr>last_pid := lastpid\<rparr>))"

text \<open>The numbers in use, and what the two static variables promise: no number strictly between
  \<open>last_pid\<close> and \<open>next_safe\<close> is in use.\<close>

definition pids :: "kern \<Rightarrow> nat list \<Rightarrow> int set" where
  "pids k xs = (\<lambda>p. p_pid (procs k p)) ` set xs"

definition pid_inv :: "kern \<Rightarrow> nat list \<Rightarrow> bool" where
  "pid_inv k xs \<longleftrightarrow> dlist (proc_links k) ProcList (map ListLink xs)
     \<and> 0 < last_pid k \<and> last_pid k \<le> MAX_PID \<and> next_safe k \<le> MAX_PID
     \<and> (\<forall>x \<in> pids k xs. x \<le> last_pid k \<or> next_safe k \<le> x)"

definition next_cand :: "int \<Rightarrow> int" where
  "next_cand x = (if x + 1 \<ge> MAX_PID then 1 else x + 1)"

text \<open>The numbers \<open>1 \<dots> MAX_PID - 1\<close> in cyclic order: some number not in use is reached from every
  start, so the scan restarts finitely often.\<close>

lemma MAX_PID_val: "MAX_PID = 8192"
  by (simp add: MAX_PID_def MAX_PROCESS_def)

lemma next_cand_range: "0 < x \<Longrightarrow> x < MAX_PID \<Longrightarrow> 0 < next_cand x \<and> next_cand x < MAX_PID"
  by (auto simp: next_cand_def MAX_PID_val)

lemma next_cand_iter:
  "0 < x \<Longrightarrow> x < MAX_PID \<Longrightarrow> (next_cand ^^ n) x = (x - 1 + int n) mod (MAX_PID - 1) + 1"
proof (induction n)
  case 0
  then show ?case by (simp add: MAX_PID_val)
next
  case (Suc n)
  let ?y = "(x - 1 + int n) mod 8191"
  have y: "0 \<le> ?y" "?y < 8191" by simp_all
  have "(x - 1 + int (Suc n)) mod 8191 = (?y + 1) mod 8191" by (simp add: mod_simps algebra_simps)
  also have "\<dots> = (if ?y = 8190 then 0 else ?y + 1)" using y by (cases "?y = 8190") auto
  finally have "(x - 1 + int (Suc n)) mod 8191 = (if ?y = 8190 then 0 else ?y + 1)" .
  moreover have "(next_cand ^^ n) x = ?y + 1" using Suc by (simp add: MAX_PID_val)
  then have "(next_cand ^^ Suc n) x = (if ?y + 2 \<ge> 8192 then 1 else ?y + 2)"
    by (simp add: next_cand_def MAX_PID_val)
  moreover have "?y + 2 \<ge> 8192 \<longleftrightarrow> ?y = 8190" using y by linarith
  ultimately show ?case by (simp add: MAX_PID_val)
qed

lemma free_cand:
  assumes "finite P" "card P < nat (MAX_PID - 1)" "0 < x" "x < MAX_PID"
  shows "\<exists>n. (next_cand ^^ n) x \<notin> P"
proof -
  have "card {1 ..< MAX_PID} = nat (MAX_PID - 1)" by simp
  with assms(1,2) have "\<not> {1 ..< MAX_PID} \<subseteq> P"
    by (metis card_mono not_le)
  then obtain y where y: "0 < y" "y < MAX_PID" "y \<notin> P" by fastforce
  let ?n = "nat ((y - x) mod (MAX_PID - 1))"
  have "(next_cand ^^ ?n) x = (x - 1 + (y - x) mod 8191) mod 8191 + 1"
    using next_cand_iter [OF assms(3,4), of ?n] by (simp add: MAX_PID_val)
  also have "\<dots> = (y - 1) mod 8191 + 1" by (simp add: mod_simps)
  also have "\<dots> = y" using y by (simp add: MAX_PID_val)
  finally show ?thesis using y(3) by metis
qed

definition steps_to_free :: "int set \<Rightarrow> int \<Rightarrow> nat" where
  "steps_to_free P x = (LEAST n. (next_cand ^^ n) x \<notin> P)"

lemma steps_to_free_step:
  assumes "x \<in> P" "\<exists>n. (next_cand ^^ n) x \<notin> P"
  shows "steps_to_free P x = Suc (steps_to_free P (next_cand x))"
proof -
  from assms(2) obtain m where m: "(next_cand ^^ m) x \<notin> P" by blast
  have "(LEAST n. (next_cand ^^ n) x \<notin> P) = Suc (LEAST n. (next_cand ^^ Suc n) x \<notin> P)"
    by (rule Least_Suc [where P = "\<lambda>n. (next_cand ^^ n) x \<notin> P", OF m]) (use assms(1) in simp)
  then show ?thesis by (simp add: steps_to_free_def funpow_swap1 del: funpow.simps)
      (simp add: funpow_swap1)
qed

text \<open>What holds of a scan that has passed \<open>us\<close>.\<close>

definition scanned :: "kern \<Rightarrow> nat list \<Rightarrow> int \<Rightarrow> int \<Rightarrow> bool" where
  "scanned k us lp safe \<longleftrightarrow> 0 < lp \<and> lp < MAX_PID \<and> lp < safe \<and> safe \<le> MAX_PID
     \<and> (\<forall>x \<in> pids k us. x < lp \<or> safe \<le> x)"

lemma pids_simps [simp]: "pids k [] = {}" "pids k (x # xs) = insert (p_pid (procs k x)) (pids k xs)"
  "pids k (xs @ ys) = pids k xs \<union> pids k ys"
  by (auto simp: pids_def)

lemma scanned_step:
  assumes "scanned k us lp safe" "p_pid (procs k v) \<noteq> lp"
  shows "scanned k (us @ [v]) lp (if p_pid (procs k v) > lp \<and> safe > p_pid (procs k v) then p_pid (procs k v) else safe)"
  using assms by (auto simp: scanned_def)

lemma get_pid_scan_ok:
  assumes dl: "dlist (proc_links k) ProcList (map ListLink xs)"
    and free: "\<forall>x. 0 < x \<and> x < MAX_PID \<longrightarrow> (\<exists>n. (next_cand ^^ n) x \<notin> pids k xs)"
  shows "xs = us @ vs \<Longrightarrow> scanned k us lp safe \<Longrightarrow>
    \<exists>lp' safe'. get_pid_scan k (last (ProcList # map ListLink us)) lp safe = Some (lp', safe') \<and> scanned k xs lp' safe'"
proof (induction "steps_to_free (pids k xs) lp" arbitrary: us vs lp safe rule: less_induct)
  case less
  note outer = less.hyps
  from less.prems show ?case
  proof (induction vs arbitrary: us safe)
    case Nil
    have "list_next (proc_links k) (last (ProcList # map ListLink us)) = ProcList"
      using dlist_next [of "proc_links k" ProcList "map ListLink us" "[]"] dl Nil by simp
    then show ?case using Nil by (subst get_pid_scan.simps) (simp add: Let_def del: last.simps)
  next
    case (Cons v vs)
    let ?le = "last (ProcList # map ListLink us)" and ?P = "pids k xs"
    have nx: "list_next (proc_links k) ?le = ListLink v"
      using dlist_next [of "proc_links k" ProcList "map ListLink us" "map ListLink (v # vs)"] dl Cons.prems(1) by simp
    have pos: "last (ProcList # map ListLink (us @ [v])) = ListLink v" by simp
    have rng: "0 < lp" "lp < MAX_PID" using Cons.prems(2) by (auto simp: scanned_def)
    show ?case
    proof (cases "p_pid (procs k v) = lp")
      case True
      then have inP: "lp \<in> ?P" using Cons.prems(1) by auto
      then have steps: "steps_to_free ?P (next_cand lp) < steps_to_free ?P lp"
        using steps_to_free_step [OF inP] free rng by simp
      show ?thesis
      proof (cases "lp + 1 \<ge> safe")
        case True
        have "get_pid_scan k ?le lp safe = get_pid_scan k ProcList (next_cand lp) MAX_PID"
          using True \<open>p_pid (procs k v) = lp\<close> nx
          by (subst get_pid_scan.simps) (simp add: Let_def next_cand_def del: last.simps)
        moreover have "scanned k [] (next_cand lp) MAX_PID"
          using next_cand_range [OF rng] by (simp add: scanned_def)
        ultimately show ?thesis using outer [OF steps, of "[]" xs MAX_PID] by simp
      next
        case False
        then have nc: "next_cand lp = lp + 1" using Cons.prems(2) by (auto simp: next_cand_def scanned_def)
        have "get_pid_scan k ?le lp safe = get_pid_scan k (ListLink v) (lp + 1) safe"
          using False \<open>p_pid (procs k v) = lp\<close> nx
          by (subst get_pid_scan.simps) (simp add: Let_def del: last.simps)
        moreover have "scanned k (us @ [v]) (lp + 1) safe"
          using Cons.prems(2) False \<open>p_pid (procs k v) = lp\<close> by (force simp: scanned_def)
        ultimately show ?thesis using outer [OF steps, of "us @ [v]" vs safe] nc Cons.prems(1) pos by simp
      qed
    next
      case False
      let ?safe = "if p_pid (procs k v) > lp \<and> safe > p_pid (procs k v) then p_pid (procs k v) else safe"
      have "get_pid_scan k ?le lp safe = get_pid_scan k (ListLink v) lp ?safe"
        using False nx by (subst get_pid_scan.simps) (simp add: Let_def del: last.simps)
      then show ?thesis
        using Cons.IH [of "us @ [v]" ?safe] Cons.prems(1) scanned_step [OF Cons.prems(2) False] pos by simp
    qed
  qed
qed

text \<open>\<open>get_pid\<close> returns, and its number is not in use.\<close>

lemma get_pid_ok:
  assumes inv: "pid_inv k xs" and room: "int (length xs) < MAX_PID - 1"
  shows "\<exists>r safe. get_pid k = Some (r, k\<lparr>last_pid := r, next_safe := safe\<rparr>) \<and> 0 < r \<and> r < MAX_PID \<and> r \<notin> pids k xs
    \<and> pid_inv (k\<lparr>last_pid := r, next_safe := safe\<rparr>) xs"
proof -
  have dl: "dlist (proc_links k) ProcList (map ListLink xs)" using inv by (simp add: pid_inv_def)
  have "card (pids k xs) \<le> length xs" unfolding pids_def by (meson card_image_le card_length finite_set le_trans)
  with room have free: "\<forall>x. 0 < x \<and> x < MAX_PID \<longrightarrow> (\<exists>n. (next_cand ^^ n) x \<notin> pids k xs)"
    by (intro allI impI free_cand) (auto simp: pids_def)
  have scan: "\<exists>r safe. get_pid_scan k ProcList lp MAX_PID = Some (r, safe) \<and> scanned k xs r safe"
    if "0 < lp" "lp < MAX_PID" for lp
    using get_pid_scan_ok [OF dl free, of "[]" xs lp MAX_PID] that by (simp add: scanned_def)
  have ret: ?thesis if "get_pid k = Some (r, k\<lparr>last_pid := r, next_safe := safe\<rparr>)" "scanned k xs r safe" for r safe
  proof (rule exI [of _ r], rule exI [of _ safe], intro conjI)
    have pk: "pids (k\<lparr>last_pid := r, next_safe := safe\<rparr>) xs = pids k xs" by (simp add: pids_def)
    have s: "0 < r" "r < MAX_PID" "safe \<le> MAX_PID" "\<forall>x \<in> pids k xs. x < r \<or> safe \<le> x" "r < safe"
      using that(2) by (auto simp: scanned_def)
    show "get_pid k = Some (r, k\<lparr>last_pid := r, next_safe := safe\<rparr>)" by (rule that(1))
    show "0 < r" "r < MAX_PID" by (rule s)+
    show "r \<notin> pids k xs" using s(4,5) by force
    show "pid_inv (k\<lparr>last_pid := r, next_safe := safe\<rparr>) xs"
      using dl s by (auto simp: pid_inv_def pk)
  qed
  show ?thesis
  proof (cases "last_pid k + 1 \<ge> MAX_PID")
    case True
    from scan [of 1] obtain r safe where "get_pid_scan k ProcList 1 MAX_PID = Some (r, safe)" "scanned k xs r safe"
      by (auto simp: MAX_PID_val)
    with True show ?thesis by (intro ret [of r safe]) (simp_all add: get_pid_def)
  next
    case False
    show ?thesis
    proof (cases "last_pid k + 1 \<ge> next_safe k")
      case True
      from scan [of "last_pid k + 1"] obtain r safe where
        "get_pid_scan k ProcList (last_pid k + 1) MAX_PID = Some (r, safe)" "scanned k xs r safe"
        using False inv by (auto simp: pid_inv_def)
      with True False show ?thesis by (intro ret [of r safe]) (simp_all add: get_pid_def Let_def)
    next
      case safe: False
      have "get_pid k = Some (last_pid k + 1, k\<lparr>last_pid := last_pid k + 1, next_safe := next_safe k\<rparr>)"
        using False safe by (cases k) (simp add: get_pid_def Let_def)
      moreover have "scanned k xs (last_pid k + 1) (next_safe k)"
        using False safe inv by (force simp: pid_inv_def scanned_def)
      ultimately show ?thesis by (rule ret)
    qed
  qed
qed

section \<open>Hash chains\<close>

definition GOLDEN_RATIO_PRIME_32 :: "32 word" where "GOLDEN_RATIO_PRIME_32 = 0x9e370001"

text \<open>\<open>hash32\<close> of \<open>libs/hash.c\<close>: the multiplication is truncated to 32 bits.\<close>

definition hash32 :: "32 word \<Rightarrow> nat \<Rightarrow> 32 word" where
  "hash32 val bits = drop_bit (32 - bits) (val * GOLDEN_RATIO_PRIME_32)"

definition HASH_SHIFT :: nat where "HASH_SHIFT = 10"
definition HASH_LIST_SIZE :: nat where "HASH_LIST_SIZE = 2 ^ HASH_SHIFT"

definition pid_hashfn :: "int \<Rightarrow> nat" where
  "pid_hashfn x = unat (hash32 (of_int x) HASH_SHIFT)"

text \<open>The index is inside \<open>hash_list\<close> for every \<open>x\<close>.\<close>

lemma pid_hashfn_bound: "pid_hashfn x < HASH_LIST_SIZE"
proof -
  have "unat (w :: 32 word) div 2 ^ 22 < 2 ^ 10" for w
  proof -
    have "unat w < 2 ^ LENGTH(32)" by (rule unsigned_less)
    then show ?thesis by (simp add: div_less_iff_less_mult)
  qed
  then show ?thesis
    by (simp add: pid_hashfn_def hash32_def HASH_SHIFT_def HASH_LIST_SIZE_def drop_bit_eq_div unat_div)
qed

definition hash_proc :: "kern \<Rightarrow> nat \<Rightarrow> kern" where
  "hash_proc k proc = k\<lparr>hash_links := list_add (hash_links k) (HashList (pid_hashfn (p_pid (procs k proc)))) (HashLink proc)\<rparr>"

definition unhash_proc :: "kern \<Rightarrow> nat \<Rightarrow> kern" where
  "unhash_proc k proc = k\<lparr>hash_links := list_del (hash_links k) (HashLink proc)\<rparr>"

definition find_proc :: "kern \<Rightarrow> int \<Rightarrow> nat option option" where
  "find_proc k pid =
     (if 0 < pid \<and> pid < MAX_PID then do {
        le \<leftarrow> list_scan (hash_links k) (HashList (pid_hashfn pid)) (\<lambda>le. p_pid (procs k (le2hash le)) = pid)
               (HashList (pid_hashfn pid));
        Some (if le = HashList (pid_hashfn pid) then None else Some (le2hash le))
      } else Some None)"

interpretation pid_hash: hash_chains HashList HashLink
  by unfold_locales simp_all

text \<open>Every chain holds exactly the processes of \<open>S\<close> with its index, and numbers identify processes.\<close>

definition hash_inv :: "kern \<Rightarrow> nat set \<Rightarrow> bool" where
  "hash_inv k S \<longleftrightarrow> chained HashList HashLink (hash_links k) HASH_LIST_SIZE (\<lambda>p. pid_hashfn (p_pid (procs k p))) S
     \<and> (\<forall>p \<in> S. \<forall>q \<in> S. p_pid (procs k p) = p_pid (procs k q) \<longrightarrow> p = q)
     \<and> (\<forall>p \<in> S. 0 < p_pid (procs k p) \<and> p_pid (procs k p) < MAX_PID)"

lemma find_proc_ok:
  assumes "hash_inv k S"
  shows "find_proc k pid = Some (if \<exists>p \<in> S. p_pid (procs k p) = pid then Some (THE p. p \<in> S \<and> p_pid (procs k p) = pid) else None)"
proof (cases "0 < pid \<and> pid < MAX_PID")
  case False
  then show ?thesis using assms by (auto simp: find_proc_def hash_inv_def)
next
  case True
  let ?n = "pid_hashfn pid" and ?P = "\<lambda>le. p_pid (procs k (le2hash le)) = pid"
  have c: "chained HashList HashLink (hash_links k) HASH_LIST_SIZE (\<lambda>p. pid_hashfn (p_pid (procs k p))) S"
    using assms by (simp add: hash_inv_def)
  show ?thesis
  proof (cases "\<exists>p \<in> S. p_pid (procs k p) = pid")
    case False
    then have "list_scan (hash_links k) (HashList ?n) ?P (HashList ?n) = Some (HashList ?n)"
      by (intro pid_hash.scan_none [OF c pid_hashfn_bound]) auto
    with False True show ?thesis by (simp add: find_proc_def)
  next
    case ex: True
    then obtain p where p: "p \<in> S" "p_pid (procs k p) = pid" by blast
    have uniq: "q = p" if "q \<in> S" "p_pid (procs k q) = pid" for q
      using assms [unfolded hash_inv_def, THEN conjunct2, THEN conjunct1] that p by metis
    have "list_scan (hash_links k) (HashList ?n) ?P (HashList ?n) = Some (HashLink p)"
      using pid_hash.scan_unique [OF c pid_hashfn_bound p(1), of ?P] p(2) uniq by simp
    moreover have "(THE p. p \<in> S \<and> p_pid (procs k p) = pid) = p" using p uniq by blast
    ultimately show ?thesis using ex True by (simp add: find_proc_def)
  qed
qed

text \<open>Entering a process under a new number, and taking one out.\<close>

lemma hash_proc_inv:
  assumes inv: "hash_inv k S" and p: "p \<notin> S" "0 < p_pid (procs k p)" "p_pid (procs k p) < MAX_PID"
    "\<forall>q \<in> S. p_pid (procs k q) \<noteq> p_pid (procs k p)"
  shows "hash_inv (hash_proc k p) (insert p S)"
proof -
  have "\<forall>q \<in> insert p S. \<forall>r \<in> insert p S. p_pid (procs k q) = p_pid (procs k r) \<longrightarrow> q = r"
    using inv p(4) unfolding hash_inv_def by (metis insert_iff)
  then show ?thesis
    using inv p pid_hash.chained_add [where h = "\<lambda>p. pid_hashfn (p_pid (procs k p))" and p = p, OF _ p(1) pid_hashfn_bound]
    by (simp add: hash_inv_def hash_proc_def)
qed

lemma unhash_proc_inv:
  assumes inv: "hash_inv k S" and p: "p \<in> S"
  shows "hash_inv (unhash_proc k p) (S - {p})"
  using inv pid_hash.chained_del [where h = "\<lambda>p. pid_hashfn (p_pid (procs k p))" and p = p, OF _ p pid_hashfn_bound]
  by (simp add: hash_inv_def unhash_proc_def)

end
