(* ===== verification/Family.thy ===== *)
theory Family
  imports ProcTable
begin

text \<open>
  The family pointers of processes: \<open>set_links\<close>, \<open>remove_links\<close>, and the loop of \<open>do_exit\<close>
  that hands the children of an exiting process to \<open>initproc\<close>. \<open>family k P kids\<close> says that the
  pointers of the processes \<open>P\<close> form exactly the tree given by \<open>p_parent\<close>: the children of
  \<open>q\<close>, youngest first, are \<open>kids q\<close>.
\<close>

section \<open>The routines\<close>

definition set_links :: "kern \<Rightarrow> nat \<Rightarrow> kern option" where
  "set_links k proc = do {
     let k = k\<lparr>proc_links := list_add (proc_links k) ProcList (ListLink proc)\<rparr>;
     let k = upd_proc proc (\<lambda>p. p\<lparr>p_yptr := None\<rparr>) k;
     parent \<leftarrow> p_parent (procs k proc);
     let k = upd_proc proc (\<lambda>p. p\<lparr>p_optr := p_cptr (procs k parent)\<rparr>) k;
     let k = (case p_optr (procs k proc) of
                None \<Rightarrow> k
              | Some optr \<Rightarrow> upd_proc optr (\<lambda>p. p\<lparr>p_yptr := Some proc\<rparr>) k);
     let k = upd_proc parent (\<lambda>p. p\<lparr>p_cptr := Some proc\<rparr>) k;
     Some (k\<lparr>nr_process := nr_process k + 1\<rparr>)
   }"

definition remove_links :: "kern \<Rightarrow> nat \<Rightarrow> kern option" where
  "remove_links k proc = do {
     let k = k\<lparr>proc_links := list_del (proc_links k) (ListLink proc)\<rparr>;
     let k = (case p_optr (procs k proc) of
                None \<Rightarrow> k
              | Some optr \<Rightarrow> upd_proc optr (\<lambda>p. p\<lparr>p_yptr := p_yptr (procs k proc)\<rparr>) k);
     k \<leftarrow> (case p_yptr (procs k proc) of
              Some yptr \<Rightarrow> Some (upd_proc yptr (\<lambda>p. p\<lparr>p_optr := p_optr (procs k proc)\<rparr>) k)
            | None \<Rightarrow> do {
                parent \<leftarrow> p_parent (procs k proc);
                Some (upd_proc parent (\<lambda>p. p\<lparr>p_cptr := p_optr (procs k proc)\<rparr>) k)
              });
     Some (k\<lparr>nr_process := nr_process k - 1\<rparr>)
   }"

text \<open>One turn of the loop of \<open>do_exit\<close>, without the wakeup: the youngest child of \<open>cur\<close> becomes the
  youngest child of \<open>init\<close>.\<close>

definition adopt_child :: "kern \<Rightarrow> nat \<Rightarrow> nat \<Rightarrow> nat \<Rightarrow> kern" where
  "adopt_child k cur init proc =
     (let k = upd_proc cur (\<lambda>p. p\<lparr>p_cptr := p_optr (procs k proc)\<rparr>) k;
          k = upd_proc proc (\<lambda>p. p\<lparr>p_yptr := None\<rparr>) k;
          k = upd_proc proc (\<lambda>p. p\<lparr>p_optr := p_cptr (procs k init)\<rparr>) k;
          k = (case p_optr (procs k proc) of
                 None \<Rightarrow> k
               | Some c \<Rightarrow> upd_proc c (\<lambda>p. p\<lparr>p_yptr := Some proc\<rparr>) k);
          k = upd_proc proc (\<lambda>p. p\<lparr>p_parent := Some init\<rparr>) k
      in upd_proc init (\<lambda>p. p\<lparr>p_cptr := Some proc\<rparr>) k)"

section \<open>The process tree\<close>

fun siblings :: "(nat \<Rightarrow> proc_struct) \<Rightarrow> nat option \<Rightarrow> nat list \<Rightarrow> bool" where
  "siblings ps y [] \<longleftrightarrow> True"
| "siblings ps y (c # cs) \<longleftrightarrow> p_yptr (ps c) = y \<and> p_optr (ps c) = (case cs of [] \<Rightarrow> None | d # _ \<Rightarrow> Some d)
     \<and> siblings ps (Some c) cs"

definition first_of :: "nat list \<Rightarrow> nat option" where
  "first_of cs = (case cs of [] \<Rightarrow> None | c # _ \<Rightarrow> Some c)"

definition family :: "kern \<Rightarrow> nat set \<Rightarrow> (nat \<Rightarrow> nat list) \<Rightarrow> bool" where
  "family k P kids \<longleftrightarrow> (\<forall>q \<in> P. p_cptr (procs k q) = first_of (kids q) \<and> siblings (procs k) None (kids q)
     \<and> distinct (kids q) \<and> set (kids q) = {p \<in> P. p_parent (procs k p) = Some q})"

lemma first_of_simps [simp]: "first_of [] = None" "first_of (c # cs) = Some c"
  by (simp_all add: first_of_def)

lemma siblings_cong:
  "\<forall>c \<in> set cs. p_yptr (ps' c) = p_yptr (ps c) \<and> p_optr (ps' c) = p_optr (ps c) \<Longrightarrow>
   siblings ps' y cs \<longleftrightarrow> siblings ps y cs"
  by (induction cs arbitrary: y) auto

lemma siblings_append:
  "siblings ps y (us @ c # vs) \<Longrightarrow> p_yptr (ps c) = (case rev us of [] \<Rightarrow> y | u # _ \<Rightarrow> Some u)
     \<and> p_optr (ps c) = first_of vs"
proof (induction us arbitrary: y)
  case Nil
  then show ?case by (simp add: first_of_def)
next
  case (Cons u us)
  then have *: "p_yptr (ps c) = (case rev us of [] \<Rightarrow> Some u | u # _ \<Rightarrow> Some u)" "p_optr (ps c) = first_of vs" by auto
  then show ?case by (cases us rule: rev_cases) auto
qed

lemma familyD:
  assumes "family k P kids" "q \<in> P"
  shows "siblings (procs k) None (kids q)" "distinct (kids q)" "p_cptr (procs k q) = first_of (kids q)"
    "set (kids q) = {p \<in> P. p_parent (procs k p) = Some q}"
  using assms by (simp_all add: family_def)

text \<open>Families of two parents do not share a child.\<close>

lemma family_disjoint: "family k P kids \<Longrightarrow> q \<in> P \<Longrightarrow> r \<in> P \<Longrightarrow> c \<in> set (kids q) \<Longrightarrow> c \<in> set (kids r) \<Longrightarrow> q = r"
  by (auto simp: family_def)

lemma family_kids_in: "family k P kids \<Longrightarrow> q \<in> P \<Longrightarrow> set (kids q) \<subseteq> P"
  by (auto simp: family_def)

text \<open>A new head of a sibling list.\<close>

lemma siblings_Cons_new:
  assumes "siblings ps None cs" "distinct (c # cs)"
    and "p_yptr (ps' c) = None" "p_optr (ps' c) = first_of cs"
    and "\<forall>d \<in> set cs. p_optr (ps' d) = p_optr (ps d) \<and> p_yptr (ps' d) = (if first_of cs = Some d then Some c else p_yptr (ps d))"
  shows "siblings ps' None (c # cs)"
proof (cases cs)
  case Nil
  with assms show ?thesis by simp
next
  case (Cons d ds)
  have "siblings ps' (Some d) ds \<longleftrightarrow> siblings ps (Some d) ds"
    by (rule siblings_cong) (use assms(2,5) Cons in auto)
  with assms Cons show ?thesis by simp
qed

text \<open>Registering a new process as a child.\<close>

lemma set_links_family:
  assumes fam: "family k P kids" and p: "p \<notin> P" "q \<in> P" "p_parent (procs k p) = Some q" "p_cptr (procs k p) = None"
    and others: "\<forall>r \<in> P. p_parent (procs k r) \<noteq> Some p"
    and dl: "dlist (proc_links k) ProcList (map ListLink xs)" "p \<notin> set xs"
  shows "\<exists>k'. set_links k p = Some k' \<and> family k' (insert p P) (kids(q := p # kids q, p := []))
    \<and> dlist (proc_links k') ProcList (map ListLink (p # xs)) \<and> nr_process k' = nr_process k + 1
    \<and> k'\<lparr>procs := procs k, proc_links := proc_links k, nr_process := nr_process k\<rparr> = k
    \<and> (\<forall>r. p_pid (procs k' r) = p_pid (procs k r) \<and> p_state (procs k' r) = p_state (procs k r)
         \<and> p_rq (procs k' r) = p_rq (procs k r) \<and> p_parent (procs k' r) = p_parent (procs k r))"
proof -
  let ?ps = "procs k"
  have nq: "p \<noteq> q" using p by auto
  define ps1 where "ps1 = ?ps(p := (?ps p)\<lparr>p_yptr := None, p_optr := p_cptr (?ps q)\<rparr>)"
  define ps2 where "ps2 = (case p_cptr (?ps q) of None \<Rightarrow> ps1 | Some o' \<Rightarrow> ps1(o' := (ps1 o')\<lparr>p_yptr := Some p\<rparr>))"
  define ps3 where "ps3 = ps2(q := (ps2 q)\<lparr>p_cptr := Some p\<rparr>)"
  let ?k' = "k\<lparr>procs := ps3, proc_links := list_add (proc_links k) ProcList (ListLink p), nr_process := nr_process k + 1\<rparr>"
  have sl: "set_links k p = Some ?k'"
    using p(3) nq by (auto simp: set_links_def upd_proc_def ps1_def ps2_def ps3_def Let_def split: option.split)
  have cq: "p_cptr (?ps q) = first_of (kids q)" using fam p(2) by (simp add: family_def)
  have first: "first_of (kids q) = Some d \<Longrightarrow> d \<in> P \<and> d \<in> set (kids q)" for d
    using family_kids_in [OF fam p(2)] by (cases "kids q") auto
  have fld: "p_parent (ps3 r) = p_parent (?ps r)" "p_pid (ps3 r) = p_pid (?ps r)" "p_state (ps3 r) = p_state (?ps r)"
    "p_rq (ps3 r) = p_rq (?ps r)"
    "p_cptr (ps3 r) = (if r = q then Some p else p_cptr (?ps r))" for r
    using nq by (auto simp: ps1_def ps2_def ps3_def split: option.split)
  have sib: "p_optr (ps3 r) = (if r = p then first_of (kids q) else p_optr (?ps r))"
    "p_yptr (ps3 r) = (if first_of (kids q) = Some r then Some p else if r = p then None else p_yptr (?ps r))" for r
    using first p(1) nq by (auto simp: ps1_def ps2_def ps3_def cq split: option.split)
  have fp: "first_of (kids q) \<noteq> Some p" using first p(1) by blast
  have "family ?k' (insert p P) (kids(q := p # kids q, p := []))"
    unfolding family_def
  proof
    fix r assume r: "r \<in> insert p P"
    consider "r = p" | "r = q" | "r \<in> P" "r \<noteq> q" "r \<noteq> p" using r by blast
    then show "p_cptr (procs ?k' r) = first_of ((kids(q := p # kids q, p := [])) r)
      \<and> siblings (procs ?k') None ((kids(q := p # kids q, p := [])) r)
      \<and> distinct ((kids(q := p # kids q, p := [])) r)
      \<and> set ((kids(q := p # kids q, p := [])) r) = {x \<in> insert p P. p_parent (procs ?k' x) = Some r}"
    proof cases
      case 1
      have "{x \<in> insert p P. p_parent (procs ?k' x) = Some p} = {}" using others p(3) nq fld by auto
      with 1 p(4) nq fld show ?thesis by simp
    next
      case 2
      have kq: "siblings ?ps None (kids q)" "distinct (p # kids q)"
        "set (kids q) = {x \<in> P. p_parent (?ps x) = Some q}" using fam p by (auto simp: family_def)
      have pin: "p \<notin> set (kids q)" using kq(2) by simp
      have "siblings ps3 None (p # kids q)"
        by (rule siblings_Cons_new [OF kq(1,2)]) (use sib fp pin in auto)
      moreover have "set (p # kids q) = {x \<in> insert p P. p_parent (ps3 x) = Some q}" using kq(3) p fld by auto
      ultimately show ?thesis using 2 nq kq(2) fld by simp
    next
      case 3
      have kr: "p_cptr (?ps r) = first_of (kids r)" "siblings ?ps None (kids r)" "distinct (kids r)"
        "set (kids r) = {x \<in> P. p_parent (?ps x) = Some r}" using fam 3 by (auto simp: family_def)
      have "\<forall>c \<in> set (kids r). p_yptr (ps3 c) = p_yptr (?ps c) \<and> p_optr (ps3 c) = p_optr (?ps c)"
      proof
        fix c assume c: "c \<in> set (kids r)"
        then have "c \<noteq> p" using family_kids_in [OF fam 3(1)] p(1) by auto
        moreover have "first_of (kids q) \<noteq> Some c" using first family_disjoint [OF fam p(2) 3(1)] c 3(2) by blast
        ultimately show "p_yptr (ps3 c) = p_yptr (?ps c) \<and> p_optr (ps3 c) = p_optr (?ps c)" using sib by simp
      qed
      then have "siblings ps3 None (kids r)" using kr(2) siblings_cong by blast
      moreover have "set (kids r) = {x \<in> insert p P. p_parent (ps3 x) = Some r}" using kr(4) p(3) 3 fld by auto
      ultimately show ?thesis using 3 kr fld by simp
    qed
  qed
  moreover have "dlist (proc_links ?k') ProcList (map ListLink (p # xs))"
    using dlist_add_head [OF dl(1), of "ListLink p"] dl(2) by auto
  ultimately show ?thesis using sl fld by (intro exI [of _ ?k']) simp
qed

text \<open>Unlinking a child.\<close>

definition younger :: "nat option \<Rightarrow> nat list \<Rightarrow> nat option" where
  "younger y us = (case rev us of [] \<Rightarrow> y | u # _ \<Rightarrow> Some u)"

lemma younger_simps [simp]: "younger y [] = y" "younger y (us @ [u]) = Some u" "younger y (u # us) = younger (Some u) us"
proof -
  show "younger y (u # us) = younger (Some u) us"
    by (cases us rule: rev_cases) (simp_all add: younger_def)
qed (simp_all add: younger_def)

lemma siblings_remove:
  assumes "siblings ps y (us @ c # vs)" "distinct (us @ c # vs)"
    and "\<forall>d \<in> set (us @ vs). p_optr (ps' d) = (if younger None us = Some d then first_of vs else p_optr (ps d))
      \<and> p_yptr (ps' d) = (if first_of vs = Some d then younger y us else p_yptr (ps d))"
  shows "siblings ps' y (us @ vs)"
  using assms
proof (induction us arbitrary: y)
  case Nil
  show ?case
  proof (cases vs)
    case (Cons v ws)
    have "siblings ps' (Some v) ws \<longleftrightarrow> siblings ps (Some v) ws"
      by (rule siblings_cong) (use Nil Cons in auto)
    with Nil Cons show ?thesis by simp
  qed simp
next
  case (Cons u us)
  have fu: "first_of vs \<noteq> Some u" using Cons.prems(2) by (cases vs) auto
  show ?case
  proof (cases us)
    case Nil
    show ?thesis
    proof (cases vs)
      case (Cons v ws)
      have "siblings ps' (Some v) ws \<longleftrightarrow> siblings ps (Some v) ws"
        by (rule siblings_cong) (use Cons.prems Cons Nil in auto)
      with Cons.prems Cons Nil show ?thesis by auto
    qed (use Cons.prems Nil in simp)
  next
    case (Cons w ws)
    have ne: "younger (Some u) us \<noteq> Some u" "younger None us = younger (Some u) us"
      using Cons Cons.prems(2) by (cases ws rule: rev_cases; auto)+
    have "siblings ps' (Some u) (us @ vs)"
      by (rule Cons.IH) (use Cons.prems ne in auto)
    with Cons.prems Cons ne fu show ?thesis by simp
  qed
qed

lemma remove_links_family:
  assumes fam: "family k P kids" and p: "p \<in> P" "q \<in> P" "p \<noteq> q" "p_parent (procs k p) = Some q" "kids p = []"
    and dl: "dlist (proc_links k) ProcList (map ListLink (xs @ p # ys))"
  shows "\<exists>k'. remove_links k p = Some k' \<and> family k' (P - {p}) (kids(q := remove1 p (kids q)))
    \<and> dlist (proc_links k') ProcList (map ListLink (xs @ ys)) \<and> nr_process k' = nr_process k - 1
    \<and> k'\<lparr>procs := procs k, proc_links := proc_links k, nr_process := nr_process k\<rparr> = k
    \<and> (\<forall>r. p_pid (procs k' r) = p_pid (procs k r) \<and> p_state (procs k' r) = p_state (procs k r)
         \<and> p_rq (procs k' r) = p_rq (procs k r) \<and> p_parent (procs k' r) = p_parent (procs k r))"
proof -
  let ?ps = "procs k"
  have pin: "p \<in> set (kids q)" using fam p by (auto simp: family_def)
  then obtain us vs where kq: "kids q = us @ p # vs" by (meson split_list)
  note sq = familyD [OF fam p(2), unfolded kq]
  have py: "p_yptr (?ps p) = younger None us" "p_optr (?ps p) = first_of vs"
    using siblings_append [OF sq(1)] by (simp_all add: younger_def)
  have yin: "younger None us = Some d \<Longrightarrow> d \<in> set us" for d by (cases us rule: rev_cases) auto
  have oin: "first_of vs = Some d \<Longrightarrow> d \<in> set vs" for d by (cases vs) auto
  have np: "first_of vs \<noteq> Some p" "younger None us \<noteq> Some p" using oin yin sq(2) by auto
  define ps1 where "ps1 = (case first_of vs of None \<Rightarrow> ?ps | Some o' \<Rightarrow> ?ps(o' := (?ps o')\<lparr>p_yptr := younger None us\<rparr>))"
  define ps2 where "ps2 = (case younger None us of Some y \<Rightarrow> ps1(y := (ps1 y)\<lparr>p_optr := first_of vs\<rparr>)
    | None \<Rightarrow> ps1(q := (ps1 q)\<lparr>p_cptr := first_of vs\<rparr>))"
  let ?k' = "k\<lparr>procs := ps2, proc_links := list_del (proc_links k) (ListLink p), nr_process := nr_process k - 1\<rparr>"
  have rl: "remove_links k p = Some ?k'"
    by (cases "first_of vs"; cases "younger None us")
      (use np in \<open>auto simp: remove_links_def upd_proc_def Let_def py p(4) ps1_def ps2_def\<close>)
  have fld: "p_parent (ps2 r) = p_parent (?ps r)" "p_pid (ps2 r) = p_pid (?ps r)" "p_state (ps2 r) = p_state (?ps r)"
    "p_rq (ps2 r) = p_rq (?ps r)"
    "p_cptr (ps2 r) = (if r = q \<and> us = [] then first_of vs else p_cptr (?ps r))" for r
    by (cases us rule: rev_cases; auto simp: ps1_def ps2_def split: option.split)+
  have sib: "p_optr (ps2 d) = (if younger None us = Some d then first_of vs else p_optr (?ps d))"
    "p_yptr (ps2 d) = (if first_of vs = Some d then younger None us else p_yptr (?ps d))" for d
    by (auto simp: ps1_def ps2_def split: option.split)
  have "family ?k' (P - {p}) (kids(q := remove1 p (kids q)))"
    unfolding family_def
  proof
    fix r assume r: "r \<in> P - {p}"
    show "p_cptr (procs ?k' r) = first_of ((kids(q := remove1 p (kids q))) r)
      \<and> siblings (procs ?k') None ((kids(q := remove1 p (kids q))) r)
      \<and> distinct ((kids(q := remove1 p (kids q))) r)
      \<and> set ((kids(q := remove1 p (kids q))) r) = {x \<in> P - {p}. p_parent (procs ?k' x) = Some r}"
    proof (cases "r = q")
      case True
      have rm: "remove1 p (kids q) = us @ vs" using kq sq(2) by (simp add: remove1_append)
      have "siblings ps2 None (us @ vs)" by (rule siblings_remove [OF sq(1,2)]) (simp add: sib)
      moreover have "set (us @ vs) = {x \<in> P - {p}. p_parent (ps2 x) = Some q}" using sq(2,4) fld by auto
      moreover have "p_cptr (ps2 q) = first_of (us @ vs)" using fld sq(3) by (cases us) auto
      ultimately show ?thesis using True rm sq(2) by simp
    next
      case False
      have kr: "p_cptr (?ps r) = first_of (kids r)" "siblings ?ps None (kids r)" "distinct (kids r)"
        "set (kids r) = {x \<in> P. p_parent (?ps x) = Some r}" using fam r by (auto simp: family_def)
      have "\<forall>c \<in> set (kids r). p_yptr (ps2 c) = p_yptr (?ps c) \<and> p_optr (ps2 c) = p_optr (?ps c)"
      proof
        fix c assume c: "c \<in> set (kids r)"
        then have "c \<notin> set (kids q)" using family_disjoint [OF fam p(2), of r c] r False by auto
        then have "first_of vs \<noteq> Some c" "younger None us \<noteq> Some c" using oin yin kq by auto
        then show "p_yptr (ps2 c) = p_yptr (?ps c) \<and> p_optr (ps2 c) = p_optr (?ps c)" using sib by simp
      qed
      then have "siblings ps2 None (kids r)" using kr(2) siblings_cong by blast
      moreover have "set (kids r) = {x \<in> P - {p}. p_parent (ps2 x) = Some r}" using kr(4) p(4) False fld by auto
      ultimately show ?thesis using False kr fld by simp
    qed
  qed
  moreover have "dlist (proc_links ?k') ProcList (map ListLink (xs @ ys))"
    using dlist_del [of "proc_links k" ProcList "map ListLink xs" "ListLink p" "map ListLink ys"] dl by simp
  ultimately show ?thesis using rl fld by (intro exI [of _ ?k']) simp
qed

text \<open>One adoption: the youngest child of \<open>cur\<close> becomes the youngest child of \<open>init\<close>. The next child of
  \<open>cur\<close> keeps a stale \<open>yptr\<close>, so between two turns the children of \<open>cur\<close> are only known to follow
  some younger sibling \<open>y\<close>.\<close>

definition family_but :: "nat \<Rightarrow> kern \<Rightarrow> nat set \<Rightarrow> (nat \<Rightarrow> nat list) \<Rightarrow> bool" where
  "family_but cur k P kids \<longleftrightarrow> (\<forall>q \<in> P. p_cptr (procs k q) = first_of (kids q)
     \<and> (if q = cur then \<exists>y. siblings (procs k) y (kids q) else siblings (procs k) None (kids q))
     \<and> distinct (kids q) \<and> set (kids q) = {p \<in> P. p_parent (procs k p) = Some q})"

lemma family_but_intro: "family k P kids \<Longrightarrow> family_but cur k P kids"
  by (auto simp: family_def family_but_def)

lemma family_but_elim: "family_but cur k P kids \<Longrightarrow> kids cur = [] \<Longrightarrow> family k P kids"
  unfolding family_def family_but_def by (metis siblings.simps(1))

lemma family_butD:
  assumes "family_but cur k P kids" "q \<in> P"
  shows "q \<noteq> cur \<Longrightarrow> siblings (procs k) None (kids q)" "distinct (kids q)" "p_cptr (procs k q) = first_of (kids q)"
    "set (kids q) = {p \<in> P. p_parent (procs k p) = Some q}" "q = cur \<Longrightarrow> \<exists>y. siblings (procs k) y (kids q)"
  using assms by (auto simp: family_but_def)

text \<open>Adoption leaves everything but the family pointers alone.\<close>

definition same_but_kin :: "proc_struct \<Rightarrow> proc_struct \<Rightarrow> bool" where
  "same_but_kin p q \<longleftrightarrow> q\<lparr>p_parent := p_parent p, p_cptr := p_cptr p, p_yptr := p_yptr p, p_optr := p_optr p\<rparr> = p"

lemma same_but_kin_fields:
  "same_but_kin p q \<Longrightarrow> p_state q = p_state p \<and> p_pid q = p_pid p \<and> p_wait_state q = p_wait_state p
     \<and> p_flags q = p_flags p \<and> p_rq q = p_rq p \<and> p_exit_code q = p_exit_code p"
  by (cases p; cases q) (simp add: same_but_kin_def)

lemma same_but_kin_trans: "same_but_kin p q \<Longrightarrow> same_but_kin q r \<Longrightarrow> same_but_kin p r"
  by (cases p; cases q; cases r) (simp add: same_but_kin_def)

lemma adopt_child_family:
  assumes fam: "family_but cur k P kids" and P: "cur \<in> P" "init \<in> P" "cur \<noteq> init"
    and c: "kids cur = c # cs" "init \<notin> set (kids cur)" "cur \<notin> set (kids cur)"
  shows "family_but cur (adopt_child k cur init c) P (kids(cur := cs, init := c # kids init))
    \<and> (adopt_child k cur init c)\<lparr>procs := procs k\<rparr> = k
    \<and> (\<forall>r. same_but_kin (procs k r) (procs (adopt_child k cur init c) r))
    \<and> (\<forall>r. p_parent (procs (adopt_child k cur init c) r) = (if r = c then Some init else p_parent (procs k r)))"
proof -
  let ?ps = "procs k" and ?k' = "adopt_child k cur init c"
  note fc = familyD [of k P kids] and bc = family_butD [OF fam P(1)] and bi = family_butD [OF fam P(2)]
  obtain y where y: "siblings ?ps y (c # cs)" using bc(5) c(1) by auto
  have oc: "p_optr (?ps c) = first_of cs" using y by (simp add: first_of_def)
  have ci: "p_cptr (?ps init) = first_of (kids init)" by (rule bi(3))
  have cin: "c \<in> P" "p_parent (?ps c) = Some cur" using bc(4) c(1) by auto
  have disj: "set (kids cur) \<inter> set (kids init) = {}" using bc(4) bi(4) P(3) by auto
  have cne: "c \<noteq> cur" "c \<noteq> init" using c by auto
  have fne: "first_of (kids init) = Some d \<Longrightarrow> d \<in> set (kids init)" for d by (cases "kids init") auto
  have fnc: "first_of (kids init) \<noteq> Some c" using fne disj c(1) by auto
  define ps1 where "ps1 = ?ps(cur := (?ps cur)\<lparr>p_cptr := first_of cs\<rparr>,
    c := (?ps c)\<lparr>p_yptr := None, p_optr := first_of (kids init), p_parent := Some init\<rparr>)"
  define ps2 where "ps2 = (case first_of (kids init) of None \<Rightarrow> ps1 | Some d \<Rightarrow> ps1(d := (ps1 d)\<lparr>p_yptr := Some c\<rparr>))"
  define ps3 where "ps3 = ps2(init := (ps2 init)\<lparr>p_cptr := Some c\<rparr>)"
  have k': "?k' = k\<lparr>procs := ps3\<rparr>"
    using cne P(3) ci oc fnc
    by (cases "first_of (kids init)")
      (simp_all add: adopt_child_def upd_proc_def Let_def ps1_def ps2_def ps3_def fun_upd_twist)
  let ?ps' = "procs ?k'"
  have f: "p_optr (?ps' r) = (if r = c then first_of (kids init) else p_optr (?ps r))"
    "p_yptr (?ps' r) = (if first_of (kids init) = Some r then Some c else if r = c then None else p_yptr (?ps r))"
    "p_parent (?ps' r) = (if r = c then Some init else p_parent (?ps r))"
    "p_cptr (?ps' r) = (if r = init then Some c else if r = cur then first_of cs else p_cptr (?ps r))"
    "same_but_kin (?ps r) (?ps' r)" for r
  proof -
    have f1: "p_optr (ps1 r) = (if r = c then first_of (kids init) else p_optr (?ps r))"
      "p_yptr (ps1 r) = (if r = c then None else p_yptr (?ps r))"
      "p_parent (ps1 r) = (if r = c then Some init else p_parent (?ps r))"
      "p_cptr (ps1 r) = (if r = cur then first_of cs else p_cptr (?ps r))"
      "same_but_kin (?ps r) (ps1 r)" for r
      using cne by (simp_all add: ps1_def same_but_kin_def)
    have f2: "p_optr (ps2 r) = p_optr (ps1 r)" "p_parent (ps2 r) = p_parent (ps1 r)" "p_cptr (ps2 r) = p_cptr (ps1 r)"
      "p_yptr (ps2 r) = (if first_of (kids init) = Some r then Some c else p_yptr (ps1 r))"
      "same_but_kin (ps1 r) (ps2 r)" for r
      by (cases "first_of (kids init)"; simp add: ps2_def same_but_kin_def)+
    have f3: "p_optr (ps3 r) = p_optr (ps2 r)" "p_parent (ps3 r) = p_parent (ps2 r)" "p_yptr (ps3 r) = p_yptr (ps2 r)"
      "p_cptr (ps3 r) = (if r = init then Some c else p_cptr (ps2 r))" "same_but_kin (ps2 r) (ps3 r)" for r
      by (simp_all add: ps3_def same_but_kin_def)
    have "same_but_kin (?ps r) (ps3 r)" using f1(5) f2(5) f3(5) same_but_kin_trans by blast
    then show "p_optr (?ps' r) = (if r = c then first_of (kids init) else p_optr (?ps r))"
      "p_yptr (?ps' r) = (if first_of (kids init) = Some r then Some c else if r = c then None else p_yptr (?ps r))"
      "p_parent (?ps' r) = (if r = c then Some init else p_parent (?ps r))"
      "p_cptr (?ps' r) = (if r = init then Some c else if r = cur then first_of cs else p_cptr (?ps r))"
      "same_but_kin (?ps r) (?ps' r)" by (simp_all add: k' f1 f2 f3)
  qed
  have rest: "?k'\<lparr>procs := procs k\<rparr> = k"
    by (simp add: k')
  have "family_but cur ?k' P (kids(cur := cs, init := c # kids init))"
    unfolding family_but_def
  proof
    fix r assume r: "r \<in> P"
    let ?kids = "kids(cur := cs, init := c # kids init)"
    consider "r = cur" | "r = init" | "r \<noteq> cur" "r \<noteq> init" by blast
    then show "p_cptr (?ps' r) = first_of (?kids r)
      \<and> (if r = cur then \<exists>y. siblings ?ps' y (?kids r) else siblings ?ps' None (?kids r))
      \<and> distinct (?kids r) \<and> set (?kids r) = {p \<in> P. p_parent (?ps' p) = Some r}"
    proof cases
      case 1
      have "\<forall>d \<in> set cs. p_yptr (?ps' d) = p_yptr (?ps d) \<and> p_optr (?ps' d) = p_optr (?ps d)"
        using f(1,2) fne disj c(1) bc(2) by auto
      then have "siblings ?ps' (Some c) cs" using y siblings_cong [of cs ?ps' ?ps "Some c"] by simp
      moreover have "set cs = {p \<in> P. p_parent (?ps' p) = Some cur}"
        using bc(2,4) c(1) f(3) P(3) by auto
      ultimately show ?thesis using 1 P(3) f(4) bc(2) c(1) by auto
    next
      case 2
      have "siblings ?ps' None (c # kids init)"
      proof (rule siblings_Cons_new)
        show "siblings ?ps None (kids init)" using bi(1) P(3) by simp
        show "distinct (c # kids init)" using bi(2) disj c(1) by auto
        show "p_yptr (?ps' c) = None" "p_optr (?ps' c) = first_of (kids init)" using f(1,2) fnc by auto
        show "\<forall>d \<in> set (kids init). p_optr (?ps' d) = p_optr (?ps d)
            \<and> p_yptr (?ps' d) = (if first_of (kids init) = Some d then Some c else p_yptr (?ps d))"
          using f(1,2) disj c(1) by auto
      qed
      moreover have "set (c # kids init) = {p \<in> P. p_parent (?ps' p) = Some init}"
        using bi(4) f(3) cin(1) by auto
      ultimately show ?thesis using 2 P(3) f(4) bi(2) disj c(1) by auto
    next
      case 3
      note br = family_butD [OF fam r]
      have "\<forall>d \<in> set (kids r). p_yptr (?ps' d) = p_yptr (?ps d) \<and> p_optr (?ps' d) = p_optr (?ps d)"
      proof
        fix d assume d: "d \<in> set (kids r)"
        then have "p_parent (?ps d) = Some r" using br(4) by auto
        then have "d \<noteq> c" "d \<notin> set (kids init)" using cin(2) bi(4) 3 by auto
        then show "p_yptr (?ps' d) = p_yptr (?ps d) \<and> p_optr (?ps' d) = p_optr (?ps d)" using f(1,2) fne by auto
      qed
      then have "siblings ?ps' None (kids r)" using br(1) 3 siblings_cong by blast
      moreover have "set (kids r) = {p \<in> P. p_parent (?ps' p) = Some r}" using br(4) f(3) cin(2) 3 by auto
      ultimately show ?thesis using 3 f(4) br(2,3) by simp
    qed
  qed
  with rest f(3,5) show ?thesis by blast
qed

end
