(* ===== verification/Process.thy ===== *)
theory Process
  imports Family Timer
begin

text \<open>
  \<open>kern/process/proc.c\<close>: the life of a process, from \<open>do_fork\<close> over \<open>do_exit\<close> to the
  parent's \<open>do_wait\<close>, with \<open>do_kill\<close>, \<open>do_sleep\<close>, \<open>do_yield\<close> and \<open>lab6_set_priority\<close>.
  A system call that blocks is split where it calls \<open>schedule\<close>. What the memory and file
  subsystems return to \<open>do_fork\<close> (the allocated structure and stack, the results of
  \<open>copy_files\<close> and \<open>copy_mm\<close>) is an argument; releasing the address space in \<open>do_exit\<close> is
  reduced to clearing \<open>mm\<close>.
\<close>

section \<open>do_fork\<close>

definition do_fork ::
  "sched_class \<Rightarrow> kern \<Rightarrow> nat option \<Rightarrow> nat option \<Rightarrow> int \<times> nat option \<Rightarrow> int \<times> nat option \<Rightarrow> (int \<times> kern) option" where
  "do_fork c k mem kstack files mm =
     (if nr_process k \<ge> MAX_PROCESS then Some (- E_NO_FREE_PROC, k)
      else case alloc_proc k mem of
        (None, k) \<Rightarrow> Some (- E_NO_MEM, k)
      | (Some proc, k) \<Rightarrow> do {
          let k = upd_proc proc (\<lambda>p. p\<lparr>p_parent := Some (current k)\<rparr>) k;
          kassert (p_wait_state (procs k (current k)) = 0);
          case kstack of
            None \<Rightarrow> Some (- E_NO_MEM, k)
          | Some stack \<Rightarrow>
              let k = upd_proc proc (\<lambda>p. p\<lparr>p_kstack := Some stack\<rparr>) k in
              if fst files \<noteq> 0 then Some (- E_NO_MEM, k)
              else let k = upd_proc proc (\<lambda>p. p\<lparr>p_filesp := snd files\<rparr>) k in
              if fst mm \<noteq> 0 then Some (- E_NO_MEM, k)
              else do {
                let k = upd_proc proc (\<lambda>p. p\<lparr>p_mm := snd mm\<rparr>) k;
                (pid, k) \<leftarrow> get_pid k;
                let k = upd_proc proc (\<lambda>p. p\<lparr>p_pid := pid\<rparr>) k;
                let k = hash_proc k proc;
                k \<leftarrow> set_links k proc;
                k \<leftarrow> wakeup_proc c k proc;
                Some (p_pid (procs k proc), k)
              }
        })"

section \<open>do_exit\<close>

text \<open>The loop over the children.\<close>

partial_function (option) adopt_all :: "sched_class \<Rightarrow> nat \<Rightarrow> kern \<Rightarrow> kern option" where
  "adopt_all c cur k =
     (case p_cptr (procs k cur) of
        None \<Rightarrow> Some k
      | Some proc \<Rightarrow> do {
          let k = adopt_child k cur (initproc k) proc;
          k \<leftarrow> (if p_state (procs k proc) = PROC_ZOMBIE \<and> p_wait_state (procs k (initproc k)) = WT_CHILD
                then wakeup_proc c k (initproc k) else Some k);
          adopt_all c cur k
        })"

declare adopt_all.simps [code]

definition do_exit :: "sched_class \<Rightarrow> kern \<Rightarrow> int \<Rightarrow> kern option" where
  "do_exit c k error_code = do {
     kassert (current k \<noteq> idleproc k);
     kassert (current k \<noteq> initproc k);
     let cur = current k;
     let k = (if p_mm (procs k cur) \<noteq> None then upd_proc cur (\<lambda>p. p\<lparr>p_mm := None\<rparr>) k else k);
     let k = upd_proc cur (\<lambda>p. p\<lparr>p_state := PROC_ZOMBIE, p_exit_code := error_code\<rparr>) k;
     proc \<leftarrow> p_parent (procs k cur);
     k \<leftarrow> (if p_wait_state (procs k proc) = WT_CHILD then wakeup_proc c k proc else Some k);
     k \<leftarrow> adopt_all c cur k;
     schedule c k
   }"

section \<open>do_wait\<close>

text \<open>The search for a child: none at all, none that has exited, or the one to reap.\<close>

datatype wait_poll = NoChild | AllRunning | Found nat

partial_function (option) scan_kids :: "kern \<Rightarrow> nat option \<Rightarrow> bool \<Rightarrow> wait_poll option" where
  "scan_kids k proc haskid =
     (case proc of
        None \<Rightarrow> Some (if haskid then AllRunning else NoChild)
      | Some p \<Rightarrow> if p_state (procs k p) = PROC_ZOMBIE then Some (Found p)
                  else scan_kids k (p_optr (procs k p)) True)"

declare scan_kids.simps [code]

definition wait_search :: "kern \<Rightarrow> int \<Rightarrow> wait_poll option" where
  "wait_search k pid =
     (if pid \<noteq> 0 then do {
        proc \<leftarrow> find_proc k pid;
        Some (case proc of
                None \<Rightarrow> NoChild
              | Some p \<Rightarrow> if p_parent (procs k p) = Some (current k)
                          then (if p_state (procs k p) = PROC_ZOMBIE then Found p else AllRunning)
                          else NoChild)
      } else scan_kids k (p_cptr (procs k (current k))) False)"

text \<open>One turn of the loop of \<open>do_wait\<close>: \<open>Inl (r, code)\<close> when it returns \<open>r\<close> and stores \<open>code\<close>, \<open>Inr ()\<close> when the
  caller sleeps and another process runs.\<close>

definition wait_turn :: "sched_class \<Rightarrow> kern \<Rightarrow> int \<Rightarrow> (((int \<times> int option) + unit) \<times> kern) option" where
  "wait_turn c k pid = do {
     r \<leftarrow> wait_search k pid;
     case r of
       NoChild \<Rightarrow> Some (Inl (- E_BAD_PROC, None), k)
     | AllRunning \<Rightarrow> do {
         let k = upd_proc (current k) (\<lambda>p. p\<lparr>p_state := PROC_SLEEPING, p_wait_state := WT_CHILD\<rparr>) k;
         k \<leftarrow> schedule c k;
         Some (Inr (), k)
       }
     | Found proc \<Rightarrow> do {
         kassert (proc \<noteq> idleproc k \<and> proc \<noteq> initproc k);
         let code = p_exit_code (procs k proc);
         let k = unhash_proc k proc;
         k \<leftarrow> remove_links k proc;
         Some (Inl (0, Some code), k)
       }
   }"

text \<open>The call; \<open>bad_store\<close> says that \<open>code_store\<close> is not null and \<open>user_mem_check\<close> refuses it. The exit code is part of the result; the
  code writes it to \<open>code_store\<close>, and drops it when that is null.\<close>

definition do_wait :: "sched_class \<Rightarrow> kern \<Rightarrow> int \<Rightarrow> bool \<Rightarrow> (((int \<times> int option) + unit) \<times> kern) option" where
  "do_wait c k pid bad_store =
     (if bad_store then Some (Inl (- E_INVAL, None), k) else wait_turn c k pid)"

text \<open>What a sleeping caller does when it runs again.\<close>

definition wait_resume :: "sched_class \<Rightarrow> kern \<Rightarrow> int \<Rightarrow> (((int \<times> int option) + unit) \<times> kern) option" where
  "wait_resume c k pid =
     (if p_flags (procs k (current k)) AND PF_EXITING \<noteq> 0 then do {
        k \<leftarrow> do_exit c k (- E_KILLED);
        Some (Inr (), k)
      } else wait_turn c k pid)"

section \<open>The other calls\<close>

definition do_kill :: "sched_class \<Rightarrow> kern \<Rightarrow> int \<Rightarrow> (int \<times> kern) option" where
  "do_kill c k pid = do {
     proc \<leftarrow> find_proc k pid;
     case proc of
       None \<Rightarrow> Some (- E_INVAL, k)
     | Some p \<Rightarrow>
         if p_flags (procs k p) AND PF_EXITING = 0 then do {
           let k = upd_proc p (\<lambda>x. x\<lparr>p_flags := p_flags x OR PF_EXITING\<rparr>) k;
           k \<leftarrow> (if p_wait_state (procs k p) AND WT_INTERRUPTED \<noteq> 0 then wakeup_proc c k p else Some k);
           Some (0, k)
         } else Some (- E_KILLED, k)
   }"

definition do_yield :: "kern \<Rightarrow> int \<times> kern" where
  "do_yield k = (0, upd_proc (current k) (\<lambda>p. p\<lparr>p_need_resched := True\<rparr>) k)"

definition lab6_set_priority :: "kern \<Rightarrow> 32 word \<Rightarrow> kern" where
  "lab6_set_priority k priority =
     upd_proc (current k) (\<lambda>p. p\<lparr>lab6_priority := if priority = 0 then 1 else priority\<rparr>) k"

text \<open>\<open>do_sleep\<close> up to and including \<open>schedule\<close>, with the address \<open>timer\<close> of the timer on the stack of
  the caller, and its end.\<close>

definition do_sleep :: "sched_class \<Rightarrow> kern \<Rightarrow> nat \<Rightarrow> 32 word \<Rightarrow> (bool \<times> kern) option" where
  "do_sleep c k timer time =
     (if time = 0 then Some (True, k)
      else do {
        let k = timer_init k timer (current k) time;
        let k = upd_proc (current k) (\<lambda>p. p\<lparr>p_state := PROC_SLEEPING, p_wait_state := WT_TIMER\<rparr>) k;
        k \<leftarrow> add_timer k timer;
        k \<leftarrow> schedule c k;
        Some (False, k)
      })"

definition do_sleep_resume :: "kern \<Rightarrow> nat \<Rightarrow> kern" where
  "do_sleep_resume k timer = del_timer k timer"

section \<open>Children change hands\<close>

lemma family_but_cong:
  assumes "\<forall>r. same_kin (procs k r) (procs k' r)"
  shows "family_but cur k' P kids \<longleftrightarrow> family_but cur k P kids"
proof -
  have "siblings (procs k') y cs = siblings (procs k) y cs" for y cs
    by (rule siblings_cong) (use assms in \<open>simp add: same_kin_def\<close>)
  moreover have "p_parent (procs k' r) = p_parent (procs k r)" "p_cptr (procs k' r) = p_cptr (procs k r)" for r
    using assms by (simp_all add: same_kin_def)
  ultimately show ?thesis by (simp add: family_but_def)
qed

context sched_policy
begin

lemma sched_inv_same:
  assumes "sched_inv queued linkable k" "rq k' = rq k" "current k' = current k" "idleproc k' = idleproc k"
    and "\<forall>p. p \<noteq> current k \<and> p \<noteq> idleproc k \<longrightarrow> p_state (procs k' p) = p_state (procs k p)"
    and "\<forall>p. p_rq (procs k' p) = p_rq (procs k p)"
  shows "sched_inv queued linkable k'"
proof -
  have r: "ready k' = ready k" using assms(3-5) by (auto simp: ready_def)
  have "queued k' (ready k)"
    by (rule queued_cong [of k' k]) (use assms in \<open>simp_all add: sched_inv_def\<close>)
  moreover have "linkable k' p" if "p \<notin> ready k" for p
    by (rule linkable_cong [of k' k]) (use assms that in \<open>simp_all add: sched_inv_def\<close>)
  ultimately show ?thesis by (simp add: sched_inv_def r)
qed

lemma same_procs:
  fixes k k' :: kern
  assumes "k'\<lparr>procs := x\<rparr> = k"
  shows "initproc k' = initproc k" "rq k' = rq k" "current k' = current k" "idleproc k' = idleproc k" "same_rest k k'"
  using assms by (cases k; cases k'; simp add: same_rest_def)+

lemma adopt_all_ok:
  assumes "sched_inv queued linkable k" "family_but cur k P kids" "cur \<in> P" "initproc k \<in> P" "cur \<noteq> initproc k"
    and "initproc k \<notin> set (kids cur)" "cur \<notin> set (kids cur)" "p_state (procs k (initproc k)) \<noteq> PROC_ZOMBIE"
  shows "\<exists>k'. adopt_all c cur k = Some k' \<and> sched_inv queued linkable k'
    \<and> family k' P (kids(cur := [], initproc k := rev (kids cur) @ kids (initproc k)))
    \<and> current k' = current k \<and> same_rest k k'
    \<and> (\<forall>r. r \<noteq> initproc k \<longrightarrow> p_state (procs k' r) = p_state (procs k r))
    \<and> (\<forall>r. p_exit_code (procs k' r) = p_exit_code (procs k r) \<and> p_pid (procs k' r) = p_pid (procs k r)
         \<and> p_parent (procs k' r) = (if r \<in> set (kids cur) then Some (initproc k) else p_parent (procs k r)))
    \<and> (p_state (procs k' (initproc k)) = p_state (procs k (initproc k)) \<or> p_state (procs k' (initproc k)) = PROC_RUNNABLE)
    \<and> ((\<exists>d \<in> set (kids cur). p_state (procs k d) = PROC_ZOMBIE) \<longrightarrow> p_wait_state (procs k (initproc k)) = WT_CHILD \<longrightarrow>
         p_state (procs k' (initproc k)) = PROC_RUNNABLE)"
  using assms
proof (induction "kids cur" arbitrary: k kids)
  case Nil
  have "p_cptr (procs k cur) = None" using family_butD(3) [OF Nil.prems(2,3)] Nil.hyps by simp
  then have "adopt_all c cur k = Some k" by (subst adopt_all.simps) simp
  moreover have eq: "kids(cur := [], initproc k := rev (kids cur) @ kids (initproc k)) = kids"
    using Nil.hyps Nil.prems(5) by (auto simp: fun_eq_iff)
  have "family k P (kids(cur := [], initproc k := rev (kids cur) @ kids (initproc k)))"
    unfolding eq using family_but_elim [OF Nil.prems(2)] Nil.hyps by simp
  ultimately show ?case using Nil.prems(1) Nil.hyps by (intro exI [of _ k]) (simp del: fun_upd_apply)
next
  case (Cons d ds)
  let ?i = "initproc k"
  let ?k1 = "adopt_child k cur ?i d" and ?kids = "kids(cur := ds, initproc k := d # kids (initproc k))"
  note ad = adopt_child_family [OF Cons.prems(2-5) Cons.hyps(2) [symmetric] Cons.prems(6,7)]
  have k1: "family_but cur ?k1 P ?kids" "?k1\<lparr>procs := procs k\<rparr> = k"
    "\<forall>r. same_but_kin (procs k r) (procs ?k1 r)"
    "\<forall>r. p_parent (procs ?k1 r) = (if r = d then Some ?i else p_parent (procs k r))" using ad by blast+
  have e1: "initproc ?k1 = ?i" "rq ?k1 = rq k" "current ?k1 = current k" "idleproc ?k1 = idleproc k"
    "same_rest k ?k1"
    using same_procs [OF k1(2)] by blast+
  have f1: "p_state (procs ?k1 r) = p_state (procs k r)" "p_wait_state (procs ?k1 r) = p_wait_state (procs k r)"
    "p_rq (procs ?k1 r) = p_rq (procs k r)" "p_exit_code (procs ?k1 r) = p_exit_code (procs k r)"
    "p_pid (procs ?k1 r) = p_pid (procs k r)" for r
    using same_but_kin_fields [OF k1(3) [rule_format, of r]] by simp_all
  have inv1: "sched_inv queued linkable ?k1"
    by (rule sched_inv_same [OF Cons.prems(1) e1(2-4)]) (simp_all add: f1)
  let ?wake = "p_state (procs k d) = PROC_ZOMBIE \<and> p_wait_state (procs k ?i) = WT_CHILD"
  obtain k2 where k2: "(if p_state (procs ?k1 d) = PROC_ZOMBIE \<and> p_wait_state (procs ?k1 (initproc ?k1)) = WT_CHILD
      then wakeup_proc c ?k1 (initproc ?k1) else Some ?k1) = Some k2"
    "sched_inv queued linkable k2" "\<forall>r. same_kin (procs ?k1 r) (procs k2 r)" "same_rest ?k1 k2" "current k2 = current k"
    "\<forall>r. r \<noteq> ?i \<longrightarrow> p_state (procs k2 r) = p_state (procs k r) \<and> p_wait_state (procs k2 r) = p_wait_state (procs k r)"
    "if ?wake then p_state (procs k2 ?i) = PROC_RUNNABLE
     else p_state (procs k2 ?i) = p_state (procs k ?i) \<and> p_wait_state (procs k2 ?i) = p_wait_state (procs k ?i)"
  proof (cases ?wake)
    case True
    obtain k2 where "wakeup_proc c ?k1 ?i = Some k2" "sched_inv queued linkable k2" "p_state (procs k2 ?i) = PROC_RUNNABLE"
      "current k2 = current ?k1" "same_rest ?k1 k2" "\<forall>q. q \<noteq> ?i \<longrightarrow> same_proc (procs ?k1 q) (procs k2 q)"
      "\<forall>q. same_kin (procs ?k1 q) (procs k2 q)"
      using wakeup_ok [OF inv1, of ?i] Cons.prems(8) f1(1) by auto
    with True e1 f1 same_proc_fields show thesis by (intro that [of k2]) auto
  next
    case False
    with inv1 e1 f1 show thesis by (intro that [of ?k1]) auto
  qed
  have i2: "initproc k2 = ?i" using same_rest_fields(2) [OF k2(4)] e1(1) by simp
  have fam2: "family_but cur k2 P ?kids" using family_but_cong [OF k2(3)] k1(1) by blast
  have kc: "?kids cur = ds" using Cons.prems(5) by simp
  have ne: "p_state (procs k2 ?i) \<noteq> PROC_ZOMBIE" using k2(7) Cons.prems(8) by (auto split: if_splits)
  have h: "ds = ?kids cur" "initproc k2 \<in> P" "cur \<noteq> initproc k2" "initproc k2 \<notin> set (?kids cur)"
    "cur \<notin> set (?kids cur)" "p_state (procs k2 (initproc k2)) \<noteq> PROC_ZOMBIE"
    using kc i2 ne Cons.prems(4-7) Cons.hyps(2) [symmetric] by (simp_all only: fun_upd_apply if_False list.set simp_thms) auto
  note ih = Cons.hyps(1) [OF h(1) k2(2) fam2 Cons.prems(3) h(2-6), unfolded kc i2 k2(5)]
  from ih obtain k' where k': "adopt_all c cur k2 = Some k'" "sched_inv queued linkable k'"
    "family k' P (?kids(cur := [], ?i := rev ds @ ?kids ?i))" "current k' = current k" "same_rest k2 k'"
    "\<forall>r. r \<noteq> ?i \<longrightarrow> p_state (procs k' r) = p_state (procs k2 r)"
    "\<forall>r. p_exit_code (procs k' r) = p_exit_code (procs k2 r) \<and> p_pid (procs k' r) = p_pid (procs k2 r)
         \<and> p_parent (procs k' r) = (if r \<in> set ds then Some ?i else p_parent (procs k2 r))"
    "p_state (procs k' ?i) = p_state (procs k2 ?i) \<or> p_state (procs k' ?i) = PROC_RUNNABLE"
    "(\<exists>e \<in> set ds. p_state (procs k2 e) = PROC_ZOMBIE) \<longrightarrow> p_wait_state (procs k2 ?i) = WT_CHILD \<longrightarrow>
         p_state (procs k' ?i) = PROC_RUNNABLE"
    by blast
  have kk: "?kids(cur := [], ?i := rev ds @ ?kids ?i) = kids(cur := [], ?i := rev (kids cur) @ kids ?i)"
    using Cons.hyps(2) [symmetric] by (auto simp: fun_eq_iff)
  have "p_cptr (procs k cur) = Some d" using family_butD(3) [OF Cons.prems(2,3)] Cons.hyps(2) [symmetric] by simp
  then have "adopt_all c cur k = Some k'"
    by (subst adopt_all.simps) (simp add: Let_def k2(1) k'(1))
  moreover have "same_rest k k'" using same_rest_trans [OF same_rest_trans [OF e1(5) k2(4)] k'(5)] .
  moreover have "p_exit_code (procs k' r) = p_exit_code (procs k r) \<and> p_pid (procs k' r) = p_pid (procs k r)
      \<and> p_parent (procs k' r) = (if r \<in> set (kids cur) then Some ?i else p_parent (procs k r))" for r
    using k'(7) k2(3) f1 k1(4) Cons.hyps(2) [symmetric] by (simp add: same_kin_def)
  moreover have "p_state (procs k' ?i) = PROC_RUNNABLE"
    if "\<exists>e \<in> set (kids cur). p_state (procs k e) = PROC_ZOMBIE" "p_wait_state (procs k ?i) = WT_CHILD"
  proof (cases ?wake)
    case True
    then show ?thesis using k2(7) k'(8) by auto
  next
    case False
    then have "\<exists>e \<in> set ds. p_state (procs k e) = PROC_ZOMBIE" using that Cons.hyps(2) [symmetric] by auto
    moreover have "?i \<notin> set ds" using Cons.prems(6) Cons.hyps(2) [symmetric] by auto
    ultimately have "\<exists>e \<in> set ds. p_state (procs k2 e) = PROC_ZOMBIE" using k2(6) by metis
    moreover have "p_wait_state (procs k2 ?i) = WT_CHILD" using False that k2(7) by auto
    ultimately show ?thesis using k'(9) by blast
  qed
  moreover have "p_state (procs k' ?i) = p_state (procs k ?i) \<or> p_state (procs k' ?i) = PROC_RUNNABLE"
    using k'(8) k2(7) by (auto split: if_splits)
  ultimately show ?case using k'(2-4,6) k2(6) kk by (intro exI [of _ k']) simp
qed

lemma do_exit_ok:
  assumes inv: "sched_inv queued linkable k" and fam: "family k P kids"
    and P: "current k \<in> P" "initproc k \<in> P" "current k \<noteq> initproc k" "current k \<noteq> idleproc k"
    and kin: "initproc k \<notin> set (kids (current k))" "current k \<notin> set (kids (current k))"
    and par: "p_parent (procs k (current k)) = Some q" "q \<noteq> current k" "p_wait_state (procs k q) = WT_CHILD \<longrightarrow> p_state (procs k q) \<noteq> PROC_ZOMBIE"
    and st: "p_state (procs k (initproc k)) \<noteq> PROC_ZOMBIE" "p_state (procs k (idleproc k)) = PROC_RUNNABLE"
  shows "\<exists>k'. do_exit c k code = Some k' \<and> sched_inv queued linkable k'
    \<and> family k' P (kids(current k := [], initproc k := rev (kids (current k)) @ kids (initproc k)))
    \<and> p_state (procs k' (current k)) = PROC_ZOMBIE \<and> p_exit_code (procs k' (current k)) = code
    \<and> current k' \<noteq> current k \<and> initproc k' = initproc k \<and> same_rest k k'
    \<and> p_state (procs k' (current k')) = PROC_RUNNABLE
    \<and> (\<forall>r. p_pid (procs k' r) = p_pid (procs k r)
         \<and> p_parent (procs k' r) = (if r \<in> set (kids (current k)) then Some (initproc k) else p_parent (procs k r))
         \<and> (r \<notin> {current k, initproc k, q} \<longrightarrow> p_state (procs k' r) = p_state (procs k r)))
    \<and> p_state (procs k' (initproc k)) \<noteq> PROC_ZOMBIE \<and> (p_state (procs k q) \<noteq> PROC_ZOMBIE \<longrightarrow> p_state (procs k' q) \<noteq> PROC_ZOMBIE)
    \<and> p_state (procs k' (idleproc k)) = PROC_RUNNABLE
    \<and> (p_wait_state (procs k q) = WT_CHILD \<longrightarrow> p_state (procs k' q) = PROC_RUNNABLE)
    \<and> ((\<exists>d \<in> set (kids (current k)). p_state (procs k d) = PROC_ZOMBIE) \<longrightarrow>
         p_wait_state (procs k (initproc k)) = WT_CHILD \<longrightarrow> p_state (procs k' (initproc k)) = PROC_RUNNABLE)"
proof -
  let ?cur = "current k" and ?i = "initproc k"
  define f where "f = (\<lambda>x::proc_struct. x\<lparr>p_mm := None, p_state := PROC_ZOMBIE, p_exit_code := code\<rparr>)"
  define k1 where "k1 = upd_proc ?cur f k"
  have k1_eq: "upd_proc ?cur (\<lambda>p. p\<lparr>p_state := PROC_ZOMBIE, p_exit_code := code\<rparr>)
      (if p_mm (procs k ?cur) \<noteq> None then upd_proc ?cur (\<lambda>p. p\<lparr>p_mm := None\<rparr>) k else k) = k1"
    by (cases "procs k ?cur") (simp add: k1_def f_def upd_proc_def)
  have st1: "p_state (procs k1 r) = (if r = ?cur then PROC_ZOMBIE else p_state (procs k r))"
    "p_exit_code (procs k1 r) = (if r = ?cur then code else p_exit_code (procs k r))"
    "p_wait_state (procs k1 r) = p_wait_state (procs k r)" "p_rq (procs k1 r) = p_rq (procs k r)"
    "p_parent (procs k1 r) = p_parent (procs k r)" "p_cptr (procs k1 r) = p_cptr (procs k r)"
    "p_yptr (procs k1 r) = p_yptr (procs k r)" "p_optr (procs k1 r) = p_optr (procs k r)" for r
    by (simp_all add: k1_def f_def)
  have e1: "rq k1 = rq k" "current k1 = ?cur" "idleproc k1 = idleproc k" "initproc k1 = ?i" by (simp_all add: k1_def)
  have inv1: "sched_inv queued linkable k1" by (rule sched_inv_same [OF inv e1(1-3)]) (simp_all add: st1)
  have fam1: "family_but ?cur k1 P kids"
    using family_but_intro [OF fam, of ?cur] siblings_cong [of _ "procs k1" "procs k"] st1 by (simp add: family_but_def)
  obtain k2 where k2: "(if p_wait_state (procs k1 q) = WT_CHILD then wakeup_proc c k1 q else Some k1) = Some k2"
    "sched_inv queued linkable k2" "\<forall>r. same_kin (procs k1 r) (procs k2 r)" "same_rest k1 k2" "current k2 = ?cur"
    "\<forall>r. r \<noteq> q \<longrightarrow> p_state (procs k2 r) = p_state (procs k1 r) \<and> p_wait_state (procs k2 r) = p_wait_state (procs k r)"
    "p_wait_state (procs k q) = WT_CHILD \<longrightarrow> p_state (procs k2 q) = PROC_RUNNABLE"
    "p_wait_state (procs k q) \<noteq> WT_CHILD \<longrightarrow>
       p_state (procs k2 q) = p_state (procs k q) \<and> p_wait_state (procs k2 q) = p_wait_state (procs k q)"
  proof (cases "p_wait_state (procs k q) = WT_CHILD")
    case True
    obtain k2 where "wakeup_proc c k1 q = Some k2" "sched_inv queued linkable k2" "p_state (procs k2 q) = PROC_RUNNABLE"
      "current k2 = current k1" "same_rest k1 k2" "\<forall>r. r \<noteq> q \<longrightarrow> same_proc (procs k1 r) (procs k2 r)"
      "\<forall>r. same_kin (procs k1 r) (procs k2 r)"
      using wakeup_ok [OF inv1, of q] par(2,3) True st1(1) by auto
    with True e1 st1 same_proc_fields show thesis by (intro that [of k2]) auto
  next
    case False
    with inv1 e1 st1 par(2) show thesis by (intro that [of k1]) auto
  qed
  have i2: "initproc k2 = ?i" "idleproc k2 = idleproc k" using same_rest_fields(1,2) [OF k2(4)] e1(3,4) by simp_all
  have fam2: "family_but ?cur k2 P kids" using family_but_cong [OF k2(3)] fam1 by blast
  have ni: "p_state (procs k2 ?i) \<noteq> PROC_ZOMBIE"
    using k2(6-8) st1(1) st(1) P(3) by (cases "?i = q"; cases "p_wait_state (procs k q) = WT_CHILD") auto
  have "initproc k2 \<in> P" "?cur \<noteq> initproc k2" "initproc k2 \<notin> set (kids ?cur)" "p_state (procs k2 (initproc k2)) \<noteq> PROC_ZOMBIE"
    using i2(1) P kin(1) ni by simp_all
  from adopt_all_ok [OF k2(2) fam2 P(1) this(1-3) kin(2) this(4)] obtain k3 where k3: "adopt_all c ?cur k2 = Some k3"
    "sched_inv queued linkable k3" "family k3 P (kids(?cur := [], ?i := rev (kids ?cur) @ kids ?i))"
    "current k3 = ?cur" "same_rest k2 k3" "\<forall>r. r \<noteq> ?i \<longrightarrow> p_state (procs k3 r) = p_state (procs k2 r)"
    "\<forall>r. p_exit_code (procs k3 r) = p_exit_code (procs k2 r) \<and> p_pid (procs k3 r) = p_pid (procs k2 r)
       \<and> p_parent (procs k3 r) = (if r \<in> set (kids ?cur) then Some ?i else p_parent (procs k2 r))"
    "p_state (procs k3 ?i) = p_state (procs k2 ?i) \<or> p_state (procs k3 ?i) = PROC_RUNNABLE"
    "(\<exists>d \<in> set (kids ?cur). p_state (procs k2 d) = PROC_ZOMBIE) \<longrightarrow> p_wait_state (procs k2 ?i) = WT_CHILD \<longrightarrow>
         p_state (procs k3 ?i) = PROC_RUNNABLE"
    unfolding i2(1) k2(5) by blast
  have i3: "idleproc k3 = idleproc k" "initproc k3 = ?i" using same_rest_fields(1,2) [OF k3(5)] i2 by simp_all
  have cz: "p_state (procs k3 ?cur) = PROC_ZOMBIE" using k3(6) P(3) k2(6) par(2) st1(1) by auto
  have idle: "p_state (procs k3 (idleproc k)) = PROC_RUNNABLE"
  proof -
    have "p_state (procs k2 (idleproc k)) = PROC_RUNNABLE"
      using k2(6-8) st1(1) st(2) P(4)
      by (cases "idleproc k = q"; cases "p_wait_state (procs k q) = WT_CHILD") auto
    then show ?thesis using k3(6,8) by (cases "idleproc k = ?i") auto
  qed
  have idle3: "p_state (procs k3 (idleproc k3)) = PROC_RUNNABLE" using idle i3(1) by simp
  obtain k4 where k4: "schedule c k3 = Some k4" "sched_inv queued linkable k4" "same_rest k3 k4"
    "\<forall>p. p_state (procs k4 p) = p_state (procs k3 p) \<and> same_kin (procs k3 p) (procs k4 p)"
    "p_state (procs k4 (current k4)) = PROC_RUNNABLE"
    using schedule_ok [OF k3(2) idle3] by (elim exE conjE) (erule that; simp)
  have "do_exit c k code = Some k4"
    unfolding do_exit_def Let_def k1_eq using P(3,4) par(1) k4(1)
    by (simp only: st1 e1 kassert_def k2(1) [unfolded st1(3)] k3(1) simp_thms if_True Option.bind.bind_lunit not_False_eq_True)
  moreover have "family k4 P (kids(?cur := [], ?i := rev (kids ?cur) @ kids ?i))"
    using k3(3) siblings_cong [of _ "procs k4" "procs k3"] k4(4) by (simp add: family_def same_kin_def)
  moreover have "p_exit_code (procs k4 ?cur) = code" using k4(4) k3(7) k2(3) st1(2) by (simp add: same_kin_def)
  moreover have "current k4 \<noteq> ?cur" using k4(4,5) cz by auto
  moreover have "p_wait_state (procs k q) = WT_CHILD \<longrightarrow> p_state (procs k4 q) = PROC_RUNNABLE"
    using k4(4) k3(6,8) k2(7) by (cases "q = ?i") auto
  moreover have "p_state (procs k4 ?i) = PROC_RUNNABLE"
    if "\<exists>d \<in> set (kids ?cur). p_state (procs k d) = PROC_ZOMBIE" "p_wait_state (procs k ?i) = WT_CHILD"
  proof -
    from that(1) obtain d where d: "d \<in> set (kids ?cur)" "p_state (procs k d) = PROC_ZOMBIE" by blast
    have "d \<noteq> ?cur" using d(1) kin(2) by blast
    then have "p_state (procs k2 d) = PROC_ZOMBIE"
      using d(2) k2(6,8) st1(1) par(3) by (cases "d = q") auto
    then have z: "\<exists>d \<in> set (kids ?cur). p_state (procs k2 d) = PROC_ZOMBIE" using d(1) by blast
    show ?thesis
    proof (cases "?i = q")
      case True
      then show ?thesis using that(2) k2(7) k3(8) k4(4) by auto
    next
      case False
      then have "p_wait_state (procs k2 ?i) = WT_CHILD" using k2(6) that(2) by simp
      then show ?thesis using k3(9) z k4(4) by auto
    qed
  qed
  moreover have "p_state (procs k4 ?cur) = PROC_ZOMBIE" "initproc k4 = ?i"
    using k4(4) cz same_rest_fields(2) [OF k4(3)] i3(2) by simp_all
  moreover have "p_state (procs k4 ?i) \<noteq> PROC_ZOMBIE" using k4(4) k3(8) ni by auto
  moreover have "p_state (procs k4 (idleproc k)) = PROC_RUNNABLE" using k4(4) idle by simp
  moreover have "p_state (procs k4 q) \<noteq> PROC_ZOMBIE" if "p_state (procs k q) \<noteq> PROC_ZOMBIE"
  proof -
    have "p_state (procs k2 q) \<noteq> PROC_ZOMBIE"
      using k2(7,8) that by (cases "p_wait_state (procs k q) = WT_CHILD") auto
    then show ?thesis using k4(4) k3(6,8) by (cases "q = ?i") auto
  qed
  moreover have "same_rest k k4"
  proof -
    have "same_rest k k1" by (simp add: k1_def)
    also note k2(4) also note k3(5) also note k4(3)
    finally show ?thesis .
  qed
  moreover have "p_pid (procs k4 r) = p_pid (procs k r)" for r
  proof -
    have "p_pid (procs k1 r) = p_pid (procs k r)" by (simp add: k1_def f_def)
    then show ?thesis using k4(4) k3(7) k2(3) by (simp add: same_kin_def)
  qed
  moreover have "p_parent (procs k4 r) = (if r \<in> set (kids ?cur) then Some ?i else p_parent (procs k r))" for r
    using k4(4) k3(7) k2(3) st1(5) by (simp add: same_kin_def)
  moreover have "p_state (procs k4 r) = p_state (procs k r)" if "r \<notin> {?cur, ?i, q}" for r
    using k4(4) k3(6) k2(6) st1(1) that by auto
  ultimately show ?thesis using k4(2,5) by (intro exI [of _ k4]) (simp del: fun_upd_apply)
qed

end

end
