(* ===== verification/Lifecycle.thy ===== *)
theory Lifecycle
  imports Process Stride
begin

text \<open>
  The process table as one invariant, and what the system calls of \<open>proc.c\<close> do to it under the
  stride class, the class the kernel is built with. \<open>proc_table k P kids xs\<close>: the process list is
  \<open>xs\<close>, \<open>P\<close> adds the idle process, \<open>kids\<close> is the family tree (whose zombies are leaves), every
  process of \<open>xs\<close> is on the hash chain of its number, the running process and the idle process are
  runnable, and the run queue holds exactly the processes that are ready.
\<close>

definition proc_table :: "kern \<Rightarrow> nat set \<Rightarrow> (nat \<Rightarrow> nat list) \<Rightarrow> nat list \<Rightarrow> bool" where
  "proc_table k P kids xs \<longleftrightarrow> family k P kids \<and> pid_inv k xs \<and> hash_inv k (set xs)
     \<and> sched_inv stride_queued (\<lambda>_ _. True) k
     \<and> P = insert (idleproc k) (set xs) \<and> idleproc k \<notin> set xs \<and> current k \<in> P
     \<and> nr_process k = 1 + int (length xs)
     \<and> (\<forall>q \<in> P. \<forall>r. p_parent (procs k q) = Some r \<longrightarrow> r \<in> P - {q})
     \<and> p_parent (procs k (idleproc k)) = None \<and> p_state (procs k (idleproc k)) = PROC_RUNNABLE
     \<and> p_state (procs k (current k)) = PROC_RUNNABLE
     \<and> (\<forall>q \<in> P. p_state (procs k q) = PROC_ZOMBIE \<longrightarrow> kids q = [])
     \<and> (\<forall>q. q \<notin> P \<longrightarrow> p_state (procs k q) \<noteq> PROC_RUNNABLE)"

lemma proc_tableD:
  assumes "proc_table k P kids xs"
  shows "family k P kids" "pid_inv k xs" "hash_inv k (set xs)" "sched_inv stride_queued (\<lambda>_ _. True) k"
    "P = insert (idleproc k) (set xs)" "idleproc k \<notin> set xs" "current k \<in> P" "nr_process k = 1 + int (length xs)"
    "\<forall>q \<in> P. \<forall>r. p_parent (procs k q) = Some r \<longrightarrow> r \<in> P - {q}" "p_parent (procs k (idleproc k)) = None"
    "p_state (procs k (idleproc k)) = PROC_RUNNABLE" "p_state (procs k (current k)) = PROC_RUNNABLE"
    "\<forall>q \<in> P. p_state (procs k q) = PROC_ZOMBIE \<longrightarrow> kids q = []"
    "\<forall>q. q \<notin> P \<longrightarrow> p_state (procs k q) \<noteq> PROC_RUNNABLE"
  using assms unfolding proc_table_def by blast+

section \<open>Each part depends on few fields\<close>

lemma pid_inv_cong:
  assumes "proc_links k' = proc_links k" "last_pid k' = last_pid k" "next_safe k' = next_safe k"
    and "\<forall>q \<in> set xs. p_pid (procs k' q) = p_pid (procs k q)"
  shows "pid_inv k' xs \<longleftrightarrow> pid_inv k xs"
proof -
  have "pids k' xs = pids k xs" using assms(4) by (simp add: pids_def)
  with assms show ?thesis by (simp add: pid_inv_def)
qed

lemma hash_inv_cong:
  assumes "hash_links k' = hash_links k" "\<forall>q \<in> S. p_pid (procs k' q) = p_pid (procs k q)"
  shows "hash_inv k' S \<longleftrightarrow> hash_inv k S"
proof -
  have "{p \<in> S. pid_hashfn (p_pid (procs k' p)) = n} = {p \<in> S. pid_hashfn (p_pid (procs k p)) = n}" for n
    using assms(2) by auto
  with assms show ?thesis by (simp add: hash_inv_def chained_def)
qed

lemma family_cong:
  assumes "\<forall>q \<in> P. p_parent (procs k' q) = p_parent (procs k q) \<and> p_cptr (procs k' q) = p_cptr (procs k q)
    \<and> p_yptr (procs k' q) = p_yptr (procs k q) \<and> p_optr (procs k' q) = p_optr (procs k q)" "family k P kids"
  shows "family k' P kids"
  unfolding family_def
proof
  fix q assume q: "q \<in> P"
  note f = familyD [OF assms(2) q]
  have "set (kids q) \<subseteq> P" by (rule family_kids_in [OF assms(2) q])
  then have "siblings (procs k') None (kids q)"
    using f(1) assms(1) siblings_cong [of "kids q" "procs k'" "procs k" None] by blast
  moreover have "{p \<in> P. p_parent (procs k' p) = Some q} = {p \<in> P. p_parent (procs k p) = Some q}"
    using assms(1) by auto
  ultimately show "p_cptr (procs k' q) = first_of (kids q) \<and> siblings (procs k') None (kids q)
      \<and> distinct (kids q) \<and> set (kids q) = {p \<in> P. p_parent (procs k' p) = Some q}"
    using f assms(1) q by simp
qed

lemma same_links:
  fixes k k' :: kern
  assumes "k'\<lparr>procs := a, proc_links := b, nr_process := n\<rparr> = k"
  shows "rq k' = rq k" "current k' = current k" "idleproc k' = idleproc k" "last_pid k' = last_pid k"
    "next_safe k' = next_safe k" "hash_links k' = hash_links k" "initproc k' = initproc k"
  using assms by (cases k; cases k'; simp)+

text \<open>Clearing the queue links of a process outside the pool does not disturb the pool.\<close>

lemma stride_pool_other:
  assumes "stride_queued k Q" "p \<notin> Q" "run_pool_links (rq k') = skew_heap_init (run_pool_links (rq k)) p"
    "lab6_run_pool (rq k') = lab6_run_pool (rq k)" "proc_num (rq k') = proc_num (rq k)"
  shows "stride_queued k' Q"
proof -
  obtain t where t: "heap_tree (run_pool_links (rq k)) (lab6_run_pool (rq k)) t" "set_tree t = Q"
    "proc_num (rq k) = of_nat (size t)" using assms(1) by (auto simp: stride_queued_def stride_pool_def)
  let ?d = "run_pool_links (rq k)" and ?r = "lab6_run_pool (rq k)"
  have h: "heap_at ?d ?r t" "distinct (inorder t)" using t(1) by (simp_all add: heap_tree_def)
  have "heap_at (skew_heap_init ?d p) ?r t"
    by (rule heap_at_cong [OF _ _ h(2,1)]) (use t(2) assms(2) in \<open>auto simp: skew_heap_init_def\<close>)
  then have "heap_tree (skew_heap_init ?d p) ?r t"
    using t(1) by (auto simp: heap_tree_def skew_heap_init_def)
  with t assms show ?thesis unfolding stride_queued_def stride_pool_def by (intro exI [of _ t]) simp
qed

lemma alloc_proc_fields:
  assumes "alloc_proc k (Some p) = (Some p, k1)"
  shows "procs k1 = (procs k)(p := fresh_proc\<lparr>p_exit_code := p_exit_code (procs k p)\<rparr>)"
    "run_pool_links (rq k1) = skew_heap_init (run_pool_links (rq k)) p" "lab6_run_pool (rq k1) = lab6_run_pool (rq k)"
    "proc_num (rq k1) = proc_num (rq k)" "same_rest k k1" "current k1 = current k"
proof -
  have k1: "k1 = snd (alloc_proc k (Some p))" using assms by simp
  show "procs k1 = (procs k)(p := fresh_proc\<lparr>p_exit_code := p_exit_code (procs k p)\<rparr>)"
    "run_pool_links (rq k1) = skew_heap_init (run_pool_links (rq k)) p" "lab6_run_pool (rq k1) = lab6_run_pool (rq k)"
    "proc_num (rq k1) = proc_num (rq k)" "same_rest k k1" "current k1 = current k"
    unfolding k1 by (simp_all add: alloc_proc_def Let_def same_rest_def)
qed

section \<open>A small process table\<close>

text \<open>The idle process at 0, \<open>initproc\<close> at 10 and its child at 20. Either the child runs and \<open>initproc\<close> waits for it, or
  the child has exited and \<open>initproc\<close> runs.\<close>

definition demo_table :: "bool \<Rightarrow> kern" where
  "demo_table z = \<lparr>
     procs = (\<lambda>_. fresh_proc)(
       0 := fresh_proc\<lparr>p_state := PROC_RUNNABLE, p_pid := 0, p_cptr := Some 10\<rparr>,
       10 := fresh_proc\<lparr>p_state := if z then PROC_RUNNABLE else PROC_SLEEPING, p_pid := 1,
              p_wait_state := if z then 0 else WT_CHILD, p_parent := Some 0, p_cptr := Some 20\<rparr>,
       20 := fresh_proc\<lparr>p_state := if z then PROC_ZOMBIE else PROC_RUNNABLE, p_pid := 2, p_exit_code := 7,
              p_parent := Some 10\<rparr>),
     current = if z then 10 else 20, idleproc = 0, initproc = 10,
     rq = \<lparr>run_links = \<lparr>nxt = \<lambda>e. e, prv = \<lambda>e. e\<rparr>, proc_num = 0, max_time_slice = 5, lab6_run_pool = None,
       run_pool_links = \<lparr>parent = \<lambda>_. None, left = \<lambda>_. None, right = \<lambda>_. None\<rparr>\<rparr>,
     timers = \<lambda>_. \<lparr>t_expires = 0, t_proc = None\<rparr>, timer_links = \<lparr>nxt = \<lambda>e. e, prv = \<lambda>e. e\<rparr>,
     proc_links = \<lparr>nxt = (\<lambda>e. e)(ProcList := ListLink 20, ListLink 20 := ListLink 10, ListLink 10 := ProcList),
       prv = (\<lambda>e. e)(ProcList := ListLink 10, ListLink 20 := ProcList, ListLink 10 := ListLink 20)\<rparr>,
     hash_links = \<lparr>
       nxt = (\<lambda>e. e)(HashList 632 := HashLink 10, HashLink 10 := HashList 632, HashList 241 := HashLink 20, HashLink 20 := HashList 241),
       prv = (\<lambda>e. e)(HashList 632 := HashLink 10, HashLink 10 := HashList 632, HashList 241 := HashLink 20, HashLink 20 := HashList 241)\<rparr>,
     nr_process = 3, last_pid = 2, next_safe = MAX_PID\<rparr>"

definition demo_kids :: "nat \<Rightarrow> nat list" where
  "demo_kids = (\<lambda>_. [])(0 := [10], 10 := [20])"

lemma demo_hash [simp]: "pid_hashfn 1 = 632" "pid_hashfn 2 = 241"
  by (simp_all add: pid_hashfn_def hash32_def HASH_SHIFT_def GOLDEN_RATIO_PRIME_32_def drop_bit_eq_div unat_div)

lemma demo_table_fields [simp]:
  "current (demo_table z) = (if z then 10 else 20)" "idleproc (demo_table z) = 0" "initproc (demo_table z) = 10"
  "nr_process (demo_table z) = 3" "last_pid (demo_table z) = 2" "next_safe (demo_table z) = MAX_PID"
  "p_pid (procs (demo_table z) 0) = 0" "p_pid (procs (demo_table z) 10) = 1" "p_pid (procs (demo_table z) 20) = 2"
  "p_state (procs (demo_table z) 0) = PROC_RUNNABLE"
  "p_state (procs (demo_table z) 10) = (if z then PROC_RUNNABLE else PROC_SLEEPING)"
  "p_state (procs (demo_table z) 20) = (if z then PROC_ZOMBIE else PROC_RUNNABLE)"
  "p_parent (procs (demo_table z) 0) = None" "p_parent (procs (demo_table z) 10) = Some 0"
  "p_parent (procs (demo_table z) 20) = Some 10" "p_exit_code (procs (demo_table z) 20) = 7"
  "p_wait_state (procs (demo_table z) 10) = (if z then 0 else WT_CHILD)" "p_wait_state (procs (demo_table z) 20) = 0"
  by (simp_all add: demo_table_def fresh_proc_def)

lemma demo_table_ok: "proc_table (demo_table z) {0, 10, 20} demo_kids [20, 10]"
proof -
  let ?k = "demo_table z"
  have fam: "family ?k {0, 10, 20} demo_kids"
    by (auto simp: family_def demo_kids_def demo_table_def fresh_proc_def first_of_def)
  have dl: "dlist (proc_links ?k) ProcList (map ListLink [20, 10])" by (simp add: dlist_def demo_table_def)
  have pidi: "pid_inv ?k [20, 10]" using dl by (simp add: pid_inv_def MAX_PID_val)
  have chain: "\<exists>ys. dlist (hash_links ?k) (HashList n) (map HashLink ys)
      \<and> set ys = {p \<in> set [20, 10]. pid_hashfn (p_pid (procs ?k p)) = n}" for n
  proof -
    consider "n = 632" | "n = 241" | "n \<noteq> 632" "n \<noteq> 241" by blast
    then show ?thesis
    proof cases
      case 1
      then show ?thesis by (intro exI [of _ "[10]"]) (auto simp: dlist_def demo_table_def fresh_proc_def)
    next
      case 2
      then show ?thesis by (intro exI [of _ "[20]"]) (auto simp: dlist_def demo_table_def fresh_proc_def)
    next
      case 3
      then show ?thesis by (intro exI [of _ "[]"]) (auto simp: demo_table_def fresh_proc_def)
    qed
  qed
  have hash: "hash_inv ?k (set [20, 10])" unfolding hash_inv_def chained_def using chain by (auto simp: MAX_PID_val)
  have out: "\<forall>q. q \<notin> {0, 10, 20} \<longrightarrow> p_state (procs ?k q) = PROC_UNINIT" by (simp add: demo_table_def fresh_proc_def)
  have rd: "ready ?k = {}"
  proof -
    have "q \<notin> ready ?k" for q
      by (cases "q \<in> {0, 10, 20}") (use out in \<open>auto simp: ready_def\<close>)
    then show ?thesis by blast
  qed
  have "stride_pool ?k Leaf" by (simp add: stride_pool_def heap_tree_def demo_table_def)
  then have sch: "sched_inv stride_queued (\<lambda>_ _. True) ?k"
    unfolding sched_inv_def rd stride_queued_def by (intro conjI exI [of _ Leaf]) simp_all
  show ?thesis unfolding proc_table_def using fam pidi hash sch out by (auto simp: demo_kids_def)
qed

section \<open>Process numbers\<close>

text \<open>C4: \<open>get_pid\<close> returns whenever the table is not over-full, however often its scan restarts: the number is
  in range, no process has it, \<open>find_proc\<close> does not find it, and the table stays well formed.\<close>

theorem get_pid_terminates:
  assumes tab: "proc_table k P kids xs" and room: "nr_process k \<le> MAX_PROCESS"
  shows "\<exists>r k'. get_pid k = Some (r, k') \<and> 0 < r \<and> r < MAX_PID \<and> r \<notin> pids k xs
    \<and> find_proc k' r = Some None \<and> proc_table k' P kids xs"
proof -
  have "int (length xs) < MAX_PID - 1" using room proc_tableD(8) [OF tab] by (simp add: MAX_PID_def MAX_PROCESS_def)
  from get_pid_ok [OF proc_tableD(2) [OF tab] this] obtain r safe where
    g: "get_pid k = Some (r, k\<lparr>last_pid := r, next_safe := safe\<rparr>)" "0 < r" "r < MAX_PID" "r \<notin> pids k xs"
    "pid_inv (k\<lparr>last_pid := r, next_safe := safe\<rparr>) xs" by blast
  let ?k' = "k\<lparr>last_pid := r, next_safe := safe\<rparr>"
  have hash: "hash_inv ?k' (set xs)" using proc_tableD(3) [OF tab] by (subst hash_inv_cong [of ?k' k]) auto
  have "family ?k' P kids" by (rule family_cong [OF _ proc_tableD(1) [OF tab]]) simp
  moreover have "sched_inv stride_queued (\<lambda>_ _. True) ?k'"
    by (rule st.sched_inv_same [OF proc_tableD(4) [OF tab]]) simp_all
  ultimately have "proc_table ?k' P kids xs"
    using hash g(5) proc_tableD(5-14) [OF tab] unfolding proc_table_def by simp
  moreover have "find_proc ?k' r = Some None"
    using find_proc_ok [OF hash, of r] g(4) by (auto simp: pids_def)
  ultimately show ?thesis using g by blast
qed

theorem get_pid_terminates_witness: "\<exists>r k'. get_pid (demo_table True) = Some (r, k') \<and> r \<noteq> 1 \<and> r \<noteq> 2"
  using get_pid_terminates [OF demo_table_ok, of True] by (simp add: MAX_PROCESS_def) blast

text \<open>\<open>find_proc\<close> returns for every number, the ones outside the table's range included: it finds exactly
  the process that has the number, and never indexes outside the hash table.\<close>

theorem find_proc_exact:
  assumes tab: "proc_table k P kids xs"
  shows "\<exists>r. find_proc k pid = Some r \<and> (\<forall>p. r = Some p \<longleftrightarrow> p \<in> set xs \<and> p_pid (procs k p) = pid)
    \<and> pid_hashfn pid < HASH_LIST_SIZE"
proof -
  note hash = proc_tableD(3) [OF tab]
  have uniq: "p = q" if "p \<in> set xs" "q \<in> set xs" "p_pid (procs k p) = p_pid (procs k q)" for p q
    using hash that unfolding hash_inv_def by blast
  show ?thesis
  proof (cases "\<exists>p \<in> set xs. p_pid (procs k p) = pid")
    case False
    then show ?thesis using find_proc_ok [OF hash, of pid] pid_hashfn_bound by auto
  next
    case True
    then obtain p where p: "p \<in> set xs" "p_pid (procs k p) = pid" by blast
    have "(THE q. q \<in> set xs \<and> p_pid (procs k q) = pid) = p" using p uniq by blast
    then have "find_proc k pid = Some (Some p)" using find_proc_ok [OF hash, of pid] True by simp
    then show ?thesis using p uniq pid_hashfn_bound by auto
  qed
qed

theorem find_proc_exact_witness: "find_proc (demo_table True) 2 = Some (Some 20) \<and> find_proc (demo_table True) 9999 = Some None"
proof
  obtain r where r: "find_proc (demo_table True) 2 = Some r"
    "\<forall>p. r = Some p \<longleftrightarrow> p \<in> set [20, 10] \<and> p_pid (procs (demo_table True) p) = 2"
    using find_proc_exact [OF demo_table_ok, of True 2] by blast
  from r(2) have "r = Some 20" by simp
  with r(1) show "find_proc (demo_table True) 2 = Some (Some 20)" by simp
  show "find_proc (demo_table True) 9999 = Some None" by (simp add: find_proc_def MAX_PID_val)
qed

section \<open>do_fork\<close>

lemma fork_core:
  assumes tab: "proc_table k P kids xs" and p: "p \<notin> P" and room: "int (length xs) < MAX_PID - 1"
    and k1: "procs k1 = (procs k)(p := X)" "run_pool_links (rq k1) = skew_heap_init (run_pool_links (rq k)) p"
      "lab6_run_pool (rq k1) = lab6_run_pool (rq k)" "proc_num (rq k1) = proc_num (rq k)" "same_rest k k1" "current k1 = current k"
    and X: "p_state X = PROC_UNINIT" "p_parent X = Some (current k)" "p_cptr X = None"
  shows "\<exists>pid k2 k3 k4. get_pid k1 = Some (pid, k2)
    \<and> set_links (hash_proc (upd_proc p (\<lambda>p. p\<lparr>p_pid := pid\<rparr>) k2) p) p = Some k3
    \<and> wakeup_proc stride_sched_class k3 p = Some k4 \<and> p_pid (procs k4 p) = pid
    \<and> 0 < pid \<and> pid < MAX_PID \<and> pid \<notin> pids k xs \<and> current k4 = current k \<and> initproc k4 = initproc k
    \<and> p_state (procs k4 p) = PROC_RUNNABLE \<and> p_parent (procs k4 p) = Some (current k)
    \<and> proc_table k4 (insert p P) (kids(current k := p # kids (current k), p := [])) (p # xs)"
proof -
  note fam = proc_tableD(1) [OF tab] and pidi = proc_tableD(2) [OF tab] and hash = proc_tableD(3) [OF tab]
    and sch = proc_tableD(4) [OF tab] and PS = proc_tableD(5,6) [OF tab] and cur = proc_tableD(7) [OF tab]
    and nr = proc_tableD(8) [OF tab] and par = proc_tableD(9) [OF tab] and idle = proc_tableD(10,11) [OF tab]
    and run = proc_tableD(12) [OF tab] and leaf = proc_tableD(13) [OF tab] and out = proc_tableD(14) [OF tab]
  have pxs: "p \<notin> set xs" "p \<noteq> idleproc k" "p \<noteq> current k" using p PS cur by auto
  note r1 = same_rest_fields [OF k1(5)]
  have pid1: "pid_inv k1 xs" using pidi pxs(1) k1(1) r1 by (subst pid_inv_cong [of k1 k]) auto
  have pk1: "pids k1 xs = pids k xs" using pxs(1) k1(1) by (auto simp: pids_def)
  obtain pid safe where g: "get_pid k1 = Some (pid, k1\<lparr>last_pid := pid, next_safe := safe\<rparr>)" "0 < pid" "pid < MAX_PID"
    "pid \<notin> pids k xs" "pid_inv (k1\<lparr>last_pid := pid, next_safe := safe\<rparr>) xs"
    using get_pid_ok [OF pid1 room] unfolding pk1 by blast
  define k2 where "k2 = k1\<lparr>last_pid := pid, next_safe := safe\<rparr>"
  define k2' where "k2' = upd_proc p (\<lambda>p. p\<lparr>p_pid := pid\<rparr>) k2"
  have k2': "procs k2' = (procs k)(p := X\<lparr>p_pid := pid\<rparr>)" "hash_links k2' = hash_links k"
    "proc_links k2' = proc_links k" "nr_process k2' = nr_process k" "idleproc k2' = idleproc k"
    "current k2' = current k" "rq k2' = rq k1" "last_pid k2' = pid" "next_safe k2' = safe" "initproc k2' = initproc k"
    using k1(1,6) r1 by (simp_all add: k2'_def k2_def)
  have h2: "hash_inv k2' (set xs)" using hash pxs(1) k2' by (subst hash_inv_cong [of k2' k]) auto
  define k2h where "k2h = hash_proc k2' p"
  have hh: "hash_inv k2h (insert p (set xs))" unfolding k2h_def
  proof (rule hash_proc_inv [OF h2 pxs(1)])
    show "\<forall>q \<in> set xs. p_pid (procs k2' q) \<noteq> p_pid (procs k2' p)"
    proof
      fix q assume q: "q \<in> set xs"
      then have "p_pid (procs k q) \<in> pids k xs" by (simp add: pids_def)
      then have "p_pid (procs k q) \<noteq> pid" using g(4) by blast
      then show "p_pid (procs k2' q) \<noteq> p_pid (procs k2' p)" using q pxs(1) k2'(1) by auto
    qed
  qed (use g k2' in simp_all)
  have k2h: "procs k2h = procs k2'" "proc_links k2h = proc_links k" "nr_process k2h = nr_process k"
    "idleproc k2h = idleproc k" "current k2h = current k" "rq k2h = rq k1" "last_pid k2h = pid" "next_safe k2h = safe"
    "initproc k2h = initproc k"
    using k2' by (simp_all add: k2h_def hash_proc_def)
  have fam2: "family k2h P kids" by (rule family_cong [OF _ fam]) (use p k2h k2' in auto)
  have dl: "dlist (proc_links k2h) ProcList (map ListLink xs)" using pidi k2h by (simp add: pid_inv_def)
  have p2: "p_parent (procs k2h p) = Some (current k)" "p_cptr (procs k2h p) = None" using X k2h k2' by simp_all
  have oth: "\<forall>r \<in> P. p_parent (procs k2h r) \<noteq> Some p" using par p k2h k2' by auto
  from set_links_family [OF fam2 p cur p2 oth dl pxs(1)] obtain k3 where k3: "set_links k2h p = Some k3"
    "family k3 (insert p P) (kids(current k := p # kids (current k), p := []))"
    "dlist (proc_links k3) ProcList (map ListLink (p # xs))" "nr_process k3 = nr_process k + 1"
    "k3\<lparr>procs := procs k2h, proc_links := proc_links k2h, nr_process := nr_process k2h\<rparr> = k2h"
    "\<forall>r. p_pid (procs k3 r) = p_pid (procs k2h r) \<and> p_state (procs k3 r) = p_state (procs k2h r)
         \<and> p_rq (procs k3 r) = p_rq (procs k2h r) \<and> p_parent (procs k3 r) = p_parent (procs k2h r)"
    unfolding k2h(3) by blast
  note q3 = same_links [OF k3(5)]
  have f3: "rq k3 = rq k1" "current k3 = current k" "idleproc k3 = idleproc k" "last_pid k3 = pid" "next_safe k3 = safe"
    "hash_links k3 = hash_links k2h" "initproc k3 = initproc k"
    using q3 k2h by simp_all
  have st3: "p_state (procs k3 r) = (if r = p then PROC_UNINIT else p_state (procs k r))"
    "p_pid (procs k3 r) = (if r = p then pid else p_pid (procs k r))"
    "p_parent (procs k3 r) = (if r = p then Some (current k) else p_parent (procs k r))" for r
    using k3(6) k2h(1) k2'(1) X by simp_all
  have pr: "p \<notin> ready k" using out p by (auto simp: ready_def)
  have rd: "ready k3 = ready k" using pr f3 st3 by (auto simp: ready_def)
  have "stride_queued k3 (ready k)"
    by (rule stride_pool_other [of k _ p]) (use sch pr k1 f3 in \<open>auto simp: sched_inv_def\<close>)
  then have sch3: "sched_inv stride_queued (\<lambda>_ _. True) k3" by (simp add: sched_inv_def rd)
  have z: "p_state (procs k3 p) \<noteq> PROC_ZOMBIE" using st3 by simp
  from st.wakeup_ok [OF sch3 z] obtain k4 where k4: "wakeup_proc stride_sched_class k3 p = Some k4"
    "sched_inv stride_queued (\<lambda>_ _. True) k4" "p_state (procs k4 p) = PROC_RUNNABLE"
    "current k4 = current k3" "same_rest k3 k4" "\<forall>q. q \<noteq> p \<longrightarrow> same_proc (procs k3 q) (procs k4 q)"
    "\<forall>q. same_kin (procs k3 q) (procs k4 q)" by blast
  note r4 = same_rest_fields [OF k4(5)]
  have kin4: "p_parent (procs k4 q) = p_parent (procs k3 q)" "p_cptr (procs k4 q) = p_cptr (procs k3 q)"
    "p_yptr (procs k4 q) = p_yptr (procs k3 q)" "p_optr (procs k4 q) = p_optr (procs k3 q)"
    "p_pid (procs k4 q) = p_pid (procs k3 q)" for q using k4(7) by (simp_all add: same_kin_def)
  have st4: "p_state (procs k4 q) = p_state (procs k q)" if "q \<noteq> p" for q
    using that k4(6) st3(1) [of q] same_proc_fields [of "procs k3 q" "procs k4 q"] by simp
  have "family k4 (insert p P) (kids(current k := p # kids (current k), p := []))"
    by (rule family_cong [OF _ k3(2)]) (simp add: kin4)
  moreover have "pid_inv k4 (p # xs)"
  proof -
    have "pids k4 xs = pids k xs" using pxs(1) by (auto simp: pids_def kin4 st3)
    then have "pids k4 (p # xs) = insert pid (pids k xs)" by (simp add: kin4 st3)
    moreover have "pids (k1\<lparr>last_pid := pid, next_safe := safe\<rparr>) xs = pids k xs" using pk1 by (simp add: pids_def)
    ultimately show ?thesis using g(2,3,5) k3(3) r4 f3 unfolding pid_inv_def by auto
  qed
  moreover have "hash_inv k4 (set (p # xs))"
  proof -
    have "hash_inv k4 (insert p (set xs)) \<longleftrightarrow> hash_inv k2h (insert p (set xs))"
      by (rule hash_inv_cong) (use r4 f3 kin4 k3(6) in auto)
    with hh show ?thesis by simp
  qed
  moreover have "insert p P = insert (idleproc k4) (set (p # xs))" "idleproc k4 \<notin> set (p # xs)"
    using PS pxs r4 f3 by auto
  moreover have "nr_process k4 = 1 + int (length (p # xs))" using k3(4) r4 nr by simp
  moreover have "\<forall>q \<in> insert p P. \<forall>r. p_parent (procs k4 q) = Some r \<longrightarrow> r \<in> insert p P - {q}"
  proof (intro ballI allI impI)
    fix x r assume x: "x \<in> insert p P" "p_parent (procs k4 x) = Some r"
    show "r \<in> insert p P - {x}"
    proof (cases "x = p")
      case True
      then have "r = current k" using x(2) by (simp add: kin4 st3)
      then show ?thesis using True cur pxs(3) by simp
    next
      case False
      then have "x \<in> P" "p_parent (procs k x) = Some r" using x by (simp_all add: kin4 st3)
      then have "r \<in> P - {x}" using par by blast
      then show ?thesis by blast
    qed
  qed
  moreover have "p_parent (procs k4 (idleproc k4)) = None" "p_state (procs k4 (idleproc k4)) = PROC_RUNNABLE"
    using idle pxs(2) r4(1) f3(3) st4 [of "idleproc k"] kin4(1) st3(3) [of "idleproc k"] by simp_all
  moreover have "p_state (procs k4 (current k4)) = PROC_RUNNABLE" 
    using run pxs(3) k4(4) f3(2) st4 [of "current k"] by simp
  moreover have "\<forall>q \<in> insert p P. p_state (procs k4 q) = PROC_ZOMBIE
      \<longrightarrow> (kids(current k := p # kids (current k), p := [])) q = []"
  proof (intro ballI impI)
    fix x assume x: "x \<in> insert p P" "p_state (procs k4 x) = PROC_ZOMBIE"
    then have "x \<noteq> p" using k4(3) by auto
    moreover from this have "p_state (procs k x) = PROC_ZOMBIE" using st4 x(2) by simp
    moreover from this have "x \<noteq> current k" using run by auto
    ultimately show "(kids(current k := p # kids (current k), p := [])) x = []" using leaf x(1) by simp
  qed
  moreover have "\<forall>q. q \<notin> insert p P \<longrightarrow> p_state (procs k4 q) \<noteq> PROC_RUNNABLE" using out st4 by auto
  moreover have "current k4 \<in> insert p P" using k4(4) f3 cur by simp
  ultimately have tab4: "proc_table k4 (insert p P) (kids(current k := p # kids (current k), p := [])) (p # xs)"
    using k4(2) unfolding proc_table_def by blast
  show ?thesis
  proof (intro exI [of _ pid], rule exI [of _ k2], rule exI [of _ k3], rule exI [of _ k4], intro conjI)
    show "get_pid k1 = Some (pid, k2)" using g(1) by (simp add: k2_def)
    show "set_links (hash_proc (upd_proc p (\<lambda>p. p\<lparr>p_pid := pid\<rparr>) k2) p) p = Some k3"
      using k3(1) by (simp add: k2h_def k2'_def)
    show "p_pid (procs k4 p) = pid" "p_parent (procs k4 p) = Some (current k)" by (simp_all add: kin4 st3)
    show "current k4 = current k" "initproc k4 = initproc k" using k4(4) f3 r4 by simp_all
  qed (use g k4 tab4 in simp_all)
qed

text \<open>C1: \<open>do_fork\<close>, on every branch: it refuses when the table is full, when the structure, the stack or
  the copies of files and memory cannot be had, and otherwise returns the new process number. That number
  was not in use; the child is runnable, is the youngest child of the caller, is on the process list and
  the hash chain, and the process table stays well formed.\<close>

theorem do_fork_outcome:
  assumes tab: "proc_table k P kids xs" and awake: "p_wait_state (procs k (current k)) = 0"
    and mem: "\<forall>p. mem = Some p \<longrightarrow> p \<notin> P"
  shows "case do_fork stride_sched_class k mem kstack files mm of
      None \<Rightarrow> False
    | Some (r, k') \<Rightarrow>
        if nr_process k \<ge> MAX_PROCESS then r = - E_NO_FREE_PROC \<and> k' = k
        else if mem = None then r = - E_NO_MEM \<and> k' = k
        else if kstack = None \<or> fst files \<noteq> 0 \<or> fst mm \<noteq> 0 then r = - E_NO_MEM
        else 0 < r \<and> r < MAX_PID \<and> r \<notin> pids k xs \<and> p_pid (procs k' (the mem)) = r
          \<and> p_state (procs k' (the mem)) = PROC_RUNNABLE \<and> p_parent (procs k' (the mem)) = Some (current k)
          \<and> current k' = current k
          \<and> proc_table k' (insert (the mem) P) (kids(current k := the mem # kids (current k), the mem := [])) (the mem # xs)"
proof (cases "nr_process k \<ge> MAX_PROCESS \<or> mem = None")
  case True
  then show ?thesis by (auto simp: do_fork_def alloc_proc_def)
next
  case False
  then obtain p where m: "mem = Some p" by auto
  have p: "p \<notin> P" and cur: "current k \<in> P" and pc: "p \<noteq> current k" using mem m tab by (auto simp: proc_table_def)
  obtain k0 where a: "alloc_proc k (Some p) = (Some p, k0)" by (simp add: alloc_proc_def Let_def)
  note af = alloc_proc_fields [OF a]
  let ?k1 = "upd_proc p (\<lambda>x. x\<lparr>p_parent := Some (current k)\<rparr>) k0"
  have w: "p_wait_state (procs k0 (current k)) = 0" using awake pc af(1) by simp
  show ?thesis
  proof (cases "kstack = None \<or> fst files \<noteq> 0 \<or> fst mm \<noteq> 0")
    case True
    then show ?thesis
      using False m w a af(6) pc by (cases kstack) (auto simp: do_fork_def Let_def)
  next
    case ok: False
    then obtain stack where ks: "kstack = Some stack" by auto
    let ?k4 = "upd_proc p (\<lambda>x. x\<lparr>p_mm := snd mm\<rparr>) (upd_proc p (\<lambda>x. x\<lparr>p_filesp := snd files\<rparr>)
      (upd_proc p (\<lambda>x. x\<lparr>p_kstack := Some stack\<rparr>) ?k1))"
    have room: "int (length xs) < MAX_PID - 1" using False tab by (auto simp: proc_table_def MAX_PID_def)
    have sr: "same_rest k ?k4" by (rule same_rest_trans [OF af(5)]) (simp add: same_rest_def upd_proc_def)
    have x: "procs ?k4 = (procs k)(p := procs ?k4 p)" "run_pool_links (rq ?k4) = skew_heap_init (run_pool_links (rq k)) p"
      "lab6_run_pool (rq ?k4) = lab6_run_pool (rq k)" "proc_num (rq ?k4) = proc_num (rq k)" "current ?k4 = current k"
      "p_state (procs ?k4 p) = PROC_UNINIT" "p_parent (procs ?k4 p) = Some (current k)" "p_cptr (procs ?k4 p) = None"
      using af by (simp_all add: fresh_proc_def)
    obtain pid k2 k3 k4 where c: "get_pid ?k4 = Some (pid, k2)"
      "set_links (hash_proc (upd_proc p (\<lambda>p. p\<lparr>p_pid := pid\<rparr>) k2) p) p = Some k3"
      "wakeup_proc stride_sched_class k3 p = Some k4" "p_pid (procs k4 p) = pid"
      "0 < pid" "pid < MAX_PID" "pid \<notin> pids k xs" "current k4 = current k"
      "p_state (procs k4 p) = PROC_RUNNABLE" "p_parent (procs k4 p) = Some (current k)"
      "proc_table k4 (insert p P) (kids(current k := p # kids (current k), p := [])) (p # xs)"
      using fork_core [OF tab p room x(1-4) sr x(5-8)] by blast
    have "do_fork stride_sched_class k mem kstack files mm = Some (pid, k4)"
      using False m ks ok w a af(6) pc c(1-4) by (simp add: do_fork_def Let_def)
    with False ok m c ks show ?thesis by simp
  qed
qed

theorem do_fork_outcome_witness:
  "\<exists>r k'. do_fork stride_sched_class (demo_table False) (Some 30) (Some 0x9000) (0, None) (0, None) = Some (r, k')
     \<and> 0 < r \<and> r \<noteq> 1 \<and> r \<noteq> 2 \<and> p_parent (procs k' 30) = Some 20"
  using do_fork_outcome [OF demo_table_ok, of False "Some 30" "Some 0x9000" "(0, None)" "(0, None)"]
  by (simp add: MAX_PROCESS_def split: option.splits prod.splits)

section \<open>do_exit\<close>

text \<open>C2: \<open>do_exit\<close> of a process other than the idle and the init process: the caller becomes a zombie
  with its exit code, its children become children of \<open>initproc\<close>, in front of those it has, a parent
  that waits for a child is made runnable, and so is \<open>initproc\<close> when it waits and inherits a zombie;
  another process runs and the process table stays well formed.\<close>

theorem do_exit_reparents:
  assumes tab: "proc_table k P kids xs" and cur: "current k \<noteq> initproc k" "current k \<noteq> idleproc k"
    and par: "p_parent (procs k (current k)) = Some q"
    and init: "initproc k \<in> P" "p_parent (procs k (initproc k)) \<noteq> Some (current k)" "p_state (procs k (initproc k)) \<noteq> PROC_ZOMBIE"
  shows "\<exists>k'. do_exit stride_sched_class k code = Some k'
    \<and> proc_table k' P (kids(current k := [], initproc k := rev (kids (current k)) @ kids (initproc k))) xs
    \<and> p_state (procs k' (current k)) = PROC_ZOMBIE \<and> p_exit_code (procs k' (current k)) = code
    \<and> current k' \<noteq> current k
    \<and> (p_wait_state (procs k q) = WT_CHILD \<longrightarrow> p_state (procs k' q) = PROC_RUNNABLE)
    \<and> ((\<exists>d \<in> set (kids (current k)). p_state (procs k d) = PROC_ZOMBIE) \<longrightarrow>
         p_wait_state (procs k (initproc k)) = WT_CHILD \<longrightarrow> p_state (procs k' (initproc k)) = PROC_RUNNABLE)"
proof -
  let ?c = "current k" and ?i = "initproc k"
  note fam = proc_tableD(1) [OF tab] and pidi = proc_tableD(2) [OF tab] and hash = proc_tableD(3) [OF tab]
    and sch = proc_tableD(4) [OF tab] and PS = proc_tableD(5,6) [OF tab] and cP = proc_tableD(7) [OF tab]
    and nr = proc_tableD(8) [OF tab] and pars = proc_tableD(9) [OF tab] and idle = proc_tableD(10,11) [OF tab]
    and leaf = proc_tableD(13) [OF tab] and out = proc_tableD(14) [OF tab]
  have q: "q \<in> P" "q \<noteq> ?c" using pars cP par by blast+
  have kin: "?i \<notin> set (kids ?c)" "?c \<notin> set (kids ?c)" "?c \<in> set (kids q)"
    unfolding familyD(4) [OF fam cP] familyD(4) [OF fam q(1)] using init(2) q(2) cP par by simp_all
  have qz: "p_state (procs k q) \<noteq> PROC_ZOMBIE" using leaf q(1) kin(3) by force
  then have qw: "p_wait_state (procs k q) = WT_CHILD \<longrightarrow> p_state (procs k q) \<noteq> PROC_ZOMBIE" by simp
  let ?kids = "kids(?c := [], ?i := rev (kids ?c) @ kids ?i)"
  obtain k' where k': "do_exit stride_sched_class k code = Some k'" "sched_inv stride_queued (\<lambda>_ _. True) k'"
    "family k' P ?kids" "p_state (procs k' ?c) = PROC_ZOMBIE" "p_exit_code (procs k' ?c) = code"
    "current k' \<noteq> ?c" "same_rest k k'" "p_state (procs k' (current k')) = PROC_RUNNABLE"
    "\<forall>r. p_pid (procs k' r) = p_pid (procs k r)
         \<and> p_parent (procs k' r) = (if r \<in> set (kids ?c) then Some ?i else p_parent (procs k r))
         \<and> (r \<notin> {?c, ?i, q} \<longrightarrow> p_state (procs k' r) = p_state (procs k r))"
    "p_wait_state (procs k q) = WT_CHILD \<longrightarrow> p_state (procs k' q) = PROC_RUNNABLE"
    "(\<exists>d \<in> set (kids ?c). p_state (procs k d) = PROC_ZOMBIE) \<longrightarrow>
         p_wait_state (procs k ?i) = WT_CHILD \<longrightarrow> p_state (procs k' ?i) = PROC_RUNNABLE"
    "p_state (procs k' ?i) \<noteq> PROC_ZOMBIE" "p_state (procs k' q) \<noteq> PROC_ZOMBIE"
    "p_state (procs k' (idleproc k)) = PROC_RUNNABLE"
    using st.do_exit_ok [OF sch fam cP init(1) cur kin(1,2) par q(2) qw init(3) idle(2), of code] qz by blast
  note r = same_rest_fields [OF k'(7)]
  have "pid_inv k' xs" using pidi k'(9) r by (subst pid_inv_cong [of k' k]) auto
  moreover have "hash_inv k' (set xs)" using hash k'(9) r by (subst hash_inv_cong [of k' k]) auto
  moreover have "current k' \<in> P" using out k'(8,9) cP init(1) q(1) by (metis insert_iff singletonD)
  moreover have "\<forall>q \<in> P. \<forall>r. p_parent (procs k' q) = Some r \<longrightarrow> r \<in> P - {q}"
  proof (intro ballI allI impI)
    fix x r assume x: "x \<in> P" "p_parent (procs k' x) = Some r"
    show "r \<in> P - {x}"
    proof (cases "x \<in> set (kids ?c)")
      case True
      then have "r = ?i" using x(2) k'(9) by simp
      then show ?thesis using True init(1) kin(1) by auto
    next
      case False
      then have "p_parent (procs k x) = Some r" using x k'(9) by simp
      then show ?thesis using pars x(1) by blast
    qed
  qed
  moreover have "p_parent (procs k' (idleproc k')) = None"
    using idle(1) k'(9) r familyD(4) [OF fam cP] by auto
  moreover have "\<forall>r \<in> P. p_state (procs k' r) = PROC_ZOMBIE \<longrightarrow> ?kids r = []"
  proof (intro ballI impI)
    fix x assume x: "x \<in> P" "p_state (procs k' x) = PROC_ZOMBIE"
    show "?kids x = []"
    proof (cases "x = ?c")
      case True
      then show ?thesis using cur(1) by simp
    next
      case False
      then have "x \<notin> {?c, ?i, q}" using x(2) k'(12,13) by auto
      then have "p_state (procs k x) = PROC_ZOMBIE" using k'(9) x(2) by simp
      then show ?thesis using leaf x(1) False \<open>x \<notin> {?c, ?i, q}\<close> by simp
    qed
  qed
  moreover have "\<forall>r. r \<notin> P \<longrightarrow> p_state (procs k' r) \<noteq> PROC_RUNNABLE"
  proof (intro allI impI)
    fix x assume "x \<notin> P"
    moreover from this have "x \<notin> {?c, ?i, q}" using cP init(1) q(1) by blast
    ultimately show "p_state (procs k' x) \<noteq> PROC_RUNNABLE" using out k'(9) by simp
  qed
  ultimately have "proc_table k' P ?kids xs"
    using k'(2,3,8,14) PS nr r by (simp add: proc_table_def)
  with k' show ?thesis by blast
qed

theorem do_exit_reparents_witness:
  "\<exists>k'. do_exit stride_sched_class (demo_table False) 7 = Some k' \<and> p_state (procs k' 20) = PROC_ZOMBIE
     \<and> p_state (procs k' 10) = PROC_RUNNABLE"
  using do_exit_reparents [OF demo_table_ok, of False 10 7] by auto

section \<open>do_wait\<close>

definition eligible :: "kern \<Rightarrow> int \<Rightarrow> nat list \<Rightarrow> nat list" where
  "eligible k pid cs = filter (\<lambda>p. pid = 0 \<or> p_pid (procs k p) = pid) cs"

lemma scan_kids_ok:
  "siblings (procs k) y cs \<Longrightarrow> scan_kids k (first_of cs) b =
     Some (case find (\<lambda>p. p_state (procs k p) = PROC_ZOMBIE) cs of
             Some p \<Rightarrow> Found p | None \<Rightarrow> if b \<or> cs \<noteq> [] then AllRunning else NoChild)"
proof (induction cs arbitrary: y b)
  case Nil
  then show ?case by (subst scan_kids.simps) simp
next
  case (Cons c cs)
  have "siblings (procs k) (Some c) cs" "p_optr (procs k c) = first_of cs"
    using Cons.prems by (simp_all add: first_of_def)
  then show ?case using Cons.IH [of "Some c" True] by (subst scan_kids.simps) simp
qed

lemma distinct_single: "distinct xs \<Longrightarrow> set xs = {x} \<Longrightarrow> xs = [x]"
  by (cases xs; cases "tl xs") auto

lemma wait_search_ok:
  assumes tab: "proc_table k P kids xs"
  shows "wait_search k pid = Some (case find (\<lambda>p. p_state (procs k p) = PROC_ZOMBIE) (eligible k pid (kids (current k))) of
     Some p \<Rightarrow> Found p | None \<Rightarrow> if eligible k pid (kids (current k)) = [] then NoChild else AllRunning)"
proof (cases "pid = 0")
  case True
  note f = familyD [OF proc_tableD(1,7) [OF tab]]
  show ?thesis using True scan_kids_ok [OF f(1), of False] f(3)
    by (simp add: wait_search_def eligible_def)
next
  case False
  note hash = proc_tableD(3) [OF tab] and f = familyD [OF proc_tableD(1,7) [OF tab]]
  let ?kids = "kids (current k)"
  have uniq: "p = q" if "p \<in> set xs" "q \<in> set xs" "p_pid (procs k p) = p_pid (procs k q)" for p q
    using hash that unfolding hash_inv_def by blast
  have sub: "set ?kids \<subseteq> set xs" using f(4) proc_tableD(5,10) [OF tab] by auto
  show ?thesis
  proof (cases "\<exists>p \<in> set xs. p_pid (procs k p) = pid")
    case none: False
    then have "eligible k pid ?kids = []" using sub False by (auto simp: eligible_def filter_empty_conv)
    then show ?thesis using False none find_proc_ok [OF hash, of pid] by (simp add: wait_search_def)
  next
    case True
    then obtain p where p: "p \<in> set xs" "p_pid (procs k p) = pid" by blast
    have "(THE q. q \<in> set xs \<and> p_pid (procs k q) = pid) = p" using p uniq by blast
    then have fp: "find_proc k pid = Some (Some p)" using find_proc_ok [OF hash, of pid] True by simp
    have el: "set (eligible k pid ?kids) = (if p \<in> set ?kids then {p} else {})"
      using p uniq sub False by (auto simp: eligible_def)
    have dis: "distinct (eligible k pid ?kids)" using f(2) by (simp add: eligible_def)
    have mem: "p \<in> set ?kids \<longleftrightarrow> p_parent (procs k p) = Some (current k)"
      using f(4) p(1) proc_tableD(5) [OF tab] by auto
    show ?thesis
    proof (cases "p \<in> set ?kids")
      case True
      then have "eligible k pid ?kids = [p]"
        using el dis distinct_single by simp
      then show ?thesis using True mem fp False by (simp add: wait_search_def)
    next
      case no: False
      then have "eligible k pid ?kids = []" using el by simp
      then show ?thesis using no mem fp False by (simp add: wait_search_def)
    qed
  qed
qed

text \<open>Reaping takes the zombie out of the hash chain, the process list and the family.\<close>

lemma reap_ok:
  assumes tab: "proc_table k P kids xs" and p: "p \<in> set (kids (current k))" "p_state (procs k p) = PROC_ZOMBIE"
  shows "\<exists>k'. remove_links (unhash_proc k p) p = Some k' \<and> current k' = current k
    \<and> proc_table k' (P - {p}) (kids(current k := remove1 p (kids (current k)))) (remove1 p xs)"
proof -
  note fam = proc_tableD(1) [OF tab] and cP = proc_tableD(7) [OF tab] and PS = proc_tableD(5,6) [OF tab]
  note f = familyD [OF fam cP]
  have par: "p_parent (procs k p) = Some (current k)" and pP: "p \<in> P" using p(1) f(4) by auto
  have kp: "kids p = []" using proc_tableD(13) [OF tab] pP p(2) by blast
  have pi: "p \<noteq> idleproc k" "p \<noteq> current k" using p(2) proc_tableD(11,12) [OF tab] by auto
  have pxs: "p \<in> set xs" using pP pi PS by blast
  then obtain us vs where xs: "xs = us @ p # vs" by (meson split_list)
  have dl: "dlist (proc_links k) ProcList (map ListLink xs)" using proc_tableD(2) [OF tab] by (simp add: pid_inv_def)
  have dis: "distinct xs" using dlist_distinct [OF dl] by (simp add: distinct_map)
  then have rx: "remove1 p xs = us @ vs" "p \<notin> set (us @ vs)" by (auto simp: xs remove1_append)
  let ?k1 = "unhash_proc k p"
  have k1: "procs ?k1 = procs k" "proc_links ?k1 = proc_links k" "rq ?k1 = rq k" "current ?k1 = current k"
    "idleproc ?k1 = idleproc k" "last_pid ?k1 = last_pid k" "next_safe ?k1 = next_safe k" "nr_process ?k1 = nr_process k"
    by (simp_all add: unhash_proc_def)
  have fam1: "family ?k1 P kids" by (rule family_cong [OF _ fam]) (simp add: k1)
  obtain k' where k': "remove_links ?k1 p = Some k'" "family k' (P - {p}) (kids(current k := remove1 p (kids (current k))))"
    "dlist (proc_links k') ProcList (map ListLink (us @ vs))" "nr_process k' = nr_process k - 1"
    "k'\<lparr>procs := procs ?k1, proc_links := proc_links ?k1, nr_process := nr_process ?k1\<rparr> = ?k1"
    "\<forall>r. p_pid (procs k' r) = p_pid (procs k r) \<and> p_state (procs k' r) = p_state (procs k r)
       \<and> p_rq (procs k' r) = p_rq (procs k r) \<and> p_parent (procs k' r) = p_parent (procs k r)"
    using remove_links_family [OF fam1 pP cP pi(2) _ kp, of us vs] par dl unfolding k1 xs by blast
  note q = same_links [OF k'(5)]
  have set_ys: "set (us @ vs) = set xs - {p}" using rx(2) by (auto simp: xs)
  have "pid_inv k' (us @ vs)"
  proof -
    have "pids k' (us @ vs) \<subseteq> pids k xs" using k'(6) by (auto simp: pids_def xs)
    then show ?thesis using proc_tableD(2) [OF tab] k'(3) q k1 by (auto simp: pid_inv_def)
  qed
  moreover have "hash_inv k' (set (us @ vs))"
    using unhash_proc_inv [OF proc_tableD(3) [OF tab] pxs] hash_inv_cong [of k' ?k1 "set xs - {p}"] q k'(6) k1(1)
    unfolding set_ys by simp
  moreover have "sched_inv stride_queued (\<lambda>_ _. True) k'"
    by (rule st.sched_inv_same [OF proc_tableD(4) [OF tab]]) (use q k1 k'(6) in simp_all)
  moreover have "P - {p} = insert (idleproc k') (set (us @ vs))" "idleproc k' \<notin> set (us @ vs)" "current k' \<in> P - {p}"
    using PS q k1 pi cP unfolding set_ys by auto
  moreover have "nr_process k' = 1 + int (length (us @ vs))" using proc_tableD(8) [OF tab] k'(4) by (simp add: xs)
  moreover have "\<forall>x \<in> P - {p}. \<forall>r. p_parent (procs k' x) = Some r \<longrightarrow> r \<in> P - {p} - {x}"
  proof (intro ballI allI impI)
    fix x r assume x: "x \<in> P - {p}" "p_parent (procs k' x) = Some r"
    then have px: "p_parent (procs k x) = Some r" using k'(6) by simp
    have "{y \<in> P. p_parent (procs k y) = Some p} = {}" using familyD(4) [OF fam pP] kp by simp
    then have "r \<noteq> p" using x(1) px by blast
    then show "r \<in> P - {p} - {x}" using proc_tableD(9) [OF tab] x(1) px by blast
  qed
  moreover have "p_parent (procs k' (idleproc k')) = None" "p_state (procs k' (idleproc k')) = PROC_RUNNABLE"
    "p_state (procs k' (current k')) = PROC_RUNNABLE"
    using proc_tableD(10-12) [OF tab] q k1 k'(6) by simp_all
  moreover have "\<forall>x \<in> P - {p}. p_state (procs k' x) = PROC_ZOMBIE \<longrightarrow> (kids(current k := remove1 p (kids (current k)))) x = []"
    using proc_tableD(12,13) [OF tab] k'(6) by auto
  moreover have "\<forall>x. x \<notin> P - {p} \<longrightarrow> p_state (procs k' x) \<noteq> PROC_RUNNABLE"
    using proc_tableD(14) [OF tab] k'(6) p(2) by auto
  ultimately have "proc_table k' (P - {p}) (kids(current k := remove1 p (kids (current k)))) (us @ vs)"
    using k'(2) unfolding proc_table_def by blast
  then show ?thesis using k'(1) q(2) k1(4) rx(1) by auto
qed

text \<open>C3: One turn of \<open>do_wait\<close>, called by a process other than the idle process on a well-formed process table with the kernel's
  stride scheduler. A place for the
  exit code that the caller may not write is refused with \<open>-E_INVAL\<close>. Otherwise, with a good place or none, \<open>do_wait\<close> reaps the first
  child that matches and has exited: it returns 0 and the exit code, takes the child, and no other process, out of the table and of the
  caller's children, and the table stays well formed; only when
  that child is the init process does the kernel panic. If no child matches it fails with \<open>-E_BAD_PROC\<close> and changes nothing. If some
  child matches but none of these has exited, the caller is left sleeping with wait state \<open>WT_CHILD\<close>, another process runs, and the
  table stays well formed.\<close>

theorem do_wait_outcome:
  assumes tab: "proc_table k P kids xs" and cur: "current k \<noteq> idleproc k"
  shows "do_wait stride_sched_class k pid True = Some (Inl (- E_INVAL, None), k) \<and>
    (case find (\<lambda>p. p_state (procs k p) = PROC_ZOMBIE) (eligible k pid (kids (current k))) of
      Some p \<Rightarrow> if p = initproc k then do_wait stride_sched_class k pid False = None
        else \<exists>k'. do_wait stride_sched_class k pid False = Some (Inl (0, Some (p_exit_code (procs k p))), k')
        \<and> current k' = current k
        \<and> proc_table k' (P - {p}) (kids(current k := remove1 p (kids (current k)))) (remove1 p xs)
    | None \<Rightarrow>
        if eligible k pid (kids (current k)) = []
        then do_wait stride_sched_class k pid False = Some (Inl (- E_BAD_PROC, None), k)
        else \<exists>k'. do_wait stride_sched_class k pid False = Some (Inr (), k') \<and> proc_table k' P kids xs
          \<and> p_state (procs k' (current k)) = PROC_SLEEPING \<and> p_wait_state (procs k' (current k)) = WT_CHILD
          \<and> current k' \<noteq> current k)"
proof (cases "find (\<lambda>p. p_state (procs k p) = PROC_ZOMBIE) (eligible k pid (kids (current k)))")
  case (Some p)
  then have p: "p \<in> set (kids (current k))" "p_state (procs k p) = PROC_ZOMBIE"
    by (auto simp: find_Some_iff eligible_def dest: nth_mem)
  have "p \<noteq> idleproc k" using p(2) proc_tableD(11) [OF tab] by auto
  with reap_ok [OF tab p] wait_search_ok [OF tab, of pid] Some show ?thesis
    by (auto simp: do_wait_def wait_turn_def Let_def bind_kassert)
next
  case None
  show ?thesis
  proof (cases "eligible k pid (kids (current k)) = []")
    case True
    then show ?thesis using None wait_search_ok [OF tab, of pid] by (simp add: do_wait_def wait_turn_def)
  next
    case False
    let ?c = "current k"
    let ?k1 = "upd_proc ?c (\<lambda>p. p\<lparr>p_state := PROC_SLEEPING, p_wait_state := WT_CHILD\<rparr>) k"
    note idle = proc_tableD(10,11) [OF tab]
    have sch1: "sched_inv stride_queued (\<lambda>_ _. True) ?k1"
      by (rule st.sched_inv_same [OF proc_tableD(4) [OF tab]]) simp_all
    have idle1: "p_state (procs ?k1 (idleproc ?k1)) = PROC_RUNNABLE" using idle cur by simp
    obtain k' where k': "schedule stride_sched_class ?k1 = Some k'" "sched_inv stride_queued (\<lambda>_ _. True) k'"
      "same_rest ?k1 k'" "p_state (procs k' (current k')) = PROC_RUNNABLE"
      "\<forall>p. p_state (procs k' p) = p_state (procs ?k1 p) \<and> p_wait_state (procs k' p) = p_wait_state (procs ?k1 p)
         \<and> same_kin (procs ?k1 p) (procs k' p)"
      using st.schedule_ok [OF sch1 idle1] by blast
    have "same_rest k k'" by (rule same_rest_trans [OF _ k'(3)]) simp
    note r = same_rest_fields [OF this]
    have st: "p_state (procs k' p) = (if p = ?c then PROC_SLEEPING else p_state (procs k p))" for p
      using k'(5) by simp
    have kin: "p_parent (procs k' p) = p_parent (procs k p)" "p_cptr (procs k' p) = p_cptr (procs k p)"
      "p_yptr (procs k' p) = p_yptr (procs k p)" "p_optr (procs k' p) = p_optr (procs k p)"
      "p_pid (procs k' p) = p_pid (procs k p)" for p
      using k'(5) [rule_format, of p] by (auto simp: same_kin_def split: if_splits)
    have "family k' P kids" by (rule family_cong [OF _ proc_tableD(1) [OF tab]]) (simp add: kin)
    moreover have "pid_inv k' xs" using proc_tableD(2) [OF tab] r kin by (subst pid_inv_cong [of k' k]) auto
    moreover have "hash_inv k' (set xs)" using proc_tableD(3) [OF tab] r kin by (subst hash_inv_cong [of k' k]) auto
    moreover have nc: "current k' \<noteq> ?c" using k'(4) st by auto
    moreover have "current k' \<in> P"
    proof (rule ccontr)
      assume "current k' \<notin> P"
      then show False using proc_tableD(14) [OF tab] k'(4) st [of "current k'"] nc by auto
    qed
    moreover have "p_state (procs k' (idleproc k')) = PROC_RUNNABLE" using idle(2) cur r(1) st by simp
    moreover have "\<forall>q \<in> P. p_state (procs k' q) = PROC_ZOMBIE \<longrightarrow> kids q = []"
      using proc_tableD(13) [OF tab] st by (metis proc_state.distinct(9))
    moreover have "\<forall>q. q \<notin> P \<longrightarrow> p_state (procs k' q) \<noteq> PROC_RUNNABLE"
      using proc_tableD(14) [OF tab] st by simp
    ultimately have "proc_table k' P kids xs"
      using k'(2,4) proc_tableD(5,6,8-10) [OF tab] r kin unfolding proc_table_def by simp
    moreover have "do_wait stride_sched_class k pid False = Some (Inr (), k')"
      using None False wait_search_ok [OF tab, of pid] k'(1) by (simp add: do_wait_def wait_turn_def Let_def)
    moreover have "do_wait stride_sched_class k pid True = Some (Inl (- E_INVAL, None), k)" by (simp add: do_wait_def)
    ultimately show ?thesis using None False nc st k'(5) by auto
  qed
qed

theorem do_wait_outcome_witness:
  "\<exists>k'. do_wait stride_sched_class (demo_table True) 0 False = Some (Inl (0, Some 7), k') \<and> proc_table k' {0, 10} ((\<lambda>_. [])(0 := [10], 10 := [])) [10]"
  using do_wait_outcome [OF demo_table_ok, of True 0] by (simp add: eligible_def demo_kids_def insert_Diff_if) blast

end
