(* ===== verification/Bytes.thy ===== *)
theory Bytes
  imports Prelude
begin

text \<open>
  Ranges of bytes: memory (and the image of a disk) is a map from addresses to bytes, a buffer a
  list of bytes. \<open>get_bytes\<close> reads a range, \<open>put_bytes\<close> stores one, \<open>splice\<close> replaces part of a
  buffer.
\<close>

section \<open>Bytes of memory\<close>

type_synonym byte = "8 word"

definition get_bytes :: "(nat \<Rightarrow> byte) \<Rightarrow> nat \<Rightarrow> nat \<Rightarrow> byte list" where
  "get_bytes m a n = map m [a ..< a + n]"

definition put_bytes :: "(nat \<Rightarrow> byte) \<Rightarrow> nat \<Rightarrow> byte list \<Rightarrow> nat \<Rightarrow> byte" where
  "put_bytes m a bs = (\<lambda>x. if a \<le> x \<and> x < a + length bs then bs ! (x - a) else m x)"

text \<open>\<open>memcpy\<close> into a buffer at a position.\<close>

definition splice :: "byte list \<Rightarrow> nat \<Rightarrow> byte list \<Rightarrow> byte list" where
  "splice buf pos bs = take pos buf @ bs @ drop (pos + length bs) buf"

lemma length_get_bytes [simp]: "length (get_bytes m a n) = n"
  by (simp add: get_bytes_def)

lemma nth_get_bytes [simp]: "i < n \<Longrightarrow> get_bytes m a n ! i = m (a + i)"
  by (simp add: get_bytes_def)

lemma length_splice [simp]: "pos + length bs \<le> length buf \<Longrightarrow> length (splice buf pos bs) = length buf"
  by (simp add: splice_def)

lemma splice_whole [simp]: "length bs = length buf \<Longrightarrow> splice buf 0 bs = bs"
  by (simp add: splice_def)

lemma nth_splice:
  "pos + length bs \<le> length buf \<Longrightarrow> i < length buf \<Longrightarrow>
   splice buf pos bs ! i = (if pos \<le> i \<and> i < pos + length bs then bs ! (i - pos) else buf ! i)"
  by (auto simp: splice_def nth_append min_def)

lemma get_put_same [simp]: "n = length bs \<Longrightarrow> get_bytes (put_bytes m a bs) a n = bs"
  by (rule nth_equalityI) (simp_all add: put_bytes_def)

lemma get_put_other:
  "a + n \<le> b \<or> b + length bs \<le> a \<Longrightarrow> get_bytes (put_bytes m b bs) a n = get_bytes m a n"
  by (rule nth_equalityI) (auto simp: put_bytes_def)

lemma take_drop_get: "pos + k \<le> n \<Longrightarrow> take k (drop pos (get_bytes m a n)) = get_bytes m (a + pos) k"
  by (rule nth_equalityI) (auto simp: add.assoc)

lemma splice_splice:
  "pos + length a + length b \<le> length buf \<Longrightarrow> splice (splice buf pos a) (pos + length a) b = splice buf pos (a @ b)"
  by (cases a) (auto simp: splice_def min_def ac_simps)

lemma splice_empty [simp]: "splice buf pos [] = buf"
  by (simp add: splice_def)

lemma get_bytes_append: "get_bytes m a (k + n) = get_bytes m a k @ get_bytes m (a + k) n"
  by (rule nth_equalityI) (auto simp: nth_append)

lemma put_put: "put_bytes (put_bytes m a bs) (a + length bs) cs = put_bytes m a (bs @ cs)"
  by (auto simp: put_bytes_def nth_append fun_eq_iff)

lemma put_empty [simp]: "put_bytes m a [] = m"
  by (auto simp: put_bytes_def fun_eq_iff)

end
