(* ===== verification/Disk.thy ===== *)
theory Disk
  imports Bytes
begin

text \<open>
  The disk below the file system: I/O buffers (\<open>kern/fs/iobuf.c\<close>), the RAM disk
  (\<open>kern/driver/ramdisk.c\<close>, \<open>ide.c\<close>) and the block device \<open>disk0\<close> (\<open>kern/fs/devs/dev_disk0.c\<close>).
  The image is a map from byte addresses to bytes. A buffer is a list of bytes; \<open>io_base\<close> is the
  position in it. Sizes and offsets are natural numbers where the C types are unsigned and the
  values are bounded by the disk; the driver's semaphore is not part of this sequential model.
\<close>

section \<open>I/O buffers\<close>

record iobuf =
  io_buf :: "byte list"
  io_base :: nat
  io_offset :: int
  io_len :: nat
  io_resid :: nat

definition iobuf_init :: "byte list \<Rightarrow> nat \<Rightarrow> nat \<Rightarrow> int \<Rightarrow> iobuf" where
  "iobuf_init buf base len offset = \<lparr>io_buf = buf, io_base = base, io_offset = offset, io_len = len, io_resid = len\<rparr>"

definition iobuf_used :: "iobuf \<Rightarrow> nat" where
  "iobuf_used iob = io_len iob - io_resid iob"

definition iobuf_skip :: "iobuf \<Rightarrow> nat \<Rightarrow> iobuf option" where
  "iobuf_skip iob n = do {
     kassert (io_resid iob \<ge> n);
     Some (iob\<lparr>io_base := io_base iob + n, io_offset := io_offset iob + int n, io_resid := io_resid iob - n\<rparr>)
   }"

text \<open>\<open>iobuf_move\<close>: from \<open>data\<close> into the buffer when \<open>m2b\<close>, the other way round otherwise. It returns the
  result, the number of bytes moved, \<open>data\<close> and the buffer.\<close>

definition iobuf_move :: "iobuf \<Rightarrow> byte list \<Rightarrow> nat \<Rightarrow> bool \<Rightarrow> (int \<times> nat \<times> byte list \<times> iobuf) option" where
  "iobuf_move iob data len m2b = do {
     let alen = (if io_resid iob > len then len else io_resid iob);
     (data, iob, len) \<leftarrow>
       (if alen > 0 then do {
          let (data, iob) =
            (if m2b then (data, iob\<lparr>io_buf := splice (io_buf iob) (io_base iob) (take alen data)\<rparr>)
             else (splice data 0 (take alen (drop (io_base iob) (io_buf iob))), iob));
          iob \<leftarrow> iobuf_skip iob alen;
          Some (data, iob, len - alen)
        } else Some (data, iob, len));
     Some (if len = 0 then 0 else - E_NO_MEM, alen, data, iob)
   }"

definition iobuf_move_zeros :: "iobuf \<Rightarrow> nat \<Rightarrow> (int \<times> nat \<times> iobuf) option" where
  "iobuf_move_zeros iob len = do {
     let alen = (if io_resid iob > len then len else io_resid iob);
     (iob, len) \<leftarrow>
       (if alen > 0 then do {
          iob \<leftarrow> iobuf_skip (iob\<lparr>io_buf := splice (io_buf iob) (io_base iob) (replicate alen 0)\<rparr>) alen;
          Some (iob, len - alen)
        } else Some (iob, len));
     Some (if len = 0 then 0 else - E_NO_MEM, alen, iob)
   }"

section \<open>The RAM disk\<close>

definition SECTSIZE :: nat where "SECTSIZE = 512"
definition MAX_NSECS :: nat where "MAX_NSECS = 128"
definition MAX_DISK_NSECS :: nat where "MAX_DISK_NSECS = 0x10000000"

text \<open>A device: the size in sectors and the image. What lies behind the image in memory is part of the
  map, since \<open>ramdisk_read\<close> and \<open>ramdisk_write\<close> reach it when the first sector lies beyond the size
  (their test \<open>nsecs < 0\<close> is on an unsigned number).\<close>

record blkdev =
  dev_size :: nat
  dev_image :: "nat \<Rightarrow> byte"
  d_blocks :: nat
  d_blocksize :: nat

definition ramdisk_clip :: "blkdev \<Rightarrow> nat \<Rightarrow> nat \<Rightarrow> nat" where
  "ramdisk_clip dev secno nsecs =
     (let rest = (if secno \<le> dev_size dev then dev_size dev - secno else 2 ^ 64 + dev_size dev - secno)
      in if nsecs < rest then nsecs else rest)"

definition ramdisk_read :: "blkdev \<Rightarrow> nat \<Rightarrow> byte list \<Rightarrow> nat \<Rightarrow> int \<times> byte list" where
  "ramdisk_read dev secno dst nsecs =
     (let nsecs = ramdisk_clip dev secno nsecs
      in (0, splice dst 0 (get_bytes (dev_image dev) (secno * SECTSIZE) (nsecs * SECTSIZE))))"

definition ramdisk_write :: "blkdev \<Rightarrow> nat \<Rightarrow> byte list \<Rightarrow> nat \<Rightarrow> int \<times> blkdev" where
  "ramdisk_write dev secno src nsecs =
     (let nsecs = ramdisk_clip dev secno nsecs
      in (0, dev\<lparr>dev_image := put_bytes (dev_image dev) (secno * SECTSIZE) (take (nsecs * SECTSIZE) src)\<rparr>))"

definition ide_read_secs :: "blkdev \<Rightarrow> nat \<Rightarrow> byte list \<Rightarrow> nat \<Rightarrow> (int \<times> byte list) option" where
  "ide_read_secs dev secno dst nsecs = do {
     kassert (nsecs \<le> MAX_NSECS);
     kassert (secno < MAX_DISK_NSECS \<and> secno + nsecs \<le> MAX_DISK_NSECS);
     Some (ramdisk_read dev secno dst nsecs)
   }"

definition ide_write_secs :: "blkdev \<Rightarrow> nat \<Rightarrow> byte list \<Rightarrow> nat \<Rightarrow> (int \<times> blkdev) option" where
  "ide_write_secs dev secno src nsecs = do {
     kassert (nsecs \<le> MAX_NSECS);
     kassert (secno < MAX_DISK_NSECS \<and> secno + nsecs \<le> MAX_DISK_NSECS);
     Some (ramdisk_write dev secno src nsecs)
   }"

section \<open>disk0\<close>

definition DISK0_BLKSIZE :: nat where "DISK0_BLKSIZE = 4096"
definition DISK0_BUFSIZE :: nat where "DISK0_BUFSIZE = 4 * DISK0_BLKSIZE"
definition DISK0_BLK_NSECT :: nat where "DISK0_BLK_NSECT = DISK0_BLKSIZE div SECTSIZE"

text \<open>The transfer between the driver's buffer and the device. The static buffer \<open>disk0_buffer\<close> is a list
  of \<open>DISK0_BUFSIZE\<close> bytes: whatever it holds is overwritten before it is used.\<close>

definition disk0_read_blks_nolock :: "blkdev \<Rightarrow> byte list \<Rightarrow> nat \<Rightarrow> nat \<Rightarrow> byte list option" where
  "disk0_read_blks_nolock dev buf blkno nblks = do {
     (ret, buf) \<leftarrow> ide_read_secs dev (blkno * DISK0_BLK_NSECT) buf (nblks * DISK0_BLK_NSECT);
     kassert (ret = 0);
     Some buf
   }"

definition disk0_write_blks_nolock :: "blkdev \<Rightarrow> byte list \<Rightarrow> nat \<Rightarrow> nat \<Rightarrow> blkdev option" where
  "disk0_write_blks_nolock dev buf blkno nblks = do {
     (ret, dev) \<leftarrow> ide_write_secs dev (blkno * DISK0_BLK_NSECT) buf (nblks * DISK0_BLK_NSECT);
     kassert (ret = 0);
     Some dev
   }"

partial_function (option) disk0_loop ::
  "blkdev \<Rightarrow> byte list \<Rightarrow> iobuf \<Rightarrow> nat \<Rightarrow> nat \<Rightarrow> bool \<Rightarrow> (iobuf \<times> blkdev) option" where
  "disk0_loop dev buf iob resid blkno write =
     (if resid = 0 then Some (iob, dev)
      else if write then do {
        (ret, copied, buf, iob) \<leftarrow> iobuf_move iob buf DISK0_BUFSIZE False;
        kassert (copied \<noteq> 0 \<and> copied \<le> resid \<and> copied mod DISK0_BLKSIZE = 0);
        let nblks = copied div DISK0_BLKSIZE;
        dev \<leftarrow> disk0_write_blks_nolock dev buf blkno nblks;
        disk0_loop dev buf iob (resid - copied) (blkno + nblks) write
      } else do {
        let alen = (if DISK0_BUFSIZE > resid then resid else DISK0_BUFSIZE);
        let nblks = alen div DISK0_BLKSIZE;
        buf \<leftarrow> disk0_read_blks_nolock dev buf blkno nblks;
        (ret, copied, buf, iob) \<leftarrow> iobuf_move iob buf alen True;
        kassert (copied = alen \<and> copied mod DISK0_BLKSIZE = 0);
        disk0_loop dev buf iob (resid - copied) (blkno + nblks) write
      })"

declare disk0_loop.simps [code]

definition disk0_io :: "blkdev \<Rightarrow> iobuf \<Rightarrow> bool \<Rightarrow> (int \<times> iobuf \<times> blkdev) option" where
  "disk0_io dev iob write =
     (let offset = io_offset iob;
          resid = io_resid iob;
          blkno = nat (offset div int DISK0_BLKSIZE);
          nblks = resid div DISK0_BLKSIZE
      in if offset mod int DISK0_BLKSIZE \<noteq> 0 \<or> resid mod DISK0_BLKSIZE \<noteq> 0 then Some (- E_INVAL, iob, dev)
         else if blkno + nblks > d_blocks dev then Some (- E_INVAL, iob, dev)
         else if nblks = 0 then Some (0, iob, dev)
         else do {
           (iob, dev) \<leftarrow> disk0_loop dev (replicate DISK0_BUFSIZE 0) iob resid blkno write;
           Some (0, iob, dev)
         })"

section \<open>Transfers\<close>

definition dev_ok :: "blkdev \<Rightarrow> bool" where
  "dev_ok dev \<longleftrightarrow> d_blocks dev * 8 \<le> dev_size dev \<and> dev_size dev \<le> MAX_DISK_NSECS"

lemma sector_bytes: "b * DISK0_BLK_NSECT * SECTSIZE = b * 4096"
  by (simp add: DISK0_BLK_NSECT_def DISK0_BLKSIZE_def SECTSIZE_def)

lemma disk0_read_blks_ok:
  assumes "dev_ok dev" "blkno + n \<le> d_blocks dev" "0 < n" "n \<le> 4"
  shows "disk0_read_blks_nolock dev buf blkno n = Some (splice buf 0 (get_bytes (dev_image dev) (blkno * 4096) (n * 4096)))"
proof -
  have "ramdisk_clip dev (blkno * DISK0_BLK_NSECT) (n * DISK0_BLK_NSECT) = n * DISK0_BLK_NSECT"
    using assms by (auto simp: ramdisk_clip_def dev_ok_def DISK0_BLK_NSECT_def DISK0_BLKSIZE_def SECTSIZE_def Let_def)
  moreover have "n * DISK0_BLK_NSECT \<le> MAX_NSECS" "blkno * DISK0_BLK_NSECT < MAX_DISK_NSECS"
    "blkno * DISK0_BLK_NSECT + n * DISK0_BLK_NSECT \<le> MAX_DISK_NSECS"
    using assms by (auto simp: dev_ok_def DISK0_BLK_NSECT_def DISK0_BLKSIZE_def SECTSIZE_def MAX_NSECS_def)
  ultimately show ?thesis
    by (simp add: disk0_read_blks_nolock_def ide_read_secs_def ramdisk_read_def sector_bytes Let_def)
qed

lemma disk0_write_blks_ok:
  assumes "dev_ok dev" "blkno + n \<le> d_blocks dev" "0 < n" "n \<le> 4"
  shows "disk0_write_blks_nolock dev buf blkno n =
    Some (dev\<lparr>dev_image := put_bytes (dev_image dev) (blkno * 4096) (take (n * 4096) buf)\<rparr>)"
proof -
  have "ramdisk_clip dev (blkno * DISK0_BLK_NSECT) (n * DISK0_BLK_NSECT) = n * DISK0_BLK_NSECT"
    using assms by (auto simp: ramdisk_clip_def dev_ok_def DISK0_BLK_NSECT_def DISK0_BLKSIZE_def SECTSIZE_def Let_def)
  moreover have "n * DISK0_BLK_NSECT \<le> MAX_NSECS" "blkno * DISK0_BLK_NSECT < MAX_DISK_NSECS"
    "blkno * DISK0_BLK_NSECT + n * DISK0_BLK_NSECT \<le> MAX_DISK_NSECS"
    using assms by (auto simp: dev_ok_def DISK0_BLK_NSECT_def DISK0_BLKSIZE_def SECTSIZE_def MAX_NSECS_def)
  ultimately show ?thesis
    by (simp add: disk0_write_blks_nolock_def ide_write_secs_def ramdisk_write_def sector_bytes Let_def)
qed

text \<open>The buffer after \<open>n\<close> more bytes were transferred.\<close>

definition io_done :: "iobuf \<Rightarrow> byte list \<Rightarrow> iobuf" where
  "io_done iob bs = iob\<lparr>io_buf := splice (io_buf iob) (io_base iob) bs, io_base := io_base iob + length bs,
     io_offset := io_offset iob + int (length bs), io_resid := io_resid iob - length bs\<rparr>"

lemma iobuf_move_in:
  assumes "0 < k" "k \<le> io_resid iob" "k \<le> length data"
  shows "iobuf_move iob data k True = Some (0, k, data, io_done iob (take k data))"
proof -
  have "(if io_resid iob > k then k else io_resid iob) = k" using assms(2) by simp
  then show ?thesis using assms by (simp add: iobuf_move_def iobuf_skip_def io_done_def Let_def)
qed

lemma iobuf_move_out:
  assumes "0 < k" "k = min (io_resid iob) len"
  shows "iobuf_move iob data len False = Some (if len = k then 0 else - E_NO_MEM, k,
    splice data 0 (take k (drop (io_base iob) (io_buf iob))),
    iob\<lparr>io_base := io_base iob + k, io_offset := io_offset iob + int k, io_resid := io_resid iob - k\<rparr>)"
proof -
  have "(if io_resid iob > len then len else io_resid iob) = k" using assms(2) by simp
  moreover have "len - k = 0 \<longleftrightarrow> len = k" "k \<le> io_resid iob" using assms(2) by auto
  ultimately show ?thesis using assms(1) by (simp add: iobuf_move_def iobuf_skip_def Let_def)
qed

lemma disk0_read_ok:
  assumes "dev_ok dev"
  shows "io_resid iob = n * 4096 \<Longrightarrow> blkno + n \<le> d_blocks dev \<Longrightarrow> io_base iob + n * 4096 \<le> length (io_buf iob) \<Longrightarrow>
    length buf = DISK0_BUFSIZE \<Longrightarrow>
    disk0_loop dev buf iob (n * 4096) blkno False = Some (io_done iob (get_bytes (dev_image dev) (blkno * 4096) (n * 4096)), dev)"
proof (induction n arbitrary: iob blkno buf rule: less_induct)
  case (less n)
  show ?case
  proof (cases "n = 0")
    case True
    then show ?thesis by (subst disk0_loop.simps) (simp add: io_done_def get_bytes_def)
  next
    case False
    define k where "k = min n 4"
    have k: "0 < k" "k \<le> 4" "k \<le> n" "(if DISK0_BUFSIZE > n * 4096 then n * 4096 else DISK0_BUFSIZE) = k * 4096"
      using False by (auto simp: k_def DISK0_BUFSIZE_def DISK0_BLKSIZE_def)
    let ?bs = "get_bytes (dev_image dev) (blkno * 4096) (k * 4096)"
    have rd: "disk0_read_blks_nolock dev buf blkno k = Some (splice buf 0 ?bs)"
      using disk0_read_blks_ok [OF assms, of blkno k buf] less.prems(2) k by simp
    have tk: "take (k * 4096) (splice buf 0 ?bs) = ?bs" by (simp add: splice_def)
    have mv: "iobuf_move iob (splice buf 0 ?bs) (k * 4096) True = Some (0, k * 4096, splice buf 0 ?bs, io_done iob ?bs)"
      using iobuf_move_in [of "k * 4096" iob "splice buf 0 ?bs"] tk less.prems(1,4) k
      by (simp add: DISK0_BUFSIZE_def DISK0_BLKSIZE_def)
    have len: "length (splice buf 0 ?bs) = DISK0_BUFSIZE"
      using less.prems(4) k by (simp add: DISK0_BUFSIZE_def DISK0_BLKSIZE_def)
    have "disk0_loop dev buf iob (n * 4096) blkno False =
        disk0_loop dev (splice buf 0 ?bs) (io_done iob ?bs) ((n - k) * 4096) (blkno + k) False"
      using False k(1) rd mv
      by (subst disk0_loop.simps) (simp add: k(4) Let_def DISK0_BLKSIZE_def diff_mult_distrib)
    also have "\<dots> = Some (io_done (io_done iob ?bs) (get_bytes (dev_image dev) ((blkno + k) * 4096) ((n - k) * 4096)), dev)"
      by (rule less.IH) (use less.prems k len in \<open>auto simp: io_done_def diff_mult_distrib\<close>)
    also have "io_done (io_done iob ?bs) (get_bytes (dev_image dev) ((blkno + k) * 4096) ((n - k) * 4096))
        = io_done iob (get_bytes (dev_image dev) (blkno * 4096) (n * 4096))"
    proof -
      have n: "n * 4096 = k * 4096 + (n - k) * 4096" using k(3) by (simp add: diff_mult_distrib)
      have a: "(blkno + k) * 4096 = blkno * 4096 + k * 4096" by (simp add: add_mult_distrib)
      have sp: "splice (splice (io_buf iob) (io_base iob) ?bs) (io_base iob + k * 4096) c
          = splice (io_buf iob) (io_base iob) (?bs @ c)" if "length c = (n - k) * 4096" for c
        using splice_splice [of "io_base iob" ?bs c "io_buf iob"] that less.prems(3) n by simp
      show ?thesis unfolding n get_bytes_append a by (simp add: io_done_def sp)
    qed
    finally show ?thesis .
  qed
qed

lemma disk0_write_ok:
  assumes "dev_ok dev"
  shows "io_resid iob = n * 4096 \<Longrightarrow> blkno + n \<le> d_blocks dev \<Longrightarrow> io_base iob + n * 4096 \<le> length (io_buf iob) \<Longrightarrow>
    length buf = DISK0_BUFSIZE \<Longrightarrow>
    disk0_loop dev buf iob (n * 4096) blkno True =
      Some (iob\<lparr>io_base := io_base iob + n * 4096, io_offset := io_offset iob + int (n * 4096), io_resid := 0\<rparr>,
        dev\<lparr>dev_image := put_bytes (dev_image dev) (blkno * 4096) (take (n * 4096) (drop (io_base iob) (io_buf iob)))\<rparr>)"
  using assms
proof (induction n arbitrary: iob blkno buf dev rule: less_induct)
  case (less n)
  show ?case
  proof (cases "n = 0")
    case True
    with less.prems(1) show ?thesis by (subst disk0_loop.simps) simp
  next
    case False
    define k where "k = min n 4"
    have k: "0 < k" "k \<le> 4" "k \<le> n" "(if n * 4096 > DISK0_BUFSIZE then DISK0_BUFSIZE else n * 4096) = k * 4096"
      using False by (auto simp: k_def DISK0_BUFSIZE_def DISK0_BLKSIZE_def)
    let ?bs = "take (k * 4096) (drop (io_base iob) (io_buf iob))"
    let ?iob = "iob\<lparr>io_base := io_base iob + k * 4096, io_offset := io_offset iob + int (k * 4096), io_resid := (n - k) * 4096\<rparr>"
    let ?dev = "dev\<lparr>dev_image := put_bytes (dev_image dev) (blkno * 4096) ?bs\<rparr>"
    have lb: "length ?bs = k * 4096" using less.prems(3) k(3) by simp
    have mv: "iobuf_move iob buf DISK0_BUFSIZE False =
        Some (if DISK0_BUFSIZE = k * 4096 then 0 else - E_NO_MEM, k * 4096, splice buf 0 ?bs, ?iob)"
    proof -
      have "k * 4096 = min (io_resid iob) DISK0_BUFSIZE" using less.prems(1) k(4) by (simp add: min_def split: if_splits)
      from iobuf_move_out [OF _ this, of buf] less.prems(1) k(1) show ?thesis by (simp add: diff_mult_distrib)
    qed
    have tk: "take (k * 4096) (splice buf 0 ?bs) = ?bs" using lb by (simp add: splice_def)
    have wr: "disk0_write_blks_nolock dev (splice buf 0 ?bs) blkno k = Some ?dev"
      using disk0_write_blks_ok [OF less.prems(5), of blkno k "splice buf 0 ?bs"] less.prems(2) k tk by simp
    have len: "length (splice buf 0 ?bs) = DISK0_BUFSIZE"
      using less.prems(4) k lb by (simp add: DISK0_BUFSIZE_def DISK0_BLKSIZE_def)
    have "disk0_loop dev buf iob (n * 4096) blkno True = disk0_loop ?dev (splice buf 0 ?bs) ?iob ((n - k) * 4096) (blkno + k) True"
      using False k(1,3) mv wr by (subst disk0_loop.simps) (simp add: Let_def DISK0_BLKSIZE_def diff_mult_distrib)
    also have "\<dots> = Some (?iob\<lparr>io_base := io_base ?iob + (n - k) * 4096, io_offset := io_offset ?iob + int ((n - k) * 4096), io_resid := 0\<rparr>,
        ?dev\<lparr>dev_image := put_bytes (dev_image ?dev) ((blkno + k) * 4096) (take ((n - k) * 4096) (drop (io_base ?iob) (io_buf ?iob)))\<rparr>)"
      by (rule less.IH) (use less.prems k len in \<open>auto simp: dev_ok_def diff_mult_distrib\<close>)
    also have "\<dots> = Some (iob\<lparr>io_base := io_base iob + n * 4096, io_offset := io_offset iob + int (n * 4096), io_resid := 0\<rparr>,
        dev\<lparr>dev_image := put_bytes (dev_image dev) (blkno * 4096) (take (n * 4096) (drop (io_base iob) (io_buf iob)))\<rparr>)"
    proof -
      have n: "n * 4096 = k * 4096 + (n - k) * 4096" using k(3) by (simp add: diff_mult_distrib)
      have a: "(blkno + k) * 4096 = blkno * 4096 + length ?bs" using lb by (simp add: add_mult_distrib)
      have t: "take (n * 4096) (drop (io_base iob) (io_buf iob))
          = ?bs @ take ((n - k) * 4096) (drop (io_base iob + k * 4096) (io_buf iob))"
        unfolding n take_add by (simp add: add.commute)
      show ?thesis using n unfolding t a by (simp flip: put_put)
    qed
    finally show ?thesis .
  qed
qed

lemma disk0_read_whole:
  assumes "dev_ok dev" "base + n * 4096 \<le> length buf" "blkno + n \<le> d_blocks dev"
  shows "\<exists>iob. disk0_io dev (iobuf_init buf base (n * 4096) (int (blkno * 4096))) False = Some (0, iob, dev)
      \<and> io_buf iob = splice buf base (get_bytes (dev_image dev) (blkno * 4096) (n * 4096)) \<and> iobuf_used iob = n * 4096"
proof (cases "n = 0")
  case True
  then show ?thesis using assms(3) by (simp add: disk0_io_def iobuf_init_def DISK0_BLKSIZE_def iobuf_used_def get_bytes_def)
next
  case False
  let ?iob = "iobuf_init buf base (n * 4096) (int (blkno * 4096))"
  have "disk0_loop dev (replicate DISK0_BUFSIZE 0) ?iob (n * 4096) blkno False
      = Some (io_done ?iob (get_bytes (dev_image dev) (blkno * 4096) (n * 4096)), dev)"
    by (rule disk0_read_ok) (use assms in \<open>simp_all add: iobuf_init_def\<close>)
  with False assms(3) show ?thesis
    by (auto simp: disk0_io_def iobuf_init_def DISK0_BLKSIZE_def iobuf_used_def io_done_def Let_def)
qed

lemma disk0_write_whole:
  assumes "dev_ok dev" "base + n * 4096 \<le> length buf" "blkno + n \<le> d_blocks dev"
  shows "\<exists>iob. disk0_io dev (iobuf_init buf base (n * 4096) (int (blkno * 4096))) True
      = Some (0, iob, dev\<lparr>dev_image := put_bytes (dev_image dev) (blkno * 4096) (take (n * 4096) (drop base buf))\<rparr>)
      \<and> io_buf iob = buf \<and> iobuf_used iob = n * 4096"
proof (cases "n = 0")
  case True
  then show ?thesis using assms(3) by (simp add: disk0_io_def iobuf_init_def DISK0_BLKSIZE_def iobuf_used_def)
next
  case False
  note w = disk0_write_ok [OF assms(1), of "iobuf_init buf base (n * 4096) (int (blkno * 4096))" n blkno "replicate DISK0_BUFSIZE 0"]
  show ?thesis using w False assms(2,3)
    by (auto simp: disk0_io_def iobuf_init_def DISK0_BLKSIZE_def iobuf_used_def Let_def)
qed

lemma disk0_io_cases:
  assumes "dev_ok dev" "base + n * 4096 \<le> length buf"
  shows "blkno + n \<le> d_blocks dev \<Longrightarrow> \<exists>iob. disk0_io dev (iobuf_init buf base (n * 4096) (int (blkno * 4096))) False = Some (0, iob, dev)
      \<and> io_buf iob = splice buf base (get_bytes (dev_image dev) (blkno * 4096) (n * 4096)) \<and> iobuf_used iob = n * 4096"
    and "blkno + n \<le> d_blocks dev \<Longrightarrow> \<exists>iob. disk0_io dev (iobuf_init buf base (n * 4096) (int (blkno * 4096))) True
      = Some (0, iob, dev\<lparr>dev_image := put_bytes (dev_image dev) (blkno * 4096) (take (n * 4096) (drop base buf))\<rparr>)
      \<and> io_buf iob = buf \<and> iobuf_used iob = n * 4096"
    and "d_blocks dev < blkno + n \<or> off mod 4096 \<noteq> 0 \<or> len mod 4096 \<noteq> 0 \<Longrightarrow> off = int (blkno * 4096) + r \<Longrightarrow> 0 \<le> r \<Longrightarrow> len div 4096 = n \<Longrightarrow>
      disk0_io dev (iobuf_init buf base len off) write = Some (- E_INVAL, iobuf_init buf base len off, dev)"
proof -
  show "disk0_io dev (iobuf_init buf base len off) write = Some (- E_INVAL, iobuf_init buf base len off, dev)"
    if "d_blocks dev < blkno + n \<or> off mod 4096 \<noteq> 0 \<or> len mod 4096 \<noteq> 0" "off = int (blkno * 4096) + r" "0 \<le> r" "len div 4096 = n"
  proof -
    have "blkno \<le> nat (off div 4096)" using that(2,3) by (simp add: le_nat_iff)
    then show ?thesis using that(1,4) by (auto simp: disk0_io_def iobuf_init_def DISK0_BLKSIZE_def Let_def)
  qed
qed (use disk0_read_whole [OF assms] disk0_write_whole [OF assms] in blast)+

text \<open>\<open>disk0_io\<close> moves whole blocks between a buffer and the image, in chunks of four: a read fills exactly the
  requested part of the buffer with the bytes of the image, a write stores exactly those bytes of the
  buffer and changes nothing else; a request that is not aligned or leaves the disk is refused and
  changes nothing.\<close>

theorem disk0_io_transfers:
  assumes "dev_ok dev" "base + n * 4096 \<le> length buf"
  shows "(blkno + n \<le> d_blocks dev \<longrightarrow>
      (\<exists>iob. disk0_io dev (iobuf_init buf base (n * 4096) (int (blkno * 4096))) False = Some (0, iob, dev)
        \<and> io_buf iob = splice buf base (get_bytes (dev_image dev) (blkno * 4096) (n * 4096)) \<and> iobuf_used iob = n * 4096)
      \<and> (\<exists>iob. disk0_io dev (iobuf_init buf base (n * 4096) (int (blkno * 4096))) True
          = Some (0, iob, dev\<lparr>dev_image := put_bytes (dev_image dev) (blkno * 4096) (take (n * 4096) (drop base buf))\<rparr>)
        \<and> io_buf iob = buf \<and> iobuf_used iob = n * 4096))
    \<and> ((d_blocks dev < blkno + n \<or> off mod 4096 \<noteq> 0 \<or> len mod 4096 \<noteq> 0) \<and> off = int (blkno * 4096) + r \<and> 0 \<le> r \<and> len div 4096 = n \<longrightarrow>
      disk0_io dev (iobuf_init buf base len off) write = Some (- E_INVAL, iobuf_init buf base len off, dev))"
  using disk0_io_cases [OF assms] by blast

definition demo_dev :: blkdev where
  "demo_dev = \<lparr>dev_size = 16, dev_image = \<lambda>i. of_nat (i mod 256), d_blocks = 2, d_blocksize = 4096\<rparr>"

theorem disk0_io_transfers_witness:
  "\<exists>iob. disk0_io demo_dev (iobuf_init (replicate 4096 0) 0 4096 4096) False = Some (0, iob, demo_dev) \<and> iobuf_used iob = 4096"
proof -
  have "dev_ok demo_dev" "1 + 1 \<le> d_blocks demo_dev" by (simp_all add: demo_dev_def dev_ok_def MAX_DISK_NSECS_def)
  then have "\<exists>iob. disk0_io demo_dev (iobuf_init (replicate 4096 0) 0 (1 * 4096) (int (1 * 4096))) False = Some (0, iob, demo_dev)
      \<and> io_buf iob = splice (replicate 4096 0) 0 (get_bytes (dev_image demo_dev) (1 * 4096) (1 * 4096)) \<and> iobuf_used iob = 1 * 4096"
    using disk0_io_transfers [of demo_dev 0 1 "replicate 4096 0" 1] by (simp only: length_replicate mult_1 add_0 order_refl simp_thms)
  then show ?thesis by auto
qed

end
