(* ===== verification/Bitmap.thy ===== *)
theory Bitmap
  imports Prelude
begin

unbundle bit_operations_syntax

text \<open>
  \<open>kern/fs/sfs/bitmap.c\<close>: the map of free blocks, one bit per block, 1 for free. The sizes are
  natural numbers: every size computed here is \<open>nbits\<close> rounded up to a multiple of 32, and the
  operand \<open>WORD_BITS\<close> has type \<open>size_t\<close>, so the C arithmetic is done in 64 bits and does not wrap.
  A bit map is seen as the set of its free indices; the locale states what the file system
  relies on.
\<close>

definition WORD_BITS :: nat where "WORD_BITS = 32"

record bitmap =
  nbits :: nat
  nwords :: nat
  bmap_words :: "32 word list"

definition bit_mask :: "nat \<Rightarrow> 32 word" where
  "bit_mask offset = push_bit offset 1"

text \<open>The loop of \<open>bitmap_create\<close> that takes the bits beyond \<open>nbits\<close> out of the last word.\<close>

function clear_over :: "32 word \<Rightarrow> nat \<Rightarrow> 32 word" where
  "clear_over w overbits = (if overbits < WORD_BITS then clear_over (w XOR bit_mask overbits) (overbits + 1) else w)"
  by pat_completeness auto
termination by (relation "measure (\<lambda>(w, n). WORD_BITS - n)") auto

declare clear_over.simps [simp del]

text \<open>\<open>bitmap_create\<close>; \<open>hdr\<close> and \<open>body\<close> say whether the two calls of \<open>kmalloc\<close> succeed.\<close>

definition bitmap_create :: "nat \<Rightarrow> bool \<Rightarrow> bool \<Rightarrow> bitmap option option" where
  "bitmap_create n hdr body = do {
     kassert (n \<noteq> 0 \<and> n + WORD_BITS > n);
     if \<not> hdr then Some None
     else let words = (n + WORD_BITS - 1) div WORD_BITS in
     if \<not> body then Some None
     else
       let b = \<lparr>nbits = n, nwords = words, bmap_words = replicate words (- 1)\<rparr> in
       if n \<noteq> words * WORD_BITS then do {
         let ix = words - 1;
         let overbits = n - ix * WORD_BITS;
         kassert (n div WORD_BITS = ix);
         kassert (overbits > 0 \<and> overbits < WORD_BITS);
         Some (Some (b\<lparr>bmap_words := (bmap_words b)[ix := clear_over (bmap_words b ! ix) overbits]\<rparr>))
       } else Some (Some b)
   }"

text \<open>\<open>bitmap_alloc\<close>: the loop over the bits of a word, the loop over the words, and the call with the
  value it stores through \<open>index_store\<close>.\<close>

function scan_bits :: "32 word \<Rightarrow> nat \<Rightarrow> nat option" where
  "scan_bits w offset =
     (if offset < WORD_BITS
      then if w AND bit_mask offset \<noteq> 0 then Some offset else scan_bits w (offset + 1)
      else None)"
  by pat_completeness auto
termination by (relation "measure (\<lambda>(w, n). WORD_BITS - n)") auto

declare scan_bits.simps [simp del]

function scan_words :: "bitmap \<Rightarrow> nat \<Rightarrow> (int \<times> nat option \<times> bitmap) option" where
  "scan_words b ix =
     (if ix < nwords b then
        let w = bmap_words b ! ix in
        if w \<noteq> 0 then do {
          offset \<leftarrow> scan_bits w 0;
          Some (0, Some (ix * WORD_BITS + offset), b\<lparr>bmap_words := (bmap_words b)[ix := w XOR bit_mask offset]\<rparr>)
        } else scan_words b (ix + 1)
      else Some (- E_NO_MEM, None, b))"
  by pat_completeness auto
termination by (relation "measure (\<lambda>(b, n). nwords b - n)") auto

declare scan_words.simps [simp del]

definition bitmap_alloc :: "bitmap \<Rightarrow> (int \<times> nat option \<times> bitmap) option" where
  "bitmap_alloc b = scan_words b 0"

definition bitmap_translate :: "bitmap \<Rightarrow> nat \<Rightarrow> (nat \<times> 32 word) option" where
  "bitmap_translate b index = do {
     kassert (index < nbits b);
     Some (index div WORD_BITS, bit_mask (index mod WORD_BITS))
   }"

definition bitmap_test :: "bitmap \<Rightarrow> nat \<Rightarrow> bool option" where
  "bitmap_test b index = do {
     (ix, mask) \<leftarrow> bitmap_translate b index;
     Some (bmap_words b ! ix AND mask \<noteq> 0)
   }"

definition bitmap_free :: "bitmap \<Rightarrow> nat \<Rightarrow> bitmap option" where
  "bitmap_free b index = do {
     (ix, mask) \<leftarrow> bitmap_translate b index;
     kassert (\<not> (bmap_words b ! ix AND mask \<noteq> 0));
     Some (b\<lparr>bmap_words := (bmap_words b)[ix := bmap_words b ! ix OR mask]\<rparr>)
   }"

text \<open>\<open>bitmap_getdata\<close>: the words and the number of bytes they occupy.\<close>

definition bitmap_getdata :: "bitmap \<Rightarrow> 32 word list \<times> nat" where
  "bitmap_getdata b = (bmap_words b, 4 * nwords b)"

section \<open>A bit map as a set\<close>

definition free_bits :: "bitmap \<Rightarrow> nat set" where
  "free_bits b = {i. i < nbits b \<and> bit (bmap_words b ! (i div 32)) (i mod 32)}"

definition bitmap_ok :: "bitmap \<Rightarrow> bool" where
  "bitmap_ok b \<longleftrightarrow> length (bmap_words b) = nwords b \<and> nwords b = (nbits b + 31) div 32
     \<and> (\<forall>i < 32 * nwords b. bit (bmap_words b ! (i div 32)) (i mod 32) \<longrightarrow> i < nbits b)"

lemma mask_test: "w AND bit_mask offset \<noteq> 0 \<longleftrightarrow> bit w offset"
  by (simp add: bit_mask_def bit_iff_and_push_bit_not_eq_0)

lemma mask_test0: "w AND bit_mask offset = 0 \<longleftrightarrow> \<not> bit w offset"
  using mask_test by blast

lemma mask_bits:
  assumes "offset < 32"
  shows "bit (w XOR bit_mask offset) j \<longleftrightarrow> (if j = offset then \<not> bit w j else bit w j)"
    "bit (w OR bit_mask offset) j \<longleftrightarrow> j = offset \<or> bit w j"
  using assms by (auto simp: bit_mask_def bit_simps)

lemma scan_bits_ok:
  "case scan_bits w n of None \<Rightarrow> \<forall>j. n \<le> j \<and> j < 32 \<longrightarrow> \<not> bit w j
   | Some j \<Rightarrow> n \<le> j \<and> j < 32 \<and> bit w j \<and> (\<forall>i. n \<le> i \<and> i < j \<longrightarrow> \<not> bit w i)"
proof (induction w n rule: scan_bits.induct)
  case (1 w n)
  show ?case
  proof (cases "n < 32 \<and> \<not> bit w n")
    case False
    then show ?thesis by (subst scan_bits.simps) (auto simp: WORD_BITS_def mask_test)
  next
    case True
    then have step: "scan_bits w n = scan_bits w (n + 1)"
      by (subst scan_bits.simps) (simp add: WORD_BITS_def mask_test)
    have "case scan_bits w (n + 1) of None \<Rightarrow> \<forall>j. n + 1 \<le> j \<and> j < 32 \<longrightarrow> \<not> bit w j
      | Some j \<Rightarrow> n + 1 \<le> j \<and> j < 32 \<and> bit w j \<and> (\<forall>i. n + 1 \<le> i \<and> i < j \<longrightarrow> \<not> bit w i)"
      by (rule 1) (use True in \<open>simp_all add: WORD_BITS_def mask_test\<close>)
    moreover have split: "n \<le> j \<longleftrightarrow> j = n \<or> n + 1 \<le> j" for j by auto
    ultimately show ?thesis unfolding step using True
      by (auto split: option.splits simp: split)
  qed
qed

lemma scan_bits_nonzero:
  fixes w :: "32 word"
  assumes "w \<noteq> 0"
  obtains j where "scan_bits w 0 = Some j" "j < 32" "bit w j" "\<forall>i < j. \<not> bit w i"
proof -
  have "\<exists>j. bit w j" using assms by (auto simp: bit_eq_iff)
  then obtain j where j: "bit w j" by blast
  then have "j < 32" using bit_imp_le_length by fastforce
  with j show thesis using that scan_bits_ok [where w = w and n = 0] by (auto split: option.splits)
qed

text \<open>Bit \<open>i\<close> of the whole map, and what an update of one word does to it.\<close>

definition map_bit :: "32 word list \<Rightarrow> nat \<Rightarrow> bool" where
  "map_bit m i \<longleftrightarrow> bit (m ! (i div 32)) (i mod 32)"

lemma map_bit_update:
  assumes "ix < length m" "offset < 32"
  shows "map_bit (m[ix := m ! ix XOR bit_mask offset]) i = (if i = 32 * ix + offset then \<not> map_bit m i else map_bit m i)"
    "map_bit (m[ix := m ! ix OR bit_mask offset]) i \<longleftrightarrow> i = 32 * ix + offset \<or> map_bit m i"
proof -
  have "i = 32 * ix + offset \<longleftrightarrow> i div 32 = ix \<and> i mod 32 = offset" using assms(2) by auto
  with assms show "map_bit (m[ix := m ! ix XOR bit_mask offset]) i = (if i = 32 * ix + offset then \<not> map_bit m i else map_bit m i)"
    "map_bit (m[ix := m ! ix OR bit_mask offset]) i \<longleftrightarrow> i = 32 * ix + offset \<or> map_bit m i"
    by (auto simp: map_bit_def mask_bits nth_list_update)
qed

lemma free_bits_map: "bitmap_ok b \<Longrightarrow> free_bits b = {i. i < 32 * nwords b \<and> map_bit (bmap_words b) i}"
  by (auto simp: free_bits_def bitmap_ok_def map_bit_def)

lemma free_bits_finite: "finite (free_bits b)"
  by (simp add: free_bits_def)

lemma scan_words_ok:
  assumes "bitmap_ok b"
  shows "\<forall>i < 32 * ix. \<not> map_bit (bmap_words b) i \<Longrightarrow>
    if free_bits b = {} then scan_words b ix = Some (- E_NO_MEM, None, b)
    else \<exists>b'. scan_words b ix = Some (0, Some (Min (free_bits b)), b') \<and> bitmap_ok b'
      \<and> free_bits b' = free_bits b - {Min (free_bits b)} \<and> nbits b' = nbits b \<and> nwords b' = nwords b"
  using assms
proof (induction b ix rule: scan_words.induct)
  case (1 b ix)
  have len: "length (bmap_words b) = nwords b" using 1(3) by (simp add: bitmap_ok_def)
  show ?case
  proof (cases "ix < nwords b")
    case False
    then have "free_bits b = {}" using 1(2) free_bits_map [OF 1(3)] by auto
    with False show ?thesis by (subst scan_words.simps) simp
  next
    case ix: True
    let ?w = "bmap_words b ! ix"
    show ?thesis
    proof (cases "?w = 0")
      case True
      have "\<forall>i < 32 * (ix + 1). \<not> map_bit (bmap_words b) i"
      proof (intro allI impI)
        fix i assume i: "i < 32 * (ix + 1)"
        show "\<not> map_bit (bmap_words b) i"
        proof (cases "i < 32 * ix")
          case False
          with i have "i div 32 = ix" by auto
          with True show ?thesis by (simp add: map_bit_def)
        qed (use 1(2) in blast)
      qed
      moreover have step: "scan_words b ix = scan_words b (ix + 1)" using ix True by (subst scan_words.simps) simp
      ultimately show ?thesis unfolding step using 1(1) [OF ix refl] True 1(3) by blast
    next
      case w: False
      from scan_bits_nonzero [OF w] obtain j where j: "scan_bits ?w 0 = Some j" "j < 32" "bit ?w j" "\<forall>i < j. \<not> bit ?w i" .
      let ?b' = "b\<lparr>bmap_words := (bmap_words b)[ix := ?w XOR bit_mask j]\<rparr>"
      let ?i = "32 * ix + j"
      have mb: "map_bit (bmap_words b) ?i" using j(2,3) by (simp add: map_bit_def)
      have inb: "?i < 32 * nwords b" using ix j(2) by simp
      have memb: "?i \<in> free_bits b" using mb inb free_bits_map [OF 1(3)] by simp
      have low: "\<not> map_bit (bmap_words b) i" if "i < ?i" for i
      proof (cases "i < 32 * ix")
        case False
        then obtain r where r: "i = 32 * ix + r" using le_Suc_ex not_less by blast
        with that j(2) have "i div 32 = ix" "i mod 32 < j" by simp_all
        with j(4) show ?thesis by (simp add: map_bit_def)
      qed (use 1(2) in blast)
      have min: "Min (free_bits b) = ?i"
      proof (rule Min_eqI [OF free_bits_finite _ memb])
        fix y assume "y \<in> free_bits b"
        then show "?i \<le> y" using low [of y] free_bits_map [OF 1(3)] by fastforce
      qed
      have upd: "map_bit (bmap_words ?b') i = (if i = ?i then \<not> map_bit (bmap_words b) i else map_bit (bmap_words b) i)" for i
        using map_bit_update(1) [of ix "bmap_words b" j i] ix len j(2) by simp
      have ok: "bitmap_ok ?b'" using 1(3) upd mb by (simp add: bitmap_ok_def flip: map_bit_def)
      moreover have "free_bits ?b' = free_bits b - {?i}"
        unfolding free_bits_map [OF ok] free_bits_map [OF 1(3)] using upd mb by auto
      moreover have "scan_words b ix = Some (0, Some ?i, ?b')"
        using ix w j(1) by (subst scan_words.simps) (simp add: Let_def WORD_BITS_def mult.commute)
      ultimately show ?thesis using memb min by auto
    qed
  qed
qed

lemma bitmap_free_ok:
  assumes "bitmap_ok b"
  shows "bitmap_free b i = (if i < nbits b \<and> i \<notin> free_bits b
      then Some (b\<lparr>bmap_words := (bmap_words b)[i div 32 := bmap_words b ! (i div 32) OR bit_mask (i mod 32)]\<rparr>) else None)"
    and "bitmap_free b i = Some b' \<Longrightarrow> bitmap_ok b' \<and> free_bits b' = insert i (free_bits b) \<and> nbits b' = nbits b \<and> nwords b' = nwords b"
proof -
  let ?b' = "b\<lparr>bmap_words := (bmap_words b)[i div 32 := bmap_words b ! (i div 32) OR bit_mask (i mod 32)]\<rparr>"
  show eq: "bitmap_free b i = (if i < nbits b \<and> i \<notin> free_bits b then Some ?b' else None)"
    by (auto simp: bitmap_free_def bitmap_translate_def WORD_BITS_def mask_test0 free_bits_def)
  assume "bitmap_free b i = Some b'"
  then have b': "b' = ?b'" "i < nbits b" by (auto simp: eq split: if_splits)
  have "i < 32 * nwords b" using b'(2) assms by (auto simp: bitmap_ok_def)
  then have "i div 32 < length (bmap_words b)" using assms by (auto simp: bitmap_ok_def)
  note upd = map_bit_update(2) [OF this, of "i mod 32"]
  have upd: "map_bit (bmap_words ?b') j \<longleftrightarrow> j = i \<or> map_bit (bmap_words b) j" for j
    using upd by simp
  have ok: "bitmap_ok ?b'" using assms upd b'(2) by (simp add: bitmap_ok_def flip: map_bit_def)
  moreover have "free_bits ?b' = insert i (free_bits b)"
    unfolding free_bits_map [OF ok] free_bits_map [OF assms] using upd \<open>i < 32 * nwords b\<close> by auto
  ultimately show "bitmap_ok b' \<and> free_bits b' = insert i (free_bits b) \<and> nbits b' = nbits b \<and> nwords b' = nwords b"
    using b' by simp
qed

lemma bitmap_test_ok: "bitmap_test b i = (if i < nbits b then Some (i \<in> free_bits b) else None)"
  by (simp add: bitmap_test_def bitmap_translate_def WORD_BITS_def mask_test0 free_bits_def)

lemma clear_over_ok: "n \<le> 32 \<Longrightarrow> bit (clear_over w n) j \<longleftrightarrow> (if n \<le> j \<and> j < 32 then \<not> bit w j else bit w j)"
proof (induction w n rule: clear_over.induct)
  case (1 w n)
  show ?case
  proof (cases "n < 32")
    case True
    have "bit (clear_over w n) j = bit (clear_over (w XOR bit_mask n) (n + 1)) j"
      using True by (subst clear_over.simps) (simp add: WORD_BITS_def)
    also have "\<dots> = (if n + 1 \<le> j \<and> j < 32 then \<not> bit (w XOR bit_mask n) j else bit (w XOR bit_mask n) j)"
      using True by (intro 1) (simp_all add: WORD_BITS_def)
    finally show ?thesis using True by (auto simp: mask_bits)
  next
    case False
    then show ?thesis using 1 by (subst clear_over.simps) (simp add: WORD_BITS_def)
  qed
qed

lemma bitmap_create_ok:
  assumes "0 < n"
  shows "\<exists>b. bitmap_create n True True = Some (Some b) \<and> bitmap_ok b \<and> nbits b = n \<and> free_bits b = {..<n}"
proof -
  define words where "words = (n + 31) div 32"
  have cw: "(n + WORD_BITS - 1) div WORD_BITS = words" by (simp add: words_def WORD_BITS_def add.commute)
  let ?words = words
  let ?m = "replicate ?words (- 1) :: 32 word list"
  show ?thesis
  proof (cases "n = ?words * 32")
    case True
    have "bitmap_create n True True = Some (Some \<lparr>nbits = n, nwords = ?words, bmap_words = ?m\<rparr>)"
      unfolding bitmap_create_def cw using assms True by (simp add: WORD_BITS_def Let_def)
    moreover have "i div 32 < ?words" if "i < n" for i using that True by (simp add: div_less_iff_less_mult)
    moreover have "(n + 31) div 32 = words" by (simp add: words_def)
    ultimately show ?thesis using True by (auto simp: bitmap_ok_def free_bits_def bit_simps)
  next
    case False
    let ?ix = "?words - 1" and ?over = "n - (?words - 1) * 32"
    have w: "0 < ?words" "?ix < ?words" using assms by (auto simp: words_def)
    obtain q r where qr: "n = 32 * q + r" "r < 32" using mod_less_divisor [of 32 n] div_mult_mod_eq [of n 32] by (metis mult.commute zero_less_numeral)
    have "0 < r"
    proof (rule ccontr)
      assume "\<not> 0 < r"
      with qr have "words = q" by (simp add: words_def)
      with qr False \<open>\<not> 0 < r\<close> show False by simp
    qed
    with qr have wq: "words = q + 1" by (simp add: words_def)
    with qr \<open>0 < r\<close> have ov: "0 < ?over" "?over < 32" "n div 32 = ?ix" "?ix * 32 + ?over = n" by simp_all
    let ?b = "\<lparr>nbits = n, nwords = ?words, bmap_words = ?m[?ix := clear_over (- 1) ?over]\<rparr>"
    have mb: "bit (bmap_words ?b ! (i div 32)) (i mod 32) \<longleftrightarrow> i < n" if "i < 32 * ?words" for i
    proof (cases "i div 32 = ?ix")
      case True
      then have "i = 32 * q + i mod 32" using wq mult_div_mod_eq [of 32 i] by simp
      moreover have "?over = r" using wq qr by simp
      ultimately have "i < n \<longleftrightarrow> i mod 32 < ?over" using qr(1) by linarith
      then show ?thesis using True w ov clear_over_ok [of ?over "- 1" "i mod 32"] by (simp add: bit_simps)
    next
      case False
      have "i div 32 < ?words" using that by auto
      moreover from this False have "i div 32 < q" using wq by simp
      then have "i < n" using qr by (simp add: div_less_iff_less_mult)
      ultimately show ?thesis using False by (simp add: bit_simps)
    qed
    have "bitmap_create n True True = Some (Some ?b)"
      unfolding bitmap_create_def cw using assms False w ov(1-3) by (simp add: WORD_BITS_def Let_def)
    moreover have "bitmap_ok ?b" using mb by (auto simp: bitmap_ok_def words_def)
    moreover have "free_bits ?b = {..<n}"
    proof -
      have "i < 32 * ?words" if "i < n" for i using that unfolding words_def by presburger
      then show ?thesis using mb by (auto simp: free_bits_def)
    qed
    ultimately show ?thesis by (intro exI [of _ ?b]) simp
  qed
qed

section \<open>The interface: an allocator of indices\<close>

text \<open>\<open>avail s\<close> are the indices that may be handed out, \<open>bound s\<close> the size of the index space. An
  allocation that fails says that nothing is left; one that succeeds takes an index out, and
  freeing puts it back.\<close>

locale index_allocator =
  fixes ok :: "'s \<Rightarrow> bool" and avail :: "'s \<Rightarrow> nat set" and bound :: "'s \<Rightarrow> nat"
    and alloc :: "'s \<Rightarrow> (int \<times> nat option \<times> 's) option" and free :: "'s \<Rightarrow> nat \<Rightarrow> 's option"
  assumes avail_bound: "ok s \<Longrightarrow> avail s \<subseteq> {..<bound s}"
    and alloc_none: "ok s \<Longrightarrow> avail s = {} \<Longrightarrow> alloc s = Some (- E_NO_MEM, None, s)"
    and alloc_some: "ok s \<Longrightarrow> avail s \<noteq> {} \<Longrightarrow>
      \<exists>i s'. alloc s = Some (0, Some i, s') \<and> i \<in> avail s \<and> ok s' \<and> avail s' = avail s - {i} \<and> bound s' = bound s"
    and free_some: "ok s \<Longrightarrow> i < bound s \<Longrightarrow> i \<notin> avail s \<Longrightarrow>
      \<exists>s'. free s i = Some s' \<and> ok s' \<and> avail s' = insert i (avail s) \<and> bound s' = bound s"
    and free_none: "ok s \<Longrightarrow> bound s \<le> i \<or> i \<in> avail s \<Longrightarrow> free s i = None"
begin

text \<open>An index that was allocated can be freed, and then everything is as available as before; freeing it
  twice panics.\<close>

lemma alloc_free:
  assumes "ok s" "alloc s = Some (0, Some i, s')"
  shows "\<exists>s''. free s' i = Some s'' \<and> ok s'' \<and> avail s'' = avail s \<and> free s'' i = None"
proof -
  have "avail s \<noteq> {}" using assms alloc_none by fastforce
  from alloc_some [OF assms(1) this] have s': "i \<in> avail s" "ok s'" "avail s' = avail s - {i}" "bound s' = bound s"
    using assms(2) by auto
  moreover have "i < bound s'" using avail_bound [OF assms(1)] s' by auto
  ultimately obtain s'' where "free s' i = Some s''" "ok s''" "avail s'' = insert i (avail s')"
    using free_some [of s' i] by auto
  with s' show ?thesis using free_none [of s'' i] by auto
qed

end

interpretation bm: index_allocator bitmap_ok free_bits nbits bitmap_alloc bitmap_free
proof unfold_locales
  fix s :: bitmap and i :: nat
  assume ok: "bitmap_ok s"
  show "free_bits s \<subseteq> {..<nbits s}" by (auto simp: free_bits_def)
  show "bitmap_alloc s = Some (- E_NO_MEM, None, s)" if "free_bits s = {}"
    using scan_words_ok [OF ok, of 0] that by (simp add: bitmap_alloc_def)
  show "\<exists>i s'. bitmap_alloc s = Some (0, Some i, s') \<and> i \<in> free_bits s \<and> bitmap_ok s'
      \<and> free_bits s' = free_bits s - {i} \<and> nbits s' = nbits s" if "free_bits s \<noteq> {}"
    using scan_words_ok [OF ok, of 0] that Min_in [OF free_bits_finite that] unfolding bitmap_alloc_def by auto
  show "\<exists>s'. bitmap_free s i = Some s' \<and> bitmap_ok s' \<and> free_bits s' = insert i (free_bits s) \<and> nbits s' = nbits s"
    if "i < nbits s" "i \<notin> free_bits s"
    using bitmap_free_ok(1) [OF ok, of i] bitmap_free_ok(2) [OF ok, of i] that by auto
  show "bitmap_free s i = None" if "nbits s \<le> i \<or> i \<in> free_bits s"
    using bitmap_free_ok(1) [OF ok, of i] that by auto
qed

lemma bitmap_set:
  shows "0 < n \<Longrightarrow> \<exists>b. bitmap_create n True True = Some (Some b) \<and> bitmap_ok b \<and> nbits b = n \<and> free_bits b = {..<n}"
    and "bitmap_ok b \<Longrightarrow> bitmap_test b i = (if i < nbits b then Some (i \<in> free_bits b) else None)"
    and "bitmap_ok b \<Longrightarrow>
      if free_bits b = {} then bitmap_alloc b = Some (- E_NO_MEM, None, b)
      else \<exists>b'. bitmap_alloc b = Some (0, Some (Min (free_bits b)), b') \<and> bitmap_ok b'
        \<and> free_bits b' = free_bits b - {Min (free_bits b)}"
    and "bitmap_ok b \<Longrightarrow>
      if i < nbits b \<and> i \<notin> free_bits b then \<exists>b'. bitmap_free b i = Some b' \<and> bitmap_ok b' \<and> free_bits b' = insert i (free_bits b)
      else bitmap_free b i = None"
proof -
  show "0 < n \<Longrightarrow> \<exists>b. bitmap_create n True True = Some (Some b) \<and> bitmap_ok b \<and> nbits b = n \<and> free_bits b = {..<n}"
    by (rule bitmap_create_ok)
  show "bitmap_ok b \<Longrightarrow> bitmap_test b i = (if i < nbits b then Some (i \<in> free_bits b) else None)"
    by (rule bitmap_test_ok)
  show "if free_bits b = {} then bitmap_alloc b = Some (- E_NO_MEM, None, b)
      else \<exists>b'. bitmap_alloc b = Some (0, Some (Min (free_bits b)), b') \<and> bitmap_ok b'
        \<and> free_bits b' = free_bits b - {Min (free_bits b)}" if "bitmap_ok b"
    using scan_words_ok [OF that, of 0] unfolding bitmap_alloc_def by (cases "free_bits b = {}") auto
  show "if i < nbits b \<and> i \<notin> free_bits b then \<exists>b'. bitmap_free b i = Some b' \<and> bitmap_ok b' \<and> free_bits b' = insert i (free_bits b)
      else bitmap_free b i = None" if "bitmap_ok b"
    using bm.free_some [OF that, of i] bm.free_none [OF that, of i] by auto
qed

text \<open>C28: A bit map implements a set of block numbers: \<open>bitmap_create\<close> makes all \<open>n\<close> of them available and none
  of the padding bits, \<open>bitmap_alloc\<close> returns the least available number and fails exactly when there is
  none, \<open>bitmap_test\<close> tells whether a number is available, \<open>bitmap_free\<close> makes one available again; a
  number outside the map, or freed twice, is a panic.\<close>

theorem bitmap_refines_set:
  "(0 < n \<longrightarrow> (\<exists>b. bitmap_create n True True = Some (Some b) \<and> bitmap_ok b \<and> nbits b = n \<and> free_bits b = {..<n}))
   \<and> (bitmap_ok b \<longrightarrow>
        bitmap_test b i = (if i < nbits b then Some (i \<in> free_bits b) else None)
      \<and> (if free_bits b = {} then bitmap_alloc b = Some (- E_NO_MEM, None, b)
         else \<exists>b'. bitmap_alloc b = Some (0, Some (Min (free_bits b)), b') \<and> bitmap_ok b'
           \<and> free_bits b' = free_bits b - {Min (free_bits b)})
      \<and> (if i < nbits b \<and> i \<notin> free_bits b then \<exists>b'. bitmap_free b i = Some b' \<and> bitmap_ok b' \<and> free_bits b' = insert i (free_bits b)
         else bitmap_free b i = None))"
  by (intro conjI impI; rule bitmap_set; assumption)

theorem bitmap_refines_set_witness:
  "\<exists>b b'. bitmap_create 40 True True = Some (Some b) \<and> bitmap_alloc b = Some (0, Some 0, b') \<and> bitmap_free b' 40 = None"
proof -
  have "\<exists>b. bitmap_create 40 True True = Some (Some b) \<and> bitmap_ok b \<and> nbits b = 40 \<and> free_bits b = {..<40}"
    using bitmap_refines_set [of 40] by simp
  then obtain b where b: "bitmap_create 40 True True = Some (Some b)" "bitmap_ok b" "nbits b = 40" "free_bits b = {..<40}"
    by (elim exE conjE) (rule that)
  have ne: "free_bits b \<noteq> {}" unfolding b(4) lessThan_empty_iff by simp
  have "Min (free_bits b) = 0" unfolding b(4) by (rule Min_eqI) auto
  moreover obtain b' where "bitmap_alloc b = Some (0, Some (Min (free_bits b)), b')" "bitmap_ok b'"
    "free_bits b' = free_bits b - {Min (free_bits b)}"
    using bitmap_set(3) [OF b(2)] unfolding if_not_P [OF ne] by (elim exE conjE) (rule that)
  moreover have "nbits b' = 40" using bm.alloc_some [OF b(2) ne] b(3) calculation(2) by auto
  ultimately show ?thesis using b(1) bitmap_refines_set [of 40 b' 40] by auto
qed

end
