(* ===== verification/SfsBlock.thy ===== *)
theory SfsBlock
  imports Disk Bitmap
begin

text \<open>
  Blocks of the simple file system: block I/O (\<open>kern/fs/sfs/sfs_io.c\<close>), the allocation of
  blocks, and the map from the blocks of a file to the blocks of the disk (\<open>sfs_bmap_*\<close> of
  \<open>sfs_inode.c\<close>), with the single indirect block read and written on the disk itself. The file
  system's own locks are not part of the model, and \<open>sfs_buffer\<close> holds no state between
  calls. The numbers stored in \<open>uint32_t\<close> fields are natural numbers; where the code
  multiplies a block number by the block size, the product is taken modulo \<open>2 ^ 32\<close>.
\<close>

section \<open>State\<close>

definition SFS_BLKSIZE :: nat where "SFS_BLKSIZE = 4096"
definition SFS_NDIRECT :: nat where "SFS_NDIRECT = 12"
definition SFS_BLK_NENTRY :: nat where "SFS_BLK_NENTRY = SFS_BLKSIZE div 4"
definition SFS_BLKN_SUPER :: nat where "SFS_BLKN_SUPER = 0"
definition SFS_BLKN_ROOT :: nat where "SFS_BLKN_ROOT = 1"
definition SFS_BLKN_FREEMAP :: nat where "SFS_BLKN_FREEMAP = 2"
definition SFS_MAX_FILE_SIZE :: nat where "SFS_MAX_FILE_SIZE = 1024 * 1024 * 128"
definition SFS_TYPE_FILE :: nat where "SFS_TYPE_FILE = 1"
definition SFS_TYPE_DIR :: nat where "SFS_TYPE_DIR = 2"
definition SFS_TYPE_LINK :: nat where "SFS_TYPE_LINK = 3"

record sfs_super =
  sb_magic :: nat
  sb_blocks :: nat
  sb_unused_blocks :: nat
  sb_info :: "byte list"

record sfs_fs =
  super :: sfs_super
  sfs_dev :: blkdev
  freemap :: bitmap
  super_dirty :: bool

record sfs_disk_inode =
  dn_size :: nat
  dn_type :: nat
  dn_nlinks :: nat
  dn_blocks :: nat
  dn_direct :: "nat list"
  dn_indirect :: nat

record sfs_inode =
  din :: sfs_disk_inode
  sin_ino :: nat
  sin_dirty :: bool
  reclaim_count :: int

definition set_super :: "(sfs_super \<Rightarrow> sfs_super) \<Rightarrow> sfs_fs \<Rightarrow> sfs_fs" where
  "set_super f s = s\<lparr>super := f (super s)\<rparr>"

definition set_din :: "(sfs_disk_inode \<Rightarrow> sfs_disk_inode) \<Rightarrow> sfs_inode \<Rightarrow> sfs_inode" where
  "set_din f sin = sin\<lparr>din := f (din sin)\<rparr>"

text \<open>Little-endian numbers of \<open>k\<close> bytes.\<close>

fun to_le :: "nat \<Rightarrow> nat \<Rightarrow> byte list" where
  "to_le 0 n = []"
| "to_le (Suc k) n = of_nat (n mod 256) # to_le k (n div 256)"

fun from_le :: "byte list \<Rightarrow> nat" where
  "from_le [] = 0"
| "from_le (b # bs) = unat b + 256 * from_le bs"

section \<open>sfs_io.c\<close>

text \<open>One block, between the disk and the buffer \<open>buf\<close> at \<open>pos\<close>.\<close>

definition sfs_rwblock_nolock :: "sfs_fs \<Rightarrow> byte list \<Rightarrow> nat \<Rightarrow> nat \<Rightarrow> bool \<Rightarrow> bool \<Rightarrow> (int \<times> byte list \<times> sfs_fs) option" where
  "sfs_rwblock_nolock s buf pos blkno write check = do {
     kassert ((blkno \<noteq> 0 \<or> \<not> check) \<and> blkno < sb_blocks (super s));
     (ret, iob, dev) \<leftarrow> disk0_io (sfs_dev s) (iobuf_init buf pos SFS_BLKSIZE (int (blkno * SFS_BLKSIZE mod 2 ^ 32))) write;
     Some (ret, io_buf iob, s\<lparr>sfs_dev := dev\<rparr>)
   }"

fun sfs_rwblock :: "sfs_fs \<Rightarrow> byte list \<Rightarrow> nat \<Rightarrow> nat \<Rightarrow> nat \<Rightarrow> bool \<Rightarrow> (int \<times> byte list \<times> sfs_fs) option" where
  "sfs_rwblock s buf pos blkno 0 write = Some (0, buf, s)"
| "sfs_rwblock s buf pos blkno (Suc nblks) write = do {
     (ret, buf, s) \<leftarrow> sfs_rwblock_nolock s buf pos blkno write True;
     if ret \<noteq> 0 then Some (ret, buf, s)
     else sfs_rwblock s buf (pos + SFS_BLKSIZE) (blkno + 1) nblks write
   }"

definition sfs_rblock :: "sfs_fs \<Rightarrow> byte list \<Rightarrow> nat \<Rightarrow> nat \<Rightarrow> nat \<Rightarrow> (int \<times> byte list \<times> sfs_fs) option" where
  "sfs_rblock s buf pos blkno nblks = sfs_rwblock s buf pos blkno nblks False"

definition sfs_wblock :: "sfs_fs \<Rightarrow> byte list \<Rightarrow> nat \<Rightarrow> nat \<Rightarrow> nat \<Rightarrow> (int \<times> byte list \<times> sfs_fs) option" where
  "sfs_wblock s buf pos blkno nblks = sfs_rwblock s buf pos blkno nblks True"

text \<open>Part of a block, through \<open>sfs_buffer\<close>.\<close>

definition sfs_rbuf :: "sfs_fs \<Rightarrow> byte list \<Rightarrow> nat \<Rightarrow> nat \<Rightarrow> nat \<Rightarrow> nat \<Rightarrow> (int \<times> byte list \<times> sfs_fs) option" where
  "sfs_rbuf s buf pos len blkno offset = do {
     kassert (offset < SFS_BLKSIZE \<and> offset + len \<le> SFS_BLKSIZE);
     (ret, sfs_buffer, s) \<leftarrow> sfs_rwblock_nolock s (replicate SFS_BLKSIZE 0) 0 blkno False True;
     Some (ret, if ret = 0 then splice buf pos (take len (drop offset sfs_buffer)) else buf, s)
   }"

definition sfs_wbuf :: "sfs_fs \<Rightarrow> byte list \<Rightarrow> nat \<Rightarrow> nat \<Rightarrow> nat \<Rightarrow> nat \<Rightarrow> (int \<times> byte list \<times> sfs_fs) option" where
  "sfs_wbuf s buf pos len blkno offset = do {
     kassert (offset < SFS_BLKSIZE \<and> offset + len \<le> SFS_BLKSIZE);
     (ret, sfs_buffer, s) \<leftarrow> sfs_rwblock_nolock s (replicate SFS_BLKSIZE 0) 0 blkno False True;
     if ret \<noteq> 0 then Some (ret, buf, s)
     else do {
       (ret, _, s) \<leftarrow> sfs_rwblock_nolock s (splice sfs_buffer offset (take len (drop pos buf))) 0 blkno True True;
       Some (ret, buf, s)
     }
   }"

text \<open>The bytes of the superblock: \<open>magic\<close>, \<open>blocks\<close>, \<open>unused_blocks\<close> and \<open>info\<close>.\<close>

definition super_bytes :: "sfs_super \<Rightarrow> byte list" where
  "super_bytes sb = to_le 4 (sb_magic sb) @ to_le 4 (sb_blocks sb) @ to_le 4 (sb_unused_blocks sb) @ sb_info sb"

definition sfs_sync_super :: "sfs_fs \<Rightarrow> (int \<times> sfs_fs) option" where
  "sfs_sync_super s = do {
     (ret, _, s) \<leftarrow> sfs_rwblock_nolock s (splice (replicate SFS_BLKSIZE 0) 0 (super_bytes (super s))) 0 SFS_BLKN_SUPER True False;
     Some (ret, s)
   }"

definition freemap_bytes :: "bitmap \<Rightarrow> byte list" where
  "freemap_bytes b = concat (map (\<lambda>w. to_le 4 (unat w)) (fst (bitmap_getdata b)))"

definition sfs_freemap_blocks :: "sfs_super \<Rightarrow> nat" where
  "sfs_freemap_blocks sb = (sb_blocks sb + SFS_BLKSIZE * 8 - 1) div (SFS_BLKSIZE * 8)"

definition sfs_sync_freemap :: "sfs_fs \<Rightarrow> (int \<times> sfs_fs) option" where
  "sfs_sync_freemap s = do {
     (ret, _, s) \<leftarrow> sfs_wblock s (freemap_bytes (freemap s)) 0 SFS_BLKN_FREEMAP (sfs_freemap_blocks (super s));
     Some (ret, s)
   }"

fun sfs_clear_loop :: "sfs_fs \<Rightarrow> nat \<Rightarrow> nat \<Rightarrow> (int \<times> sfs_fs) option" where
  "sfs_clear_loop s blkno 0 = Some (0, s)"
| "sfs_clear_loop s blkno (Suc nblks) = do {
     (ret, _, s) \<leftarrow> sfs_rwblock_nolock s (replicate SFS_BLKSIZE 0) 0 blkno True True;
     if ret \<noteq> 0 then Some (ret, s) else sfs_clear_loop s (blkno + 1) nblks
   }"

definition sfs_clear_block :: "sfs_fs \<Rightarrow> nat \<Rightarrow> nat \<Rightarrow> (int \<times> sfs_fs) option" where
  "sfs_clear_block s blkno nblks = sfs_clear_loop s blkno nblks"

section \<open>Blocks in use\<close>

definition sfs_block_inuse :: "sfs_fs \<Rightarrow> nat \<Rightarrow> bool option" where
  "sfs_block_inuse s ino =
     (if ino \<noteq> 0 \<and> ino < sb_blocks (super s) then do {
        free \<leftarrow> bitmap_test (freemap s) ino;
        Some (\<not> free)
      } else None)"

definition sfs_block_alloc :: "sfs_fs \<Rightarrow> (int \<times> nat option \<times> sfs_fs) option" where
  "sfs_block_alloc s = do {
     (ret, store, map) \<leftarrow> bitmap_alloc (freemap s);
     if ret \<noteq> 0 then Some (ret, store, s\<lparr>freemap := map\<rparr>)
     else do {
       ino \<leftarrow> store;
       let s = s\<lparr>freemap := map\<rparr>;
       kassert (sb_unused_blocks (super s) > 0);
       let s = (set_super (\<lambda>sb. sb\<lparr>sb_unused_blocks := sb_unused_blocks sb - 1\<rparr>) s)\<lparr>super_dirty := True\<rparr>;
       used \<leftarrow> sfs_block_inuse s ino;
       kassert used;
       (ret, s) \<leftarrow> sfs_clear_block s ino 1;
       Some (ret, Some ino, s)
     }
   }"

definition sfs_block_free :: "sfs_fs \<Rightarrow> nat \<Rightarrow> sfs_fs option" where
  "sfs_block_free s ino = do {
     used \<leftarrow> sfs_block_inuse s ino;
     kassert used;
     map \<leftarrow> bitmap_free (freemap s) ino;
     Some ((set_super (\<lambda>sb. sb\<lparr>sb_unused_blocks := sb_unused_blocks sb + 1\<rparr>) (s\<lparr>freemap := map\<rparr>))\<lparr>super_dirty := True\<rparr>)
   }"

section \<open>The block map of a file\<close>

text \<open>An entry of the indirect block.\<close>

definition read_entry :: "sfs_fs \<Rightarrow> nat \<Rightarrow> nat \<Rightarrow> (int \<times> nat \<times> sfs_fs) option" where
  "read_entry s ent index = do {
     (ret, buf, s) \<leftarrow> sfs_rbuf s (to_le 4 0) 0 4 ent (index * 4);
     Some (ret, from_le buf, s)
   }"

definition write_entry :: "sfs_fs \<Rightarrow> nat \<Rightarrow> nat \<Rightarrow> nat \<Rightarrow> (int \<times> sfs_fs) option" where
  "write_entry s ent index ino = do {
     (ret, _, s) \<leftarrow> sfs_wbuf s (to_le 4 ino) 0 4 ent (index * 4);
     Some (ret, s)
   }"

text \<open>\<open>sfs_bmap_get_sub_nolock\<close>; \<open>entp\<close> is the value behind the pointer, returned with its new value.\<close>

definition sfs_bmap_get_sub_nolock :: "sfs_fs \<Rightarrow> nat \<Rightarrow> nat \<Rightarrow> bool \<Rightarrow> (int \<times> nat \<times> nat \<times> sfs_fs) option" where
  "sfs_bmap_get_sub_nolock s entp index create = do {
     kassert (index < SFS_BLK_NENTRY);
     let cleanup = (\<lambda>s ret ent.
       if ent \<noteq> entp then do { s \<leftarrow> sfs_block_free s ent; Some (ret, entp, 0, s) } else Some (ret, entp, 0, s));
     let fill = (\<lambda>s ent. do {
       (ret, store, s) \<leftarrow> sfs_block_alloc s;
       if ret \<noteq> 0 then cleanup s ret ent
       else do {
         ino \<leftarrow> store;
         (ret, s) \<leftarrow> write_entry s ent index ino;
         if ret \<noteq> 0 then do { s \<leftarrow> sfs_block_free s ino; cleanup s ret ent }
         else Some (0, ent, ino, s)
       }
     });
     if entp \<noteq> 0 then do {
       (ret, ino, s) \<leftarrow> read_entry s entp index;
       if ret \<noteq> 0 then Some (ret, entp, 0, s)
       else if ino \<noteq> 0 \<or> \<not> create then Some (0, entp, ino, s)
       else fill s entp
     }
     else if \<not> create then Some (0, entp, 0, s)
     else do {
       (ret, store, s) \<leftarrow> sfs_block_alloc s;
       if ret \<noteq> 0 then Some (ret, entp, 0, s)
       else do { ent \<leftarrow> store; fill s ent }
     }
   }"

definition sfs_bmap_get_nolock :: "sfs_fs \<Rightarrow> sfs_inode \<Rightarrow> nat \<Rightarrow> bool \<Rightarrow> (int \<times> nat \<times> sfs_inode \<times> sfs_fs) option" where
  "sfs_bmap_get_nolock s sin index create =
     (let out = (\<lambda>s sin ino. do {
            _ \<leftarrow> (if ino = 0 then Some () else do { used \<leftarrow> sfs_block_inuse s ino; kassert used });
            Some (0, ino, sin, s) })
      in if index < SFS_NDIRECT then
           let ino = dn_direct (din sin) ! index in
           if ino = 0 \<and> create then do {
             (ret, store, s) \<leftarrow> sfs_block_alloc s;
             if ret \<noteq> 0 then Some (ret, 0, sin, s)
             else do {
               ino \<leftarrow> store;
               out s ((set_din (\<lambda>d. d\<lparr>dn_direct := (dn_direct d)[index := ino]\<rparr>) sin)\<lparr>sin_dirty := True\<rparr>) ino
             }
           } else out s sin ino
         else if index - SFS_NDIRECT < SFS_BLK_NENTRY then do {
           (ret, ent, ino, s) \<leftarrow> sfs_bmap_get_sub_nolock s (dn_indirect (din sin)) (index - SFS_NDIRECT) create;
           if ret \<noteq> 0 then Some (ret, 0, sin, s)
           else if ent \<noteq> dn_indirect (din sin) then do {
             kassert (dn_indirect (din sin) = 0);
             out s ((set_din (\<lambda>d. d\<lparr>dn_indirect := ent\<rparr>) sin)\<lparr>sin_dirty := True\<rparr>) ino
           } else out s sin ino
         } else None)"

definition sfs_bmap_free_sub_nolock :: "sfs_fs \<Rightarrow> nat \<Rightarrow> nat \<Rightarrow> (int \<times> sfs_fs) option" where
  "sfs_bmap_free_sub_nolock s ent index = do {
     used \<leftarrow> sfs_block_inuse s ent;
     kassert (used \<and> index < SFS_BLK_NENTRY);
     (ret, ino, s) \<leftarrow> read_entry s ent index;
     if ret \<noteq> 0 then Some (ret, s)
     else if ino \<noteq> 0 then do {
       (ret, s) \<leftarrow> write_entry s ent index 0;
       if ret \<noteq> 0 then Some (ret, s)
       else do { s \<leftarrow> sfs_block_free s ino; Some (0, s) }
     } else Some (0, s)
   }"

definition sfs_bmap_free_nolock :: "sfs_fs \<Rightarrow> sfs_inode \<Rightarrow> nat \<Rightarrow> (int \<times> sfs_inode \<times> sfs_fs) option" where
  "sfs_bmap_free_nolock s sin index =
     (if index < SFS_NDIRECT then
        let ino = dn_direct (din sin) ! index in
        if ino \<noteq> 0 then do {
          s \<leftarrow> sfs_block_free s ino;
          Some (0, (set_din (\<lambda>d. d\<lparr>dn_direct := (dn_direct d)[index := 0]\<rparr>) sin)\<lparr>sin_dirty := True\<rparr>, s)
        } else Some (0, sin, s)
      else if index - SFS_NDIRECT < SFS_BLK_NENTRY then
        let ent = dn_indirect (din sin) in
        if ent \<noteq> 0 then do {
          (ret, s) \<leftarrow> sfs_bmap_free_sub_nolock s ent (index - SFS_NDIRECT);
          Some (ret, sin, s)
        } else Some (0, sin, s)
      else Some (0, sin, s))"

definition sfs_bmap_load_nolock :: "sfs_fs \<Rightarrow> sfs_inode \<Rightarrow> nat \<Rightarrow> (int \<times> nat \<times> sfs_inode \<times> sfs_fs) option" where
  "sfs_bmap_load_nolock s sin index = do {
     kassert (index \<le> dn_blocks (din sin));
     let create = (index = dn_blocks (din sin));
     (ret, ino, sin, s) \<leftarrow> sfs_bmap_get_nolock s sin index create;
     if ret \<noteq> 0 then Some (ret, 0, sin, s)
     else do {
       used \<leftarrow> sfs_block_inuse s ino;
       kassert used;
       Some (0, ino, if create then set_din (\<lambda>d. d\<lparr>dn_blocks := dn_blocks d + 1\<rparr>) sin else sin, s)
     }
   }"

definition sfs_bmap_truncate_nolock :: "sfs_fs \<Rightarrow> sfs_inode \<Rightarrow> (int \<times> sfs_inode \<times> sfs_fs) option" where
  "sfs_bmap_truncate_nolock s sin = do {
     kassert (dn_blocks (din sin) \<noteq> 0);
     (ret, sin, s) \<leftarrow> sfs_bmap_free_nolock s sin (dn_blocks (din sin) - 1);
     if ret \<noteq> 0 then Some (ret, sin, s)
     else Some (0, (set_din (\<lambda>d. d\<lparr>dn_blocks := dn_blocks d - 1\<rparr>) sin)\<lparr>sin_dirty := True\<rparr>, s)
   }"

section \<open>A consistent file system\<close>

definition fs_ok :: "sfs_fs \<Rightarrow> bool" where
  "fs_ok s \<longleftrightarrow> dev_ok (sfs_dev s) \<and> sb_blocks (super s) \<le> d_blocks (sfs_dev s) \<and> sb_blocks (super s) \<le> 2 ^ 20
     \<and> bitmap_ok (freemap s) \<and> sb_blocks (super s) \<le> nbits (freemap s)
     \<and> free_bits (freemap s) \<subseteq> {0 <..< sb_blocks (super s)}
     \<and> sb_unused_blocks (super s) = card (free_bits (freemap s))"

definition free_blocks :: "sfs_fs \<Rightarrow> nat set" where
  "free_blocks s = free_bits (freemap s)"

definition used :: "sfs_fs \<Rightarrow> nat \<Rightarrow> bool" where
  "used s b \<longleftrightarrow> 0 < b \<and> b < sb_blocks (super s) \<and> b \<notin> free_blocks s"

definition block_bytes :: "sfs_fs \<Rightarrow> nat \<Rightarrow> byte list" where
  "block_bytes s b = get_bytes (dev_image (sfs_dev s)) (b * 4096) 4096"

definition set_block :: "sfs_fs \<Rightarrow> nat \<Rightarrow> byte list \<Rightarrow> sfs_fs" where
  "set_block s b bs = s\<lparr>sfs_dev := (sfs_dev s)\<lparr>dev_image := put_bytes (dev_image (sfs_dev s)) (b * 4096) bs\<rparr>\<rparr>"

lemma length_block [simp]: "length (block_bytes s b) = 4096"
  by (simp add: block_bytes_def)

lemma block_set: "length bs = 4096 \<Longrightarrow> block_bytes (set_block s b bs) c = (if c = b then bs else block_bytes s c)"
proof (cases "c = b")
  case False
  assume "length bs = 4096"
  moreover have "c * 4096 + 4096 \<le> b * 4096 \<or> b * 4096 + 4096 \<le> c * 4096" using False by linarith
  ultimately show ?thesis using False by (simp add: block_bytes_def set_block_def get_put_other)
qed (simp add: block_bytes_def set_block_def)

lemma set_block_simps [simp]:
  "super (set_block s b bs) = super s" "freemap (set_block s b bs) = freemap s"
  "free_blocks (set_block s b bs) = free_blocks s" "fs_ok (set_block s b bs) = fs_ok s"
  "used (set_block s b bs) c = used s c"
  by (simp_all add: set_block_def free_blocks_def fs_ok_def dev_ok_def used_def)

lemma rwblock_read:
  assumes "fs_ok s" "0 < b" "b < sb_blocks (super s)" "pos + 4096 \<le> length buf"
  shows "sfs_rwblock_nolock s buf pos b False True = Some (0, splice buf pos (block_bytes s b), s)"
proof -
  have "b * 4096 mod 2 ^ 32 = b * 4096" using assms(1,3) by (auto simp: fs_ok_def)
  moreover obtain iob where "disk0_io (sfs_dev s) (iobuf_init buf pos (1 * 4096) (int (b * 4096))) False = Some (0, iob, sfs_dev s)"
    "io_buf iob = splice buf pos (get_bytes (dev_image (sfs_dev s)) (b * 4096) (1 * 4096))"
    using disk0_read_whole [of "sfs_dev s" pos 1 buf b] assms by (auto simp: fs_ok_def)
  ultimately show ?thesis using assms by (simp add: sfs_rwblock_nolock_def SFS_BLKSIZE_def block_bytes_def)
qed

lemma rwblock_write:
  assumes "fs_ok s" "0 < b" "b < sb_blocks (super s)" "pos + 4096 \<le> length buf"
  shows "sfs_rwblock_nolock s buf pos b True True = Some (0, buf, set_block s b (take 4096 (drop pos buf)))"
proof -
  have "b * 4096 mod 2 ^ 32 = b * 4096" using assms(1,3) by (auto simp: fs_ok_def)
  moreover obtain iob where "disk0_io (sfs_dev s) (iobuf_init buf pos (1 * 4096) (int (b * 4096))) True = Some (0, iob,
      (sfs_dev s)\<lparr>dev_image := put_bytes (dev_image (sfs_dev s)) (b * 4096) (take (1 * 4096) (drop pos buf))\<rparr>)"
    "io_buf iob = buf"
    using disk0_write_whole [of "sfs_dev s" pos 1 buf b] assms by (auto simp: fs_ok_def)
  ultimately show ?thesis using assms by (simp add: sfs_rwblock_nolock_def SFS_BLKSIZE_def set_block_def)
qed

lemma rbuf_ok:
  assumes "fs_ok s" "0 < b" "b < sb_blocks (super s)" "off < 4096" "off + len \<le> 4096"
  shows "sfs_rbuf s buf pos len b off = Some (0, splice buf pos (take len (drop off (block_bytes s b))), s)"
  using assms rwblock_read [OF assms(1-3), of 0 "replicate 4096 0"] by (simp add: sfs_rbuf_def SFS_BLKSIZE_def)

lemma wbuf_ok:
  assumes "fs_ok s" "0 < b" "b < sb_blocks (super s)" "off < 4096" "off + len \<le> 4096" "pos + len \<le> length buf"
  shows "sfs_wbuf s buf pos len b off = Some (0, buf, set_block s b (splice (block_bytes s b) off (take len (drop pos buf))))"
proof -
  let ?b = "splice (block_bytes s b) off (take len (drop pos buf))"
  have "length ?b = 4096" using assms by simp
  then show ?thesis using assms rwblock_read [OF assms(1-3), of 0 "replicate 4096 0"] rwblock_write [OF assms(1-3), of 0 ?b]
    by (simp add: sfs_wbuf_def SFS_BLKSIZE_def)
qed

text \<open>A whole block is the same through either routine.\<close>

lemma rblock_rbuf:
  assumes "fs_ok s" "0 < b" "b < sb_blocks (super s)" "pos + 4096 \<le> length buf"
  shows "sfs_rblock s buf pos b 1 = sfs_rbuf s buf pos 4096 b 0"
  using rwblock_read [OF assms] rbuf_ok [OF assms(1-3), of 0 4096 buf pos] by (simp add: sfs_rblock_def)

lemma wblock_wbuf:
  assumes "fs_ok s" "0 < b" "b < sb_blocks (super s)" "pos + 4096 \<le> length buf"
  shows "sfs_wblock s buf pos b 1 = sfs_wbuf s buf pos 4096 b 0"
  using rwblock_write [OF assms] wbuf_ok [OF assms(1-3), of 0 4096 pos buf] assms(4)
  by (simp add: sfs_wblock_def splice_def)

section \<open>Allocation\<close>

lemma inuse_ok: "fs_ok s \<Longrightarrow> 0 < b \<Longrightarrow> b < sb_blocks (super s) \<Longrightarrow> sfs_block_inuse s b = Some (b \<notin> free_blocks s)"
  by (simp add: sfs_block_inuse_def bitmap_test_ok fs_ok_def free_blocks_def)

lemma inuse_used: "fs_ok s \<Longrightarrow> used s b \<Longrightarrow> sfs_block_inuse s b = Some True"
  by (simp add: inuse_ok used_def)

lemma free_finite [simp]: "finite (free_blocks s)"
  by (simp add: free_blocks_def free_bits_finite)

lemma block_alloc_none: "fs_ok s \<Longrightarrow> free_blocks s = {} \<Longrightarrow> sfs_block_alloc s = Some (- E_NO_MEM, None, s)"
  using bm.alloc_none [of "freemap s"] by (simp add: sfs_block_alloc_def fs_ok_def free_blocks_def E_NO_MEM_def)

lemma block_alloc_some:
  assumes ok: "fs_ok s" and av: "free_blocks s \<noteq> {}"
  obtains b s' where "sfs_block_alloc s = Some (0, Some b, s')" "b \<in> free_blocks s" "fs_ok s'" "used s' b"
    "free_blocks s' = free_blocks s - {b}" "sb_blocks (super s') = sb_blocks (super s)"
    "\<And>c. block_bytes s' c = (if c = b then replicate 4096 0 else block_bytes s c)"
proof -
  obtain b map where m: "bitmap_alloc (freemap s) = Some (0, Some b, map)" "b \<in> free_bits (freemap s)" "bitmap_ok map"
    "free_bits map = free_bits (freemap s) - {b}" "nbits map = nbits (freemap s)"
    using bm.alloc_some [of "freemap s"] ok av unfolding fs_ok_def free_blocks_def by blast
  have b: "0 < b" "b < sb_blocks (super s)" using ok m(2) by (auto simp: fs_ok_def)
  have un: "sb_unused_blocks (super s) > 0"
    using ok m(2) free_bits_finite [of "freemap s"] by (auto simp: fs_ok_def card_gt_0_iff)
  let ?s1 = "(set_super (\<lambda>sb. sb\<lparr>sb_unused_blocks := sb_unused_blocks sb - 1\<rparr>) (s\<lparr>freemap := map\<rparr>))\<lparr>super_dirty := True\<rparr>"
  have ok1: "fs_ok ?s1"
    using ok m free_bits_finite [of "freemap s"] by (auto simp: fs_ok_def set_super_def card_Diff_singleton)
  have bs: "b < sb_blocks (super ?s1)" using b by (simp add: set_super_def)
  have us: "sfs_block_inuse ?s1 b = Some True"
    using inuse_ok [OF ok1 b(1) bs] m(4) by (simp add: free_blocks_def set_super_def)
  have wr: "sfs_rwblock_nolock ?s1 (replicate SFS_BLKSIZE 0) 0 b True True = Some (0, replicate SFS_BLKSIZE 0, set_block ?s1 b (replicate 4096 0))"
    using rwblock_write [OF ok1 b(1) bs, of 0 "replicate SFS_BLKSIZE 0"] by (simp add: SFS_BLKSIZE_def)
  have "sfs_block_alloc s = Some (0, Some b, set_block ?s1 b (replicate 4096 0))"
    using m(1) un us wr by (simp add: sfs_block_alloc_def sfs_clear_block_def Let_def set_super_def)
  then show thesis
  proof (rule that)
    show "b \<in> free_blocks s" using m(2) by (simp add: free_blocks_def)
    show "fs_ok (set_block ?s1 b (replicate 4096 0))" using ok1 by simp
    show "used (set_block ?s1 b (replicate 4096 0)) b"
      using b m(4) by (simp add: used_def free_blocks_def set_super_def)
    show "free_blocks (set_block ?s1 b (replicate 4096 0)) = free_blocks s - {b}"
      using m(4) by (simp add: free_blocks_def set_super_def)
    show "sb_blocks (super (set_block ?s1 b (replicate 4096 0))) = sb_blocks (super s)" by (simp add: set_super_def)
    show "block_bytes (set_block ?s1 b (replicate 4096 0)) c = (if c = b then replicate 4096 0 else block_bytes s c)" for c
      by (simp add: block_set) (simp add: block_bytes_def set_super_def)
  qed
qed

lemma block_free_ok:
  assumes ok: "fs_ok s" and b: "used s b"
  obtains s' where "sfs_block_free s b = Some s'" "fs_ok s'" "free_blocks s' = insert b (free_blocks s)"
    "sb_blocks (super s') = sb_blocks (super s)" "\<And>c. block_bytes s' c = block_bytes s c"
proof -
  have r: "0 < b" "b < sb_blocks (super s)" "b \<notin> free_bits (freemap s)" using b by (auto simp: used_def free_blocks_def)
  obtain map where m: "bitmap_free (freemap s) b = Some map" "bitmap_ok map" "free_bits map = insert b (free_bits (freemap s))"
    "nbits map = nbits (freemap s)"
    using bm.free_some [of "freemap s" b] ok r by (auto simp: fs_ok_def)
  let ?s1 = "(set_super (\<lambda>sb. sb\<lparr>sb_unused_blocks := sb_unused_blocks sb + 1\<rparr>) (s\<lparr>freemap := map\<rparr>))\<lparr>super_dirty := True\<rparr>"
  show thesis
  proof (rule that [of ?s1])
    show "sfs_block_free s b = Some ?s1" using inuse_used [OF ok b] m(1) by (simp add: sfs_block_free_def)
    show "fs_ok ?s1" using ok m r free_bits_finite [of "freemap s"] by (auto simp: fs_ok_def set_super_def)
    show "free_blocks ?s1 = insert b (free_blocks s)" using m(3) by (simp add: free_blocks_def set_super_def)
    show "sb_blocks (super ?s1) = sb_blocks (super s)" by (simp add: set_super_def)
    show "block_bytes ?s1 c = block_bytes s c" for c by (simp add: block_bytes_def set_super_def)
  qed
qed

end
