(* ===== verification/SfsBmap.thy ===== *)
theory SfsBmap
  imports SfsBlock
begin

text \<open>
  The block map of a file: \<open>blk_of s d i\<close> is the disk block of block \<open>i\<close> of the file with the
  inode \<open>d\<close>, zero where there is none. \<open>file_ok\<close> is the invariant of one file, and the lemmas say
  what loading a block (which allocates the one behind the last) does to it.
\<close>

section \<open>Numbers on the disk\<close>

lemma length_to_le [simp]: "length (to_le k n) = k"
  by (induction k n rule: to_le.induct) auto

lemma from_to_le: "from_le (to_le k n) = n mod 256 ^ k"
proof (induction k n rule: to_le.induct)
  case (2 k n)
  have "unat (of_nat (n mod 256) :: byte) = n mod 256" by (simp add: unat_of_nat)
  moreover have "n mod 256 ^ Suc k = n mod 256 + 256 * (n div 256 mod 256 ^ k)"
    using mod_mult2_eq [of n 256 "256 ^ k"] by simp
  ultimately show ?case using 2 by simp
qed simp

definition entry :: "sfs_fs \<Rightarrow> nat \<Rightarrow> nat \<Rightarrow> nat" where
  "entry s ent k = from_le (take 4 (drop (k * 4) (block_bytes s ent)))"

lemma read_entry_ok:
  assumes "fs_ok s" "used s ent" "k < 1024"
  shows "read_entry s ent k = Some (0, entry s ent k, s)"
  using assms rbuf_ok [OF assms(1), of ent "k * 4" 4 "to_le 4 0" 0]
  by (simp add: read_entry_def entry_def used_def)

definition set_entry :: "sfs_fs \<Rightarrow> nat \<Rightarrow> nat \<Rightarrow> nat \<Rightarrow> sfs_fs" where
  "set_entry s ent k n = set_block s ent (splice (block_bytes s ent) (k * 4) (to_le 4 n))"

lemma write_entry_ok:
  assumes "fs_ok s" "used s ent" "k < 1024"
  shows "write_entry s ent k n = Some (0, set_entry s ent k n)"
  using assms wbuf_ok [OF assms(1), of ent "k * 4" 4 0 "to_le 4 n"]
  by (simp add: write_entry_def set_entry_def used_def)

lemma set_entry_simps [simp]:
  "super (set_entry s ent k n) = super s" "free_blocks (set_entry s ent k n) = free_blocks s"
  "fs_ok (set_entry s ent k n) = fs_ok s" "used (set_entry s ent k n) c = used s c"
  by (simp_all add: set_entry_def)

lemma set_entry_block: "k < 1024 \<Longrightarrow> c \<noteq> ent \<Longrightarrow> block_bytes (set_entry s ent k n) c = block_bytes s c"
  by (simp add: set_entry_def block_set)

lemma entry_set:
  assumes "k < 1024" "j < 1024" "n < 2 ^ 32"
  shows "entry (set_entry s ent k n) ent j = (if j = k then n else entry s ent j)"
proof -
  let ?bs = "block_bytes s ent"
  have "take 4 (drop (j * 4) (splice ?bs (k * 4) (to_le 4 n))) = (if j = k then to_le 4 n else take 4 (drop (j * 4) ?bs))"
  proof (rule nth_equalityI)
    show "length (take 4 (drop (j * 4) (splice ?bs (k * 4) (to_le 4 n)))) = length (if j = k then to_le 4 n else take 4 (drop (j * 4) ?bs))"
      using assms by simp
    fix i assume "i < length (take 4 (drop (j * 4) (splice ?bs (k * 4) (to_le 4 n))))"
    then have i: "i < 4" by simp
    have eq: "k * 4 \<le> j * 4 + i \<and> j * 4 + i < k * 4 + 4 \<longleftrightarrow> j = k" using i by presburger
    show "take 4 (drop (j * 4) (splice ?bs (k * 4) (to_le 4 n))) ! i = (if j = k then to_le 4 n else take 4 (drop (j * 4) ?bs)) ! i"
      using i assms nth_splice [of "k * 4" "to_le 4 n" ?bs "j * 4 + i"] eq by simp
  qed
  then show ?thesis using assms by (simp add: entry_def set_entry_def block_set from_to_le)
qed

lemma entry_cong: "block_bytes s' ent = block_bytes s ent \<Longrightarrow> entry s' ent k = entry s ent k"
  by (simp add: entry_def)

lemma from_le_zeros [simp]: "from_le (replicate n 0) = 0"
  by (induction n) auto

lemma entry_zero: "block_bytes s ent = replicate 4096 0 \<Longrightarrow> k < 1024 \<Longrightarrow> entry s ent k = 0"
  by (simp add: entry_def drop_replicate)

section \<open>Files\<close>

definition blk_of :: "sfs_fs \<Rightarrow> sfs_disk_inode \<Rightarrow> nat \<Rightarrow> nat" where
  "blk_of s d i = (if i < 12 then dn_direct d ! i else if dn_indirect d = 0 then 0 else entry s (dn_indirect d) (i - 12))"

definition data_blocks :: "sfs_fs \<Rightarrow> sfs_disk_inode \<Rightarrow> nat set" where
  "data_blocks s d = blk_of s d ` {..< dn_blocks d}"

definition file_blocks :: "sfs_fs \<Rightarrow> sfs_disk_inode \<Rightarrow> nat set" where
  "file_blocks s d = data_blocks s d \<union> (if dn_indirect d = 0 then {} else {dn_indirect d})"

definition file_ok :: "sfs_fs \<Rightarrow> sfs_disk_inode \<Rightarrow> bool" where
  "file_ok s d \<longleftrightarrow> length (dn_direct d) = 12 \<and> dn_blocks d \<le> 1036
     \<and> (\<forall>i < dn_blocks d. used s (blk_of s d i)) \<and> inj_on (blk_of s d) {..< dn_blocks d}
     \<and> (\<forall>i. dn_blocks d \<le> i \<and> i < 1036 \<longrightarrow> blk_of s d i = 0)
     \<and> (dn_indirect d \<noteq> 0 \<longrightarrow> used s (dn_indirect d) \<and> dn_indirect d \<notin> data_blocks s d)"

lemma file_okD:
  assumes "file_ok s d"
  shows "length (dn_direct d) = 12" "dn_blocks d \<le> 1036" "i < dn_blocks d \<Longrightarrow> used s (blk_of s d i)"
    "inj_on (blk_of s d) {..< dn_blocks d}" "dn_blocks d \<le> i \<Longrightarrow> i < 1036 \<Longrightarrow> blk_of s d i = 0"
    "dn_indirect d \<noteq> 0 \<Longrightarrow> used s (dn_indirect d)" "dn_indirect d \<noteq> 0 \<Longrightarrow> dn_indirect d \<notin> data_blocks s d"
  using assms by (simp_all add: file_ok_def)

lemma file_blocks_used: "file_ok s d \<Longrightarrow> b \<in> file_blocks s d \<Longrightarrow> used s b"
  by (auto simp: file_blocks_def data_blocks_def file_ok_def split: if_splits)

text \<open>Only the indirect block and the fields of the inode matter.\<close>

lemma blk_of_cong:
  assumes "dn_direct d' = dn_direct d" "dn_indirect d' = dn_indirect d"
    "dn_indirect d \<noteq> 0 \<Longrightarrow> block_bytes s' (dn_indirect d) = block_bytes s (dn_indirect d)"
  shows "blk_of s' d' i = blk_of s d i"
  using assms by (auto simp: blk_of_def entry_def)

text \<open>\<open>sfs_bmap_get_nolock\<close> without \<open>create\<close>.\<close>

lemma bmap_get_existing:
  assumes ok: "fs_ok s" and f: "file_ok s (din sin)" and i: "index < dn_blocks (din sin)"
  shows "sfs_bmap_get_nolock s sin index False = Some (0, blk_of s (din sin) index, sin, s)"
proof -
  have u: "used s (blk_of s (din sin) index)" using file_okD(3) [OF f] i by simp
  then have nz: "blk_of s (din sin) index \<noteq> 0" by (simp add: used_def)
  note iu = inuse_used [OF ok u]
  show ?thesis
  proof (cases "index < 12")
    case True
    then show ?thesis using iu nz by (simp add: sfs_bmap_get_nolock_def SFS_NDIRECT_def blk_of_def Let_def)
  next
    case False
    then have "dn_indirect (din sin) \<noteq> 0" using nz by (auto simp: blk_of_def split: if_splits)
    moreover have "used s (dn_indirect (din sin))" using file_okD(6) [OF f] calculation by simp
    moreover have "index - 12 < 1024" using i file_okD(2) [OF f] False by linarith
    ultimately show ?thesis using False iu nz read_entry_ok [OF ok, of "dn_indirect (din sin)" "index - 12"]
      by (simp add: sfs_bmap_get_nolock_def sfs_bmap_get_sub_nolock_def SFS_NDIRECT_def SFS_BLK_NENTRY_def SFS_BLKSIZE_def
          blk_of_def Let_def)
  qed
qed

lemma bmap_load_existing:
  assumes ok: "fs_ok s" and f: "file_ok s (din sin)" and i: "index < dn_blocks (din sin)"
  shows "sfs_bmap_load_nolock s sin index = Some (0, blk_of s (din sin) index, sin, s)"
  using bmap_get_existing [OF assms] inuse_used [OF ok file_okD(3) [OF f i]] i
  by (simp add: sfs_bmap_load_nolock_def)

section \<open>A new block at the end\<close>

lemma file_ok_extend:
  assumes f: "file_ok s d" and new: "b \<in> free_blocks s" "used s' b" "\<And>c. used s c \<Longrightarrow> used s' c"
    and d': "length (dn_direct d') = 12" "dn_blocks d' = Suc (dn_blocks d)" "dn_blocks d < 1036"
    and old: "\<And>i. i < dn_blocks d \<Longrightarrow> blk_of s' d' i = blk_of s d i" "blk_of s' d' (dn_blocks d) = b"
    and rest: "\<And>i. Suc (dn_blocks d) \<le> i \<Longrightarrow> i < 1036 \<Longrightarrow> blk_of s' d' i = 0"
    and ind: "dn_indirect d' \<noteq> 0 \<Longrightarrow> used s' (dn_indirect d') \<and> dn_indirect d' \<noteq> b \<and> dn_indirect d' \<notin> data_blocks s d"
  shows "file_ok s' d'" "data_blocks s' d' = insert b (data_blocks s d)"
proof -
  have bd: "b \<notin> data_blocks s d" using file_okD(3) [OF f] new(1) by (auto simp: data_blocks_def used_def)
  have "blk_of s' d' ` {..<dn_blocks d} = blk_of s d ` {..<dn_blocks d}" using old(1) by (intro image_cong) auto
  then show db: "data_blocks s' d' = insert b (data_blocks s d)"
    by (simp add: data_blocks_def d'(2) lessThan_Suc old(2))
  have "inj_on (blk_of s' d') {..<dn_blocks d}" using file_okD(4) [OF f] old(1) by (simp add: inj_on_def)
  moreover have "b \<notin> blk_of s' d' ` {..<dn_blocks d}" using bd old(1) by (auto simp: data_blocks_def)
  ultimately have inj: "inj_on (blk_of s' d') {..<dn_blocks d'}" by (simp add: d'(2) lessThan_Suc old(2))
  have us: "used s' (blk_of s' d' i)" if "i < dn_blocks d'" for i
    using that file_okD(3) [OF f] new old d'(2) by (cases "i = dn_blocks d") auto
  show "file_ok s' d'" unfolding file_ok_def db using d' inj us rest ind by auto
qed

definition need :: "sfs_disk_inode \<Rightarrow> nat" where
  "need d = (if dn_blocks d < 12 \<or> dn_indirect d \<noteq> 0 then 1 else 2)"

text \<open>What a successful load of the block behind the last gives.\<close>

definition extended :: "sfs_fs \<Rightarrow> sfs_inode \<Rightarrow> nat \<Rightarrow> sfs_inode \<Rightarrow> sfs_fs \<Rightarrow> bool" where
  "extended s sin b sin' s' \<longleftrightarrow> fs_ok s' \<and> file_ok s' (din sin') \<and> dn_blocks (din sin') = Suc (dn_blocks (din sin))
     \<and> blk_of s' (din sin') (dn_blocks (din sin)) = b \<and> (\<forall>i < dn_blocks (din sin). blk_of s' (din sin') i = blk_of s (din sin) i)
     \<and> block_bytes s' b = replicate 4096 0
     \<and> (\<forall>c. used s c \<and> c \<noteq> dn_indirect (din sin) \<longrightarrow> block_bytes s' c = block_bytes s c)
     \<and> dn_size (din sin') = dn_size (din sin) \<and> dn_type (din sin') = dn_type (din sin) \<and> dn_nlinks (din sin') = dn_nlinks (din sin)
     \<and> sin_ino sin' = sin_ino sin \<and> reclaim_count sin' = reclaim_count sin
     \<and> (dn_blocks (din sin) < 12 \<or> dn_indirect (din sin) \<noteq> 0 \<longrightarrow> dn_indirect (din sin') = dn_indirect (din sin))
     \<and> free_blocks s' \<subseteq> free_blocks s \<and> card (free_blocks s') + need (din sin) = card (free_blocks s)
     \<and> file_blocks s (din sin) \<subseteq> file_blocks s' (din sin') \<and> file_blocks s' (din sin') \<subseteq> file_blocks s (din sin) \<union> free_blocks s
     \<and> sb_blocks (super s') = sb_blocks (super s)"

lemma bmap_load_new_direct:
  assumes ok: "fs_ok s" and f: "file_ok s (din sin)" and i: "index = dn_blocks (din sin)" "index < 12" and av: "free_blocks s \<noteq> {}"
  obtains b sin' s' where "sfs_bmap_load_nolock s sin index = Some (0, b, sin', s')" "extended s sin b sin' s'"
proof -
  from block_alloc_some [OF ok av] obtain b s' where a: "sfs_block_alloc s = Some (0, Some b, s')" "b \<in> free_blocks s" "fs_ok s'"
    "used s' b" "free_blocks s' = free_blocks s - {b}" "sb_blocks (super s') = sb_blocks (super s)"
    "\<And>c. block_bytes s' c = (if c = b then replicate 4096 0 else block_bytes s c)" by blast
  let ?d = "din sin"
  let ?sin = "(set_din (\<lambda>d. d\<lparr>dn_direct := (dn_direct d)[index := b]\<rparr>) sin)\<lparr>sin_dirty := True\<rparr>"
  define sin' where "sin' = set_din (\<lambda>d. d\<lparr>dn_blocks := dn_blocks d + 1\<rparr>) ?sin"
  have z: "dn_direct ?d ! index = 0" using file_okD(5) [OF f, of index] i by (simp add: blk_of_def)
  have len: "length (dn_direct ?d) = 12" by (rule file_okD(1) [OF f])
  have iu: "sfs_block_inuse s' b = Some True" by (rule inuse_used [OF a(3,4)])
  have nb: "b \<noteq> 0" using a(4) by (simp add: used_def)
  have mono: "used s' c" if "used s c" for c using that a(5,6) by (simp add: used_def)
  have ub: "\<not> used s b" using a(2) by (simp add: used_def)
  have ib: "dn_indirect ?d \<noteq> 0 \<Longrightarrow> dn_indirect ?d \<noteq> b" using file_okD(6) [OF f] ub by auto
  have blk: "blk_of s' (din sin') j = (if j = index then b else blk_of s ?d j)" for j
  proof (cases "j < 12")
    case True
    then show ?thesis using len by (simp add: blk_of_def sin'_def set_din_def nth_list_update)
  next
    case False
    then show ?thesis using i(2) ib a(7) by (auto simp: blk_of_def sin'_def set_din_def entry_def)
  qed
  have load: "sfs_bmap_load_nolock s sin index = Some (0, b, sin', s')"
    using i z a(1) iu nb by (simp add: sin'_def sfs_bmap_load_nolock_def sfs_bmap_get_nolock_def SFS_NDIRECT_def Let_def)
  have fo: "file_ok s' (din sin')" "data_blocks s' (din sin') = insert b (data_blocks s ?d)"
  proof -
    have h: "length (dn_direct (din sin')) = 12" "dn_blocks (din sin') = Suc (dn_blocks ?d)" "dn_blocks ?d < 1036"
      using len i by (simp_all add: sin'_def set_din_def)
    have r: "blk_of s' (din sin') j = 0" if "Suc (dn_blocks ?d) \<le> j" "j < 1036" for j
      using that file_okD(5) [OF f, of j] i(1) by (simp add: blk)
    have n: "used s' (dn_indirect (din sin')) \<and> dn_indirect (din sin') \<noteq> b \<and> dn_indirect (din sin') \<notin> data_blocks s ?d"
      if "dn_indirect (din sin') \<noteq> 0" using that mono ib file_okD(6,7) [OF f] by (simp add: sin'_def set_din_def)
    show "file_ok s' (din sin')" "data_blocks s' (din sin') = insert b (data_blocks s ?d)"
      by (rule file_ok_extend [OF f a(2,4) mono h _ _ r n]; simp add: blk i(1))+
  qed
  have fb: "file_blocks s' (din sin') = insert b (file_blocks s ?d)"
    unfolding file_blocks_def fo(2) by (simp add: sin'_def set_din_def)
  have "card (free_blocks s') + need ?d = card (free_blocks s)"
    using a(2,5) i card_Suc_Diff1 [of "free_blocks s" b] by (simp add: need_def)
  moreover have "block_bytes s' c = block_bytes s c" if "used s c" for c using that ub a(7) by auto
  moreover have "dn_size (din sin') = dn_size ?d" "dn_type (din sin') = dn_type ?d" "dn_nlinks (din sin') = dn_nlinks ?d"
    "sin_ino sin' = sin_ino sin" "reclaim_count sin' = reclaim_count sin" "dn_blocks (din sin') = Suc (dn_blocks ?d)"
    "dn_indirect (din sin') = dn_indirect ?d"
    by (simp_all add: sin'_def set_din_def)
  ultimately have "extended s sin b sin' s'"
    unfolding extended_def fb using a fo(1) i(1) by (auto simp: blk)
  with load show thesis by (rule that)
qed

lemma fill_indirect:
  assumes ok: "fs_ok s" and u: "used s ent" and k: "k < 1024" and av: "free_blocks s \<noteq> {}"
  obtains b s1 s' where "sfs_block_alloc s = Some (0, Some b, s1)" "write_entry s1 ent k b = Some (0, s')"
    "b \<in> free_blocks s" "b \<noteq> ent" "fs_ok s'" "used s' b" "free_blocks s' = free_blocks s - {b}"
    "sb_blocks (super s') = sb_blocks (super s)" "\<And>j. j < 1024 \<Longrightarrow> entry s' ent j = (if j = k then b else entry s ent j)"
    "\<And>c. c \<noteq> ent \<Longrightarrow> block_bytes s' c = (if c = b then replicate 4096 0 else block_bytes s c)" "\<And>c. used s c \<Longrightarrow> used s' c"
proof -
  from block_alloc_some [OF ok av] obtain b s1 where a: "sfs_block_alloc s = Some (0, Some b, s1)" "b \<in> free_blocks s" "fs_ok s1"
    "used s1 b" "free_blocks s1 = free_blocks s - {b}" "sb_blocks (super s1) = sb_blocks (super s)"
    "\<And>c. block_bytes s1 c = (if c = b then replicate 4096 0 else block_bytes s c)" by blast
  have be: "b \<noteq> ent" using a(2) u by (auto simp: used_def)
  have u1: "used s1 c" if "used s c" for c using that a(5,6) by (simp add: used_def)
  have b32: "b < 2 ^ 32" using a(3,4) by (auto simp: fs_ok_def used_def)
  have e: "entry s1 ent j = entry s ent j" for j by (rule entry_cong) (use be a(7) in simp)
  show thesis
  proof (rule that [of b s1 "set_entry s1 ent k b"])
    show "sfs_block_alloc s = Some (0, Some b, s1)" "b \<in> free_blocks s" "b \<noteq> ent" by (rule a(1) a(2) be)+
    show "write_entry s1 ent k b = Some (0, set_entry s1 ent k b)" by (rule write_entry_ok [OF a(3) u1 [OF u] k])
    show "entry (set_entry s1 ent k b) ent j = (if j = k then b else entry s ent j)" if "j < 1024" for j
      using entry_set [OF k that b32] by (simp add: e)
    show "block_bytes (set_entry s1 ent k b) c = (if c = b then replicate 4096 0 else block_bytes s c)" if "c \<noteq> ent" for c
      using set_entry_block [OF k that] a(7) by simp
  qed (use a u1 in simp_all)
qed

lemma bmap_load_new_indirect:
  assumes ok: "fs_ok s" and f: "file_ok s (din sin)" and i: "index = dn_blocks (din sin)" "12 \<le> index" "index < 1036"
    and nd: "need (din sin) \<le> card (free_blocks s)"
  obtains b sin' s' where "sfs_bmap_load_nolock s sin index = Some (0, b, sin', s')" "extended s sin b sin' s'"
proof -
  let ?d = "din sin" and ?k = "index - 12"
  have k: "?k < 1024" using i(2,3) by linarith
  have z: "blk_of s ?d j = 0" if "index \<le> j" "j < 1036" for j using that file_okD(5) [OF f, of j] i(1) by simp
  text \<open>the indirect block, old or new\<close>
  obtain ent s1 where e: "fs_ok s1" "used s1 ent" "free_blocks s1 \<noteq> {}" "sb_blocks (super s1) = sb_blocks (super s)"
    "\<And>j. j < 1024 \<Longrightarrow> entry s1 ent j = blk_of s ?d (j + 12)" "\<And>c. used s c \<Longrightarrow> used s1 c \<and> block_bytes s1 c = block_bytes s c"
    "dn_indirect ?d \<noteq> 0 \<longrightarrow> s1 = s \<and> ent = dn_indirect ?d"
    "dn_indirect ?d = 0 \<longrightarrow> sfs_block_alloc s = Some (0, Some ent, s1) \<and> ent \<in> free_blocks s \<and> free_blocks s1 = free_blocks s - {ent}"
  proof (cases "dn_indirect ?d = 0")
    case False
    then have "free_blocks s \<noteq> {}" using nd i by (auto simp: need_def)
    with False ok show thesis using file_okD(6) [OF f] by (intro that [of s "dn_indirect ?d"]) (auto simp: blk_of_def)
  next
    case True
    then have two: "2 \<le> card (free_blocks s)" using nd i by (simp add: need_def)
    then have ne: "free_blocks s \<noteq> {}" by auto
    from block_alloc_some [OF ok ne] obtain ent s1 where a: "sfs_block_alloc s = Some (0, Some ent, s1)" "ent \<in> free_blocks s" "fs_ok s1"
      "used s1 ent" "free_blocks s1 = free_blocks s - {ent}" "sb_blocks (super s1) = sb_blocks (super s)"
      "\<And>c. block_bytes s1 c = (if c = ent then replicate 4096 0 else block_bytes s c)" by blast
    have "card (free_blocks s1) = card (free_blocks s) - 1" using a(2,5) by simp
    then have "card (free_blocks s1) \<noteq> 0" using two by linarith
    then have ne1: "free_blocks s1 \<noteq> {}" by auto
    have en: "entry s1 ent j = blk_of s ?d (j + 12)" if "j < 1024" for j
      using that a(7) True by (simp add: entry_zero blk_of_def)
    have us: "used s1 c \<and> block_bytes s1 c = block_bytes s c" if "used s c" for c
      using that a(2,5-7) by (auto simp: used_def)
    show thesis by (rule that [OF a(3,4) ne1 a(6) en us]) (use True a in simp_all)
  qed
  from fill_indirect [OF e(1,2) k e(3)] obtain b s2 s' where b: "sfs_block_alloc s1 = Some (0, Some b, s2)"
    "write_entry s2 ent ?k b = Some (0, s')" "b \<in> free_blocks s1" "b \<noteq> ent" "fs_ok s'" "used s' b" "free_blocks s' = free_blocks s1 - {b}"
    "sb_blocks (super s') = sb_blocks (super s1)" "\<And>j. j < 1024 \<Longrightarrow> entry s' ent j = (if j = ?k then b else entry s1 ent j)"
    "\<And>c. c \<noteq> ent \<Longrightarrow> block_bytes s' c = (if c = b then replicate 4096 0 else block_bytes s1 c)" "\<And>c. used s1 c \<Longrightarrow> used s' c" by blast
  have fs: "b \<in> free_blocks s" using b(3) e(7,8) by (cases "dn_indirect ?d = 0") auto
  have ub: "\<not> used s b" using fs by (simp add: used_def)
  have ez: "entry s1 ent ?k = 0" using e(5) [OF k] z [of index] i by simp
  have ue: "used s' ent" using b(11) e(2) by blast
  have nz: "ent \<noteq> 0" "b \<noteq> 0" using ue b(6) by (auto simp: used_def)
  have nd_ent: "ent \<notin> data_blocks s ?d"
    using file_okD(7) [OF f] e(7,8) file_okD(3) [OF f] by (cases "dn_indirect ?d = 0") (auto simp: data_blocks_def used_def)
  define sin1 where "sin1 = (if ent \<noteq> dn_indirect ?d then (set_din (\<lambda>d. d\<lparr>dn_indirect := ent\<rparr>) sin)\<lparr>sin_dirty := True\<rparr> else sin)"
  define sin' where "sin' = set_din (\<lambda>d. d\<lparr>dn_blocks := dn_blocks d + 1\<rparr>) sin1"
  have d': "dn_direct (din sin') = dn_direct ?d" "dn_indirect (din sin') = ent" "dn_blocks (din sin') = Suc (dn_blocks ?d)"
    "dn_size (din sin') = dn_size ?d" "dn_type (din sin') = dn_type ?d" "dn_nlinks (din sin') = dn_nlinks ?d"
    "sin_ino sin' = sin_ino sin" "reclaim_count sin' = reclaim_count sin"
    by (simp_all add: sin'_def sin1_def set_din_def)
  have sub: "sfs_bmap_get_sub_nolock s (dn_indirect ?d) ?k True = Some (0, ent, b, s')"
  proof (cases "dn_indirect ?d = 0")
    case False
    then have "read_entry s ent ?k = Some (0, 0, s)" using read_entry_ok [OF e(1,2) k] ez e(7) by simp
    with False e(7) b(1,2) k show ?thesis
      by (simp add: sfs_bmap_get_sub_nolock_def SFS_BLK_NENTRY_def SFS_BLKSIZE_def Let_def)
  next
    case True
    with e(8) b(1,2) k show ?thesis
      by (simp add: sfs_bmap_get_sub_nolock_def SFS_BLK_NENTRY_def SFS_BLKSIZE_def Let_def)
  qed
  have iu: "sfs_block_inuse s' b = Some True" by (rule inuse_used [OF b(5,6)])
  have get: "sfs_bmap_get_nolock s sin index True = Some (0, b, sin1, s')"
    using sub iu i(2) k nz e(7) by (cases "dn_indirect ?d = 0")
      (simp_all add: sfs_bmap_get_nolock_def SFS_NDIRECT_def SFS_BLK_NENTRY_def SFS_BLKSIZE_def sin1_def Let_def)
  have load: "sfs_bmap_load_nolock s sin index = Some (0, b, sin', s')"
    using get i(1) iu by (simp add: sfs_bmap_load_nolock_def sin'_def)
  have blk: "blk_of s' (din sin') j = (if j = index then b else blk_of s ?d j)" if "j < 1036" for j
  proof (cases "j < 12")
    case True
    then show ?thesis using i(2) by (simp add: blk_of_def d')
  next
    case False
    then have j: "j - 12 < 1024" "j = ?k + 12 \<longleftrightarrow> j = index" "j - 12 = ?k \<longleftrightarrow> j = index" "j - 12 + 12 = j" using that i(2) by linarith+
    have "blk_of s' (din sin') j = entry s' ent (j - 12)" using False nz by (simp add: blk_of_def d')
    also have "\<dots> = (if j = index then b else entry s1 ent (j - 12))" using b(9) [OF j(1)] j(3) by simp
    finally show ?thesis using e(5) [OF j(1)] j(4) by simp
  qed
  have mono: "used s' c" if "used s c" for c using that e(6) b(11) by blast
  have fo: "file_ok s' (din sin')" "data_blocks s' (din sin') = insert b (data_blocks s ?d)"
  proof -
    have h: "length (dn_direct (din sin')) = 12" "dn_blocks (din sin') = Suc (dn_blocks ?d)" "dn_blocks ?d < 1036"
      using file_okD(1) [OF f] i by (simp_all add: d')
    have o: "blk_of s' (din sin') j = blk_of s ?d j" if "j < dn_blocks ?d" for j using that blk [of j] i by simp
    have nw: "blk_of s' (din sin') (dn_blocks ?d) = b" using blk [of index] i by simp
    have r: "blk_of s' (din sin') j = 0" if "Suc (dn_blocks ?d) \<le> j" "j < 1036" for j
      using that z [of j] blk [of j] i(1) by simp
    have n: "used s' (dn_indirect (din sin')) \<and> dn_indirect (din sin') \<noteq> b \<and> dn_indirect (din sin') \<notin> data_blocks s ?d"
      using ue b(4) nd_ent by (simp add: d')
    show "file_ok s' (din sin')" "data_blocks s' (din sin') = insert b (data_blocks s ?d)"
      by (rule file_ok_extend [OF f fs b(6) mono h o nw r n]; assumption)+
  qed
  have fb: "file_blocks s' (din sin') = insert ent (insert b (data_blocks s ?d))"
    unfolding file_blocks_def fo(2) using nz(1) by (simp add: d')
  have sub1: "file_blocks s ?d \<subseteq> file_blocks s' (din sin')"
    unfolding fb using e(7) by (auto simp: file_blocks_def)
  have sub2: "file_blocks s' (din sin') \<subseteq> file_blocks s ?d \<union> free_blocks s"
    unfolding fb using e(7,8) fs by (cases "dn_indirect ?d = 0") (auto simp: file_blocks_def)
  have fsub: "free_blocks s' \<subseteq> free_blocks s" using b(7) e(7,8) by (cases "dn_indirect ?d = 0") auto
  have crd: "card (free_blocks s') + need ?d = card (free_blocks s)"
  proof -
    have c1: "card (free_blocks s') + 1 = card (free_blocks s1)" using b(3,7) card_Suc_Diff1 [of "free_blocks s1" b] by simp
    show ?thesis
    proof (cases "dn_indirect ?d = 0")
      case True
      then have "card (free_blocks s1) + 1 = card (free_blocks s)" using e(8) card_Suc_Diff1 [of "free_blocks s" ent] by simp
      then show ?thesis using c1 True i by (simp add: need_def)
    next
      case False
      then show ?thesis using c1 e(7) by (simp add: need_def)
    qed
  qed
  have keep: "block_bytes s' c = block_bytes s c" if "used s c" "c \<noteq> dn_indirect ?d" for c
  proof -
    have "c \<noteq> ent" using that e(7,8) by (cases "dn_indirect ?d = 0") (auto simp: used_def)
    moreover have "c \<noteq> b" using that(1) ub by blast
    ultimately show ?thesis using b(10) e(6) that(1) by simp
  qed
  have "extended s sin b sin' s'" unfolding extended_def
    using b(4,5,8,10) e(4,7) fo(1) d' blk i fsub crd sub1 sub2 keep by auto
  with load show thesis by (rule that)
qed

lemma bmap_load_new:
  assumes "fs_ok s" "file_ok s (din sin)" "index = dn_blocks (din sin)" "index < 1036" "need (din sin) \<le> card (free_blocks s)"
  obtains b sin' s' where "sfs_bmap_load_nolock s sin index = Some (0, b, sin', s')" "extended s sin b sin' s'"
proof (cases "index < 12")
  case True
  then have "free_blocks s \<noteq> {}" using assms(3,5) by (auto simp: need_def)
  then show thesis using bmap_load_new_direct [OF assms(1-3) True] that by blast
next
  case False
  then have "12 \<le> index" by simp
  then show thesis using bmap_load_new_indirect [OF assms(1-3) _ assms(4,5)] that by blast
qed

text \<open>No block is lost: what leaves the free map is in the file.\<close>

lemma card_file_blocks:
  assumes f: "file_ok s d"
  shows "finite (file_blocks s d)" "card (file_blocks s d) = dn_blocks d + (if dn_indirect d = 0 then 0 else 1)"
proof -
  have "card (data_blocks s d) = dn_blocks d" "finite (data_blocks s d)"
    using card_image [OF file_okD(4) [OF f]] by (simp_all add: data_blocks_def)
  then show "finite (file_blocks s d)" "card (file_blocks s d) = dn_blocks d + (if dn_indirect d = 0 then 0 else 1)"
    using file_okD(7) [OF f] by (auto simp: file_blocks_def)
qed

lemma extended_indirect:
  assumes "extended s sin b sin' s'" "file_ok s (din sin)"
  shows "dn_indirect (din sin') = 0 \<longleftrightarrow> dn_indirect (din sin) = 0 \<and> dn_blocks (din sin) < 12"
proof (cases "dn_blocks (din sin) < 12 \<or> dn_indirect (din sin) \<noteq> 0")
  case True
  then show ?thesis using assms(1) by (auto simp: extended_def)
next
  case no: False
  note e = assms(1) [unfolded extended_def]
  have "used s' (blk_of s' (din sin') (dn_blocks (din sin)))" using e file_okD(3) [of s' "din sin'" "dn_blocks (din sin)"] by simp
  then show ?thesis using no by (auto simp: blk_of_def used_def split: if_splits)
qed

lemma extended_conserves:
  assumes x: "extended s sin b sin' s'" and f: "file_ok s (din sin)"
  shows "free_blocks s' \<union> file_blocks s' (din sin') = free_blocks s \<union> file_blocks s (din sin)"
proof -
  note e = x [unfolded extended_def]
  let ?F = "file_blocks s (din sin)" and ?F' = "file_blocks s' (din sin')"
  have f': "file_ok s' (din sin')" using e by simp
  have disj: "?F \<inter> free_blocks s = {}" "?F' \<inter> free_blocks s' = {}"
    using file_blocks_used [OF f] file_blocks_used [OF f'] by (auto simp: used_def)
  have sub: "free_blocks s' \<union> ?F' \<subseteq> free_blocks s \<union> ?F" using e by blast
  have "card ?F' = card ?F + need (din sin)"
    using card_file_blocks(2) [OF f] card_file_blocks(2) [OF f'] e extended_indirect [OF x f] by (auto simp: need_def)
  moreover have "card (free_blocks s') + need (din sin) = card (free_blocks s)" using e by simp
  ultimately have "card (free_blocks s' \<union> ?F') = card (free_blocks s \<union> ?F)"
    using disj card_file_blocks(1) [OF f] card_file_blocks(1) [OF f'] by (simp add: card_Un_disjoint Int_commute)
  then show ?thesis using sub card_file_blocks(1) [OF f] by (intro card_subset_eq) simp_all
qed

end
