(* ===== verification/SfsFile.thy ===== *)
theory SfsFile
  imports SfsBmap
begin

text \<open>
  Reading and writing files: \<open>sfs_io_nolock\<close> and the operations on regular files of
  \<open>kern/fs/sfs/sfs_inode.c\<close>. The contents of a file are a function from positions to bytes, zero
  behind the last block.
\<close>

section \<open>sfs_io_nolock\<close>

definition sfs_buf_op :: "bool \<Rightarrow> sfs_fs \<Rightarrow> byte list \<Rightarrow> nat \<Rightarrow> nat \<Rightarrow> nat \<Rightarrow> nat \<Rightarrow> (int \<times> byte list \<times> sfs_fs) option" where
  "sfs_buf_op write = (if write then sfs_wbuf else sfs_rbuf)"

definition sfs_block_op :: "bool \<Rightarrow> sfs_fs \<Rightarrow> byte list \<Rightarrow> nat \<Rightarrow> nat \<Rightarrow> nat \<Rightarrow> (int \<times> byte list \<times> sfs_fs) option" where
  "sfs_block_op write = (if write then sfs_wblock else sfs_rblock)"

text \<open>The transfer of part of one block.\<close>

definition sfs_io_part ::
  "sfs_fs \<Rightarrow> sfs_inode \<Rightarrow> byte list \<Rightarrow> nat \<Rightarrow> nat \<Rightarrow> nat \<Rightarrow> nat \<Rightarrow> bool \<Rightarrow> (int \<times> byte list \<times> sfs_inode \<times> sfs_fs) option" where
  "sfs_io_part s sin buf pos len blkno blkoff write = do {
     (ret, ino, sin, s) \<leftarrow> sfs_bmap_load_nolock s sin blkno;
     if ret \<noteq> 0 then Some (ret, buf, sin, s)
     else do {
       (ret, buf, s) \<leftarrow> sfs_buf_op write s buf pos len ino blkoff;
       Some (ret, buf, sin, s)
     }
   }"

text \<open>The loop over the whole blocks.\<close>

fun sfs_io_blocks ::
  "sfs_fs \<Rightarrow> sfs_inode \<Rightarrow> byte list \<Rightarrow> nat \<Rightarrow> nat \<Rightarrow> nat \<Rightarrow> nat \<Rightarrow> bool \<Rightarrow> (int \<times> nat \<times> byte list \<times> sfs_inode \<times> sfs_fs) option" where
  "sfs_io_blocks s sin buf pos blkno 0 alen write = Some (0, alen, buf, sin, s)"
| "sfs_io_blocks s sin buf pos blkno (Suc nblks) alen write = do {
     (ret, ino, sin, s) \<leftarrow> sfs_bmap_load_nolock s sin blkno;
     if ret \<noteq> 0 then Some (ret, alen, buf, sin, s)
     else do {
       (ret, buf, s) \<leftarrow> sfs_block_op write s buf pos ino 1;
       if ret \<noteq> 0 then Some (ret, alen, buf, sin, s)
       else sfs_io_blocks s sin buf (pos + SFS_BLKSIZE) (blkno + 1) nblks (alen + SFS_BLKSIZE) write
     }
   }"

text \<open>Everything between the checks and the label \<open>out\<close>: the result and the bytes moved. \<open>offset\<close> and
  \<open>endpos\<close> have passed the checks. First what follows the unaligned head, then all of it.\<close>

definition sfs_io_tail ::
  "sfs_fs \<Rightarrow> sfs_inode \<Rightarrow> byte list \<Rightarrow> nat \<Rightarrow> nat \<Rightarrow> nat \<Rightarrow> nat \<Rightarrow> bool \<Rightarrow> (int \<times> nat \<times> byte list \<times> sfs_inode \<times> sfs_fs) option" where
  "sfs_io_tail s sin buf endpos blkno nblks alen write = do {
     (ret, alen, buf, sin, s) \<leftarrow> sfs_io_blocks s sin buf alen blkno nblks alen write;
     if ret \<noteq> 0 then Some (ret, alen, buf, sin, s)
     else let len = endpos mod SFS_BLKSIZE in
     if len \<noteq> 0 then do {
       (ret, buf, sin, s) \<leftarrow> sfs_io_part s sin buf alen len (blkno + nblks) 0 write;
       if ret \<noteq> 0 then Some (ret, alen, buf, sin, s) else Some (ret, alen + len, buf, sin, s)
     } else Some (0, alen, buf, sin, s)
   }"

definition sfs_io_range ::
  "sfs_fs \<Rightarrow> sfs_inode \<Rightarrow> byte list \<Rightarrow> nat \<Rightarrow> nat \<Rightarrow> bool \<Rightarrow> (int \<times> nat \<times> byte list \<times> sfs_inode \<times> sfs_fs) option" where
  "sfs_io_range s sin buf offset endpos write = do {
     let blkno = offset div SFS_BLKSIZE;
     let nblks = endpos div SFS_BLKSIZE - blkno;
     let blkoff = offset mod SFS_BLKSIZE;
     if blkoff \<noteq> 0 then do {
       let len = (if nblks \<noteq> 0 then SFS_BLKSIZE - blkoff else endpos - offset);
       (ret, buf, sin, s) \<leftarrow> sfs_io_part s sin buf 0 len blkno blkoff write;
       if ret \<noteq> 0 then Some (ret, 0, buf, sin, s)
       else if nblks = 0 then Some (ret, len, buf, sin, s)
       else sfs_io_tail s sin buf endpos (blkno + 1) (nblks - 1) len write
     } else sfs_io_tail s sin buf endpos blkno nblks 0 write
   }"

text \<open>\<open>off_t\<close> is a signed 64 bit number, so the end position may wrap.\<close>

definition sfs_io_nolock ::
  "sfs_fs \<Rightarrow> sfs_inode \<Rightarrow> byte list \<Rightarrow> int \<Rightarrow> nat \<Rightarrow> bool \<Rightarrow> (int \<times> nat \<times> byte list \<times> sfs_inode \<times> sfs_fs) option" where
  "sfs_io_nolock s sin buf offset alen write = do {
     kassert (dn_type (din sin) \<noteq> SFS_TYPE_DIR);
     let endpos = signed_take_bit 63 (offset + int alen);
     if offset < 0 \<or> offset \<ge> int SFS_MAX_FILE_SIZE \<or> offset > endpos then Some (- E_INVAL, 0, buf, sin, s)
     else if offset = endpos then Some (0, 0, buf, sin, s)
     else do {
       let endpos = (if endpos > int SFS_MAX_FILE_SIZE then int SFS_MAX_FILE_SIZE else endpos);
       (ret, alen, buf, sin, s) \<leftarrow> sfs_io_range s sin buf (nat offset) (nat endpos) write;
       let sin = (if nat offset + alen > dn_size (din sin)
                  then (set_din (\<lambda>d. d\<lparr>dn_size := nat offset + alen\<rparr>) sin)\<lparr>sin_dirty := True\<rparr> else sin);
       Some (ret, alen, buf, sin, s)
     }
   }"

text \<open>\<open>sfs_io\<close>, \<open>sfs_read\<close> and \<open>sfs_write\<close>, with the buffer the \<open>iobuf\<close> refers to.\<close>

definition sfs_io :: "sfs_fs \<Rightarrow> sfs_inode \<Rightarrow> iobuf \<Rightarrow> bool \<Rightarrow> (int \<times> iobuf \<times> sfs_inode \<times> sfs_fs) option" where
  "sfs_io s sin iob write = do {
     let rest = drop (io_base iob) (io_buf iob);
     (ret, alen, rest, sin, s) \<leftarrow> sfs_io_nolock s sin rest (io_offset iob) (io_resid iob) write;
     let iob = iob\<lparr>io_buf := take (io_base iob) (io_buf iob) @ rest\<rparr>;
     iob \<leftarrow> (if alen \<noteq> 0 then iobuf_skip iob alen else Some iob);
     Some (ret, iob, sin, s)
   }"

definition sfs_read :: "sfs_fs \<Rightarrow> sfs_inode \<Rightarrow> iobuf \<Rightarrow> (int \<times> iobuf \<times> sfs_inode \<times> sfs_fs) option" where
  "sfs_read s sin iob = sfs_io s sin iob False"

definition sfs_write :: "sfs_fs \<Rightarrow> sfs_inode \<Rightarrow> iobuf \<Rightarrow> (int \<times> iobuf \<times> sfs_inode \<times> sfs_fs) option" where
  "sfs_write s sin iob = sfs_io s sin iob True"

section \<open>Contents\<close>

definition content :: "sfs_fs \<Rightarrow> sfs_disk_inode \<Rightarrow> nat \<Rightarrow> byte" where
  "content s d p = (if p < 4096 * dn_blocks d then block_bytes s (blk_of s d (p div 4096)) ! (p mod 4096) else 0)"

text \<open>The blocks needed to make the file \<open>n\<close> blocks long.\<close>

definition room :: "sfs_disk_inode \<Rightarrow> nat \<Rightarrow> nat" where
  "room d n = (n - dn_blocks d) + (if dn_blocks d < n \<and> 12 < n \<and> dn_indirect d = 0 then 1 else 0)"

text \<open>Blocks of other files, and inodes, are left alone.\<close>

definition apart :: "sfs_fs \<Rightarrow> sfs_disk_inode \<Rightarrow> sfs_fs \<Rightarrow> sfs_disk_inode \<Rightarrow> bool" where
  "apart s d s' d' \<longleftrightarrow> (\<forall>c. used s c \<and> c \<notin> file_blocks s d \<longrightarrow>
     used s' c \<and> c \<notin> file_blocks s' d' \<and> block_bytes s' c = block_bytes s c)"

text \<open>From \<open>(s, sin)\<close> to \<open>(s', sin')\<close> the file has grown to at least \<open>n\<close> blocks and has the contents \<open>f\<close>.\<close>

definition became :: "sfs_fs \<Rightarrow> sfs_inode \<Rightarrow> nat \<Rightarrow> (nat \<Rightarrow> byte) \<Rightarrow> sfs_fs \<Rightarrow> sfs_inode \<Rightarrow> bool" where
  "became s sin n f s' sin' \<longleftrightarrow> fs_ok s' \<and> file_ok s' (din sin') \<and> dn_blocks (din sin') = max (dn_blocks (din sin)) n
     \<and> content s' (din sin') = f
     \<and> dn_size (din sin') = dn_size (din sin) \<and> dn_type (din sin') = dn_type (din sin) \<and> dn_nlinks (din sin') = dn_nlinks (din sin)
     \<and> sin_ino sin' = sin_ino sin \<and> reclaim_count sin' = reclaim_count sin
     \<and> apart s (din sin) s' (din sin') \<and> sb_blocks (super s') = sb_blocks (super s)
     \<and> free_blocks s' \<union> file_blocks s' (din sin') = free_blocks s \<union> file_blocks s (din sin)
     \<and> (\<forall>m \<ge> n. room (din sin) m \<le> card (free_blocks s) \<longrightarrow> room (din sin') m \<le> card (free_blocks s'))"

lemma became_refl: "fs_ok s \<Longrightarrow> file_ok s (din sin) \<Longrightarrow> n \<le> dn_blocks (din sin) \<Longrightarrow> became s sin n (content s (din sin)) s sin"
  by (simp add: became_def apart_def)

lemma became_trans:
  assumes "became s sin n f s1 sin1" "became s1 sin1 m g s2 sin2" "n \<le> m"
  shows "became s sin m g s2 sin2"
  using assms by (auto simp: became_def apart_def)

lemma became_D:
  assumes "became s sin n f s' sin'"
  shows "fs_ok s'" "file_ok s' (din sin')" "dn_blocks (din sin') = max (dn_blocks (din sin)) n" "content s' (din sin') = f"
    "dn_type (din sin') = dn_type (din sin)"
    "n \<le> m \<Longrightarrow> room (din sin) m \<le> card (free_blocks s) \<Longrightarrow> room (din sin') m \<le> card (free_blocks s')"
  using assms by (auto simp: became_def)

text \<open>Loading a block the file has, or the one behind the last.\<close>

lemma load_became:
  assumes ok: "fs_ok s" and f: "file_ok s (din sin)" and i: "index \<le> dn_blocks (din sin)" "index < 1036"
    and room: "room (din sin) (Suc index) \<le> card (free_blocks s)"
  obtains sin' s' where "sfs_bmap_load_nolock s sin index = Some (0, blk_of s' (din sin') index, sin', s')"
    "became s sin (Suc index) (content s (din sin)) s' sin'"
proof (cases "index < dn_blocks (din sin)")
  case True
  with bmap_load_existing [OF ok f True] became_refl [OF ok f, of "Suc index"] show thesis by (intro that [of s sin]) simp_all
next
  case False
  then have ix: "index = dn_blocks (din sin)" using i by simp
  have "room (din sin) (Suc index) = need (din sin)" using ix by (auto simp: room_def need_def)
  then have nd: "need (din sin) \<le> card (free_blocks s)" using room by simp
  from bmap_load_new [OF ok f ix i(2) nd] obtain b sin' s' where l: "sfs_bmap_load_nolock s sin index = Some (0, b, sin', s')"
    "extended s sin b sin' s'" by blast
  note e = l(2) [unfolded extended_def]
  have di: "dn_indirect (din sin) \<noteq> blk_of s (din sin) j" if "j < dn_blocks (din sin)" for j
  proof (cases "dn_indirect (din sin) = 0")
    case True
    then show ?thesis using file_okD(3) [OF f that] by (simp add: used_def)
  next
    case False
    then show ?thesis using file_okD(7) [OF f] that by (auto simp: data_blocks_def)
  qed
  have con: "content s' (din sin') = content s (din sin)"
  proof
    fix p
    show "content s' (din sin') p = content s (din sin) p"
    proof (cases "p < 4096 * dn_blocks (din sin)")
      case True
      then have j: "p div 4096 < dn_blocks (din sin)" by (simp add: div_less_iff_less_mult mult.commute)
      have "block_bytes s' (blk_of s (din sin) (p div 4096)) = block_bytes s (blk_of s (din sin) (p div 4096))"
        using e file_okD(3) [OF f j] di [OF j] by metis
      then show ?thesis using True j e by (simp add: content_def)
    next
      case out: False
      show ?thesis
      proof (cases "p < 4096 * Suc (dn_blocks (din sin))")
        case True
        then have "p div 4096 = dn_blocks (din sin)" using out by (simp add: div_nat_eqI)
        then show ?thesis using out e by (simp add: content_def)
      next
        case False
        then show ?thesis using out e by (simp add: content_def)
      qed
    qed
  qed
  have ap: "apart s (din sin) s' (din sin')"
    unfolding apart_def
  proof (intro allI impI)
    fix c assume c: "used s c \<and> c \<notin> file_blocks s (din sin)"
    then have nf: "c \<notin> free_blocks s" "c \<noteq> dn_indirect (din sin)" by (auto simp: used_def file_blocks_def split: if_splits)
    then show "used s' c \<and> c \<notin> file_blocks s' (din sin') \<and> block_bytes s' c = block_bytes s c"
      using c e by (auto simp: used_def)
  qed
  note ind = extended_indirect [OF l(2) f]
  have rm: "room (din sin') m \<le> card (free_blocks s')" if "Suc index \<le> m" "room (din sin) m \<le> card (free_blocks s)" for m
  proof -
    have "card (free_blocks s') + need (din sin) = card (free_blocks s)" "dn_blocks (din sin') = Suc (dn_blocks (din sin))" using e by simp_all
    then show ?thesis using that ix ind by (auto simp: room_def need_def split: if_splits)
  qed
  show thesis
  proof (rule that)
    show "sfs_bmap_load_nolock s sin index = Some (0, blk_of s' (din sin') index, sin', s')" using l(1) e ix by simp
    show "became s sin (Suc index) (content s (din sin)) s' sin'" unfolding became_def using e con ap rm ix extended_conserves [OF l(2) f] by simp
  qed
qed

section \<open>Transfers\<close>

lemma write_data_block:
  assumes ok: "fs_ok s" and f: "file_ok s (din sin)" and i: "i < dn_blocks (din sin)" and bs: "length bs = 4096"
  shows "became s sin (Suc i) (put_bytes (content s (din sin)) (i * 4096) bs) (set_block s (blk_of s (din sin) i) bs) sin"
proof -
  let ?d = "din sin" and ?b = "blk_of s (din sin) i"
  let ?s' = "set_block s ?b bs"
  have bd: "?b \<in> data_blocks s ?d" using i by (auto simp: data_blocks_def)
  have blk: "blk_of ?s' ?d j = blk_of s ?d j" for j
    by (rule blk_of_cong) (use file_okD(7) [OF f] bd in \<open>auto simp: block_set bs\<close>)
  have db: "data_blocks ?s' ?d = data_blocks s ?d" "file_blocks ?s' ?d = file_blocks s ?d"
    by (simp_all add: data_blocks_def file_blocks_def blk)
  have eq: "blk_of ?s' ?d = blk_of s ?d" by (rule ext) (rule blk)
  have fo: "file_ok ?s' ?d" using f by (simp add: file_ok_def eq db)
  have con: "content ?s' ?d = put_bytes (content s ?d) (i * 4096) bs"
  proof
    fix p
    have pi: "i * 4096 \<le> p \<and> p < i * 4096 + 4096 \<longleftrightarrow> p div 4096 = i" by (metis add.commute div_nat_eqI mult.commute mult_Suc dividend_less_div_times div_times_less_eq_dividend zero_less_numeral)
    show "content ?s' ?d p = put_bytes (content s ?d) (i * 4096) bs p"
    proof (cases "p < 4096 * dn_blocks ?d")
      case True
      then have j: "p div 4096 < dn_blocks ?d" by (simp add: div_less_iff_less_mult mult.commute)
      have "blk_of s ?d (p div 4096) = ?b \<longleftrightarrow> p div 4096 = i"
        using file_okD(4) [OF f] i j by (auto simp: inj_on_def)
      moreover have "p div 4096 = i \<Longrightarrow> p mod 4096 = p - i * 4096" by (simp add: minus_div_mult_eq_mod [symmetric])
      ultimately show ?thesis using True pi bs by (simp add: content_def blk block_set put_bytes_def)
    next
      case False
      then have "p div 4096 \<noteq> i" using i by auto
      then show ?thesis using False pi bs by (auto simp: content_def put_bytes_def)
    qed
  qed
  have "apart s ?d ?s' ?d" using bd by (auto simp: apart_def db block_set bs file_blocks_def)
  with ok fo con i show ?thesis by (simp add: became_def db(2))
qed

lemma part_ok:
  assumes ok: "fs_ok s" and f: "file_ok s (din sin)" and i: "index \<le> dn_blocks (din sin)" "index < 1036"
    and room: "room (din sin) (Suc index) \<le> card (free_blocks s)"
    and len: "off < 4096" "off + len \<le> 4096" "pos + len \<le> length buf"
  obtains sin' s' where "sfs_io_part s sin buf pos len index off write =
      Some (0, if write then buf else splice buf pos (get_bytes (content s (din sin)) (index * 4096 + off) len), sin', s')"
    "became s sin (Suc index) (if write then put_bytes (content s (din sin)) (index * 4096 + off) (take len (drop pos buf))
      else content s (din sin)) s' sin'"
proof -
  from load_became [OF ok f i room] obtain sin1 s1 where l: "sfs_bmap_load_nolock s sin index = Some (0, blk_of s1 (din sin1) index, sin1, s1)"
    "became s sin (Suc index) (content s (din sin)) s1 sin1" by blast
  let ?b = "blk_of s1 (din sin1) index"
  note b1 = became_D(1-4) [OF l(2)]
  have ib: "index < dn_blocks (din sin1)" using b1(3) by simp
  have u: "used s1 ?b" by (rule file_okD(3) [OF b1(2) ib])
  then have ub: "0 < ?b" "?b < sb_blocks (super s1)" by (auto simp: used_def)
  have cb: "content s (din sin) (index * 4096 + j) = block_bytes s1 ?b ! j" if "j < 4096" for j
  proof -
    have "index * 4096 + j < 4096 * dn_blocks (din sin1)" using ib that by auto
    moreover have "(index * 4096 + j) div 4096 = index" "(index * 4096 + j) mod 4096 = j" using that by simp_all
    ultimately have "content s1 (din sin1) (index * 4096 + j) = block_bytes s1 ?b ! j" by (simp add: content_def)
    then show ?thesis using b1(4) by simp
  qed
  show thesis
  proof (cases "write")
    case False
    have "take len (drop off (block_bytes s1 ?b)) = get_bytes (content s (din sin)) (index * 4096 + off) len"
      by (rule nth_equalityI) (use len cb in \<open>auto simp: add.assoc\<close>)
    then have "sfs_io_part s sin buf pos len index off write =
        Some (0, splice buf pos (get_bytes (content s (din sin)) (index * 4096 + off) len), sin1, s1)"
      using False l(1) rbuf_ok [OF b1(1) ub len(1,2), of buf pos] by (simp add: sfs_io_part_def sfs_buf_op_def)
    with False l(2) show thesis by (intro that [of sin1 s1]) simp_all
  next
    case True
    let ?bs = "splice (block_bytes s1 ?b) off (take len (drop pos buf))"
    let ?s2 = "set_block s1 ?b ?bs"
    have lb: "length ?bs = 4096" using len by simp
    have "sfs_io_part s sin buf pos len index off write = Some (0, buf, sin1, ?s2)"
      using True l(1) wbuf_ok [OF b1(1) ub len] by (simp add: sfs_io_part_def sfs_buf_op_def)
    moreover have "became s1 sin1 (Suc index) (put_bytes (content s1 (din sin1)) (index * 4096) ?bs) ?s2 sin1"
      by (rule write_data_block [OF b1(1,2) ib lb])
    from became_trans [OF l(2) this] have "became s sin (Suc index) (put_bytes (content s1 (din sin1)) (index * 4096) ?bs) ?s2 sin1"
      by simp
    moreover have "put_bytes (content s1 (din sin1)) (index * 4096) ?bs
        = put_bytes (content s (din sin)) (index * 4096 + off) (take len (drop pos buf))"
    proof
      fix p
      show "put_bytes (content s1 (din sin1)) (index * 4096) ?bs p
        = put_bytes (content s (din sin)) (index * 4096 + off) (take len (drop pos buf)) p"
      proof (cases "index * 4096 \<le> p \<and> p < index * 4096 + 4096")
        case True
        then have j: "p - index * 4096 < 4096" "index * 4096 + (p - index * 4096) = p" by auto
        have c: "content s (din sin) p = block_bytes s1 ?b ! (p - index * 4096)" using cb [OF j(1)] j(2) by simp
        have o: "off + length (take len (drop pos buf)) \<le> length (block_bytes s1 ?b)" using len by simp
        have "off \<le> p - index * 4096 \<longleftrightarrow> index * 4096 + off \<le> p" "p - index * 4096 < off + len \<longleftrightarrow> p < index * 4096 + off + len"
          "p - index * 4096 - off = p - (index * 4096 + off)" using True by auto
        then show ?thesis using True lb len c nth_splice [OF o] j(1) b1(4) by (simp add: put_bytes_def)
      next
        case False
        then have "\<not> (index * 4096 + off \<le> p \<and> p < index * 4096 + off + len)" using len by auto
        then show ?thesis using False lb b1(4) len by (auto simp: put_bytes_def)
      qed
    qed
    ultimately show thesis using True by (intro that [of sin1 ?s2]) simp_all
  qed
qed

lemma room_mono: "m \<le> n \<Longrightarrow> room d m \<le> room d n"
  by (auto simp: room_def)

text \<open>What a transfer of \<open>len\<close> bytes at \<open>a\<close> leaves in the buffer at \<open>pos\<close>, and in the file.\<close>

definition moved :: "bool \<Rightarrow> (nat \<Rightarrow> byte) \<Rightarrow> byte list \<Rightarrow> nat \<Rightarrow> nat \<Rightarrow> nat \<Rightarrow> byte list" where
  "moved write f buf pos a len = (if write then buf else splice buf pos (get_bytes f a len))"

definition stored :: "bool \<Rightarrow> (nat \<Rightarrow> byte) \<Rightarrow> byte list \<Rightarrow> nat \<Rightarrow> nat \<Rightarrow> nat \<Rightarrow> nat \<Rightarrow> byte" where
  "stored write f buf pos a len = (if write then put_bytes f a (take len (drop pos buf)) else f)"

lemma moved_length [simp]: "pos + len \<le> length buf \<Longrightarrow> length (moved write f buf pos a len) = length buf"
  by (simp add: moved_def)

lemma moved_empty [simp]: "moved write f buf pos a 0 = buf"
  by (simp add: moved_def get_bytes_def)

lemma stored_empty [simp]: "stored write f buf pos a 0 = f"
  by (simp add: stored_def)

text \<open>Two transfers in a row.\<close>

lemma moved_moved:
  assumes "pos + m + n \<le> length buf"
  shows "moved write (stored write f buf pos a m) (moved write f buf pos a m) (pos + m) (a + m) n = moved write f buf pos a (m + n)"
  using assms splice_splice [of pos "get_bytes f a m" "get_bytes f (a + m) n" buf]
  by (simp add: moved_def stored_def get_bytes_append)

lemma stored_stored:
  assumes "pos + m + n \<le> length buf"
  shows "stored write (stored write f buf pos a m) (moved write f buf pos a m) (pos + m) (a + m) n = stored write f buf pos a (m + n)"
proof -
  have "take (m + n) (drop pos buf) = take m (drop pos buf) @ take n (drop (pos + m) buf)"
    by (simp add: take_add add.commute)
  moreover have "length (take m (drop pos buf)) = m" using assms by simp
  ultimately show ?thesis using put_put [of f a "take m (drop pos buf)" "take n (drop (pos + m) buf)"]
    by (simp add: moved_def stored_def)
qed

lemma part_moved:
  assumes ok: "fs_ok s" and f: "file_ok s (din sin)" and i: "index \<le> dn_blocks (din sin)" "index < 1036"
    and room: "room (din sin) (Suc index) \<le> card (free_blocks s)"
    and len: "off < 4096" "off + len \<le> 4096" "pos + len \<le> length buf"
  obtains sin' s' where "sfs_io_part s sin buf pos len index off write =
      Some (0, moved write (content s (din sin)) buf pos (index * 4096 + off) len, sin', s')"
    "became s sin (Suc index) (stored write (content s (din sin)) buf pos (index * 4096 + off) len) s' sin'"
  using part_ok [OF assms, of "write"] unfolding moved_def stored_def by blast

text \<open>Whole blocks go through the other routine, with the same effect.\<close>

lemma blocks_step:
  assumes ok: "fs_ok s" and f: "file_ok s (din sin)" and i: "blkno \<le> dn_blocks (din sin)" "blkno < 1036"
    and room: "room (din sin) (Suc blkno) \<le> card (free_blocks s)" and len: "pos + 4096 \<le> length buf"
    and part: "sfs_io_part s sin buf pos 4096 blkno 0 write = Some (0, buf', sin', s')"
  shows "sfs_io_blocks s sin buf pos blkno (Suc n) alen write = sfs_io_blocks s' sin' buf' (pos + 4096) (blkno + 1) n (alen + 4096) write"
proof -
  from load_became [OF ok f i room] obtain sin1 s1 where l: "sfs_bmap_load_nolock s sin blkno = Some (0, blk_of s1 (din sin1) blkno, sin1, s1)"
    "became s sin (Suc blkno) (content s (din sin)) s1 sin1" by blast
  let ?b = "blk_of s1 (din sin1) blkno"
  have "used s1 ?b" using file_okD(3) [OF became_D(2) [OF l(2)]] became_D(3) [OF l(2)] by simp
  then have ub: "0 < ?b" "?b < sb_blocks (super s1)" by (auto simp: used_def)
  have op: "sfs_block_op write s1 buf pos ?b 1 = sfs_buf_op write s1 buf pos 4096 ?b 0"
    using rblock_rbuf [OF became_D(1) [OF l(2)] ub len] wblock_wbuf [OF became_D(1) [OF l(2)] ub len]
    by (simp add: sfs_block_op_def sfs_buf_op_def)
  obtain r where r: "sfs_buf_op write s1 buf pos 4096 ?b 0 = Some (0, buf', s')" "sin' = sin1"
    using part l(1) by (auto simp: sfs_io_part_def split: prod.splits elim!: bind_SomeE)
  show ?thesis using l(1) op r by (simp add: SFS_BLKSIZE_def)
qed

lemma blocks_ok:
  assumes "fs_ok s" "file_ok s (din sin)" "blkno \<le> dn_blocks (din sin)" "blkno + n \<le> 1036"
    "room (din sin) (blkno + n) \<le> card (free_blocks s)" "pos + n * 4096 \<le> length buf"
  shows "\<exists>sin' s'. sfs_io_blocks s sin buf pos blkno n alen write =
      Some (0, alen + n * 4096, moved write (content s (din sin)) buf pos (blkno * 4096) (n * 4096), sin', s')
    \<and> became s sin (blkno + n) (stored write (content s (din sin)) buf pos (blkno * 4096) (n * 4096)) s' sin'"
  using assms
proof (induction n arbitrary: s sin buf pos blkno alen)
  case 0
  then show ?case using became_refl [of s sin blkno] by simp
next
  case (Suc n)
  let ?f = "content s (din sin)"
  have room: "room (din sin) (Suc blkno) \<le> card (free_blocks s)"
    using Suc.prems(5) room_mono [of "Suc blkno" "blkno + Suc n" "din sin"] by simp
  have len: "pos + 4096 \<le> length buf" using Suc.prems(6) by simp
  have b: "blkno < 1036" using Suc.prems(4) by simp
  from part_moved [OF Suc.prems(1-3) b room, of 0 4096 pos buf "write"] len obtain sin1 s1 where
    p: "sfs_io_part s sin buf pos 4096 blkno 0 write = Some (0, moved write ?f buf pos (blkno * 4096) 4096, sin1, s1)"
    "became s sin (Suc blkno) (stored write ?f buf pos (blkno * 4096) 4096) s1 sin1" by auto
  let ?buf = "moved write ?f buf pos (blkno * 4096) 4096"
  note st = blocks_step [OF Suc.prems(1-3) b room len p(1), of n alen]
  note d = became_D [OF p(2)]
  have "\<exists>sin' s'. sfs_io_blocks s1 sin1 ?buf (pos + 4096) (blkno + 1) n (alen + 4096) write =
      Some (0, alen + 4096 + n * 4096, moved write (content s1 (din sin1)) ?buf (pos + 4096) ((blkno + 1) * 4096) (n * 4096), sin', s')
    \<and> became s1 sin1 (blkno + 1 + n) (stored write (content s1 (din sin1)) ?buf (pos + 4096) ((blkno + 1) * 4096) (n * 4096)) s' sin'"
    by (rule Suc.IH [OF d(1,2)]) (use Suc.prems d(3,6) len in auto)
  then obtain sin' s' where q: "sfs_io_blocks s1 sin1 ?buf (pos + 4096) (blkno + 1) n (alen + 4096) write =
      Some (0, alen + 4096 + n * 4096, moved write (content s1 (din sin1)) ?buf (pos + 4096) ((blkno + 1) * 4096) (n * 4096), sin', s')"
    "became s1 sin1 (blkno + 1 + n) (stored write (content s1 (din sin1)) ?buf (pos + 4096) ((blkno + 1) * 4096) (n * 4096)) s' sin'"
    by blast
  have a: "(blkno + 1) * 4096 = blkno * 4096 + 4096" "Suc n * 4096 = 4096 + n * 4096" by simp_all
  have l: "pos + 4096 + n * 4096 \<le> length buf" using Suc.prems(6) by simp
  note mm = moved_moved [OF l, of "write" ?f "blkno * 4096"] stored_stored [OF l, of "write" ?f "blkno * 4096"]
  have "sfs_io_blocks s sin buf pos blkno (Suc n) alen write =
      Some (0, alen + Suc n * 4096, moved write ?f buf pos (blkno * 4096) (Suc n * 4096), sin', s')"
    unfolding st q(1) a d(4) mm by simp
  moreover have "became s sin (blkno + Suc n) (stored write ?f buf pos (blkno * 4096) (Suc n * 4096)) s' sin'"
    using became_trans [OF p(2) q(2)] unfolding a d(4) mm by simp
  ultimately show ?case by blast
qed

definition ends :: "nat \<Rightarrow> nat" where
  "ends endpos = (endpos + 4095) div 4096"

lemma tail_ok:
  assumes ok: "fs_ok s" "file_ok s (din sin)" "blkno \<le> dn_blocks (din sin)"
    and e: "blkno + n = endpos div 4096" "endpos \<le> 1036 * 4096"
    and room: "room (din sin) (ends endpos) \<le> card (free_blocks s)"
    and len: "alen + (endpos - blkno * 4096) \<le> length buf"
  shows "\<exists>sin' s'. sfs_io_tail s sin buf endpos blkno n alen write =
      Some (0, alen + (endpos - blkno * 4096), moved write (content s (din sin)) buf alen (blkno * 4096) (endpos - blkno * 4096), sin', s')
    \<and> became s sin (ends endpos) (stored write (content s (din sin)) buf alen (blkno * 4096) (endpos - blkno * 4096)) s' sin'"
proof -
  let ?f = "content s (din sin)" and ?r = "endpos mod 4096"
  have ep: "endpos = (blkno + n) * 4096 + ?r" unfolding e(1) by simp
  have el: "endpos - blkno * 4096 = n * 4096 + ?r" using ep by (simp add: add_mult_distrib)
  have en: "ends endpos = (if ?r = 0 then blkno + n else Suc (blkno + n))"
  proof -
    have up: "(q * 4096 + r + 4095) div 4096 = (if r = 0 then q else Suc q)" if "r < 4096" for q r :: nat
      using that by (auto simp: div_nat_eqI)
    have "ends endpos = ((blkno + n) * 4096 + ?r + 4095) div 4096" unfolding ends_def using arg_cong [OF ep, of "\<lambda>x. (x + 4095) div 4096"] .
    also have "\<dots> = (if ?r = 0 then blkno + n else Suc (blkno + n))" by (rule up) simp
    finally show ?thesis .
  qed
  have bn: "blkno + n \<le> 1036" using e by simp
  have r1: "room (din sin) (blkno + n) \<le> card (free_blocks s)"
    using room room_mono [of "blkno + n" "ends endpos" "din sin"] en by (simp split: if_splits)
  have l1: "alen + n * 4096 \<le> length buf" using len el by simp
  from blocks_ok [OF ok bn r1 l1, of alen "write"] obtain sin1 s1 where
    b: "sfs_io_blocks s sin buf alen blkno n alen write = Some (0, alen + n * 4096, moved write ?f buf alen (blkno * 4096) (n * 4096), sin1, s1)"
    "became s sin (blkno + n) (stored write ?f buf alen (blkno * 4096) (n * 4096)) s1 sin1" by blast
  note d = became_D [OF b(2)]
  show ?thesis
  proof (cases "?r = 0")
    case True
    then show ?thesis using b el en by (simp add: sfs_io_tail_def SFS_BLKSIZE_def)
  next
    case False
    let ?buf = "moved write ?f buf alen (blkno * 4096) (n * 4096)"
    have i: "blkno + n \<le> dn_blocks (din sin1)" "blkno + n < 1036" using d(3) bn ep e(2) False by auto
    have r2: "room (din sin1) (Suc (blkno + n)) \<le> card (free_blocks s1)" using d(6) room en False by simp
    have l2: "alen + n * 4096 + ?r \<le> length ?buf" using len el l1 by simp
    from part_moved [OF d(1,2) i r2, of 0 ?r "alen + n * 4096" ?buf "write"] l2 obtain sin' s' where
      p: "sfs_io_part s1 sin1 ?buf (alen + n * 4096) ?r (blkno + n) 0 write =
        Some (0, moved write (content s1 (din sin1)) ?buf (alen + n * 4096) ((blkno + n) * 4096) ?r, sin', s')"
      "became s1 sin1 (Suc (blkno + n)) (stored write (content s1 (din sin1)) ?buf (alen + n * 4096) ((blkno + n) * 4096) ?r) s' sin'"
      by auto
    have a: "(blkno + n) * 4096 = blkno * 4096 + n * 4096" by (simp add: add_mult_distrib)
    have l3: "alen + n * 4096 + ?r \<le> length buf" using len el by simp
    note mm = moved_moved [OF l3, of "write" ?f "blkno * 4096"] stored_stored [OF l3, of "write" ?f "blkno * 4096"]
    note p' = p [unfolded a d(4) mm]
    have "sfs_io_tail s sin buf endpos blkno n alen write =
        Some (0, alen + (endpos - blkno * 4096), moved write ?f buf alen (blkno * 4096) (endpos - blkno * 4096), sin', s')"
      unfolding el using b(1) p'(1) False by (simp add: sfs_io_tail_def SFS_BLKSIZE_def Let_def)
    moreover have "became s sin (ends endpos) (stored write ?f buf alen (blkno * 4096) (endpos - blkno * 4096)) s' sin'"
      unfolding el using became_trans [OF b(2) p'(2)] en False by simp
    ultimately show ?thesis by blast
  qed
qed

lemma range_ok:
  assumes ok: "fs_ok s" "file_ok s (din sin)"
    and o: "offset < endpos" "offset div 4096 \<le> dn_blocks (din sin)" "endpos \<le> 1036 * 4096"
    and room: "room (din sin) (ends endpos) \<le> card (free_blocks s)" and len: "endpos - offset \<le> length buf"
  shows "\<exists>sin' s'. sfs_io_range s sin buf offset endpos write =
      Some (0, endpos - offset, moved write (content s (din sin)) buf 0 offset (endpos - offset), sin', s')
    \<and> became s sin (ends endpos) (stored write (content s (din sin)) buf 0 offset (endpos - offset)) s' sin'"
proof -
  let ?b = "offset div 4096" and ?o = "offset mod 4096" and ?f = "content s (din sin)"
  let ?n = "endpos div 4096 - ?b"
  have off: "offset = ?b * 4096 + ?o" by simp
  have le: "?b \<le> endpos div 4096" using o(1) by (simp add: div_le_mono)
  show ?thesis
  proof (cases "?o = 0")
    case True
    then have ob: "?b * 4096 = offset" using off by simp
    have bn: "?b + ?n = endpos div 4096" using le by simp
    have "\<exists>sin' s'. sfs_io_tail s sin buf endpos ?b ?n 0 write =
        Some (0, 0 + (endpos - ?b * 4096), moved write ?f buf 0 (?b * 4096) (endpos - ?b * 4096), sin', s')
      \<and> became s sin (ends endpos) (stored write ?f buf 0 (?b * 4096) (endpos - ?b * 4096)) s' sin'"
      by (rule tail_ok [OF ok o(2) bn o(3) room]) (use len ob in simp)
    then show ?thesis using True unfolding ob by (simp add: sfs_io_range_def SFS_BLKSIZE_def Let_def)
  next
    case False
    define k where "k = (if ?n \<noteq> 0 then 4096 - ?o else endpos - offset)"
    have ol: "?o < 4096" by simp
    have kl: "?o + k \<le> 4096" "k \<le> endpos - offset" "0 < k"
    proof -
      show "?o + k \<le> 4096"
      proof (cases "?n = 0")
        case True
        then have "endpos div 4096 = ?b" using le by simp
        then have "endpos < ?b * 4096 + 4096" by (metis dividend_less_div_times zero_less_numeral add.commute mult_Suc)
        then have "?o + (endpos - offset) \<le> 4096" using off o(1) by linarith
        then show ?thesis using True by (simp add: k_def)
      qed (simp add: k_def)
      show "k \<le> endpos - offset"
      proof (cases "?n = 0")
        case False
        then have "Suc ?b * 4096 \<le> endpos" by (metis diff_is_0_eq not_less_eq_eq less_eq_div_iff_mult_less_eq zero_less_numeral)
        then have "4096 - ?o \<le> endpos - offset" using off o(1) unfolding mult_Suc by linarith
        then show ?thesis using False by (simp add: k_def)
      qed (simp add: k_def)
      show "0 < k" using o(1) ol by (simp add: k_def)
    qed
    have i: "?b < 1036" using o(1,3) by (simp add: div_less_iff_less_mult)
    have eb: "Suc ?b \<le> ends endpos" using o(1) off False unfolding ends_def
      by (simp add: less_eq_div_iff_mult_less_eq)
    have r1: "room (din sin) (Suc ?b) \<le> card (free_blocks s)"
      using room room_mono [OF eb, of "din sin"] by simp
    have l1: "0 + k \<le> length buf" using kl(2) len by simp
    from part_moved [OF ok o(2) i r1 ol kl(1) l1, of "write"] obtain sin1 s1 where
      p: "sfs_io_part s sin buf 0 k ?b ?o write = Some (0, moved write ?f buf 0 offset k, sin1, s1)"
      "became s sin (Suc ?b) (stored write ?f buf 0 offset k) s1 sin1" unfolding off [symmetric] by blast
    note d = became_D [OF p(2)]
    show ?thesis
    proof (cases "?n = 0")
      case True
      then have ke: "k = endpos - offset" by (simp add: k_def)
      have "ends endpos = Suc ?b"
      proof -
        have "endpos \<le> ?b * 4096 + 4096" using kl(1) ke off o(1) by linarith
        then have "ends endpos \<le> Suc ?b" unfolding ends_def by (simp add: div_le_mono less_Suc_eq_le [symmetric] div_less_iff_less_mult)
        then show ?thesis using eb by simp
      qed
      then show ?thesis using True False p ke by (simp add: sfs_io_range_def SFS_BLKSIZE_def k_def Let_def)
    next
      case n: False
      then have ke: "k = 4096 - ?o" by (simp add: k_def)
      have ko: "offset + k = Suc ?b * 4096" using ke off ol unfolding mult_Suc by linarith
      let ?buf = "moved write ?f buf 0 offset k"
      have rest: "endpos - Suc ?b * 4096 = endpos - offset - k" using ko by simp
      have bn: "Suc ?b + (?n - 1) = endpos div 4096" using n le by simp
      have "\<exists>sin' s'. sfs_io_tail s1 sin1 ?buf endpos (Suc ?b) (?n - 1) k write =
          Some (0, k + (endpos - Suc ?b * 4096), moved write (content s1 (din sin1)) ?buf k (Suc ?b * 4096) (endpos - Suc ?b * 4096), sin', s')
        \<and> became s1 sin1 (ends endpos) (stored write (content s1 (din sin1)) ?buf k (Suc ?b * 4096) (endpos - Suc ?b * 4096)) s' sin'"
        by (rule tail_ok [OF d(1,2) _ bn o(3)]) (use d(3,6) eb room len kl(2) rest l1 in auto)
      then obtain sin' s' where t: "sfs_io_tail s1 sin1 ?buf endpos (Suc ?b) (?n - 1) k write =
          Some (0, k + (endpos - offset - k), moved write (stored write ?f buf 0 offset k) ?buf (0 + k) (offset + k) (endpos - offset - k), sin', s')"
        "became s1 sin1 (ends endpos) (stored write (stored write ?f buf 0 offset k) ?buf (0 + k) (offset + k) (endpos - offset - k)) s' sin'"
        unfolding rest d(4) ko [symmetric] by auto
      have l: "0 + k + (endpos - offset - k) \<le> length buf" using kl(2) len by simp
      have whole: "k + (endpos - offset - k) = endpos - offset" using kl(2) by simp
      note mm = moved_moved [OF l, of "write" ?f offset] stored_stored [OF l, of "write" ?f offset]
      note t' = t [unfolded mm whole]
      have "sfs_io_range s sin buf offset endpos write = sfs_io_tail s1 sin1 ?buf endpos (Suc ?b) (?n - 1) k write"
        using False n p(1) ke by (simp add: sfs_io_range_def SFS_BLKSIZE_def Let_def)
      then show ?thesis using t'(1) became_trans [OF p(2) t'(2) eb] by auto
    qed
  qed
qed

end
