(* ===== verification/SfsIO.thy ===== *)
theory SfsIO
  imports SfsFile
begin

text \<open>
  What \<open>sfs_read\<close> and \<open>sfs_write\<close> do to the contents and the size of a file, and to the files
  beside it.
\<close>

text \<open>The file is \<open>len\<close> bytes at \<open>off\<close> longer, if it was shorter, and has the contents \<open>f\<close>.\<close>

definition grown :: "sfs_fs \<Rightarrow> sfs_inode \<Rightarrow> nat \<Rightarrow> (nat \<Rightarrow> byte) \<Rightarrow> sfs_fs \<Rightarrow> sfs_inode \<Rightarrow> bool" where
  "grown s sin endpos f s' sin' \<longleftrightarrow> fs_ok s' \<and> file_ok s' (din sin') \<and> content s' (din sin') = f
     \<and> dn_size (din sin') = max (dn_size (din sin)) endpos \<and> dn_blocks (din sin') = max (dn_blocks (din sin)) (ends endpos)
     \<and> dn_type (din sin') = dn_type (din sin) \<and> dn_nlinks (din sin') = dn_nlinks (din sin) \<and> sin_ino sin' = sin_ino sin
     \<and> reclaim_count sin' = reclaim_count sin \<and> sb_blocks (super s') = sb_blocks (super s)
     \<and> apart s (din sin) s' (din sin')
     \<and> free_blocks s' \<union> file_blocks s' (din sin') = free_blocks s \<union> file_blocks s (din sin)
     \<and> (\<forall>m \<ge> ends endpos. room (din sin) m \<le> card (free_blocks s) \<longrightarrow> room (din sin') m \<le> card (free_blocks s'))"

text \<open>What the buffer has become after \<open>len\<close> bytes.\<close>

definition consumed :: "iobuf \<Rightarrow> nat \<Rightarrow> byte list \<Rightarrow> iobuf" where
  "consumed iob len buf = iob\<lparr>io_buf := buf, io_base := io_base iob + len, io_offset := io_offset iob + int len, io_resid := io_resid iob - len\<rparr>"

text \<open>A request of \<open>len\<close> bytes at \<open>off\<close> the file system can serve: no hole before it, within the block map, and
  enough free blocks.\<close>

definition fits :: "sfs_fs \<Rightarrow> sfs_disk_inode \<Rightarrow> nat \<Rightarrow> nat \<Rightarrow> bool" where
  "fits s d off len \<longleftrightarrow> off div 4096 \<le> dn_blocks d \<and> off + len \<le> 1036 * 4096 \<and> room d (ends (off + len)) \<le> card (free_blocks s)"

definition request :: "iobuf \<Rightarrow> nat \<Rightarrow> nat \<Rightarrow> bool" where
  "request iob off len \<longleftrightarrow> 0 < len \<and> io_offset iob = int off \<and> io_resid iob = len \<and> io_base iob + len \<le> length (io_buf iob)"

lemma range_to_max: "off + len \<le> 1036 * 4096 \<Longrightarrow> signed_take_bit 63 (int off + int len) = int (off + len)"
  by (simp add: signed_take_bit_int_eq_self)

lemma file_cong:
  assumes "dn_direct d' = dn_direct d" "dn_indirect d' = dn_indirect d" "dn_blocks d' = dn_blocks d"
  shows "blk_of s d' = blk_of s d" "file_ok s d' = file_ok s d" "content s d' = content s d" "file_blocks s d' = file_blocks s d"
proof -
  show b: "blk_of s d' = blk_of s d" using assms by (simp add: blk_of_def fun_eq_iff)
  show "file_ok s d' = file_ok s d" "content s d' = content s d" "file_blocks s d' = file_blocks s d"
    using assms by (simp_all add: file_ok_def content_def file_blocks_def data_blocks_def b fun_eq_iff)
qed

lemma became_grown:
  assumes b: "became s sin (ends endpos) f s' sin'"
    and d: "dn_direct (din sin2) = dn_direct (din sin')" "dn_indirect (din sin2) = dn_indirect (din sin')" "dn_blocks (din sin2) = dn_blocks (din sin')"
      "dn_type (din sin2) = dn_type (din sin')" "dn_nlinks (din sin2) = dn_nlinks (din sin')" "sin_ino sin2 = sin_ino sin'" "reclaim_count sin2 = reclaim_count sin'"
    and sz: "dn_size (din sin2) = max (dn_size (din sin)) endpos"
  shows "grown s sin endpos f s' sin2"
proof -
  note c = file_cong [OF d(1-3), of s']
  have "apart s (din sin) s' (din sin2)" using b by (auto simp: became_def apart_def c)
  moreover have "room (din sin2) m = room (din sin') m" for m using d(2,3) by (simp add: room_def)
  ultimately show ?thesis using b sz d(3-7) by (simp add: became_def grown_def c)
qed

lemma io_nolock_ok:
  assumes ok: "fs_ok s" "file_ok s (din sin)" "dn_type (din sin) \<noteq> SFS_TYPE_DIR"
    and fit: "fits s (din sin) off len" "0 < len" "len \<le> length buf"
  shows "\<exists>sin' s'. sfs_io_nolock s sin buf (int off) len write = Some (0, len, moved write (content s (din sin)) buf 0 off len, sin', s')
    \<and> grown s sin (off + len) (stored write (content s (din sin)) buf 0 off len) s' sin'"
proof -
  let ?f = "content s (din sin)"
  have e: "off div 4096 \<le> dn_blocks (din sin)" "off + len \<le> 1036 * 4096" "room (din sin) (ends (off + len)) \<le> card (free_blocks s)"
    using fit(1) by (simp_all add: fits_def)
  have "\<exists>sin' s'. sfs_io_range s sin buf off (off + len) write = Some (0, off + len - off, moved write ?f buf 0 off (off + len - off), sin', s')
    \<and> became s sin (ends (off + len)) (stored write ?f buf 0 off (off + len - off)) s' sin'"
    by (rule range_ok [OF ok(1,2) _ e]) (use fit in auto)
  then obtain sin' s' where r: "sfs_io_range s sin buf off (off + len) write = Some (0, len, moved write ?f buf 0 off len, sin', s')"
    "became s sin (ends (off + len)) (stored write ?f buf 0 off len) s' sin'" by auto
  define sin2 where "sin2 = (if off + len > dn_size (din sin')
    then (set_din (\<lambda>d. d\<lparr>dn_size := off + len\<rparr>) sin')\<lparr>sin_dirty := True\<rparr> else sin')"
  have n: "nat (int off + int len) = off + len" by (simp add: nat_add_distrib)
  have g: "\<not> (int off < 0 \<or> int SFS_MAX_FILE_SIZE \<le> int off \<or> int (off + len) < int off)"
    "int off \<noteq> int (off + len)" "\<not> int SFS_MAX_FILE_SIZE < int (off + len)"
    using e(2) fit(2) by (simp_all add: SFS_MAX_FILE_SIZE_def)
  have "sfs_io_nolock s sin buf (int off) len write = Some (0, len, moved write ?f buf 0 off len, sin2, s')"
    using ok(3) g r(1) by (simp add: sfs_io_nolock_def range_to_max [OF e(2)] Let_def kassert_def n sin2_def)
  moreover have "grown s sin (off + len) (stored write ?f buf 0 off len) s' sin2"
    by (rule became_grown [OF r(2)]) (use r(2) in \<open>auto simp: sin2_def set_din_def became_def\<close>)
  ultimately show ?thesis by blast
qed

lemma io_ok:
  assumes ok: "fs_ok s" "file_ok s (din sin)" "dn_type (din sin) \<noteq> SFS_TYPE_DIR"
    and fit: "fits s (din sin) off len" "request iob off len"
  shows "\<exists>sin' s'. sfs_io s sin iob write = Some (0, consumed iob len (moved write (content s (din sin)) (io_buf iob) (io_base iob) off len), sin', s')
    \<and> grown s sin (off + len) (stored write (content s (din sin)) (io_buf iob) (io_base iob) off len) s' sin'"
proof -
  let ?f = "content s (din sin)" and ?rest = "drop (io_base iob) (io_buf iob)"
  have q: "0 < len" "io_offset iob = int off" "io_resid iob = len" "io_base iob + len \<le> length (io_buf iob)"
    using fit(2) by (simp_all add: request_def)
  have "len \<le> length ?rest" using q(4) by simp
  from io_nolock_ok [OF ok fit(1) q(1) this, of "write"] obtain sin' s' where
    n: "sfs_io_nolock s sin ?rest (int off) len write = Some (0, len, moved write ?f ?rest 0 off len, sin', s')"
    "grown s sin (off + len) (stored write ?f ?rest 0 off len) s' sin'" by blast
  have m: "take (io_base iob) (io_buf iob) @ moved write ?f ?rest 0 off len = moved write ?f (io_buf iob) (io_base iob) off len"
    using q(4) by (simp add: moved_def splice_def add.commute)
  have st: "stored write ?f ?rest 0 off len = stored write ?f (io_buf iob) (io_base iob) off len"
    by (simp add: stored_def)
  have "sfs_io s sin iob write = Some (0, consumed iob len (moved write ?f (io_buf iob) (io_base iob) off len), sin', s')"
    using q n(1) by (simp add: sfs_io_def m iobuf_skip_def consumed_def Let_def)
  then show ?thesis using n(2) st by auto
qed

text \<open>C15: A write of \<open>len > 0\<close> bytes at \<open>off\<close> of a consistent file that is not a directory, for which there is room (it starts in a block
  of the file or in the next one, ends within the 1036 blocks of the block map, and finds enough free blocks), succeeds: the contents of the file become
  the old ones with exactly those bytes replaced, the file grows to the end of the request if it was
  shorter (allocating the blocks it needs and no others: the free blocks and those of the file are
  together the same as before), and no block of another file changes.\<close>

theorem sfs_write_stores:
  assumes "fs_ok s" "file_ok s (din sin)" "dn_type (din sin) \<noteq> SFS_TYPE_DIR" "fits s (din sin) off len" "request iob off len"
  shows "\<exists>sin' s'. sfs_write s sin iob = Some (0, consumed iob len (io_buf iob), sin', s')
    \<and> grown s sin (off + len) (put_bytes (content s (din sin)) off (take len (drop (io_base iob) (io_buf iob)))) s' sin'"
  using io_ok [OF assms, of True] by (simp add: sfs_write_def moved_def stored_def)


lemma grown_fits: "grown s sin (off + len) f s' sin' \<Longrightarrow> off + len \<le> 1036 * 4096 \<Longrightarrow> fits s' (din sin') off len"
  unfolding fits_def grown_def room_def ends_def by (auto simp: div_le_mono le_max_iff_disj)

text \<open>Where the whole of a request can be served, the rest of it can after its first part.\<close>

lemma grown_fits_rest:
  assumes "grown s sin (off + len) f s' sin'" "fits s (din sin) off (len + r)"
  shows "fits s' (din sin') (off + len) r"
proof -
  have "ends (off + len) \<le> ends (off + (len + r))" by (simp add: ends_def div_le_mono)
  then have "room (din sin') (ends (off + (len + r))) \<le> card (free_blocks s')" using assms by (simp add: grown_def fits_def)
  moreover have "(off + len) div 4096 \<le> ends (off + len)" by (simp add: ends_def div_le_mono)
  ultimately show ?thesis using assms by (auto simp: grown_def fits_def add.assoc)
qed

text \<open>What has been written is read back: a read of the same range, into any buffer, returns exactly the
  bytes of the preceding write.\<close>

theorem sfs_write_read:
  assumes "fs_ok s" "file_ok s (din sin)" "dn_type (din sin) \<noteq> SFS_TYPE_DIR" "fits s (din sin) off len"
    "request iob off len" "request iob2 off len"
  shows "\<exists>iob' sin' s' sin'' s''. sfs_write s sin iob = Some (0, iob', sin', s')
    \<and> sfs_read s' sin' iob2
      = Some (0, consumed iob2 len (splice (io_buf iob2) (io_base iob2) (take len (drop (io_base iob) (io_buf iob)))), sin'', s'')
    \<and> content s'' (din sin'') = content s' (din sin') \<and> dn_size (din sin'') = dn_size (din sin')"
proof -
  let ?bs = "take len (drop (io_base iob) (io_buf iob))"
  from io_ok [OF assms(1-5), of True] obtain sin' s' where
    w: "sfs_io s sin iob True = Some (0, consumed iob len (io_buf iob), sin', s')"
    "grown s sin (off + len) (put_bytes (content s (din sin)) off ?bs) s' sin'"
    by (auto simp: moved_def stored_def)
  have k: "fs_ok s'" "file_ok s' (din sin')" "dn_type (din sin') \<noteq> SFS_TYPE_DIR" "content s' (din sin') = put_bytes (content s (din sin)) off ?bs"
    "off + len \<le> dn_size (din sin')"
    using w(2) assms(3) by (auto simp: grown_def)
  have "fits s' (din sin') off len" by (rule grown_fits [OF w(2)]) (use assms(4) in \<open>simp add: fits_def\<close>)
  from io_ok [OF k(1-3) this assms(6), of False] obtain sin'' s'' where
    r: "sfs_io s' sin' iob2 False
      = Some (0, consumed iob2 len (splice (io_buf iob2) (io_base iob2) (get_bytes (content s' (din sin')) off len)), sin'', s'')"
    "grown s' sin' (off + len) (content s' (din sin')) s'' sin''"
    by (auto simp: moved_def stored_def)
  have "len = length ?bs" using assms(5) by (auto simp: request_def)
  then have "get_bytes (content s' (din sin')) off len = ?bs" unfolding k(4) by (rule get_put_same)
  then show ?thesis using w(1) r k(5) by (auto simp: sfs_write_def sfs_read_def grown_def)
qed

lemma load_hole: "dn_blocks (din sin) < index \<Longrightarrow> sfs_bmap_load_nolock s sin index = None"
  by (simp add: sfs_bmap_load_nolock_def kassert_def)

lemma tail_hole:
  assumes "dn_blocks (din sin) < blkno" "endpos div 4096 = blkno + n" "0 < n \<or> endpos mod 4096 \<noteq> 0"
  shows "sfs_io_tail s sin buf endpos blkno n alen write = None"
  using assms load_hole [of sin blkno s]
  by (cases n) (simp_all add: sfs_io_tail_def sfs_io_part_def SFS_BLKSIZE_def Let_def)

lemma io_refuses:
  shows "dn_type (din sin) \<noteq> SFS_TYPE_DIR \<Longrightarrow> io_offset iob < 0 \<or> int SFS_MAX_FILE_SIZE \<le> io_offset iob \<Longrightarrow>
      io_base iob \<le> length (io_buf iob) \<Longrightarrow> sfs_io s sin iob write = Some (- E_INVAL, iob, sin, s)"
    and "dn_type (din sin) \<noteq> SFS_TYPE_DIR \<Longrightarrow> io_resid iob = 0 \<Longrightarrow> 0 \<le> io_offset iob \<Longrightarrow> io_offset iob < int SFS_MAX_FILE_SIZE \<Longrightarrow>
      sfs_io s sin iob write = Some (0, iob, sin, s)"
    and "io_offset iob = int off \<Longrightarrow> off + io_resid iob \<le> SFS_MAX_FILE_SIZE \<Longrightarrow> 0 < io_resid iob \<Longrightarrow> dn_blocks (din sin) < off div 4096 \<Longrightarrow>
      sfs_io s sin iob write = None"
    and "dn_type (din sin) = SFS_TYPE_DIR \<Longrightarrow> sfs_io s sin iob write = None"
proof -
  show "sfs_io s sin iob write = Some (- E_INVAL, iob, sin, s)"
    if "dn_type (din sin) \<noteq> SFS_TYPE_DIR" "io_offset iob < 0 \<or> int SFS_MAX_FILE_SIZE \<le> io_offset iob" "io_base iob \<le> length (io_buf iob)"
    using that by (auto simp: sfs_io_def sfs_io_nolock_def kassert_def Let_def)
  show "sfs_io s sin iob write = Some (0, iob, sin, s)"
    if "dn_type (din sin) \<noteq> SFS_TYPE_DIR" "io_resid iob = 0" "0 \<le> io_offset iob" "io_offset iob < int SFS_MAX_FILE_SIZE"
  proof -
    have "signed_take_bit 63 (io_offset iob) = io_offset iob" using that(3,4) by (simp add: signed_take_bit_int_eq_self SFS_MAX_FILE_SIZE_def)
    then show ?thesis using that by (simp add: sfs_io_def sfs_io_nolock_def kassert_def Let_def)
  qed
  show "sfs_io s sin iob write = None"
    if "io_offset iob = int off" "off + io_resid iob \<le> SFS_MAX_FILE_SIZE" "0 < io_resid iob" "dn_blocks (din sin) < off div 4096"
  proof (cases "dn_type (din sin) = SFS_TYPE_DIR")
    case False
    let ?len = "io_resid iob"
    have e: "signed_take_bit 63 (int off + int ?len) = int (off + ?len)"
      using that(2) by (simp add: signed_take_bit_int_eq_self SFS_MAX_FILE_SIZE_def)
    have n: "nat (int off + int ?len) = off + ?len" by (simp add: nat_add_distrib)
    have "sfs_io_range s sin buf off (off + ?len) write = None" for buf
    proof (cases "off mod 4096 = 0")
      case False
      then show ?thesis using load_hole [OF that(4), of s] by (simp add: sfs_io_range_def sfs_io_part_def SFS_BLKSIZE_def Let_def)
    next
      case True
      have le: "off div 4096 \<le> (off + ?len) div 4096" by (simp add: div_le_mono)
      have "0 < (off + ?len) div 4096 - off div 4096 \<or> (off + ?len) mod 4096 \<noteq> 0"
      proof (rule ccontr)
        assume "\<not> ?thesis"
        then have "(off + ?len) div 4096 = off div 4096" "(off + ?len) mod 4096 = off mod 4096" using le True by simp_all
        then have "off + ?len = off" by (metis div_mult_mod_eq)
        then show False using that(3) by simp
      qed
      then have "sfs_io_tail s sin buf (off + ?len) (off div 4096) ((off + ?len) div 4096 - off div 4096) 0 write = None"
        by (intro tail_hole that(4)) (use le in auto)
      then show ?thesis using True by (simp add: sfs_io_range_def SFS_BLKSIZE_def Let_def)
    qed
    then show ?thesis using False that(1-3) by (simp add: sfs_io_def sfs_io_nolock_def e n kassert_def Let_def)
  qed (simp add: sfs_io_def sfs_io_nolock_def kassert_def)
  show "dn_type (din sin) = SFS_TYPE_DIR \<Longrightarrow> sfs_io s sin iob write = None"
    by (simp add: sfs_io_def sfs_io_nolock_def kassert_def)
qed

text \<open>The requests \<open>sfs_read\<close> and \<open>sfs_write\<close> do not serve: a negative offset, or one at or beyond 128 MB, is
  refused with \<open>E_INVAL\<close> and changes nothing; an empty request does nothing; and an offset that leaves a
  hole of at least one block behind the end of the file is a panic, as is any request on a directory.\<close>

theorem sfs_io_refuses:
  "(dn_type (din sin) \<noteq> SFS_TYPE_DIR \<and> (io_offset iob < 0 \<or> int SFS_MAX_FILE_SIZE \<le> io_offset iob) \<and> io_base iob \<le> length (io_buf iob) \<longrightarrow>
      sfs_io s sin iob write = Some (- E_INVAL, iob, sin, s))
   \<and> (dn_type (din sin) \<noteq> SFS_TYPE_DIR \<and> io_resid iob = 0 \<and> 0 \<le> io_offset iob \<and> io_offset iob < int SFS_MAX_FILE_SIZE \<longrightarrow>
      sfs_io s sin iob write = Some (0, iob, sin, s))
   \<and> (io_offset iob = int off \<and> off + io_resid iob \<le> SFS_MAX_FILE_SIZE \<and> 0 < io_resid iob \<and> dn_blocks (din sin) < off div 4096 \<longrightarrow>
      sfs_io s sin iob write = None)
   \<and> (dn_type (din sin) = SFS_TYPE_DIR \<longrightarrow> sfs_io s sin iob write = None)"
  by (intro conjI impI) (((elim conjE)?, rule io_refuses, assumption+)+)

section \<open>A file system of eight blocks\<close>

definition demo_sfs :: sfs_fs where
  "demo_sfs = \<lparr>super = \<lparr>sb_magic = 0x2f8dbe2a, sb_blocks = 8, sb_unused_blocks = 4, sb_info = replicate 32 0\<rparr>,
     sfs_dev = \<lparr>dev_size = 64, dev_image = \<lambda>i. of_nat (i mod 256), d_blocks = 8, d_blocksize = 4096\<rparr>,
     freemap = \<lparr>nbits = 32, nwords = 1, bmap_words = [0xF0]\<rparr>, super_dirty = False\<rparr>"

definition demo_file :: sfs_inode where
  "demo_file = \<lparr>din = \<lparr>dn_size = 0, dn_type = 1, dn_nlinks = 1, dn_blocks = 0, dn_direct = replicate 12 0, dn_indirect = 0\<rparr>,
     sin_ino = 3, sin_dirty = False, reclaim_count = 1\<rparr>"

definition demo_iob :: "byte \<Rightarrow> iobuf" where
  "demo_iob b = iobuf_init (replicate 100 b) 0 100 30"

lemma demo_free: "free_bits (freemap demo_sfs) = {4, 5, 6, 7}"
proof -
  have "free_bits (freemap demo_sfs) = set (filter (\<lambda>i. bit (0xF0 :: 32 word) i) [0..<32])"
    by (auto simp: free_bits_def demo_sfs_def)
  also have "\<dots> = {4, 5, 6, 7}" by code_simp
  finally show ?thesis .
qed

lemma demo_sfs_ok: "fs_ok demo_sfs" "file_ok demo_sfs (din demo_file)"
proof -
  have "bitmap_ok (freemap demo_sfs)" by (simp add: bitmap_ok_def demo_sfs_def)
  then show "fs_ok demo_sfs" unfolding fs_ok_def demo_free by (simp add: demo_sfs_def dev_ok_def MAX_DISK_NSECS_def)
  show "file_ok demo_sfs (din demo_file)" by (auto simp: file_ok_def demo_file_def blk_of_def data_blocks_def)
qed

lemma demo_request: "request (demo_iob b) 30 100" "fits demo_sfs (din demo_file) 30 100" "dn_type (din demo_file) \<noteq> SFS_TYPE_DIR"
  by (simp_all add: request_def demo_iob_def iobuf_init_def fits_def room_def ends_def free_blocks_def demo_free demo_file_def SFS_TYPE_DIR_def)

theorem sfs_write_stores_witness:
  "\<exists>sin' s'. sfs_write demo_sfs demo_file (demo_iob 7) = Some (0, consumed (demo_iob 7) 100 (replicate 100 7), sin', s')
    \<and> dn_size (din sin') = 130 \<and> dn_blocks (din sin') = 1"
  using sfs_write_stores [OF demo_sfs_ok demo_request(3,2,1), of 7]
  by (auto simp: grown_def ends_def demo_file_def demo_iob_def iobuf_init_def)


theorem sfs_write_read_witness:
  "\<exists>iob' sin' s' iob'' sin'' s''. sfs_write demo_sfs demo_file (demo_iob 7) = Some (0, iob', sin', s')
    \<and> sfs_read s' sin' (demo_iob 0) = Some (0, iob'', sin'', s'') \<and> io_buf iob'' = replicate 100 7"
  using sfs_write_read [OF demo_sfs_ok demo_request(3,2,1) demo_request(1), of 7 0]
  by (fastforce simp: demo_iob_def iobuf_init_def consumed_def splice_def)

theorem sfs_io_refuses_witness:
  "sfs_io demo_sfs demo_file (demo_iob 7\<lparr>io_offset := -1\<rparr>) True = Some (- E_INVAL, demo_iob 7\<lparr>io_offset := -1\<rparr>, demo_file, demo_sfs)
    \<and> sfs_io demo_sfs demo_file (demo_iob 7\<lparr>io_offset := 5000\<rparr>) True = None"
  using sfs_io_refuses [of demo_file "demo_iob 7\<lparr>io_offset := -1\<rparr>" demo_sfs True 0]
    sfs_io_refuses [of demo_file "demo_iob 7\<lparr>io_offset := 5000\<rparr>" demo_sfs True 5000]
  by (simp add: demo_file_def demo_iob_def iobuf_init_def SFS_TYPE_DIR_def SFS_MAX_FILE_SIZE_def)

end
