(* ===== verification/SfsInode.thy ===== *)
theory SfsInode
  imports SfsIO
begin

text \<open>
  The operations of \<open>kern/fs/sfs/sfs_inode.c\<close> on one file besides reading and writing: its type and
  status, writing the inode to its disk block (\<open>sfs_fsync\<close>), the check of a seek, and changing the
  length (\<open>sfs_truncfile\<close>). The semaphore of the inode is not part of the model.
\<close>

section \<open>Type and status\<close>

definition S_IFREG :: nat where "S_IFREG = 4096"
definition S_IFDIR :: nat where "S_IFDIR = 8192"
definition S_IFLNK :: nat where "S_IFLNK = 12288"

record stat =
  st_mode :: nat
  st_nlinks :: nat
  st_blocks :: nat
  st_size :: nat

definition sfs_gettype :: "sfs_inode \<Rightarrow> (int \<times> nat) option" where
  "sfs_gettype sin =
     (let t = dn_type (din sin) in
      if t = SFS_TYPE_DIR then Some (0, S_IFDIR)
      else if t = SFS_TYPE_FILE then Some (0, S_IFREG)
      else if t = SFS_TYPE_LINK then Some (0, S_IFLNK)
      else None)"

definition sfs_fstat :: "sfs_inode \<Rightarrow> (int \<times> stat) option" where
  "sfs_fstat sin = do {
     let stat = \<lparr>st_mode = 0, st_nlinks = 0, st_blocks = 0, st_size = 0\<rparr>;
     (ret, mode) \<leftarrow> sfs_gettype sin;
     if ret \<noteq> 0 then Some (ret, stat)
     else Some (0, stat\<lparr>st_mode := mode, st_nlinks := dn_nlinks (din sin), st_blocks := dn_blocks (din sin), st_size := dn_size (din sin)\<rparr>)
   }"

section \<open>The inode on the disk\<close>

text \<open>The bytes of \<open>struct sfs_disk_inode\<close>, and reading them back.\<close>

definition SFS_DINODE_SIZE :: nat where "SFS_DINODE_SIZE = 64"

definition dinode_bytes :: "sfs_disk_inode \<Rightarrow> byte list" where
  "dinode_bytes d = to_le 4 (dn_size d) @ to_le 2 (dn_type d) @ to_le 2 (dn_nlinks d) @ to_le 4 (dn_blocks d)
     @ concat (map (to_le 4) (dn_direct d)) @ to_le 4 (dn_indirect d)"

fun words_of :: "nat \<Rightarrow> byte list \<Rightarrow> nat list" where
  "words_of 0 bs = []"
| "words_of (Suc n) bs = from_le (take 4 bs) # words_of n (drop 4 bs)"

definition dinode_of :: "byte list \<Rightarrow> sfs_disk_inode" where
  "dinode_of bs = \<lparr>dn_size = from_le (take 4 bs), dn_type = from_le (take 2 (drop 4 bs)), dn_nlinks = from_le (take 2 (drop 6 bs)),
     dn_blocks = from_le (take 4 (drop 8 bs)), dn_direct = words_of SFS_NDIRECT (drop 12 bs), dn_indirect = from_le (take 4 (drop 60 bs))\<rparr>"

definition sfs_fsync :: "sfs_fs \<Rightarrow> sfs_inode \<Rightarrow> (int \<times> sfs_inode \<times> sfs_fs) option" where
  "sfs_fsync s sin =
     (if sin_dirty sin then do {
        let sin = sin\<lparr>sin_dirty := False\<rparr>;
        (ret, _, s) \<leftarrow> sfs_wbuf s (dinode_bytes (din sin)) 0 SFS_DINODE_SIZE (sin_ino sin) 0;
        if ret \<noteq> 0 then Some (ret, sin\<lparr>sin_dirty := True\<rparr>, s) else Some (0, sin, s)
      } else Some (0, sin, s))"

section \<open>Changing the length\<close>

definition ROUNDUP_DIV :: "nat \<Rightarrow> nat \<Rightarrow> nat" where
  "ROUNDUP_DIV a n = (a + n - 1) div n"

text \<open>The two loops of \<open>sfs_truncfile\<close>.\<close>

partial_function (option) trunc_grow :: "sfs_fs \<Rightarrow> sfs_inode \<Rightarrow> nat \<Rightarrow> nat \<Rightarrow> (int \<times> sfs_inode \<times> sfs_fs) option" where
  "trunc_grow s sin nblks tblks =
     (if nblks \<noteq> tblks then do {
        (ret, ino, sin, s) \<leftarrow> sfs_bmap_load_nolock s sin nblks;
        if ret \<noteq> 0 then Some (ret, sin, s) else trunc_grow s sin (nblks + 1) tblks
      } else Some (0, sin, s))"

partial_function (option) trunc_shrink :: "sfs_fs \<Rightarrow> sfs_inode \<Rightarrow> nat \<Rightarrow> nat \<Rightarrow> (int \<times> sfs_inode \<times> sfs_fs) option" where
  "trunc_shrink s sin nblks tblks =
     (if tblks \<noteq> nblks then do {
        (ret, sin, s) \<leftarrow> sfs_bmap_truncate_nolock s sin;
        if ret \<noteq> 0 then Some (ret, sin, s) else trunc_shrink s sin (nblks - 1) tblks
      } else Some (0, sin, s))"

definition sfs_truncfile :: "sfs_fs \<Rightarrow> sfs_inode \<Rightarrow> int \<Rightarrow> (int \<times> sfs_inode \<times> sfs_fs) option" where
  "sfs_truncfile s sin len =
     (if len < 0 \<or> len > int SFS_MAX_FILE_SIZE then Some (- E_INVAL, sin, s)
      else do {
        let tblks = ROUNDUP_DIV (nat len) SFS_BLKSIZE;
        if int (dn_size (din sin)) = len then do { kassert (tblks = dn_blocks (din sin)); Some (0, sin, s) }
        else do {
          let nblks = dn_blocks (din sin);
          (ret, sin, s) \<leftarrow> (if nblks < tblks then trunc_grow s sin nblks tblks
                        else if tblks < nblks then trunc_shrink s sin nblks tblks
                        else Some (0, sin, s));
          if ret \<noteq> 0 then Some (ret, sin, s)
          else do {
            kassert (dn_blocks (din sin) = tblks);
            Some (0, (set_din (\<lambda>d. d\<lparr>dn_size := nat len\<rparr>) sin)\<lparr>sin_dirty := True\<rparr>, s)
          }
        }
      })"

definition sfs_tryseek :: "sfs_fs \<Rightarrow> sfs_inode \<Rightarrow> int \<Rightarrow> (int \<times> sfs_inode \<times> sfs_fs) option" where
  "sfs_tryseek s sin pos =
     (if pos < 0 \<or> pos \<ge> int SFS_MAX_FILE_SIZE then Some (- E_INVAL, sin, s)
      else if pos > int (dn_size (din sin)) then sfs_truncfile s sin pos
      else Some (0, sin, s))"

section \<open>Round trip of the inode\<close>

definition dinode_fits :: "sfs_disk_inode \<Rightarrow> bool" where
  "dinode_fits d \<longleftrightarrow> dn_size d < 2 ^ 32 \<and> dn_type d < 2 ^ 16 \<and> dn_nlinks d < 2 ^ 16 \<and> dn_blocks d < 2 ^ 32
     \<and> length (dn_direct d) = 12 \<and> (\<forall>b \<in> set (dn_direct d). b < 2 ^ 32) \<and> dn_indirect d < 2 ^ 32"

lemma length_dinode_bytes [simp]: "length (dn_direct d) = 12 \<Longrightarrow> length (dinode_bytes d) = 64"
  by (simp add: dinode_bytes_def length_concat comp_def sum_list_triv)

lemma words_of_bytes: "\<forall>b \<in> set bs. b < 2 ^ 32 \<Longrightarrow> words_of (length bs) (concat (map (to_le 4) bs) @ rest) = bs"
  by (induction bs) (simp_all add: from_to_le)

lemma dinode_of_bytes:
  assumes "dinode_fits d"
  shows "dinode_of (dinode_bytes d @ rest) = d"
proof -
  have l: "length (concat (map (to_le 4) (dn_direct d))) = 48"
    using assms by (simp add: dinode_fits_def length_concat comp_def sum_list_triv)
  have w: "words_of 12 (concat (map (to_le 4) (dn_direct d)) @ xs) = dn_direct d" for xs
    using words_of_bytes [of "dn_direct d" xs] assms by (simp add: dinode_fits_def)
  show ?thesis using assms unfolding dinode_of_def dinode_bytes_def SFS_NDIRECT_def append_assoc
    by (simp add: dinode_fits_def from_to_le l w)
qed

lemma fsync_ok:
  assumes ok: "fs_ok s" and u: "used s (sin_ino sin)" and d: "dinode_fits (din sin)" and y: "sin_dirty sin"
  shows "sfs_fsync s sin = Some (0, sin\<lparr>sin_dirty := False\<rparr>,
    set_block s (sin_ino sin) (splice (block_bytes s (sin_ino sin)) 0 (dinode_bytes (din sin))))"
proof -
  have l: "length (dinode_bytes (din sin)) = 64" using d by (simp add: dinode_fits_def)
  then show ?thesis using wbuf_ok [OF ok, of "sin_ino sin" 0 64 0 "dinode_bytes (din sin)"] u y
    by (simp add: sfs_fsync_def SFS_DINODE_SIZE_def used_def)
qed

lemma dinode_of_splice:
  assumes "dinode_fits d" "length bs = 4096"
  shows "dinode_of (splice bs 0 (dinode_bytes d)) = d"
  using dinode_of_bytes [OF assms(1), of "drop 64 bs"] assms by (simp add: splice_def dinode_fits_def)

section \<open>Dropping the last block\<close>

text \<open>What remains of a file cut to \<open>n\<close> blocks; the others go back to the free map.\<close>

definition cut :: "sfs_fs \<Rightarrow> sfs_inode \<Rightarrow> nat \<Rightarrow> sfs_fs \<Rightarrow> sfs_inode \<Rightarrow> bool" where
  "cut s sin n s' sin' \<longleftrightarrow> fs_ok s' \<and> file_ok s' (din sin') \<and> dn_blocks (din sin') = n
     \<and> content s' (din sin') = (\<lambda>p. if p < 4096 * n then content s (din sin) p else 0)
     \<and> dn_size (din sin') = dn_size (din sin) \<and> dn_type (din sin') = dn_type (din sin) \<and> dn_nlinks (din sin') = dn_nlinks (din sin)
     \<and> sin_ino sin' = sin_ino sin \<and> reclaim_count sin' = reclaim_count sin
     \<and> apart s (din sin) s' (din sin') \<and> sb_blocks (super s') = sb_blocks (super s)
     \<and> free_blocks s' \<union> file_blocks s' (din sin') = free_blocks s \<union> file_blocks s (din sin)
     \<and> dn_indirect (din sin') = dn_indirect (din sin)"

lemma cut_refl: "fs_ok s \<Longrightarrow> file_ok s (din sin) \<Longrightarrow> cut s sin (dn_blocks (din sin)) s sin"
  by (auto simp: cut_def apart_def content_def fun_eq_iff)

lemma cut_trans:
  assumes "cut s sin n s1 sin1" "cut s1 sin1 m s2 sin2" "m \<le> n"
  shows "cut s sin m s2 sin2"
  using assms by (auto simp: cut_def apart_def fun_eq_iff)

lemma drop_last:
  assumes ok': "fs_ok s'" and f: "file_ok s (din sin)" and n: "dn_blocks (din sin) = Suc n"
    and b: "b = blk_of s (din sin) n" and fr: "free_blocks s' = insert b (free_blocks s)" and sb: "sb_blocks (super s') = sb_blocks (super s)"
    and keep: "\<And>c. c \<noteq> dn_indirect (din sin) \<Longrightarrow> block_bytes s' c = block_bytes s c"
    and blk: "\<And>j. j < 1036 \<Longrightarrow> blk_of s' (din sin') j = (if j = n then 0 else blk_of s (din sin) j)"
    and d: "length (dn_direct (din sin')) = 12" "dn_blocks (din sin') = n" "dn_indirect (din sin') = dn_indirect (din sin)"
      "dn_size (din sin') = dn_size (din sin)" "dn_type (din sin') = dn_type (din sin)" "dn_nlinks (din sin') = dn_nlinks (din sin)"
      "sin_ino sin' = sin_ino sin" "reclaim_count sin' = reclaim_count sin"
  shows "cut s sin n s' sin'"
proof -
  let ?d = "din sin" and ?d' = "din sin'"
  have n36: "n < 1036" using file_okD(2) [OF f] n by simp
  have eqj: "blk_of s' ?d' j = blk_of s ?d j" if "j < n" for j using blk [of j] that n36 by simp
  have inj: "inj_on (blk_of s ?d) {..<Suc n}" using file_okD(4) [OF f] n by simp
  have nb: "blk_of s ?d j \<noteq> b" if "j < n" for j
    using inj_onD [OF inj, of j n] that b by auto
  have us: "used s' c" if "used s c" "c \<noteq> b" for c using that fr sb by (simp add: used_def)
  have ub: "used s b" using file_okD(3) [OF f, of n] n b by simp
  have ib: "dn_indirect ?d \<noteq> 0 \<Longrightarrow> dn_indirect ?d \<noteq> b" using file_okD(7) [OF f] n b by (auto simp: data_blocks_def)
  have db: "data_blocks s' ?d' = data_blocks s ?d - {b}"
  proof -
    have "data_blocks s' ?d' = blk_of s ?d ` {..<n}" unfolding data_blocks_def d(2) by (rule image_cong) (use eqj in auto)
    moreover have "data_blocks s ?d = insert b (blk_of s ?d ` {..<n})" by (simp add: data_blocks_def n lessThan_Suc b)
    moreover have "b \<notin> blk_of s ?d ` {..<n}" using nb by auto
    ultimately show ?thesis by auto
  qed
  have fb: "file_blocks s' ?d' = file_blocks s ?d - {b}"
    using ib by (auto simp: file_blocks_def db d(3))
  have bf: "b \<in> file_blocks s ?d" using n b by (auto simp: file_blocks_def data_blocks_def)
  have fo: "file_ok s' ?d'"
    unfolding file_ok_def db d(2,3)
  proof (intro conjI allI impI)
    show "length (dn_direct ?d') = 12" "n \<le> 1036" using d(1) n36 by simp_all
    show "used s' (blk_of s' ?d' i)" if "i < n" for i
      using that eqj nb us file_okD(3) [OF f, of i] n by simp
    show "inj_on (blk_of s' ?d') {..<n}"
      using inj eqj by (simp add: inj_on_def)
    show "blk_of s' ?d' i = 0" if "n \<le> i \<and> i < 1036" for i
      using that blk [of i] file_okD(5) [OF f, of i] n by (cases "i = n") auto
    show "used s' (dn_indirect ?d)" "dn_indirect ?d \<notin> data_blocks s ?d - {b}" if "dn_indirect ?d \<noteq> 0"
      using that us ib file_okD(6,7) [OF f] by auto
  qed
  have con: "content s' ?d' = (\<lambda>p. if p < 4096 * n then content s ?d p else 0)"
  proof
    fix p
    show "content s' ?d' p = (if p < 4096 * n then content s ?d p else 0)"
    proof (cases "p < 4096 * n")
      case True
      then have j: "p div 4096 < n" by (simp add: div_less_iff_less_mult mult.commute)
      then have "blk_of s ?d (p div 4096) \<in> data_blocks s ?d" "used s (blk_of s ?d (p div 4096))"
        using n file_okD(3) [OF f] by (auto simp: data_blocks_def)
      then have "blk_of s ?d (p div 4096) \<noteq> dn_indirect ?d"
        using file_okD(7) [OF f] by (cases "dn_indirect ?d = 0") (auto simp: used_def)
      then show ?thesis using True keep eqj [OF j] by (simp add: content_def d(2) n)
    qed (simp add: content_def d(2))
  qed
  have ap: "apart s ?d s' ?d'"
    unfolding apart_def fb
  proof (intro allI impI)
    fix c assume c: "used s c \<and> c \<notin> file_blocks s ?d"
    then have "c \<noteq> dn_indirect ?d" by (auto simp: used_def file_blocks_def split: if_splits)
    then show "used s' c \<and> c \<notin> file_blocks s ?d - {b} \<and> block_bytes s' c = block_bytes s c"
      using c bf us keep by auto
  qed
  have "free_blocks s' \<union> file_blocks s' ?d' = free_blocks s \<union> file_blocks s ?d"
    unfolding fb fr using bf by auto
  then show ?thesis unfolding cut_def using ok' fo con ap sb d(2-8) by simp
qed

lemma bmap_truncate_ok:
  assumes ok: "fs_ok s" and f: "file_ok s (din sin)" and n: "dn_blocks (din sin) = Suc n"
  obtains sin' s' where "sfs_bmap_truncate_nolock s sin = Some (0, sin', s')" "cut s sin n s' sin'"
proof -
  let ?d = "din sin"
  define b where "b = blk_of s ?d n"
  have ub: "used s b" using file_okD(3) [OF f, of n] n by (simp add: b_def)
  then have nz: "b \<noteq> 0" by (simp add: used_def)
  have len: "length (dn_direct ?d) = 12" by (rule file_okD(1) [OF f])
  show thesis
  proof (cases "n < 12")
    case True
    from block_free_ok [OF ok ub] obtain s' where s': "sfs_block_free s b = Some s'" "fs_ok s'" "free_blocks s' = insert b (free_blocks s)"
      "sb_blocks (super s') = sb_blocks (super s)" "\<And>c. block_bytes s' c = block_bytes s c" by blast
    define sin' where "sin' = (set_din (\<lambda>d. d\<lparr>dn_blocks := dn_blocks d - 1\<rparr>)
      ((set_din (\<lambda>d. d\<lparr>dn_direct := (dn_direct d)[n := 0]\<rparr>) sin)\<lparr>sin_dirty := True\<rparr>))\<lparr>sin_dirty := True\<rparr>"
    have bd: "b = dn_direct ?d ! n" using True by (simp add: b_def blk_of_def)
    have "sfs_bmap_truncate_nolock s sin = Some (0, sin', s')"
      using s'(1) n True nz bd by (simp add: sfs_bmap_truncate_nolock_def sfs_bmap_free_nolock_def SFS_NDIRECT_def sin'_def Let_def)
    moreover have "cut s sin n s' sin'"
    proof (rule drop_last [OF s'(2) f n b_def s'(3,4)])
      show "blk_of s' (din sin') j = (if j = n then 0 else blk_of s ?d j)" if "j < 1036" for j
        using True len s'(5) by (auto simp: blk_of_def sin'_def set_din_def entry_def)
    qed (use s'(5) len n in \<open>simp_all add: sin'_def set_din_def\<close>)
    ultimately show thesis by (rule that)
  next
    case False
    let ?ent = "dn_indirect ?d" and ?k = "n - 12"
    have k: "?k < 1024" "?k + 12 = n" using file_okD(2) [OF f] n False by linarith+
    have ent: "?ent \<noteq> 0" using nz False by (auto simp: b_def blk_of_def split: if_splits)
    have ue: "used s ?ent" using file_okD(6) [OF f] ent by simp
    have be: "b = entry s ?ent ?k" using False ent by (simp add: b_def blk_of_def)
    let ?s1 = "set_entry s ?ent ?k 0"
    have ok1: "fs_ok ?s1" "used ?s1 b" using ok ub by simp_all
    from block_free_ok [OF ok1] obtain s' where s': "sfs_block_free ?s1 b = Some s'" "fs_ok s'" "free_blocks s' = insert b (free_blocks ?s1)"
      "sb_blocks (super s') = sb_blocks (super ?s1)" "\<And>c. block_bytes s' c = block_bytes ?s1 c" by blast
    define sin' where "sin' = (set_din (\<lambda>d. d\<lparr>dn_blocks := dn_blocks d - 1\<rparr>) sin)\<lparr>sin_dirty := True\<rparr>"
    have "sfs_bmap_truncate_nolock s sin = Some (0, sin', s')"
      using s'(1) n False nz ent k(1) inuse_used [OF ok ue] read_entry_ok [OF ok ue k(1)] write_entry_ok [OF ok ue k(1), of 0] be
      by (simp add: sfs_bmap_truncate_nolock_def sfs_bmap_free_nolock_def sfs_bmap_free_sub_nolock_def SFS_NDIRECT_def
          SFS_BLK_NENTRY_def SFS_BLKSIZE_def sin'_def Let_def)
    moreover have "cut s sin n s' sin'"
    proof (rule drop_last [OF s'(2) f n b_def])
      show "free_blocks s' = insert b (free_blocks s)" "sb_blocks (super s') = sb_blocks (super s)" using s'(3,4) by simp_all
      show "block_bytes s' c = block_bytes s c" if "c \<noteq> ?ent" for c using s'(5) set_entry_block [OF k(1) that] by simp
      show "blk_of s' (din sin') j = (if j = n then 0 else blk_of s ?d j)" if "j < 1036" for j
      proof (cases "j < 12")
        case True
        then show ?thesis using False by (simp add: blk_of_def sin'_def set_din_def)
      next
        case j: False
        then have jk: "j - 12 < 1024" "j - 12 = ?k \<longleftrightarrow> j = n" using that False by linarith+
        have "entry s' ?ent (j - 12) = entry ?s1 ?ent (j - 12)" by (rule entry_cong) (rule s'(5))
        then show ?thesis using j ent jk entry_set [OF k(1) jk(1), of 0 s ?ent] by (simp add: blk_of_def sin'_def set_din_def)
      qed
    qed (use len n in \<open>simp_all add: sin'_def set_din_def\<close>)
    ultimately show thesis by (rule that)
  qed
qed

section \<open>The loops\<close>

lemma trunc_shrink_ok:
  assumes "fs_ok s" "file_ok s (din sin)" "dn_blocks (din sin) = n" "m \<le> n"
  shows "\<exists>sin' s'. trunc_shrink s sin n m = Some (0, sin', s') \<and> cut s sin m s' sin'"
  using assms
proof (induction "n - m" arbitrary: s sin n)
  case 0
  then show ?case using cut_refl [of s sin] by (simp add: trunc_shrink.simps)
next
  case (Suc k)
  obtain n' where n': "n = Suc n'" "m \<le> n'" using Suc.hyps(2) by (cases n) auto
  from bmap_truncate_ok [OF Suc.prems(1,2), of n'] Suc.prems(3) n'(1) obtain sin1 s1 where
    t: "sfs_bmap_truncate_nolock s sin = Some (0, sin1, s1)" "cut s sin n' s1 sin1" by blast
  have "\<exists>sin' s'. trunc_shrink s1 sin1 n' m = Some (0, sin', s') \<and> cut s1 sin1 m s' sin'"
    by (rule Suc.hyps(1)) (use Suc.hyps(2) n' t(2) in \<open>auto simp: cut_def\<close>)
  then obtain sin' s' where r: "trunc_shrink s1 sin1 n' m = Some (0, sin', s')" "cut s1 sin1 m s' sin'" by blast
  have "trunc_shrink s sin n m = Some (0, sin', s')"
    using t(1) r(1) n' by (subst trunc_shrink.simps) simp
  then show ?case using cut_trans [OF t(2) r(2) n'(2)] by blast
qed

lemma trunc_grow_ok:
  assumes "fs_ok s" "file_ok s (din sin)" "dn_blocks (din sin) = n" "n \<le> m" "m \<le> 1036" "room (din sin) m \<le> card (free_blocks s)"
  shows "\<exists>sin' s'. trunc_grow s sin n m = Some (0, sin', s') \<and> became s sin m (content s (din sin)) s' sin'"
  using assms
proof (induction "m - n" arbitrary: s sin n)
  case 0
  then show ?case using became_refl [of s sin m] by (simp add: trunc_grow.simps)
next
  case (Suc k)
  have lt: "n < m" using Suc.hyps(2) by simp
  have "room (din sin) (Suc n) \<le> card (free_blocks s)" using Suc.prems(6) room_mono [of "Suc n" m "din sin"] lt by simp
  from load_became [OF Suc.prems(1,2), of n] this lt Suc.prems obtain sin1 s1 where
    t: "sfs_bmap_load_nolock s sin n = Some (0, blk_of s1 (din sin1) n, sin1, s1)" "became s sin (Suc n) (content s (din sin)) s1 sin1"
    by (metis le_refl less_le_trans)
  note d = became_D [OF t(2)]
  have "\<exists>sin' s'. trunc_grow s1 sin1 (Suc n) m = Some (0, sin', s') \<and> became s1 sin1 m (content s1 (din sin1)) s' sin'"
    by (rule Suc.hyps(1)) (use Suc.hyps(2) Suc.prems lt d in auto)
  then obtain sin' s' where r: "trunc_grow s1 sin1 (Suc n) m = Some (0, sin', s')" "became s1 sin1 m (content s1 (din sin1)) s' sin'" by blast
  have "trunc_grow s sin n m = Some (0, sin', s')"
    using t(1) r(1) lt by (subst trunc_grow.simps) simp
  then show ?case using became_trans [OF t(2) r(2)] lt d(4) by auto
qed

text \<open>The file is \<open>len\<close> bytes long, with the old contents as far as its blocks go.\<close>

definition resized :: "sfs_fs \<Rightarrow> sfs_inode \<Rightarrow> nat \<Rightarrow> sfs_fs \<Rightarrow> sfs_inode \<Rightarrow> bool" where
  "resized s sin len s' sin' \<longleftrightarrow> fs_ok s' \<and> file_ok s' (din sin') \<and> dn_size (din sin') = len \<and> dn_blocks (din sin') = ends len
     \<and> content s' (din sin') = (\<lambda>p. if p < 4096 * ends len then content s (din sin) p else 0)
     \<and> dn_type (din sin') = dn_type (din sin) \<and> dn_nlinks (din sin') = dn_nlinks (din sin)
     \<and> sin_ino sin' = sin_ino sin \<and> reclaim_count sin' = reclaim_count sin \<and> sb_blocks (super s') = sb_blocks (super s)
     \<and> apart s (din sin) s' (din sin')
     \<and> free_blocks s' \<union> file_blocks s' (din sin') = free_blocks s \<union> file_blocks s (din sin)"

lemma became_resized:
  assumes "became s sin (ends len) (content s (din sin)) s' sin'" "dn_blocks (din sin) \<le> ends len"
  shows "resized s sin len s' ((set_din (\<lambda>d. d\<lparr>dn_size := len\<rparr>) sin')\<lparr>sin_dirty := True\<rparr>)"
proof -
  let ?d = "(din sin')\<lparr>dn_size := len\<rparr>"
  note c = file_cong [of ?d "din sin'" s', simplified]
  have "content s (din sin) = (\<lambda>p. if p < 4096 * ends len then content s (din sin) p else 0)"
    using assms(2) by (auto simp: content_def fun_eq_iff)
  then show ?thesis using assms unfolding resized_def became_def apart_def by (simp add: set_din_def c max_def)
qed

lemma cut_resized:
  assumes "cut s sin (ends len) s' sin'"
  shows "resized s sin len s' ((set_din (\<lambda>d. d\<lparr>dn_size := len\<rparr>) sin')\<lparr>sin_dirty := True\<rparr>)"
proof -
  let ?d = "(din sin')\<lparr>dn_size := len\<rparr>"
  note c = file_cong [of ?d "din sin'" s', simplified]
  show ?thesis using assms unfolding resized_def cut_def apart_def by (simp add: set_din_def c)
qed

lemma resized_refl:
  "fs_ok s \<Longrightarrow> file_ok s (din sin) \<Longrightarrow> dn_size (din sin) = len \<Longrightarrow> dn_blocks (din sin) = ends len \<Longrightarrow> resized s sin len s sin"
  by (auto simp: resized_def apart_def content_def fun_eq_iff)

lemma truncfile_ok:
  assumes ok: "fs_ok s" "file_ok s (din sin)" and sz: "dn_blocks (din sin) = ends (dn_size (din sin))"
    and len: "len \<le> 1036 * 4096" and room: "room (din sin) (ends len) \<le> card (free_blocks s)"
  shows "\<exists>sin' s'. sfs_truncfile s sin (int len) = Some (0, sin', s') \<and> resized s sin len s' sin'"
proof -
  let ?n = "dn_blocks (din sin)"
  have r: "ROUNDUP_DIV len SFS_BLKSIZE = ends len" by (simp add: ROUNDUP_DIV_def SFS_BLKSIZE_def ends_def)
  have l: "\<not> len > SFS_MAX_FILE_SIZE" using len by (simp add: SFS_MAX_FILE_SIZE_def)
  have e: "ends len \<le> 1036" using len div_le_mono [of "len + 4095" "1036 * 4096 + 4095" 4096] by (simp add: ends_def)
  show ?thesis
  proof (cases "dn_size (din sin) = len")
    case True
    then show ?thesis using resized_refl [OF ok True] sz r l by (simp add: sfs_truncfile_def Let_def)
  next
    case ne: False
    show ?thesis
    proof (cases "ends len \<le> ?n")
      case True
      from trunc_shrink_ok [OF ok refl True] obtain sin' s' where t: "trunc_shrink s sin ?n (ends len) = Some (0, sin', s')" "cut s sin (ends len) s' sin'"
        by blast
      have d: "dn_blocks (din sin') = ends len" using t(2) by (simp add: cut_def)
      have "sfs_truncfile s sin (int len) = Some (0, (set_din (\<lambda>d. d\<lparr>dn_size := len\<rparr>) sin')\<lparr>sin_dirty := True\<rparr>, s')"
        using t(1) d True ne l r by (cases "ends len = ?n") (simp_all add: sfs_truncfile_def Let_def trunc_shrink.simps)
      then show ?thesis using cut_resized [OF t(2)] by blast
    next
      case False
      then have le: "?n \<le> ends len" by simp
      from trunc_grow_ok [OF ok refl le e room] obtain sin' s' where t: "trunc_grow s sin ?n (ends len) = Some (0, sin', s')"
        "became s sin (ends len) (content s (din sin)) s' sin'" by blast
      have d: "dn_blocks (din sin') = ends len" using t(2) le by (simp add: became_def)
      have "sfs_truncfile s sin (int len) = Some (0, (set_din (\<lambda>d. d\<lparr>dn_size := len\<rparr>) sin')\<lparr>sin_dirty := True\<rparr>, s')"
        using t(1) d False ne l r by (simp add: sfs_truncfile_def Let_def)
      then show ?thesis using became_resized [OF t(2) le] by blast
    qed
  qed
qed

text \<open>C17: \<open>sfs_truncfile\<close> sets the length of a consistent file that has exactly the blocks of its size, on a consistent file system. To a
  new length within the 1036 blocks of the block map, with enough free blocks for those it adds, it returns 0, gives the file exactly
  the blocks of the new length, keeps the contents of the blocks that
  stay, fills new ones with zeros, returns the others to the free map (no block is lost or taken twice),
  and changes no block of another file. A length that is negative or above 128 MB is refused. The condition on the blocks cannot be
  dropped: a file with more blocks than its size needs panics when it is set to the size it has (\<open>truncfile_untidy_panics\<close>).\<close>

theorem sfs_truncfile_resizes:
  assumes "fs_ok s" "file_ok s (din sin)" "dn_blocks (din sin) = ends (dn_size (din sin))"
    and "0 \<le> len \<and> len \<le> int SFS_MAX_FILE_SIZE \<longrightarrow> len \<le> 1036 * 4096 \<and> room (din sin) (ends (nat len)) \<le> card (free_blocks s)"
  shows "if len < 0 \<or> len > int SFS_MAX_FILE_SIZE then sfs_truncfile s sin len = Some (- E_INVAL, sin, s)
    else \<exists>sin' s'. sfs_truncfile s sin len = Some (0, sin', s') \<and> resized s sin (nat len) s' sin'"
proof (cases "len < 0 \<or> len > int SFS_MAX_FILE_SIZE")
  case True
  then show ?thesis by (simp add: sfs_truncfile_def)
next
  case False
  then obtain n where n: "len = int n" by (metis nonneg_int_cases not_le)
  then show ?thesis using truncfile_ok [OF assms(1-3), of n] assms(4) False by simp
qed

theorem sfs_truncfile_resizes_witness:
  "\<exists>sin' s'. sfs_truncfile demo_sfs demo_file 5000 = Some (0, sin', s') \<and> dn_blocks (din sin') = 2 \<and> dn_size (din sin') = 5000
    \<and> free_blocks s' \<union> file_blocks s' (din sin') = {4, 5, 6, 7}"
proof -
  have "dn_blocks (din demo_file) = ends (dn_size (din demo_file))" "room (din demo_file) (ends 5000) \<le> card (free_blocks demo_sfs)"
    "\<not> ((5000 :: int) < 0 \<or> 5000 > int SFS_MAX_FILE_SIZE)" "file_blocks demo_sfs (din demo_file) = {}"
    by (simp_all add: demo_file_def ends_def room_def free_blocks_def demo_free SFS_MAX_FILE_SIZE_def file_blocks_def data_blocks_def)
  then show ?thesis using sfs_truncfile_resizes [OF demo_sfs_ok, of 5000]
    by (auto simp: resized_def ends_def free_blocks_def demo_free)
qed

text \<open>A failed growth leaves blocks behind: the file then has more blocks than its size says, and setting
  it to the size it already has is a panic.\<close>

lemma truncfile_untidy_panics:
  "0 \<le> len \<Longrightarrow> len \<le> int SFS_MAX_FILE_SIZE \<Longrightarrow> int (dn_size (din sin)) = len \<Longrightarrow> dn_blocks (din sin) \<noteq> ends (nat len) \<Longrightarrow>
   sfs_truncfile s sin len = None"
  by (auto simp: sfs_truncfile_def Let_def ROUNDUP_DIV_def SFS_BLKSIZE_def ends_def)

lemma tryseek_cases:
  "pos < 0 \<or> pos \<ge> int SFS_MAX_FILE_SIZE \<Longrightarrow> sfs_tryseek s sin pos = Some (- E_INVAL, sin, s)"
  "0 \<le> pos \<Longrightarrow> pos < int SFS_MAX_FILE_SIZE \<Longrightarrow> pos \<le> int (dn_size (din sin)) \<Longrightarrow> sfs_tryseek s sin pos = Some (0, sin, s)"
  "pos < int SFS_MAX_FILE_SIZE \<Longrightarrow> int (dn_size (din sin)) < pos \<Longrightarrow> sfs_tryseek s sin pos = sfs_truncfile s sin pos"
  by (auto simp: sfs_tryseek_def)

end
