(* ===== verification/Strings.thy ===== *)
theory Strings
  imports Bytes "HOL-Library.List_Lexorder"
begin

text \<open>
  The string library, \<open>libs/string.c\<close> and \<open>kern/libs/string.c\<close>. Memory is a map from addresses to
  bytes, and addresses are natural numbers: a string does not reach the end of the address space.
  \<open>char\<close> is an unsigned byte, as in the RISC-V ABI. A loop that runs until it meets a byte is a
  \<open>partial_function\<close>: \<open>None\<close> is the loop that never ends.
\<close>

type_synonym mem = "nat \<Rightarrow> byte"

definition asc :: "char \<Rightarrow> byte" where
  "asc c = of_char c"

section \<open>strlen to strcat\<close>

partial_function (option) strlen_loop :: "mem \<Rightarrow> nat \<Rightarrow> nat \<Rightarrow> nat option" where
  "strlen_loop m s cnt = (if m s \<noteq> 0 then strlen_loop m (s + 1) (cnt + 1) else Some cnt)"

definition strlen :: "mem \<Rightarrow> nat \<Rightarrow> nat option" where
  "strlen m s = strlen_loop m s 0"

function strnlen_loop :: "mem \<Rightarrow> nat \<Rightarrow> nat \<Rightarrow> nat \<Rightarrow> nat" where
  "strnlen_loop m s cnt len = (if cnt < len \<and> m s \<noteq> 0 then strnlen_loop m (s + 1) (cnt + 1) len else cnt)"
  by pat_completeness auto
termination by (relation "measure (\<lambda>(m, s, cnt, len). len - cnt)") auto

declare strnlen_loop.simps [simp del]

definition strnlen :: "mem \<Rightarrow> nat \<Rightarrow> nat \<Rightarrow> nat" where
  "strnlen m s len = strnlen_loop m s 0 len"

partial_function (option) strcpy_loop :: "mem \<Rightarrow> nat \<Rightarrow> nat \<Rightarrow> mem option" where
  "strcpy_loop m p src = (let m' = m(p := m src) in if m src \<noteq> 0 then strcpy_loop m' (p + 1) (src + 1) else Some m')"

definition strcpy :: "mem \<Rightarrow> nat \<Rightarrow> nat \<Rightarrow> (nat \<times> mem) option" where
  "strcpy m dst src = do { m \<leftarrow> strcpy_loop m dst src; Some (dst, m) }"

fun strncpy_loop :: "mem \<Rightarrow> nat \<Rightarrow> nat \<Rightarrow> nat \<Rightarrow> mem" where
  "strncpy_loop m p src 0 = m"
| "strncpy_loop m p src (Suc len) = strncpy_loop (m(p := m src)) (p + 1) (if m src \<noteq> 0 then src + 1 else src) len"

definition strncpy :: "mem \<Rightarrow> nat \<Rightarrow> nat \<Rightarrow> nat \<Rightarrow> nat \<times> mem" where
  "strncpy m dst src len = (dst, strncpy_loop m dst src len)"

definition strcat :: "mem \<Rightarrow> nat \<Rightarrow> nat \<Rightarrow> (nat \<times> mem) option" where
  "strcat m dst src = do { n \<leftarrow> strlen m dst; strcpy m (dst + n) src }"

section \<open>strcmp to strfind\<close>

definition byte_diff :: "byte \<Rightarrow> byte \<Rightarrow> int" where
  "byte_diff a b = uint a - uint b"

partial_function (option) strcmp :: "mem \<Rightarrow> nat \<Rightarrow> nat \<Rightarrow> int option" where
  "strcmp m s1 s2 = (if m s1 \<noteq> 0 \<and> m s1 = m s2 then strcmp m (s1 + 1) (s2 + 1) else Some (byte_diff (m s1) (m s2)))"

fun strncmp :: "mem \<Rightarrow> nat \<Rightarrow> nat \<Rightarrow> nat \<Rightarrow> int" where
  "strncmp m s1 s2 0 = 0"
| "strncmp m s1 s2 (Suc n) = (if m s1 \<noteq> 0 \<and> m s1 = m s2 then strncmp m (s1 + 1) (s2 + 1) n else byte_diff (m s1) (m s2))"

text \<open>The result \<open>None\<close> of the inner type is the null pointer.\<close>

partial_function (option) strchr :: "mem \<Rightarrow> nat \<Rightarrow> byte \<Rightarrow> nat option option" where
  "strchr m s c = (if m s \<noteq> 0 then if m s = c then Some (Some s) else strchr m (s + 1) c else Some None)"

partial_function (option) strfind :: "mem \<Rightarrow> nat \<Rightarrow> byte \<Rightarrow> nat option" where
  "strfind m s c = (if m s \<noteq> 0 then if m s = c then Some s else strfind m (s + 1) c else Some s)"

section \<open>strtol\<close>

partial_function (option) skip_blanks :: "mem \<Rightarrow> nat \<Rightarrow> nat option" where
  "skip_blanks m s = (if m s = asc CHR '' '' \<or> m s = asc CHR 0x09 then skip_blanks m (s + 1) else Some s)"

definition digit_value :: "byte \<Rightarrow> nat option" where
  "digit_value c =
     (if asc CHR ''0'' \<le> c \<and> c \<le> asc CHR ''9'' then Some (unat (c - asc CHR ''0''))
      else if asc CHR ''a'' \<le> c \<and> c \<le> asc CHR ''z'' then Some (unat (c - asc CHR ''a'') + 10)
      else if asc CHR ''A'' \<le> c \<and> c \<le> asc CHR ''Z'' then Some (unat (c - asc CHR ''A'') + 10)
      else None)"

text \<open>\<open>long\<close> has 64 bits and wraps: the code does not detect overflow.\<close>

partial_function (option) strtol_digits :: "mem \<Rightarrow> nat \<Rightarrow> nat \<Rightarrow> 64 word \<Rightarrow> (64 word \<times> nat) option" where
  "strtol_digits m s base val =
     (case digit_value (m s) of
        None \<Rightarrow> Some (val, s)
      | Some dig \<Rightarrow> if dig \<ge> base then Some (val, s) else strtol_digits m (s + 1) base (val * of_nat base + of_nat dig))"

text \<open>The result, and the position stored in \<open>endptr\<close>.\<close>

definition strtol :: "mem \<Rightarrow> nat \<Rightarrow> nat \<Rightarrow> (64 word \<times> nat) option" where
  "strtol m s base = do {
     s \<leftarrow> skip_blanks m s;
     let (s, neg) = (if m s = asc CHR ''+'' then (s + 1, False) else if m s = asc CHR ''-'' then (s + 1, True) else (s, False));
     let (s, base) = (if (base = 0 \<or> base = 16) \<and> m s = asc CHR ''0'' \<and> m (s + 1) = asc CHR ''x'' then (s + 2, 16)
       else if base = 0 \<and> m s = asc CHR ''0'' then (s + 1, 8)
       else if base = 0 then (s, 10) else (s, base));
     (val, s) \<leftarrow> strtol_digits m s base 0;
     Some (if neg then - val else val, s)
   }"

section \<open>Blocks of memory\<close>

fun memset :: "mem \<Rightarrow> nat \<Rightarrow> byte \<Rightarrow> nat \<Rightarrow> mem" where
  "memset m p c 0 = m"
| "memset m p c (Suc n) = memset (m(p := c)) (p + 1) c n"

fun copy_up :: "mem \<Rightarrow> nat \<Rightarrow> nat \<Rightarrow> nat \<Rightarrow> mem" where
  "copy_up m d s 0 = m"
| "copy_up m d s (Suc n) = copy_up (m(d := m s)) (d + 1) (s + 1) n"

text \<open>\<open>d\<close> and \<open>s\<close> point behind the \<open>n\<close> bytes still to be copied.\<close>

fun copy_down :: "mem \<Rightarrow> nat \<Rightarrow> nat \<Rightarrow> nat \<Rightarrow> mem" where
  "copy_down m d s 0 = m"
| "copy_down m d s (Suc n) = copy_down (m(d - 1 := m (s - 1))) (d - 1) (s - 1) n"

definition memmove :: "mem \<Rightarrow> nat \<Rightarrow> nat \<Rightarrow> nat \<Rightarrow> mem" where
  "memmove m dst src n = (if src < dst \<and> src + n > dst then copy_down m (dst + n) (src + n) n else copy_up m dst src n)"

definition memcpy :: "mem \<Rightarrow> nat \<Rightarrow> nat \<Rightarrow> nat \<Rightarrow> mem" where
  "memcpy m dst src n = copy_up m dst src n"

fun memcmp :: "mem \<Rightarrow> nat \<Rightarrow> nat \<Rightarrow> nat \<Rightarrow> int" where
  "memcmp m s1 s2 0 = 0"
| "memcmp m s1 s2 (Suc n) = (if m s1 \<noteq> m s2 then byte_diff (m s1) (m s2) else memcmp m (s1 + 1) (s2 + 1) n)"

section \<open>kern/libs/string.c\<close>

text \<open>\<open>p\<close> is what \<open>kmalloc\<close> returns, zero if there is no memory.\<close>

definition strdup :: "mem \<Rightarrow> nat \<Rightarrow> nat \<Rightarrow> (nat \<times> mem) option" where
  "strdup m src p = do {
     len \<leftarrow> strlen m src;
     Some (p, if p \<noteq> 0 then (memcpy m p src len)(p + len := 0) else m)
   }"

definition stradd :: "mem \<Rightarrow> nat \<Rightarrow> nat \<Rightarrow> nat \<Rightarrow> (nat \<times> mem) option" where
  "stradd m src1 src2 p = do {
     len1 \<leftarrow> strlen m src1;
     len2 \<leftarrow> strlen m src2;
     Some (p, if p \<noteq> 0 then (memcpy (memcpy m p src1 len1) (p + len1) src2 len2)(p + len1 + len2 := 0) else m)
   }"

section \<open>Copying\<close>

lemma put_get: "put_bytes m d (get_bytes m' s n) x = (if d \<le> x \<and> x < d + n then m' (s + (x - d)) else m x)"
  by (auto simp: put_bytes_def less_diff_conv2 add.commute)

lemma copy_up_ok: "d \<le> s \<or> s + n \<le> d \<Longrightarrow> copy_up m d s n = put_bytes m d (get_bytes m s n)"
proof (induction n arbitrary: m d s)
  case (Suc n)
  have IH: "copy_up (m(d := m s)) (d + 1) (s + 1) n = put_bytes (m(d := m s)) (d + 1) (get_bytes (m(d := m s)) (s + 1) n)"
    by (rule Suc.IH) (use Suc.prems in auto)
  show ?case
  proof
    fix x
    have "x \<noteq> d \<Longrightarrow> d \<le> x \<Longrightarrow> s + 1 + (x - (d + 1)) = s + (x - d)" by linarith
    then show "copy_up m d s (Suc n) x = put_bytes m d (get_bytes m s (Suc n)) x"
      using Suc.prems unfolding copy_up.simps IH put_get by auto
  qed
qed (simp add: get_bytes_def)

lemma copy_down_ok: "s < d \<Longrightarrow> copy_down m (d + n) (s + n) n = put_bytes m d (get_bytes m s n)"
proof (induction n arbitrary: m)
  case (Suc n)
  have IH: "copy_down (m(d + n := m (s + n))) (d + n) (s + n) n
      = put_bytes (m(d + n := m (s + n))) d (get_bytes (m(d + n := m (s + n))) s n)"
    by (rule Suc.IH [OF Suc.prems])
  show ?case
  proof
    fix x
    have "copy_down m (d + Suc n) (s + Suc n) (Suc n) x = put_bytes (m(d + n := m (s + n))) d (get_bytes (m(d + n := m (s + n))) s n) x"
      using IH by simp
    then show "copy_down m (d + Suc n) (s + Suc n) (Suc n) x = put_bytes m d (get_bytes m s (Suc n)) x"
      using Suc.prems unfolding put_get by (auto simp: add.commute)
  qed
qed (simp add: get_bytes_def)

text \<open>\<open>memmove\<close> stores at \<open>dst\<close> the bytes that were at \<open>src\<close> and changes nothing else, whichever way the
  two ranges overlap; \<open>memcpy\<close> does so when the destination does not start inside the source.\<close>

theorem memmove_copies:
  "memmove m dst src n = put_bytes m dst (get_bytes m src n)
   \<and> (dst \<le> src \<or> src + n \<le> dst \<longrightarrow> memcpy m dst src n = put_bytes m dst (get_bytes m src n))"
  by (auto simp: memmove_def memcpy_def copy_up_ok copy_down_ok not_less)

theorem memmove_copies_witness:
  "memcpy (of_nat :: nat \<Rightarrow> byte) 10 20 3 11 = 21"
  using memmove_copies [of "of_nat" 10 20 3] by (simp add: put_bytes_def)

section \<open>Strings in memory\<close>

fun cstring :: "mem \<Rightarrow> nat \<Rightarrow> byte list \<Rightarrow> bool" where
  "cstring m s [] = (m s = 0)"
| "cstring m s (x # xs) = (m s = x \<and> x \<noteq> 0 \<and> cstring m (s + 1) xs)"

lemma cstring_bytes: "cstring m s xs \<longleftrightarrow> get_bytes m s (length xs) = xs \<and> 0 \<notin> set xs \<and> m (s + length xs) = 0"
proof (induction xs arbitrary: s)
  case (Cons x xs)
  have "get_bytes m s (Suc (length xs)) = m s # get_bytes m (s + 1) (length xs)"
    using get_bytes_append [of m s 1 "length xs"] by (simp add: get_bytes_def)
  with Cons show ?case by auto
qed (simp add: get_bytes_def)

lemma cstring_get: "cstring m s xs \<Longrightarrow> get_bytes m s (Suc (length xs)) = xs @ [0]"
  using get_bytes_append [of m s "length xs" 1] by (simp add: cstring_bytes get_bytes_def)

lemma strlen_loop_ok: "cstring m s xs \<Longrightarrow> strlen_loop m s cnt = Some (cnt + length xs)"
  by (induction xs arbitrary: s cnt) (auto simp: strlen_loop.simps)

lemma strlen_ok: "cstring m s xs \<Longrightarrow> strlen m s = Some (length xs)"
  by (simp add: strlen_def strlen_loop_ok)

lemma strnlen_loop_ok: "cstring m s xs \<Longrightarrow> cnt \<le> len \<Longrightarrow> strnlen_loop m s cnt len = min len (cnt + length xs)"
proof (induction xs arbitrary: s cnt)
  case Nil
  then show ?case by (subst strnlen_loop.simps) simp
next
  case (Cons x xs)
  show ?case
  proof (cases "cnt < len")
    case True
    then have "strnlen_loop m (s + 1) (cnt + 1) len = min len (cnt + 1 + length xs)" using Cons by auto
    then show ?thesis using True Cons.prems by (subst strnlen_loop.simps) simp
  next
    case False
    then show ?thesis using Cons.prems by (subst strnlen_loop.simps) simp
  qed
qed

lemma strnlen_ok: "cstring m s xs \<Longrightarrow> strnlen m s len = min len (length xs)"
  by (simp add: strnlen_def strnlen_loop_ok)

lemma cstring_upd: "cstring m s xs \<Longrightarrow> p < s \<or> s + length xs < p \<Longrightarrow> cstring (m(p := v)) s xs"
  by (induction xs arbitrary: s) auto

lemma put_one: "put_bytes m p [x] = m(p := x)"
  by (auto simp: put_bytes_def fun_eq_iff)

lemma strcpy_loop_ok:
  "cstring m src xs \<Longrightarrow> p + length xs < src \<or> src + length xs < p \<Longrightarrow> strcpy_loop m p src = Some (put_bytes m p (xs @ [0]))"
proof (induction xs arbitrary: m p src)
  case Nil
  then show ?case by (auto simp: strcpy_loop.simps put_bytes_def fun_eq_iff Let_def)
next
  case (Cons x xs)
  have "cstring (m(p := x)) (src + 1) xs" using Cons.prems cstring_upd by auto
  moreover have "p + 1 + length xs < src + 1 \<or> src + 1 + length xs < p + 1" using Cons.prems by auto
  ultimately have "strcpy_loop (m(p := x)) (p + 1) (src + 1) = Some (put_bytes (m(p := x)) (p + 1) (xs @ [0]))"
    by (rule Cons.IH)
  moreover have "put_bytes (m(p := x)) (p + 1) (xs @ [0]) = put_bytes m p ((x # xs) @ [0])"
    using put_put [of m p "[x]" "xs @ [0]"] put_one [of m p x] by simp
  ultimately show ?case using Cons.prems by (subst strcpy_loop.simps) (simp add: Let_def)
qed

lemma strcpy_ok:
  "cstring m src xs \<Longrightarrow> dst + length xs < src \<or> src + length xs < dst \<Longrightarrow> strcpy m dst src = Some (dst, put_bytes m dst (xs @ [0]))"
  by (simp add: strcpy_def strcpy_loop_ok)

section \<open>Comparing\<close>

lemma byte_diff_sign: "byte_diff a b < 0 \<longleftrightarrow> a < b" "byte_diff a b = 0 \<longleftrightarrow> a = b"
  by (simp_all add: byte_diff_def word_less_alt word_uint_eq_iff)

lemma nul_least: "x \<noteq> 0 \<Longrightarrow> (0 :: byte) < x"
  by (simp add: word_gt_0)

lemma strcmp_ok:
  assumes "cstring m s1 xs" "cstring m s2 ys"
  shows "\<exists>r. strcmp m s1 s2 = Some r \<and> (r = 0 \<longleftrightarrow> xs = ys) \<and> (r < 0 \<longleftrightarrow> xs < ys)"
  using assms
proof (induction xs arbitrary: s1 s2 ys)
  case Nil
  then show ?case using nul_least by (cases ys) (auto simp: strcmp.simps [of m s1] byte_diff_sign)
next
  case (Cons x xs)
  show ?case
  proof (cases ys)
    case Nil
    then show ?thesis using Cons.prems nul_least [of x] by (auto simp: strcmp.simps [of m s1] byte_diff_sign)
  next
    case (Cons y ys')
    show ?thesis
    proof (cases "x = y")
      case True
      with Cons.prems \<open>ys = y # ys'\<close> Cons.IH [of "s1 + 1" "s2 + 1" ys'] show ?thesis by (subst strcmp.simps) auto
    next
      case False
      with Cons.prems \<open>ys = y # ys'\<close> show ?thesis by (subst strcmp.simps) (auto simp: byte_diff_sign)
    qed
  qed
qed

text \<open>\<open>strcmp\<close> returns on any two strings, and its result is zero if they are equal, negative if the first
  precedes the second in the lexicographic order of their unsigned bytes, and positive otherwise.\<close>

theorem strcmp_lexicographic:
  assumes "cstring m s1 xs" "cstring m s2 ys"
  shows "\<exists>r. strcmp m s1 s2 = Some r \<and> (r = 0 \<longleftrightarrow> xs = ys) \<and> (r < 0 \<longleftrightarrow> xs < ys)"
  by (rule strcmp_ok [OF assms])

definition demo_mem :: mem where
  "demo_mem = put_bytes (put_bytes (\<lambda>_. 0) 100 (map asc ''file'')) 200 (map asc ''fish'')"

theorem strcmp_lexicographic_witness:
  "\<exists>r. strcmp demo_mem 100 200 = Some r \<and> r < 0"
proof -
  have l: "map asc ''file'' = [0x66, 0x69, 0x6C, 0x65]" "map asc ''fish'' = [0x66, 0x69, 0x73, 0x68]"
    by (simp_all add: asc_def)
  have "cstring demo_mem 100 (map asc ''file'')" "cstring demo_mem 200 (map asc ''fish'')"
    unfolding demo_mem_def l by (simp_all add: put_bytes_def)
  from strcmp_lexicographic [OF this] show ?thesis unfolding l by (auto simp: word_less_alt)
qed

section \<open>Reading numbers\<close>

definition number_of :: "nat \<Rightarrow> nat list \<Rightarrow> 64 word" where
  "number_of base = foldl (\<lambda>v d. v * of_nat base + of_nat d) 0"

definition ends_number :: "nat \<Rightarrow> byte \<Rightarrow> bool" where
  "ends_number base c \<longleftrightarrow> (case digit_value c of None \<Rightarrow> True | Some d \<Rightarrow> base \<le> d)"

lemma get_bytes_Cons: "get_bytes m s (Suc n) = m s # get_bytes m (s + 1) n"
  using get_bytes_append [of m s 1 n] by (simp add: get_bytes_def)

lemma strtol_digits_ok:
  assumes "list_all2 (\<lambda>c d. digit_value c = Some d \<and> d < base) cs ds" "get_bytes m s (length cs) = cs"
    "ends_number base (m (s + length cs))"
  shows "strtol_digits m s base val = Some (foldl (\<lambda>v d. v * of_nat base + of_nat d) val ds, s + length cs)"
  using assms
proof (induction cs arbitrary: ds s val)
  case Nil
  then show ?case by (subst strtol_digits.simps) (auto simp: ends_number_def split: option.splits)
next
  case (Cons c cs)
  then obtain d ds' where d: "ds = d # ds'" "digit_value c = Some d" "d < base" "list_all2 (\<lambda>c d. digit_value c = Some d \<and> d < base) cs ds'"
    by (auto simp: list_all2_Cons1)
  have c: "m s = c" "get_bytes m (s + 1) (length cs) = cs" using Cons.prems(2) by (simp_all add: get_bytes_Cons)
  have "strtol_digits m (s + 1) base (val * of_nat base + of_nat d)
      = Some (foldl (\<lambda>v d. v * of_nat base + of_nat d) (val * of_nat base + of_nat d) ds', s + 1 + length cs)"
    by (rule Cons.IH [OF d(4) c(2)]) (use Cons.prems(3) in simp)
  then show ?case using d c by (subst strtol_digits.simps) simp
qed

lemma skip_blanks_ok:
  assumes "get_bytes m s k = replicate k (asc CHR '' '')" "m (s + k) \<noteq> asc CHR '' ''" "m (s + k) \<noteq> asc CHR 0x09"
  shows "skip_blanks m s = Some (s + k)"
  using assms
proof (induction k arbitrary: s)
  case 0
  then show ?case by (subst skip_blanks.simps) simp
next
  case (Suc k)
  then show ?case by (subst skip_blanks.simps) (simp add: get_bytes_Cons)
qed

text \<open>A number without sign and prefix, behind blanks.\<close>

lemma strtol_ok:
  assumes blanks: "get_bytes m s k = replicate k (asc CHR '' '')"
    and digits: "list_all2 (\<lambda>c d. digit_value c = Some d \<and> d < base) cs ds" "cs \<noteq> []" "get_bytes m (s + k) (length cs) = cs"
    and stop: "ends_number base (m (s + k + length cs))"
    and base: "0 < base" "base = 16 \<Longrightarrow> m (s + k + 1) \<noteq> asc CHR ''x''"
  shows "strtol m s base = Some (number_of base ds, s + k + length cs)"
proof -
  obtain c d cs' where c: "cs = c # cs'" "digit_value c = Some d" using digits(1,2) by (cases cs) (auto simp: list_all2_Cons1)
  then have m: "m (s + k) = c" using digits(3) by (simp add: get_bytes_Cons)
  have "c \<noteq> asc CHR '' ''" "c \<noteq> asc CHR 0x09" "c \<noteq> asc CHR ''+''" "c \<noteq> asc CHR ''-''"
    using c(2) by (auto simp: digit_value_def asc_def)
  then show ?thesis
    using m skip_blanks_ok [OF blanks] strtol_digits_ok [OF digits(1,3) stop, of 0] base
    by (auto simp: strtol_def number_of_def)
qed

end
