(* ===== verification/SfsDir.thy ===== *)
theory SfsDir
  imports SfsInode Strings
begin

text \<open>
  Directories of the simple file system (\<open>sfs_dirent_*\<close>, \<open>sfs_getdirentry*\<close> and \<open>sfs_opendir\<close> of
  \<open>kern/fs/sfs/sfs_inode.c\<close>). An entry takes a whole block; it is read into kernel memory at the
  address \<open>ep\<close> that \<open>kmalloc\<close> returned (zero where it failed), and the name looked for is a string in the
  same memory.
\<close>

section \<open>Entries\<close>

definition SFS_MAX_FNAME_LEN :: nat where "SFS_MAX_FNAME_LEN = 255"
definition sfs_dentry_size :: nat where "sfs_dentry_size = SFS_MAX_FNAME_LEN + 1"

text \<open>\<open>struct sfs_disk_entry\<close>: the number, then the name.\<close>

definition sizeof_disk_entry :: nat where "sizeof_disk_entry = 4 + (SFS_MAX_FNAME_LEN + 1)"

definition entry_ino :: "mem \<Rightarrow> nat \<Rightarrow> nat" where
  "entry_ino m ep = from_le (get_bytes m ep 4)"

definition entry_name :: "nat \<Rightarrow> nat" where
  "entry_name ep = ep + 4"

definition sfs_dirent_read_nolock :: "sfs_fs \<Rightarrow> sfs_inode \<Rightarrow> mem \<Rightarrow> nat \<Rightarrow> nat \<Rightarrow> (int \<times> mem \<times> sfs_inode \<times> sfs_fs) option" where
  "sfs_dirent_read_nolock s sin m slot ep = do {
     kassert (dn_type (din sin) = SFS_TYPE_DIR \<and> slot < dn_blocks (din sin));
     (ret, ino, sin, s) \<leftarrow> sfs_bmap_load_nolock s sin slot;
     if ret \<noteq> 0 then Some (ret, m, sin, s)
     else do {
       used \<leftarrow> sfs_block_inuse s ino;
       kassert used;
       (ret, buf, s) \<leftarrow> sfs_rbuf s (get_bytes m ep sizeof_disk_entry) 0 sizeof_disk_entry ino 0;
       let m = put_bytes m ep buf;
       if ret \<noteq> 0 then Some (ret, m, sin, s)
       else Some (0, m(entry_name ep + SFS_MAX_FNAME_LEN := 0), sin, s)
     }
   }"

section \<open>Searching\<close>

text \<open>The loop of \<open>sfs_dirent_search_nolock\<close>. The result holds the slot and the number that are stored through
  the pointers when the name is found, and the empty slot.\<close>

partial_function (option) search_loop ::
  "sfs_fs \<Rightarrow> sfs_inode \<Rightarrow> mem \<Rightarrow> nat \<Rightarrow> nat \<Rightarrow> nat \<Rightarrow> nat \<Rightarrow> nat \<Rightarrow> (int \<times> (nat \<times> nat) option \<times> nat \<times> mem \<times> sfs_inode \<times> sfs_fs) option" where
  "search_loop s sin m name ep i nslots hole =
     (if i < nslots then do {
        (ret, m, sin, s) \<leftarrow> sfs_dirent_read_nolock s sin m i ep;
        if ret \<noteq> 0 then Some (ret, None, hole, m, sin, s)
        else if entry_ino m ep = 0 then search_loop s sin m name ep (i + 1) nslots i
        else do {
          c \<leftarrow> strcmp m name (entry_name ep);
          if c = 0 then Some (0, Some (i, entry_ino m ep), hole, m, sin, s)
          else search_loop s sin m name ep (i + 1) nslots hole
        }
      } else Some (- E_NOENT, None, hole, m, sin, s))"

definition sfs_dirent_search_nolock ::
  "sfs_fs \<Rightarrow> sfs_inode \<Rightarrow> mem \<Rightarrow> nat \<Rightarrow> nat \<Rightarrow> (int \<times> (nat \<times> nat) option \<times> nat option \<times> mem \<times> sfs_inode \<times> sfs_fs) option" where
  "sfs_dirent_search_nolock s sin m name ep = do {
     n \<leftarrow> strlen m name;
     kassert (n \<le> SFS_MAX_FNAME_LEN);
     if ep = 0 then Some (- E_NO_MEM, None, None, m, sin, s)
     else do {
       let nslots = dn_blocks (din sin);
       (ret, found, hole, m, sin, s) \<leftarrow> search_loop s sin m name ep 0 nslots nslots;
       Some (ret, found, Some hole, m, sin, s)
     }
   }"

partial_function (option) findino_loop ::
  "sfs_fs \<Rightarrow> sfs_inode \<Rightarrow> mem \<Rightarrow> nat \<Rightarrow> nat \<Rightarrow> nat \<Rightarrow> nat \<Rightarrow> (int \<times> mem \<times> sfs_inode \<times> sfs_fs) option" where
  "findino_loop s sin m ino ep i nslots =
     (if i < nslots then do {
        (ret, m, sin, s) \<leftarrow> sfs_dirent_read_nolock s sin m i ep;
        if ret \<noteq> 0 then Some (ret, m, sin, s)
        else if entry_ino m ep = ino then Some (0, m, sin, s)
        else findino_loop s sin m ino ep (i + 1) nslots
      } else Some (- E_NOENT, m, sin, s))"

definition sfs_dirent_findino_nolock :: "sfs_fs \<Rightarrow> sfs_inode \<Rightarrow> mem \<Rightarrow> nat \<Rightarrow> nat \<Rightarrow> (int \<times> mem \<times> sfs_inode \<times> sfs_fs) option" where
  "sfs_dirent_findino_nolock s sin m ino ep = findino_loop s sin m ino ep 0 (dn_blocks (din sin))"

section \<open>Listing\<close>

partial_function (option) getdirentry_loop ::
  "sfs_fs \<Rightarrow> sfs_inode \<Rightarrow> mem \<Rightarrow> nat \<Rightarrow> nat \<Rightarrow> nat \<Rightarrow> nat \<Rightarrow> (int \<times> mem \<times> sfs_inode \<times> sfs_fs) option" where
  "getdirentry_loop s sin m slot ep i nslots =
     (if i < nslots then do {
        (ret, m, sin, s) \<leftarrow> sfs_dirent_read_nolock s sin m i ep;
        if ret \<noteq> 0 then Some (ret, m, sin, s)
        else if entry_ino m ep \<noteq> 0 then
          (if slot = 0 then Some (0, m, sin, s) else getdirentry_loop s sin m (slot - 1) ep (i + 1) nslots)
        else getdirentry_loop s sin m slot ep (i + 1) nslots
      } else Some (- E_NOENT, m, sin, s))"

definition sfs_getdirentry_sub_nolock :: "sfs_fs \<Rightarrow> sfs_inode \<Rightarrow> mem \<Rightarrow> nat \<Rightarrow> nat \<Rightarrow> (int \<times> mem \<times> sfs_inode \<times> sfs_fs) option" where
  "sfs_getdirentry_sub_nolock s sin m slot ep = getdirentry_loop s sin m slot ep 0 (dn_blocks (din sin))"

text \<open>The quotient is stored in an \<open>int\<close> and compared with the unsigned number of blocks.\<close>

definition sfs_getdirentry :: "sfs_fs \<Rightarrow> sfs_inode \<Rightarrow> mem \<Rightarrow> nat \<Rightarrow> iobuf \<Rightarrow> (int \<times> iobuf \<times> mem \<times> sfs_inode \<times> sfs_fs) option" where
  "sfs_getdirentry s sin m ep iob =
     (if ep = 0 then Some (- E_NO_MEM, iob, m, sin, s)
      else let offset = io_offset iob in
      if offset < 0 \<or> offset mod int sfs_dentry_size \<noteq> 0 then Some (- E_INVAL, iob, m, sin, s)
      else let slot = nat (offset div int sfs_dentry_size) mod 2 ^ 32 in
      if slot > dn_blocks (din sin) then Some (- E_NOENT, iob, m, sin, s)
      else do {
        (ret, m, sin, s) \<leftarrow> sfs_getdirentry_sub_nolock s sin m slot ep;
        if ret \<noteq> 0 then Some (ret, iob, m, sin, s)
        else do {
          (ret, _, _, iob) \<leftarrow> iobuf_move iob (get_bytes m (entry_name ep) sfs_dentry_size) sfs_dentry_size True;
          Some (ret, iob, m, sin, s)
        }
      })"

section \<open>Opening\<close>

definition O_RDONLY :: "32 word" where "O_RDONLY = 0"
definition O_WRONLY :: "32 word" where "O_WRONLY = 1"
definition O_RDWR :: "32 word" where "O_RDWR = 2"
definition O_CREAT :: "32 word" where "O_CREAT = 4"
definition O_EXCL :: "32 word" where "O_EXCL = 8"
definition O_TRUNC :: "32 word" where "O_TRUNC = 16"
definition O_APPEND :: "32 word" where "O_APPEND = 32"
definition O_ACCMODE :: "32 word" where "O_ACCMODE = 3"

unbundle bit_operations_syntax

definition sfs_opendir :: "32 word \<Rightarrow> int" where
  "sfs_opendir open_flags =
     (if open_flags AND O_ACCMODE \<noteq> O_RDONLY then - E_ISDIR
      else if open_flags AND O_APPEND \<noteq> 0 then - E_ISDIR
      else 0)"

definition sfs_openfile :: "32 word \<Rightarrow> int" where
  "sfs_openfile open_flags = 0"

section \<open>The entries of a directory\<close>

text \<open>The number and the name (up to the first zero byte) in a slot.\<close>

definition slot_bytes :: "sfs_fs \<Rightarrow> sfs_disk_inode \<Rightarrow> nat \<Rightarrow> byte list" where
  "slot_bytes s d i = take (4 + 255) (block_bytes s (blk_of s d i)) @ [0]"

definition slot_ino :: "sfs_fs \<Rightarrow> sfs_disk_inode \<Rightarrow> nat \<Rightarrow> nat" where
  "slot_ino s d i = from_le (take 4 (block_bytes s (blk_of s d i)))"

definition slot_name :: "sfs_fs \<Rightarrow> sfs_disk_inode \<Rightarrow> nat \<Rightarrow> byte list" where
  "slot_name s d i = takeWhile (\<lambda>b. b \<noteq> 0) (take 255 (drop 4 (block_bytes s (blk_of s d i))))"

definition dir_ok :: "sfs_fs \<Rightarrow> sfs_disk_inode \<Rightarrow> bool" where
  "dir_ok s d \<longleftrightarrow> fs_ok s \<and> file_ok s d \<and> dn_type d = SFS_TYPE_DIR"

lemma dirent_read_ok:
  assumes d: "dir_ok s (din sin)" and i: "i < dn_blocks (din sin)"
  shows "sfs_dirent_read_nolock s sin m i ep = Some (0, put_bytes m ep (slot_bytes s (din sin) i), sin, s)"
proof -
  let ?b = "blk_of s (din sin) i" and ?bs = "block_bytes s (blk_of s (din sin) i)"
  have ok: "fs_ok s" and f: "file_ok s (din sin)" using d by (simp_all add: dir_ok_def)
  have u: "used s ?b" by (rule file_okD(3) [OF f i])
  have r: "sfs_rbuf s (get_bytes m ep 260) 0 260 ?b 0 = Some (0, take 260 ?bs, s)"
    using rbuf_ok [OF ok, of ?b 0 260 "get_bytes m ep 260" 0] u by (simp add: used_def)
  have "(put_bytes m ep (take 260 ?bs))(ep + 4 + 255 := 0) = put_bytes m ep (slot_bytes s (din sin) i)"
    by (auto simp: put_bytes_def slot_bytes_def fun_eq_iff nth_append)
  then show ?thesis using bmap_load_existing [OF ok f i] inuse_used [OF ok u] r i d
    by (simp add: sfs_dirent_read_nolock_def dir_ok_def sizeof_disk_entry_def SFS_MAX_FNAME_LEN_def entry_name_def Let_def)
qed

lemma length_slot_bytes [simp]: "length (slot_bytes s d i) = 260"
  by (simp add: slot_bytes_def)

lemma entry_ino_slot: "entry_ino (put_bytes m ep (slot_bytes s d i)) ep = slot_ino s d i"
proof -
  have "get_bytes (put_bytes m ep (slot_bytes s d i)) ep 4 = take 4 (block_bytes s (blk_of s d i))"
    by (rule nth_equalityI) (simp_all add: put_bytes_def slot_bytes_def nth_append)
  then show ?thesis by (simp add: entry_ino_def slot_ino_def)
qed

lemma cstring_takeWhile:
  "get_bytes m a (length xs) = xs \<Longrightarrow> m (a + length xs) = 0 \<Longrightarrow> cstring m a (takeWhile (\<lambda>b. b \<noteq> 0) xs)"
proof (induction xs arbitrary: a)
  case (Cons x xs)
  then show ?case by (auto simp: get_bytes_Cons)
qed simp

lemma entry_name_slot: "cstring (put_bytes m ep (slot_bytes s d i)) (entry_name ep) (slot_name s d i)"
proof -
  let ?xs = "take 255 (drop 4 (block_bytes s (blk_of s d i)))" and ?m = "put_bytes m ep (slot_bytes s d i)"
  have "get_bytes ?m (ep + 4) (length ?xs) = ?xs"
    by (rule nth_equalityI) (simp_all add: put_bytes_def slot_bytes_def nth_append)
  moreover have "?m (ep + 4 + length ?xs) = 0" by (simp add: put_bytes_def slot_bytes_def nth_append)
  ultimately show ?thesis unfolding slot_name_def entry_name_def by (rule cstring_takeWhile)
qed

text \<open>The string looked for is apart from the entry.\<close>

definition beside :: "nat \<Rightarrow> nat \<Rightarrow> nat \<Rightarrow> bool" where
  "beside a n ep \<longleftrightarrow> a + n \<le> ep \<or> ep + 260 \<le> a"

lemma cstring_beside:
  "cstring m name xs \<Longrightarrow> beside name (Suc (length xs)) ep \<Longrightarrow> length bs = 260 \<Longrightarrow> cstring (put_bytes m ep bs) name xs"
  by (induction xs arbitrary: name) (auto simp: beside_def put_bytes_def)

section \<open>Searching a directory\<close>

definition names :: "sfs_fs \<Rightarrow> sfs_disk_inode \<Rightarrow> byte list \<Rightarrow> nat \<Rightarrow> bool" where
  "names s d xs i \<longleftrightarrow> slot_ino s d i \<noteq> 0 \<and> slot_name s d i = xs"

text \<open>The last empty slot of \<open>js\<close>, or \<open>h\<close>.\<close>

definition last_hole :: "sfs_fs \<Rightarrow> sfs_disk_inode \<Rightarrow> nat list \<Rightarrow> nat \<Rightarrow> nat" where
  "last_hole s d js h = fold (\<lambda>j h. if slot_ino s d j = 0 then j else h) js h"

lemma last_hole_simps [simp]:
  "last_hole s d [] h = h" "last_hole s d (j # js) h = last_hole s d js (if slot_ino s d j = 0 then j else h)"
  by (simp_all add: last_hole_def)

definition outside :: "nat \<Rightarrow> mem \<Rightarrow> mem \<Rightarrow> bool" where
  "outside ep m m' \<longleftrightarrow> (\<forall>a. a < ep \<or> ep + 260 \<le> a \<longrightarrow> m' a = m a)"

lemma outside_put: "length bs = 260 \<Longrightarrow> outside ep (put_bytes m ep bs) m' \<longleftrightarrow> outside ep m m'"
  by (auto simp: outside_def put_bytes_def)

lemma outside_refl [simp]: "outside ep m m"
  by (simp add: outside_def)

definition search_result :: "sfs_fs \<Rightarrow> sfs_disk_inode \<Rightarrow> byte list \<Rightarrow> nat list \<Rightarrow> nat \<Rightarrow> int \<times> (nat \<times> nat) option \<times> nat" where
  "search_result s d xs js h = (case find (names s d xs) js of
     None \<Rightarrow> (- E_NOENT, None, last_hole s d js h)
   | Some j \<Rightarrow> (0, Some (j, slot_ino s d j), last_hole s d (takeWhile (\<lambda>i. i \<noteq> j) js) h))"

lemma search_result_simps [simp]:
  "search_result s d xs [] h = (- E_NOENT, None, h)"
  "names s d xs j \<Longrightarrow> search_result s d xs (j # js) h = (0, Some (j, slot_ino s d j), h)"
  "\<not> names s d xs j \<Longrightarrow> search_result s d xs (j # js) h = search_result s d xs js (if slot_ino s d j = 0 then j else h)"
  by (auto simp: search_result_def split: option.split dest!: find_Some_iff [THEN iffD1])

lemma search_loop_ok:
  assumes d: "dir_ok s (din sin)" and n: "n = dn_blocks (din sin)"
  shows "i \<le> n \<Longrightarrow> cstring m name xs \<Longrightarrow> beside name (Suc (length xs)) ep \<Longrightarrow>
    \<exists>r f h' m'. search_loop s sin m name ep i n h = Some (r, f, h', m', sin, s) \<and> (r, f, h') = search_result s (din sin) xs [i..<n] h \<and> outside ep m m'"
proof (induction "n - i" arbitrary: i m h)
  case 0
  then show ?case by (simp add: search_loop.simps)
next
  case (Suc k)
  then have i: "i < n" "[i..<n] = i # [Suc i..<n]" by (simp_all add: upt_conv_Cons)
  let ?m = "put_bytes m ep (slot_bytes s (din sin) i)" and ?I = "slot_ino s (din sin) i"
  note rd = dirent_read_ok [OF d, of i m ep] i(1) n
  have c: "cstring ?m name xs" by (rule cstring_beside [OF Suc.prems(2,3)]) simp
  from strcmp_ok [OF c entry_name_slot] obtain r where r: "strcmp ?m name (entry_name ep) = Some r"
    "r = 0 \<longleftrightarrow> slot_name s (din sin) i = xs" by auto
  have IH: "\<exists>r f h'' m'. search_loop s sin ?m name ep (i + 1) n h' = Some (r, f, h'', m', sin, s)
      \<and> (r, f, h'') = search_result s (din sin) xs [Suc i..<n] h' \<and> outside ep m m'" for h'
    using Suc.hyps(1) [of "Suc i" ?m h'] Suc.hyps(2) i(1) c Suc.prems(3) by (simp add: outside_put)
  have st: "search_loop s sin m name ep i n h = (if ?I = 0 then search_loop s sin ?m name ep (i + 1) n i
      else if r = 0 then Some (0, Some (i, ?I), h, ?m, sin, s) else search_loop s sin ?m name ep (i + 1) n h)"
    using rd r(1) by (subst search_loop.simps) (simp add: entry_ino_slot)
  show ?case
  proof (cases "?I = 0")
    case True
    then show ?thesis using IH [of i] st i(2) by (simp add: names_def)
  next
    case False
    then show ?thesis using IH [of h] st i(2) r(2) outside_put [of "slot_bytes s (din sin) i" ep m ?m]
      by (cases "r = 0") (simp_all add: names_def)
  qed
qed

text \<open>C18: \<open>sfs_dirent_search_nolock\<close> finds a name exactly when some used slot of the directory holds it, and then
  returns the first such slot with its inode number; otherwise it returns \<open>E_NOENT\<close>. It also reports the
  last empty slot it has passed. The directory is unchanged, and of memory only the entry buffer.\<close>

theorem sfs_dirent_search_first:
  assumes "dir_ok s (din sin)" "cstring m name xs" "length xs \<le> 255" "beside name (Suc (length xs)) ep" "ep \<noteq> 0"
  shows "\<exists>m'. outside ep m m' \<and> sfs_dirent_search_nolock s sin m name ep =
     (case find (\<lambda>i. slot_ino s (din sin) i \<noteq> 0 \<and> slot_name s (din sin) i = xs) [0 ..< dn_blocks (din sin)] of
        None \<Rightarrow> Some (- E_NOENT, None, Some (last_hole s (din sin) [0 ..< dn_blocks (din sin)] (dn_blocks (din sin))), m', sin, s)
      | Some i \<Rightarrow> Some (0, Some (i, slot_ino s (din sin) i), Some (last_hole s (din sin) [0 ..< i] (dn_blocks (din sin))), m', sin, s))"
proof -
  let ?n = "dn_blocks (din sin)"
  have tw: "takeWhile (\<lambda>i. i \<noteq> j) [0..<?n] = [0..<j]" if "j < ?n" for j
  proof -
    have "takeWhile (\<lambda>i. i \<noteq> j) ([0..<j] @ [j..<?n]) = [0..<j]"
      using that by (subst takeWhile_append2) (auto simp: upt_conv_Cons)
    moreover have "[0..<j] @ [j..<?n] = [0..<?n]" using upt_add_eq_append [of 0 j "?n - j"] that by simp
    ultimately show ?thesis by simp
  qed
  from search_loop_ok [OF assms(1) refl _ assms(2,4), of 0 ?n] obtain r f h m' where
    l: "search_loop s sin m name ep 0 ?n ?n = Some (r, f, h, m', sin, s)" "(r, f, h) = search_result s (din sin) xs [0..<?n] ?n" "outside ep m m'"
    by auto
  have "sfs_dirent_search_nolock s sin m name ep = Some (r, f, Some h, m', sin, s)"
    using strlen_ok [OF assms(2)] assms(3,5) l(1) by (simp add: sfs_dirent_search_nolock_def SFS_MAX_FNAME_LEN_def)
  moreover have "names s (din sin) xs = (\<lambda>i. slot_ino s (din sin) i \<noteq> 0 \<and> slot_name s (din sin) i = xs)" by (simp add: names_def fun_eq_iff)
  ultimately show ?thesis using l(2,3)
    by (intro exI [of _ m']) (auto simp: search_result_def tw split: option.splits dest!: find_Some_iff [THEN iffD1])
qed

section \<open>Listing a directory\<close>

definition used_slots :: "sfs_fs \<Rightarrow> sfs_disk_inode \<Rightarrow> nat list" where
  "used_slots s d = filter (\<lambda>i. slot_ino s d i \<noteq> 0) [0 ..< dn_blocks d]"

lemma getdirentry_loop_ok:
  assumes d: "dir_ok s (din sin)" and n: "n = dn_blocks (din sin)" and js: "js = filter (\<lambda>i. slot_ino s (din sin) i \<noteq> 0) [i..<n]"
  shows "i \<le> n \<Longrightarrow> \<exists>m'. outside ep m m' \<and>
    (if slot < length js then getdirentry_loop s sin m slot ep i n = Some (0, m', sin, s) \<and> get_bytes m' ep 260 = slot_bytes s (din sin) (js ! slot)
     else getdirentry_loop s sin m slot ep i n = Some (- E_NOENT, m', sin, s))"
  using js
proof (induction "n - i" arbitrary: i m slot js)
  case 0
  then show ?case by (auto simp: getdirentry_loop.simps)
next
  case (Suc k)
  then have i: "i < n" "[i..<n] = i # [Suc i..<n]" by (simp_all add: upt_conv_Cons)
  have kk: "k = n - Suc i" and le: "Suc i \<le> n" using Suc.hyps(2) i(1) by simp_all
  let ?m = "put_bytes m ep (slot_bytes s (din sin) i)" and ?I = "slot_ino s (din sin) i"
  let ?js = "filter (\<lambda>i. slot_ino s (din sin) i \<noteq> 0) [Suc i..<n]"
  have IH: "\<exists>m'. outside ep m m' \<and>
      (if k' < length ?js then getdirentry_loop s sin ?m k' ep (i + 1) n = Some (0, m', sin, s) \<and> get_bytes m' ep 260 = slot_bytes s (din sin) (?js ! k')
       else getdirentry_loop s sin ?m k' ep (i + 1) n = Some (- E_NOENT, m', sin, s))" for k'
    using Suc.hyps(1) [OF kk le refl, of ?m k'] unfolding outside_put [OF length_slot_bytes] Suc_eq_plus1 .
  have st: "getdirentry_loop s sin m slot ep i n = (if ?I \<noteq> 0 then (if slot = 0 then Some (0, ?m, sin, s)
      else getdirentry_loop s sin ?m (slot - 1) ep (i + 1) n) else getdirentry_loop s sin ?m slot ep (i + 1) n)"
    using dirent_read_ok [OF d, of i m ep] i(1) n by (subst getdirentry_loop.simps) (simp add: entry_ino_slot)
  have js: "js = (if ?I \<noteq> 0 then i # ?js else ?js)" using Suc.prems(2) i(2) by simp
  consider "?I = 0" | "?I \<noteq> 0" "slot = 0" | k' where "?I \<noteq> 0" "slot = Suc k'" by (cases slot) auto
  then show ?case
  proof cases
    case 1
    then have e: "getdirentry_loop s sin m slot ep i n = getdirentry_loop s sin ?m slot ep (i + 1) n" "js = ?js" using st js by simp_all
    show ?thesis using IH [of slot] unfolding e .
  next
    case 2
    then have "getdirentry_loop s sin m slot ep i n = Some (0, ?m, sin, s)" using st by simp
    moreover have "outside ep m ?m" by (simp add: outside_def put_bytes_def)
    ultimately show ?thesis using 2 js by (intro exI [of _ ?m]) simp
  next
    case 3
    then have e: "getdirentry_loop s sin m (Suc k') ep i n = getdirentry_loop s sin ?m k' ep (i + 1) n" "js = i # ?js" using st js by simp_all
    show ?thesis using IH [of k'] unfolding e 3(2) by (simp only: list.size(4) add_Suc_right add_0_right Suc_less_eq nth_Cons_Suc)
  qed
qed

lemma iobuf_move_all:
  "io_resid iob = n \<Longrightarrow> length data = n \<Longrightarrow> 0 < n \<Longrightarrow>
   iobuf_move iob data n True = Some (0, n, data, consumed iob n (splice (io_buf iob) (io_base iob) data))"
  by (simp add: iobuf_move_def iobuf_skip_def consumed_def)

text \<open>Reading a directory entry by entry. \<open>sfs_getdirentry\<close> at the offset 256 times \<open>k\<close> copies the name of the
  \<open>k\<close>-th used slot (all 256 bytes of it, the last one zero) and advances the buffer; behind the last used slot
  it returns \<open>E_NOENT\<close>, and an offset that is no multiple of 256 or negative is refused. The directory never
  changes.\<close>

theorem sfs_getdirentry_lists:
  assumes "dir_ok s (din sin)" "ep \<noteq> 0" "io_resid iob = 256" "0 \<le> io_offset iob \<longrightarrow> nat (io_offset iob div 256) < 2 ^ 32"
  shows "\<exists>m'. outside ep m m' \<and> sfs_getdirentry s sin m ep iob =
    (if io_offset iob < 0 \<or> io_offset iob mod 256 \<noteq> 0 then Some (- E_INVAL, iob, m', sin, s)
     else let k = nat (io_offset iob div 256) in
       if k < length (used_slots s (din sin))
       then Some (0, consumed iob 256 (splice (io_buf iob) (io_base iob) (drop 4 (slot_bytes s (din sin) (used_slots s (din sin) ! k)))), m', sin, s)
       else Some (- E_NOENT, iob, m', sin, s))"
proof (cases "io_offset iob < 0 \<or> io_offset iob mod 256 \<noteq> 0")
  case True
  then show ?thesis using assms(2) by (intro exI [of _ m]) (auto simp: sfs_getdirentry_def sfs_dentry_size_def SFS_MAX_FNAME_LEN_def Let_def)
next
  case False
  let ?k = "nat (io_offset iob div 256)" and ?n = "dn_blocks (din sin)" and ?js = "used_slots s (din sin)"
  have len: "length ?js \<le> ?n" unfolding used_slots_def by (rule order_trans [OF length_filter_le]) simp
  from getdirentry_loop_ok [OF assms(1) refl used_slots_def [of s "din sin"], of ep m ?k] obtain m' where
    m: "outside ep m m'" "if ?k < length ?js then getdirentry_loop s sin m ?k ep 0 ?n = Some (0, m', sin, s)
        \<and> get_bytes m' ep 260 = slot_bytes s (din sin) (?js ! ?k)
      else getdirentry_loop s sin m ?k ep 0 ?n = Some (- E_NOENT, m', sin, s)" by auto
  have k: "?k mod 2 ^ 32 = ?k" using assms(4) False by simp
  show ?thesis
  proof (cases "?k < length ?js")
    case True
    have "get_bytes m' (ep + 4) 256 = drop 4 (get_bytes m' ep 260)" by (rule nth_equalityI) (simp_all add: ac_simps)
    then have g: "get_bytes m' (ep + 4) 256 = drop 4 (slot_bytes s (din sin) (?js ! ?k))" using True m(2) by simp
    show ?thesis using True False m assms(2) k len g iobuf_move_all [OF assms(3), of "drop 4 (slot_bytes s (din sin) (?js ! ?k))"]
      by (intro exI [of _ m']) (simp add: sfs_getdirentry_def sfs_getdirentry_sub_nolock_def sfs_dentry_size_def SFS_MAX_FNAME_LEN_def entry_name_def Let_def)
  next
    case no: False
    show ?thesis
    proof (cases "?k > ?n")
      case True
      then show ?thesis using no False assms(2) k
        by (intro exI [of _ m]) (simp add: sfs_getdirentry_def sfs_dentry_size_def SFS_MAX_FNAME_LEN_def Let_def)
    next
      case kn: False
      then show ?thesis using no False assms(2) k m
        by (intro exI [of _ m']) (simp add: sfs_getdirentry_def sfs_getdirentry_sub_nolock_def sfs_dentry_size_def SFS_MAX_FNAME_LEN_def Let_def E_NOENT_def)
    qed
  qed
qed

text \<open>\<open>sfs_dirent_findino_nolock\<close> finds the first slot with the number.\<close>

lemma findino_loop_ok:
  assumes d: "dir_ok s (din sin)" and n: "n = dn_blocks (din sin)"
  shows "i \<le> n \<Longrightarrow> \<exists>m'. outside ep m m' \<and> (case find (\<lambda>i. slot_ino s (din sin) i = ino) [i..<n] of
      None \<Rightarrow> findino_loop s sin m ino ep i n = Some (- E_NOENT, m', sin, s)
    | Some j \<Rightarrow> findino_loop s sin m ino ep i n = Some (0, m', sin, s) \<and> get_bytes m' ep 260 = slot_bytes s (din sin) j)"
proof (induction "n - i" arbitrary: i m)
  case 0
  then show ?case by (auto simp: findino_loop.simps)
next
  case (Suc k)
  then have i: "i < n" "[i..<n] = i # [Suc i..<n]" by (simp_all add: upt_conv_Cons)
  let ?m = "put_bytes m ep (slot_bytes s (din sin) i)"
  have st: "findino_loop s sin m ino ep i n = (if slot_ino s (din sin) i = ino then Some (0, ?m, sin, s)
      else findino_loop s sin ?m ino ep (i + 1) n)"
    using dirent_read_ok [OF d, of i m ep] i(1) n by (subst findino_loop.simps) (simp add: entry_ino_slot)
  have o: "outside ep m ?m" by (simp add: outside_def put_bytes_def)
  show ?case
  proof (cases "slot_ino s (din sin) i = ino")
    case True
    then show ?thesis using st o i(2) by (intro exI [of _ ?m]) simp
  next
    case False
    have "k = n - Suc i" "Suc i \<le> n" using Suc.hyps(2) i(1) by simp_all
    note IH = Suc.hyps(1) [OF this, of ?m]
    have e: "findino_loop s sin m ino ep i n = findino_loop s sin ?m ino ep (Suc i) n" using st False by simp
    show ?thesis using IH False unfolding i(2) e outside_put [OF length_slot_bytes] by simp
  qed
qed

section \<open>A directory of two entries\<close>

text \<open>Blocks 1 and 3 hold the entries \<open>1: "."\<close> and \<open>3: "ab"\<close>.\<close>

definition dirent_image :: "nat \<Rightarrow> byte list \<Rightarrow> byte list" where
  "dirent_image ino nm = to_le 4 ino @ nm @ replicate (4092 - length nm) 0"

definition demo_dirfs :: sfs_fs where
  "demo_dirfs = set_block (set_block demo_sfs 1 (dirent_image 1 [46])) 3 (dirent_image 3 [97, 98])"

definition demo_dir :: sfs_inode where
  "demo_dir = \<lparr>din = \<lparr>dn_size = 8192, dn_type = 2, dn_nlinks = 1, dn_blocks = 2, dn_direct = [1, 3] @ replicate 10 0, dn_indirect = 0\<rparr>,
     sin_ino = 2, sin_dirty = False, reclaim_count = 1\<rparr>"

definition demo_name_mem :: mem where
  "demo_name_mem = put_bytes (\<lambda>_. 0) 100 [97, 98]"

lemma demo_dir_blk: "blk_of s (din demo_dir) i = (if i = 0 then 1 else if i = 1 then 3 else 0)" if "i < 1036"
proof -
  have "(1 # 3 # replicate n 0) ! i = (if i = 0 then 1 else if i = 1 then 3 else 0)" if "i < n + 2" for n :: nat
    using that by (auto simp: nth_Cons')
  from this [of 10] show ?thesis by (simp add: blk_of_def demo_dir_def)
qed

lemma demo_dir_ok: "dir_ok demo_dirfs (din demo_dir)"
proof -
  have ok: "fs_ok demo_dirfs" using demo_sfs_ok(1) by (simp add: demo_dirfs_def)
  have n: "dn_blocks (din demo_dir) = 2" "dn_indirect (din demo_dir) = 0" "length (dn_direct (din demo_dir)) = 12"
    by (simp_all add: demo_dir_def)
  have us: "used demo_dirfs b" if "b = 1 \<or> b = 3" for b
    using that by (auto simp: used_def demo_dirfs_def free_blocks_def demo_free) (simp_all add: demo_sfs_def)
  have "file_ok demo_dirfs (din demo_dir)"
    unfolding file_ok_def n by (auto simp: demo_dir_blk us inj_on_def)
  with ok show ?thesis by (simp add: dir_ok_def demo_dir_def SFS_TYPE_DIR_def)
qed

lemma length_dirent_image: "length nm \<le> 4092 \<Longrightarrow> length (dirent_image ino nm) = 4096"
  by (simp add: dirent_image_def)

lemma demo_dir_bytes: "block_bytes demo_dirfs (blk_of demo_dirfs (din demo_dir) 0) = dirent_image 1 [46]"
  "block_bytes demo_dirfs (blk_of demo_dirfs (din demo_dir) 1) = dirent_image 3 [97, 98]"
  by (simp_all add: demo_dir_blk demo_dirfs_def block_set length_dirent_image)

lemma takeWhile_nul: "0 \<notin> set nm \<Longrightarrow> takeWhile (\<lambda>b. b \<noteq> 0) (nm @ (0 :: byte) # r) = nm"
  by (induction nm) auto

lemma slot_of_image:
  assumes "block_bytes s (blk_of s d i) = dirent_image ino nm" "length nm < 255" "0 \<notin> set nm"
  shows "slot_ino s d i = ino mod 2 ^ 32" "slot_name s d i = nm"
proof -
  show "slot_ino s d i = ino mod 2 ^ 32" unfolding slot_ino_def assms(1) by (simp add: dirent_image_def from_to_le)
  have "take 255 (nm @ replicate (4092 - length nm) 0) = nm @ 0 # replicate (254 - length nm) 0"
  proof -
    have "255 - length nm = Suc (254 - length nm)" "255 - length nm \<le> 4092 - length nm" using assms(2) by linarith+
    then show ?thesis using assms(2) by (simp add: min_def)
  qed
  then show "slot_name s d i = nm"
    unfolding slot_name_def assms(1) using takeWhile_nul [OF assms(3)] by (simp add: dirent_image_def)
qed

lemma demo_dir_slots: "slot_ino demo_dirfs (din demo_dir) 0 = 1" "slot_name demo_dirfs (din demo_dir) 0 = [46]"
  "slot_ino demo_dirfs (din demo_dir) 1 = 3" "slot_name demo_dirfs (din demo_dir) 1 = [97, 98]"
  using slot_of_image [OF demo_dir_bytes(1)] slot_of_image [OF demo_dir_bytes(2)] by simp_all

theorem sfs_dirent_search_first_witness:
  "\<exists>m'. sfs_dirent_search_nolock demo_dirfs demo_dir demo_name_mem 100 1000 = Some (0, Some (1, 3), Some 2, m', demo_dir, demo_dirfs)"
proof -
  have n: "dn_blocks (din demo_dir) = 2" by (simp add: demo_dir_def)
  have c: "cstring demo_name_mem 100 [97, 98]" by (simp add: demo_name_mem_def put_bytes_def)
  have "find (\<lambda>i. slot_ino demo_dirfs (din demo_dir) i \<noteq> 0 \<and> slot_name demo_dirfs (din demo_dir) i = [97, 98]) [0 ..< 2] = Some 1"
    using demo_dir_slots by (simp add: upt_conv_Cons numeral_2_eq_2)
  then show ?thesis using sfs_dirent_search_first [OF demo_dir_ok c, of 1000] demo_dir_slots n
    by (auto simp: beside_def last_hole_def)
qed

theorem sfs_getdirentry_lists_witness:
  "\<exists>m'. sfs_getdirentry demo_dirfs demo_dir demo_name_mem 1000 (iobuf_init (replicate 256 0) 0 256 512)
    = Some (- E_NOENT, iobuf_init (replicate 256 0) 0 256 512, m', demo_dir, demo_dirfs)"
proof -
  have "used_slots demo_dirfs (din demo_dir) = [0, 1]"
    using demo_dir_slots by (simp add: used_slots_def demo_dir_def [THEN arg_cong, of "\<lambda>s. dn_blocks (din s)"] upt_conv_Cons numeral_2_eq_2)
  then show ?thesis using sfs_getdirentry_lists [OF demo_dir_ok, of 1000 "iobuf_init (replicate 256 0) 0 256 512" demo_name_mem]
    by (auto simp: iobuf_init_def)
qed

end
