(* ===== verification/SfsNode.thy ===== *)
theory SfsNode
  imports SfsDir ProcTable
begin

text \<open>
  Inodes in memory: the table of loaded inodes of the simple file system (a list of all of them and hash
  chains by inode number, \<open>kern/fs/sfs/sfs_inode.c\<close>) and the reference counts of
  \<open>kern/fs/vfs/inode.c\<close>. An inode is named by its address; \<open>kmalloc\<close> is the argument that says which
  address (or none) it returned. The table of functions \<open>in_ops\<close> is one of the two of the file system; a call
  through a pointer that the table leaves out fails the assertion of \<open>__vop_op\<close>. Inodes of devices are not modelled.
\<close>

section \<open>State\<close>

datatype inode_ops = DirOps | FileOps

record inode =
  in_sin :: sfs_inode
  ref_count :: int
  open_count :: int
  in_ops :: inode_ops

datatype ile = InodeList | InodeLink nat
datatype sle = SinList nat | SinLink nat

fun le2sin :: "sle \<Rightarrow> nat" where
  "le2sin (SinLink n) = n"
| "le2sin (SinList i) = 0"

record vfs =
  sfs :: sfs_fs
  inodes :: "nat \<Rightarrow> inode"
  inode_list :: "ile dll"
  hash_list :: "sle dll"

definition upd_inode :: "nat \<Rightarrow> (inode \<Rightarrow> inode) \<Rightarrow> vfs \<Rightarrow> vfs" where
  "upd_inode n f v = v\<lparr>inodes := (inodes v)(n := f (inodes v n))\<rparr>"

definition sin_of :: "vfs \<Rightarrow> nat \<Rightarrow> sfs_inode" where
  "sin_of v n = in_sin (inodes v n)"

definition set_sin :: "nat \<Rightarrow> sfs_inode \<Rightarrow> vfs \<Rightarrow> vfs" where
  "set_sin n sin = upd_inode n (\<lambda>x. x\<lparr>in_sin := sin\<rparr>)"

section \<open>The table of inodes\<close>

definition SFS_HLIST_SHIFT :: nat where "SFS_HLIST_SHIFT = 10"
definition SFS_HLIST_SIZE :: nat where "SFS_HLIST_SIZE = 2 ^ SFS_HLIST_SHIFT"

definition sin_hashfn :: "nat \<Rightarrow> nat" where
  "sin_hashfn x = unat (hash32 (of_nat x) SFS_HLIST_SHIFT)"

definition sfs_hash_list :: "nat \<Rightarrow> sle" where
  "sfs_hash_list ino = SinList (sin_hashfn ino)"

definition sfs_set_links :: "vfs \<Rightarrow> nat \<Rightarrow> vfs" where
  "sfs_set_links v n = v\<lparr>inode_list := list_add (inode_list v) InodeList (InodeLink n),
     hash_list := list_add (hash_list v) (sfs_hash_list (sin_ino (sin_of v n))) (SinLink n)\<rparr>"

definition sfs_remove_links :: "vfs \<Rightarrow> nat \<Rightarrow> vfs" where
  "sfs_remove_links v n = v\<lparr>inode_list := list_del (inode_list v) (InodeLink n), hash_list := list_del (hash_list v) (SinLink n)\<rparr>"

definition sfs_get_ops :: "nat \<Rightarrow> inode_ops option" where
  "sfs_get_ops type = (if type = SFS_TYPE_DIR then Some DirOps else if type = SFS_TYPE_FILE then Some FileOps else None)"

section \<open>Reference counts\<close>

definition MAX_INODE_COUNT :: int where "MAX_INODE_COUNT = 0x10000"

definition inode_ref_inc :: "vfs \<Rightarrow> nat \<Rightarrow> int \<times> vfs" where
  "inode_ref_inc v n = (ref_count (inodes v n) + 1, upd_inode n (\<lambda>x. x\<lparr>ref_count := ref_count x + 1\<rparr>) v)"

definition inode_open_inc :: "vfs \<Rightarrow> nat \<Rightarrow> int \<times> vfs" where
  "inode_open_inc v n = (open_count (inodes v n) + 1, upd_inode n (\<lambda>x. x\<lparr>open_count := open_count x + 1\<rparr>) v)"

definition inode_check :: "vfs \<Rightarrow> nat \<Rightarrow> unit option" where
  "inode_check v n = do {
     let r = ref_count (inodes v n);
     let c = open_count (inodes v n);
     kassert (r \<ge> c \<and> c \<ge> 0);
     kassert (r < MAX_INODE_COUNT \<and> c < MAX_INODE_COUNT)
   }"

definition inode_init :: "vfs \<Rightarrow> nat \<Rightarrow> inode_ops \<Rightarrow> vfs" where
  "inode_init v n ops = snd (inode_ref_inc (upd_inode n (\<lambda>x. x\<lparr>ref_count := 0, open_count := 0, in_ops := ops\<rparr>) v) n)"

definition inode_kill :: "vfs \<Rightarrow> nat \<Rightarrow> unit option" where
  "inode_kill v n = do {
     kassert (ref_count (inodes v n) = 0);
     kassert (open_count (inodes v n) = 0)
   }"

section \<open>Loading\<close>

definition lookup_sfs_nolock :: "vfs \<Rightarrow> nat \<Rightarrow> (nat option \<times> vfs) option" where
  "lookup_sfs_nolock v ino = do {
     let list = sfs_hash_list ino;
     le \<leftarrow> list_scan (hash_list v) list (\<lambda>le. sin_ino (sin_of v (le2sin le)) = ino) list;
     if le = list then Some (None, v)
     else do {
       let n = le2sin le;
       let (count, v) = inode_ref_inc v n;
       let v = (if count = 1 then set_sin n ((sin_of v n)\<lparr>reclaim_count := reclaim_count (sin_of v n) + 1\<rparr>) v else v);
       Some (Some n, v)
     }
   }"

definition sfs_create_inode :: "vfs \<Rightarrow> sfs_disk_inode \<Rightarrow> nat \<Rightarrow> nat option \<Rightarrow> (int \<times> nat option \<times> vfs) option" where
  "sfs_create_inode v d ino new =
     (case new of
        None \<Rightarrow> Some (- E_NO_MEM, None, v)
      | Some n \<Rightarrow> do {
          ops \<leftarrow> sfs_get_ops (dn_type d);
          let v = inode_init v n ops;
          let v = set_sin n \<lparr>din = d, sin_ino = ino, sin_dirty = False, reclaim_count = 1\<rparr> v;
          Some (0, Some n, v)
        })"

text \<open>\<open>mem\<close> says whether the inode of the disk could be allocated, \<open>new\<close> where the inode in memory was.\<close>

definition sfs_load_inode :: "vfs \<Rightarrow> nat \<Rightarrow> bool \<Rightarrow> nat option \<Rightarrow> (int \<times> nat option \<times> vfs) option" where
  "sfs_load_inode v ino mem new = do {
     (found, v) \<leftarrow> lookup_sfs_nolock v ino;
     case found of
       Some n \<Rightarrow> Some (0, Some n, v)
     | None \<Rightarrow>
         if \<not> mem then Some (- E_NO_MEM, None, v)
         else do {
           used \<leftarrow> sfs_block_inuse (sfs v) ino;
           kassert used;
           (ret, buf, s) \<leftarrow> sfs_rbuf (sfs v) (replicate SFS_DINODE_SIZE 0) 0 SFS_DINODE_SIZE ino 0;
           let v = v\<lparr>sfs := s\<rparr>;
           if ret \<noteq> 0 then Some (ret, None, v)
           else do {
             let d = dinode_of buf;
             kassert (dn_nlinks d \<noteq> 0);
             (ret, store, v) \<leftarrow> sfs_create_inode v d ino new;
             if ret \<noteq> 0 then Some (ret, None, v)
             else do {
               n \<leftarrow> store;
               Some (0, Some n, sfs_set_links v n)
             }
           }
         }
   }"

section \<open>Operations through the table\<close>

text \<open>\<open>vop_fsync\<close> (\<open>sfs_fsync\<close> in both tables) and \<open>vop_truncate\<close> (absent from the table of directories).\<close>

definition vop_fsync :: "vfs \<Rightarrow> nat \<Rightarrow> (int \<times> vfs) option" where
  "vop_fsync v n = do {
     inode_check v n;
     (ret, sin, s) \<leftarrow> sfs_fsync (sfs v) (sin_of v n);
     Some (ret, set_sin n sin (v\<lparr>sfs := s\<rparr>))
   }"

definition vop_truncate :: "vfs \<Rightarrow> nat \<Rightarrow> int \<Rightarrow> (int \<times> vfs) option" where
  "vop_truncate v n len = do {
     kassert (in_ops (inodes v n) = FileOps);
     inode_check v n;
     (ret, sin, s) \<leftarrow> sfs_truncfile (sfs v) (sin_of v n) len;
     Some (ret, set_sin n sin (v\<lparr>sfs := s\<rparr>))
   }"

definition sfs_close :: "vfs \<Rightarrow> nat \<Rightarrow> (int \<times> vfs) option" where
  "sfs_close v n = vop_fsync v n"

definition vop_close :: "vfs \<Rightarrow> nat \<Rightarrow> (int \<times> vfs) option" where
  "vop_close v n = do { inode_check v n; sfs_close v n }"

section \<open>Dropping references\<close>

text \<open>\<open>sfs_reclaim\<close>.\<close>

definition sfs_reclaim :: "vfs \<Rightarrow> nat \<Rightarrow> (int \<times> vfs) option" where
  "sfs_reclaim v n = do {
     kassert (reclaim_count (sin_of v n) > 0);
     let v = set_sin n ((sin_of v n)\<lparr>reclaim_count := reclaim_count (sin_of v n) - 1\<rparr>) v;
     if reclaim_count (sin_of v n) \<noteq> 0 \<or> ref_count (inodes v n) \<noteq> 0 then Some (- E_BUSY, v)
     else do {
       (ret, v) \<leftarrow> (if dn_nlinks (din (sin_of v n)) = 0 then vop_truncate v n 0 else Some (0, v));
       if ret \<noteq> 0 then Some (ret, v)
       else do {
         (ret, v) \<leftarrow> (if sin_dirty (sin_of v n) then vop_fsync v n else Some (0, v));
         if ret \<noteq> 0 then Some (ret, v)
         else do {
           let v = sfs_remove_links v n;
           v \<leftarrow> (if dn_nlinks (din (sin_of v n)) = 0 then do {
                  s \<leftarrow> sfs_block_free (sfs v) (sin_ino (sin_of v n));
                  let ent = dn_indirect (din (sin_of v n));
                  s \<leftarrow> (if ent \<noteq> 0 then sfs_block_free s ent else Some s);
                  Some (v\<lparr>sfs := s\<rparr>)
                } else Some v);
           inode_kill v n;
           Some (0, v)
         }
       }
     }
   }"

definition vop_reclaim :: "vfs \<Rightarrow> nat \<Rightarrow> (int \<times> vfs) option" where
  "vop_reclaim v n = do { inode_check v n; sfs_reclaim v n }"

text \<open>The result of \<open>vop_reclaim\<close> and \<open>vop_close\<close> is only printed.\<close>

definition inode_ref_dec :: "vfs \<Rightarrow> nat \<Rightarrow> (int \<times> vfs) option" where
  "inode_ref_dec v n = do {
     kassert (ref_count (inodes v n) > 0);
     let v = upd_inode n (\<lambda>x. x\<lparr>ref_count := ref_count x - 1\<rparr>) v;
     let count = ref_count (inodes v n);
     v \<leftarrow> (if count = 0 then do { (ret, v) \<leftarrow> vop_reclaim v n; Some v } else Some v);
     Some (count, v)
   }"

definition inode_open_dec :: "vfs \<Rightarrow> nat \<Rightarrow> (int \<times> vfs) option" where
  "inode_open_dec v n = do {
     kassert (open_count (inodes v n) > 0);
     let v = upd_inode n (\<lambda>x. x\<lparr>open_count := open_count x - 1\<rparr>) v;
     let count = open_count (inodes v n);
     v \<leftarrow> (if count = 0 then do { (ret, v) \<leftarrow> vop_close v n; Some v } else Some v);
     Some (count, v)
   }"

definition vfs_close :: "vfs \<Rightarrow> nat \<Rightarrow> (int \<times> vfs) option" where
  "vfs_close v n = do {
     (_, v) \<leftarrow> inode_open_dec v n;
     (_, v) \<leftarrow> inode_ref_dec v n;
     Some (0, v)
   }"

section \<open>The invariant of the table\<close>

interpretation sin_hash: hash_chains SinList SinLink
  by unfold_locales simp_all

text \<open>\<open>ns\<close> are the loaded inodes: every one is in the list and in the chain of its number, and no number is
  loaded twice.\<close>

definition table_ok :: "vfs \<Rightarrow> nat list \<Rightarrow> bool" where
  "table_ok v ns \<longleftrightarrow> dlist (inode_list v) InodeList (map InodeLink ns)
     \<and> chained SinList SinLink (hash_list v) SFS_HLIST_SIZE (\<lambda>n. sin_hashfn (sin_ino (sin_of v n))) (set ns)
     \<and> inj_on (\<lambda>n. sin_ino (sin_of v n)) (set ns)"

lemma sin_hashfn_bound: "sin_hashfn x < SFS_HLIST_SIZE"
  using pid_hashfn_bound [of "int x"]
  by (simp add: pid_hashfn_def sin_hashfn_def SFS_HLIST_SIZE_def HASH_LIST_SIZE_def HASH_SHIFT_def SFS_HLIST_SHIFT_def)

lemma upd_inode_simps [simp]:
  "sfs (upd_inode n f v) = sfs v" "inode_list (upd_inode n f v) = inode_list v" "hash_list (upd_inode n f v) = hash_list v"
  "inodes (upd_inode n f v) m = (if m = n then f (inodes v n) else inodes v m)"
  by (simp_all add: upd_inode_def)

lemma set_sin_simps [simp]:
  "sfs (set_sin n sin v) = sfs v" "inode_list (set_sin n sin v) = inode_list v" "hash_list (set_sin n sin v) = hash_list v"
  "sin_of (set_sin n sin v) m = (if m = n then sin else sin_of v m)"
  "ref_count (inodes (set_sin n sin v) m) = ref_count (inodes v m)"
  "open_count (inodes (set_sin n sin v) m) = open_count (inodes v m)"
  "in_ops (inodes (set_sin n sin v) m) = in_ops (inodes v m)"
  by (simp_all add: set_sin_def sin_of_def)

lemma table_cong:
  assumes "inode_list v' = inode_list v" "hash_list v' = hash_list v" "\<And>n. n \<in> set ns \<Longrightarrow> sin_ino (sin_of v' n) = sin_ino (sin_of v n)"
  shows "table_ok v' ns = table_ok v ns"
proof -
  have "chained SinList SinLink (hash_list v) SFS_HLIST_SIZE (\<lambda>n. sin_hashfn (sin_ino (sin_of v' n))) (set ns)
      = chained SinList SinLink (hash_list v) SFS_HLIST_SIZE (\<lambda>n. sin_hashfn (sin_ino (sin_of v n))) (set ns)"
    by (rule chained_cong) (simp add: assms(3))
  moreover have "inj_on (\<lambda>n. sin_ino (sin_of v' n)) (set ns) = inj_on (\<lambda>n. sin_ino (sin_of v n)) (set ns)"
    by (rule inj_on_cong) (rule assms(3))
  ultimately show ?thesis by (simp add: table_ok_def assms(1,2))
qed

section \<open>Looking up and loading\<close>

text \<open>One more reference; the first one after none also counts against reclaiming.\<close>

definition referenced :: "vfs \<Rightarrow> nat \<Rightarrow> vfs" where
  "referenced v n = (let v' = snd (inode_ref_inc v n) in
     if ref_count (inodes v n) = 0 then set_sin n ((sin_of v n)\<lparr>reclaim_count := reclaim_count (sin_of v n) + 1\<rparr>) v' else v')"

lemma sin_of_upd [simp]: "sin_of (upd_inode m f v) n = (if n = m then in_sin (f (inodes v m)) else sin_of v n)"
  by (simp add: sin_of_def)

lemma lookup_none:
  assumes "table_ok v ns" "\<forall>n \<in> set ns. sin_ino (sin_of v n) \<noteq> ino"
  shows "lookup_sfs_nolock v ino = Some (None, v)"
proof -
  have "list_scan (hash_list v) (SinList (sin_hashfn ino)) (\<lambda>le. sin_ino (sin_of v (le2sin le)) = ino) (SinList (sin_hashfn ino))
      = Some (SinList (sin_hashfn ino))"
    using assms by (intro sin_hash.scan_none [OF _ sin_hashfn_bound]) (auto simp: table_ok_def)
  then show ?thesis by (simp add: lookup_sfs_nolock_def sfs_hash_list_def)
qed

lemma lookup_some:
  assumes t: "table_ok v ns" and n: "n \<in> set ns"
  shows "lookup_sfs_nolock v (sin_ino (sin_of v n)) = Some (Some n, referenced v n)"
proof -
  let ?ino = "sin_ino (sin_of v n)"
  have u: "m = n" if "m \<in> set ns" "sin_ino (sin_of v m) = ?ino" for m
    using t that n by (simp add: table_ok_def inj_on_def)
  have "list_scan (hash_list v) (SinList (sin_hashfn ?ino)) (\<lambda>le. sin_ino (sin_of v (le2sin le)) = ?ino) (SinList (sin_hashfn ?ino))
      = Some (SinLink n)"
    using t n u by (intro sin_hash.scan_unique [where h = "\<lambda>n. sin_hashfn (sin_ino (sin_of v n))", OF _ sin_hashfn_bound]) (auto simp: table_ok_def)
  then show ?thesis
    by (simp add: lookup_sfs_nolock_def sfs_hash_list_def referenced_def inode_ref_inc_def Let_def sin_of_def)
qed

lemma referenced_simps [simp]:
  "sfs (referenced v n) = sfs v" "inode_list (referenced v n) = inode_list v" "hash_list (referenced v n) = hash_list v"
  "ref_count (inodes (referenced v n) m) = (if m = n then ref_count (inodes v n) + 1 else ref_count (inodes v m))"
  "open_count (inodes (referenced v n) m) = open_count (inodes v m)" "in_ops (inodes (referenced v n) m) = in_ops (inodes v m)"
  "din (sin_of (referenced v n) m) = din (sin_of v m)" "sin_ino (sin_of (referenced v n) m) = sin_ino (sin_of v m)"
  "sin_dirty (sin_of (referenced v n) m) = sin_dirty (sin_of v m)"
  by (simp_all add: referenced_def inode_ref_inc_def Let_def) (simp_all add: sin_of_def)

lemma table_referenced [simp]: "table_ok (referenced v n) ns = table_ok v ns"
  by (rule table_cong) simp_all

lemma set_links_ok:
  assumes t: "table_ok v ns" and n: "n \<notin> set ns" and new: "\<forall>m \<in> set ns. sin_ino (sin_of v m) \<noteq> sin_ino (sin_of v n)"
  shows "table_ok (sfs_set_links v n) (n # ns)"
proof -
  have "dlist (list_add (inode_list v) InodeList (InodeLink n)) InodeList (InodeLink n # map InodeLink ns)"
    using t n by (intro dlist_add_head) (auto simp: table_ok_def)
  moreover have "chained SinList SinLink (list_add (hash_list v) (SinList (sin_hashfn (sin_ino (sin_of v n)))) (SinLink n)) SFS_HLIST_SIZE
      (\<lambda>n. sin_hashfn (sin_ino (sin_of v n))) (insert n (set ns))"
    using t n sin_hash.chained_add [where h = "\<lambda>n. sin_hashfn (sin_ino (sin_of v n))" and p = n, OF _ n sin_hashfn_bound]
    by (simp add: table_ok_def)
  moreover have "inj_on (\<lambda>n. sin_ino (sin_of v n)) (set (n # ns))" using t new n by (auto simp: table_ok_def)
  ultimately show ?thesis by (simp add: table_ok_def sfs_set_links_def sfs_hash_list_def sin_of_def)
qed

lemma remove_links_ok:
  assumes t: "table_ok v (us @ n # ws)"
  shows "table_ok (sfs_remove_links v n) (us @ ws)"
proof -
  have dn: "distinct (us @ n # ws)"
  proof -
    have "distinct (map InodeLink (us @ n # ws))" using t dlist_distinct [of "inode_list v" InodeList "map InodeLink (us @ n # ws)"] by (simp add: table_ok_def)
    then show ?thesis by (auto simp: distinct_map)
  qed
  have "dlist (list_del (inode_list v) (InodeLink n)) InodeList (map InodeLink us @ map InodeLink ws)"
    using t by (intro dlist_del) (simp add: table_ok_def)
  moreover have "set (us @ n # ws) - {n} = set (us @ ws)" using dn by auto
  then have "chained SinList SinLink (list_del (hash_list v) (SinLink n)) SFS_HLIST_SIZE (\<lambda>n. sin_hashfn (sin_ino (sin_of v n))) (set (us @ ws))"
    using t sin_hash.chained_del [where h = "\<lambda>n. sin_hashfn (sin_ino (sin_of v n))" and p = n and S = "set (us @ n # ws)", OF _ _ sin_hashfn_bound]
    by (simp add: table_ok_def)
  moreover have "inj_on (\<lambda>n. sin_ino (sin_of v n)) (set (us @ ws))"
    using t unfolding table_ok_def by (elim conjE) (erule inj_on_subset, auto)
  ultimately show ?thesis by (simp add: table_ok_def sfs_remove_links_def sin_of_def)
qed

text \<open>The inode the disk holds in block \<open>ino\<close>.\<close>

definition disk_inode :: "sfs_fs \<Rightarrow> nat \<Rightarrow> sfs_disk_inode" where
  "disk_inode s ino = dinode_of (take 64 (block_bytes s ino))"

definition loaded :: "vfs \<Rightarrow> nat \<Rightarrow> nat \<Rightarrow> inode_ops \<Rightarrow> vfs" where
  "loaded v ino n ops = sfs_set_links (set_sin n \<lparr>din = disk_inode (sfs v) ino, sin_ino = ino, sin_dirty = False, reclaim_count = 1\<rparr>
     (inode_init v n ops)) n"

lemma load_new:
  assumes ok: "fs_ok (sfs v)" "used (sfs v) ino" and t: "table_ok v ns" "\<forall>n \<in> set ns. sin_ino (sin_of v n) \<noteq> ino"
    and d: "dn_nlinks (disk_inode (sfs v) ino) \<noteq> 0" "sfs_get_ops (dn_type (disk_inode (sfs v) ino)) = Some ops"
  shows "sfs_load_inode v ino True new = (case new of None \<Rightarrow> Some (- E_NO_MEM, None, v) | Some n \<Rightarrow> Some (0, Some n, loaded v ino n ops))"
proof -
  have "sfs_rbuf (sfs v) (replicate 64 0) 0 64 ino 0 = Some (0, take 64 (block_bytes (sfs v) ino), sfs v)"
    using rbuf_ok [OF ok(1), of ino 0 64 "replicate 64 0" 0] ok(2) by (simp add: used_def)
  then show ?thesis using lookup_none [OF t] inuse_used [OF ok] d
    by (cases new) (simp_all add: sfs_load_inode_def SFS_DINODE_SIZE_def disk_inode_def sfs_create_inode_def loaded_def E_NO_MEM_def Let_def)
qed

lemma loaded_ok:
  assumes t: "table_ok v ns" "\<forall>n \<in> set ns. sin_ino (sin_of v n) \<noteq> ino" "n \<notin> set ns"
  shows "table_ok (loaded v ino n ops) (n # ns)" "sfs (loaded v ino n ops) = sfs v" "din (sin_of (loaded v ino n ops) n) = disk_inode (sfs v) ino"
    "ref_count (inodes (loaded v ino n ops) n) = 1" "open_count (inodes (loaded v ino n ops) n) = 0" "in_ops (inodes (loaded v ino n ops) n) = ops"
    "reclaim_count (sin_of (loaded v ino n ops) n) = 1" "sin_ino (sin_of (loaded v ino n ops) n) = ino"
    "\<And>m. m \<noteq> n \<Longrightarrow> inodes (loaded v ino n ops) m = inodes v m"
proof -
  let ?v = "set_sin n \<lparr>din = disk_inode (sfs v) ino, sin_ino = ino, sin_dirty = False, reclaim_count = 1\<rparr> (inode_init v n ops)"
  have "table_ok ?v ns" using t(1,3) by (subst table_cong [of ?v v]) (auto simp: inode_init_def inode_ref_inc_def)
  then show "table_ok (loaded v ino n ops) (n # ns)" unfolding loaded_def using t(2,3)
    by (intro set_links_ok) (auto simp: inode_init_def inode_ref_inc_def)
  show "sfs (loaded v ino n ops) = sfs v" "din (sin_of (loaded v ino n ops) n) = disk_inode (sfs v) ino"
    "ref_count (inodes (loaded v ino n ops) n) = 1" "open_count (inodes (loaded v ino n ops) n) = 0" "in_ops (inodes (loaded v ino n ops) n) = ops"
    "reclaim_count (sin_of (loaded v ino n ops) n) = 1" "sin_ino (sin_of (loaded v ino n ops) n) = ino"
    "\<And>m. m \<noteq> n \<Longrightarrow> inodes (loaded v ino n ops) m = inodes v m"
    by (simp_all add: loaded_def sfs_set_links_def inode_init_def inode_ref_inc_def sin_of_def set_sin_def)
qed

text \<open>C19: \<open>sfs_load_inode\<close> keeps every inode at most once in memory. If an inode with the number is loaded, it
  gains a reference and nothing is read; otherwise the inode is read from its block into the new address,
  with one reference, and enters the table; without memory the call returns \<open>E_NO_MEM\<close> and changes nothing.\<close>

theorem sfs_load_inode_once:
  assumes "table_ok v ns" "fs_ok (sfs v)" "used (sfs v) ino" "\<forall>m. new = Some m \<longrightarrow> m \<notin> set ns"
    and "dn_nlinks (disk_inode (sfs v) ino) \<noteq> 0" "sfs_get_ops (dn_type (disk_inode (sfs v) ino)) = Some iops"
  shows "if \<exists>n \<in> set ns. sin_ino (sin_of v n) = ino
    then \<exists>n v'. n \<in> set ns \<and> sin_ino (sin_of v n) = ino \<and> sfs_load_inode v ino mem new = Some (0, Some n, v') \<and> table_ok v' ns
      \<and> sfs v' = sfs v \<and> ref_count (inodes v' n) = ref_count (inodes v n) + 1 \<and> (\<forall>k. k \<noteq> n \<longrightarrow> inodes v' k = inodes v k)
    else case (if mem then new else None) of
      None \<Rightarrow> sfs_load_inode v ino mem new = Some (- E_NO_MEM, None, v)
    | Some m \<Rightarrow> \<exists>v'. sfs_load_inode v ino mem new = Some (0, Some m, v') \<and> table_ok v' (m # ns) \<and> sfs v' = sfs v
        \<and> ref_count (inodes v' m) = 1 \<and> open_count (inodes v' m) = 0 \<and> in_ops (inodes v' m) = iops
        \<and> din (sin_of v' m) = disk_inode (sfs v) ino \<and> sin_ino (sin_of v' m) = ino \<and> (\<forall>k. k \<noteq> m \<longrightarrow> inodes v' k = inodes v k)"
proof (cases "\<exists>n \<in> set ns. sin_ino (sin_of v n) = ino")
  case True
  then obtain n where n: "n \<in> set ns" "sin_ino (sin_of v n) = ino" by blast
  have k: "inodes (referenced v n) k = inodes v k" if "k \<noteq> n" for k
    using that by (simp add: referenced_def inode_ref_inc_def set_sin_def Let_def)
  have l: "sfs_load_inode v ino mem new = Some (0, Some n, referenced v n)"
    using lookup_some [OF assms(1) n(1)] n(2) by (simp add: sfs_load_inode_def)
  show ?thesis unfolding if_P [OF True]
    by (intro exI [of _ n] exI [of _ "referenced v n"]) (simp add: n l k assms(1))
next
  case no: False
  then have t: "\<forall>n \<in> set ns. sin_ino (sin_of v n) \<noteq> ino" by blast
  show ?thesis
  proof (cases "if mem then new else None")
    case None
    have "sfs_load_inode v ino mem new = Some (- E_NO_MEM, None, v)"
    proof (cases mem)
      case True
      then show ?thesis using None load_new [OF assms(2,3,1) t assms(5,6), of new] by simp
    next
      case False
      then show ?thesis using lookup_none [OF assms(1) t] by (simp add: sfs_load_inode_def)
    qed
    then show ?thesis unfolding if_not_P [OF no] None by simp
  next
    case (Some m)
    then have nm: "mem" "new = Some m" by (auto split: if_splits)
    then have m: "m \<notin> set ns" using assms(4) by blast
    show ?thesis unfolding if_not_P [OF no] Some option.case
      by (intro exI [of _ "loaded v ino m iops"])
        (use nm load_new [OF assms(2,3,1) t assms(5,6), of new] loaded_ok [OF assms(1) t m, where ops = iops] in simp)
  qed
qed

section \<open>Reclaiming\<close>

lemma disk_inode_written:
  assumes "dinode_fits d"
  shows "disk_inode (set_block s ino (splice (block_bytes s ino) 0 (dinode_bytes d))) ino = d"
proof -
  have l: "length (dinode_bytes d) = 64" using assms by (simp add: dinode_fits_def)
  then have "take 64 (splice (block_bytes s ino) 0 (dinode_bytes d)) = dinode_bytes d" by (simp add: splice_def)
  moreover have "dinode_of (dinode_bytes d) = d" using dinode_of_bytes [OF assms, of "[]"] by simp
  ultimately show ?thesis using l by (simp add: disk_inode_def block_set)
qed

lemma ref_dec_shared:
  "1 < ref_count (inodes v n) \<Longrightarrow>
   inode_ref_dec v n = Some (ref_count (inodes v n) - 1, upd_inode n (\<lambda>x. x\<lparr>ref_count := ref_count x - 1\<rparr>) v)"
  by (simp add: inode_ref_dec_def Let_def)

text \<open>What is written when the last reference of a linked inode goes.\<close>

definition synced :: "vfs \<Rightarrow> nat \<Rightarrow> sfs_fs" where
  "synced v n = (let sin = sin_of v n in
     if sin_dirty sin then set_block (sfs v) (sin_ino sin) (splice (block_bytes (sfs v) (sin_ino sin)) 0 (dinode_bytes (din sin))) else sfs v)"

lemma ref_dec_last:
  assumes t: "table_ok v (us @ n # ws)" and ok: "fs_ok (sfs v)" "used (sfs v) (sin_ino (sin_of v n))" "dinode_fits (din (sin_of v n))"
    and c: "ref_count (inodes v n) = 1" "open_count (inodes v n) = 0" "reclaim_count (sin_of v n) = 1" "dn_nlinks (din (sin_of v n)) \<noteq> 0"
  shows "\<exists>v'. inode_ref_dec v n = Some (0, v') \<and> table_ok v' (us @ ws) \<and> sfs v' = synced v n \<and> (\<forall>m. m \<noteq> n \<longrightarrow> inodes v' m = inodes v m)"
proof -
  let ?sin = "(sin_of v n)\<lparr>reclaim_count := 0\<rparr>"
  define v1 where "v1 = upd_inode n (\<lambda>x. x\<lparr>ref_count := ref_count x - 1\<rparr>) v"
  have f1: "sin_of v1 n = sin_of v n" "ref_count (inodes v1 n) = 0" "open_count (inodes v1 n) = 0" "sfs v1 = sfs v"
    "inode_list v1 = inode_list v" "hash_list v1 = hash_list v" "\<And>m. m \<noteq> n \<Longrightarrow> inodes v1 m = inodes v m"
    using c(1,2) by (simp_all add: v1_def sin_of_def)
  define v2 where "v2 = set_sin n ((sin_of v1 n)\<lparr>reclaim_count := reclaim_count (sin_of v1 n) - 1\<rparr>) v1"
  have f2: "sin_of v2 n = ?sin" "ref_count (inodes v2 n) = 0" "open_count (inodes v2 n) = 0" "sfs v2 = sfs v"
    "inode_list v2 = inode_list v" "hash_list v2 = hash_list v" "\<And>m. m \<noteq> n \<Longrightarrow> inodes v2 m = inodes v m"
    using f1 c(3) by (simp_all add: v2_def) (simp add: set_sin_def)
  define v3 where "v3 = (if sin_dirty (sin_of v n) then set_sin n (?sin\<lparr>sin_dirty := False\<rparr>) (v2\<lparr>sfs := synced v n\<rparr>) else v2)"
  have chk: "inode_check v1 n = Some ()" "inode_check v2 n = Some ()"
    using f1(2,3) f2(2,3) by (simp_all add: inode_check_def MAX_INODE_COUNT_def)
  have sync: "(if sin_dirty (sin_of v2 n) then vop_fsync v2 n else Some (0, v2)) = Some (0, v3)"
    using fsync_ok [OF ok(1), of ?sin] ok(2,3) chk(2) f2(1,4) by (simp add: vop_fsync_def v3_def synced_def Let_def)
  have f3: "din (sin_of v3 n) = din (sin_of v n)" "ref_count (inodes v3 n) = 0" "open_count (inodes v3 n) = 0" "sfs v3 = synced v n"
    "inode_list v3 = inode_list v" "hash_list v3 = hash_list v" "sin_ino (sin_of v3 n) = sin_ino (sin_of v n)"
    "\<And>m. m \<noteq> n \<Longrightarrow> inodes v3 m = inodes v m"
    using f2 by (simp_all add: v3_def synced_def) (simp_all add: set_sin_def)
  have eq3: "sin_ino (sin_of v3 m) = sin_ino (sin_of v m)" for m
    using f3(7) f3(8) [of m] by (cases "m = n") (simp_all add: sin_of_def)
  have rec: "reclaim_count (sin_of v1 n) > 0" "reclaim_count (sin_of v2 n) = 0" "dn_nlinks (din (sin_of v2 n)) \<noteq> 0"
    using f1(1) f2(1) c(3,4) by simp_all
  have rl: "sin_of (sfs_remove_links v3 n) n = sin_of v3 n" "inodes (sfs_remove_links v3 n) = inodes v3"
    by (simp_all add: sfs_remove_links_def sin_of_def)
  have "sfs_reclaim v1 n = Some (0, sfs_remove_links v3 n)"
    unfolding sfs_reclaim_def Let_def v2_def [symmetric]
    using rec f2(2) sync f3(1-3) rl c(4) by (simp add: inode_kill_def)
  then have "vop_reclaim v1 n = Some (0, sfs_remove_links v3 n)" using chk(1) by (simp add: vop_reclaim_def)
  then have r: "inode_ref_dec v n = Some (0, sfs_remove_links v3 n)"
    using c(1) f1(2) unfolding inode_ref_dec_def Let_def v1_def [symmetric] by simp
  have "table_ok v3 (us @ n # ws)" using t f3(5,6) eq3 by (subst table_cong [of v3 v]) auto
  from remove_links_ok [OF this] r f3(4,8) show ?thesis
    by (intro exI [of _ "sfs_remove_links v3 n"]) (auto simp: sfs_remove_links_def)
qed

lemma synced_simps: "fs_ok (synced v n) = fs_ok (sfs v)" "used (synced v n) b = used (sfs v) b"
  by (simp_all add: synced_def Let_def)

text \<open>C20: An inode survives leaving memory. When the last reference to a linked inode is dropped, the inode is
  written to its block if it was modified and leaves the table; loading its number again gives an inode
  with exactly the same contents.\<close>

theorem sfs_inode_persists:
  assumes "table_ok v (us @ n # ws)" "fs_ok (sfs v)" "used (sfs v) (sin_ino (sin_of v n))" "dinode_fits (din (sin_of v n))"
    and "ref_count (inodes v n) = 1" "open_count (inodes v n) = 0" "reclaim_count (sin_of v n) = 1" "dn_nlinks (din (sin_of v n)) \<noteq> 0"
    and "sfs_get_ops (dn_type (din (sin_of v n))) = Some iops" "m \<notin> set (us @ ws)"
    and "\<not> sin_dirty (sin_of v n) \<longrightarrow> disk_inode (sfs v) (sin_ino (sin_of v n)) = din (sin_of v n)"
  shows "\<exists>v' v''. inode_ref_dec v n = Some (0, v') \<and> table_ok v' (us @ ws)
    \<and> sfs_load_inode v' (sin_ino (sin_of v n)) True (Some m) = Some (0, Some m, v'') \<and> table_ok v'' (m # us @ ws)
    \<and> din (sin_of v'' m) = din (sin_of v n) \<and> in_ops (inodes v'' m) = iops \<and> ref_count (inodes v'' m) = 1"
proof -
  let ?ino = "sin_ino (sin_of v n)"
  obtain v' where v': "inode_ref_dec v n = Some (0, v')" "table_ok v' (us @ ws)" "sfs v' = synced v n" "\<forall>m. m \<noteq> n \<longrightarrow> inodes v' m = inodes v m"
    using ref_dec_last [OF assms(1-8)] by blast
  have "distinct (map InodeLink (us @ n # ws))"
    using assms(1) dlist_distinct [of "inode_list v" InodeList "map InodeLink (us @ n # ws)"] by (simp add: table_ok_def)
  then have nn: "n \<notin> set (us @ ws)" by (auto simp: distinct_map)
  have t: "\<forall>k \<in> set (us @ ws). sin_ino (sin_of v' k) \<noteq> ?ino"
  proof
    fix k assume k: "k \<in> set (us @ ws)"
    then have "k \<noteq> n" using nn by blast
    then have "sin_of v' k = sin_of v k" using v'(4) by (simp add: sin_of_def)
    moreover have "sin_ino (sin_of v k) \<noteq> ?ino"
      using assms(1) k \<open>k \<noteq> n\<close> unfolding table_ok_def inj_on_def by auto
    ultimately show "sin_ino (sin_of v' k) \<noteq> ?ino" by simp
  qed
  have d: "disk_inode (sfs v') ?ino = din (sin_of v n)"
    using disk_inode_written [OF assms(4)] assms(11) v'(3) by (simp add: synced_def Let_def)
  have ok: "fs_ok (sfs v')" "used (sfs v') ?ino" using assms(2,3) v'(3) by (simp_all add: synced_simps)
  have "sfs_load_inode v' ?ino True (Some m) = Some (0, Some m, loaded v' ?ino m iops)"
    using load_new [OF ok v'(2) t, of iops "Some m"] assms(8,9) d by simp
  then show ?thesis using v'(1,2) loaded_ok [OF v'(2) t assms(10), where ops = iops] d by auto
qed

section \<open>A table of one inode\<close>

definition demo_inode :: inode where
  "demo_inode = \<lparr>in_sin = demo_file\<lparr>sin_dirty := True\<rparr>, ref_count = 1, open_count = 0, in_ops = FileOps\<rparr>"

definition demo_vfs :: vfs where
  "demo_vfs = sfs_set_links \<lparr>sfs = demo_sfs, inodes = (\<lambda>_. demo_inode), inode_list = \<lparr>nxt = \<lambda>x. x, prv = \<lambda>x. x\<rparr>,
     hash_list = \<lparr>nxt = \<lambda>x. x, prv = \<lambda>x. x\<rparr>\<rparr> 7"

lemma demo_vfs_ok: "table_ok demo_vfs [7]"
proof -
  have "table_ok \<lparr>sfs = demo_sfs, inodes = (\<lambda>_. demo_inode), inode_list = \<lparr>nxt = \<lambda>x. x, prv = \<lambda>x. x\<rparr>,
     hash_list = \<lparr>nxt = \<lambda>x. x, prv = \<lambda>x. x\<rparr>\<rparr> []"
    by (simp add: table_ok_def chained_def)
  then show ?thesis unfolding demo_vfs_def by (intro set_links_ok) simp_all
qed

lemma demo_vfs_simps: "sfs demo_vfs = demo_sfs" "inodes demo_vfs n = demo_inode" "sin_of demo_vfs n = demo_file\<lparr>sin_dirty := True\<rparr>"
  by (simp_all add: demo_vfs_def sfs_set_links_def sin_of_def demo_inode_def)

lemma demo_ino: "sin_ino demo_file = 3" "used demo_sfs 3" "dinode_fits (din demo_file)" "reclaim_count demo_file = 1"
  by (simp_all add: demo_file_def used_def free_blocks_def demo_free dinode_fits_def) (simp_all add: demo_sfs_def)

theorem sfs_inode_persists_witness:
  "\<exists>v' v''. inode_ref_dec demo_vfs 7 = Some (0, v') \<and> table_ok v' []
    \<and> sfs_load_inode v' 3 True (Some 9) = Some (0, Some 9, v'') \<and> din (sin_of v'' 9) = din demo_file"
proof -
  have "table_ok demo_vfs ([] @ 7 # [])" using demo_vfs_ok by simp
  from sfs_inode_persists [OF this, of FileOps 9] show ?thesis
    using demo_ino demo_sfs_ok(1)
    by (auto simp: demo_vfs_simps demo_inode_def sfs_get_ops_def) (auto simp: demo_file_def SFS_TYPE_FILE_def SFS_TYPE_DIR_def)
qed

definition demo_vfs_synced :: vfs where
  "demo_vfs_synced = demo_vfs\<lparr>sfs := set_block demo_sfs 3 (splice (block_bytes demo_sfs 3) 0 (dinode_bytes (din demo_file)))\<rparr>"

lemma demo_synced: "table_ok demo_vfs_synced [7]" "fs_ok (sfs demo_vfs_synced)" "used (sfs demo_vfs_synced) 3"
  "disk_inode (sfs demo_vfs_synced) 3 = din demo_file" "sin_ino (sin_of demo_vfs_synced 7) = 3" "inodes demo_vfs_synced n = demo_inode"
proof -
  show "table_ok demo_vfs_synced [7]" using demo_vfs_ok by (subst table_cong [of demo_vfs_synced demo_vfs]) (simp_all add: demo_vfs_synced_def sin_of_def)
  show "disk_inode (sfs demo_vfs_synced) 3 = din demo_file" using disk_inode_written [OF demo_ino(3)] by (simp add: demo_vfs_synced_def)
qed (use demo_sfs_ok demo_ino in \<open>simp_all add: demo_vfs_synced_def demo_vfs_simps sin_of_def demo_inode_def\<close>)

theorem sfs_load_inode_once_witness:
  "(\<exists>v'. sfs_load_inode demo_vfs_synced 3 True (Some 9) = Some (0, Some 7, v') \<and> table_ok v' [7] \<and> ref_count (inodes v' 7) = 2)"
proof -
  have "dn_nlinks (disk_inode (sfs demo_vfs_synced) 3) \<noteq> 0" "sfs_get_ops (dn_type (disk_inode (sfs demo_vfs_synced) 3)) = Some FileOps"
    unfolding demo_synced(4) by (simp_all add: demo_file_def sfs_get_ops_def SFS_TYPE_DIR_def SFS_TYPE_FILE_def)
  from sfs_load_inode_once [OF demo_synced(1-3) _ this, of "Some 9" True] show ?thesis
    using demo_synced(5,6) by (auto simp: demo_inode_def)
qed

end
