(* ===== verification/Vfs.thy ===== *)
theory Vfs
  imports SfsNode
begin

text \<open>
  Paths and opening in the virtual file system (\<open>kern/fs/vfs/vfslookup.c\<close>, \<open>vfsfile.c\<close> and the directory
  functions of \<open>vfspath.c\<close> and \<open>vfs.c\<close>), with \<open>sfs_lookup\<close> and the operations reached through the two
  function tables. A path is a string in kernel memory, which the parsing cuts at a colon. Arguments of the
  routines are: the current directory and the boot directory (addresses of inodes), what \<open>vfs_get_root\<close>
  returns for a device name, and the results of the calls of \<open>kmalloc\<close>: the entry buffer of a search and
  the memory for an inode.
\<close>

section \<open>Memory for one lookup\<close>

record kmem =
  k_entry :: nat
  k_din :: bool
  k_node :: "nat option"

section \<open>sfs_lookup\<close>

text \<open>\<open>sfs_lookup_once\<close> and \<open>sfs_lookup\<close> of \<open>kern/fs/sfs/sfs_inode.c\<close>.\<close>

definition sfs_lookup_once :: "vfs \<Rightarrow> nat \<Rightarrow> mem \<Rightarrow> nat \<Rightarrow> kmem \<Rightarrow> (int \<times> nat option \<times> mem \<times> vfs) option" where
  "sfs_lookup_once v n m name k = do {
     (ret, found, _, m, sin, s) \<leftarrow> sfs_dirent_search_nolock (sfs v) (sin_of v n) m name (k_entry k);
     let v = set_sin n sin (v\<lparr>sfs := s\<rparr>);
     if ret = 0 then do {
       (_, ino) \<leftarrow> found;
       (ret, node, v) \<leftarrow> sfs_load_inode v ino (k_din k) (k_node k);
       Some (ret, node, m, v)
     } else Some (ret, None, m, v)
   }"

definition sfs_lookup :: "vfs \<Rightarrow> nat \<Rightarrow> mem \<Rightarrow> nat \<Rightarrow> kmem \<Rightarrow> (int \<times> nat option \<times> mem \<times> vfs) option" where
  "sfs_lookup v n m path k = do {
     kassert (m path \<noteq> 0 \<and> m path \<noteq> 47);
     let (_, v) = inode_ref_inc v n;
     if dn_type (din (sin_of v n)) \<noteq> SFS_TYPE_DIR then do {
       (_, v) \<leftarrow> inode_ref_dec v n;
       Some (- E_NOTDIR, None, m, v)
     } else do {
       (ret, subnode, m, v) \<leftarrow> sfs_lookup_once v n m path k;
       (_, v) \<leftarrow> inode_ref_dec v n;
       Some (ret, if ret \<noteq> 0 then None else subnode, m, v)
     }
   }"

section \<open>Operations through the tables\<close>

definition vop_lookup :: "vfs \<Rightarrow> nat \<Rightarrow> mem \<Rightarrow> nat \<Rightarrow> kmem \<Rightarrow> (int \<times> nat option \<times> mem \<times> vfs) option" where
  "vop_lookup v n m path k = do {
     kassert (in_ops (inodes v n) = DirOps);
     inode_check v n;
     sfs_lookup v n m path k
   }"

definition vop_open :: "vfs \<Rightarrow> nat \<Rightarrow> 32 word \<Rightarrow> int option" where
  "vop_open v n open_flags = do {
     inode_check v n;
     Some (case in_ops (inodes v n) of DirOps \<Rightarrow> sfs_opendir open_flags | FileOps \<Rightarrow> sfs_openfile open_flags)
   }"

definition vop_read :: "vfs \<Rightarrow> nat \<Rightarrow> iobuf \<Rightarrow> (int \<times> iobuf \<times> vfs) option" where
  "vop_read v n iob = do {
     kassert (in_ops (inodes v n) = FileOps);
     inode_check v n;
     (ret, iob, sin, s) \<leftarrow> sfs_read (sfs v) (sin_of v n) iob;
     Some (ret, iob, set_sin n sin (v\<lparr>sfs := s\<rparr>))
   }"

definition vop_write :: "vfs \<Rightarrow> nat \<Rightarrow> iobuf \<Rightarrow> (int \<times> iobuf \<times> vfs) option" where
  "vop_write v n iob = do {
     kassert (in_ops (inodes v n) = FileOps);
     inode_check v n;
     (ret, iob, sin, s) \<leftarrow> sfs_write (sfs v) (sin_of v n) iob;
     Some (ret, iob, set_sin n sin (v\<lparr>sfs := s\<rparr>))
   }"

definition vop_gettype :: "vfs \<Rightarrow> nat \<Rightarrow> (int \<times> nat) option" where
  "vop_gettype v n = do { inode_check v n; sfs_gettype (sin_of v n) }"

definition vop_fstat :: "vfs \<Rightarrow> nat \<Rightarrow> (int \<times> stat) option" where
  "vop_fstat v n = do { inode_check v n; sfs_fstat (sin_of v n) }"

definition vop_tryseek :: "vfs \<Rightarrow> nat \<Rightarrow> int \<Rightarrow> (int \<times> vfs) option" where
  "vop_tryseek v n pos = do {
     kassert (in_ops (inodes v n) = FileOps);
     inode_check v n;
     (ret, sin, s) \<leftarrow> sfs_tryseek (sfs v) (sin_of v n) pos;
     Some (ret, set_sin n sin (v\<lparr>sfs := s\<rparr>))
   }"

definition vop_getdirentry :: "vfs \<Rightarrow> nat \<Rightarrow> mem \<Rightarrow> nat \<Rightarrow> iobuf \<Rightarrow> (int \<times> iobuf \<times> mem \<times> vfs) option" where
  "vop_getdirentry v n m ep iob = do {
     kassert (in_ops (inodes v n) = DirOps);
     inode_check v n;
     (ret, iob, m, sin, s) \<leftarrow> sfs_getdirentry (sfs v) (sin_of v n) m ep iob;
     Some (ret, iob, m, set_sin n sin (v\<lparr>sfs := s\<rparr>))
   }"

text \<open>Neither table has a \<open>vop_create\<close>.\<close>

definition vop_create :: "vfs \<Rightarrow> nat \<Rightarrow> nat \<Rightarrow> bool \<Rightarrow> (int \<times> nat option \<times> vfs) option" where
  "vop_create v n name excl = None"

section \<open>Directories to start from\<close>

definition vfs_get_curdir :: "vfs \<Rightarrow> nat option \<Rightarrow> int \<times> nat option \<times> vfs" where
  "vfs_get_curdir v pwd =
     (case pwd of None \<Rightarrow> (- E_NOENT, None, v)
      | Some n \<Rightarrow> let (_, v) = inode_ref_inc v n in (0, Some n, v))"

definition vfs_get_bootfs :: "vfs \<Rightarrow> nat option \<Rightarrow> int \<times> nat option \<times> vfs" where
  "vfs_get_bootfs v bootfs_node =
     (case bootfs_node of None \<Rightarrow> (- E_NOENT, None, v)
      | Some n \<Rightarrow> let (_, v) = inode_ref_inc v n in (0, Some n, v))"

definition sfs_get_root :: "vfs \<Rightarrow> kmem \<Rightarrow> (nat \<times> vfs) option" where
  "sfs_get_root v k = do {
     (ret, node, v) \<leftarrow> sfs_load_inode v SFS_BLKN_ROOT (k_din k) (k_node k);
     kassert (ret = 0);
     n \<leftarrow> node;
     Some (n, v)
   }"

section \<open>Parsing a path\<close>

text \<open>The first colon or slash of the path: \<open>slash\<close> and \<open>colon\<close>, \<open>None\<close> where the code has \<open>-1\<close>.\<close>

partial_function (option) device_scan :: "mem \<Rightarrow> nat \<Rightarrow> nat \<Rightarrow> (nat option \<times> nat option) option" where
  "device_scan m path i =
     (if m (path + i) = 0 then Some (None, None)
      else if m (path + i) = 58 then Some (None, Some i)
      else if m (path + i) = 47 then Some (Some i, None)
      else device_scan m path (i + 1))"

partial_function (option) skip_slashes :: "mem \<Rightarrow> nat \<Rightarrow> nat option" where
  "skip_slashes m p = (if m p = 47 then skip_slashes m (p + 1) else Some p)"

type_synonym root_fun = "mem \<Rightarrow> nat \<Rightarrow> vfs \<Rightarrow> (int \<times> nat option \<times> vfs) option"

definition get_device ::
  "vfs \<Rightarrow> mem \<Rightarrow> nat \<Rightarrow> nat option \<Rightarrow> nat option \<Rightarrow> root_fun \<Rightarrow> kmem \<Rightarrow> (int \<times> nat \<times> nat option \<times> mem \<times> vfs) option" where
  "get_device v m path pwd boot get_root k = do {
     (slash, colon) \<leftarrow> device_scan m path 0;
     if colon = None \<and> slash \<noteq> Some 0 then
       (let (ret, node, v) = vfs_get_curdir v pwd in Some (ret, path, node, m, v))
     else case colon of
       Some (Suc c) \<Rightarrow> do {
         let m = m(path + Suc c := 0);
         subpath \<leftarrow> skip_slashes m (path + Suc c + 1);
         (ret, node, v) \<leftarrow> get_root m path v;
         Some (ret, subpath, node, m, v)
       }
     | _ \<Rightarrow> do {
         (ret, node, v) \<leftarrow>
           (if m path = 47 then Some (vfs_get_bootfs v boot)
            else do {
              kassert (m path = 58);
              let (ret, node, v) = vfs_get_curdir v pwd;
              if ret \<noteq> 0 then Some (ret, node, v)
              else do {
                n \<leftarrow> node;
                (root, v) \<leftarrow> sfs_get_root v k;
                (_, v) \<leftarrow> inode_ref_dec v n;
                Some (0, Some root, v)
              }
            });
         if ret \<noteq> 0 then Some (ret, path, None, m, v)
         else do {
           subpath \<leftarrow> skip_slashes m (path + 1);
           Some (0, subpath, node, m, v)
         }
       }
   }"

definition vfs_lookup ::
  "vfs \<Rightarrow> mem \<Rightarrow> nat \<Rightarrow> nat option \<Rightarrow> nat option \<Rightarrow> root_fun \<Rightarrow> kmem \<Rightarrow> (int \<times> nat option \<times> mem \<times> vfs) option" where
  "vfs_lookup v m path pwd boot get_root k = do {
     (ret, path, node, m, v) \<leftarrow> get_device v m path pwd boot get_root k;
     if ret \<noteq> 0 then Some (ret, None, m, v)
     else do {
       n \<leftarrow> node;
       if m path \<noteq> 0 then do {
         (ret, store, m, v) \<leftarrow> vop_lookup v n m path k;
         (_, v) \<leftarrow> inode_ref_dec v n;
         Some (ret, store, m, v)
       } else Some (0, Some n, m, v)
     }
   }"

definition vfs_lookup_parent ::
  "vfs \<Rightarrow> mem \<Rightarrow> nat \<Rightarrow> nat option \<Rightarrow> nat option \<Rightarrow> root_fun \<Rightarrow> kmem \<Rightarrow> (int \<times> nat option \<times> nat \<times> mem \<times> vfs) option" where
  "vfs_lookup_parent v m path pwd boot get_root k = do {
     (ret, path, node, m, v) \<leftarrow> get_device v m path pwd boot get_root k;
     if ret \<noteq> 0 then Some (ret, None, path, m, v) else Some (0, node, path, m, v)
   }"

section \<open>Opening\<close>

definition vfs_open ::
  "vfs \<Rightarrow> mem \<Rightarrow> nat \<Rightarrow> 32 word \<Rightarrow> nat option \<Rightarrow> nat option \<Rightarrow> root_fun \<Rightarrow> kmem \<Rightarrow> (int \<times> nat option \<times> mem \<times> vfs) option" where
  "vfs_open v m path open_flags pwd boot get_root k =
     (let mode = open_flags AND O_ACCMODE;
          can_write = (mode = O_WRONLY \<or> mode = O_RDWR)
      in if mode \<noteq> O_RDONLY \<and> \<not> can_write then Some (- E_INVAL, None, m, v)
         else if open_flags AND O_TRUNC \<noteq> 0 \<and> \<not> can_write then Some (- E_INVAL, None, m, v)
         else do {
           let excl = (open_flags AND O_EXCL \<noteq> 0);
           let create = (open_flags AND O_CREAT \<noteq> 0);
           (ret, node, m, v) \<leftarrow> vfs_lookup v m path pwd boot get_root k;
           if ret \<noteq> 0 \<and> \<not> (ret = -16 \<and> create) then Some (ret, None, m, v)
           else if ret = 0 \<and> excl \<and> create then Some (- E_EXISTS, None, m, v)
           else do {
             (ret, node, m, v) \<leftarrow>
               (if ret \<noteq> 0 then do {
                  (ret, dir, name, m, v) \<leftarrow> vfs_lookup_parent v m path pwd boot get_root k;
                  if ret \<noteq> 0 then Some (ret, None, m, v)
                  else do {
                    d \<leftarrow> dir;
                    (_, node, v) \<leftarrow> vop_create v d name excl;
                    Some (0, node, m, v)
                  }
                } else Some (0, node, m, v));
             if ret \<noteq> 0 then Some (ret, None, m, v)
             else do {
               n \<leftarrow> node;
               ret \<leftarrow> vop_open v n open_flags;
               if ret \<noteq> 0 then do { (_, v) \<leftarrow> inode_ref_dec v n; Some (ret, None, m, v) }
               else do {
                 let (_, v) = inode_open_inc v n;
                 if open_flags AND O_TRUNC \<noteq> 0 \<or> create then do {
                   (ret, v) \<leftarrow> vop_truncate v n 0;
                   if ret \<noteq> 0 then do {
                     (_, v) \<leftarrow> inode_open_dec v n;
                     (_, v) \<leftarrow> inode_ref_dec v n;
                     Some (ret, None, m, v)
                   } else Some (0, Some n, m, v)
                 } else Some (0, Some n, m, v)
               }
             }
           }
         })"

section \<open>The current directory\<close>

definition S_IFMT :: nat where "S_IFMT = 28672"

definition S_ISDIR :: "nat \<Rightarrow> bool" where
  "S_ISDIR mode \<longleftrightarrow> mode AND S_IFMT = S_IFDIR"

definition vfs_set_curdir :: "vfs \<Rightarrow> nat option \<Rightarrow> nat option \<Rightarrow> (int \<times> nat option \<times> vfs) option" where
  "vfs_set_curdir v pwd dir =
     (if pwd \<noteq> dir then do {
        (ret, v) \<leftarrow> (case dir of
            None \<Rightarrow> Some (0, v)
          | Some n \<Rightarrow> do {
              (ret, type) \<leftarrow> vop_gettype v n;
              if ret \<noteq> 0 then Some (ret, v)
              else if \<not> S_ISDIR type then Some (- E_NOTDIR, v)
              else Some (0, snd (inode_ref_inc v n))
            });
        if ret \<noteq> 0 then Some (ret, pwd, v)
        else do {
          v \<leftarrow> (case pwd of None \<Rightarrow> Some v | Some n \<Rightarrow> do { (_, v) \<leftarrow> inode_ref_dec v n; Some v });
          Some (0, dir, v)
        }
      } else Some (0, pwd, v))"

definition vfs_chdir ::
  "vfs \<Rightarrow> mem \<Rightarrow> nat \<Rightarrow> nat option \<Rightarrow> nat option \<Rightarrow> root_fun \<Rightarrow> kmem \<Rightarrow> (int \<times> nat option \<times> mem \<times> vfs) option" where
  "vfs_chdir v m path pwd boot get_root k = do {
     (ret, node, m, v) \<leftarrow> vfs_lookup v m path pwd boot get_root k;
     if ret = 0 then do {
       n \<leftarrow> node;
       (ret, pwd, v) \<leftarrow> vfs_set_curdir v pwd (Some n);
       (_, v) \<leftarrow> inode_ref_dec v n;
       Some (ret, pwd, m, v)
     } else Some (ret, pwd, m, v)
   }"

section \<open>What opening does\<close>

lemma truncate_to_zero:
  assumes ok: "fs_ok (sfs v)" "file_ok (sfs v) (din (sin_of v n))" "dn_blocks (din (sin_of v n)) = ends (dn_size (din (sin_of v n)))"
    and c: "in_ops (inodes v n) = FileOps" "inode_check v n = Some ()"
  shows "\<exists>sin' s'. vop_truncate v n 0 = Some (0, set_sin n sin' (v\<lparr>sfs := s'\<rparr>)) \<and> resized (sfs v) (sin_of v n) 0 s' sin'"
proof -
  have "room (din (sin_of v n)) (ends 0) \<le> card (free_blocks (sfs v))" by (simp add: room_def ends_def)
  from truncfile_ok [OF ok _ this] obtain sin' s' where
    "sfs_truncfile (sfs v) (sin_of v n) 0 = Some (0, sin', s')" "resized (sfs v) (sin_of v n) 0 s' sin'" by auto
  then show ?thesis using c by (intro exI [of _ sin'] exI [of _ s']) (simp add: vop_truncate_def)
qed

definition opened :: "vfs \<Rightarrow> nat \<Rightarrow> vfs" where
  "opened v n = snd (inode_open_inc v n)"

lemma opened_simps [simp]:
  "sfs (opened v n) = sfs v" "sin_of (opened v n) m = sin_of v m" "ref_count (inodes (opened v n) m) = ref_count (inodes v m)"
  "in_ops (inodes (opened v n) m) = in_ops (inodes v m)"
  "open_count (inodes (opened v n) m) = (if m = n then open_count (inodes v n) + 1 else open_count (inodes v m))"
  by (simp_all add: opened_def inode_open_inc_def sin_of_def)

text \<open>C27: Opening a path that names an existing inode, with sound counts and, for a file, consistent and with exactly the blocks of its
  size. Bad flags are refused; \<open>O_CREAT\<close> with \<open>O_EXCL\<close> gives
  \<open>E_EXISTS\<close> (and keeps the reference the lookup took). A directory opens only for reading without
  \<open>O_APPEND\<close>, and with \<open>O_CREAT\<close> the kernel panics, for directories cannot be truncated. A file opens in every
  mode; \<open>O_TRUNC\<close> empties it, and so does \<open>O_CREAT\<close>.\<close>

theorem vfs_open_existing:
  assumes lk: "vfs_lookup v m path pwd boot get_root k = Some (0, Some n, m', v')"
    and cnt: "0 \<le> open_count (inodes v' n)" "open_count (inodes v' n) < ref_count (inodes v' n)" "ref_count (inodes v' n) < MAX_INODE_COUNT"
    and ok: "in_ops (inodes v' n) = FileOps \<longrightarrow> fs_ok (sfs v') \<and> file_ok (sfs v') (din (sin_of v' n))
      \<and> dn_blocks (din (sin_of v' n)) = ends (dn_size (din (sin_of v' n)))"
  shows "let res = vfs_open v m path flags pwd boot get_root k; mode = flags AND O_ACCMODE in
    if mode \<notin> {O_RDONLY, O_WRONLY, O_RDWR} \<or> flags AND O_TRUNC \<noteq> 0 \<and> mode = O_RDONLY then res = Some (- E_INVAL, None, m, v)
    else if flags AND O_EXCL \<noteq> 0 \<and> flags AND O_CREAT \<noteq> 0 then res = Some (- E_EXISTS, None, m', v')
    else if in_ops (inodes v' n) = DirOps then
      if mode \<noteq> O_RDONLY \<or> flags AND O_APPEND \<noteq> 0 then res = do { (_, v) \<leftarrow> inode_ref_dec v' n; Some (- E_ISDIR, None, m', v) }
      else if flags AND O_CREAT \<noteq> 0 then res = None
      else res = Some (0, Some n, m', opened v' n)
    else if flags AND O_TRUNC \<noteq> 0 \<or> flags AND O_CREAT \<noteq> 0 then
      \<exists>sin' s'. res = Some (0, Some n, m', set_sin n sin' (opened v' n\<lparr>sfs := s'\<rparr>)) \<and> resized (sfs v') (sin_of v' n) 0 s' sin'
    else res = Some (0, Some n, m', opened v' n)"
proof -
  let ?res = "vfs_open v m path flags pwd boot get_root k" and ?mode = "flags AND O_ACCMODE"
  have chk: "inode_check v' n = Some ()" "inode_check (opened v' n) n = Some ()" using cnt by (simp_all add: inode_check_def)
  have ne: "O_RDONLY \<noteq> O_WRONLY" "O_RDONLY \<noteq> O_RDWR" by (simp_all add: O_RDONLY_def O_WRONLY_def O_RDWR_def)
  have op: "inode_open_inc v' n = (open_count (inodes v' n) + 1, opened v' n)" by (simp add: inode_open_inc_def opened_def)
  have res: "?res = (if ?mode \<notin> {O_RDONLY, O_WRONLY, O_RDWR} \<or> flags AND O_TRUNC \<noteq> 0 \<and> ?mode = O_RDONLY then Some (- E_INVAL, None, m, v)
      else if flags AND O_EXCL \<noteq> 0 \<and> flags AND O_CREAT \<noteq> 0 then Some (- E_EXISTS, None, m', v')
      else do {
        ret \<leftarrow> vop_open v' n flags;
        if ret \<noteq> 0 then do { (_, v) \<leftarrow> inode_ref_dec v' n; Some (ret, None, m', v) }
        else if flags AND O_TRUNC \<noteq> 0 \<or> flags AND O_CREAT \<noteq> 0 then do {
          (ret, v) \<leftarrow> vop_truncate (opened v' n) n 0;
          if ret \<noteq> 0 then do { (_, v) \<leftarrow> inode_open_dec v n; (_, v) \<leftarrow> inode_ref_dec v n; Some (ret, None, m', v) }
          else Some (0, Some n, m', v)
        } else Some (0, Some n, m', opened v' n)
      })"
    unfolding vfs_open_def Let_def lk using ne by (auto simp: op E_EXISTS_def cong: if_cong)
  show ?thesis
  proof (cases "in_ops (inodes v' n)")
    case DirOps
    have "vop_truncate (opened v' n) n 0 = None" using DirOps by (simp add: vop_truncate_def)
    moreover have "vop_open v' n flags = Some (sfs_opendir flags)" using DirOps chk by (simp add: vop_open_def)
    ultimately show ?thesis using DirOps ne unfolding Let_def res by (auto simp: sfs_opendir_def E_ISDIR_def)
  next
    case FileOps
    have o: "vop_open v' n flags = Some 0" using FileOps chk by (simp add: vop_open_def sfs_openfile_def)
    have d: "in_ops (inodes v' n) \<noteq> DirOps" using FileOps by simp
    from truncate_to_zero [of "opened v' n" n] ok FileOps chk obtain sin' s' where
      t: "vop_truncate (opened v' n) n 0 = Some (0, set_sin n sin' (opened v' n\<lparr>sfs := s'\<rparr>))" "resized (sfs v') (sin_of v' n) 0 s' sin'" by auto
    show ?thesis unfolding Let_def res o using t d by auto
  qed
qed

section \<open>The root directory\<close>

definition demo_root :: vfs where
  "demo_root = \<lparr>sfs = demo_dirfs, inodes = (\<lambda>_. \<lparr>in_sin = demo_dir, ref_count = 1, open_count = 0, in_ops = DirOps\<rparr>),
     inode_list = \<lparr>nxt = \<lambda>x. x, prv = \<lambda>x. x\<rparr>, hash_list = \<lparr>nxt = \<lambda>x. x, prv = \<lambda>x. x\<rparr>\<rparr>"

lemma demo_root_lookup:
  "vfs_lookup demo_root (put_bytes (\<lambda>_. 0) 100 [47]) 100 None (Some 5) (\<lambda>m p v. None) k
    = Some (0, Some 5, put_bytes (\<lambda>_. 0) 100 [47], snd (inode_ref_inc demo_root 5))"
proof -
  let ?m = "put_bytes (\<lambda>_. 0) 100 [47] :: mem"
  have "?m 100 = 47" "?m 101 = 0" by (simp_all add: put_bytes_def)
  then have "device_scan ?m 100 0 = Some (Some 0, None)" "skip_slashes ?m 101 = Some 101"
    by (simp_all add: device_scan.simps skip_slashes.simps)
  then show ?thesis using \<open>?m 100 = 47\<close> \<open>?m 101 = 0\<close>
    by (simp add: vfs_lookup_def get_device_def vfs_get_bootfs_def inode_ref_inc_def)
qed

theorem vfs_open_existing_witness:
  "vfs_open demo_root (put_bytes (\<lambda>_. 0) 100 [47]) 100 O_CREAT None (Some 5) (\<lambda>m p v. None) \<lparr>k_entry = 1000, k_din = True, k_node = None\<rparr> = None"
proof -
  let ?v = "snd (inode_ref_inc demo_root 5)"
  have "0 \<le> open_count (inodes ?v 5)" "open_count (inodes ?v 5) < ref_count (inodes ?v 5)" "ref_count (inodes ?v 5) < MAX_INODE_COUNT"
    "in_ops (inodes ?v 5) = DirOps"
    by (simp_all add: inode_ref_inc_def demo_root_def MAX_INODE_COUNT_def)
  moreover have "O_CREAT AND O_ACCMODE = O_RDONLY" "O_CREAT AND O_TRUNC = 0" "O_CREAT AND O_EXCL = 0" "O_CREAT AND O_CREAT \<noteq> 0" "O_CREAT AND O_APPEND = 0"
    by (simp_all add: O_CREAT_def O_ACCMODE_def O_RDONLY_def O_TRUNC_def O_EXCL_def O_APPEND_def)
  ultimately show ?thesis using vfs_open_existing [OF demo_root_lookup, of O_CREAT] by (simp add: Let_def)
qed

end
