(* ===== verification/File.thy ===== *)
theory File
  imports Vfs
begin

text \<open>
  The open file table of a process (\<open>kern/fs/file.c\<close>, \<open>kern/fs/file.h\<close>) and its life with the process
  (\<open>kern/fs/fs.c\<close>). A pointer to an entry is its index in \<open>fd_array\<close>. The state is the virtual file system and the
  \<open>files_struct\<close> of the current process; its lock is not modelled.
\<close>

section \<open>State\<close>

datatype fd_status = FD_NONE | FD_INIT | FD_OPENED | FD_CLOSED

record ofile =
  f_status :: fd_status
  f_readable :: bool
  f_writable :: bool
  f_fd :: int
  f_pos :: int
  f_node :: "nat option"
  f_open_count :: int

record files_struct =
  fs_pwd :: "nat option"
  fd_array :: "ofile list"
  files_count :: int

record kfs =
  kv :: vfs
  kf :: files_struct

text \<open>An entry takes 56 bytes of the 4048 that are left of the page after \<open>struct files_struct\<close>.\<close>

definition FILES_STRUCT_BUFSIZE :: nat where "FILES_STRUCT_BUFSIZE = 4096 - 48"
definition FILES_STRUCT_NENTRY :: nat where "FILES_STRUCT_NENTRY = FILES_STRUCT_BUFSIZE div 56"
definition NO_FD :: int where "NO_FD = - 0x9527"
definition LSEEK_SET :: int where "LSEEK_SET = 0"
definition LSEEK_CUR :: int where "LSEEK_CUR = 1"
definition LSEEK_END :: int where "LSEEK_END = 2"

definition file_at :: "kfs \<Rightarrow> nat \<Rightarrow> ofile" where
  "file_at s i = fd_array (kf s) ! i"

definition upd_file :: "nat \<Rightarrow> (ofile \<Rightarrow> ofile) \<Rightarrow> kfs \<Rightarrow> kfs" where
  "upd_file i f s = s\<lparr>kf := (kf s)\<lparr>fd_array := (fd_array (kf s))[i := f (file_at s i)]\<rparr>\<rparr>"

definition testfd :: "int \<Rightarrow> bool" where
  "testfd fd \<longleftrightarrow> 0 \<le> fd \<and> fd < int FILES_STRUCT_NENTRY"

text \<open>\<open>get_fd_array\<close> asserts that the process has a table; the table itself is in the state.\<close>

definition get_fd_array :: "kfs \<Rightarrow> unit option" where
  "get_fd_array s = kassert (files_count (kf s) > 0)"

definition fd_array_init :: "ofile list \<Rightarrow> ofile list" where
  "fd_array_init fa = map (\<lambda>i. (fa ! i)\<lparr>f_open_count := 0, f_status := FD_NONE, f_fd := int i\<rparr>) [0 ..< FILES_STRUCT_NENTRY]"

section \<open>Entries\<close>

definition fopen_count_inc :: "nat \<Rightarrow> kfs \<Rightarrow> kfs" where
  "fopen_count_inc i = upd_file i (\<lambda>f. f\<lparr>f_open_count := f_open_count f + 1\<rparr>)"

definition fopen_count_dec :: "nat \<Rightarrow> kfs \<Rightarrow> kfs" where
  "fopen_count_dec i = upd_file i (\<lambda>f. f\<lparr>f_open_count := f_open_count f - 1\<rparr>)"

definition fd_array_alloc :: "kfs \<Rightarrow> int \<Rightarrow> (int \<times> nat option \<times> kfs) option" where
  "fd_array_alloc s fd = do {
     get_fd_array s;
     let found = (\<lambda>i. do {
       kassert (f_open_count (file_at s i) = 0);
       Some (0, Some i, upd_file i (\<lambda>f. f\<lparr>f_status := FD_INIT, f_node := None\<rparr>) s) });
     if fd = NO_FD then
       (case find (\<lambda>i. f_status (file_at s i) = FD_NONE) [0 ..< FILES_STRUCT_NENTRY] of
          Some i \<Rightarrow> found i
        | None \<Rightarrow> Some (- E_MAX_OPEN, None, s))
     else if testfd fd then
       (if f_status (file_at s (nat fd)) = FD_NONE then found (nat fd) else Some (- E_BUSY, None, s))
     else Some (- E_INVAL, None, s)
   }"

definition fd_array_free :: "kfs \<Rightarrow> nat \<Rightarrow> kfs option" where
  "fd_array_free s i = do {
     let f = file_at s i;
     kassert (f_status f = FD_INIT \<or> f_status f = FD_CLOSED);
     kassert (f_open_count f = 0);
     s \<leftarrow> (if f_status f = FD_CLOSED then do {
            n \<leftarrow> f_node f;
            (_, v) \<leftarrow> vfs_close (kv s) n;
            Some (s\<lparr>kv := v\<rparr>)
          } else Some s);
     Some (upd_file i (\<lambda>f. f\<lparr>f_status := FD_NONE\<rparr>) s)
   }"

definition fd_array_acquire :: "kfs \<Rightarrow> nat \<Rightarrow> kfs option" where
  "fd_array_acquire s i = do {
     kassert (f_status (file_at s i) = FD_OPENED);
     Some (fopen_count_inc i s)
   }"

definition fd_array_release :: "kfs \<Rightarrow> nat \<Rightarrow> kfs option" where
  "fd_array_release s i = do {
     kassert (f_status (file_at s i) = FD_OPENED \<or> f_status (file_at s i) = FD_CLOSED);
     kassert (f_open_count (file_at s i) > 0);
     let s = fopen_count_dec i s;
     if f_open_count (file_at s i) = 0 then fd_array_free s i else Some s
   }"

definition fd_array_open :: "kfs \<Rightarrow> nat \<Rightarrow> kfs option" where
  "fd_array_open s i = do {
     kassert (f_status (file_at s i) = FD_INIT \<and> f_node (file_at s i) \<noteq> None);
     Some (fopen_count_inc i (upd_file i (\<lambda>f. f\<lparr>f_status := FD_OPENED\<rparr>) s))
   }"

definition fd_array_close :: "kfs \<Rightarrow> nat \<Rightarrow> kfs option" where
  "fd_array_close s i = do {
     kassert (f_status (file_at s i) = FD_OPENED);
     kassert (f_open_count (file_at s i) > 0);
     let s = fopen_count_dec i (upd_file i (\<lambda>f. f\<lparr>f_status := FD_CLOSED\<rparr>) s);
     if f_open_count (file_at s i) = 0 then fd_array_free s i else Some s
   }"

text \<open>\<open>fd_array_dup\<close>: from an entry \<open>from\<close> to the entry \<open>t\<close> of the table.\<close>

definition fd_array_dup :: "kfs \<Rightarrow> nat \<Rightarrow> ofile \<Rightarrow> kfs option" where
  "fd_array_dup s t from = do {
     kassert (f_status (file_at s t) = FD_INIT \<and> f_status from = FD_OPENED);
     let s = upd_file t (\<lambda>f. f\<lparr>f_pos := f_pos from, f_readable := f_readable from, f_writable := f_writable from\<rparr>) s;
     n \<leftarrow> f_node from;
     let (_, v) = inode_ref_inc (kv s) n;
     let (_, v) = inode_open_inc v n;
     let s = upd_file t (\<lambda>f. f\<lparr>f_node := Some n\<rparr>) (s\<lparr>kv := v\<rparr>);
     fd_array_open s t
   }"

definition fd2file :: "kfs \<Rightarrow> int \<Rightarrow> (int \<times> nat) option" where
  "fd2file s fd =
     (if testfd fd then do {
        get_fd_array s;
        let i = nat fd;
        if f_status (file_at s i) = FD_OPENED \<and> f_fd (file_at s i) = fd then Some (0, i) else Some (- E_INVAL, 0)
      } else Some (- E_INVAL, 0))"

definition file_testfd :: "kfs \<Rightarrow> int \<Rightarrow> bool \<Rightarrow> bool \<Rightarrow> bool option" where
  "file_testfd s fd readable writable = do {
     (ret, i) \<leftarrow> fd2file s fd;
     if ret \<noteq> 0 then Some False
     else if readable \<and> \<not> f_readable (file_at s i) then Some False
     else if writable \<and> \<not> f_writable (file_at s i) then Some False
     else Some True
   }"

section \<open>Open and close\<close>

definition file_open :: "kfs \<Rightarrow> mem \<Rightarrow> nat \<Rightarrow> 32 word \<Rightarrow> nat option \<Rightarrow> root_fun \<Rightarrow> kmem \<Rightarrow> (int \<times> mem \<times> kfs) option" where
  "file_open s m path open_flags boot get_root k =
     (let mode = open_flags AND O_ACCMODE;
          readable = (mode = O_RDONLY \<or> mode = O_RDWR);
          writable = (mode = O_WRONLY \<or> mode = O_RDWR)
      in if \<not> readable \<and> \<not> writable then Some (- E_INVAL, m, s)
         else do {
           (ret, idx, s) \<leftarrow> fd_array_alloc s NO_FD;
           if ret \<noteq> 0 then Some (ret, m, s)
           else do {
             i \<leftarrow> idx;
             (ret, node, m, v) \<leftarrow> vfs_open (kv s) m path open_flags (fs_pwd (kf s)) boot get_root k;
             let s = s\<lparr>kv := v\<rparr>;
             if ret \<noteq> 0 then do { s \<leftarrow> fd_array_free s i; Some (ret, m, s) }
             else do {
               n \<leftarrow> node;
               let s = upd_file i (\<lambda>f. f\<lparr>f_pos := 0\<rparr>) s;
               (ret, s) \<leftarrow>
                 (if open_flags AND O_APPEND \<noteq> 0 then do {
                    (ret, stat) \<leftarrow> vop_fstat (kv s) n;
                    if ret \<noteq> 0 then do {
                      (_, v) \<leftarrow> vfs_close (kv s) n;
                      s \<leftarrow> fd_array_free (s\<lparr>kv := v\<rparr>) i;
                      Some (ret, s)
                    } else Some (0, upd_file i (\<lambda>f. f\<lparr>f_pos := int (st_size stat)\<rparr>) s)
                  } else Some (0, s));
               if ret \<noteq> 0 then Some (ret, m, s)
               else do {
                 s \<leftarrow> fd_array_open (upd_file i (\<lambda>f. f\<lparr>f_node := Some n, f_readable := readable, f_writable := writable\<rparr>) s) i;
                 Some (f_fd (file_at s i), m, s)
               }
             }
           }
         })"

definition file_close :: "kfs \<Rightarrow> int \<Rightarrow> (int \<times> kfs) option" where
  "file_close s fd = do {
     (ret, i) \<leftarrow> fd2file s fd;
     if ret \<noteq> 0 then Some (ret, s)
     else do { s \<leftarrow> fd_array_close s i; Some (0, s) }
   }"

section \<open>Reading and writing\<close>

text \<open>Both return the result, the number of bytes copied and the buffer.\<close>

definition file_read :: "kfs \<Rightarrow> int \<Rightarrow> byte list \<Rightarrow> nat \<Rightarrow> nat \<Rightarrow> (int \<times> nat \<times> byte list \<times> kfs) option" where
  "file_read s fd buf base len = do {
     (ret, i) \<leftarrow> fd2file s fd;
     if ret \<noteq> 0 then Some (ret, 0, buf, s)
     else if \<not> f_readable (file_at s i) then Some (- E_INVAL, 0, buf, s)
     else do {
       s \<leftarrow> fd_array_acquire s i;
       n \<leftarrow> f_node (file_at s i);
       (ret, iob, v) \<leftarrow> vop_read (kv s) n (iobuf_init buf base len (f_pos (file_at s i)));
       let s = s\<lparr>kv := v\<rparr>;
       let copied = iobuf_used iob;
       let s = (if f_status (file_at s i) = FD_OPENED then upd_file i (\<lambda>f. f\<lparr>f_pos := f_pos f + int copied\<rparr>) s else s);
       s \<leftarrow> fd_array_release s i;
       Some (ret, copied, io_buf iob, s)
     }
   }"

definition file_write :: "kfs \<Rightarrow> int \<Rightarrow> byte list \<Rightarrow> nat \<Rightarrow> nat \<Rightarrow> (int \<times> nat \<times> byte list \<times> kfs) option" where
  "file_write s fd buf base len = do {
     (ret, i) \<leftarrow> fd2file s fd;
     if ret \<noteq> 0 then Some (ret, 0, buf, s)
     else if \<not> f_writable (file_at s i) then Some (- E_INVAL, 0, buf, s)
     else do {
       s \<leftarrow> fd_array_acquire s i;
       n \<leftarrow> f_node (file_at s i);
       (ret, iob, v) \<leftarrow> vop_write (kv s) n (iobuf_init buf base len (f_pos (file_at s i)));
       let s = s\<lparr>kv := v\<rparr>;
       let copied = iobuf_used iob;
       let s = (if f_status (file_at s i) = FD_OPENED then upd_file i (\<lambda>f. f\<lparr>f_pos := f_pos f + int copied\<rparr>) s else s);
       s \<leftarrow> fd_array_release s i;
       Some (ret, copied, io_buf iob, s)
     }
   }"

section \<open>The other operations\<close>

text \<open>\<open>off_t\<close> has 64 bits.\<close>

definition file_seek :: "kfs \<Rightarrow> int \<Rightarrow> int \<Rightarrow> int \<Rightarrow> (int \<times> kfs) option" where
  "file_seek s fd pos whence = do {
     (ret, i) \<leftarrow> fd2file s fd;
     if ret \<noteq> 0 then Some (ret, s)
     else do {
       s \<leftarrow> fd_array_acquire s i;
       n \<leftarrow> f_node (file_at s i);
       (ret, pos) \<leftarrow>
         (if whence = LSEEK_SET then Some (0, pos)
          else if whence = LSEEK_CUR then Some (0, signed_take_bit 63 (pos + f_pos (file_at s i)))
          else if whence = LSEEK_END then do {
            (ret, stat) \<leftarrow> vop_fstat (kv s) n;
            Some (ret, if ret = 0 then signed_take_bit 63 (pos + int (st_size stat)) else pos)
          } else Some (- E_INVAL, pos));
       (ret, s) \<leftarrow>
         (if ret = 0 then do {
            (ret, v) \<leftarrow> vop_tryseek (kv s) n pos;
            let s = s\<lparr>kv := v\<rparr>;
            Some (ret, if ret = 0 then upd_file i (\<lambda>f. f\<lparr>f_pos := pos\<rparr>) s else s)
          } else Some (ret, s));
       s \<leftarrow> fd_array_release s i;
       Some (ret, s)
     }
   }"

definition file_fstat :: "kfs \<Rightarrow> int \<Rightarrow> stat \<Rightarrow> (int \<times> stat \<times> kfs) option" where
  "file_fstat s fd stat = do {
     (ret, i) \<leftarrow> fd2file s fd;
     if ret \<noteq> 0 then Some (ret, stat, s)
     else do {
       s \<leftarrow> fd_array_acquire s i;
       n \<leftarrow> f_node (file_at s i);
       (ret, stat) \<leftarrow> vop_fstat (kv s) n;
       s \<leftarrow> fd_array_release s i;
       Some (ret, stat, s)
     }
   }"

definition file_fsync :: "kfs \<Rightarrow> int \<Rightarrow> (int \<times> kfs) option" where
  "file_fsync s fd = do {
     (ret, i) \<leftarrow> fd2file s fd;
     if ret \<noteq> 0 then Some (ret, s)
     else do {
       s \<leftarrow> fd_array_acquire s i;
       n \<leftarrow> f_node (file_at s i);
       (ret, v) \<leftarrow> vop_fsync (kv s) n;
       s \<leftarrow> fd_array_release (s\<lparr>kv := v\<rparr>) i;
       Some (ret, s)
     }
   }"

text \<open>\<open>struct dirent\<close> is an offset and a buffer for the name.\<close>

record dirent =
  d_offset :: int
  d_name :: "byte list"

definition file_getdirentry :: "kfs \<Rightarrow> mem \<Rightarrow> nat \<Rightarrow> int \<Rightarrow> dirent \<Rightarrow> (int \<times> dirent \<times> mem \<times> kfs) option" where
  "file_getdirentry s m ep fd direntp = do {
     (ret, i) \<leftarrow> fd2file s fd;
     if ret \<noteq> 0 then Some (ret, direntp, m, s)
     else do {
       s \<leftarrow> fd_array_acquire s i;
       n \<leftarrow> f_node (file_at s i);
       (ret, iob, m, v) \<leftarrow> vop_getdirentry (kv s) n m ep (iobuf_init (d_name direntp) 0 256 (d_offset direntp));
       let direntp = direntp\<lparr>d_name := io_buf iob, d_offset := d_offset direntp + (if ret = 0 then int (iobuf_used iob) else 0)\<rparr>;
       s \<leftarrow> fd_array_release (s\<lparr>kv := v\<rparr>) i;
       Some (ret, direntp, m, s)
     }
   }"

definition file_dup :: "kfs \<Rightarrow> int \<Rightarrow> int \<Rightarrow> (int \<times> kfs) option" where
  "file_dup s fd1 fd2 = do {
     (ret, i) \<leftarrow> fd2file s fd1;
     if ret \<noteq> 0 then Some (ret, s)
     else do {
       (ret, idx, s) \<leftarrow> fd_array_alloc s fd2;
       if ret \<noteq> 0 then Some (ret, s)
       else do {
         j \<leftarrow> idx;
         s \<leftarrow> fd_array_dup s j (file_at s i);
         Some (f_fd (file_at s j), s)
       }
     }
   }"

section \<open>The table of a process\<close>

text \<open>\<open>files_create\<close>: \<open>page\<close> is what \<open>kmalloc\<close> returned, with whatever the entries hold.\<close>

definition files_create :: "ofile list option \<Rightarrow> files_struct option" where
  "files_create page =
     (case page of None \<Rightarrow> None
      | Some fa \<Rightarrow> Some \<lparr>fs_pwd = None, fd_array = fd_array_init fa, files_count = 0\<rparr>)"

fun close_entries :: "kfs \<Rightarrow> bool \<Rightarrow> nat list \<Rightarrow> kfs option" where
  "close_entries s destroy [] = Some s"
| "close_entries s destroy (i # is) = do {
     s \<leftarrow> (if f_status (file_at s i) = FD_OPENED then fd_array_close s i else Some s);
     kassert (destroy \<longrightarrow> f_status (file_at s i) = FD_NONE);
     close_entries s destroy is
   }"

definition files_destroy :: "kfs \<Rightarrow> vfs option" where
  "files_destroy s = do {
     kassert (files_count (kf s) = 0);
     s \<leftarrow> (case fs_pwd (kf s) of None \<Rightarrow> Some s | Some n \<Rightarrow> do { (_, v) \<leftarrow> inode_ref_dec (kv s) n; Some (s\<lparr>kv := v\<rparr>) });
     s \<leftarrow> close_entries s True [0 ..< FILES_STRUCT_NENTRY];
     Some (kv s)
   }"

definition files_closeall :: "kfs \<Rightarrow> kfs option" where
  "files_closeall s = do {
     kassert (files_count (kf s) > 0);
     close_entries s False [2 ..< FILES_STRUCT_NENTRY]
   }"

text \<open>\<open>dup_files\<close>: the state holds the table \<open>to\<close>.\<close>

fun dup_entries :: "kfs \<Rightarrow> ofile list \<Rightarrow> nat list \<Rightarrow> kfs option" where
  "dup_entries s from [] = Some s"
| "dup_entries s from (i # is) = do {
     s \<leftarrow> (if f_status (from ! i) = FD_OPENED then fd_array_dup (upd_file i (\<lambda>f. f\<lparr>f_status := FD_INIT\<rparr>) s) i (from ! i) else Some s);
     dup_entries s from is
   }"

definition dup_files :: "kfs \<Rightarrow> files_struct \<Rightarrow> (int \<times> kfs) option" where
  "dup_files s from = do {
     kassert (files_count (kf s) = 0 \<and> files_count from > 0);
     let s = s\<lparr>kf := (kf s)\<lparr>fs_pwd := fs_pwd from\<rparr>\<rparr>;
     let s = (case fs_pwd from of None \<Rightarrow> s | Some n \<Rightarrow> s\<lparr>kv := snd (inode_ref_inc (kv s) n)\<rparr>);
     s \<leftarrow> dup_entries s (fd_array from) [0 ..< FILES_STRUCT_NENTRY];
     Some (0, s)
   }"

section \<open>The invariant of the table\<close>

lemma nentry: "FILES_STRUCT_NENTRY = 72"
  by (simp add: FILES_STRUCT_NENTRY_def FILES_STRUCT_BUFSIZE_def)

text \<open>Between two operations an entry is free, or open once with an inode.\<close>

definition entry_ok :: "nat \<Rightarrow> ofile \<Rightarrow> bool" where
  "entry_ok i f \<longleftrightarrow> f_fd f = int i
     \<and> (f_status f = FD_NONE \<and> f_open_count f = 0 \<or> f_status f = FD_OPENED \<and> f_open_count f = 1 \<and> f_node f \<noteq> None)"

definition fds_ok :: "kfs \<Rightarrow> bool" where
  "fds_ok s \<longleftrightarrow> length (fd_array (kf s)) = FILES_STRUCT_NENTRY \<and> (\<forall>i < FILES_STRUCT_NENTRY. entry_ok i (file_at s i))"

lemma fds_okD: "fds_ok s \<Longrightarrow> i < FILES_STRUCT_NENTRY \<Longrightarrow> entry_ok i (file_at s i)"
  by (simp add: fds_ok_def)

lemma upd_file_simps [simp]:
  "kv (upd_file i f s) = kv s" "files_count (kf (upd_file i f s)) = files_count (kf s)" "fs_pwd (kf (upd_file i f s)) = fs_pwd (kf s)"
  "length (fd_array (kf (upd_file i f s))) = length (fd_array (kf s))"
  "file_at (s\<lparr>kv := v\<rparr>) i = file_at s i" "upd_file i f (s\<lparr>kv := v\<rparr>) = (upd_file i f s)\<lparr>kv := v\<rparr>"
  by (simp_all add: upd_file_def file_at_def)

lemma file_at_upd: "i < length (fd_array (kf s)) \<Longrightarrow> file_at (upd_file i f s) j = (if j = i then f (file_at s i) else file_at s j)"
  by (simp add: upd_file_def file_at_def nth_list_update)

lemma upd_file_upd: "i < length (fd_array (kf s)) \<Longrightarrow> upd_file i f (upd_file i g s) = upd_file i (\<lambda>x. f (g x)) s"
  by (simp add: upd_file_def file_at_def)

lemma upd_file_id: "f (file_at s i) = file_at s i \<Longrightarrow> upd_file i f s = s"
  by (simp add: upd_file_def file_at_def)

lemma upd_file_cong: "f (file_at s i) = g (file_at s i) \<Longrightarrow> upd_file i f s = upd_file i g s"
  by (simp add: upd_file_def file_at_def)

lemma fds_ok_upd: "fds_ok s \<Longrightarrow> i < FILES_STRUCT_NENTRY \<Longrightarrow> entry_ok i (f (file_at s i)) \<Longrightarrow> fds_ok (upd_file i f s)"
  by (auto simp: fds_ok_def file_at_upd)

lemma fds_ok_kv [simp]: "fds_ok (s\<lparr>kv := v\<rparr>) = fds_ok s"
  by (simp add: fds_ok_def)

text \<open>Finding the entry of a descriptor.\<close>

definition open_fd :: "kfs \<Rightarrow> int \<Rightarrow> bool" where
  "open_fd s fd \<longleftrightarrow> testfd fd \<and> f_status (file_at s (nat fd)) = FD_OPENED"

lemma testfd_int: "testfd (int i) = (i < FILES_STRUCT_NENTRY)" "testfd fd \<Longrightarrow> int (nat fd) = fd" "testfd fd \<Longrightarrow> nat fd < FILES_STRUCT_NENTRY"
  by (auto simp: testfd_def)

lemma fd2file_ok:
  assumes "fds_ok s" "files_count (kf s) > 0"
  shows "fd2file s fd = Some (if open_fd s fd then (0, nat fd) else (- E_INVAL, 0))"
  using assms fds_okD [OF assms(1), of "nat fd"] testfd_int(2,3) [of fd]
  by (auto simp: fd2file_def get_fd_array_def open_fd_def Let_def entry_ok_def)

lemma open_entry: "fds_ok s \<Longrightarrow> open_fd s fd \<Longrightarrow> nat fd < FILES_STRUCT_NENTRY \<and> f_open_count (file_at s (nat fd)) = 1 \<and> f_fd (file_at s (nat fd)) = fd
    \<and> (\<exists>n. f_node (file_at s (nat fd)) = Some n)"
  using fds_okD [of s "nat fd"] testfd_int(2,3) [of fd] by (auto simp: open_fd_def entry_ok_def)

section \<open>The operations without their bookkeeping\<close>

text \<open>Between \<open>fd_array_acquire\<close> and \<open>fd_array_release\<close> the count is 2, so that the entry stays.\<close>

lemma acquire_open: "open_fd s fd \<Longrightarrow> fd_array_acquire s (nat fd) = Some (fopen_count_inc (nat fd) s)"
  by (simp add: fd_array_acquire_def open_fd_def)

lemma acquired:
  assumes "fds_ok s" "i < FILES_STRUCT_NENTRY"
  shows "file_at (fopen_count_inc i s) i = (file_at s i)\<lparr>f_open_count := f_open_count (file_at s i) + 1\<rparr>" "kv (fopen_count_inc i s) = kv s"
  using assms by (simp_all add: fopen_count_inc_def file_at_upd fds_ok_def)

lemma release_open:
  assumes ok: "fds_ok s" "open_fd s fd"
    and g: "\<And>x c. g (x\<lparr>f_open_count := c\<rparr>) = (g x)\<lparr>f_open_count := c\<rparr>" "\<And>x. f_status (g x) = f_status x"
  shows "fd_array_release (upd_file (nat fd) g ((fopen_count_inc (nat fd) s)\<lparr>kv := v\<rparr>)) (nat fd) = Some (upd_file (nat fd) g (s\<lparr>kv := v\<rparr>))"
proof -
  let ?i = "nat fd" and ?s = "upd_file (nat fd) g ((fopen_count_inc (nat fd) s)\<lparr>kv := v\<rparr>)"
  note e = open_entry [OF ok]
  have l: "?i < length (fd_array (kf s))" using e ok(1) by (simp add: fds_ok_def)
  have gc: "f_open_count (g (x\<lparr>f_open_count := c\<rparr>)) = c" for x c by (simp add: g(1))
  have gid: "(g x)\<lparr>f_open_count := f_open_count x\<rparr> = g x" for x using g(1) [where x = x and c = "f_open_count x"] by simp
  have c: "?s = upd_file ?i (\<lambda>x. (g x)\<lparr>f_open_count := f_open_count x + 1\<rparr>) (s\<lparr>kv := v\<rparr>)"
    using l by (simp add: fopen_count_inc_def upd_file_upd g(1))
  have f: "file_at ?s ?i = (g (file_at s ?i))\<lparr>f_open_count := 2\<rparr>" unfolding c using l e by (simp add: file_at_upd)
  have "f_status (file_at ?s ?i) = FD_OPENED" unfolding f using g(2) ok(2) by (simp add: open_fd_def)
  moreover have "fopen_count_dec ?i ?s = upd_file ?i g (s\<lparr>kv := v\<rparr>)" unfolding c using l by (simp add: fopen_count_dec_def upd_file_upd gid)
  moreover have "f_open_count (file_at (upd_file ?i g (s\<lparr>kv := v\<rparr>)) ?i) = 1"
    using gid [of "file_at s ?i"] e l by (simp add: file_at_upd) (metis ofile.select_convs(7) ofile.surjective ofile.update_convs(7))
  ultimately show ?thesis using f by (simp add: fd_array_release_def Let_def)
qed

lemma release_same:
  assumes "fds_ok s" "open_fd s fd"
  shows "fd_array_release ((fopen_count_inc (nat fd) s)\<lparr>kv := v\<rparr>) (nat fd) = Some (s\<lparr>kv := v\<rparr>)"
proof -
  have "upd_file (nat fd) (\<lambda>x. x) ((fopen_count_inc (nat fd) s)\<lparr>kv := v\<rparr>) = (fopen_count_inc (nat fd) s)\<lparr>kv := v\<rparr>"
    "upd_file (nat fd) (\<lambda>x. x) (s\<lparr>kv := v\<rparr>) = s\<lparr>kv := v\<rparr>" by (rule upd_file_id, simp)+
  with release_open [OF assms, of "\<lambda>x. x" v] show ?thesis by simp
qed

definition moved_on :: "int \<Rightarrow> int \<Rightarrow> kfs \<Rightarrow> kfs" where
  "moved_on fd d = upd_file (nat fd) (\<lambda>f. f\<lparr>f_pos := f_pos f + d\<rparr>)"

lemma file_write_eq:
  assumes ok: "fds_ok s" "files_count (kf s) > 0"
  shows "file_write s fd buf base len =
    (if \<not> open_fd s fd \<or> \<not> f_writable (file_at s (nat fd)) then Some (- E_INVAL, 0, buf, s)
     else do {
       n \<leftarrow> f_node (file_at s (nat fd));
       (ret, iob, v) \<leftarrow> vop_write (kv s) n (iobuf_init buf base len (f_pos (file_at s (nat fd))));
       Some (ret, iobuf_used iob, io_buf iob, moved_on fd (int (iobuf_used iob)) (s\<lparr>kv := v\<rparr>))
     })"
proof (cases "open_fd s fd")
  case True
  note a = acquired [OF ok(1) conjunct1 [OF open_entry [OF ok(1) True]]]
  have "f_status (file_at s (nat fd)) = FD_OPENED" using True by (simp add: open_fd_def)
  then show ?thesis using True
    unfolding file_write_def fd2file_ok [OF ok] Let_def
    by (auto simp: a acquire_open release_open [OF ok(1) True, simplified] moved_on_def cong: Option.bind_cong)
qed (auto simp: file_write_def fd2file_ok [OF ok] E_INVAL_def)

lemma file_read_eq:
  assumes ok: "fds_ok s" "files_count (kf s) > 0"
  shows "file_read s fd buf base len =
    (if \<not> open_fd s fd \<or> \<not> f_readable (file_at s (nat fd)) then Some (- E_INVAL, 0, buf, s)
     else do {
       n \<leftarrow> f_node (file_at s (nat fd));
       (ret, iob, v) \<leftarrow> vop_read (kv s) n (iobuf_init buf base len (f_pos (file_at s (nat fd))));
       Some (ret, iobuf_used iob, io_buf iob, moved_on fd (int (iobuf_used iob)) (s\<lparr>kv := v\<rparr>))
     })"
proof (cases "open_fd s fd")
  case True
  note a = acquired [OF ok(1) conjunct1 [OF open_entry [OF ok(1) True]]]
  have "f_status (file_at s (nat fd)) = FD_OPENED" using True by (simp add: open_fd_def)
  then show ?thesis using True
    unfolding file_read_def fd2file_ok [OF ok] Let_def
    by (auto simp: a acquire_open release_open [OF ok(1) True, simplified] moved_on_def cong: Option.bind_cong)
qed (auto simp: file_read_def fd2file_ok [OF ok] E_INVAL_def)

definition moved_to :: "int \<Rightarrow> int \<Rightarrow> kfs \<Rightarrow> kfs" where
  "moved_to fd p = upd_file (nat fd) (\<lambda>f. f\<lparr>f_pos := p\<rparr>)"

text \<open>Where a seek goes, and what \<open>vop_fstat\<close> says when it cannot.\<close>

definition seek_target :: "kfs \<Rightarrow> int \<Rightarrow> nat \<Rightarrow> int \<Rightarrow> int \<Rightarrow> (int \<times> int) option" where
  "seek_target s fd n pos whence =
     (if whence = LSEEK_SET then Some (0, pos)
      else if whence = LSEEK_CUR then Some (0, signed_take_bit 63 (pos + f_pos (file_at s (nat fd))))
      else if whence = LSEEK_END then do {
        (ret, stat) \<leftarrow> vop_fstat (kv s) n;
        Some (ret, if ret = 0 then signed_take_bit 63 (pos + int (st_size stat)) else pos)
      } else Some (- E_INVAL, pos))"

lemma file_seek_eq:
  assumes ok: "fds_ok s" "files_count (kf s) > 0"
  shows "file_seek s fd pos whence =
    (if \<not> open_fd s fd then Some (- E_INVAL, s)
     else do {
       n \<leftarrow> f_node (file_at s (nat fd));
       (ret, p) \<leftarrow> seek_target s fd n pos whence;
       if ret = 0 then do {
         (ret, v) \<leftarrow> vop_tryseek (kv s) n p;
         Some (ret, if ret = 0 then moved_to fd p (s\<lparr>kv := v\<rparr>) else s\<lparr>kv := v\<rparr>)
       } else Some (ret, s)
     })"
proof (cases "open_fd s fd")
  case True
  note a = acquired [OF ok(1) conjunct1 [OF open_entry [OF ok(1) True]]]
  have "s\<lparr>kv := kv s\<rparr> = s" "(fopen_count_inc (nat fd) s)\<lparr>kv := kv s\<rparr> = fopen_count_inc (nat fd) s" using a(2) by simp_all
  then have r: "fd_array_release (fopen_count_inc (nat fd) s) (nat fd) = Some s"
    using release_same [OF ok(1) True, of "kv s"] by simp
  obtain n where n: "f_node (file_at s (nat fd)) = Some n" using open_entry [OF ok(1) True] by blast
  have t: "(if whence = LSEEK_SET then Some (0, pos)
      else if whence = LSEEK_CUR then Some (0, signed_take_bit 63 (pos + f_pos (file_at (fopen_count_inc (nat fd) s) (nat fd))))
      else if whence = LSEEK_END then do {
        (ret, stat) \<leftarrow> vop_fstat (kv (fopen_count_inc (nat fd) s)) n;
        Some (ret, if ret = 0 then signed_take_bit 63 (pos + int (st_size stat)) else pos)
      } else Some (- E_INVAL, pos)) = seek_target s fd n pos whence"
    by (simp add: seek_target_def a)
  have n': "f_node (file_at (fopen_count_inc (nat fd) s) (nat fd)) = Some n" using n by (simp add: a)
  show ?thesis using True n n'
    unfolding file_seek_def fd2file_ok [OF ok] Let_def
    by (simp add: acquire_open t a r release_same [OF ok(1) True] release_open [OF ok(1) True, simplified] moved_to_def
        split: Option.bind_splits prod.splits)
qed (simp add: file_seek_def fd2file_ok [OF ok] E_INVAL_def)

lemma file_fstat_eq:
  assumes ok: "fds_ok s" "files_count (kf s) > 0"
  shows "file_fstat s fd st =
    (if \<not> open_fd s fd then Some (- E_INVAL, st, s)
     else do { n \<leftarrow> f_node (file_at s (nat fd)); (ret, st) \<leftarrow> vop_fstat (kv s) n; Some (ret, st, s) })"
proof (cases "open_fd s fd")
  case True
  note a = acquired [OF ok(1) conjunct1 [OF open_entry [OF ok(1) True]]]
  have "s\<lparr>kv := kv s\<rparr> = s" "(fopen_count_inc (nat fd) s)\<lparr>kv := kv s\<rparr> = fopen_count_inc (nat fd) s" using a(2) by simp_all
  then have r: "fd_array_release (fopen_count_inc (nat fd) s) (nat fd) = Some s"
    using release_same [OF ok(1) True, of "kv s"] by simp
  show ?thesis using True unfolding file_fstat_def fd2file_ok [OF ok]
    by (auto simp: a acquire_open r cong: Option.bind_cong)
qed (simp add: file_fstat_def fd2file_ok [OF ok] E_INVAL_def)

lemma file_fsync_eq:
  assumes ok: "fds_ok s" "files_count (kf s) > 0"
  shows "file_fsync s fd =
    (if \<not> open_fd s fd then Some (- E_INVAL, s)
     else do { n \<leftarrow> f_node (file_at s (nat fd)); (ret, v) \<leftarrow> vop_fsync (kv s) n; Some (ret, s\<lparr>kv := v\<rparr>) })"
proof (cases "open_fd s fd")
  case True
  note a = acquired [OF ok(1) conjunct1 [OF open_entry [OF ok(1) True]]]
  show ?thesis using True unfolding file_fsync_def fd2file_ok [OF ok]
    by (auto simp: a acquire_open release_same [OF ok(1) True] cong: Option.bind_cong)
qed (simp add: file_fsync_def fd2file_ok [OF ok] E_INVAL_def)

lemma file_getdirentry_eq:
  assumes ok: "fds_ok s" "files_count (kf s) > 0"
  shows "file_getdirentry s m ep fd de =
    (if \<not> open_fd s fd then Some (- E_INVAL, de, m, s)
     else do {
       n \<leftarrow> f_node (file_at s (nat fd));
       (ret, iob, m, v) \<leftarrow> vop_getdirentry (kv s) n m ep (iobuf_init (d_name de) 0 256 (d_offset de));
       Some (ret, de\<lparr>d_name := io_buf iob, d_offset := d_offset de + (if ret = 0 then int (iobuf_used iob) else 0)\<rparr>, m, s\<lparr>kv := v\<rparr>)
     })"
proof (cases "open_fd s fd")
  case True
  note a = acquired [OF ok(1) conjunct1 [OF open_entry [OF ok(1) True]]]
  show ?thesis using True unfolding file_getdirentry_def fd2file_ok [OF ok] Let_def
    by (auto simp: a acquire_open release_same [OF ok(1) True] cong: Option.bind_cong)
qed (simp add: file_getdirentry_def fd2file_ok [OF ok] E_INVAL_def)

definition free_fd :: "kfs \<Rightarrow> nat \<Rightarrow> bool" where
  "free_fd s i \<longleftrightarrow> f_status (file_at s i) = FD_NONE"

definition lowest_free :: "kfs \<Rightarrow> nat option" where
  "lowest_free s = find (free_fd s) [0 ..< FILES_STRUCT_NENTRY]"

lemma lowest_free_None: "lowest_free s = None \<longleftrightarrow> (\<forall>i < FILES_STRUCT_NENTRY. \<not> free_fd s i)"
  by (auto simp: lowest_free_def find_None_iff)

lemma lowest_free_Some: "lowest_free s = Some i \<longleftrightarrow> i < FILES_STRUCT_NENTRY \<and> free_fd s i \<and> (\<forall>j < i. \<not> free_fd s j)"
  by (auto simp: lowest_free_def find_Some_iff)

definition reserved :: "nat \<Rightarrow> kfs \<Rightarrow> kfs" where
  "reserved i = upd_file i (\<lambda>f. f\<lparr>f_status := FD_INIT, f_node := None\<rparr>)"

lemma alloc_eq:
  assumes ok: "fds_ok s" "files_count (kf s) > 0"
  shows "fd_array_alloc s fd =
    (if fd = NO_FD then (case lowest_free s of None \<Rightarrow> Some (- E_MAX_OPEN, None, s) | Some i \<Rightarrow> Some (0, Some i, reserved i s))
     else if \<not> testfd fd then Some (- E_INVAL, None, s)
     else if open_fd s fd then Some (- E_BUSY, None, s)
     else Some (0, Some (nat fd), reserved (nat fd) s))"
proof -
  have z: "f_open_count (file_at s i) = 0" if "i < FILES_STRUCT_NENTRY" "f_status (file_at s i) = FD_NONE" for i
    using fds_okD [OF ok(1) that(1)] that(2) by (auto simp: entry_ok_def)
  have f: "find (\<lambda>i. f_status (file_at s i) = FD_NONE) [0 ..< FILES_STRUCT_NENTRY] = lowest_free s"
    by (simp add: lowest_free_def free_fd_def [abs_def])
  have st: "f_status (file_at s (nat fd)) = FD_NONE \<longleftrightarrow> \<not> open_fd s fd" if "testfd fd"
    using fds_okD [OF ok(1) testfd_int(3) [OF that]] that by (auto simp: open_fd_def entry_ok_def)
  have g: "get_fd_array s = Some ()" using ok(2) by (simp add: get_fd_array_def)
  show ?thesis
  proof (cases "fd = NO_FD")
    case True
    show ?thesis
    proof (cases "lowest_free s")
      case None
      then show ?thesis using True g by (simp add: fd_array_alloc_def f)
    next
      case (Some i)
      then have "f_open_count (file_at s i) = 0" using z by (simp add: lowest_free_Some free_fd_def)
      then show ?thesis using Some True g by (simp add: fd_array_alloc_def f reserved_def)
    qed
  next
    case False
    then show ?thesis using g z st testfd_int(3) [of fd] by (simp add: fd_array_alloc_def reserved_def)
  qed
qed

definition freed :: "nat \<Rightarrow> kfs \<Rightarrow> kfs" where
  "freed i = upd_file i (\<lambda>f. f\<lparr>f_open_count := 0, f_status := FD_NONE\<rparr>)"

lemma close_entry:
  assumes ok: "fds_ok s" and i: "i < FILES_STRUCT_NENTRY" "f_status (file_at s i) = FD_OPENED"
  shows "fd_array_close s i = do { n \<leftarrow> f_node (file_at s i); (_, v) \<leftarrow> vfs_close (kv s) n; Some (freed i (s\<lparr>kv := v\<rparr>)) }"
proof -
  have l: "i < length (fd_array (kf s))" "f_open_count (file_at s i) = 1" using ok i fds_okD [OF ok i(1)] by (auto simp: fds_ok_def entry_ok_def)
  let ?s = "upd_file i (\<lambda>f. f\<lparr>f_status := FD_CLOSED, f_open_count := 0\<rparr>) s"
  have c: "fopen_count_dec i (upd_file i (\<lambda>f. f\<lparr>f_status := FD_CLOSED\<rparr>) s) = ?s"
    using l by (auto simp: fopen_count_dec_def upd_file_upd) (simp add: upd_file_def)
  have f: "file_at ?s i = (file_at s i)\<lparr>f_status := FD_CLOSED, f_open_count := 0\<rparr>" using l by (simp add: file_at_upd)
  have u: "upd_file i (\<lambda>f. f\<lparr>f_status := FD_NONE\<rparr>) ?s = freed i s" using l by (simp add: upd_file_upd freed_def)
  show ?thesis using i l unfolding fd_array_close_def c Let_def
    by (auto simp: f fd_array_free_def u [unfolded freed_def] freed_def case_prod_unfold cong: Option.bind_cong)
qed

lemma file_close_eq:
  assumes ok: "fds_ok s" "files_count (kf s) > 0"
  shows "file_close s fd =
    (if \<not> open_fd s fd then Some (- E_INVAL, s)
     else do { n \<leftarrow> f_node (file_at s (nat fd)); (_, v) \<leftarrow> vfs_close (kv s) n; Some (0, freed (nat fd) (s\<lparr>kv := v\<rparr>)) })"
  using close_entry [OF ok(1), of "nat fd"] open_entry [OF ok(1), of fd]
  by (auto simp: file_close_def fd2file_ok [OF ok] E_INVAL_def open_fd_def case_prod_unfold)

text \<open>An inode with one more open file.\<close>

definition shared :: "vfs \<Rightarrow> nat \<Rightarrow> vfs" where
  "shared v n = upd_inode n (\<lambda>x. x\<lparr>ref_count := ref_count x + 1, open_count := open_count x + 1\<rparr>) v"

lemma shared_incs: "snd (inode_open_inc (snd (inode_ref_inc v n)) n) = shared v n"
  by (simp add: shared_def inode_open_inc_def inode_ref_inc_def upd_inode_def)

text \<open>The entry \<open>j\<close> has become a second \<open>f\<close>.\<close>

definition copied_to :: "nat \<Rightarrow> ofile \<Rightarrow> kfs \<Rightarrow> kfs" where
  "copied_to j f = upd_file j (\<lambda>x. f\<lparr>f_fd := f_fd x, f_status := FD_OPENED, f_open_count := f_open_count x + 1\<rparr>)"

lemma array_dup:
  assumes j: "j < length (fd_array (kf s))" "f_status (file_at s j) = FD_INIT" and f: "f_status f = FD_OPENED" "f_node f = Some n"
  shows "fd_array_dup s j f = Some (copied_to j f (s\<lparr>kv := shared (kv s) n\<rparr>))"
proof -
  let ?s = "upd_file j (\<lambda>x. x\<lparr>f_pos := f_pos f, f_readable := f_readable f, f_writable := f_writable f, f_node := Some n\<rparr>) (s\<lparr>kv := shared (kv s) n\<rparr>)"
  have a: "file_at ?s j = (file_at s j)\<lparr>f_pos := f_pos f, f_readable := f_readable f, f_writable := f_writable f, f_node := Some n\<rparr>"
    using j(1) by (simp add: file_at_upd)
  have e: "(\<lambda>x. x\<lparr>f_pos := f_pos f, f_readable := f_readable f, f_writable := f_writable f, f_node := Some n,
      f_status := FD_OPENED, f_open_count := f_open_count x + 1\<rparr>) = (\<lambda>x. f\<lparr>f_fd := f_fd x, f_status := FD_OPENED, f_open_count := f_open_count x + 1\<rparr>)"
    using f(2) by (intro ext ofile.equality) simp_all
  have "fd_array_open ?s j = Some (copied_to j f (s\<lparr>kv := shared (kv s) n\<rparr>))"
    using j a f by (simp add: fd_array_open_def fopen_count_inc_def upd_file_upd copied_to_def e)
  then show ?thesis using j f
    by (simp add: fd_array_dup_def Let_def case_prod_unfold shared_incs upd_file_upd del: upd_file_simps(6))
       (simp add: upd_file_upd)
qed

lemma file_dup_eq:
  assumes ok: "fds_ok s" "files_count (kf s) > 0"
  shows "file_dup s fd1 fd2 =
    (if \<not> open_fd s fd1 then Some (- E_INVAL, s)
     else do {
       n \<leftarrow> f_node (file_at s (nat fd1));
       let dup = (\<lambda>j. Some (int j, copied_to j (file_at s (nat fd1)) (s\<lparr>kv := shared (kv s) n\<rparr>)));
       if fd2 = NO_FD then (case lowest_free s of None \<Rightarrow> Some (- E_MAX_OPEN, s) | Some j \<Rightarrow> dup j)
       else if \<not> testfd fd2 then Some (- E_INVAL, s)
       else if open_fd s fd2 then Some (- E_BUSY, s)
       else dup (nat fd2)
     })"
proof (cases "open_fd s fd1")
  case True
  let ?i = "nat fd1"
  obtain n where i: "?i < FILES_STRUCT_NENTRY" "f_node (file_at s ?i) = Some n" "f_status (file_at s ?i) = FD_OPENED"
    using open_entry [OF ok(1) True] True by (auto simp: open_fd_def)
  have d: "do { s' \<leftarrow> fd_array_dup (reserved j s) j (file_at (reserved j s) ?i); Some (f_fd (file_at s' j), s') }
      = Some (int j, copied_to j (file_at s ?i) (s\<lparr>kv := shared (kv s) n\<rparr>))" if j: "j < FILES_STRUCT_NENTRY" "free_fd s j" for j
  proof -
    have l: "j < length (fd_array (kf s))" using ok(1) j by (simp add: fds_ok_def)
    have ne: "j \<noteq> ?i" using i j by (auto simp: free_fd_def)
    have c: "copied_to j f (reserved j s) = copied_to j f s" for f using l by (simp add: copied_to_def reserved_def upd_file_upd)
    have e: "entry_ok j (file_at s j)" by (rule fds_okD [OF ok(1) j(1)])
    have "fd_array_dup (reserved j s) j (file_at s ?i) = Some ((copied_to j (file_at s ?i) s)\<lparr>kv := shared (kv s) n\<rparr>)"
      using array_dup [of j "reserved j s" "file_at s ?i" n] l i c [of "file_at s ?i"]
      by (simp add: reserved_def file_at_upd) (simp add: copied_to_def)
    moreover have "file_at (reserved j s) ?i = file_at s ?i" using l ne by (simp add: reserved_def file_at_upd)
    moreover have "f_fd (file_at ((copied_to j (file_at s ?i) s)\<lparr>kv := shared (kv s) n\<rparr>) j) = int j"
      using l e by (simp add: copied_to_def file_at_upd entry_ok_def)
    ultimately show ?thesis by (simp add: copied_to_def)
  qed
  have fr: "free_fd s (nat fd2) \<longleftrightarrow> \<not> open_fd s fd2" if "testfd fd2"
    using fds_okD [OF ok(1) testfd_int(3) [OF that]] that by (auto simp: open_fd_def free_fd_def entry_ok_def)
  have ez: "E_MAX_OPEN \<noteq> 0" "E_INVAL \<noteq> 0" "E_BUSY \<noteq> 0" by (simp_all add: E_MAX_OPEN_def E_INVAL_def E_BUSY_def)
  note u = file_dup_def fd2file_ok [OF ok] alloc_eq [OF ok]
  show ?thesis
  proof (cases "fd2 = NO_FD")
    case nofd: True
    show ?thesis
    proof (cases "lowest_free s")
      case None
      then show ?thesis using True nofd i(2) ez by (simp add: u)
    next
      case (Some j)
      then have "j < FILES_STRUCT_NENTRY" "free_fd s j" by (simp_all add: lowest_free_Some)
      from d [OF this] show ?thesis using Some True nofd i(2) by (simp add: u)
    qed
  next
    case False
    then show ?thesis using True i(2) ez fr d [of "nat fd2"] testfd_int(2,3) [of fd2]
      by (cases "testfd fd2"; cases "open_fd s fd2") (simp_all add: u)
  qed
qed (simp add: file_dup_def fd2file_ok [OF ok] E_INVAL_def)

lemma vop_fstat_ret: "vop_fstat v n = Some (ret, st) \<Longrightarrow> ret = 0"
  by (auto simp: vop_fstat_def sfs_fstat_def sfs_gettype_def bind_eq_Some_conv Let_def split: if_splits)

definition unused :: "nat \<Rightarrow> kfs \<Rightarrow> kfs" where
  "unused i = upd_file i (\<lambda>f. f\<lparr>f_node := None\<rparr>)"

text \<open>The entry \<open>i\<close> open for the inode \<open>n\<close>.\<close>

definition entered :: "nat \<Rightarrow> nat \<Rightarrow> 32 word \<Rightarrow> int \<Rightarrow> kfs \<Rightarrow> kfs" where
  "entered i n mode p = upd_file i (\<lambda>_. \<lparr>f_status = FD_OPENED, f_readable = (mode = O_RDONLY \<or> mode = O_RDWR),
     f_writable = (mode = O_WRONLY \<or> mode = O_RDWR), f_fd = int i, f_pos = p, f_node = Some n, f_open_count = 1\<rparr>)"

lemma file_open_eq:
  assumes ok: "fds_ok s" "files_count (kf s) > 0"
  shows "file_open s m path flags boot get_root k =
    (let mode = flags AND O_ACCMODE in
     if mode \<notin> {O_RDONLY, O_WRONLY, O_RDWR} then Some (- E_INVAL, m, s)
     else case lowest_free s of
       None \<Rightarrow> Some (- E_MAX_OPEN, m, s)
     | Some i \<Rightarrow> do {
         (ret, node, m, v) \<leftarrow> vfs_open (kv s) m path flags (fs_pwd (kf s)) boot get_root k;
         if ret \<noteq> 0 then Some (ret, m, unused i (s\<lparr>kv := v\<rparr>))
         else do {
           n \<leftarrow> node;
           p \<leftarrow> (if flags AND O_APPEND \<noteq> 0 then do { (_, st) \<leftarrow> vop_fstat v n; Some (int (st_size st)) } else Some 0);
           Some (int i, m, entered i n mode p (s\<lparr>kv := v\<rparr>))
         }
       })"
proof -
  have ez: "E_MAX_OPEN \<noteq> 0" by (simp add: E_MAX_OPEN_def)
  show ?thesis
  proof (cases "lowest_free s")
    case None
    then show ?thesis using ez unfolding file_open_def alloc_eq [OF ok] Let_def by auto
  next
    case (Some i)
    then have i: "i < FILES_STRUCT_NENTRY" "f_status (file_at s i) = FD_NONE" by (simp_all add: lowest_free_Some free_fd_def)
    have l: "i < length (fd_array (kf s))" using ok(1) i by (simp add: fds_ok_def)
    have e: "f_open_count (file_at s i) = 0" "f_fd (file_at s i) = int i" using fds_okD [OF ok(1) i(1)] i(2) by (auto simp: entry_ok_def)
    have r: "kv (reserved i s) = kv s" "kf (s\<lparr>kv := v\<rparr>) = kf s" "fs_pwd (kf (reserved i s)) = fs_pwd (kf s)" for v by (simp_all add: reserved_def)
    have f: "fd_array_free ((reserved i s)\<lparr>kv := v\<rparr>) i = Some (unused i (s\<lparr>kv := v\<rparr>))" for v
    proof -
      have "upd_file i (\<lambda>f. f\<lparr>f_status := FD_NONE\<rparr>) (reserved i s) = unused i s"
        using l i unfolding reserved_def unused_def by (simp add: upd_file_upd) (auto intro!: upd_file_cong ofile.equality)
      then show ?thesis using l e by (simp add: fd_array_free_def reserved_def file_at_upd unused_def Let_def)
    qed
    have o: "fd_array_open (upd_file i (\<lambda>f. f\<lparr>f_node := Some n, f_readable := rd, f_writable := wr\<rparr>)
        (upd_file i (\<lambda>f. f\<lparr>f_pos := p\<rparr>) ((reserved i s)\<lparr>kv := v\<rparr>))) i
      = Some (upd_file i (\<lambda>_. \<lparr>f_status = FD_OPENED, f_readable = rd, f_writable = wr, f_fd = int i, f_pos = p, f_node = Some n, f_open_count = 1\<rparr>) (s\<lparr>kv := v\<rparr>))"
      for n rd wr p v
      using l e by (simp add: fd_array_open_def fopen_count_inc_def reserved_def upd_file_upd file_at_upd)
        (rule arg_cong [where f = "\<lambda>s. s\<lparr>kv := v\<rparr>"], auto intro!: upd_file_cong ofile.equality)
    have pp: "upd_file i (\<lambda>f. f\<lparr>f_pos := p\<rparr>) (upd_file i (\<lambda>f. f\<lparr>f_pos := 0\<rparr>) (reserved i s)) = upd_file i (\<lambda>f. f\<lparr>f_pos := p\<rparr>) (reserved i s)" for p
      using l by (simp add: upd_file_upd reserved_def)
    have fd: "f_fd (file_at (upd_file i (\<lambda>_. \<lparr>f_status = FD_OPENED, f_readable = rd, f_writable = wr, f_fd = int i, f_pos = p, f_node = Some n, f_open_count = 1\<rparr>) s) i) = int i"
      for n rd wr p using l by (simp add: file_at_upd)
    note u = file_open_def alloc_eq [OF ok] Some r f
    show ?thesis
    proof (cases "flags AND O_ACCMODE \<in> {O_RDONLY, O_WRONLY, O_RDWR}")
      case False
      then show ?thesis by (simp add: u Let_def)
    next
      case mode: True
      have nb: "\<not> (\<not> (flags AND O_ACCMODE = O_RDONLY \<or> flags AND O_ACCMODE = O_RDWR) \<and> \<not> (flags AND O_ACCMODE = O_WRONLY \<or> flags AND O_ACCMODE = O_RDWR))"
        using mode by auto
      have "file_open s m path flags boot get_root k = do {
          (ret, node, m, v) \<leftarrow> vfs_open (kv s) m path flags (fs_pwd (kf s)) boot get_root k;
          if ret \<noteq> 0 then Some (ret, m, unused i (s\<lparr>kv := v\<rparr>))
          else do {
            n \<leftarrow> node;
            p \<leftarrow> (if flags AND O_APPEND \<noteq> 0 then do { (_, st) \<leftarrow> vop_fstat v n; Some (int (st_size st)) } else Some 0);
            Some (int i, m, entered i n (flags AND O_ACCMODE) p (s\<lparr>kv := v\<rparr>))
          }}"
        unfolding u Let_def if_not_P [OF nb]
        by (auto simp: f o [simplified] pp fd entered_def r intro!: Option.bind_cong dest: vop_fstat_ret split: Option.bind_splits)
      moreover have "\<not> flags AND O_ACCMODE \<notin> {O_RDONLY, O_WRONLY, O_RDWR}" using mode by simp
      ultimately show ?thesis unfolding Let_def by (simp only: Some option.case not_True_eq_False if_False)
    qed
  qed
qed

end
