(* ===== verification/FileUse.thy ===== *)
theory FileUse
  imports File
begin

text \<open>
  What a process sees of its open files: the invariant of the table, writing and reading back through a
  descriptor, duplicating, and the table over \<open>fork\<close> and \<open>exit\<close>.
\<close>

section \<open>What every operation keeps\<close>

lemma fds_ok_results:
  assumes "fds_ok s"
  shows "testfd fd \<Longrightarrow> fds_ok (moved_on fd d s)" "testfd fd \<Longrightarrow> fds_ok (moved_to fd p s)"
    "i < FILES_STRUCT_NENTRY \<Longrightarrow> fds_ok (freed i s)" "i < FILES_STRUCT_NENTRY \<Longrightarrow> fds_ok (entered i n mode p s)"
    "lowest_free s = Some i \<Longrightarrow> fds_ok (unused i s)"
    "free_fd s i \<Longrightarrow> i < FILES_STRUCT_NENTRY \<Longrightarrow> f_node f = Some n \<Longrightarrow> fds_ok (copied_to i f s)"
  using assms fds_okD [OF assms, of "nat fd"] fds_okD [OF assms, of i] testfd_int(3) [of fd]
  by (auto simp: moved_on_def moved_to_def freed_def entered_def unused_def copied_to_def lowest_free_Some free_fd_def entry_ok_def
      intro!: fds_ok_upd)

definition all_results :: "('a \<Rightarrow> bool) \<Rightarrow> 'a option \<Rightarrow> bool" where
  "all_results P r = (case r of None \<Rightarrow> True | Some x \<Rightarrow> P x)"

lemma all_results_simps [simp]: "all_results P None" "all_results P (Some x) = P x"
  by (simp_all add: all_results_def)

lemma all_results_bind: "(\<And>x. r = Some x \<Longrightarrow> all_results P (f x)) \<Longrightarrow> all_results P (r \<bind> f)"
  by (cases r) simp_all

text \<open>C25: The table of open files stays well formed. Whatever an operation is asked and whatever it returns, every
  entry after it is either free, with no user, or open, with exactly one user and an inode, and each
  entry still carries its own number; a table that was just created is well formed.\<close>

theorem file_table_ok:
  assumes "fds_ok s" "files_count (kf s) > 0"
  shows "all_results (\<lambda>(_, _, s'). fds_ok s') (file_open s m path flags boot get_root k)
    \<and> all_results (\<lambda>(_, s'). fds_ok s') (file_close s fd)
    \<and> all_results (\<lambda>(_, _, _, s'). fds_ok s') (file_read s fd buf base len)
    \<and> all_results (\<lambda>(_, _, _, s'). fds_ok s') (file_write s fd buf base len)
    \<and> all_results (\<lambda>(_, s'). fds_ok s') (file_seek s fd pos whence)
    \<and> all_results (\<lambda>(_, _, s'). fds_ok s') (file_fstat s fd st)
    \<and> all_results (\<lambda>(_, s'). fds_ok s') (file_fsync s fd)
    \<and> all_results (\<lambda>(_, _, _, s'). fds_ok s') (file_getdirentry s m ep fd de)
    \<and> all_results (\<lambda>(_, s'). fds_ok s') (file_dup s fd fd2)
    \<and> all_results (\<lambda>fs. fds_ok \<lparr>kv = v, kf = fs\<rparr>) (files_create page)"
proof (intro conjI)
  have t: "testfd fd" if "open_fd s fd" for fd using that by (simp add: open_fd_def)
  have r: "fds_ok (s\<lparr>kv := v\<rparr>)" for v using assms(1) by simp
  note k = fds_ok_results [OF assms(1)] and kr = fds_ok_results [OF r]
  have lf: "lowest_free (s\<lparr>kv := v\<rparr>) = lowest_free s" "free_fd (s\<lparr>kv := v\<rparr>) i = free_fd s i" for v i
    by (simp_all add: lowest_free_def free_fd_def [abs_def])
  have fr: "free_fd s (nat fd)" if "testfd fd" "\<not> open_fd s fd" for fd
    using fds_okD [OF assms(1) testfd_int(3) [OF that(1)]] that by (auto simp: open_fd_def free_fd_def entry_ok_def)
  show "all_results (\<lambda>(_, _, s'). fds_ok s') (file_open s m path flags boot get_root k)"
    unfolding file_open_eq [OF assms] Let_def
    by (auto intro!: all_results_bind kr simp: lf assms(1) lowest_free_Some split: option.split prod.split)
  show "all_results (\<lambda>(_, s'). fds_ok s') (file_close s fd)"
    unfolding file_close_eq [OF assms] by (auto intro!: all_results_bind kr testfd_int(3) t simp: assms(1))
  show "all_results (\<lambda>(_, _, _, s'). fds_ok s') (file_read s fd buf base len)"
    unfolding file_read_eq [OF assms] by (auto intro!: all_results_bind kr t simp: assms(1))
  show "all_results (\<lambda>(_, _, _, s'). fds_ok s') (file_write s fd buf base len)"
    unfolding file_write_eq [OF assms] by (auto intro!: all_results_bind kr t simp: assms(1))
  show "all_results (\<lambda>(_, s'). fds_ok s') (file_seek s fd pos whence)"
    unfolding file_seek_eq [OF assms] by (auto intro!: all_results_bind kr t simp: assms(1))
  show "all_results (\<lambda>(_, _, s'). fds_ok s') (file_fstat s fd st)"
    unfolding file_fstat_eq [OF assms] by (auto intro!: all_results_bind simp: assms(1))
  show "all_results (\<lambda>(_, s'). fds_ok s') (file_fsync s fd)"
    unfolding file_fsync_eq [OF assms] by (auto intro!: all_results_bind simp: assms(1))
  show "all_results (\<lambda>(_, _, _, s'). fds_ok s') (file_getdirentry s m ep fd de)"
    unfolding file_getdirentry_eq [OF assms] by (auto intro!: all_results_bind simp: assms(1))
  show "all_results (\<lambda>(_, s'). fds_ok s') (file_dup s fd fd2)"
    unfolding file_dup_eq [OF assms] Let_def
    by (auto intro!: all_results_bind kr testfd_int(3) fr t simp: lf assms(1) lowest_free_Some split: option.split)
  show "all_results (\<lambda>fs. fds_ok \<lparr>kv = v, kf = fs\<rparr>) (files_create page)"
    by (auto simp: files_create_def fds_ok_def fd_array_init_def file_at_def entry_ok_def split: option.split)
qed

section \<open>Writing and reading through a descriptor\<close>

text \<open>The inode \<open>n\<close> is a file of the file system, in use.\<close>

definition live_file :: "vfs \<Rightarrow> nat \<Rightarrow> bool" where
  "live_file v n \<longleftrightarrow> in_ops (inodes v n) = FileOps \<and> inode_check v n = Some () \<and> fs_ok (sfs v) \<and> file_ok (sfs v) (din (sin_of v n))
     \<and> dn_type (din (sin_of v n)) \<noteq> SFS_TYPE_DIR \<and> dn_blocks (din (sin_of v n)) = ends (dn_size (din (sin_of v n)))"

definition file_content :: "vfs \<Rightarrow> nat \<Rightarrow> nat \<Rightarrow> byte" where
  "file_content v n = content (sfs v) (din (sin_of v n))"

definition file_size :: "vfs \<Rightarrow> nat \<Rightarrow> nat" where
  "file_size v n = dn_size (din (sin_of v n))"

lemma ends_max: "ends (max a b) = max (ends a) (ends b)"
  by (simp add: ends_def max_def div_le_mono antisym)

lemma ends_ge: "off div 4096 \<le> ends off" and ends_mono: "a \<le> b \<Longrightarrow> ends a \<le> ends b"
  by (simp_all add: ends_def div_le_mono)

text \<open>The inode after a transfer, and nothing else of the table of inodes.\<close>

definition same_but :: "nat \<Rightarrow> vfs \<Rightarrow> vfs \<Rightarrow> bool" where
  "same_but n v v' \<longleftrightarrow> (\<forall>m. m \<noteq> n \<longrightarrow> inodes v' m = inodes v m) \<and> in_ops (inodes v' n) = in_ops (inodes v n)
     \<and> ref_count (inodes v' n) = ref_count (inodes v n) \<and> open_count (inodes v' n) = open_count (inodes v n)
     \<and> inode_list v' = inode_list v \<and> hash_list v' = hash_list v"

lemma same_but_set: "same_but n v (set_sin n sin' (v\<lparr>sfs := s'\<rparr>))"
  by (simp add: same_but_def set_sin_def upd_inode_def)

lemma live_after:
  assumes "live_file v n" "grown (sfs v) (sin_of v n) e f s' sin'"
  shows "live_file (set_sin n sin' (v\<lparr>sfs := s'\<rparr>)) n \<and> file_content (set_sin n sin' (v\<lparr>sfs := s'\<rparr>)) n = f
    \<and> file_size (set_sin n sin' (v\<lparr>sfs := s'\<rparr>)) n = max (file_size v n) e"
proof -
  have "inode_check (set_sin n sin' (v\<lparr>sfs := s'\<rparr>)) n = inode_check v n"
    by (simp add: inode_check_def)
  then show ?thesis using assms by (auto simp: live_file_def grown_def ends_max file_content_def file_size_def)
qed

lemma vop_transfer:
  assumes l: "live_file v n" and r: "request iob off len" and f: "fits (sfs v) (din (sin_of v n)) off len"
  shows "\<exists>v'. vop_write v n iob = Some (0, consumed iob len (io_buf iob), v') \<and> same_but n v v' \<and> live_file v' n
      \<and> file_content v' n = put_bytes (file_content v n) off (take len (drop (io_base iob) (io_buf iob)))
      \<and> file_size v' n = max (file_size v n) (off + len) \<and> fits (sfs v') (din (sin_of v' n)) off len
      \<and> (\<forall>r. fits (sfs v) (din (sin_of v n)) off (len + r) \<longrightarrow> fits (sfs v') (din (sin_of v' n)) (off + len) r)"
    and "\<exists>v'. vop_read v n iob = Some (0, consumed iob len (splice (io_buf iob) (io_base iob) (get_bytes (file_content v n) off len)), v')
      \<and> same_but n v v' \<and> live_file v' n \<and> file_content v' n = file_content v n \<and> file_size v' n = max (file_size v n) (off + len)
      \<and> (\<forall>r. fits (sfs v) (din (sin_of v n)) off (len + r) \<longrightarrow> fits (sfs v') (din (sin_of v' n)) (off + len) r)"
proof -
  have k: "fs_ok (sfs v)" "file_ok (sfs v) (din (sin_of v n))" "dn_type (din (sin_of v n)) \<noteq> SFS_TYPE_DIR" using l by (simp_all add: live_file_def)
  have m: "off + len \<le> 1036 * 4096" using f by (simp add: fits_def)
  from io_ok [OF k f r, of True] obtain sin' s' where w:
    "sfs_write (sfs v) (sin_of v n) iob = Some (0, consumed iob len (io_buf iob), sin', s')"
    "grown (sfs v) (sin_of v n) (off + len) (put_bytes (file_content v n) off (take len (drop (io_base iob) (io_buf iob)))) s' sin'"
    by (auto simp: sfs_write_def moved_def stored_def file_content_def)
  show "\<exists>v'. vop_write v n iob = Some (0, consumed iob len (io_buf iob), v') \<and> same_but n v v' \<and> live_file v' n
      \<and> file_content v' n = put_bytes (file_content v n) off (take len (drop (io_base iob) (io_buf iob)))
      \<and> file_size v' n = max (file_size v n) (off + len) \<and> fits (sfs v') (din (sin_of v' n)) off len
      \<and> (\<forall>r. fits (sfs v) (din (sin_of v n)) off (len + r) \<longrightarrow> fits (sfs v') (din (sin_of v' n)) (off + len) r)"
    using w(1) live_after [OF l w(2)] grown_fits [OF w(2) m] grown_fits_rest [OF w(2)] l
    by (intro exI [of _ "set_sin n sin' (v\<lparr>sfs := s'\<rparr>)"]) (simp add: vop_write_def live_file_def same_but_set)
  from io_ok [OF k f r, of False] obtain sin' s' where rd:
    "sfs_read (sfs v) (sin_of v n) iob = Some (0, consumed iob len (splice (io_buf iob) (io_base iob) (get_bytes (file_content v n) off len)), sin', s')"
    "grown (sfs v) (sin_of v n) (off + len) (file_content v n) s' sin'"
    by (auto simp: sfs_read_def moved_def stored_def file_content_def)
  show "\<exists>v'. vop_read v n iob = Some (0, consumed iob len (splice (io_buf iob) (io_base iob) (get_bytes (file_content v n) off len)), v')
      \<and> same_but n v v' \<and> live_file v' n \<and> file_content v' n = file_content v n \<and> file_size v' n = max (file_size v n) (off + len)
      \<and> (\<forall>r. fits (sfs v) (din (sin_of v n)) off (len + r) \<longrightarrow> fits (sfs v') (din (sin_of v' n)) (off + len) r)"
    using rd(1) live_after [OF l rd(2)] grown_fits_rest [OF rd(2)] l
    by (intro exI [of _ "set_sin n sin' (v\<lparr>sfs := s'\<rparr>)"]) (simp add: vop_read_def live_file_def same_but_set)
qed

lemma used_consumed: "io_resid iob = io_len iob \<Longrightarrow> len \<le> io_len iob \<Longrightarrow> iobuf_used (consumed iob len b) = len"
  by (simp add: iobuf_used_def consumed_def)

lemma init_request:
  "0 < len \<Longrightarrow> base + len \<le> length buf \<Longrightarrow> request (iobuf_init buf base len (int off)) off len"
  "iobuf_used (consumed (iobuf_init buf base len p) len b) = len" "io_buf (consumed iob len b) = b"
  "io_buf (iobuf_init buf base len p) = buf" "io_base (iobuf_init buf base len p) = base"
  by (simp_all add: request_def iobuf_init_def iobuf_used_def consumed_def)

lemma at_pos:
  assumes "fds_ok s" "open_fd s fd"
  shows "file_at (moved_on fd d s) (nat fd) = (file_at s (nat fd))\<lparr>f_pos := f_pos (file_at s (nat fd)) + d\<rparr>"
    "file_at (moved_to fd p s) (nat fd) = (file_at s (nat fd))\<lparr>f_pos := p\<rparr>"
    "fds_ok (moved_on fd d s)" "fds_ok (moved_to fd p s)" "open_fd (moved_on fd d s) fd" "open_fd (moved_to fd p s) fd"
  using assms open_entry [OF assms] fds_ok_results(1,2) [OF assms(1), of fd]
  by (simp_all add: moved_on_def moved_to_def file_at_upd fds_ok_def open_fd_def)

lemma kv_pos [simp]: "kv (moved_on fd d s) = kv s" "kv (moved_to fd p s) = kv s"
    "files_count (kf (moved_on fd d s)) = files_count (kf s)" "files_count (kf (moved_to fd p s)) = files_count (kf s)"
    "open_fd (s\<lparr>kv := v\<rparr>) fd = open_fd s fd"
  by (simp_all add: moved_on_def moved_to_def open_fd_def)

text \<open>A seek within the file only sets the position.\<close>

lemma seek_ok:
  assumes ok: "fds_ok s" "files_count (kf s) > 0" "open_fd s fd" "f_node (file_at s (nat fd)) = Some n" "live_file (kv s) n"
    and t: "seek_target s fd n pos whence = Some (0, int p)" "p \<le> file_size (kv s) n" "p < SFS_MAX_FILE_SIZE"
  shows "file_seek s fd pos whence = Some (0, moved_to fd (int p) s)"
proof -
  have "sfs_tryseek (sfs (kv s)) (sin_of (kv s) n) (int p) = Some (0, sin_of (kv s) n, sfs (kv s))"
    using t(2,3) by (intro tryseek_cases(2)) (simp_all add: file_size_def)
  moreover have "set_sin n (sin_of (kv s) n) ((kv s)\<lparr>sfs := sfs (kv s)\<rparr>) = kv s"
    by (simp add: set_sin_def upd_inode_def sin_of_def)
  ultimately have "vop_tryseek (kv s) n (int p) = Some (0, kv s)" using ok(5) by (simp add: vop_tryseek_def live_file_def)
  then show ?thesis using ok t(1) by (simp add: file_seek_eq [OF ok(1,2)])
qed

text \<open>C21: What is written through a descriptor is read back through it. A write of \<open>len\<close> bytes at the position of
  the descriptor, which the file system can serve, takes all the bytes and moves the position by \<open>len\<close>; a
  seek back by \<open>len\<close> from the current position returns there; a read then gives, in any buffer, exactly
  the bytes written. The file has those bytes in place of the old ones, and everything else of its
  contents and the table of files and inodes is as before.\<close>

theorem file_write_seek_read:
  assumes ok: "fds_ok s" "files_count (kf s) > 0" "open_fd s fd" and f: "file_at s (nat fd) = f" "f_node f = Some n"
    "f_readable f" "f_writable f" "f_pos f = int off"
    and n: "live_file (kv s) n" "fits (sfs (kv s)) (din (sin_of (kv s) n)) off len"
    and b: "0 < len" "base + len \<le> length buf" "base2 + len \<le> length buf2"
  shows "\<exists>s1 s2 s3. file_write s fd buf base len = Some (0, len, buf, s1)
    \<and> file_seek s1 fd (- int len) LSEEK_CUR = Some (0, s2)
    \<and> file_read s2 fd buf2 base2 len = Some (0, len, splice buf2 base2 (take len (drop base buf)), s3)
    \<and> file_content (kv s3) n = put_bytes (file_content (kv s) n) off (take len (drop base buf))
    \<and> file_size (kv s3) n = max (file_size (kv s) n) (off + len)
    \<and> same_but n (kv s) (kv s3) \<and> kf s3 = kf (moved_on fd (int len) s)"
proof -
  let ?bs = "take len (drop base buf)" and ?iob = "iobuf_init buf base len (int off)"
  have max: "off + len \<le> 1036 * 4096" using n(2) by (simp add: fits_def)
  obtain v1 where w: "vop_write (kv s) n ?iob = Some (0, consumed ?iob len buf, v1)" "same_but n (kv s) v1" "live_file v1 n"
    "file_content v1 n = put_bytes (file_content (kv s) n) off ?bs" "file_size v1 n = max (file_size (kv s) n) (off + len)"
    "fits (sfs v1) (din (sin_of v1 n)) off len"
    using vop_transfer(1) [OF n(1) init_request(1) [OF b(1,2)] n(2)] by (auto simp: init_request)
  define s1 where "s1 = moved_on fd (int len) (s\<lparr>kv := v1\<rparr>)"
  have e1: "file_write s fd buf base len = Some (0, len, buf, s1)"
    using ok f w(1) by (simp add: file_write_eq [OF ok(1,2)] init_request s1_def)
  have ok1: "fds_ok s1" "files_count (kf s1) > 0" "open_fd s1 fd" "kv s1 = v1" "file_at s1 (nat fd) = f\<lparr>f_pos := int (off + len)\<rparr>"
    using ok f at_pos [of "s\<lparr>kv := v1\<rparr>" fd] by (simp_all add: s1_def)
  define s2 where "s2 = moved_to fd (int off) s1"
  have "signed_take_bit 63 (int off) = int off" using max by (simp add: signed_take_bit_int_eq_self)
  then have st: "seek_target s1 fd n (- int len) LSEEK_CUR = Some (0, int off)"
    using ok1(5) by (simp add: seek_target_def LSEEK_SET_def LSEEK_CUR_def)
  have lim: "off \<le> file_size (kv s1) n" "off < SFS_MAX_FILE_SIZE" "f_node (file_at s1 (nat fd)) = Some n" "live_file (kv s1) n"
    using w max f ok1 by (simp_all add: SFS_MAX_FILE_SIZE_def)
  have e2: "file_seek s1 fd (- int len) LSEEK_CUR = Some (0, s2)"
    unfolding s2_def by (rule seek_ok [OF ok1(1-3) lim(3,4) st lim(1,2)])
  have ok2: "fds_ok s2" "files_count (kf s2) > 0" "open_fd s2 fd" "kv s2 = v1" "file_at s2 (nat fd) = f\<lparr>f_pos := int off\<rparr>"
    using ok1 at_pos [OF ok1(1,3)] by (simp_all add: s2_def)
  let ?iob2 = "iobuf_init buf2 base2 len (int off)"
  have "len = length ?bs" using b by auto
  then have g: "get_bytes (file_content v1 n) off len = ?bs" unfolding w(4) by (rule get_put_same)
  obtain v3 where r: "vop_read v1 n ?iob2 = Some (0, consumed ?iob2 len (splice buf2 base2 ?bs), v3)" "same_but n v1 v3"
    "file_content v3 n = file_content v1 n" "file_size v3 n = max (file_size v1 n) (off + len)"
    using vop_transfer(2) [OF w(3) init_request(1) [OF b(1,3)] w(6)] by (auto simp: init_request g)
  define s3 where "s3 = moved_on fd (int len) (s2\<lparr>kv := v3\<rparr>)"
  have e3: "file_read s2 fd buf2 base2 len = Some (0, len, splice buf2 base2 ?bs, s3)"
    using ok2 f r(1) by (simp add: file_read_eq [OF ok2(1,2)] init_request s3_def)
  have l: "nat fd < length (fd_array (kf s))" using ok open_entry [OF ok(1,3)] by (simp add: fds_ok_def)
  have "kf s3 = kf (moved_on fd (int len) s)"
    using l f by (simp add: s3_def s2_def s1_def moved_on_def moved_to_def upd_file_upd) (simp add: upd_file_def file_at_def)
  then show ?thesis using e1 e2 e3 w r by (auto simp: s3_def same_but_def)
qed

section \<open>Descriptors of directories\<close>

text \<open>A descriptor is only good for the table of functions its inode has. Reading or seeking through a
  descriptor of a directory makes the kernel panic, and so does listing one of a file; only the flags
  of the descriptor are checked before.\<close>

theorem file_ops_wrong_kind_panic:
  assumes ok: "fds_ok s" "files_count (kf s) > 0" "open_fd s fd" and n: "f_node (file_at s (nat fd)) = Some n"
  shows "if in_ops (inodes (kv s) n) = DirOps
    then file_read s fd buf base len = (if f_readable (file_at s (nat fd)) then None else Some (- E_INVAL, 0, buf, s))
      \<and> file_write s fd buf base len = (if f_writable (file_at s (nat fd)) then None else Some (- E_INVAL, 0, buf, s))
      \<and> file_seek s fd pos LSEEK_SET = None \<and> file_seek s fd pos LSEEK_CUR = None \<and> file_seek s fd pos LSEEK_END = None
    else file_getdirentry s m ep fd de = None"
proof (cases "in_ops (inodes (kv s) n)")
  case DirOps
  have w: "LSEEK_CUR \<noteq> LSEEK_SET" "LSEEK_END \<noteq> LSEEK_SET" "LSEEK_END \<noteq> LSEEK_CUR" by (simp_all add: LSEEK_SET_def LSEEK_CUR_def LSEEK_END_def)
  have "file_seek s fd pos LSEEK_END = None"
    using ok n DirOps w by (auto simp: file_seek_eq [OF ok(1,2)] seek_target_def vop_tryseek_def split: Option.bind_splits dest: vop_fstat_ret)
  then show ?thesis using ok n DirOps w
    by (simp add: file_read_eq [OF ok(1,2)] file_write_eq [OF ok(1,2)] file_seek_eq [OF ok(1,2)] vop_read_def vop_write_def vop_tryseek_def seek_target_def)
next
  case FileOps
  then show ?thesis using ok n by (simp add: file_getdirentry_eq [OF ok(1,2)] vop_getdirentry_def)
qed

section \<open>Duplicating\<close>

text \<open>The same inodes, with \<open>c n\<close> more users of each inode \<open>n\<close>.\<close>

definition held :: "vfs \<Rightarrow> (nat \<Rightarrow> nat) \<Rightarrow> vfs" where
  "held v c = v\<lparr>inodes := (\<lambda>n. (inodes v n)\<lparr>ref_count := ref_count (inodes v n) + int (c n), open_count := open_count (inodes v n) + int (c n)\<rparr>)\<rparr>"

lemma shared_held: "shared (held v c) n = held v (c(n := c n + 1))"
  by (auto simp: shared_def held_def upd_inode_def intro!: vfs.equality)

lemma held_none [simp]: "held v (\<lambda>_. 0) = v"
  by (simp add: held_def)

lemma close_held:
  assumes "0 < c n" "0 < open_count (inodes v n)" "0 < ref_count (inodes v n)"
  shows "vfs_close (held v c) n = Some (0, held v (c(n := c n - 1)))"
proof -
  let ?v = "upd_inode n (\<lambda>x. x\<lparr>open_count := open_count x - 1\<rparr>) (held v c)"
  have o: "inode_open_dec (held v c) n = Some (open_count (inodes v n) + int (c n) - 1, ?v)"
    using assms by (simp add: inode_open_dec_def Let_def held_def upd_inode_def)
  have r: "inode_ref_dec ?v n = Some (ref_count (inodes v n) + int (c n) - 1, upd_inode n (\<lambda>x. x\<lparr>ref_count := ref_count x - 1\<rparr>) ?v)"
    using assms by (simp add: inode_ref_dec_def Let_def held_def upd_inode_def)
  have "upd_inode n (\<lambda>x. x\<lparr>ref_count := ref_count x - 1\<rparr>) ?v = held v (c(n := c n - 1))"
    using assms(1) by (auto simp: held_def upd_inode_def of_nat_diff intro!: vfs.equality)
  then show ?thesis using o r by (simp add: vfs_close_def)
qed

text \<open>Duplicating takes the lowest free descriptor, copies the position and the modes, and counts one more
  user of the inode; closing the copy undoes all of it: every other descriptor and the whole file system are
  as before. A full table gives \<open>E_MAX_OPEN\<close>, and duplicating onto the descriptor itself \<open>E_BUSY\<close>.\<close>

theorem file_dup_close:
  assumes ok: "fds_ok s" "files_count (kf s) > 0" "open_fd s fd" and n: "f_node (file_at s (nat fd)) = Some n"
    and c: "0 < open_count (inodes (kv s) n)" "0 < ref_count (inodes (kv s) n)"
  shows "(case lowest_free s of
      None \<Rightarrow> file_dup s fd NO_FD = Some (- E_MAX_OPEN, s)
    | Some j \<Rightarrow> \<exists>s1 s2. file_dup s fd NO_FD = Some (int j, s1) \<and> file_at s1 j = (file_at s (nat fd))\<lparr>f_fd := int j\<rparr>
        \<and> kv s1 = held (kv s) ((\<lambda>_. 0)(n := 1)) \<and> file_close s1 (int j) = Some (0, s2)
        \<and> kv s2 = kv s \<and> lowest_free s2 = Some j \<and> (\<forall>i. i \<noteq> j \<longrightarrow> file_at s2 i = file_at s i))
    \<and> file_dup s fd fd = Some (- E_BUSY, s)"
proof (intro conjI)
  show "file_dup s fd fd = Some (- E_BUSY, s)"
    using ok n by (auto simp: file_dup_eq [OF ok(1,2)] open_fd_def testfd_def NO_FD_def Let_def)
  show "case lowest_free s of
      None \<Rightarrow> file_dup s fd NO_FD = Some (- E_MAX_OPEN, s)
    | Some j \<Rightarrow> \<exists>s1 s2. file_dup s fd NO_FD = Some (int j, s1) \<and> file_at s1 j = (file_at s (nat fd))\<lparr>f_fd := int j\<rparr>
        \<and> kv s1 = held (kv s) ((\<lambda>_. 0)(n := 1)) \<and> file_close s1 (int j) = Some (0, s2)
        \<and> kv s2 = kv s \<and> lowest_free s2 = Some j \<and> (\<forall>i. i \<noteq> j \<longrightarrow> file_at s2 i = file_at s i)"
  proof (cases "lowest_free s")
    case None
    then show ?thesis using ok n by (simp add: file_dup_eq [OF ok(1,2)])
  next
    case (Some j)
    let ?f = "file_at s (nat fd)"
    have j: "j < FILES_STRUCT_NENTRY" "free_fd s j" using Some by (simp_all add: lowest_free_Some)
    have l: "j < length (fd_array (kf s))" using ok(1) j by (simp add: fds_ok_def)
    have e: "f_fd (file_at s j) = int j" "f_open_count (file_at s j) = 0"
      using fds_okD [OF ok(1) j(1)] j(2) by (auto simp: entry_ok_def free_fd_def)
    define s1 where "s1 = copied_to j ?f (s\<lparr>kv := shared (kv s) n\<rparr>)"
    have d: "file_dup s fd NO_FD = Some (int j, s1)" using ok n Some by (simp add: file_dup_eq [OF ok(1,2)] s1_def)
    have f1: "file_at s1 j = ?f\<lparr>f_fd := int j, f_status := FD_OPENED, f_open_count := 1\<rparr>" using l e by (simp add: s1_def copied_to_def file_at_upd)
    have st: "f_status ?f = FD_OPENED" "f_open_count ?f = 1" using ok(3) open_entry [OF ok(1,3)] by (auto simp: open_fd_def)
    have f2: "?f\<lparr>f_fd := int j, f_status := FD_OPENED, f_open_count := 1\<rparr> = ?f\<lparr>f_fd := int j\<rparr>" using st by (intro ofile.equality) simp_all
    have k1: "kv s1 = held (kv s) ((\<lambda>_. 0)(n := 1))" using shared_held [of "kv s" "\<lambda>_. 0" n] by (simp add: s1_def copied_to_def)
    have ok1: "fds_ok s1" "files_count (kf s1) > 0" "open_fd s1 (int j)"
      using fds_ok_results(6) [of "s\<lparr>kv := shared (kv s) n\<rparr>" j ?f n] ok j n f1 by (simp_all add: s1_def free_fd_def copied_to_def open_fd_def testfd_int)
    define s2 where "s2 = freed j (s1\<lparr>kv := kv s\<rparr>)"
    have "(\<lambda>_. 0)(n := 1, n := 0) = (\<lambda>_. 0 :: nat)" by auto
    then have cl: "file_close s1 (int j) = Some (0, s2)"
      using ok1(3) n c by (simp add: file_close_eq [OF ok1(1,2)] f1 k1 close_held s2_def)
    have f3: "file_at s2 i = (if i = j then (file_at s1 j)\<lparr>f_open_count := 0, f_status := FD_NONE\<rparr> else file_at s i)" for i
      using l by (simp add: s2_def s1_def freed_def copied_to_def file_at_upd)
    have "lowest_free s2 = Some j" using Some f3 by (simp add: lowest_free_Some free_fd_def)
    then show ?thesis using Some d f1 f2 k1 cl f3
      by (auto intro!: exI [of _ s1] exI [of _ s2] simp: s2_def freed_def)
  qed
qed

section \<open>A process forks and exits\<close>

text \<open>How many of the entries are open for each inode.\<close>

definition users :: "ofile list \<Rightarrow> nat list \<Rightarrow> nat \<Rightarrow> nat" where
  "users fa is n = length (filter (\<lambda>i. f_status (fa ! i) = FD_OPENED \<and> f_node (fa ! i) = Some n) is)"

lemma users_Cons:
  "users fa (i # is) = (if f_status (fa ! i) = FD_OPENED then (case f_node (fa ! i) of Some n \<Rightarrow> (users fa is)(n := users fa is n + 1) | None \<Rightarrow> users fa is)
     else users fa is)"
  by (auto simp: users_def fun_eq_iff split: option.split)

definition dup_entry :: "ofile \<Rightarrow> nat \<Rightarrow> ofile \<Rightarrow> ofile" where
  "dup_entry f i x = (if f_status f = FD_OPENED then f\<lparr>f_fd := int i\<rparr> else x)"

text \<open>The counts of \<open>users\<close> seen so far and of those to come.\<close>

lemma dup_entries_ok:
  assumes "distinct is" "\<forall>i \<in> set is. i < length (fd_array (kf s)) \<and> entry_ok i (from ! i) \<and> free_fd s i \<and> entry_ok i (file_at s i)" "kv s = held v c"
  shows "\<exists>s'. dup_entries s from is = Some s' \<and> kv s' = held v (\<lambda>n. c n + users from is n)
    \<and> length (fd_array (kf s')) = length (fd_array (kf s)) \<and> fs_pwd (kf s') = fs_pwd (kf s) \<and> files_count (kf s') = files_count (kf s)
    \<and> (\<forall>i. file_at s' i = (if i \<in> set is then dup_entry (from ! i) i (file_at s i) else file_at s i))"
  using assms
proof (induction "is" arbitrary: s c)
  case Nil
  then show ?case by (simp add: users_def)
next
  case (Cons i js)
  let ?f = "from ! i" and ?s0 = "upd_file i (\<lambda>f. f\<lparr>f_status := FD_INIT\<rparr>) s"
  have l: "i < length (fd_array (kf s))" and e: "entry_ok i ?f" "f_open_count (file_at s i) = 0" "f_fd (file_at s i) = int i"
    using Cons.prems(2) by (auto simp: entry_ok_def free_fd_def)
  show ?case
  proof (cases "f_status ?f = FD_OPENED")
    case False
    have "\<exists>s'. dup_entries s from js = Some s' \<and> kv s' = held v (\<lambda>n. c n + users from js n)
      \<and> length (fd_array (kf s')) = length (fd_array (kf s)) \<and> fs_pwd (kf s') = fs_pwd (kf s) \<and> files_count (kf s') = files_count (kf s)
      \<and> (\<forall>k. file_at s' k = (if k \<in> set js then dup_entry (from ! k) k (file_at s k) else file_at s k))"
      using Cons.prems by (intro Cons.IH) auto
    then show ?thesis by (elim ex_forward) (use False in \<open>auto simp: users_Cons dup_entry_def\<close>)
  next
    case True
    then obtain n where n: "f_node ?f = Some n" "f_open_count ?f = 1" using e(1) by (auto simp: entry_ok_def)
    define s1 where "s1 = copied_to i ?f (?s0\<lparr>kv := shared (kv ?s0) n\<rparr>)"
    have dp: "fd_array_dup ?s0 i ?f = Some s1"
      unfolding s1_def using l True n by (intro array_dup) (simp_all add: file_at_upd)
    have "?f\<lparr>f_fd := int i, f_status := FD_OPENED, f_open_count := 1\<rparr> = ?f\<lparr>f_fd := int i\<rparr>" using True n by (intro ofile.equality) simp_all
    then have f1: "file_at s1 k = (if k = i then ?f\<lparr>f_fd := int i\<rparr> else file_at s k)" for k
      using l e by (simp add: s1_def copied_to_def file_at_upd)
    have k1: "kv s1 = held v (c(n := c n + 1))" "length (fd_array (kf s1)) = length (fd_array (kf s))"
      "fs_pwd (kf s1) = fs_pwd (kf s)" "files_count (kf s1) = files_count (kf s)"
      using Cons.prems(3) by (simp_all add: s1_def copied_to_def shared_held)
    have nn: "i \<notin> set js" using Cons.prems(1) by simp
    define d where "d = c(n := c n + 1)"
    have kd: "kv s1 = held v d" using k1(1) by (simp add: d_def)
    have "\<exists>s'. dup_entries s1 from js = Some s' \<and> kv s' = held v (\<lambda>m. d m + users from js m)
      \<and> length (fd_array (kf s')) = length (fd_array (kf s1)) \<and> fs_pwd (kf s') = fs_pwd (kf s1) \<and> files_count (kf s') = files_count (kf s1)
      \<and> (\<forall>k. file_at s' k = (if k \<in> set js then dup_entry (from ! k) k (file_at s1 k) else file_at s1 k))"
      using Cons.prems nn k1(2-4) kd by (intro Cons.IH) (auto simp: f1 free_fd_def)
    then obtain s' where s': "dup_entries s1 from js = Some s'" "kv s' = held v (\<lambda>m. d m + users from js m)"
      "length (fd_array (kf s')) = length (fd_array (kf s1))" "fs_pwd (kf s') = fs_pwd (kf s1)" "files_count (kf s') = files_count (kf s1)"
      "\<forall>k. file_at s' k = (if k \<in> set js then dup_entry (from ! k) k (file_at s1 k) else file_at s1 k)" by blast
    have "(\<lambda>m. d m + users from js m) = (\<lambda>m. c m + users from (i # js) m)"
      using True n by (auto simp: users_Cons d_def)
    then show ?thesis using s' dp True k1 nn by (intro exI [of _ s']) (auto simp: f1 dup_entry_def)
  qed
qed

lemma close_entries_ok:
  assumes "distinct is" "\<forall>i \<in> set is. i < FILES_STRUCT_NENTRY" "fds_ok s" "kv s = held v (\<lambda>n. c n + users fa is n)"
    and "\<forall>i \<in> set is. f_status (file_at s i) = f_status (fa ! i) \<and> f_node (file_at s i) = f_node (fa ! i)"
    and "\<forall>n. users fa is n > 0 \<longrightarrow> 0 < open_count (inodes v n) \<and> 0 < ref_count (inodes v n)"
  shows "\<exists>s'. close_entries s True is = Some s' \<and> kv s' = held v c"
  using assms
proof (induction "is" arbitrary: s)
  case Nil
  then show ?case by (simp add: users_def)
next
  case (Cons i js)
  have i: "i < FILES_STRUCT_NENTRY" "entry_ok i (file_at s i)" using Cons.prems(2,3) by (simp_all add: fds_ok_def)
  have l: "i < length (fd_array (kf s))" using Cons.prems(3) i by (simp add: fds_ok_def)
  show ?case
  proof (cases "f_status (file_at s i) = FD_OPENED")
    case False
    then have "f_status (file_at s i) = FD_NONE" "users fa (i # js) = users fa js"
      using i(2) Cons.prems(5) by (auto simp: entry_ok_def users_Cons)
    moreover have "\<exists>s'. close_entries s True js = Some s' \<and> kv s' = held v c"
      using Cons.prems calculation(2) by (intro Cons.IH) auto
    ultimately show ?thesis using False by simp
  next
    case True
    then obtain n where n: "f_node (file_at s i) = Some n" using i(2) by (auto simp: entry_ok_def)
    have u: "users fa (i # js) = (users fa js)(n := users fa js n + 1)" using True n Cons.prems(5) by (simp add: users_Cons)
    let ?c = "\<lambda>m. c m + users fa (i # js) m"
    have "?c(n := ?c n - 1) = (\<lambda>m. c m + users fa js m)" by (auto simp: u)
    then have v: "vfs_close (kv s) n = Some (0, held v (\<lambda>m. c m + users fa js m))"
      using close_held [of ?c n v] Cons.prems(4,6) u by simp
    define s1 where "s1 = freed i (s\<lparr>kv := held v (\<lambda>m. c m + users fa js m)\<rparr>)"
    have cl: "fd_array_close s i = Some s1" using close_entry [OF Cons.prems(3) i(1) True] n v by (simp add: s1_def)
    have f1: "file_at s1 k = (if k = i then (file_at s i)\<lparr>f_open_count := 0, f_status := FD_NONE\<rparr> else file_at s k)" for k
      using l by (simp add: s1_def freed_def file_at_upd)
    have "fds_ok s1" unfolding s1_def using Cons.prems(3) i by (intro fds_ok_results) simp_all
    moreover have "\<forall>m. users fa js m > 0 \<longrightarrow> 0 < open_count (inodes v m) \<and> 0 < ref_count (inodes v m)"
      using Cons.prems(6) u by simp
    ultimately have "\<exists>s'. close_entries s1 True js = Some s' \<and> kv s' = held v c"
      using Cons.prems by (intro Cons.IH) (auto simp: f1, auto simp: s1_def freed_def)
    then show ?thesis using cl True by (simp add: f1)
  qed
qed

definition with_pwd :: "vfs \<Rightarrow> nat option \<Rightarrow> vfs" where
  "with_pwd v pwd = (case pwd of None \<Rightarrow> v | Some n \<Rightarrow> snd (inode_ref_inc v n))"

lemma drop_pwd:
  assumes "0 < ref_count (inodes v n)"
  shows "inode_ref_dec (held (with_pwd v (Some n)) c) n = Some (ref_count (inodes v n) + int (c n), held v c)"
proof -
  have "upd_inode n (\<lambda>x. x\<lparr>ref_count := ref_count x - 1\<rparr>) (held (with_pwd v (Some n)) c) = held v c"
    by (auto simp: held_def with_pwd_def inode_ref_inc_def upd_inode_def intro!: vfs.equality)
  then show ?thesis using assms
    by (simp add: inode_ref_dec_def Let_def) (simp add: held_def with_pwd_def inode_ref_inc_def upd_inode_def)
qed

text \<open>C26: The files of a process survive the exit of its child. \<open>dup_files\<close> gives a new process, whose table was just
  created, the current directory and every open descriptor of its parent, at the same number, position
  and modes, and counts one more user of the inodes they name; \<open>files_destroy\<close> of that table then returns the
  whole file system to exactly what it was, whatever each file is shared with.\<close>

theorem dup_files_destroy:
  assumes p: "fds_ok \<lparr>kv = v, kf = old\<rparr>" "files_count old > 0" and new: "files_create (Some fa) = Some fs"
    and c: "\<And>n. users (fd_array old) [0 ..< FILES_STRUCT_NENTRY] n > 0 \<Longrightarrow> 0 < open_count (inodes v n) \<and> 0 < ref_count (inodes v n)"
    and pwd: "\<And>n. fs_pwd old = Some n \<Longrightarrow> 0 < ref_count (inodes v n)"
  shows "\<exists>s'. dup_files \<lparr>kv = v, kf = fs\<rparr> old = Some (0, s') \<and> fds_ok s' \<and> fs_pwd (kf s') = fs_pwd old
    \<and> (\<forall>i < FILES_STRUCT_NENTRY. f_status (fd_array old ! i) = FD_OPENED \<longrightarrow> file_at s' i = fd_array old ! i)
    \<and> (\<forall>i < FILES_STRUCT_NENTRY. f_status (fd_array old ! i) \<noteq> FD_OPENED \<longrightarrow> free_fd s' i)
    \<and> kv s' = held (with_pwd v (fs_pwd old)) (users (fd_array old) [0 ..< FILES_STRUCT_NENTRY])
    \<and> files_destroy s' = Some v"
proof -
  let ?fa = "fd_array old" and ?v = "with_pwd v (fs_pwd old)" and ?all = "[0 ..< FILES_STRUCT_NENTRY]"
  define s0 where "s0 = \<lparr>kv = ?v, kf = fs\<lparr>fs_pwd := fs_pwd old\<rparr>\<rparr>"
  have ch: "fd_array fs = fd_array_init fa" "files_count fs = 0" using new by (auto simp: files_create_def)
  have pe: "entry_ok i (?fa ! i)" if "i < FILES_STRUCT_NENTRY" for i
    using p(1) that by (simp add: fds_ok_def file_at_def)
  have f0: "length (fd_array (kf s0)) = FILES_STRUCT_NENTRY" "\<And>i. i < FILES_STRUCT_NENTRY \<Longrightarrow> free_fd s0 i \<and> entry_ok i (file_at s0 i)"
    by (simp_all add: s0_def ch fd_array_init_def free_fd_def file_at_def entry_ok_def)
  have "\<exists>s'. dup_entries s0 ?fa ?all = Some s' \<and> kv s' = held ?v (\<lambda>n. 0 + users ?fa ?all n)
    \<and> length (fd_array (kf s')) = length (fd_array (kf s0)) \<and> fs_pwd (kf s') = fs_pwd (kf s0) \<and> files_count (kf s') = files_count (kf s0)
    \<and> (\<forall>i. file_at s' i = (if i \<in> set ?all then dup_entry (?fa ! i) i (file_at s0 i) else file_at s0 i))"
    using pe f0 by (intro dup_entries_ok) (simp_all add: s0_def)
  then obtain s' where s': "dup_entries s0 ?fa ?all = Some s'" "kv s' = held ?v (users ?fa ?all)"
    "length (fd_array (kf s')) = FILES_STRUCT_NENTRY" "fs_pwd (kf s') = fs_pwd old" "files_count (kf s') = 0"
    "\<And>i. i < FILES_STRUCT_NENTRY \<Longrightarrow> file_at s' i = dup_entry (?fa ! i) i (file_at s0 i)"
    using f0(1) by (auto simp: s0_def ch(2))
  have e': "entry_ok i (file_at s' i)" if "i < FILES_STRUCT_NENTRY" for i
    using pe [OF that] f0(2) [OF that] s'(6) [OF that] by (auto simp: dup_entry_def entry_ok_def)
  have ok: "fds_ok s'" using s'(3) e' by (simp add: fds_ok_def)
  have dup: "dup_files \<lparr>kv = v, kf = fs\<rparr> old = Some (0, s')"
    using p(2) ch(2) s'(1) by (cases "fs_pwd old") (simp_all add: dup_files_def Let_def s0_def with_pwd_def)
  have same: "file_at s' i = ?fa ! i" if "i < FILES_STRUCT_NENTRY" "f_status (?fa ! i) = FD_OPENED" for i
    using s'(6) [OF that(1)] pe [OF that(1)] that(2) by (simp add: dup_entry_def entry_ok_def)
  have free: "free_fd s' i" if "i < FILES_STRUCT_NENTRY" "f_status (?fa ! i) \<noteq> FD_OPENED" for i
    using s'(6) [OF that(1)] f0(2) [OF that(1)] that(2) by (simp add: dup_entry_def free_fd_def)
  have u: "users (fd_array (kf s')) ?all = users ?fa ?all"
  proof
    fix n
    have q: "(f_status (fd_array (kf s') ! i) = FD_OPENED \<and> f_node (fd_array (kf s') ! i) = Some n)
      = (f_status (?fa ! i) = FD_OPENED \<and> f_node (?fa ! i) = Some n)" if "i \<in> set ?all" for i
    proof (cases "f_status (?fa ! i) = FD_OPENED")
      case True
      then have "fd_array (kf s') ! i = ?fa ! i" using same [of i] that by (simp add: file_at_def)
      then show ?thesis by (simp only:)
    next
      case False
      then have "f_status (fd_array (kf s') ! i) = FD_NONE" using free [of i] that by (simp add: file_at_def free_fd_def)
      then show ?thesis using False by (simp only: fd_status.distinct simp_thms)
    qed
    show "users (fd_array (kf s')) ?all n = users ?fa ?all n" unfolding users_def
      by (intro arg_cong [where f = length] filter_cong refl q)
  qed
  define s2 where "s2 = s'\<lparr>kv := held v (users ?fa ?all)\<rparr>"
  have "\<exists>t. close_entries s2 True ?all = Some t \<and> kv t = held v (\<lambda>_. 0)"
  proof (rule close_entries_ok [where fa = "fd_array (kf s')"])
    show "fds_ok s2" using ok by (simp add: s2_def)
    show "kv s2 = held v (\<lambda>n. 0 + users (fd_array (kf s')) ?all n)" by (simp add: s2_def u)
    show "\<forall>i \<in> set ?all. f_status (file_at s2 i) = f_status (fd_array (kf s') ! i) \<and> f_node (file_at s2 i) = f_node (fd_array (kf s') ! i)"
      by (simp add: s2_def) (simp add: file_at_def)
    show "\<forall>n. users (fd_array (kf s')) ?all n > 0 \<longrightarrow> 0 < open_count (inodes v n) \<and> 0 < ref_count (inodes v n)"
      using c by (simp add: u)
  qed simp_all
  then obtain t where t: "close_entries s2 True ?all = Some t" "kv t = v" by auto
  have "files_destroy s' = Some v"
  proof (cases "fs_pwd old")
    case None
    then have "s2 = s'" using s'(2) by (simp add: s2_def with_pwd_def)
    then show ?thesis using t s'(4,5) None by (simp add: files_destroy_def)
  next
    case (Some n)
    then show ?thesis using t s'(2,4,5) drop_pwd [OF pwd [OF Some], of "users ?fa ?all"]
      by (simp add: files_destroy_def s2_def)
  qed
  then show ?thesis using dup ok s'(2,4) same free by blast
qed

section \<open>A process with one open file\<close>

definition demo_entry :: "nat \<Rightarrow> nat \<Rightarrow> ofile" where
  "demo_entry n i = \<lparr>f_status = (if i = 0 then FD_OPENED else FD_NONE), f_readable = True, f_writable = True, f_fd = int i,
     f_pos = (if i = 0 then 30 else 0), f_node = (if i = 0 then Some n else None), f_open_count = (if i = 0 then 1 else 0)\<rparr>"

definition demo_files :: "nat \<Rightarrow> files_struct" where
  "demo_files n = \<lparr>fs_pwd = None, fd_array = map (demo_entry n) [0 ..< FILES_STRUCT_NENTRY], files_count = 1\<rparr>"

definition demo_kfs :: kfs where
  "demo_kfs = \<lparr>kv = held demo_vfs ((\<lambda>_. 0)(7 := 1)), kf = demo_files 7\<rparr>"

lemma demo_at: "kf s = demo_files n \<Longrightarrow> i < FILES_STRUCT_NENTRY \<Longrightarrow> file_at s i = demo_entry n i"
  by (simp add: file_at_def demo_files_def)

lemma demo_fds: "kf s = demo_files n \<Longrightarrow> fds_ok s" "kf s = demo_files n \<Longrightarrow> files_count (kf s) > 0" "kf s = demo_files n \<Longrightarrow> open_fd s 0"
  by (auto simp: fds_ok_def demo_at) (auto simp: demo_files_def entry_ok_def demo_entry_def open_fd_def testfd_def nentry file_at_def)

lemma demo_lowest: "kf s = demo_files n \<Longrightarrow> lowest_free s = Some 1"
  using demo_at [of s n 0] demo_at [of s n 1] by (simp add: lowest_free_Some free_fd_def nentry demo_entry_def)

lemma demo_live: "live_file (kv demo_kfs) 7" "file_size (kv demo_kfs) 7 = 0" "sin_of (kv demo_kfs) 7 = demo_file\<lparr>sin_dirty := True\<rparr>" "sfs (kv demo_kfs) = demo_sfs"
  "open_count (inodes (kv demo_kfs) 7) = 1" "ref_count (inodes (kv demo_kfs) 7) = 2" "inodes (kv demo_kfs) 7 = demo_inode\<lparr>ref_count := 2, open_count := 1\<rparr>"
proof -
  show s: "sin_of (kv demo_kfs) 7 = demo_file\<lparr>sin_dirty := True\<rparr>" "sfs (kv demo_kfs) = demo_sfs"
    "open_count (inodes (kv demo_kfs) 7) = 1" "ref_count (inodes (kv demo_kfs) 7) = 2" "inodes (kv demo_kfs) 7 = demo_inode\<lparr>ref_count := 2, open_count := 1\<rparr>"
    by (simp_all add: demo_kfs_def held_def sin_of_def demo_vfs_simps) (simp_all add: demo_inode_def)
  show "file_size (kv demo_kfs) 7 = 0" by (simp add: file_size_def s demo_file_def)
  show "live_file (kv demo_kfs) 7" using demo_sfs_ok
    by (simp add: live_file_def s demo_inode_def inode_check_def MAX_INODE_COUNT_def) (simp add: demo_file_def SFS_TYPE_DIR_def ends_def)
qed

theorem file_table_ok_witness:
  "all_results (\<lambda>(_, s'). fds_ok s') (file_dup demo_kfs 0 NO_FD) \<and> file_dup demo_kfs 0 NO_FD \<noteq> None"
proof -
  have k: "kf demo_kfs = demo_files 7" by (simp add: demo_kfs_def)
  have "f_node (file_at demo_kfs (nat 0)) = Some 7" using demo_at [OF k, of 0] by (simp add: nentry demo_entry_def)
  then have "file_dup demo_kfs 0 NO_FD \<noteq> None"
    using demo_fds [OF k] demo_lowest [OF k] by (simp add: file_dup_eq Let_def)
  then show ?thesis using file_table_ok [OF demo_fds(1,2) [OF k], where fd = 0 and ?fd2.0 = NO_FD] by blast
qed

theorem file_write_seek_read_witness:
  "\<exists>s1 s2 s3. file_write demo_kfs 0 (replicate 100 9) 0 100 = Some (0, 100, replicate 100 9, s1)
    \<and> file_seek s1 0 (-100) LSEEK_CUR = Some (0, s2)
    \<and> file_read s2 0 (replicate 100 0) 0 100 = Some (0, 100, replicate 100 9, s3) \<and> file_size (kv s3) 7 = 130"
proof -
  have k: "kf demo_kfs = demo_files 7" by (simp add: demo_kfs_def)
  have "file_at demo_kfs (nat 0) = demo_entry 7 0" using demo_at [OF k, of 0] by (simp add: nentry)
  moreover have "fits (sfs (kv demo_kfs)) (din (sin_of (kv demo_kfs) 7)) 30 100" using demo_request(2) by (simp add: demo_live)
  ultimately show ?thesis
    using file_write_seek_read [OF demo_fds [OF k] _ _ _ _ _ demo_live(1), where off = 30 and len = 100 and buf = "replicate 100 9" and base = 0
        and ?buf2.0 = "replicate 100 0" and ?base2.0 = 0 and f = "demo_entry 7 0"]
    by (simp add: demo_entry_def demo_live(2) splice_def) blast
qed

theorem file_ops_wrong_kind_panic_witness:
  "file_read \<lparr>kv = demo_root, kf = demo_files 5\<rparr> 0 [0, 0] 0 2 = None"
proof -
  let ?s = "\<lparr>kv = demo_root, kf = demo_files 5\<rparr>"
  have k: "kf ?s = demo_files 5" by simp
  have f: "file_at ?s (nat 0) = demo_entry 5 0" using demo_at [OF k, of 0] by (simp add: nentry)
  have "in_ops (inodes (kv ?s) 5) = DirOps" by (simp add: demo_root_def)
  then show ?thesis using file_ops_wrong_kind_panic [OF demo_fds [OF k], where n = 5 and buf = "[0, 0]" and base = 0 and len = 2] f
    by (simp add: demo_entry_def)
qed

theorem file_dup_close_witness:
  "\<exists>s1 s2. file_dup demo_kfs 0 NO_FD = Some (1, s1) \<and> f_pos (file_at s1 1) = 30 \<and> file_close s1 1 = Some (0, s2)
    \<and> kv s2 = kv demo_kfs \<and> file_dup demo_kfs 0 0 = Some (- E_BUSY, demo_kfs)"
proof -
  have k: "kf demo_kfs = demo_files 7" by (simp add: demo_kfs_def)
  have f: "file_at demo_kfs (nat 0) = demo_entry 7 0" using demo_at [OF k, of 0] by (simp add: nentry)
  have "f_node (file_at demo_kfs (nat 0)) = Some 7" unfolding f by (simp add: demo_entry_def)
  from file_dup_close [OF demo_fds [OF k] this] obtain s1 s2 where
    "file_dup demo_kfs 0 NO_FD = Some (1, s1)" "file_at s1 1 = (demo_entry 7 0)\<lparr>f_fd := 1\<rparr>" "file_close s1 1 = Some (0, s2)" "kv s2 = kv demo_kfs"
    "file_dup demo_kfs 0 0 = Some (- E_BUSY, demo_kfs)"
    unfolding demo_lowest [OF k] by (auto simp: f [simplified] demo_live(5,6))
  then show ?thesis by (intro exI [of _ s1] exI [of _ s2]) (simp add: demo_entry_def)
qed

theorem dup_files_destroy_witness:
  "\<exists>fs s'. files_create (Some []) = Some fs \<and> dup_files \<lparr>kv = kv demo_kfs, kf = fs\<rparr> (demo_files 7) = Some (0, s')
    \<and> f_pos (file_at s' 0) = 30 \<and> open_count (inodes (kv s') 7) = 2 \<and> files_destroy s' = Some (kv demo_kfs)"
proof -
  let ?u = "users (fd_array (demo_files 7)) [0 ..< FILES_STRUCT_NENTRY]"
  have k: "kf \<lparr>kv = kv demo_kfs, kf = demo_files 7\<rparr> = demo_files 7" by simp
  have u: "?u n = (if n = 7 then 1 else 0)" for n
  proof -
    have "?u n = length (filter (\<lambda>i. i = 0 \<and> n = 7) [0 ..< FILES_STRUCT_NENTRY])"
      unfolding users_def by (intro arg_cong [where f = length] filter_cong refl) (auto simp: demo_files_def demo_entry_def)
    also have "\<dots> = (if n = 7 then 1 else 0)" by (simp add: nentry upt_conv_Cons)
    finally show ?thesis .
  qed
  obtain fs where fs: "files_create (Some []) = Some fs" by (simp add: files_create_def)
  have z: "fd_array (demo_files 7) ! 0 = demo_entry 7 0" by (simp add: demo_files_def nentry)
  have p: "fds_ok \<lparr>kv = kv demo_kfs, kf = demo_files 7\<rparr>" "files_count (demo_files 7) > 0" "fs_pwd (demo_files 7) = None"
    using demo_fds(1,2) [OF k] by simp_all (simp add: demo_files_def)
  have c: "?u n > 0 \<Longrightarrow> 0 < open_count (inodes (kv demo_kfs) n) \<and> 0 < ref_count (inodes (kv demo_kfs) n)" for n
    using demo_live(5,6) by (cases "n = 7") (simp_all add: u)
  have pw: "fs_pwd (demo_files 7) = Some n \<Longrightarrow> 0 < ref_count (inodes (kv demo_kfs) n)" for n using p(3) by simp
  have st: "f_status (demo_entry 7 0) = FD_OPENED" "f_pos (demo_entry 7 0) = 30" "(0 :: nat) < FILES_STRUCT_NENTRY" by (simp_all add: demo_entry_def nentry)
  from dup_files_destroy [OF p(1,2) fs c pw] obtain s' where
    "dup_files \<lparr>kv = kv demo_kfs, kf = fs\<rparr> (demo_files 7) = Some (0, s')" "file_at s' 0 = demo_entry 7 0"
    "kv s' = held (with_pwd (kv demo_kfs) (fs_pwd (demo_files 7))) ?u" "files_destroy s' = Some (kv demo_kfs)"
    using z st by auto
  then show ?thesis using fs st(2) demo_live(5)
    by (intro exI [of _ fs] exI [of _ s']) (simp add: p(3) with_pwd_def, simp add: held_def u)
qed

end
