(* ===== verification/Vmm.thy ===== *)
theory Vmm
  imports ListH Bytes
begin

text \<open>
  The memory map of a process, \<open>kern/mm/vmm.c\<close>: the sorted list of virtual memory areas with its
  one-entry cache, and the checks of user addresses. Addresses are 64 bit words. One \<open>mm\<close> owns its
  areas, so their records are part of its state; pointers to them are numbers, zero is the null
  pointer. The page table, the swap manager's private data and the semaphore are not part of \<open>mm\<close>.
\<close>

type_synonym addr = "64 word"

definition PGSIZE :: addr where "PGSIZE = 4096"
definition USERBASE :: addr where "USERBASE = 0x00200000"
definition USERTOP :: addr where "USERTOP = 0x80000000"
definition KERNBASE :: addr where "KERNBASE = 0xFFFFFFFFC0200000"
definition KMEMSIZE :: addr where "KMEMSIZE = 0x7E00000"
definition KERNTOP :: addr where "KERNTOP = KERNBASE + KMEMSIZE"

definition USER_ACCESS :: "addr \<Rightarrow> addr \<Rightarrow> bool" where
  "USER_ACCESS start end_a \<longleftrightarrow> USERBASE \<le> start \<and> start < end_a \<and> end_a \<le> USERTOP"

definition KERN_ACCESS :: "addr \<Rightarrow> addr \<Rightarrow> bool" where
  "KERN_ACCESS start end_a \<longleftrightarrow> KERNBASE \<le> start \<and> start < end_a \<and> end_a \<le> KERNTOP"

definition ROUNDDOWN :: "addr \<Rightarrow> addr \<Rightarrow> addr" where "ROUNDDOWN a n = a - a mod n"
definition ROUNDUP :: "addr \<Rightarrow> addr \<Rightarrow> addr" where "ROUNDUP a n = ROUNDDOWN (a + n - 1) n"

definition VM_READ :: "32 word" where "VM_READ = 1"
definition VM_WRITE :: "32 word" where "VM_WRITE = 2"
definition VM_EXEC :: "32 word" where "VM_EXEC = 4"
definition VM_STACK :: "32 word" where "VM_STACK = 8"

unbundle bit_operations_syntax

section \<open>Areas\<close>

record vma =
  vm_start :: addr
  vm_end :: addr
  vm_flags :: "32 word"

datatype vle = Mmap | Vma nat

primrec le2vma :: "vle \<Rightarrow> nat" where
  "le2vma Mmap = 0"
| "le2vma (Vma v) = v"

record mm =
  mmap_list :: "vle dll"
  mmap_cache :: nat
  map_count :: int
  mm_count :: int
  vmas :: "nat \<Rightarrow> vma"

text \<open>\<open>mm_create\<close>; the argument says whether \<open>kmalloc\<close> succeeds.\<close>

definition mm_create :: "bool \<Rightarrow> mm option" where
  "mm_create avail = (if avail then Some
     \<lparr>mmap_list = list_init \<lparr>nxt = \<lambda>_. Mmap, prv = \<lambda>_. Mmap\<rparr> Mmap, mmap_cache = 0, map_count = 0, mm_count = 0,
      vmas = \<lambda>_. \<lparr>vm_start = 0, vm_end = 0, vm_flags = 0\<rparr>\<rparr> else None)"

text \<open>\<open>vma_create\<close>, with the pointer \<open>kmalloc\<close> returns.\<close>

definition vma_create :: "mm \<Rightarrow> nat \<Rightarrow> addr \<Rightarrow> addr \<Rightarrow> 32 word \<Rightarrow> nat \<times> mm" where
  "vma_create mm p start end_a flags =
     (p, if p \<noteq> 0 then mm\<lparr>vmas := (vmas mm)(p := \<lparr>vm_start = start, vm_end = end_a, vm_flags = flags\<rparr>)\<rparr> else mm)"

partial_function (option) find_vma_loop :: "mm \<Rightarrow> addr \<Rightarrow> vle \<Rightarrow> nat option" where
  "find_vma_loop mm addr le =
     (let le = list_next (mmap_list mm) le; v = vmas mm (le2vma le) in
      if le = Mmap then Some 0
      else if vm_start v \<le> addr \<and> addr < vm_end v then Some (le2vma le)
      else find_vma_loop mm addr le)"

definition find_vma :: "mm \<Rightarrow> addr \<Rightarrow> (nat \<times> mm) option" where
  "find_vma mm addr = do {
     let c = mmap_cache mm;
     found \<leftarrow> (if c \<noteq> 0 \<and> vm_start (vmas mm c) \<le> addr \<and> vm_end (vmas mm c) > addr then Some c
              else find_vma_loop mm addr Mmap);
     Some (found, if found \<noteq> 0 then mm\<lparr>mmap_cache := found\<rparr> else mm)
   }"

definition check_vma_overlap :: "mm \<Rightarrow> nat \<Rightarrow> nat \<Rightarrow> unit option" where
  "check_vma_overlap mm prev next = do {
     kassert (vm_start (vmas mm prev) < vm_end (vmas mm prev));
     kassert (vm_end (vmas mm prev) \<le> vm_start (vmas mm next));
     kassert (vm_start (vmas mm next) < vm_end (vmas mm next))
   }"

partial_function (option) find_place :: "mm \<Rightarrow> nat \<Rightarrow> vle \<Rightarrow> vle \<Rightarrow> vle option" where
  "find_place mm v le le_prev =
     (let le = list_next (mmap_list mm) le in
      if le = Mmap then Some le_prev
      else if vm_start (vmas mm (le2vma le)) > vm_start (vmas mm v) then Some le_prev
      else find_place mm v le le)"

definition insert_vma_struct :: "mm \<Rightarrow> nat \<Rightarrow> mm option" where
  "insert_vma_struct mm v = do {
     kassert (vm_start (vmas mm v) < vm_end (vmas mm v));
     le_prev \<leftarrow> find_place mm v Mmap Mmap;
     let le_next = list_next (mmap_list mm) le_prev;
     _ \<leftarrow> (if le_prev \<noteq> Mmap then check_vma_overlap mm (le2vma le_prev) v else Some ());
     _ \<leftarrow> (if le_next \<noteq> Mmap then check_vma_overlap mm v (le2vma le_next) else Some ());
     Some (mm\<lparr>mmap_list := list_add_after (mmap_list mm) le_prev (Vma v), map_count := map_count mm + 1\<rparr>)
   }"

text \<open>\<open>mm_destroy\<close>: the areas it releases, in order.\<close>

partial_function (option) destroy_loop :: "vle dll \<Rightarrow> nat list option" where
  "destroy_loop d =
     (let le = list_next d Mmap in
      if le = Mmap then Some []
      else do { rest \<leftarrow> destroy_loop (list_del d le); Some (le2vma le # rest) })"

definition mm_destroy :: "mm \<Rightarrow> nat list option" where
  "mm_destroy mm = do { kassert (mm_count mm = 0); destroy_loop (mmap_list mm) }"

text \<open>\<open>mm_map\<close>: the result, and the pointer stored in \<open>vma_store\<close>. \<open>p\<close> is what \<open>kmalloc\<close> would return.\<close>

definition mm_map :: "mm \<Rightarrow> addr \<Rightarrow> addr \<Rightarrow> 32 word \<Rightarrow> nat \<Rightarrow> (int \<times> nat option \<times> mm) option" where
  "mm_map mm addr len flags p = do {
     let start = ROUNDDOWN addr PGSIZE;
     let end_a = ROUNDUP (addr + len) PGSIZE;
     if \<not> USER_ACCESS start end_a then Some (- E_INVAL, None, mm)
     else do {
       (v, mm) \<leftarrow> find_vma mm start;
       if v \<noteq> 0 \<and> end_a > vm_start (vmas mm v) then Some (- E_INVAL, None, mm)
       else do {
         let (v, mm) = vma_create mm p start end_a flags;
         if v = 0 then Some (- E_NO_MEM, None, mm)
         else do { mm \<leftarrow> insert_vma_struct mm v; Some (0, Some v, mm) }
       }
     }
   }"

text \<open>\<open>dup_mmap\<close>: \<open>ps\<close> are the pointers \<open>kmalloc\<close> returns in turn, \<open>copied v\<close> is the result of \<open>copy_range\<close> for the area \<open>v\<close>.\<close>

partial_function (option) dup_loop :: "mm \<Rightarrow> mm \<Rightarrow> vle \<Rightarrow> (nat \<Rightarrow> nat) \<Rightarrow> nat \<Rightarrow> (nat \<Rightarrow> int) \<Rightarrow> (int \<times> mm) option" where
  "dup_loop to from le ps i copied =
     (let le = list_prev (mmap_list from) le; v = vmas from (le2vma le) in
      if le = Mmap then Some (0, to)
      else
        let (nv, to) = vma_create to (ps i) (vm_start v) (vm_end v) (vm_flags v) in
        if nv = 0 then Some (- E_NO_MEM, to)
        else do {
          to \<leftarrow> insert_vma_struct to nv;
          if copied (le2vma le) \<noteq> 0 then Some (- E_NO_MEM, to)
          else dup_loop to from le ps (i + 1) copied
        })"

definition dup_mmap :: "mm \<Rightarrow> mm \<Rightarrow> (nat \<Rightarrow> nat) \<Rightarrow> (nat \<Rightarrow> int) \<Rightarrow> (int \<times> mm) option" where
  "dup_mmap to from ps copied = dup_loop to from Mmap ps 0 copied"

section \<open>Checks of user memory\<close>

partial_function (option) check_loop :: "mm \<Rightarrow> addr \<Rightarrow> addr \<Rightarrow> bool \<Rightarrow> (bool \<times> mm) option" where
  "check_loop mm start end_a write =
     (if start < end_a then do {
        (p, mm) \<leftarrow> find_vma mm start;
        let v = vmas mm p;
        if p = 0 \<or> start < vm_start v then Some (False, mm)
        else if vm_flags v AND (if write then VM_WRITE else VM_READ) = 0 then Some (False, mm)
        else if write \<and> vm_flags v AND VM_STACK \<noteq> 0 \<and> start < vm_start v + PGSIZE then Some (False, mm)
        else check_loop mm (vm_end v) end_a write
      } else Some (True, mm))"

definition user_mem_check :: "mm \<Rightarrow> addr \<Rightarrow> addr \<Rightarrow> bool \<Rightarrow> (bool \<times> mm) option" where
  "user_mem_check mm addr len write =
     (if \<not> USER_ACCESS addr (addr + len) then Some (False, mm) else check_loop mm addr (addr + len) write)"

text \<open>The same without a memory map, as for kernel threads.\<close>

definition kern_mem_check :: "addr \<Rightarrow> addr \<Rightarrow> bool" where
  "kern_mem_check addr len = KERN_ACCESS addr (addr + len)"

section \<open>The invariant\<close>

definition covers :: "mm \<Rightarrow> addr \<Rightarrow> nat \<Rightarrow> bool" where
  "covers mm a v \<longleftrightarrow> vm_start (vmas mm v) \<le> a \<and> a < vm_end (vmas mm v)"

definition before :: "mm \<Rightarrow> nat \<Rightarrow> nat \<Rightarrow> bool" where
  "before mm v w \<longleftrightarrow> vm_end (vmas mm v) \<le> vm_start (vmas mm w)"

lemma areas_update [simp]:
  "covers (mm\<lparr>mmap_cache := c\<rparr>) = covers mm" "before (mm\<lparr>mmap_cache := c\<rparr>) = before mm"
  "covers (mm\<lparr>mmap_list := l, map_count := n\<rparr>) = covers mm" "before (mm\<lparr>mmap_list := l, map_count := n\<rparr>) = before mm"
  by (simp_all add: covers_def before_def fun_eq_iff)

definition mm_ok :: "mm \<Rightarrow> nat list \<Rightarrow> bool" where
  "mm_ok mm vs \<longleftrightarrow> dlist (mmap_list mm) Mmap (map Vma vs) \<and> 0 \<notin> set vs
     \<and> (\<forall>v \<in> set vs. vm_start (vmas mm v) < vm_end (vmas mm v)) \<and> sorted_wrt (before mm) vs
     \<and> (mmap_cache mm = 0 \<or> mmap_cache mm \<in> set vs) \<and> map_count mm = int (length vs)"

lemma mm_okD:
  assumes "mm_ok mm vs"
  shows "dlist (mmap_list mm) Mmap (map Vma vs)" "0 \<notin> set vs" "v \<in> set vs \<Longrightarrow> vm_start (vmas mm v) < vm_end (vmas mm v)"
    "sorted_wrt (before mm) vs" "mmap_cache mm = 0 \<or> mmap_cache mm \<in> set vs" "map_count mm = int (length vs)"
  using assms by (auto simp: mm_ok_def)

lemma covers_unique:
  assumes ok: "mm_ok mm vs" and v: "v \<in> set vs" "covers mm a v" and w: "w \<in> set vs" "covers mm a w"
  shows "v = w"
proof (rule ccontr)
  assume "v \<noteq> w"
  then have "before mm v w \<or> before mm w v"
    using mm_okD(4) [OF ok] v(1) w(1) by (metis in_set_conv_nth nat_neq_iff sorted_wrt_nth_less)
  then show False using v(2) w(2) by (auto simp: covers_def before_def)
qed

lemma find_vma_loop_ok:
  "linked (mmap_list mm) a (map Vma vs) Mmap \<Longrightarrow>
   find_vma_loop mm addr a = Some (case find (covers mm addr) vs of None \<Rightarrow> 0 | Some v \<Rightarrow> v)"
proof (induction vs arbitrary: a)
  case Nil
  then show ?case by (subst find_vma_loop.simps) (simp add: list_next_def Let_def)
next
  case (Cons v vs)
  then show ?case by (subst find_vma_loop.simps) (simp add: list_next_def Let_def flip: covers_def)
qed

lemma mm_ok_cache: "mm_ok mm vs \<Longrightarrow> v = 0 \<or> v \<in> set vs \<Longrightarrow> mm_ok (mm\<lparr>mmap_cache := v\<rparr>) vs"
  by (simp add: mm_ok_def)

lemma find_vma_ok:
  assumes ok: "mm_ok mm vs"
  obtains r c where "find_vma mm addr = Some (r, mm\<lparr>mmap_cache := c\<rparr>)" "mm_ok (mm\<lparr>mmap_cache := c\<rparr>) vs"
    "r = 0 \<and> (\<forall>v \<in> set vs. \<not> covers mm addr v) \<or> r \<in> set vs \<and> r \<noteq> 0 \<and> covers mm addr r"
proof (cases "mmap_cache mm \<noteq> 0 \<and> covers mm addr (mmap_cache mm)")
  case True
  then have "mmap_cache mm \<in> set vs" using mm_okD(5) [OF ok] by auto
  moreover from True have "find_vma mm addr = Some (mmap_cache mm, mm\<lparr>mmap_cache := mmap_cache mm\<rparr>)"
    by (simp add: find_vma_def covers_def)
  ultimately show thesis using that True mm_ok_cache [OF ok] by blast
next
  case False
  let ?f = "find (covers mm addr) vs"
  have l: "find_vma_loop mm addr Mmap = Some (case ?f of None \<Rightarrow> 0 | Some v \<Rightarrow> v)"
    by (rule find_vma_loop_ok) (use mm_okD(1) [OF ok] in \<open>simp add: dlist_def\<close>)
  show thesis
  proof (cases ?f)
    case None
    then have "find_vma mm addr = Some (0, mm\<lparr>mmap_cache := mmap_cache mm\<rparr>)"
      using False l by (auto simp: find_vma_def covers_def)
    then show thesis using that [of 0 "mmap_cache mm"] None ok by (simp add: find_None_iff)
  next
    case (Some v)
    then have v: "v \<in> set vs" "covers mm addr v" by (auto simp: find_Some_iff)
    then have "v \<noteq> 0" using mm_okD(2) [OF ok] by metis
    moreover have "find_vma mm addr = Some (v, mm\<lparr>mmap_cache := v\<rparr>)"
      using False l Some \<open>v \<noteq> 0\<close> by (auto simp: find_vma_def covers_def)
    ultimately show thesis using that v mm_ok_cache [OF ok] by auto
  qed
qed

section \<open>Insertion\<close>

lemma find_place_ok:
  "linked (mmap_list mm) a (map Vma ys) Mmap \<Longrightarrow>
   find_place mm v a p = Some (last (p # map Vma (takeWhile (\<lambda>w. vm_start (vmas mm w) \<le> vm_start (vmas mm v)) ys)))"
proof (induction ys arbitrary: a p)
  case Nil
  then show ?case by (subst find_place.simps) (simp add: list_next_def Let_def)
next
  case (Cons y ys)
  then show ?case by (subst find_place.simps) (auto simp: list_next_def Let_def)
qed

definition disjoint_from :: "mm \<Rightarrow> nat \<Rightarrow> nat list \<Rightarrow> bool" where
  "disjoint_from mm v vs \<longleftrightarrow> (\<forall>w \<in> set vs. before mm w v \<or> before mm v w)"

lemma sorted_around:
  assumes "mm_ok mm (ls @ rs)" "\<forall>w \<in> set ls. vm_start (vmas mm w) \<le> vm_start (vmas mm v)"
    "rs \<noteq> [] \<Longrightarrow> vm_start (vmas mm v) < vm_start (vmas mm (hd rs))" "vm_start (vmas mm v) < vm_end (vmas mm v)"
  shows "disjoint_from mm v (ls @ rs) \<longleftrightarrow> ((ls \<noteq> [] \<longrightarrow> before mm (last ls) v) \<and> (rs \<noteq> [] \<longrightarrow> before mm v (hd rs)))"
    and "(ls \<noteq> [] \<longrightarrow> before mm (last ls) v) \<and> (rs \<noteq> [] \<longrightarrow> before mm v (hd rs)) \<Longrightarrow> sorted_wrt (before mm) (ls @ v # rs)"
proof -
  let ?R = "(ls \<noteq> [] \<longrightarrow> before mm (last ls) v) \<and> (rs \<noteq> [] \<longrightarrow> before mm v (hd rs))"
  have pos: "w \<in> set (ls @ rs) \<Longrightarrow> vm_start (vmas mm w) < vm_end (vmas mm w)" for w using mm_okD(3) [OF assms(1)] .
  have srt: "sorted_wrt (before mm) ls" "sorted_wrt (before mm) rs" "\<forall>a \<in> set ls. \<forall>b \<in> set rs. before mm a b"
    using mm_okD(4) [OF assms(1)] by (auto simp: sorted_wrt_append)
  have L: "before mm w v" if R: ?R and w: "w \<in> set ls" for w
  proof (cases "w = last ls")
    case True
    then show ?thesis using R w by auto
  next
    case False
    have ls: "ls = butlast ls @ [last ls]" using w by (intro append_butlast_last_id [symmetric]) auto
    have "w \<in> set (butlast ls)" using False w ls by (metis Un_iff empty_iff insert_iff list.set(1) list.simps(15) set_append)
    then have "before mm w (last ls)" using srt(1) ls by (metis sorted_wrt_append list.set_intros(1))
    moreover have "before mm (last ls) v" using R w by auto
    moreover have "vm_start (vmas mm (last ls)) < vm_end (vmas mm (last ls))" using pos [of "last ls"] last_in_set [of ls] w by (cases ls) auto
    ultimately show ?thesis by (auto simp: before_def)
  qed
  have Rr: "before mm v w" if R: ?R and w: "w \<in> set rs" for w
  proof (cases "w = hd rs")
    case True
    then show ?thesis using R w by auto
  next
    case False
    have "before mm (hd rs) w" using False srt(2) w by (cases rs) auto
    moreover have "before mm v (hd rs)" using R w by auto
    moreover have "vm_start (vmas mm (hd rs)) < vm_end (vmas mm (hd rs))" using pos [of "hd rs"] w by (cases rs) auto
    ultimately show ?thesis by (auto simp: before_def)
  qed
  show "sorted_wrt (before mm) (ls @ v # rs)" if ?R
    using srt L [OF that] Rr [OF that] by (auto simp: sorted_wrt_append)
  show "disjoint_from mm v (ls @ rs) \<longleftrightarrow> ?R"
  proof
    assume d: "disjoint_from mm v (ls @ rs)"
    have "before mm (last ls) v" if ne: "ls \<noteq> []"
    proof -
      have "last ls \<in> set ls" using ne by simp
      then have "before mm (last ls) v \<or> before mm v (last ls)" "vm_start (vmas mm (last ls)) \<le> vm_start (vmas mm v)"
        using d assms(2) by (auto simp: disjoint_from_def)
      then show ?thesis using assms(4) by (auto simp: before_def)
    qed
    moreover have "before mm v (hd rs)" if ne: "rs \<noteq> []"
    proof -
      have h: "hd rs \<in> set rs" using ne by simp
      then have "before mm (hd rs) v \<or> before mm v (hd rs)" using d by (auto simp: disjoint_from_def)
      moreover have "vm_start (vmas mm (hd rs)) < vm_end (vmas mm (hd rs))" using pos [of "hd rs"] h by simp
      ultimately show ?thesis using assms(3) [OF ne] by (auto simp: before_def)
    qed
    ultimately show ?R by blast
  next
    assume ?R
    then show "disjoint_from mm v (ls @ rs)" using L Rr unfolding disjoint_from_def set_append by blast
  qed
qed

lemma insert_ok:
  assumes ok: "mm_ok mm vs" and v: "v \<notin> set vs" "v \<noteq> 0" "vm_start (vmas mm v) < vm_end (vmas mm v)"
  shows "if disjoint_from mm v vs
    then \<exists>mm' ls rs. insert_vma_struct mm v = Some mm' \<and> vs = ls @ rs \<and> mm_ok mm' (ls @ v # rs) \<and> vmas mm' = vmas mm
    else insert_vma_struct mm v = None"
proof -
  let ?P = "\<lambda>w. vm_start (vmas mm w) \<le> vm_start (vmas mm v)"
  define ls where "ls = takeWhile ?P vs"
  define rs where "rs = dropWhile ?P vs"
  have vs: "vs = ls @ rs" by (simp add: ls_def rs_def)
  note dl = mm_okD(1) [OF ok, unfolded vs map_append]
  define q where "q = last (Mmap # map Vma ls)"
  have fp: "find_place mm v Mmap Mmap = Some q"
    unfolding ls_def q_def by (rule find_place_ok) (use mm_okD(1) [OF ok] in \<open>simp add: dlist_def\<close>)
  have nx: "list_next (mmap_list mm) q = (if rs = [] then Mmap else Vma (hd rs))"
    unfolding q_def dlist_next [OF dl] by (cases rs) auto
  have q: "q = Mmap \<longleftrightarrow> ls = []" "ls \<noteq> [] \<Longrightarrow> le2vma q = last ls" by (simp_all add: q_def last_map)
  have lsP: "\<forall>w \<in> set ls. ?P w" using set_takeWhileD unfolding ls_def by metis
  have rsP: "rs \<noteq> [] \<Longrightarrow> vm_start (vmas mm v) < vm_start (vmas mm (hd rs))"
    using hd_dropWhile [of ?P vs] by (auto simp: rs_def not_le)
  note sa = sorted_around [OF ok [unfolded vs] lsP rsP v(3)]
  have pos: "w \<in> set vs \<Longrightarrow> vm_start (vmas mm w) < vm_end (vmas mm w)" for w using mm_okD(3) [OF ok] .
  have c: "ls \<noteq> [] \<Longrightarrow> check_vma_overlap mm (last ls) v = (if before mm (last ls) v then Some () else None)"
    "rs \<noteq> [] \<Longrightarrow> check_vma_overlap mm v (hd rs) = (if before mm v (hd rs) then Some () else None)"
    using pos [of "last ls"] pos [of "hd rs"] v(3) by (simp_all add: vs check_vma_overlap_def before_def kassert_def)
  let ?mm = "mm\<lparr>mmap_list := list_add_after (mmap_list mm) q (Vma v), map_count := map_count mm + 1\<rparr>"
  have ins: "insert_vma_struct mm v = (if disjoint_from mm v vs then Some ?mm else None)"
    using v(3) c sa(1) by (auto simp: insert_vma_struct_def fp nx q vs Let_def)
  have "mm_ok ?mm (ls @ v # rs)" if "disjoint_from mm v vs"
  proof -
    have "dlist (mmap_list ?mm) Mmap (map Vma ls @ Vma v # map Vma rs)"
      using dlist_add_after [OF dl, of "Vma v"] v(1) by (auto simp: vs q_def simp del: last.simps)
    moreover have "sorted_wrt (before ?mm) (ls @ v # rs)"
      using sa(2) sa(1) that unfolding vs by (simp add: before_def)
    ultimately show ?thesis using ok v by (auto simp: mm_ok_def vs)
  qed
  then show ?thesis using ins vs by auto
qed

section \<open>Mapping a range\<close>

lemma overlap_covers:
  assumes "\<not> covers mm start w" "vm_start (vmas mm w) < end_a" "start < vm_end (vmas mm w)"
  shows "start < vm_start (vmas mm w)"
  using assms by (auto simp: covers_def)

definition meets :: "mm \<Rightarrow> addr \<Rightarrow> addr \<Rightarrow> nat \<Rightarrow> bool" where
  "meets mm start end_a w \<longleftrightarrow> vm_start (vmas mm w) < end_a \<and> start < vm_end (vmas mm w)"

lemma mm_ok_fresh: "mm_ok mm vs \<Longrightarrow> p \<notin> set vs \<Longrightarrow> mm_ok (mm\<lparr>vmas := (vmas mm)(p := v)\<rparr>) vs"
proof -
  assume a: "mm_ok mm vs" "p \<notin> set vs"
  have "sorted_wrt (before (mm\<lparr>vmas := (vmas mm)(p := v)\<rparr>)) vs"
    by (rule sorted_wrt_mono_rel [OF _ mm_okD(4) [OF a(1)]]) (use a(2) in \<open>auto simp: before_def\<close>)
  then show ?thesis using a by (auto simp: mm_ok_def)
qed

lemma mm_map_cases:
  assumes ok: "mm_ok mm vs" and p: "p \<notin> set vs"
    and se: "start = ROUNDDOWN addr PGSIZE" "end_a = ROUNDUP (addr + len) PGSIZE"
  shows "\<not> USER_ACCESS start end_a \<Longrightarrow> mm_map mm addr len flags p = Some (- E_INVAL, None, mm)"
    and "USER_ACCESS start end_a \<Longrightarrow> \<exists>v \<in> set vs. covers mm start v \<Longrightarrow>
      \<exists>c. mm_map mm addr len flags p = Some (- E_INVAL, None, mm\<lparr>mmap_cache := c\<rparr>) \<and> mm_ok (mm\<lparr>mmap_cache := c\<rparr>) vs"
    and "USER_ACCESS start end_a \<Longrightarrow> \<forall>v \<in> set vs. \<not> covers mm start v \<Longrightarrow> p = 0 \<Longrightarrow>
      \<exists>c. mm_map mm addr len flags p = Some (- E_NO_MEM, None, mm\<lparr>mmap_cache := c\<rparr>) \<and> mm_ok (mm\<lparr>mmap_cache := c\<rparr>) vs"
    and "USER_ACCESS start end_a \<Longrightarrow> \<forall>v \<in> set vs. \<not> covers mm start v \<Longrightarrow> p \<noteq> 0 \<Longrightarrow> \<exists>v \<in> set vs. meets mm start end_a v \<Longrightarrow>
      mm_map mm addr len flags p = None"
    and "USER_ACCESS start end_a \<Longrightarrow> \<forall>v \<in> set vs. \<not> meets mm start end_a v \<Longrightarrow> p \<noteq> 0 \<Longrightarrow>
      \<exists>mm' ls rs. mm_map mm addr len flags p = Some (0, Some p, mm') \<and> vs = ls @ rs \<and> mm_ok mm' (ls @ p # rs)
        \<and> vmas mm' = (vmas mm)(p := \<lparr>vm_start = start, vm_end = end_a, vm_flags = flags\<rparr>)"
proof -
  from find_vma_ok [OF ok, of start] obtain r c where
    f: "find_vma mm start = Some (r, mm\<lparr>mmap_cache := c\<rparr>)" "mm_ok (mm\<lparr>mmap_cache := c\<rparr>) vs"
    and r: "r = 0 \<and> (\<forall>v \<in> set vs. \<not> covers mm start v) \<or> r \<in> set vs \<and> r \<noteq> 0 \<and> covers mm start r" by blast
  show "\<not> USER_ACCESS start end_a \<Longrightarrow> mm_map mm addr len flags p = Some (- E_INVAL, None, mm)"
    by (simp add: mm_map_def se)
  show "\<exists>c. mm_map mm addr len flags p = Some (- E_INVAL, None, mm\<lparr>mmap_cache := c\<rparr>) \<and> mm_ok (mm\<lparr>mmap_cache := c\<rparr>) vs"
    if "USER_ACCESS start end_a" "\<exists>v \<in> set vs. covers mm start v"
    using that r f by (auto simp: mm_map_def USER_ACCESS_def covers_def simp flip: se intro!: exI [of _ c])
  have uc: "USER_ACCESS start end_a \<Longrightarrow> \<forall>v \<in> set vs. \<not> covers mm start v \<Longrightarrow> p = 0 \<Longrightarrow>
      mm_map mm addr len flags p = Some (- E_NO_MEM, None, mm\<lparr>mmap_cache := c\<rparr>)"
    using r f by (auto simp: mm_map_def vma_create_def simp flip: se)
  then show "\<exists>c. mm_map mm addr len flags p = Some (- E_NO_MEM, None, mm\<lparr>mmap_cache := c\<rparr>) \<and> mm_ok (mm\<lparr>mmap_cache := c\<rparr>) vs"
    if "USER_ACCESS start end_a" "\<forall>v \<in> set vs. \<not> covers mm start v" "p = 0"
    using that f(2) by blast
  let ?v = "\<lparr>vm_start = start, vm_end = end_a, vm_flags = flags\<rparr>"
  let ?mm = "mm\<lparr>mmap_cache := c, vmas := (vmas mm)(p := ?v)\<rparr>"
  have go: "mm_map mm addr len flags p = do { mm \<leftarrow> insert_vma_struct ?mm p; Some (0, Some p, mm) }"
    if "USER_ACCESS start end_a" "\<forall>v \<in> set vs. \<not> covers mm start v" "p \<noteq> 0"
    using that r f(1) by (auto simp: mm_map_def vma_create_def simp flip: se)
  have ok': "mm_ok ?mm vs" using mm_ok_fresh [OF f(2) p] by simp
  have d: "disjoint_from ?mm p vs \<longleftrightarrow> (\<forall>v \<in> set vs. \<not> meets mm start end_a v)"
    using p by (auto simp: disjoint_from_def before_def meets_def not_less)
  have lt: "start < end_a" if "USER_ACCESS start end_a" using that by (simp add: USER_ACCESS_def)
  note ins = insert_ok [OF ok' p]
  show "mm_map mm addr len flags p = None"
    if "USER_ACCESS start end_a" "\<forall>v \<in> set vs. \<not> covers mm start v" "p \<noteq> 0" "\<exists>v \<in> set vs. meets mm start end_a v"
    using go [OF that(1-3)] ins lt [OF that(1)] that(3,4) d by simp
  show "\<exists>mm' ls rs. mm_map mm addr len flags p = Some (0, Some p, mm') \<and> vs = ls @ rs \<and> mm_ok mm' (ls @ p # rs)
      \<and> vmas mm' = (vmas mm)(p := ?v)"
    if "USER_ACCESS start end_a" "\<forall>v \<in> set vs. \<not> meets mm start end_a v" "p \<noteq> 0"
  proof -
    have nc: "\<forall>v \<in> set vs. \<not> covers mm start v" using that(2) lt [OF that(1)] by (auto simp: covers_def meets_def)
    have "disjoint_from ?mm p vs" using d that(2) by blast
    with ins lt [OF that(1)] that(3) obtain mm' ls rs where
      "insert_vma_struct ?mm p = Some mm'" "vs = ls @ rs" "mm_ok mm' (ls @ p # rs)" "vmas mm' = vmas ?mm" by auto
    then show ?thesis using go [OF that(1) nc that(3)] by auto
  qed
qed

text \<open>C34: \<open>mm_map\<close> on a well-formed memory map refuses a range outside user space, and one whose first page
  lies in an area, without changing the areas; it reports a failed allocation; and otherwise it
  inserts exactly the page-aligned range in its place, keeping the list sorted and disjoint - unless
  the range runs into a later area: then it panics instead of returning an error.\<close>

theorem mm_map_outcome:
  assumes "mm_ok mm vs" "p \<notin> set vs" "start = ROUNDDOWN addr PGSIZE" "end_a = ROUNDUP (addr + len) PGSIZE"
  shows "if \<not> USER_ACCESS start end_a then mm_map mm addr len flags p = Some (- E_INVAL, None, mm)
    else if \<exists>v \<in> set vs. covers mm start v
      then \<exists>c. mm_map mm addr len flags p = Some (- E_INVAL, None, mm\<lparr>mmap_cache := c\<rparr>) \<and> mm_ok (mm\<lparr>mmap_cache := c\<rparr>) vs
    else if p = 0
      then \<exists>c. mm_map mm addr len flags p = Some (- E_NO_MEM, None, mm\<lparr>mmap_cache := c\<rparr>) \<and> mm_ok (mm\<lparr>mmap_cache := c\<rparr>) vs
    else if \<exists>v \<in> set vs. meets mm start end_a v then mm_map mm addr len flags p = None
    else \<exists>mm' ls rs. mm_map mm addr len flags p = Some (0, Some p, mm') \<and> vs = ls @ rs \<and> mm_ok mm' (ls @ p # rs)
      \<and> vmas mm' = (vmas mm)(p := \<lparr>vm_start = start, vm_end = end_a, vm_flags = flags\<rparr>)"
proof (cases "USER_ACCESS start end_a")
  case True
  then have "\<forall>v \<in> set vs. covers mm start v \<longrightarrow> meets mm start end_a v" by (auto simp: covers_def meets_def USER_ACCESS_def)
  then show ?thesis using mm_map_cases [OF assms, where flags = flags] True by (simp split del: if_split) (auto split: if_splits)
next
  case False
  then show ?thesis using mm_map_cases(1) [OF assms False] by simp
qed

section \<open>Checking a range\<close>

definition allowed :: "mm \<Rightarrow> bool \<Rightarrow> addr \<Rightarrow> nat \<Rightarrow> bool" where
  "allowed mm write a v \<longleftrightarrow> covers mm a v \<and> vm_flags (vmas mm v) AND (if write then VM_WRITE else VM_READ) \<noteq> 0
     \<and> \<not> (write \<and> vm_flags (vmas mm v) AND VM_STACK \<noteq> 0 \<and> a < vm_start (vmas mm v) + PGSIZE)"

lemma allowed_cache [simp]: "allowed (mm\<lparr>mmap_cache := c\<rparr>) = allowed mm"
  by (simp add: allowed_def fun_eq_iff)

lemma check_loop_ok:
  "mm_ok mm vs \<Longrightarrow> \<exists>b c. check_loop mm start end_a write = Some (b, mm\<lparr>mmap_cache := c\<rparr>) \<and> mm_ok (mm\<lparr>mmap_cache := c\<rparr>) vs
     \<and> (b \<longleftrightarrow> (\<forall>a. start \<le> a \<and> a < end_a \<longrightarrow> (\<exists>v \<in> set vs. allowed mm write a v)))"
proof (induction "unat end_a - unat start" arbitrary: mm start rule: less_induct)
  case less
  show ?case
  proof (cases "start < end_a")
    case False
    then have "check_loop mm start end_a write = Some (True, mm\<lparr>mmap_cache := mmap_cache mm\<rparr>)"
      by (subst check_loop.simps) simp
    then show ?thesis using False less.prems by (intro exI [of _ True] exI [of _ "mmap_cache mm"]) auto
  next
    case True
    from find_vma_ok [OF less.prems, of start] obtain r c where
      f: "find_vma mm start = Some (r, mm\<lparr>mmap_cache := c\<rparr>)" "mm_ok (mm\<lparr>mmap_cache := c\<rparr>) vs"
      and r: "r = 0 \<and> (\<forall>v \<in> set vs. \<not> covers mm start v) \<or> r \<in> set vs \<and> r \<noteq> 0 \<and> covers mm start r" by blast
    show ?thesis
    proof (cases "r \<noteq> 0 \<and> allowed mm write start r")
      case False
      have "\<not> allowed mm write start v" if "v \<in> set vs" for v
        using r False covers_unique [OF less.prems] that by (metis allowed_def)
      then have "\<not> (\<forall>a. start \<le> a \<and> a < end_a \<longrightarrow> (\<exists>v \<in> set vs. allowed mm write a v))" using True by blast
      moreover have "check_loop mm start end_a write = Some (False, mm\<lparr>mmap_cache := c\<rparr>)"
        using f(1) True False r by (subst check_loop.simps) (auto simp: Let_def allowed_def covers_def)
      ultimately show ?thesis using f(2) by blast
    next
      case al: True
      with r have rv: "r \<in> set vs" "covers mm start r" by auto
      let ?e = "vm_end (vmas mm r)"
      have lt: "start < ?e" using rv(2) by (simp add: covers_def)
      have "unat end_a - unat ?e < unat end_a - unat start" using lt True by (simp add: word_less_nat_alt diff_less_mono2)
      from less.hyps [OF this f(2)] obtain b c' where
        b: "check_loop (mm\<lparr>mmap_cache := c\<rparr>) ?e end_a write = Some (b, mm\<lparr>mmap_cache := c'\<rparr>)" "mm_ok (mm\<lparr>mmap_cache := c'\<rparr>) vs"
        "b \<longleftrightarrow> (\<forall>a. ?e \<le> a \<and> a < end_a \<longrightarrow> (\<exists>v \<in> set vs. allowed mm write a v))" by auto
      have "check_loop mm start end_a write = check_loop (mm\<lparr>mmap_cache := c\<rparr>) ?e end_a write"
        using f(1) True al by (subst check_loop.simps) (auto simp: Let_def allowed_def covers_def)
      moreover have "allowed mm write a r" if "start \<le> a" "a < ?e" for a
        using al that rv(2) by (auto simp: allowed_def covers_def)
      then have "(\<forall>a. start \<le> a \<and> a < end_a \<longrightarrow> (\<exists>v \<in> set vs. allowed mm write a v))
          \<longleftrightarrow> (\<forall>a. ?e \<le> a \<and> a < end_a \<longrightarrow> (\<exists>v \<in> set vs. allowed mm write a v))"
        using rv(1) lt by (meson le_less_trans less_imp_le not_le order_trans)
      ultimately show ?thesis using b by auto
    qed
  qed
qed

text \<open>\<open>user_mem_check\<close> returns for every range, and approves it exactly when the range is a non-empty part of
  user space and every byte of it lies in an area that grants the access (in the stack, above its
  lowest page for a write); it leaves the areas alone.\<close>

theorem user_mem_check_sound:
  assumes "mm_ok mm vs"
  shows "\<exists>b c. user_mem_check mm addr len write = Some (b, mm\<lparr>mmap_cache := c\<rparr>) \<and> mm_ok (mm\<lparr>mmap_cache := c\<rparr>) vs
    \<and> (b \<longleftrightarrow> USER_ACCESS addr (addr + len) \<and> (\<forall>a. addr \<le> a \<and> a < addr + len \<longrightarrow> (\<exists>v \<in> set vs. allowed mm write a v)))"
proof (cases "USER_ACCESS addr (addr + len)")
  case True
  then show ?thesis using check_loop_ok [OF assms, of addr "addr + len" "write"] by (simp add: user_mem_check_def)
next
  case False
  then have "user_mem_check mm addr len write = Some (False, mm\<lparr>mmap_cache := mmap_cache mm\<rparr>)" by (simp add: user_mem_check_def)
  then show ?thesis using False assms by (intro exI [of _ False] exI [of _ "mmap_cache mm"]) simp
qed

section \<open>A map with two areas\<close>

text \<open>A read-only area at 0x800000 and the stack below 0x80000000.\<close>

definition demo_mm :: mm where
  "demo_mm = \<lparr>mmap_list = \<lparr>nxt = (\<lambda>_. Mmap)(Mmap := Vma 10, Vma 10 := Vma 20), prv = (\<lambda>_. Mmap)(Mmap := Vma 20, Vma 20 := Vma 10)\<rparr>,
     mmap_cache = 0, map_count = 2, mm_count = 1,
     vmas = (\<lambda>_. \<lparr>vm_start = 0, vm_end = 0, vm_flags = 0\<rparr>)(10 := \<lparr>vm_start = 0x800000, vm_end = 0x802000, vm_flags = 5\<rparr>,
       20 := \<lparr>vm_start = 0x7FF00000, vm_end = 0x80000000, vm_flags = 11\<rparr>)\<rparr>"

lemma demo_mm_ok: "mm_ok demo_mm [10, 20]"
  by (simp add: mm_ok_def demo_mm_def dlist_def before_def)

theorem mm_map_outcome_witness:
  "(\<exists>mm' ls rs. mm_map demo_mm 0x900000 100 3 30 = Some (0, Some 30, mm') \<and> [10, 20] = ls @ rs \<and> mm_ok mm' (ls @ 30 # rs))
    \<and> mm_map demo_mm 0x700000 0x200000 3 30 = None"
proof
  have "ROUNDDOWN 0x900000 PGSIZE = 0x900000" "ROUNDUP (0x900000 + 100) PGSIZE = 0x901000"
    "ROUNDDOWN 0x700000 PGSIZE = 0x700000" "ROUNDUP (0x700000 + 0x200000) PGSIZE = 0x900000"
    by (simp_all add: ROUNDDOWN_def ROUNDUP_def PGSIZE_def)
  note r = this [symmetric]
  have u: "USER_ACCESS 0x900000 0x901000" "USER_ACCESS 0x700000 0x900000" by (simp_all add: USER_ACCESS_def USERBASE_def USERTOP_def)
  have c: "\<not> (\<exists>v \<in> set [10, 20]. covers demo_mm 0x900000 v)" "\<not> (\<exists>v \<in> set [10, 20]. covers demo_mm 0x700000 v)"
    by (simp_all add: covers_def demo_mm_def)
  have m: "\<not> (\<exists>v \<in> set [10, 20]. meets demo_mm 0x900000 0x901000 v)" "\<exists>v \<in> set [10, 20]. meets demo_mm 0x700000 0x900000 v"
    by (simp_all add: meets_def demo_mm_def)
  have p: "30 \<notin> set [10, 20 :: nat]" "30 \<noteq> (0 :: nat)" by simp_all
  show "\<exists>mm' ls rs. mm_map demo_mm 0x900000 100 3 30 = Some (0, Some 30, mm') \<and> [10, 20] = ls @ rs \<and> mm_ok mm' (ls @ 30 # rs)"
    using mm_map_outcome [OF demo_mm_ok p(1) r(1,2), where flags = 3] u(1) c(1) m(1) p(2) by (simp only: if_False simp_thms) blast
  show "mm_map demo_mm 0x700000 0x200000 3 30 = None"
    using mm_map_outcome [OF demo_mm_ok p(1) r(3,4), where flags = 3] u(2) c(2) m(2) p(2) by (simp only: if_False if_True simp_thms)
qed

theorem user_mem_check_sound_witness:
  "\<exists>c. user_mem_check demo_mm 0x801000 0x2000 False = Some (False, demo_mm\<lparr>mmap_cache := c\<rparr>)"
proof -
  from user_mem_check_sound [OF demo_mm_ok, of "0x801000" "0x2000" False] obtain b c where
    b: "user_mem_check demo_mm 0x801000 0x2000 False = Some (b, demo_mm\<lparr>mmap_cache := c\<rparr>)"
      "b \<longrightarrow> (\<forall>a. 0x801000 \<le> a \<and> a < 0x801000 + 0x2000 \<longrightarrow> (\<exists>v \<in> set [10, 20]. allowed demo_mm False a v))" by blast
  have "\<not> (\<exists>v \<in> set [10, 20]. allowed demo_mm False 0x802000 v)" by (simp add: allowed_def covers_def demo_mm_def)
  moreover have "(0x801000 :: addr) \<le> 0x802000" "(0x802000 :: addr) < 0x801000 + 0x2000" by simp_all
  ultimately have "\<not> b" using b(2) by blast
  then show ?thesis using b(1) by auto
qed

end
