(* ===== verification/UserCopy.thy ===== *)
theory UserCopy
  imports Vmm Strings
begin

text \<open>
  Copies between the kernel and user space: \<open>copy_from_user\<close>, \<open>copy_to_user\<close> and \<open>copy_string\<close> of \<open>kern/mm/vmm.c\<close>.
  One memory holds both, the user part below \<open>USERTOP\<close>; pages that are not resident are brought in by the page
  fault handler before the access goes on, so an access to an area of the memory map always succeeds. The
  null memory map is \<open>None\<close>.
\<close>

section \<open>The operations\<close>

definition mem_check :: "mm option \<Rightarrow> addr \<Rightarrow> addr \<Rightarrow> bool \<Rightarrow> (bool \<times> mm option) option" where
  "mem_check mo addr len write =
     (case mo of None \<Rightarrow> Some (kern_mem_check addr len, None)
      | Some mm \<Rightarrow> do { (b, mm) \<leftarrow> user_mem_check mm addr len write; Some (b, Some mm) })"

definition copy_from_user :: "mm option \<Rightarrow> mem \<Rightarrow> nat \<Rightarrow> addr \<Rightarrow> addr \<Rightarrow> bool \<Rightarrow> (bool \<times> mem \<times> mm option) option" where
  "copy_from_user mo m dst src len writable = do {
     (b, mo) \<leftarrow> mem_check mo src len writable;
     if \<not> b then Some (False, m, mo) else Some (True, memcpy m dst (unat src) (unat len), mo)
   }"

definition copy_to_user :: "mm option \<Rightarrow> mem \<Rightarrow> addr \<Rightarrow> nat \<Rightarrow> addr \<Rightarrow> (bool \<times> mem \<times> mm option) option" where
  "copy_to_user mo m dst src len = do {
     (b, mo) \<leftarrow> mem_check mo dst len True;
     if \<not> b then Some (False, m, mo) else Some (True, memcpy m (unat dst) src (unat len), mo)
   }"

partial_function (option) copy_string_loop :: "mm option \<Rightarrow> mem \<Rightarrow> nat \<Rightarrow> addr \<Rightarrow> addr \<Rightarrow> addr \<Rightarrow> (bool \<times> mem \<times> mm option) option" where
  "copy_string_loop mo m dst src maxn part = do {
     let part = (if part > maxn then maxn else part);
     (b, mo) \<leftarrow> mem_check mo src part False;
     let alen = strnlen m (unat src) (unat part);
     if \<not> b then Some (False, m, mo)
     else if alen < unat part then Some (True, memcpy m dst (unat src) (alen + 1), mo)
     else if part = maxn then Some (False, m, mo)
     else copy_string_loop mo (memcpy m dst (unat src) (unat part)) (dst + unat part) (src + part) (maxn - part) PGSIZE
   }"

definition copy_string :: "mm option \<Rightarrow> mem \<Rightarrow> nat \<Rightarrow> addr \<Rightarrow> addr \<Rightarrow> (bool \<times> mem \<times> mm option) option" where
  "copy_string mo m dst src maxn = copy_string_loop mo m dst src maxn (ROUNDDOWN (src + PGSIZE) PGSIZE - src)"

section \<open>What a process may access\<close>

definition user_top :: nat where "user_top = 0x80000000"

definition accessible :: "mm \<Rightarrow> nat list \<Rightarrow> bool \<Rightarrow> nat \<Rightarrow> bool" where
  "accessible mm vs write a \<longleftrightarrow> 0x200000 \<le> a \<and> a < user_top \<and> (\<exists>v \<in> set vs. allowed mm write (of_nat a) v)"

lemma accessible_cache [simp]: "accessible (mm\<lparr>mmap_cache := c\<rparr>) = accessible mm"
  by (simp add: accessible_def fun_eq_iff)

lemma accessible_top: "accessible mm vs write a \<Longrightarrow> a < user_top"
  by (simp add: accessible_def)

lemma access_nat:
  assumes "USER_ACCESS addr (addr + len)"
  shows "0x200000 \<le> unat addr" "unat (addr + len) = unat addr + unat len" "unat addr + unat len \<le> user_top" "len \<noteq> 0"
proof -
  have u: "0x200000 \<le> unat addr" "addr < addr + len" "unat (addr + len) \<le> user_top"
    using assms by (simp_all add: USER_ACCESS_def word_le_nat_alt USERBASE_def USERTOP_def user_top_def)
  then show "0x200000 \<le> unat addr" "len \<noteq> 0" by auto
  show e: "unat (addr + len) = unat addr + unat len" using u(2) unat_plus_simple order_less_imp_le by blast
  show "unat addr + unat len \<le> user_top" using u(3) e by simp
qed

lemma access_intro:
  assumes "0x200000 \<le> unat addr" "unat addr + unat len \<le> user_top" "len \<noteq> 0"
  shows "USER_ACCESS addr (addr + len)"
proof -
  have e: "unat (addr + len) = unat addr + unat len" using assms(2) unat_plus_if' [of addr len] by (simp add: user_top_def)
  have "0 < unat len" using assms(3) by (simp add: unat_gt_0)
  then show ?thesis using assms by (simp add: USER_ACCESS_def word_le_nat_alt word_less_nat_alt USERBASE_def USERTOP_def user_top_def e)
qed

lemma mem_check_user:
  assumes ok: "mm_ok mm vs"
  obtains b c where "mem_check (Some mm) addr len write = Some (b, Some (mm\<lparr>mmap_cache := c\<rparr>))" "mm_ok (mm\<lparr>mmap_cache := c\<rparr>) vs"
    "b \<longleftrightarrow> len \<noteq> 0 \<and> (\<forall>a. unat addr \<le> a \<and> a < unat addr + unat len \<longrightarrow> accessible mm vs write a)"
proof (cases "USER_ACCESS addr (addr + len)")
  case True
  note u = access_nat [OF True]
  obtain b c where b: "check_loop mm addr (addr + len) write = Some (b, mm\<lparr>mmap_cache := c\<rparr>)" "mm_ok (mm\<lparr>mmap_cache := c\<rparr>) vs"
    "b \<longleftrightarrow> (\<forall>a. addr \<le> a \<and> a < addr + len \<longrightarrow> (\<exists>v \<in> set vs. allowed mm write a v))"
    using check_loop_ok [OF ok] by blast
  have "(\<forall>a. addr \<le> a \<and> a < addr + len \<longrightarrow> (\<exists>v \<in> set vs. allowed mm write a v))
    \<longleftrightarrow> (\<forall>a. unat addr \<le> a \<and> a < unat addr + unat len \<longrightarrow> accessible mm vs write a)"
  proof (intro iffI allI impI)
    fix a
    assume h: "\<forall>a. addr \<le> a \<and> a < addr + len \<longrightarrow> (\<exists>v \<in> set vs. allowed mm write a v)" and a: "unat addr \<le> a \<and> a < unat addr + unat len"
    have "unat (of_nat a :: addr) = a" using a u(3) by (simp add: unat_of_nat user_top_def)
    then have "addr \<le> of_nat a \<and> of_nat a < addr + len" using a u(2) by (simp add: word_le_nat_alt word_less_nat_alt)
    then show "accessible mm vs write a" using h a u by (auto simp: accessible_def)
  next
    fix a
    assume h: "\<forall>a. unat addr \<le> a \<and> a < unat addr + unat len \<longrightarrow> accessible mm vs write a" and a: "addr \<le> a \<and> a < addr + len"
    then have "accessible mm vs write (unat a)" using u(2) by (simp add: word_le_nat_alt word_less_nat_alt)
    then show "\<exists>v \<in> set vs. allowed mm write a v" by (simp add: accessible_def)
  qed
  then show thesis using b True u(4) by (intro that [of b c]) (simp_all add: mem_check_def user_mem_check_def)
next
  case False
  have "\<not> (\<forall>a. unat addr \<le> a \<and> a < unat addr + unat len \<longrightarrow> accessible mm vs write a)" if l: "len \<noteq> 0"
  proof
    assume h: "\<forall>a. unat addr \<le> a \<and> a < unat addr + unat len \<longrightarrow> accessible mm vs write a"
    have p: "0 < unat len" using l by (simp add: unat_gt_0)
    then have "accessible mm vs write (unat addr)" "accessible mm vs write (unat addr + unat len - 1)" using h by simp_all
    then have "USER_ACCESS addr (addr + len)" using l p by (intro access_intro) (auto simp: accessible_def)
    then show False using False by contradiction
  qed
  moreover have "mm_ok (mm\<lparr>mmap_cache := mmap_cache mm\<rparr>) vs" using ok by simp
  ultimately show thesis using False by (intro that [of False "mmap_cache mm"]) (auto simp: mem_check_def user_mem_check_def)
qed

section \<open>Copies of a known length\<close>

lemma memcpy_apart: "d \<le> s \<or> s + n \<le> d \<Longrightarrow> memcpy m d s n = put_bytes m d (get_bytes m s n)"
  by (simp add: memcpy_def copy_up_ok)

definition may_access :: "mm \<Rightarrow> nat list \<Rightarrow> bool \<Rightarrow> addr \<Rightarrow> addr \<Rightarrow> bool" where
  "may_access mm vs write addr len \<longleftrightarrow> len \<noteq> 0 \<and> (\<forall>a. unat addr \<le> a \<and> a < unat addr + unat len \<longrightarrow> accessible mm vs write a)"

lemma may_access_cache [simp]: "may_access (mm\<lparr>mmap_cache := c\<rparr>) = may_access mm"
  by (simp add: may_access_def fun_eq_iff)

lemma may_access_top: "may_access mm vs write addr len \<Longrightarrow> unat addr + unat len \<le> user_top"
proof -
  assume a: "may_access mm vs write addr len"
  then have "0 < unat len" by (simp add: may_access_def unat_gt_0)
  then have "accessible mm vs write (unat addr + unat len - 1)" using a by (simp add: may_access_def)
  then show ?thesis by (auto simp: accessible_def)
qed

lemma copy_from_user_ok:
  assumes ok: "mm_ok mm vs" and d: "user_top \<le> dst"
  obtains c where "mm_ok (mm\<lparr>mmap_cache := c\<rparr>) vs"
    "copy_from_user (Some mm) m dst src len w = Some (if may_access mm vs w src len then (True, put_bytes m dst (get_bytes m (unat src) (unat len)), Some (mm\<lparr>mmap_cache := c\<rparr>))
       else (False, m, Some (mm\<lparr>mmap_cache := c\<rparr>)))"
proof -
  obtain b c where b: "mem_check (Some mm) src len w = Some (b, Some (mm\<lparr>mmap_cache := c\<rparr>))" "mm_ok (mm\<lparr>mmap_cache := c\<rparr>) vs" "b \<longleftrightarrow> may_access mm vs w src len"
    using mem_check_user [OF ok] unfolding may_access_def by blast
  show thesis by (rule that [OF b(2)]) (use b may_access_top [of mm vs w src len] d in \<open>auto simp: copy_from_user_def memcpy_apart\<close>)
qed

lemma copy_to_user_ok:
  assumes ok: "mm_ok mm vs" and d: "user_top \<le> src"
  obtains c where "mm_ok (mm\<lparr>mmap_cache := c\<rparr>) vs"
    "copy_to_user (Some mm) m dst src len = Some (if may_access mm vs True dst len then (True, put_bytes m (unat dst) (get_bytes m src (unat len)), Some (mm\<lparr>mmap_cache := c\<rparr>))
       else (False, m, Some (mm\<lparr>mmap_cache := c\<rparr>)))"
proof -
  obtain b c where b: "mem_check (Some mm) dst len True = Some (b, Some (mm\<lparr>mmap_cache := c\<rparr>))" "mm_ok (mm\<lparr>mmap_cache := c\<rparr>) vs" "b \<longleftrightarrow> may_access mm vs True dst len"
    using mem_check_user [OF ok] unfolding may_access_def by blast
  show thesis by (rule that [OF b(2)]) (use b may_access_top [of mm vs True dst len] d in \<open>auto simp: copy_to_user_def memcpy_apart\<close>)
qed

section \<open>Strings\<close>

lemma strnlen_takeWhile: "strnlen m s n = length (takeWhile (\<lambda>x. x \<noteq> 0) (get_bytes m s n))"
proof -
  have "strnlen_loop m s cnt (cnt + n) = cnt + length (takeWhile (\<lambda>x. x \<noteq> 0) (get_bytes m s n))" for cnt
  proof (induction n arbitrary: s cnt)
    case 0
    then show ?case by (subst strnlen_loop.simps) (simp add: get_bytes_def)
  next
    case (Suc n)
    from Suc [of "s + 1" "cnt + 1"] show ?case by (subst strnlen_loop.simps) (simp add: get_bytes_Cons)
  qed
  from this [of 0] show ?thesis by (simp add: strnlen_def)
qed

text \<open>Areas begin and end at page boundaries, as \<open>mm_map\<close> makes them.\<close>

definition page_aligned :: "mm \<Rightarrow> nat list \<Rightarrow> bool" where
  "page_aligned mm vs \<longleftrightarrow> (\<forall>v \<in> set vs. unat (vm_start (vmas mm v)) mod 4096 = 0 \<and> unat (vm_end (vmas mm v)) mod 4096 = 0)"

lemma page_aligned_cache [simp]: "page_aligned (mm\<lparr>mmap_cache := c\<rparr>) = page_aligned mm"
  by (simp add: page_aligned_def fun_eq_iff)

lemma page_bound: "(p :: nat) mod 4096 = 0 \<Longrightarrow> p \<le> a \<longleftrightarrow> p div 4096 \<le> a div 4096"
  by (metis div_le_mono mod_div_trivial div_mult_mod_eq add_0_right less_eq_div_iff_mult_less_eq zero_less_numeral)

lemma accessible_page:
  assumes al: "page_aligned mm vs" and p: "a div 4096 = b div 4096" and acc: "accessible mm vs False a"
  shows "accessible mm vs False b"
proof -
  obtain v where v: "v \<in> set vs" "allowed mm False (of_nat a) v" and r: "0x200000 \<le> a" "a < user_top" using acc by (auto simp: accessible_def)
  have rb: "0x200000 \<le> b" "b < user_top"
    using r p page_bound [of "0x200000" a] page_bound [of "0x200000" b] page_bound [of user_top a] page_bound [of user_top b]
    by (simp_all add: user_top_def flip: linorder_not_le)
  have u: "unat (of_nat a :: addr) = a" "unat (of_nat b :: addr) = b" using r rb by (simp_all add: unat_of_nat user_top_def)
  have m: "unat (vm_start (vmas mm v)) mod 4096 = 0" "unat (vm_end (vmas mm v)) mod 4096 = 0" using al v(1) by (simp_all add: page_aligned_def)
  have "allowed mm False (of_nat b) v"
    using v(2) page_bound [OF m(1), of a] page_bound [OF m(1), of b] page_bound [OF m(2), of a] page_bound [OF m(2), of b] p
    by (simp add: allowed_def covers_def word_le_nat_alt word_less_nat_alt u flip: linorder_not_le)
  then show ?thesis using rb v(1) by (auto simp: accessible_def)
qed

text \<open>The bytes \<open>xs\<close> are a string of the process at \<open>s\<close>, all of it readable.\<close>

definition user_string :: "mm \<Rightarrow> nat list \<Rightarrow> mem \<Rightarrow> nat \<Rightarrow> byte list \<Rightarrow> bool" where
  "user_string mm vs m s xs \<longleftrightarrow> cstring m s xs \<and> (\<forall>a. s \<le> a \<and> a \<le> s + length xs \<longrightarrow> accessible mm vs False a)"

lemma user_string_cache [simp]: "user_string (mm\<lparr>mmap_cache := c\<rparr>) = user_string mm"
  by (simp add: user_string_def fun_eq_iff)

lemma cstring_unique: "cstring m s xs \<Longrightarrow> cstring m s ys \<Longrightarrow> xs = ys"
proof (induction xs arbitrary: s ys)
  case Nil
  then show ?case by (cases ys) simp_all
next
  case (Cons x xs)
  then show ?case by (cases ys) auto
qed

lemma cstring_split: "0 \<notin> set xs \<Longrightarrow> cstring m s (xs @ ys) \<longleftrightarrow> get_bytes m s (length xs) = xs \<and> cstring m (s + length xs) ys"
proof (induction xs arbitrary: s)
  case Nil
  then show ?case by (simp add: get_bytes_def)
next
  case (Cons x xs)
  then show ?case by (auto simp: get_bytes_Cons)
qed

lemma cstring_cong: "(\<forall>a. s \<le> a \<and> a \<le> s + length xs \<longrightarrow> m' a = m a) \<Longrightarrow> cstring m' s xs = cstring m s xs"
proof (induction xs arbitrary: s)
  case (Cons x xs)
  moreover from Cons.prems have "\<forall>a. s + 1 \<le> a \<and> a \<le> s + 1 + length xs \<longrightarrow> m' a = m a" by simp
  ultimately show ?case by simp
qed simp

lemma user_string_kernel:
  assumes "user_top \<le> dst"
  shows "user_string mm vs (put_bytes m dst bs) s xs = user_string mm vs m s xs"
proof (cases "\<forall>a. s \<le> a \<and> a \<le> s + length xs \<longrightarrow> accessible mm vs False a")
  case True
  then have "\<forall>a. s \<le> a \<and> a \<le> s + length xs \<longrightarrow> a < dst" using accessible_top assms by fastforce
  then have "cstring (put_bytes m dst bs) s xs = cstring m s xs" by (intro cstring_cong) (auto simp: put_bytes_def)
  then show ?thesis by (simp add: user_string_def)
qed (auto simp: user_string_def)

lemma page_part:
  assumes "0 < p" "p \<le> 4096 - s mod 4096" "page_aligned mm vs"
  shows "(\<forall>a. s \<le> a \<and> a < s + p \<longrightarrow> accessible mm vs False a) \<longleftrightarrow> accessible mm vs False s"
proof -
  have "a div 4096 = s div 4096" if "s \<le> a" "a < s + p" for a
  proof -
    have "a < (s div 4096) * 4096 + 4096" using that(2) assms(2) div_mult_mod_eq [of s 4096] mod_less_divisor [of 4096 s] by linarith
    moreover have "(s div 4096) * 4096 \<le> a" using that(1) div_mult_mod_eq [of s 4096] by linarith
    ultimately show ?thesis by (intro div_nat_eqI) simp_all
  qed
  then show ?thesis using accessible_page [OF assms(3)] assms(1) by (metis less_add_same_cancel1 order_refl)
qed

lemma string_here:
  assumes "\<forall>a. s \<le> a \<and> a < s + p \<longrightarrow> accessible mm vs False a" "strnlen m s p < p"
  shows "user_string mm vs m s (get_bytes m s (strnlen m s p))"
proof -
  let ?n = "strnlen m s p" and ?bs = "get_bytes m s p"
  have g: "get_bytes m s ?n = take ?n ?bs" using assms(2) by (intro nth_equalityI) simp_all
  moreover have "take ?n ?bs = takeWhile (\<lambda>x. x \<noteq> 0) ?bs" by (simp add: strnlen_takeWhile takeWhile_eq_take [symmetric])
  ultimately have "0 \<notin> set (get_bytes m s ?n)" by (metis (mono_tags, lifting) set_takeWhileD)
  moreover have "?bs ! ?n = 0" using nth_length_takeWhile [of "\<lambda>x. x \<noteq> 0" ?bs] assms(2) by (simp add: strnlen_takeWhile)
  then have "m (s + ?n) = 0" using assms(2) by simp
  ultimately show ?thesis using assms by (simp add: user_string_def cstring_bytes)
qed

lemma string_ahead:
  assumes "\<forall>a. s \<le> a \<and> a < s + p \<longrightarrow> accessible mm vs False a" "p \<le> strnlen m s p"
  shows "user_string mm vs m s xs \<longleftrightarrow> (\<exists>ys. xs = get_bytes m s p @ ys \<and> user_string mm vs m (s + p) ys)"
proof -
  let ?bs = "get_bytes m s p"
  have "length (takeWhile (\<lambda>x. x \<noteq> 0) ?bs) = length ?bs" using assms(2) length_takeWhile_le [of "\<lambda>x. x \<noteq> 0" ?bs] by (simp add: strnlen_takeWhile)
  then have nz: "0 \<notin> set ?bs" by (metis (mono_tags, lifting) set_takeWhileD takeWhile_eq_take take_all_iff order_refl)
  have "\<exists>ys. xs = ?bs @ ys" if c: "cstring m s xs"
  proof -
    have "p \<le> length xs"
    proof (rule ccontr)
      assume "\<not> p \<le> length xs"
      then have "m (s + length xs) \<in> set ?bs" by (auto simp: get_bytes_def)
      then show False using c nz by (simp add: cstring_bytes)
    qed
    then have "xs = ?bs @ get_bytes m (s + p) (length xs - p)"
      using c get_bytes_append [of m s p "length xs - p"] by (simp add: cstring_bytes)
    then show ?thesis by blast
  qed
  moreover have "user_string mm vs m s (?bs @ ys) \<longleftrightarrow> user_string mm vs m (s + p) ys" for ys
  proof -
    have "(\<forall>a. s \<le> a \<and> a \<le> s + (p + length ys) \<longrightarrow> accessible mm vs False a) \<longleftrightarrow> (\<forall>a. s + p \<le> a \<and> a \<le> s + p + length ys \<longrightarrow> accessible mm vs False a)"
    proof (intro iffI allI impI)
      show "accessible mm vs False a" if "\<forall>a. s + p \<le> a \<and> a \<le> s + p + length ys \<longrightarrow> accessible mm vs False a" "s \<le> a \<and> a \<le> s + (p + length ys)" for a
        using that assms(1) by (cases "a < s + p") simp_all
    qed simp
    then show ?thesis using cstring_split [OF nz, of m s ys] by (simp add: user_string_def)
  qed
  ultimately show ?thesis unfolding user_string_def by blast
qed

text \<open>What a copy with room for \<open>n\<close> bytes does.\<close>

definition string_copied :: "mm \<Rightarrow> nat list \<Rightarrow> mem \<Rightarrow> nat \<Rightarrow> nat \<Rightarrow> nat \<Rightarrow> bool \<Rightarrow> mem \<Rightarrow> bool" where
  "string_copied mm vs m dst s n b m' \<longleftrightarrow> (\<forall>xs. user_string mm vs m s xs \<and> length xs < n \<longrightarrow> b \<and> m' = put_bytes m dst (xs @ [0]))
     \<and> (b \<longrightarrow> (\<exists>xs. user_string mm vs m s xs \<and> length xs < n)) \<and> (\<forall>a. a < dst \<or> dst + n \<le> a \<longrightarrow> m' a = m a)"

lemma string_copied_not: "\<forall>xs. user_string mm vs m s xs \<longrightarrow> n \<le> length xs \<Longrightarrow> string_copied mm vs m dst s n False m"
  by (fastforce simp: string_copied_def)

lemma string_copied_all:
  "user_string mm vs m s xs \<Longrightarrow> length xs < n \<Longrightarrow> string_copied mm vs m dst s n True (put_bytes m dst (xs @ [0]))"
  unfolding string_copied_def by (auto simp: user_string_def put_bytes_def dest: cstring_unique)

lemma string_copied_step:
  assumes "\<forall>a. s \<le> a \<and> a < s + p \<longrightarrow> accessible mm vs False a" "p \<le> strnlen m s p" "user_top \<le> dst" "p \<le> n"
    and "string_copied mm vs (put_bytes m dst (get_bytes m s p)) (dst + p) (s + p) (n - p) b m'"
  shows "string_copied mm vs m dst s n b m'"
proof -
  let ?m = "put_bytes m dst (get_bytes m s p)"
  note u = string_ahead [OF assms(1,2)] and k = user_string_kernel [OF assms(3)]
  have c: "\<forall>ys. user_string mm vs m (s + p) ys \<and> length ys < n - p \<longrightarrow> b \<and> m' = put_bytes ?m (dst + p) (ys @ [0])"
    "b \<longrightarrow> (\<exists>ys. user_string mm vs m (s + p) ys \<and> length ys < n - p)" "\<forall>a. a < dst + p \<or> dst + p + (n - p) \<le> a \<longrightarrow> m' a = ?m a"
    using assms(5) unfolding string_copied_def k by blast+
  have "b \<and> m' = put_bytes m dst (xs @ [0])" if "user_string mm vs m s xs" "length xs < n" for xs
    using that c(1) put_put [of m dst "get_bytes m s p"] by (auto simp: u)
  moreover have "\<exists>xs. user_string mm vs m s xs \<and> length xs < n" if b
    using that c(2) u by fastforce
  moreover have "m' a = m a" if "a < dst \<or> dst + n \<le> a" for a
    using that c(3) assms(4) by (auto simp: put_bytes_def)
  ultimately show ?thesis unfolding string_copied_def by blast
qed

lemma next_page: "(s :: nat) + (4096 - s mod 4096) = (s div 4096 + 1) * 4096"
proof -
  define q r where "q = s div 4096" and "r = s mod 4096"
  have "s = q * 4096 + r" "r < 4096" by (simp_all add: q_def r_def)
  then have "s + (4096 - r) = (q + 1) * 4096" by simp
  then show ?thesis by (simp only: q_def r_def)
qed

lemma copy_string_loop_ok:
  "mm_ok mm vs \<Longrightarrow> page_aligned mm vs \<Longrightarrow> unat part = 4096 - unat src mod 4096 \<Longrightarrow> user_top \<le> dst \<Longrightarrow>
   \<exists>b m' c. copy_string_loop (Some mm) m dst src maxn part = Some (b, m', Some (mm\<lparr>mmap_cache := c\<rparr>)) \<and> mm_ok (mm\<lparr>mmap_cache := c\<rparr>) vs
     \<and> string_copied mm vs m dst (unat src) (unat maxn) b m'"
proof (induction "unat maxn" arbitrary: mm m dst src maxn part rule: less_induct)
  case less
  define p where "p = (if part > maxn then maxn else part)"
  have p: "unat p \<le> 4096 - unat src mod 4096" "unat p \<le> unat maxn" using less.prems(3) by (auto simp: p_def word_less_nat_alt)
  have p0: "p = 0 \<longleftrightarrow> maxn = 0" using less.prems(3) by (auto simp: p_def word_less_nat_alt unat_eq_zero)
  obtain b c where b: "mem_check (Some mm) src p False = Some (b, Some (mm\<lparr>mmap_cache := c\<rparr>))" "mm_ok (mm\<lparr>mmap_cache := c\<rparr>) vs"
    "b \<longleftrightarrow> p \<noteq> 0 \<and> (\<forall>a. unat src \<le> a \<and> a < unat src + unat p \<longrightarrow> accessible mm vs False a)"
    using mem_check_user [OF less.prems(1)] by blast
  let ?mm = "mm\<lparr>mmap_cache := c\<rparr>" and ?n = "strnlen m (unat src) (unat p)"
  have eq: "copy_string_loop (Some mm) m dst src maxn part =
    (if \<not> b then Some (False, m, Some ?mm) else if ?n < unat p then Some (True, memcpy m dst (unat src) (?n + 1), Some ?mm)
     else if p = maxn then Some (False, m, Some ?mm)
     else copy_string_loop (Some ?mm) (memcpy m dst (unat src) (unat p)) (dst + unat p) (src + p) (maxn - p) PGSIZE)"
    by (subst copy_string_loop.simps) (simp add: p_def [symmetric] b(1) Let_def)
  consider (no) "\<not> b" | (here) b "?n < unat p" | (full) b "unat p \<le> ?n" "p = maxn" | (on) b "unat p \<le> ?n" "p \<noteq> maxn" by linarith
  then show ?case
  proof cases
    case no
    then have "\<not> accessible mm vs False (unat src) \<or> unat maxn = 0"
      using b(3) p0 page_part [OF _ p(1) less.prems(2)] by (cases "p = 0") (auto simp: unat_gt_0)
    then have "string_copied mm vs m dst (unat src) (unat maxn) False m" by (intro string_copied_not) (auto simp: user_string_def)
    then show ?thesis using eq no b(2) by auto
  next
    case here
    have st: "user_string mm vs m (unat src) (get_bytes m (unat src) ?n)" using b(3) here by (intro string_here) simp_all
    then have z: "get_bytes m (unat src) ?n @ [0] = get_bytes m (unat src) (?n + 1)" using cstring_get by (fastforce simp: user_string_def)
    have "unat src + ?n < user_top" using st accessible_top [of mm vs False "unat src + ?n"] by (simp add: user_string_def)
    then have "memcpy m dst (unat src) (?n + 1) = put_bytes m dst (get_bytes m (unat src) ?n @ [0])" unfolding z using less.prems(4) by (intro memcpy_apart) simp
    moreover have "string_copied mm vs m dst (unat src) (unat maxn) True (put_bytes m dst (get_bytes m (unat src) ?n @ [0]))"
      using here p(2) by (intro string_copied_all [OF st]) simp
    ultimately show ?thesis using eq here b(2) by auto
  next
    case full
    then have "string_copied mm vs m dst (unat src) (unat maxn) False m"
      using b(3) string_ahead [of "unat src" "unat p" mm vs m] by (intro string_copied_not) auto
    then show ?thesis using eq full b(2) by auto
  next
    case on
    have all: "\<forall>a. unat src \<le> a \<and> a < unat src + unat p \<longrightarrow> accessible mm vs False a" using b(3) on by simp
    have top: "unat src + unat p \<le> user_top" using may_access_top [of mm vs False src p] b(3) on by (simp add: may_access_def)
    have "p \<noteq> 0" using b(3) on(1) by blast
    moreover have "unat p \<noteq> unat maxn" using on(3) by (simp flip: word_unat_eq_iff)
    ultimately have pp: "p = part" "0 < unat p" "unat p < unat maxn"
      using on(3) p(2) by (simp_all add: p_def unat_gt_0 split: if_splits)
    let ?m = "put_bytes m dst (get_bytes m (unat src) (unat p))"
    have mc: "memcpy m dst (unat src) (unat p) = ?m" using top less.prems(4) by (intro memcpy_apart) simp
    have u: "unat (src + p) = unat src + unat p" "unat (maxn - p) = unat maxn - unat p"
      using top pp(3) unat_plus_if' [of src p] by (simp_all add: user_top_def unat_sub_if')
    have pg: "unat PGSIZE = 4096 - unat (src + p) mod 4096"
    proof -
      have "unat src + unat p = (unat src div 4096 + 1) * 4096" using less.prems(3) pp(1) next_page [of "unat src"] by simp
      then show ?thesis by (simp only: u(1)) (simp add: PGSIZE_def)
    qed
    have "\<exists>b' m' c'. copy_string_loop (Some ?mm) ?m (dst + unat p) (src + p) (maxn - p) PGSIZE = Some (b', m', Some (?mm\<lparr>mmap_cache := c'\<rparr>))
      \<and> mm_ok (?mm\<lparr>mmap_cache := c'\<rparr>) vs \<and> string_copied ?mm vs ?m (dst + unat p) (unat (src + p)) (unat (maxn - p)) b' m'"
      using less.prems(2,4) pp(2,3) pg b(2) by (intro less.hyps) (simp_all add: u)
    then obtain b' m' c' where r: "copy_string_loop (Some ?mm) ?m (dst + unat p) (src + p) (maxn - p) PGSIZE = Some (b', m', Some (mm\<lparr>mmap_cache := c'\<rparr>))"
      "mm_ok (mm\<lparr>mmap_cache := c'\<rparr>) vs" "string_copied mm vs ?m (dst + unat p) (unat src + unat p) (unat maxn - unat p) b' m'"
      by (auto simp: u string_copied_def)
    have "string_copied mm vs m dst (unat src) (unat maxn) b' m'"
      by (rule string_copied_step [OF all on(2) less.prems(4) p(2) r(3)])
    then show ?thesis using eq on r(1,2) mc by auto
  qed
qed

lemma rest_of_page: "unat (ROUNDDOWN (src + PGSIZE) PGSIZE - src) = 4096 - unat src mod 4096"
proof -
  have m: "unat (x mod PGSIZE) = unat x mod 4096" for x by (simp add: PGSIZE_def unat_mod_distrib)
  have "unat (src + PGSIZE) mod 4096 = unat src mod 4096"
    by (simp add: PGSIZE_def unat_word_ariths mod_mod_cancel) 
  then have "(src + PGSIZE) mod PGSIZE = src mod PGSIZE" by (simp add: word_unat_eq_iff m)
  then have "ROUNDDOWN (src + PGSIZE) PGSIZE - src = PGSIZE - src mod PGSIZE" by (simp add: ROUNDDOWN_def)
  moreover have "unat (src mod PGSIZE) < 4096" by (simp add: m)
  ultimately show ?thesis by (simp add: unat_sub_if' m PGSIZE_def) (simp add: PGSIZE_def m [unfolded PGSIZE_def])
qed

text \<open>C24: \<open>copy_string\<close> returns on every argument, and copies exactly the strings the process may read: if a string
  starts at \<open>src\<close>, all of it readable and with its end mark at most \<open>maxn\<close> bytes long, the result is true and
  the destination holds the string with its end mark and nothing else has changed; otherwise the result is
  false. In both cases no byte outside the \<open>maxn\<close> bytes of the destination changes, and of the memory map
  only the cache.\<close>

theorem copy_string_exact:
  assumes "mm_ok mm vs" "page_aligned mm vs" "user_top \<le> dst"
  shows "\<exists>b m' c. copy_string (Some mm) m dst src maxn = Some (b, m', Some (mm\<lparr>mmap_cache := c\<rparr>)) \<and> mm_ok (mm\<lparr>mmap_cache := c\<rparr>) vs
    \<and> (\<forall>xs. user_string mm vs m (unat src) xs \<and> length xs < unat maxn \<longrightarrow> b \<and> m' = put_bytes m dst (xs @ [0]))
    \<and> (b \<longrightarrow> (\<exists>xs. user_string mm vs m (unat src) xs \<and> length xs < unat maxn))
    \<and> (\<forall>a. a < dst \<or> dst + unat maxn \<le> a \<longrightarrow> m' a = m a)"
  using copy_string_loop_ok [OF assms(1,2) rest_of_page assms(3), of m src maxn] unfolding copy_string_def string_copied_def by blast

text \<open>The string "sh" at the end of the read-only area of \<open>demo_mm\<close>; behind it nothing is mapped.\<close>

theorem copy_string_exact_witness:
  "\<exists>m' c. copy_string (Some demo_mm) (put_bytes (\<lambda>_. 7) 0x801FFD [115, 104, 0]) 0xFFFFFFFFC0300000 0x801FFD 256 = Some (True, m', Some (demo_mm\<lparr>mmap_cache := c\<rparr>))
    \<and> get_bytes m' 0xFFFFFFFFC0300000 3 = [115, 104, 0]"
proof -
  let ?m = "put_bytes (\<lambda>_. 7 :: byte) 0x801FFD [115, 104, 0]"
  have al: "page_aligned demo_mm [10, 20]" by (simp add: page_aligned_def demo_mm_def)
  have acc: "accessible demo_mm [10, 20] False a" if "0x801FFD \<le> a" "a < 0x802000" for a
  proof -
    have "unat (of_nat a :: addr) = a" using that by (simp add: unat_of_nat)
    then show ?thesis using that
      by (simp add: accessible_def user_top_def allowed_def covers_def demo_mm_def word_le_nat_alt word_less_nat_alt VM_READ_def)
  qed
  have "cstring ?m 0x801FFD [115, 104]" by (simp add: put_bytes_def)
  then have "user_string demo_mm [10, 20] ?m (unat (0x801FFD :: addr)) [115, 104]" using acc by (simp add: user_string_def)
  moreover have "length [115, 104 :: byte] < unat (256 :: addr)" and top: "user_top \<le> 0xFFFFFFFFC0300000" by (simp_all add: user_top_def)
  moreover obtain b m' c where
    c: "copy_string (Some demo_mm) ?m 0xFFFFFFFFC0300000 0x801FFD 256 = Some (b, m', Some (demo_mm\<lparr>mmap_cache := c\<rparr>))"
    "\<forall>xs. user_string demo_mm [10, 20] ?m (unat (0x801FFD :: addr)) xs \<and> length xs < unat (256 :: addr) \<longrightarrow> b \<and> m' = put_bytes ?m 0xFFFFFFFFC0300000 (xs @ [0])"
    using copy_string_exact [OF demo_mm_ok al top, of ?m "0x801FFD" 256] by blast
  ultimately have r: "b" "m' = put_bytes ?m 0xFFFFFFFFC0300000 ([115, 104] @ [0])" by blast+
  have "get_bytes m' 0xFFFFFFFFC0300000 3 = [115, 104, 0]" unfolding r(2) by (subst get_put_same) simp_all
  then show ?thesis using c r(1) by (intro exI [of _ m'] exI [of _ c]) simp
qed

end
