(* ===== verification/Sysfile.thy ===== *)
theory Sysfile
  imports FileUse UserCopy
begin

text \<open>
  The file part of the system calls, \<open>kern/fs/sysfile.c\<close>: transfers between a file and user memory in pieces of one
  kernel buffer, and the calls that take a path. The kernel memory \<open>kmalloc\<close> returns (zero if there is none) and the
  places of local structures are arguments; \<open>kfree\<close> of them, and the lock of the memory map, are not part of the
  state. \<open>size_t\<close> arguments are natural numbers.
\<close>

section \<open>State\<close>

text \<open>What a call works on: open files and file system, memory, and the memory map of the current process.\<close>

record ctx =
  cx_fs :: kfs
  cx_mem :: mem
  cx_mm :: "mm option"

definition IOBUF_SIZE :: nat where "IOBUF_SIZE = 4096"
definition FS_MAX_FPATH_LEN :: nat where "FS_MAX_FPATH_LEN = 4095"
definition FS_MAX_FNAME_LEN :: nat where "FS_MAX_FNAME_LEN = 255"

definition from_user :: "ctx \<Rightarrow> nat \<Rightarrow> addr \<Rightarrow> nat \<Rightarrow> bool \<Rightarrow> (bool \<times> ctx) option" where
  "from_user s dst src len writable = do {
     (ok, m, mo) \<leftarrow> copy_from_user (cx_mm s) (cx_mem s) dst src (of_nat len) writable;
     Some (ok, s\<lparr>cx_mem := m, cx_mm := mo\<rparr>)
   }"

definition to_user :: "ctx \<Rightarrow> addr \<Rightarrow> nat \<Rightarrow> nat \<Rightarrow> (bool \<times> ctx) option" where
  "to_user s dst src len = do {
     (ok, m, mo) \<leftarrow> copy_to_user (cx_mm s) (cx_mem s) dst src (of_nat len);
     Some (ok, s\<lparr>cx_mem := m, cx_mm := mo\<rparr>)
   }"

section \<open>Reading and writing\<close>






section \<open>Calls on a descriptor\<close>

definition on_files :: "ctx \<Rightarrow> (int \<times> kfs) option \<Rightarrow> (int \<times> ctx) option" where
  "on_files s r = do { (ret, fs) \<leftarrow> r; Some (ret, s\<lparr>cx_fs := fs\<rparr>) }"

definition sysfile_close :: "ctx \<Rightarrow> int \<Rightarrow> (int \<times> ctx) option" where
  "sysfile_close s fd = on_files s (file_close (cx_fs s) fd)"

definition sysfile_seek :: "ctx \<Rightarrow> int \<Rightarrow> int \<Rightarrow> int \<Rightarrow> (int \<times> ctx) option" where
  "sysfile_seek s fd pos whence = on_files s (file_seek (cx_fs s) fd pos whence)"

definition sysfile_fsync :: "ctx \<Rightarrow> int \<Rightarrow> (int \<times> ctx) option" where
  "sysfile_fsync s fd = on_files s (file_fsync (cx_fs s) fd)"

definition sysfile_dup :: "ctx \<Rightarrow> int \<Rightarrow> int \<Rightarrow> (int \<times> ctx) option" where
  "sysfile_dup s fd1 fd2 = on_files s (file_dup (cx_fs s) fd1 fd2)"

text \<open>\<open>struct stat\<close> in memory: four bytes of padding follow the mode. \<open>stat0\<close> is what the local structure holds before.\<close>

definition stat_bytes :: "byte list \<Rightarrow> stat \<Rightarrow> byte list" where
  "stat_bytes pad st = to_le 4 (st_mode st) @ take 4 pad @ to_le 8 (st_nlinks st) @ to_le 8 (st_blocks st) @ to_le 8 (st_size st)"

definition sysfile_fstat :: "ctx \<Rightarrow> int \<Rightarrow> addr \<Rightarrow> nat \<Rightarrow> stat \<Rightarrow> byte list \<Rightarrow> (int \<times> ctx) option" where
  "sysfile_fstat s fd ustat local_stat stat0 pad = do {
     (ret, st, fs) \<leftarrow> file_fstat (cx_fs s) fd stat0;
     let s = s\<lparr>cx_fs := fs, cx_mem := put_bytes (cx_mem s) local_stat (stat_bytes pad st)\<rparr>;
     if ret \<noteq> 0 then Some (ret, s)
     else do {
       (ok, s) \<leftarrow> to_user s ustat local_stat 32;
       Some (if ok then ret else - E_INVAL, s)
     }
   }"

text \<open>\<open>struct dirent\<close> in memory, an \<open>off_t\<close> and the name.\<close>

definition off_t_of :: "byte list \<Rightarrow> int" where
  "off_t_of bs = signed_take_bit 63 (int (from_le bs))"

definition off_t_bytes :: "int \<Rightarrow> byte list" where
  "off_t_bytes x = to_le 8 (nat (x mod 2 ^ 64))"

definition dirent_at :: "mem \<Rightarrow> nat \<Rightarrow> dirent" where
  "dirent_at m p = \<lparr>d_offset = off_t_of (get_bytes m p 8), d_name = get_bytes m (p + 8) (FS_MAX_FNAME_LEN + 1)\<rparr>"

definition dirent_bytes :: "dirent \<Rightarrow> byte list" where
  "dirent_bytes d = off_t_bytes (d_offset d) @ d_name d"

definition sysfile_getdirentry :: "ctx \<Rightarrow> int \<Rightarrow> addr \<Rightarrow> nat \<Rightarrow> nat \<Rightarrow> (int \<times> ctx) option" where
  "sysfile_getdirentry s fd udirentp direntp ep =
     (if direntp = 0 then Some (- E_NO_MEM, s)
      else do {
        (ok, s) \<leftarrow> from_user s direntp udirentp 8 True;
        if \<not> ok then Some (- E_INVAL, s)
        else do {
          (ret, de, m, fs) \<leftarrow> file_getdirentry (cx_fs s) (cx_mem s) ep fd (dirent_at (cx_mem s) direntp);
          let s = s\<lparr>cx_fs := fs, cx_mem := put_bytes m direntp (dirent_bytes de)\<rparr>;
          if ret \<noteq> 0 then Some (ret, s)
          else do {
            (ok, s) \<leftarrow> to_user s udirentp direntp (8 + FS_MAX_FNAME_LEN + 1);
            Some (if ok then ret else - E_INVAL, s)
          }
        }
      })"

section \<open>Calls on a path\<close>

definition copy_path :: "ctx \<Rightarrow> addr \<Rightarrow> nat \<Rightarrow> (int \<times> ctx) option" where
  "copy_path s from buffer =
     (if buffer = 0 then Some (- E_NO_MEM, s)
      else do {
        (ok, m, mo) \<leftarrow> copy_string (cx_mm s) (cx_mem s) buffer from (of_nat (FS_MAX_FPATH_LEN + 1));
        Some (if ok then 0 else - E_INVAL, s\<lparr>cx_mem := m, cx_mm := mo\<rparr>)
      })"

definition sysfile_open :: "ctx \<Rightarrow> addr \<Rightarrow> 32 word \<Rightarrow> nat \<Rightarrow> nat option \<Rightarrow> root_fun \<Rightarrow> kmem \<Rightarrow> (int \<times> ctx) option" where
  "sysfile_open s upath open_flags buffer boot get_root k = do {
     (ret, s) \<leftarrow> copy_path s upath buffer;
     if ret \<noteq> 0 then Some (ret, s)
     else do {
       (ret, m, fs) \<leftarrow> file_open (cx_fs s) (cx_mem s) buffer open_flags boot get_root k;
       Some (ret, s\<lparr>cx_fs := fs, cx_mem := m\<rparr>)
     }
   }"

definition sysfile_chdir :: "ctx \<Rightarrow> addr \<Rightarrow> nat \<Rightarrow> nat option \<Rightarrow> root_fun \<Rightarrow> kmem \<Rightarrow> (int \<times> ctx) option" where
  "sysfile_chdir s upath buffer boot get_root k = do {
     (ret, s) \<leftarrow> copy_path s upath buffer;
     if ret \<noteq> 0 then Some (ret, s)
     else do {
       (ret, pwd, m, v) \<leftarrow> vfs_chdir (kv (cx_fs s)) (cx_mem s) buffer (fs_pwd (kf (cx_fs s))) boot get_root k;
       Some (ret, s\<lparr>cx_fs := (cx_fs s)\<lparr>kv := v, kf := (kf (cx_fs s))\<lparr>fs_pwd := pwd\<rparr>\<rparr>, cx_mem := m\<rparr>)
     }
   }"

text \<open>\<open>vfs_unlink\<close>, \<open>vfs_link\<close> and \<open>vfs_rename\<close> are not implemented.\<close>

definition vfs_unlink :: int where "vfs_unlink = - E_UNIMP"
definition vfs_rename :: int where "vfs_rename = - E_UNIMP"
definition vfs_link :: int where "vfs_link = - E_UNIMP"

definition sysfile_unlink :: "ctx \<Rightarrow> addr \<Rightarrow> nat \<Rightarrow> (int \<times> ctx) option" where
  "sysfile_unlink s upath buffer = do {
     (ret, s) \<leftarrow> copy_path s upath buffer;
     if ret \<noteq> 0 then Some (ret, s) else Some (vfs_unlink, s)
   }"

definition sysfile_link :: "ctx \<Rightarrow> addr \<Rightarrow> addr \<Rightarrow> nat \<Rightarrow> nat \<Rightarrow> (int \<times> ctx) option" where
  "sysfile_link s upath1 upath2 buffer1 buffer2 = do {
     (ret, s) \<leftarrow> copy_path s upath1 buffer1;
     if ret \<noteq> 0 then Some (ret, s)
     else do {
       (ret, s) \<leftarrow> copy_path s upath2 buffer2;
       if ret \<noteq> 0 then Some (ret, s) else Some (vfs_link, s)
     }
   }"

definition sysfile_rename :: "ctx \<Rightarrow> addr \<Rightarrow> addr \<Rightarrow> nat \<Rightarrow> nat \<Rightarrow> (int \<times> ctx) option" where
  "sysfile_rename s upath1 upath2 buffer1 buffer2 = do {
     (ret, s) \<leftarrow> copy_path s upath1 buffer1;
     if ret \<noteq> 0 then Some (ret, s)
     else do {
       (ret, s) \<leftarrow> copy_path s upath2 buffer2;
       if ret \<noteq> 0 then Some (ret, s) else Some (vfs_rename, s)
     }
   }"

definition sysfile_pipe :: int where "sysfile_pipe = - E_UNIMP"
definition sysfile_mkfifo :: int where "sysfile_mkfifo = - E_UNIMP"

section \<open>One transfer of the file layer\<close>









section \<open>The part of a user buffer that is served\<close>

text \<open>A transfer goes on as long as the next piece, of at most \<open>IOBUF_SIZE\<close> bytes, is wholly accessible.\<close>

function served :: "mm \<Rightarrow> nat list \<Rightarrow> bool \<Rightarrow> addr \<Rightarrow> nat \<Rightarrow> nat" where
  "served mm vs write base len =
     (if len = 0 \<or> \<not> may_access mm vs write base (of_nat (min IOBUF_SIZE len)) then 0
      else min IOBUF_SIZE len + served mm vs write (base + of_nat (min IOBUF_SIZE len)) (len - min IOBUF_SIZE len))"
  by pat_completeness auto
termination by (relation "measure (\<lambda>(_, _, _, _, len). len)") (auto simp: IOBUF_SIZE_def)

declare served.simps [simp del]

lemma served_cache [simp]: "served (mm\<lparr>mmap_cache := c\<rparr>) vs w base len = served mm vs w base len"
proof (induction mm vs w base len rule: served.induct)
  case (1 mm vs w base len)
  then show ?case by (subst (1 2) served.simps) simp
qed





definition same_user :: "mem \<Rightarrow> mem \<Rightarrow> bool" where
  "same_user m m' \<longleftrightarrow> (\<forall>x < user_top. m x = m' x)"

lemma same_user_simps [simp]:
  "same_user m m" "user_top \<le> B \<Longrightarrow> same_user m (put_bytes m' B bs) = same_user m m'" "user_top \<le> B \<Longrightarrow> same_user (put_bytes m B bs) m' = same_user m m'"
  by (auto simp: same_user_def put_bytes_def)




section \<open>sysfile_read\<close>





section \<open>sysfile_write\<close>






section \<open>The two calls\<close>





section \<open>A process with one open file and two areas\<close>







end
