(* ===== verification/Slob.thy ===== *)
theory Slob
  imports Prelude
begin

unbundle bit_operations_syntax

text \<open>
  The kernel memory allocator (\<open>kern/mm/kmalloc.c\<close>): a ring of free blocks in address order, with a rover, over
  pages from the page manager. Pointers are byte addresses and \<open>0\<close> is \<open>NULL\<close>. The argument \<open>pages\<close> of the
  allocating routines holds the results of the calls of \<open>__slob_get_free_page(s)\<close>, in order. The fields of
  a \<open>bigblock_t\<close> lie over those of a \<open>slob_t\<close>; they are separate maps here, as the code writes \<open>units\<close> again
  before it reads it. Interrupt masking is not modelled.
\<close>

section \<open>State\<close>

record slob =
  units :: "nat \<Rightarrow> nat"
  next_of :: "nat \<Rightarrow> nat"
  slobfree :: nat
  bb_order :: "nat \<Rightarrow> nat"
  bb_pages :: "nat \<Rightarrow> nat"
  bb_next :: "nat \<Rightarrow> nat"
  bigblocks :: nat

definition SLOB_UNIT :: nat where "SLOB_UNIT = 16"
definition PAGE_SIZE :: nat where "PAGE_SIZE = 4096"
definition BIGBLOCK_SIZE :: nat where "BIGBLOCK_SIZE = 24"

definition SLOB_UNITS :: "nat \<Rightarrow> nat" where
  "SLOB_UNITS sz = (sz + SLOB_UNIT - 1) div SLOB_UNIT"

text \<open>\<open>block + n\<close> for a \<open>slob_t *\<close>.\<close>

definition slob_at :: "nat \<Rightarrow> nat \<Rightarrow> nat" where
  "slob_at b n = b + SLOB_UNIT * n"

definition set_units :: "nat \<Rightarrow> nat \<Rightarrow> slob \<Rightarrow> slob" where
  "set_units b u s = s\<lparr>units := (units s)(b := u)\<rparr>"

definition set_next :: "nat \<Rightarrow> nat \<Rightarrow> slob \<Rightarrow> slob" where
  "set_next b n s = s\<lparr>next_of := (next_of s)(b := n)\<rparr>"

text \<open>\<open>arena\<close> and \<open>slobfree\<close> as the program starts.\<close>

definition slob_start :: "nat \<Rightarrow> slob" where
  "slob_start arena = \<lparr>units = (\<lambda>_. 0)(arena := 1), next_of = (\<lambda>_. 0)(arena := arena), slobfree = arena,
     bb_order = (\<lambda>_. 0), bb_pages = (\<lambda>_. 0), bb_next = (\<lambda>_. 0), bigblocks = 0\<rparr>"

section \<open>slob_free\<close>

partial_function (option) free_place :: "slob \<Rightarrow> nat \<Rightarrow> nat \<Rightarrow> nat option" where
  "free_place s b cur =
     (if b > cur \<and> b < next_of s cur then Some cur
      else if cur \<ge> next_of s cur \<and> (b > cur \<or> b < next_of s cur) then Some cur
      else free_place s b (next_of s cur))"

definition slob_free :: "slob \<Rightarrow> nat \<Rightarrow> nat \<Rightarrow> slob option" where
  "slob_free s b sz =
     (if b = 0 then Some s
      else do {
        let s = (if sz \<noteq> 0 then set_units b (SLOB_UNITS sz) s else s);
        cur \<leftarrow> free_place s b (slobfree s);
        let s = (if slob_at b (units s b) = next_of s cur
                 then set_next b (next_of s (next_of s cur)) (set_units b (units s b + units s (next_of s cur)) s)
                 else set_next b (next_of s cur) s);
        let s = (if slob_at cur (units s cur) = b
                 then set_next cur (next_of s b) (set_units cur (units s cur + units s b) s)
                 else set_next cur b s);
        Some (s\<lparr>slobfree := cur\<rparr>)
      })"

section \<open>slob_alloc\<close>

definition ALIGN :: "nat \<Rightarrow> nat \<Rightarrow> nat" where
  "ALIGN addr sz = unat (((of_nat addr + of_nat sz - 1) AND NOT (of_nat sz - 1)) :: 64 word)"

partial_function (option) slob_loop ::
  "slob \<Rightarrow> nat \<Rightarrow> nat \<Rightarrow> nat \<Rightarrow> nat \<Rightarrow> nat \<Rightarrow> nat option list \<Rightarrow> (nat \<times> slob \<times> nat option list) option" where
  "slob_loop s sz n align prev cur pages =
     (let aligned = (if align \<noteq> 0 then ALIGN cur align else 0);
          delta = (if align \<noteq> 0 then (aligned - cur) div SLOB_UNIT else 0)
      in if units s cur \<ge> n + delta then
        (let (s, prev, cur) =
           (if delta \<noteq> 0 then
              (let s = set_units aligned (units s cur - delta) s;
                   s = set_next aligned (next_of s cur) s;
                   s = set_next cur aligned s;
                   s = set_units cur delta s
               in (s, cur, aligned))
            else (s, prev, cur));
           s = (if units s cur = n then set_next prev (next_of s cur) s
                else (let rest = slob_at cur n;
                          s = set_next prev rest s;
                          s = set_units rest (units s cur - n) s;
                          s = set_next rest (next_of s cur) s
                      in set_units cur n s))
         in Some (cur, s\<lparr>slobfree := prev\<rparr>, pages))
      else if cur = slobfree s then
        (if sz = PAGE_SIZE then Some (0, s, pages)
         else (case pages of
             Some p # pages \<Rightarrow> do {
               s \<leftarrow> slob_free s p PAGE_SIZE;
               slob_loop s sz n align (slobfree s) (next_of s (slobfree s)) pages
             }
           | _ \<Rightarrow> Some (0, s, tl pages)))
      else slob_loop s sz n align cur (next_of s cur) pages)"

definition slob_alloc :: "slob \<Rightarrow> nat \<Rightarrow> nat \<Rightarrow> nat option list \<Rightarrow> (nat \<times> slob \<times> nat option list) option" where
  "slob_alloc s sz align pages = do {
     kassert (sz + SLOB_UNIT < PAGE_SIZE);
     slob_loop s sz (SLOB_UNITS sz) align (slobfree s) (next_of s (slobfree s)) pages
   }"

section \<open>kmalloc and kfree\<close>

fun find_order :: "nat \<Rightarrow> nat" where
  "find_order sz = (if sz > 4096 then find_order (sz div 2) + 1 else 0)"

declare find_order.simps [simp del]

definition kmalloc :: "slob \<Rightarrow> nat \<Rightarrow> nat option list \<Rightarrow> (nat \<times> slob \<times> nat option list) option" where
  "kmalloc s sz pages =
     (if sz < PAGE_SIZE - SLOB_UNIT then do {
        (m, s, pages) \<leftarrow> slob_alloc s (sz + SLOB_UNIT) 0 pages;
        Some (if m \<noteq> 0 then slob_at m 1 else 0, s, pages)
      } else do {
        (bb, s, pages) \<leftarrow> slob_alloc s BIGBLOCK_SIZE 0 pages;
        if bb = 0 then Some (0, s, pages)
        else do {
          let s = s\<lparr>bb_order := (bb_order s)(bb := find_order sz)\<rparr>;
          case pages of
            Some p # pages \<Rightarrow>
              Some (p, s\<lparr>bb_pages := (bb_pages s)(bb := p), bb_next := (bb_next s)(bb := bigblocks s), bigblocks := bb\<rparr>, pages)
          | _ \<Rightarrow> do { s \<leftarrow> slob_free (s\<lparr>bb_pages := (bb_pages s)(bb := 0)\<rparr>) bb BIGBLOCK_SIZE; Some (0, s, tl pages) }
        }
      })"

text \<open>The list of large blocks, up to the one of \<open>block\<close>: its predecessor and the block itself.\<close>

partial_function (option) big_find :: "slob \<Rightarrow> nat \<Rightarrow> nat option \<Rightarrow> nat \<Rightarrow> (nat option \<times> nat) option" where
  "big_find s block last_bb bb =
     (if bb = 0 then Some (last_bb, 0)
      else if bb_pages s bb = block then Some (last_bb, bb)
      else big_find s block (Some bb) (bb_next s bb))"

text \<open>The result also holds the pages that are given back, by address and order.\<close>

definition kfree :: "slob \<Rightarrow> nat \<Rightarrow> (slob \<times> (nat \<times> nat) option) option" where
  "kfree s block =
     (if block = 0 then Some (s, None)
      else do {
        (last_bb, bb) \<leftarrow> (if block mod PAGE_SIZE = 0 then big_find s block None (bigblocks s) else Some (None, 0));
        if bb \<noteq> 0 then do {
          let s = (case last_bb of None \<Rightarrow> s\<lparr>bigblocks := bb_next s bb\<rparr> | Some l \<Rightarrow> s\<lparr>bb_next := (bb_next s)(l := bb_next s bb)\<rparr>);
          let ord = bb_order s bb;
          s \<leftarrow> slob_free s bb BIGBLOCK_SIZE;
          Some (s, Some (block, ord))
        } else do { s \<leftarrow> slob_free s (block - SLOB_UNIT) 0; Some (s, None) }
      })"

definition ksize :: "slob \<Rightarrow> nat \<Rightarrow> nat option" where
  "ksize s block =
     (if block = 0 then Some 0
      else do {
        (_, bb) \<leftarrow> (if block mod PAGE_SIZE = 0 then big_find s block None (bigblocks s) else Some (None, 0));
        if bb \<noteq> 0 then Some (PAGE_SIZE * 2 ^ bb_order s bb)
        else Some (units s (block - SLOB_UNIT) * SLOB_UNIT)
      })"

section \<open>Rings in address order\<close>

text \<open>\<open>y\<close> follows \<open>a\<close> in the ring of the set \<open>A\<close>.\<close>

definition is_succ :: "nat set \<Rightarrow> nat \<Rightarrow> nat \<Rightarrow> bool" where
  "is_succ A a y \<longleftrightarrow> y \<in> A \<and> (a < y \<and> (\<forall>x \<in> A. a < x \<longrightarrow> y \<le> x) \<or> (\<forall>x \<in> A. x \<le> a) \<and> (\<forall>x \<in> A. y \<le> x))"

definition ring :: "(nat \<Rightarrow> nat) \<Rightarrow> nat set \<Rightarrow> bool" where
  "ring nx A \<longleftrightarrow> finite A \<and> (\<forall>a \<in> A. is_succ A a (nx a))"

lemma ring_cong: "(\<And>a. a \<in> A \<Longrightarrow> f a = g a) \<Longrightarrow> ring f A = ring g A"
  by (simp add: ring_def)

lemma ring_closed: "ring nx A \<Longrightarrow> a \<in> A \<Longrightarrow> nx a \<in> A"
  by (simp add: ring_def is_succ_def)

lemma ring_insert:
  assumes r: "ring nx A" and p: "p \<in> A" "p < b" "b \<notin> A" "\<forall>x \<in> A. x < b \<longrightarrow> x \<le> p"
  shows "ring (nx(p := b, b := nx p)) (insert b A)"
proof -
  have "is_succ (insert b A) a ((nx(p := b, b := nx p)) a)" if "a \<in> insert b A" for a
  proof (cases "a = b")
    case True
    have "is_succ A p (nx p)" using r p by (simp add: ring_def)
    then have n: "nx p \<in> A" "p < nx p \<and> (\<forall>x \<in> A. p < x \<longrightarrow> nx p \<le> x) \<or> (\<forall>x \<in> A. x \<le> p) \<and> (\<forall>x \<in> A. nx p \<le> x)"
      by (auto simp: is_succ_def)
    from n(2) have "is_succ (insert b A) b (nx p)"
    proof
      assume u: "p < nx p \<and> (\<forall>x \<in> A. p < x \<longrightarrow> nx p \<le> x)"
      have "nx p \<noteq> b" using n(1) p(3) by blast
      moreover have "\<not> nx p < b" using n(1) p(4) u by (meson not_le)
      ultimately have "b < nx p" by simp
      moreover have "nx p \<le> x" if "x \<in> A" "b < x" for x using u that p(2) by simp
      ultimately show ?thesis using n(1) by (auto simp: is_succ_def)
    next
      assume w: "(\<forall>x \<in> A. x \<le> p) \<and> (\<forall>x \<in> A. nx p \<le> x)"
      then have "\<forall>x \<in> A. x \<le> b" "nx p \<le> b" using p by (auto intro: less_imp_le less_le_trans)
      then show ?thesis using w n(1) by (auto simp: is_succ_def)
    qed
    then show ?thesis using True by simp
  next
    case a: False
    show ?thesis
    proof (cases "a = p")
      case True
      then show ?thesis using p unfolding is_succ_def by (auto simp: not_le)
    next
      case False
      have ap: "a < p" if "a < b" using p(4) \<open>a \<in> insert b A\<close> a False that by (auto simp: order_less_le)
      have s: "is_succ A a (nx a)" "a \<in> A" using r that a by (simp_all add: ring_def)
      then have nx: "nx a \<in> A" by (simp add: is_succ_def)
      from s(1) have "a < nx a \<and> (\<forall>x \<in> A. a < x \<longrightarrow> nx a \<le> x) \<or> (\<forall>x \<in> A. x \<le> a) \<and> (\<forall>x \<in> A. nx a \<le> x)"
        by (simp add: is_succ_def)
      then have "is_succ (insert b A) a (nx a)"
      proof
        assume u: "a < nx a \<and> (\<forall>x \<in> A. a < x \<longrightarrow> nx a \<le> x)"
        have "nx a \<le> b" if "a < b" using u ap [OF that] p(1,2) by (meson le_less_trans less_imp_le)
        then show ?thesis using u nx unfolding is_succ_def by blast
      next
        assume w: "(\<forall>x \<in> A. x \<le> a) \<and> (\<forall>x \<in> A. nx a \<le> x)"
        then have "b \<le> a" using ap p(1) by (meson not_le)
        moreover have "nx a \<le> b" using w p(1,2) by (meson le_less_trans less_imp_le)
        ultimately show ?thesis using w nx unfolding is_succ_def by blast
      qed
      then show ?thesis using False a by simp
    qed
  qed
  then show ?thesis using r by (simp add: ring_def)
qed

lemma ring_remove:
  assumes r: "ring nx A" and p: "p \<in> A" "nx p = c" "p < c"
  shows "ring (nx(p := nx c)) (A - {c})"
proof -
  have c: "c \<in> A" "is_succ A p c" "is_succ A c (nx c)" using r p ring_closed [OF r p(1)] by (auto simp: ring_def)
  have "is_succ (A - {c}) a ((nx(p := nx c)) a)" if a: "a \<in> A - {c}" for a
  proof (cases "a = p")
    case True
    have pc: "c \<le> x" if "x \<in> A" "p < x" for x using c(2) that p(3) unfolding is_succ_def by (meson not_le)
    have "nx c \<in> A" "c < nx c \<and> (\<forall>x \<in> A. c < x \<longrightarrow> nx c \<le> x) \<or> (\<forall>x \<in> A. x \<le> c) \<and> (\<forall>x \<in> A. nx c \<le> x)"
      using c(3) by (auto simp: is_succ_def)
    then have "is_succ (A - {c}) p (nx c)"
    proof (elim disjE)
      assume u: "c < nx c \<and> (\<forall>x \<in> A. c < x \<longrightarrow> nx c \<le> x)"
      have "nx c \<le> x" if "x \<in> A - {c}" "p < x" for x using u pc [of x] that by (auto simp: order_less_le)
      then show ?thesis using u p(3) \<open>nx c \<in> A\<close> unfolding is_succ_def by (auto intro: less_trans)
    next
      assume w: "(\<forall>x \<in> A. x \<le> c) \<and> (\<forall>x \<in> A. nx c \<le> x)"
      then have "nx c < c" using p(1,3) by (meson le_less_trans)
      moreover have "x \<le> p" if "x \<in> A - {c}" for x using w pc [of x] that by (auto simp: not_le [symmetric] intro: antisym)
      ultimately show ?thesis using w \<open>nx c \<in> A\<close> unfolding is_succ_def by auto
    qed
    then show ?thesis using True by simp
  next
    case False
    then have s: "is_succ A a (nx a)" using r a by (simp add: ring_def)
    have "nx a \<noteq> c" using s c(2) p False a unfolding is_succ_def by (metis Diff_iff le_less_trans less_le_not_le linorder_neqE_nat)
    then show ?thesis using s False unfolding is_succ_def by auto
  qed
  then show ?thesis using r by (simp add: ring_def)
qed

text \<open>Every block is reached from every other.\<close>

lemma reach_up:
  assumes r: "ring nx A" and "c \<in> A" "a \<in> A" "c \<le> a"
  shows "\<exists>k. (nx ^^ k) c = a"
  using assms(2-4)
proof (induction "card {x \<in> A. c < x \<and> x \<le> a}" arbitrary: c rule: less_induct)
  case less
  show ?case
  proof (cases "c = a")
    case True
    then show ?thesis by (intro exI [of _ 0]) simp
  next
    case False
    then have lt: "c < a" using less.prems by simp
    have "is_succ A c (nx c)" using r less.prems by (simp add: ring_def)
    then have n: "nx c \<in> A" "c < nx c" "nx c \<le> a" using lt less.prems unfolding is_succ_def by (auto simp: not_le)
    have fin: "finite A" using r by (simp add: ring_def)
    have "{x \<in> A. nx c < x \<and> x \<le> a} \<subset> {x \<in> A. c < x \<and> x \<le> a}" using n by auto
    then have "card {x \<in> A. nx c < x \<and> x \<le> a} < card {x \<in> A. c < x \<and> x \<le> a}" using fin by (intro psubset_card_mono) auto
    then obtain k where "(nx ^^ k) (nx c) = a" using less.hyps n less.prems by blast
    then have "(nx ^^ Suc k) c = a" by (simp add: funpow_swap1)
    then show ?thesis by blast
  qed
qed

lemma reach:
  assumes r: "ring nx A" and "c \<in> A" "a \<in> A"
  shows "\<exists>k. (nx ^^ k) c = a"
proof (cases "c \<le> a")
  case True
  then show ?thesis by (rule reach_up [OF assms])
next
  case False
  have fin: "finite A" "A \<noteq> {}" using assms by (auto simp: ring_def)
  obtain k where k: "(nx ^^ k) c = Max A" using reach_up [OF r assms(2) Max_in [OF fin]] fin assms(2) by auto
  have "is_succ A (Max A) (nx (Max A))" using r fin by (simp add: ring_def)
  then have n: "nx (Max A) \<in> A" "nx (Max A) \<le> a" using fin assms(3) unfolding is_succ_def by (auto dest: Max_ge [OF fin(1)])
  obtain j where "(nx ^^ j) (nx (Max A)) = a" using reach_up [OF r n(1) assms(3) n(2)] by blast
  then have "(nx ^^ (Suc j + k)) c = a" using k by (simp add: funpow_add funpow_swap1)
  then show ?thesis by blast
qed

section \<open>Blocks\<close>

definition slob_end :: "(nat \<Rightarrow> nat) \<Rightarrow> nat \<Rightarrow> nat" where
  "slob_end u a = a + SLOB_UNIT * u a"

definition region :: "(nat \<Rightarrow> nat) \<Rightarrow> nat set \<Rightarrow> nat set" where
  "region u A = (\<Union>a \<in> A. {a ..< slob_end u a})"

text \<open>No block reaches into the next, and those that touch it are in \<open>T\<close>.\<close>

definition apart_but :: "(nat \<Rightarrow> nat) \<Rightarrow> nat set \<Rightarrow> (nat \<times> nat) set \<Rightarrow> bool" where
  "apart_but u A T \<longleftrightarrow> (\<forall>x \<in> A. u x > 0) \<and> (\<forall>x \<in> A. \<forall>y \<in> A. x < y \<longrightarrow> slob_end u x \<le> y \<and> (slob_end u x = y \<longrightarrow> (x, y) \<in> T))"

lemma apart_cong: "(\<And>a. a \<in> A \<Longrightarrow> u a = v a) \<Longrightarrow> apart_but u A T = apart_but v A T \<and> region u A = region v A"
  by (simp add: apart_but_def region_def slob_end_def)

lemma apart_merge:
  assumes a: "apart_but u A T" and p: "p \<in> A" "c \<in> A" "slob_end u p = c" "u p > 0"
  shows "apart_but (u(p := u p + u c)) (A - {c}) ({(x, y) \<in> T. y \<noteq> c} \<union> {(p, y) |y. (c, y) \<in> T})"
    and "region (u(p := u p + u c)) (A - {c}) = region u A"
proof -
  let ?u = "u(p := u p + u c)"
  have lt: "p < c" using p by (simp add: slob_end_def SLOB_UNIT_def)
  have e: "slob_end ?u p = slob_end u c" using p(3) by (simp add: slob_end_def algebra_simps)
  have e': "slob_end ?u x = slob_end u x" if "x \<noteq> p" for x using that by (simp add: slob_end_def)
  have "slob_end ?u x \<le> y \<and> (slob_end ?u x = y \<longrightarrow> (x, y) \<in> {(x, y) \<in> T. y \<noteq> c} \<union> {(p, y) |y. (c, y) \<in> T})"
    if xy: "x \<in> A - {c}" "y \<in> A - {c}" "x < y" for x y
  proof (cases "x = p")
    case True
    have "slob_end u p \<le> y" using a p xy True by (auto simp: apart_but_def)
    then have "c < y" using p(3) xy by simp
    then have "slob_end u c \<le> y \<and> (slob_end u c = y \<longrightarrow> (c, y) \<in> T)" using a p(2) xy by (auto simp: apart_but_def)
    then show ?thesis using True e by auto
  next
    case False
    then show ?thesis using a xy e' [OF False] by (auto simp: apart_but_def)
  qed
  then show "apart_but ?u (A - {c}) ({(x, y) \<in> T. y \<noteq> c} \<union> {(p, y) |y. (c, y) \<in> T})"
    using a by (simp add: apart_but_def)
  have "{p ..< slob_end u c} = {p ..< slob_end u p} \<union> {c ..< slob_end u c}"
    unfolding p(3) by (rule ivl_disj_un_two(3) [symmetric]) (use lt in \<open>simp_all add: slob_end_def\<close>)
  moreover have "region ?u (A - {c}) = {p ..< slob_end ?u p} \<union> region u (A - {c} - {p})"
  proof -
    have "A - {c} = insert p (A - {c} - {p})" using p(1) lt by auto
    then have "region ?u (A - {c}) = {p ..< slob_end ?u p} \<union> region ?u (A - {c} - {p})" by (metis region_def UN_insert)
    moreover have "region ?u (A - {c} - {p}) = region u (A - {c} - {p})" unfolding region_def by (rule SUP_cong) (simp_all add: e')
    ultimately show ?thesis by simp
  qed
  moreover have "region u A = {p ..< slob_end u p} \<union> {c ..< slob_end u c} \<union> region u (A - {c} - {p})"
  proof -
    have "A = insert p (insert c (A - {c} - {p}))" using p(1,2) by auto
    then have "region u A = {p ..< slob_end u p} \<union> ({c ..< slob_end u c} \<union> region u (A - {c} - {p}))" by (metis region_def UN_insert)
    then show ?thesis by blast
  qed
  ultimately show "region ?u (A - {c}) = region u A" unfolding e by simp
qed

lemma apart_insert:
  assumes a: "apart_but u A {}" and b: "b \<notin> A" "0 < u b" "\<forall>x \<in> A. slob_end u x \<le> b \<or> slob_end u b \<le> x"
  shows "apart_but u (insert b A) ({(x, b) |x. slob_end u x = b} \<union> {(b, x) |x. slob_end u b = x})"
proof -
  let ?T = "{(x, b) |x. slob_end u x = b} \<union> {(b, x) |x. slob_end u b = x}"
  have ge: "x \<le> slob_end u x" for x by (simp add: slob_end_def)
  have gt: "b < slob_end u b" using b(2) by (simp add: slob_end_def SLOB_UNIT_def)
  have "slob_end u x \<le> y \<and> (slob_end u x = y \<longrightarrow> (x, y) \<in> ?T)" if xy: "x \<in> insert b A" "y \<in> insert b A" "x < y" for x y
  proof -
    consider "x = b" "y \<in> A" | "y = b" "x \<in> A" | "x \<in> A" "y \<in> A" using xy by auto
    then show ?thesis
    proof cases
      case 1
      then have "\<not> slob_end u y \<le> b" using ge [of y] xy(3) by simp
      then show ?thesis using 1 b(3) by auto
    next
      case 2
      then have "\<not> slob_end u b \<le> x" using gt xy(3) by simp
      then show ?thesis using 2 b(3) by auto
    next
      case 3
      then show ?thesis using a xy(3) by (simp add: apart_but_def)
    qed
  qed
  then show ?thesis using a b(2) by (simp add: apart_but_def)
qed

section \<open>Freeing\<close>

text \<open>The free blocks are \<open>A\<close>; the first of them is \<open>arena\<close>, one unit that is never handed out.\<close>

definition slob_ok :: "nat \<Rightarrow> slob \<Rightarrow> nat set \<Rightarrow> bool" where
  "slob_ok arena s A \<longleftrightarrow> ring (next_of s) A \<and> slobfree s \<in> A \<and> apart_but (units s) A {} \<and> arena \<in> A \<and> units s arena = 1
     \<and> (\<forall>a \<in> A. arena \<le> a) \<and> 0 < arena"

abbreviation free_bytes :: "slob \<Rightarrow> nat set \<Rightarrow> nat set" where
  "free_bytes s A \<equiv> region (units s) A"

definition same_big :: "slob \<Rightarrow> slob \<Rightarrow> bool" where
  "same_big s s' \<longleftrightarrow> bb_order s' = bb_order s \<and> bb_pages s' = bb_pages s \<and> bb_next s' = bb_next s \<and> bigblocks s' = bigblocks s"

lemma start_ok: "0 < arena \<Longrightarrow> slob_ok arena (slob_start arena) {arena}"
  by (simp add: slob_ok_def slob_start_def ring_def is_succ_def apart_but_def)

definition pred_of :: "nat set \<Rightarrow> nat \<Rightarrow> nat \<Rightarrow> bool" where
  "pred_of A b p \<longleftrightarrow> p \<in> A \<and> p < b \<and> (\<forall>x \<in> A. x < b \<longrightarrow> x \<le> p)"

lemma pred_exists:
  assumes "finite A" "arena \<in> A" "arena < b"
  shows "\<exists>p. pred_of A b p"
proof -
  have f: "finite {x \<in> A. x < b}" "{x \<in> A. x < b} \<noteq> {}" using assms by auto
  have "pred_of A b (Max {x \<in> A. x < b})" unfolding pred_of_def using Max_in [OF f] Max_ge [OF f(1)] by auto
  then show ?thesis by blast
qed

lemma free_place_ok:
  assumes r: "ring (next_of s) A" and b: "b \<notin> A" "pred_of A b p" "\<forall>a \<in> A. arena \<le> a" "arena < b" and cur: "cur \<in> A"
  shows "free_place s b cur = Some p"
proof -
  have p: "p \<in> A" "p < b" "\<And>x. x \<in> A \<Longrightarrow> x < b \<Longrightarrow> x \<le> p" using b(2) by (auto simp: pred_of_def)
  have here: "b > p \<and> b < next_of s p \<or> p \<ge> next_of s p \<and> (b > p \<or> b < next_of s p)"
  proof -
    have n: "is_succ A p (next_of s p)" using r p by (simp add: ring_def)
    show ?thesis
    proof (cases "p < next_of s p")
      case True
      then have "\<not> next_of s p < b" using p(3) [of "next_of s p"] n by (auto simp: is_succ_def)
      moreover have "next_of s p \<noteq> b" using n b(1) by (auto simp: is_succ_def)
      ultimately show ?thesis using p(2) by simp
    qed (use p(2) in simp)
  qed
  have stop: "free_place s b p = Some p" using here by (subst free_place.simps) auto
  have pass: "\<not> (b > c \<and> b < next_of s c)" "\<not> (c \<ge> next_of s c \<and> (b > c \<or> b < next_of s c))" if c: "c \<in> A" "c \<noteq> p" for c
  proof -
    have n: "next_of s c \<in> A" "c < next_of s c \<and> (\<forall>x \<in> A. c < x \<longrightarrow> next_of s c \<le> x) \<or> (\<forall>x \<in> A. x \<le> c) \<and> (\<forall>x \<in> A. next_of s c \<le> x)"
      using r c by (auto simp: ring_def is_succ_def)
    show "\<not> (b > c \<and> b < next_of s c)"
    proof
      assume l: "b > c \<and> b < next_of s c"
      then have "c < p" using p(3) [OF c(1)] c(2) by simp
      moreover have "c < next_of s c" using l by simp
      ultimately have "next_of s c \<le> p" using n p(1) by auto
      then show False using l p(2) by simp
    qed
    show "\<not> (c \<ge> next_of s c \<and> (b > c \<or> b < next_of s c))"
    proof
      assume l: "c \<ge> next_of s c \<and> (b > c \<or> b < next_of s c)"
      then have m: "\<forall>x \<in> A. x \<le> c" "\<forall>x \<in> A. next_of s c \<le> x" using n by auto
      have "arena \<le> next_of s c" "next_of s c \<le> p" using b(3) n(1) m(2) p(1) by auto
      then have "\<not> b < next_of s c" using p(2) by simp
      then have "c < b" using l by simp
      then have "c \<le> p" by (rule p(3) [OF c(1)])
      then show False using m(1) p(1) c(2) by force
    qed
  qed
  obtain k where "(next_of s ^^ k) cur = p" using reach [OF r cur p(1)] by blast
  then show ?thesis using cur
  proof (induction k arbitrary: cur)
    case 0
    then show ?case using stop by simp
  next
    case (Suc k)
    show ?case
    proof (cases "cur = p")
      case True
      then show ?thesis using stop by simp
    next
      case False
      have "free_place s b (next_of s cur) = Some p"
        using Suc.IH [of "next_of s cur"] Suc.prems ring_closed [OF r Suc.prems(2)] by (simp add: funpow_swap1)
      then show ?thesis using pass [OF Suc.prems(2) False] by (subst free_place.simps) auto
    qed
  qed
qed

definition freed_units :: "slob \<Rightarrow> nat \<Rightarrow> nat \<Rightarrow> nat \<Rightarrow> nat" where
  "freed_units s b sz = (if sz \<noteq> 0 then (units s)(b := SLOB_UNITS sz) else units s)"

lemma slob_free_ok:
  assumes ok: "slob_ok arena s A" and b: "slob_end (units s) arena < b"
    and u: "0 < freed_units s b sz b" "\<forall>x \<in> A. slob_end (units s) x \<le> b \<or> slob_end (freed_units s b sz) b \<le> x"
  shows "\<exists>s' A'. slob_free s b sz = Some s' \<and> slob_ok arena s' A' \<and> same_big s s'
    \<and> free_bytes s' A' = free_bytes s A \<union> {b ..< slob_end (freed_units s b sz) b}"
proof -
  define s1 where "s1 = (if sz \<noteq> 0 then set_units b (SLOB_UNITS sz) s else s)"
  have s1: "units s1 = freed_units s b sz" "next_of s1 = next_of s" "slobfree s1 = slobfree s" "same_big s s1"
    by (simp_all add: s1_def freed_units_def set_units_def same_big_def)
  let ?u = "units s1" and ?nx = "next_of s1"
  have A: "ring (next_of s) A" "slobfree s \<in> A" "apart_but (units s) A {}" "arena \<in> A" "units s arena = 1" "\<forall>a \<in> A. arena \<le> a" "0 < arena"
    using ok by (simp_all add: slob_ok_def)
  have gt: "arena < b" using b A(5) by (simp add: slob_end_def SLOB_UNIT_def)
  have pos: "0 < units s a" if "a \<in> A" for a using A(3) that by (simp add: apart_but_def)
  have nb: "b \<notin> A"
  proof
    assume "b \<in> A"
    then show False using u pos [of b] by (auto simp: slob_end_def SLOB_UNIT_def)
  qed
  have uA: "?u a = units s a" if "a \<in> A" for a using that nb by (auto simp: s1 freed_units_def)
  have ap: "apart_but ?u A {}" "region ?u A = free_bytes s A" using apart_cong [of A ?u "units s" "{}"] uA A(3) by auto
  have dis: "\<forall>x \<in> A. slob_end ?u x \<le> b \<or> slob_end ?u b \<le> x" using u(2) uA by (simp add: slob_end_def s1(1))
  obtain p where p: "pred_of A b p" using pred_exists [of A arena b] A gt by (auto simp: ring_def)
  then have p': "p \<in> A" "p < b" "\<forall>x \<in> A. x < b \<longrightarrow> x \<le> p" by (auto simp: pred_of_def)
  have "ring ?nx A" "slobfree s1 \<in> A" using A by (simp_all add: s1)
  from free_place_ok [OF this(1) nb p A(6) gt this(2)] have place: "free_place s1 b (slobfree s1) = Some p" .
  define n where "n = ?nx p"
  have nA: "n \<in> A" "n \<noteq> b" "n \<noteq> p \<or> \<not> slob_end ?u b = n"
    using ring_closed [OF A(1) p'(1)] nb p'(2) by (auto simp: n_def s1 slob_end_def)
  \<comment> \<open>the block goes in\<close>
  let ?A1 = "insert b A" and ?n1 = "?nx(p := b, b := n)"
  have r1: "ring ?n1 ?A1" unfolding n_def by (rule ring_insert) (use A(1) p' nb in \<open>simp_all add: s1\<close>)
  define T where "T = {(x, b) |x. slob_end ?u x = b} \<union> {(b, x) |x. slob_end ?u b = x}"
  have a1: "apart_but ?u ?A1 T" unfolding T_def by (rule apart_insert [OF ap(1) nb]) (use u(1) dis in \<open>simp_all add: s1\<close>)
  have f1: "region ?u ?A1 = free_bytes s A \<union> {b ..< slob_end ?u b}" using ap(2) by (auto simp: region_def)
  \<comment> \<open>the block behind it is merged\<close>
  define R where "R \<longleftrightarrow> slob_end ?u b = n"
  define A2 where "A2 = (if R then ?A1 - {n} else ?A1)"
  define u2 where "u2 = (if R then ?u(b := ?u b + ?u n) else ?u)"
  define n2 where "n2 = (if R then ?n1(b := ?nx n) else ?n1)"
  have npb: "R \<Longrightarrow> b < n \<and> n \<noteq> p \<and> n \<noteq> arena" using u(1) gt p'(2) by (auto simp: R_def s1 slob_end_def SLOB_UNIT_def)
  have r2: "ring n2 A2"
  proof (cases R)
    case True
    then have "ring (?n1(b := ?n1 n)) (?A1 - {n})" using ring_remove [OF r1, of b n] npb nA by simp
    then show ?thesis using True npb by (simp add: n2_def A2_def)
  qed (use r1 in \<open>simp add: n2_def A2_def\<close>)
  have nT: "y = n" if "R" "(b, y) \<in> T" for y using that nb by (auto simp: T_def R_def slob_end_def)
  have a2: "apart_but u2 A2 {(x, y) \<in> T. y = b}" "region u2 A2 = region ?u ?A1"
  proof -
    have "slob_end ?u b \<in> A \<Longrightarrow> R"
    proof -
      assume m: "slob_end ?u b \<in> A"
      have "b < slob_end ?u b" using u(1) by (simp add: s1 slob_end_def SLOB_UNIT_def)
      have "is_succ A p n" using A(1) p'(1) by (simp add: ring_def n_def s1)
      then have le: "n \<le> slob_end ?u b" using m \<open>b < slob_end ?u b\<close> p'(2) by (auto simp: is_succ_def)
      have "p < n" using \<open>is_succ A p n\<close> m \<open>b < slob_end ?u b\<close> p'(2) by (auto simp: is_succ_def)
      then have "\<not> n < b" using p'(3) nA(1) by auto
      then have "b < n" using nA(2) by simp
      then have "\<not> slob_end ?u n \<le> b" by (simp add: slob_end_def)
      then show R using dis nA(1) le unfolding R_def by force
    qed
    note m = this
    show "apart_but u2 A2 {(x, y) \<in> T. y = b}"
    proof (cases R)
      case True
      have "apart_but (?u(b := ?u b + ?u n)) (?A1 - {n}) ({(x, y) \<in> T. y \<noteq> n} \<union> {(b, y) |y. (n, y) \<in> T})"
        using True nA u(1) by (intro apart_merge(1) [OF a1]) (simp_all add: R_def s1)
      moreover have "{(x, y) \<in> T. y \<noteq> n} \<union> {(b, y) |y. (n, y) \<in> T} \<subseteq> {(x, y) \<in> T. y = b}"
      proof -
        have "b < n" using npb [OF True] by simp
        then have "slob_end ?u n \<noteq> b" by (simp add: slob_end_def)
        moreover have "y = n" if "(b, y) \<in> T" "y \<noteq> b" for y using that True by (auto simp: T_def R_def)
        ultimately show ?thesis using \<open>b < n\<close> by (auto simp: T_def)
      qed
      ultimately have "apart_but (?u(b := ?u b + ?u n)) (?A1 - {n}) {(x, y) \<in> T. y = b}"
        unfolding apart_but_def by (meson subsetD)
      then show ?thesis using True by (simp add: u2_def A2_def)
    next
      case False
      have "slob_end ?u b \<notin> A" using m False by blast
      then show ?thesis using False a1 unfolding u2_def A2_def apart_but_def by (simp only: if_False) (auto simp: T_def)
    qed
    show "region u2 A2 = region ?u ?A1"
    proof (cases R)
      case True
      have "region (?u(b := ?u b + ?u n)) (?A1 - {n}) = region ?u ?A1"
        using True nA u(1) by (intro apart_merge(2) [OF a1]) (simp_all add: R_def s1)
      then show ?thesis using True by (simp add: u2_def A2_def)
    qed (simp add: u2_def A2_def)
  qed
  \<comment> \<open>the block is merged with the one before it\<close>
  define L where "L \<longleftrightarrow> slob_end ?u p = b"
  define A3 where "A3 = (if L then A2 - {b} else A2)"
  define u3 where "u3 = (if L then u2(p := u2 p + u2 b) else u2)"
  define n3 where "n3 = (if L then n2(p := n2 b) else n2)"
  have k2: "u2 p = ?u p" "n2 p = b" "p \<in> A2" "b \<in> A2" using p' nA npb by (auto simp: u2_def n2_def A2_def)
  have r3: "ring n3 A3"
    using r2 ring_remove [OF r2 k2(3,2) p'(2)] by (auto simp: n3_def A3_def)
  have lt: "x = p" if "x \<in> A2" "(x, b) \<in> T" for x
  proof -
    have "x \<in> A" "slob_end ?u x = b" using that nb u(1) by (auto simp: T_def A2_def s1 slob_end_def SLOB_UNIT_def split: if_splits)
    then have "x < b" using pos uA by (auto simp: slob_end_def SLOB_UNIT_def)
    then have "x \<le> p" using p'(3) \<open>x \<in> A\<close> by blast
    moreover have "\<not> x < p" using ap(1) \<open>x \<in> A\<close> p' \<open>slob_end ?u x = b\<close> unfolding apart_but_def by force
    ultimately show ?thesis by simp
  qed
  have a3: "apart_but u3 A3 {}"
  proof (cases L)
    case True
    have "apart_but (u2(p := u2 p + u2 b)) (A2 - {b}) ({(x, y) \<in> {(x, y) \<in> T. y = b}. y \<noteq> b} \<union> {(p, y) |y. (b, y) \<in> {(x, y) \<in> T. y = b}})"
      using True k2 pos [OF p'(1)] uA [OF p'(1)] by (intro apart_merge(1) [OF a2(1)]) (simp_all add: L_def slob_end_def)
    moreover have "(b, b) \<notin> T" using u(1) by (auto simp: T_def s1 slob_end_def SLOB_UNIT_def)
    ultimately show ?thesis using True by (simp add: u3_def A3_def)
  next
    case False
    have "x \<noteq> p \<or> slob_end u2 x \<noteq> b" for x using False k2(1) by (auto simp: L_def slob_end_def)
    then show ?thesis using False a2(1) lt unfolding u3_def A3_def apart_but_def by (simp only: if_False) blast
  qed
  have f3: "region u3 A3 = region u2 A2"
  proof (cases L)
    case True
    have "region (u2(p := u2 p + u2 b)) (A2 - {b}) = region u2 A2"
      using True k2 pos [OF p'(1)] uA [OF p'(1)] by (intro apart_merge(2) [OF a2(1)]) (simp_all add: L_def slob_end_def)
    then show ?thesis using True by (simp add: u3_def A3_def)
  qed (simp add: u3_def A3_def)
  define s2 where "s2 = (if R then set_next b (?nx n) (set_units b (?u b + ?u n) s1) else set_next b n s1)"
  define s3 where "s3 = (if L then set_next p (next_of s2 b) (set_units p (units s2 p + units s2 b) s2) else set_next p b s2)\<lparr>slobfree := p\<rparr>"
  have u2e: "units s2 = u2" "next_of s2 b = n2 b" by (simp_all add: s2_def u2_def n2_def set_next_def set_units_def)
  have L': "slob_at p (units s2 p) = b \<longleftrightarrow> L" using k2(1) by (simp add: u2e(1) L_def slob_end_def slob_at_def)
  have R': "slob_at b (?u b) = n \<longleftrightarrow> R" by (simp add: R_def slob_end_def slob_at_def)
  have "slob_free s b sz = Some s3"
    using gt place L' R' unfolding slob_free_def s1_def [symmetric] n_def [symmetric]
    by (simp add: Let_def n_def [symmetric] s2_def [symmetric] s3_def cong: if_cong)
  moreover have "units s3 = u3" by (simp add: s3_def u3_def u2e set_next_def set_units_def)
  moreover have "next_of s3 = n3" using p'(2)
    by (auto simp: s3_def n3_def u2e(2) s2_def n2_def set_next_def set_units_def fun_eq_iff)
  moreover have "slobfree s3 = p" "same_big s s3"
    using s1(4) by (simp_all add: s3_def s2_def set_next_def set_units_def same_big_def)
  moreover have "arena \<noteq> b" "L \<Longrightarrow> p \<noteq> arena" using gt b A(4,5) uA by (auto simp: L_def slob_end_def)
  moreover have "arena \<in> A3" "u3 arena = 1" "p \<in> A3" "\<forall>a \<in> A3. arena \<le> a"
    using A(4-6) npb gt k2(3) p'(2) uA [OF A(4)] calculation(6,7) by (auto simp: A3_def A2_def u3_def u2_def)
  ultimately have "slob_free s b sz = Some s3 \<and> slob_ok arena s3 A3 \<and> same_big s s3 \<and> free_bytes s3 A3 = free_bytes s A \<union> {b ..< slob_end (freed_units s b sz) b}"
    using r3 a3 A(7) f1 f3 a2(2) by (simp add: slob_ok_def s1(1))
  then show ?thesis by blast
qed

end
