(* ===== verification/Kmalloc.thy ===== *)
theory Kmalloc
  imports Slob
begin

text \<open>
  What \<open>slob_alloc\<close>, \<open>kmalloc\<close> and \<open>kfree\<close> do to the free memory, and the number of pages of large blocks.
\<close>

section \<open>Allocating\<close>

text \<open>What taking \<open>n\<close> units of the block \<open>c\<close> leaves; \<open>p\<close> is the block before it.\<close>

definition taken :: "slob \<Rightarrow> nat \<Rightarrow> nat \<Rightarrow> nat \<Rightarrow> slob" where
  "taken s p c n =
     (if units s c = n then set_next p (next_of s c) s
      else (let rest = slob_at c n;
                s1 = set_next p rest s;
                s2 = set_units rest (units s1 c - n) s1
            in set_units c n (set_next rest (next_of s2 c) s2)))\<lparr>slobfree := p\<rparr>"

lemma slob_loop_take: "n \<le> units s c \<Longrightarrow> slob_loop s sz n 0 p c pages = Some (c, taken s p c n, pages)"
  by (subst slob_loop.simps) (simp add: taken_def Let_def)

lemma slob_loop_step:
  "units s c < n \<Longrightarrow> c \<noteq> slobfree s \<Longrightarrow> slob_loop s sz n 0 p c pages = slob_loop s sz n 0 c (next_of s c) pages"
  by (subst slob_loop.simps) (simp add: Let_def)

definition refill :: "slob \<Rightarrow> nat \<Rightarrow> nat \<Rightarrow> nat option list \<Rightarrow> (nat \<times> slob \<times> nat option list) option" where
  "refill s sz n pages = (case pages of
       Some p # pages \<Rightarrow> do { s \<leftarrow> slob_free s p PAGE_SIZE; slob_loop s sz n 0 (slobfree s) (next_of s (slobfree s)) pages }
     | _ \<Rightarrow> Some (0, s, tl pages))"

lemma slob_loop_refill:
  "units s c < n \<Longrightarrow> c = slobfree s \<Longrightarrow> sz \<noteq> PAGE_SIZE \<Longrightarrow> slob_loop s sz n 0 p c pages = refill s sz n pages"
  by (subst slob_loop.simps) (simp add: Let_def refill_def)

lemma taken_ok:
  assumes ok: "slob_ok arena s A" and p: "p \<in> A" "next_of s p = c" and n: "2 \<le> n" "n \<le> units s c"
  shows "\<exists>A'. slob_ok arena (taken s p c n) A' \<and> same_big s (taken s p c n) \<and> units (taken s p c n) c = n
    \<and> {c ..< c + SLOB_UNIT * n} \<subseteq> free_bytes s A \<and> free_bytes (taken s p c n) A' = free_bytes s A - {c ..< c + SLOB_UNIT * n} \<and> arena + SLOB_UNIT < c"
proof -
  have A: "ring (next_of s) A" "apart_but (units s) A {}" "arena \<in> A" "units s arena = 1" "\<forall>a \<in> A. arena \<le> a" "0 < arena"
    using ok by (simp_all add: slob_ok_def)
  have c: "c \<in> A" "c \<noteq> arena" using ring_closed [OF A(1) p(1)] p(2) A(4) n by auto
  then have ac: "arena < c" using A(5) by (metis le_neq_implies_less)
  have "is_succ A p c" using A(1) p by (auto simp: ring_def)
  then have pc: "p < c" "\<forall>x \<in> A. p < x \<longrightarrow> c \<le> x" using ac A(3) by (auto simp: is_succ_def)
  have gap: "slob_end (units s) x < y" if "x \<in> A" "y \<in> A" "x < y" for x y using A(2) that unfolding apart_but_def by (meson empty_iff le_neq_implies_less)
  have far: "arena + SLOB_UNIT < c" using gap [OF A(3) c(1) ac] A(4) by (simp add: slob_end_def)
  have pos: "0 < units s x" if "x \<in> A" for x using A(2) that by (simp add: apart_but_def)
  have out: "{x ..< slob_end (units s) x} \<inter> {c ..< slob_end (units s) c} = {}" if "x \<in> A" "x \<noteq> c" for x
    using gap [OF that(1) c(1)] gap [OF c(1) that(1)] that(2) by (cases "x < c") auto
  let ?n1 = "(next_of s)(p := next_of s c)" and ?A1 = "A - {c}" and ?e = "c + SLOB_UNIT * n"
  have r1: "ring ?n1 ?A1" by (rule ring_remove [OF A(1) p pc(1)])
  have f1: "free_bytes s A = region (units s) ?A1 \<union> {c ..< slob_end (units s) c}" using c(1) by (auto simp: region_def)
  have d1: "region (units s) ?A1 \<inter> {c ..< slob_end (units s) c} = {}"
  proof (intro equals0I)
    fix x assume x: "x \<in> region (units s) ?A1 \<inter> {c ..< slob_end (units s) c}"
    then obtain a where a: "a \<in> A" "a \<noteq> c" "x \<in> {a ..< slob_end (units s) a}" unfolding region_def by blast
    then show False using out [OF a(1,2)] x by blast
  qed
  have le: "?e \<le> slob_end (units s) c" using n(2) by (simp add: slob_end_def)
  have sub: "{c ..< ?e} \<subseteq> free_bytes s A" unfolding f1 by (rule subset_trans [OF _ Un_upper2]) (simp only: ivl_subset le order_refl, simp)
  have ap1: "apart_but (units s) ?A1 {}" using A(2) by (simp add: apart_but_def)
  show ?thesis
  proof (cases "units s c = n")
    case True
    then have t: "taken s p c n = (set_next p (next_of s c) s)\<lparr>slobfree := p\<rparr>" by (simp add: taken_def)
    have e: "?e = slob_end (units s) c" using True by (simp add: slob_end_def)
    have "slob_ok arena (taken s p c n) ?A1" using r1 p(1) pc(1) ap1 A(3-6) c(2) by (simp add: slob_ok_def t set_next_def)
    moreover have "free_bytes (taken s p c n) ?A1 = free_bytes s A - {c ..< ?e}" using f1 d1 by (auto simp: t set_next_def e)
    moreover have "same_big s (taken s p c n)" "units (taken s p c n) c = n" using True by (simp_all add: t same_big_def set_next_def)
    ultimately show ?thesis using sub far by blast
  next
    case False
    then have lt: "n < units s c" using n(2) by simp
    let ?r = "slob_at c n" and ?u = "(units s)(slob_at c n := units s c - n, c := n)"
    have r: "?r = ?e" "c < ?r" "?r < slob_end (units s) c" "p < ?r" using lt n pc(1) by (auto simp: slob_at_def slob_end_def SLOB_UNIT_def)
    have nr: "?r \<notin> A" using r gap [OF c(1), of ?r] by auto
    have er: "slob_end ?u ?r = slob_end (units s) c" using lt r by (simp add: slob_end_def slob_at_def algebra_simps)
    have t: "next_of (taken s p c n) = ?n1(p := ?r, ?r := next_of s c)" "units (taken s p c n) = ?u" "slobfree (taken s p c n) = p"
        "same_big s (taken s p c n)"
      using False r pc(1) by (auto simp: taken_def Let_def set_next_def set_units_def same_big_def fun_eq_iff)
    let ?A2 = "insert ?r ?A1"
    have uA: "?u a = units s a" if "a \<in> ?A1" for a using that nr by auto
    have ap: "apart_but ?u ?A1 {}" "region ?u ?A1 = region (units s) ?A1" using apart_cong [of ?A1 ?u "units s" "{}"] uA ap1 by auto
    have lst: "x \<le> p" if "x \<in> ?A1" "x < ?r" for x
      using pc(2) gap [OF c(1), of x] r(3) that by (cases "x < c") (force, force)
    have "ring (?n1(p := ?r, ?r := ?n1 p)) ?A2"
      by (rule ring_insert [OF r1]) (use p(1) pc(1) r(4) nr lst in auto)
    moreover have "(?n1(p := ?r, ?r := ?n1 p)) a = next_of (taken s p c n) a" if "a \<in> ?A2" for a
      using that r unfolding t by auto
    ultimately have rg: "ring (next_of (taken s p c n)) ?A2" using ring_cong [of ?A2] by blast
    have "apart_but ?u ?A2 {}"
      unfolding apart_but_def
    proof (intro conjI ballI impI)
      fix x assume "x \<in> ?A2" then show "0 < ?u x" using lt n(1) pos uA by (cases "x = ?r") auto
    next
      fix x y assume xy: "x \<in> ?A2" "y \<in> ?A2" "x < y"
      have "slob_end ?u x < y"
      proof (cases "x = ?r")
        case True
        then have "y \<in> A" "c < y" using xy r(2) by auto
        then show ?thesis using gap [OF c(1)] er True by simp
      next
        case x: False
        then have xA: "x \<in> ?A1" using xy(1) by simp
        have e: "slob_end ?u x = slob_end (units s) x" using uA [OF xA] by (simp add: slob_end_def)
        show ?thesis
        proof (cases "y = ?r")
          case True
          then have "x < c" using lst [OF xA] xy(3) pc(1) by simp
          then show ?thesis using gap [of x c] xA c(1) e r(2) True by simp
        qed (use xA xy gap e in auto)
      qed
      then show "slob_end ?u x \<le> y" "slob_end ?u x = y \<Longrightarrow> (x, y) \<in> {}" by simp_all
    qed
    then have "slob_ok arena (taken s p c n) ?A2"
      using rg t p(1) pc(1) A(3-6) c(2) nr r ac by (auto simp: slob_ok_def)
    moreover have "free_bytes (taken s p c n) ?A2 = free_bytes s A - {c ..< ?e}"
    proof -
      have "free_bytes (taken s p c n) ?A2 = {?r ..< slob_end (units s) c} \<union> region (units s) ?A1"
        using er ap(2) by (simp add: t(2) region_def)
      also have "\<dots> = free_bytes s A - {c ..< ?e}" using f1 d1 r le by auto
      finally show ?thesis .
    qed
    moreover have "units (taken s p c n) c = n" by (simp add: t(2))
    ultimately show ?thesis using sub far t(4) by blast
  qed
qed

text \<open>The search from the block after \<open>p\<close> finds the first block that is large enough, or comes back to \<open>slobfree\<close>.\<close>

lemma slob_walk:
  assumes r: "ring (next_of s) A" and "p \<in> A" "(next_of s ^^ k) (next_of s p) = slobfree s"
    "\<And>i. i < k \<Longrightarrow> (next_of s ^^ i) (next_of s p) \<noteq> slobfree s" and sz: "sz \<noteq> PAGE_SIZE"
  shows "(\<exists>q \<in> A. n \<le> units s (next_of s q)
      \<and> slob_loop s sz n 0 p (next_of s p) pages = Some (next_of s q, taken s q (next_of s q) n, pages))
    \<or> (\<forall>i \<le> k. units s ((next_of s ^^ i) (next_of s p)) < n) \<and> slob_loop s sz n 0 p (next_of s p) pages = refill s sz n pages"
  using assms(2-4)
proof (induction k arbitrary: p)
  case 0
  show ?case
  proof (cases "n \<le> units s (next_of s p)")
    case True
    then show ?thesis using slob_loop_take [OF True] 0(1) by blast
  next
    case False
    then have "slob_loop s sz n 0 p (next_of s p) pages = refill s sz n pages" using 0 sz by (intro slob_loop_refill) simp_all
    then show ?thesis using False by simp
  qed
next
  case (Suc k)
  let ?c = "next_of s p"
  have c: "?c \<in> A" using ring_closed [OF r] Suc.prems(1) by simp
  show ?case
  proof (cases "n \<le> units s ?c")
    case True
    then show ?thesis using slob_loop_take [OF True] Suc.prems(1) by blast
  next
    case small: False
    have nf: "(next_of s ^^ i) (next_of s ?c) \<noteq> slobfree s" if "i < k" for i
      using Suc.prems(3) [of "Suc i"] that by (simp add: funpow_swap1)
    have IH: "(\<exists>q \<in> A. n \<le> units s (next_of s q)
        \<and> slob_loop s sz n 0 ?c (next_of s ?c) pages = Some (next_of s q, taken s q (next_of s q) n, pages))
      \<or> (\<forall>i \<le> k. units s ((next_of s ^^ i) (next_of s ?c)) < n) \<and> slob_loop s sz n 0 ?c (next_of s ?c) pages = refill s sz n pages"
      using Suc.IH [OF c _ nf] Suc.prems(2) by (simp add: funpow_swap1)
    have st: "slob_loop s sz n 0 p ?c pages = slob_loop s sz n 0 ?c (next_of s ?c) pages"
      using small Suc.prems(3) [of 0] by (intro slob_loop_step) simp_all
    have all: "units s ((next_of s ^^ i) ?c) < n" if "\<forall>i \<le> k. units s ((next_of s ^^ i) (next_of s ?c)) < n" "i \<le> Suc k" for i
      using that small by (cases i) (simp_all add: funpow_swap1)
    from IH show ?thesis
    proof
      assume "\<exists>q \<in> A. n \<le> units s (next_of s q)
        \<and> slob_loop s sz n 0 ?c (next_of s ?c) pages = Some (next_of s q, taken s q (next_of s q) n, pages)"
      then show ?thesis unfolding st by (rule disjI1)
    next
      assume "(\<forall>i \<le> k. units s ((next_of s ^^ i) (next_of s ?c)) < n) \<and> slob_loop s sz n 0 ?c (next_of s ?c) pages = refill s sz n pages"
      then show ?thesis unfolding st using all by (intro disjI2) blast
    qed
  qed
qed

lemma slob_search:
  assumes ok: "slob_ok arena s A" and sz: "sz \<noteq> PAGE_SIZE"
  shows "(\<exists>q \<in> A. n \<le> units s (next_of s q)
      \<and> slob_loop s sz n 0 (slobfree s) (next_of s (slobfree s)) pages = Some (next_of s q, taken s q (next_of s q) n, pages))
    \<or> (\<forall>a \<in> A. units s a < n) \<and> slob_loop s sz n 0 (slobfree s) (next_of s (slobfree s)) pages = refill s sz n pages"
proof -
  have r: "ring (next_of s) A" and f: "slobfree s \<in> A" using ok by (simp_all add: slob_ok_def)
  let ?x = "next_of s (slobfree s)"
  have x: "?x \<in> A" by (rule ring_closed [OF r f])
  define k where "k = (LEAST k. (next_of s ^^ k) ?x = slobfree s)"
  have k: "(next_of s ^^ k) ?x = slobfree s" unfolding k_def by (rule LeastI_ex) (rule reach [OF r x f])
  have nk: "(next_of s ^^ i) ?x \<noteq> slobfree s" if "i < k" for i using that not_less_Least unfolding k_def by blast
  have "(next_of s ^^ Suc k) ?x = ?x" using k by simp
  note md = funpow_mod_eq [OF this]
  have all: "\<exists>i \<le> k. (next_of s ^^ i) ?x = a" if a: "a \<in> A" for a
  proof -
    obtain j where "(next_of s ^^ j) ?x = a" using reach [OF r x a] by blast
    then have "(next_of s ^^ (j mod Suc k)) ?x = a" using md [of j] by simp
    then show ?thesis by (metis le_less_Suc_eq less_Suc_eq_le mod_less_divisor zero_less_Suc)
  qed
  from slob_walk [OF r f k nk sz, of n pages] show ?thesis using all by metis
qed

lemma ivl_apart: "{a ..< b} \<inter> {c ..< d} = {} \<Longrightarrow> a < b \<Longrightarrow> c < d \<Longrightarrow> b \<le> c \<or> d \<le> (a :: nat)"
proof (rule ccontr)
  assume "{a ..< b} \<inter> {c ..< d} = {}" "a < b" "c < d" "\<not> (b \<le> c \<or> d \<le> a)"
  then have "max a c \<in> {a ..< b} \<inter> {c ..< d}" by auto
  then show False using \<open>{a ..< b} \<inter> {c ..< d} = {}\<close> by blast
qed

lemma region_apart:
  assumes "apart_but u A T" "region u A \<inter> {b ..< e} = {}" "b < e"
  shows "\<forall>x \<in> A. slob_end u x \<le> b \<or> e \<le> x"
proof
  fix x assume x: "x \<in> A"
  have "0 < u x" using assms(1) x by (simp add: apart_but_def)
  then have "x < slob_end u x" by (simp add: slob_end_def SLOB_UNIT_def)
  moreover have "{x ..< slob_end u x} \<inter> {b ..< e} = {}" using assms(2) x unfolding region_def by blast
  ultimately show "slob_end u x \<le> b \<or> e \<le> x" using assms(3) by (intro ivl_apart)
qed

text \<open>As no free blocks touch, a run of free bytes lies in one of them.\<close>

lemma run_in_block:
  assumes a: "apart_but u A {}" and r: "{p ..< p + m} \<subseteq> region u A" "0 < m"
  shows "\<exists>x \<in> A. x \<le> p \<and> p + m \<le> slob_end u x"
proof -
  have "p \<in> region u A" using r by auto
  then obtain x where x: "x \<in> A" "x \<le> p" "p < slob_end u x" by (auto simp: region_def)
  have "p + m \<le> slob_end u x"
  proof (rule ccontr)
    assume "\<not> p + m \<le> slob_end u x"
    then have "slob_end u x \<in> region u A" using r(1) x(3) by auto
    then obtain y where y: "y \<in> A" "y \<le> slob_end u x" "slob_end u x < slob_end u y" by (auto simp: region_def)
    then have "y \<noteq> x" by auto
    moreover have "\<not> x < y" using a x(1) y(1,2) unfolding apart_but_def by force
    moreover have "\<not> y < x" using a x y unfolding apart_but_def by fastforce
    ultimately show False by simp
  qed
  then show ?thesis using x by blast
qed

lemma slob_alloc_ok:
  assumes ok: "slob_ok arena s A" and sz: "16 < sz" "sz + SLOB_UNIT < PAGE_SIZE"
    and pg: "\<And>p ps. pages = Some p # ps \<Longrightarrow> slob_end (units s) arena < p \<and> free_bytes s A \<inter> {p ..< p + PAGE_SIZE} = {}"
  shows "\<exists>r s' pages' F. slob_alloc s sz 0 pages = Some (r, s', pages') \<and> same_big s s'
    \<and> F = free_bytes s A \<union> (if \<exists>a \<in> A. SLOB_UNITS sz \<le> units s a then {} else case pages of Some p # _ \<Rightarrow> {p ..< p + PAGE_SIZE} | _ \<Rightarrow> {})
    \<and> (if r = 0 then s' = s \<and> (\<forall>a \<in> A. units s a < SLOB_UNITS sz) \<and> (\<forall>p ps. pages \<noteq> Some p # ps)
       else arena + SLOB_UNIT < r \<and> units s' r = SLOB_UNITS sz \<and> {r ..< r + SLOB_UNIT * SLOB_UNITS sz} \<subseteq> F
         \<and> (\<exists>A'. slob_ok arena s' A' \<and> free_bytes s' A' = F - {r ..< r + SLOB_UNIT * SLOB_UNITS sz}))"
proof -
  let ?n = "SLOB_UNITS sz"
  have n: "2 \<le> ?n" "?n \<le> 256" "sz \<noteq> PAGE_SIZE" using sz by (simp_all add: SLOB_UNITS_def SLOB_UNIT_def PAGE_SIZE_def)
  have a: "slob_alloc s sz 0 pages = slob_loop s sz ?n 0 (slobfree s) (next_of s (slobfree s)) pages" using sz(2) by (simp add: slob_alloc_def)
  have ar: "0 < arena" using ok by (simp add: slob_ok_def)
  from slob_search [OF ok n(3), of ?n pages] show ?thesis
  proof
    assume "\<exists>q \<in> A. ?n \<le> units s (next_of s q)
      \<and> slob_loop s sz ?n 0 (slobfree s) (next_of s (slobfree s)) pages = Some (next_of s q, taken s q (next_of s q) ?n, pages)"
    then obtain q where q: "q \<in> A" "?n \<le> units s (next_of s q)"
      "slob_alloc s sz 0 pages = Some (next_of s q, taken s q (next_of s q) ?n, pages)" using a by auto
    have "\<exists>a \<in> A. ?n \<le> units s a" using q(1,2) ring_closed [of "next_of s" A q] ok by (auto simp: slob_ok_def)
    with taken_ok [OF ok q(1) refl n(1) q(2)] ar q(3) show ?thesis by auto
  next
    assume w: "(\<forall>a \<in> A. units s a < ?n) \<and> slob_loop s sz ?n 0 (slobfree s) (next_of s (slobfree s)) pages = refill s sz ?n pages"
    then have none: "\<not> (\<exists>a \<in> A. ?n \<le> units s a)" by auto
    show ?thesis
    proof (cases "\<exists>p ps. pages = Some p # ps")
      case False
      then have "refill s sz ?n pages = Some (0, s, tl pages)" by (auto simp: refill_def split: list.split option.split)
      then show ?thesis using a w none False by (auto simp: same_big_def)
    next
      case True
      then obtain p ps where p: "pages = Some p # ps" by blast
      note pg = pg [OF p]
      have u: "freed_units s p PAGE_SIZE p = 256" by (simp add: freed_units_def PAGE_SIZE_def SLOB_UNITS_def SLOB_UNIT_def)
      have e: "slob_end (freed_units s p PAGE_SIZE) p = p + PAGE_SIZE" unfolding slob_end_def u by (simp add: SLOB_UNIT_def PAGE_SIZE_def)
      have "\<forall>x \<in> A. slob_end (units s) x \<le> p \<or> slob_end (freed_units s p PAGE_SIZE) p \<le> x"
        unfolding e by (rule region_apart) (use ok pg in \<open>auto simp: slob_ok_def PAGE_SIZE_def\<close>)
      from slob_free_ok [OF ok conjunct1 [OF pg] _ this] u obtain s1 A1 where s1: "slob_free s p PAGE_SIZE = Some s1" "slob_ok arena s1 A1" "same_big s s1"
        "free_bytes s1 A1 = free_bytes s A \<union> {p ..< p + PAGE_SIZE}" unfolding e by auto
      have big: "\<exists>a \<in> A1. ?n \<le> units s1 a"
      proof -
        have "apart_but (units s1) A1 {}" using s1(2) by (simp add: slob_ok_def)
        moreover have "{p ..< p + PAGE_SIZE} \<subseteq> free_bytes s1 A1" using s1(4) by blast
        ultimately obtain x where "x \<in> A1" "x \<le> p" "p + PAGE_SIZE \<le> slob_end (units s1) x"
          using run_in_block [of "units s1" A1 p PAGE_SIZE] by (auto simp: PAGE_SIZE_def)
        then show ?thesis using n(2) by (intro bexI [of _ x]) (simp_all add: slob_end_def SLOB_UNIT_def PAGE_SIZE_def)
      qed
      from slob_search [OF s1(2) n(3), of ?n ps] big obtain q where q: "q \<in> A1" "?n \<le> units s1 (next_of s1 q)"
        "slob_loop s1 sz ?n 0 (slobfree s1) (next_of s1 (slobfree s1)) ps = Some (next_of s1 q, taken s1 q (next_of s1 q) ?n, ps)" by (auto simp: not_le [symmetric])
      have "slob_alloc s sz 0 pages = Some (next_of s1 q, taken s1 q (next_of s1 q) ?n, ps)"
        using a w q(3) s1(1) by (simp add: refill_def p)
      with taken_ok [OF s1(2) q(1) refl n(1) q(2)] ar s1(3,4) none p show ?thesis by (auto simp: same_big_def)
    qed
  qed
qed

section \<open>kmalloc and kfree together\<close>

fun big_chain :: "slob \<Rightarrow> nat \<Rightarrow> nat list \<Rightarrow> bool" where
  "big_chain s bb [] \<longleftrightarrow> bb = 0"
| "big_chain s bb (x # xs) \<longleftrightarrow> bb = x \<and> x \<noteq> 0 \<and> big_chain s (bb_next s x) xs"

lemma big_find_none:
  "big_chain s bb bs \<Longrightarrow> (\<And>x. x \<in> set bs \<Longrightarrow> bb_pages s x \<noteq> m) \<Longrightarrow> \<exists>l. big_find s m l0 bb = Some (l, 0)"
  by (induction bs arbitrary: bb l0) (simp_all add: big_find.simps)

lemma big_chain_cong: "same_big s s' \<Longrightarrow> big_chain s' bb bs = big_chain s bb bs"
  by (induction bs arbitrary: bb) (simp_all add: same_big_def)

text \<open>The free bytes, with a fresh page if no free block is large enough.\<close>

definition stock :: "slob \<Rightarrow> nat set \<Rightarrow> nat \<Rightarrow> nat option list \<Rightarrow> nat set" where
  "stock s A n pages = free_bytes s A \<union>
     (if \<exists>a \<in> A. n \<le> units s a then {} else case pages of Some p # _ \<Rightarrow> {p ..< p + PAGE_SIZE} | _ \<Rightarrow> {})"

lemma give_back:
  assumes ok: "slob_ok arena s A" and r: "arena + SLOB_UNIT < r" "units s r = n" "0 < n"
    and F: "free_bytes s A = F - {r ..< r + SLOB_UNIT * n}" "{r ..< r + SLOB_UNIT * n} \<subseteq> F"
  shows "\<exists>s' A'. slob_free s r 0 = Some s' \<and> slob_ok arena s' A' \<and> free_bytes s' A' = F \<and> same_big s s'"
proof -
  have u: "freed_units s r 0 = units s" by (simp add: freed_units_def)
  have e: "slob_end (units s) r = r + SLOB_UNIT * n" using r(2) by (simp add: slob_end_def)
  have "slob_end (units s) arena < r" using ok r(1) by (simp add: slob_ok_def slob_end_def)
  moreover have "\<forall>x \<in> A. slob_end (units s) x \<le> r \<or> slob_end (units s) r \<le> x"
    unfolding e by (rule region_apart) (use ok r F in \<open>auto simp: slob_ok_def SLOB_UNIT_def\<close>)
  ultimately have "\<exists>s' A'. slob_free s r 0 = Some s' \<and> slob_ok arena s' A' \<and> same_big s s'
      \<and> free_bytes s' A' = free_bytes s A \<union> {r ..< slob_end (freed_units s r 0) r}"
    using r(2,3) by (intro slob_free_ok [OF ok]) (simp_all add: u)
  moreover have "free_bytes s A \<union> {r ..< slob_end (freed_units s r 0) r} = F" using F by (auto simp: u e)
  ultimately show ?thesis by (simp only:) blast
qed

text \<open>C32: \<open>kmalloc\<close> of at least one and up to 4063 bytes hands out bytes that were free, and that no other block has: afterwards
  they are not free any more. It fails only if no free block is large enough and there is no page.
  \<open>kfree\<close> of the block returns exactly those bytes with their header, so the free memory is what it was,
  plus the page that was added. From 4064 to 4079 bytes \<open>kmalloc\<close> panics: the size with its header
  fails the assertion of \<open>slob_alloc\<close>.\<close>

theorem kmalloc_kfree:
  assumes ok: "slob_ok arena s A" and sz: "0 < sz" "sz < 4080"
    and pg: "\<forall>p ps. pages = Some p # ps \<longrightarrow> arena + SLOB_UNIT < p \<and> free_bytes s A \<inter> {p ..< p + PAGE_SIZE} = {}"
    and big: "big_chain s (bigblocks s) bs" "\<forall>x \<in> set bs. bb_pages s x \<notin> stock s A (SLOB_UNITS (sz + SLOB_UNIT)) pages"
  shows "if 4064 \<le> sz then kmalloc s sz pages = None
    else \<exists>m s' pages'. kmalloc s sz pages = Some (m, s', pages')
      \<and> (if m = 0 then s' = s \<and> (\<forall>a \<in> A. units s a < SLOB_UNITS (sz + SLOB_UNIT)) \<and> (\<forall>p ps. pages \<noteq> Some p # ps)
         else {m ..< m + sz} \<subseteq> stock s A (SLOB_UNITS (sz + SLOB_UNIT)) pages
           \<and> (\<exists>A'. slob_ok arena s' A' \<and> free_bytes s' A' \<inter> {m ..< m + sz} = {})
           \<and> (\<exists>s'' A''. kfree s' m = Some (s'', None) \<and> slob_ok arena s'' A''
               \<and> free_bytes s'' A'' = stock s A (SLOB_UNITS (sz + SLOB_UNIT)) pages))"
proof (cases "4064 \<le> sz")
  case True
  then show ?thesis using sz by (simp add: kmalloc_def slob_alloc_def PAGE_SIZE_def SLOB_UNIT_def)
next
  case False
  let ?n = "SLOB_UNITS (sz + SLOB_UNIT)" and ?F = "stock s A (SLOB_UNITS (sz + SLOB_UNIT)) pages"
  have ar: "slob_end (units s) arena = arena + SLOB_UNIT" using ok by (simp add: slob_ok_def slob_end_def)
  have lim: "16 < sz + SLOB_UNIT" "sz + SLOB_UNIT + SLOB_UNIT < PAGE_SIZE" "0 < ?n" using sz False
    by (simp_all add: SLOB_UNIT_def PAGE_SIZE_def SLOB_UNITS_def)
  obtain r s' pages' where a: "slob_alloc s (sz + SLOB_UNIT) 0 pages = Some (r, s', pages')" "same_big s s'"
    "if r = 0 then s' = s \<and> (\<forall>a \<in> A. units s a < ?n) \<and> (\<forall>p ps. pages \<noteq> Some p # ps)
       else arena + SLOB_UNIT < r \<and> units s' r = ?n \<and> {r ..< r + SLOB_UNIT * ?n} \<subseteq> ?F
         \<and> (\<exists>A'. slob_ok arena s' A' \<and> free_bytes s' A' = ?F - {r ..< r + SLOB_UNIT * ?n})"
    using slob_alloc_ok [OF ok lim(1,2), of pages] pg unfolding ar stock_def by blast
  have k: "kmalloc s sz pages = Some (if r \<noteq> 0 then slob_at r 1 else 0, s', pages')"
    using a(1) False by (simp add: kmalloc_def PAGE_SIZE_def SLOB_UNIT_def)
  show ?thesis
  proof (cases "r = 0")
    case True
    then show ?thesis using k a(3) False by simp
  next
    case nz: False
    then obtain A' where r: "arena + SLOB_UNIT < r" "units s' r = ?n" "{r ..< r + SLOB_UNIT * ?n} \<subseteq> ?F"
      and A': "slob_ok arena s' A'" "free_bytes s' A' = ?F - {r ..< r + SLOB_UNIT * ?n}" using a(3) by auto
    define m where "m = slob_at r 1"
    have m: "m = r + SLOB_UNIT" "m \<noteq> 0" "m - SLOB_UNIT = r" by (simp_all add: m_def slob_at_def SLOB_UNIT_def)
    have fits: "{m ..< m + sz} \<subseteq> {r ..< r + SLOB_UNIT * ?n}" unfolding m(1) by (auto simp: SLOB_UNITS_def SLOB_UNIT_def)
    have "m \<in> ?F" using fits r(3) sz(1) by auto
    moreover have "big_chain s' (bigblocks s') bs" "bb_pages s' = bb_pages s"
      using big(1) a(2) by (simp_all add: big_chain_cong) (simp_all add: same_big_def)
    ultimately obtain l where "big_find s' m None (bigblocks s') = Some (l, 0)"
      using big_find_none [of s' "bigblocks s'" bs m None] big(2) by metis
    moreover obtain s'' A'' where s'': "slob_free s' r 0 = Some s''" "slob_ok arena s'' A''" "free_bytes s'' A'' = ?F"
      using give_back [OF A'(1) r(1,2) lim(3) A'(2) r(3)] by blast
    ultimately have "kfree s' m = Some (s'', None)" using nz by (simp add: kfree_def m)
    then have "\<exists>s'' A''. kfree s' m = Some (s'', None) \<and> slob_ok arena s'' A'' \<and> free_bytes s'' A'' = ?F" using s'' by blast
    moreover have "\<exists>A'. slob_ok arena s' A' \<and> free_bytes s' A' \<inter> {m ..< m + sz} = {}" using A' fits by blast
    moreover have "{m ..< m + sz} \<subseteq> ?F" using fits r(3) by blast
    moreover have "kmalloc s sz pages = Some (m, s', pages')" using k nz by (simp add: m_def)
    ultimately show ?thesis using False m(2) by auto
  qed
qed

text \<open>A large block comes with pages of its own, and \<open>kfree\<close> of it gives back exactly these and the record that
  describes them: the list of large blocks and the free memory are what they were before.\<close>

theorem kmalloc_kfree_large:
  assumes ok: "slob_ok arena s A" and sz: "4080 \<le> sz" and room: "a \<in> A" "2 \<le> units s a" and p: "0 < p" "p mod PAGE_SIZE = 0"
  shows "\<exists>s' s'' A''. kmalloc s sz (Some p # ps) = Some (p, s', ps) \<and> ksize s' p = Some (PAGE_SIZE * 2 ^ find_order sz)
    \<and> kfree s' p = Some (s'', Some (p, find_order sz)) \<and> bigblocks s'' = bigblocks s \<and> slob_ok arena s'' A'' \<and> free_bytes s'' A'' = free_bytes s A"
proof -
  have n: "SLOB_UNITS BIGBLOCK_SIZE = 2" "16 < BIGBLOCK_SIZE" "BIGBLOCK_SIZE + SLOB_UNIT < PAGE_SIZE" "BIGBLOCK_SIZE \<noteq> PAGE_SIZE" "BIGBLOCK_SIZE \<noteq> 0"
    by (simp_all add: SLOB_UNITS_def BIGBLOCK_SIZE_def SLOB_UNIT_def PAGE_SIZE_def)
  from slob_search [OF ok n(4), of 2 "Some p # ps"] room obtain q where q: "q \<in> A" "2 \<le> units s (next_of s q)"
    "slob_loop s BIGBLOCK_SIZE 2 0 (slobfree s) (next_of s (slobfree s)) (Some p # ps) = Some (next_of s q, taken s q (next_of s q) 2, Some p # ps)"
    by (auto simp: not_le [symmetric])
  define r where "r = next_of s q"
  define s1 where "s1 = taken s q r 2"
  have al: "slob_alloc s BIGBLOCK_SIZE 0 (Some p # ps) = Some (r, s1, Some p # ps)" using q(3) n(1,3) by (simp add: slob_alloc_def r_def s1_def)
  obtain A1 where A1: "slob_ok arena s1 A1" "same_big s s1" "units s1 r = 2" "{r ..< r + SLOB_UNIT * 2} \<subseteq> free_bytes s A"
    "free_bytes s1 A1 = free_bytes s A - {r ..< r + SLOB_UNIT * 2}" "arena + SLOB_UNIT < r"
    using taken_ok [OF ok q(1) refl _ q(2)] unfolding s1_def r_def by auto
  have r0: "0 < r" using A1(6) by simp
  define s2 where "s2 = s1\<lparr>bb_order := (bb_order s1)(r := find_order sz), bb_pages := (bb_pages s1)(r := p), bb_next := (bb_next s1)(r := bigblocks s1), bigblocks := r\<rparr>"
  have "\<not> sz < PAGE_SIZE - SLOB_UNIT" using sz by (simp add: PAGE_SIZE_def SLOB_UNIT_def)
  then have km: "kmalloc s sz (Some p # ps) = Some (p, s2, ps)" using al r0 by (simp add: kmalloc_def s2_def Let_def)
  have fd: "big_find s2 p l (bigblocks s2) = Some (l, r)" for l using r0 by (subst big_find.simps) (simp add: s2_def)
  define s3 where "s3 = s2\<lparr>bigblocks := bb_next s2 r\<rparr>"
  have e: "freed_units s3 r BIGBLOCK_SIZE = units s1" using A1(3) n(1,5) by (auto simp: freed_units_def s3_def s2_def)
  have ok3: "slob_ok arena s3 A1" "free_bytes s3 A1 = free_bytes s1 A1" using A1(1) by (simp_all add: slob_ok_def s3_def s2_def)
  have "slob_end (units s3) arena < r" using A1(1,6) by (simp add: s3_def s2_def slob_end_def slob_ok_def)
  moreover have "\<forall>x \<in> A1. slob_end (units s3) x \<le> r \<or> slob_end (freed_units s3 r BIGBLOCK_SIZE) r \<le> x"
  proof -
    have "slob_end (units s1) r = r + SLOB_UNIT * 2" using A1(3) by (simp add: slob_end_def)
    then show ?thesis unfolding e by (intro region_apart) (use ok3 A1 in \<open>auto simp: slob_ok_def SLOB_UNIT_def\<close>)
  qed
  ultimately have "\<exists>s' A'. slob_free s3 r BIGBLOCK_SIZE = Some s' \<and> slob_ok arena s' A' \<and> same_big s3 s'
      \<and> free_bytes s' A' = free_bytes s3 A1 \<union> {r ..< slob_end (freed_units s3 r BIGBLOCK_SIZE) r}"
    using A1(3) by (intro slob_free_ok [OF ok3(1)]) (simp_all add: e)
  then obtain s4 A4 where s4: "slob_free s3 r BIGBLOCK_SIZE = Some s4" "slob_ok arena s4 A4" "same_big s3 s4"
    "free_bytes s4 A4 = free_bytes s3 A1 \<union> {r ..< r + SLOB_UNIT * 2}" unfolding e using A1(3) by (auto simp: slob_end_def)
  have "kfree s2 p = Some (s4, Some (p, find_order sz))"
    using p r0 fd s4(1) by (simp add: kfree_def Let_def s3_def) (simp add: s2_def)
  moreover have "ksize s2 p = Some (PAGE_SIZE * 2 ^ find_order sz)" using p r0 fd by (simp add: ksize_def) (simp add: s2_def)
  moreover have "bigblocks s4 = bigblocks s" using s4(3) A1(2) by (simp add: same_big_def s3_def s2_def)
  moreover have "free_bytes s4 A4 = free_bytes s A" using s4(4) ok3(2) A1(4,5) by auto
  ultimately show ?thesis using km s4(2) by blast
qed

section \<open>The number of pages of a large block\<close>

lemma find_order_least: "sz < 4097 * 2 ^ k \<longleftrightarrow> find_order sz \<le> k"
proof (induction sz arbitrary: k rule: find_order.induct)
  case (1 sz)
  show ?case
  proof (cases "4096 < sz")
    case False
    have "(1 :: nat) \<le> 2 ^ k" by simp
    then have "sz < 4097 * 2 ^ k" using False by (metis less_le_trans mult_le_mono2 mult.right_neutral not_le le_imp_less_Suc numeral_eq_Suc pred_numeral_simps(3) BitM.simps Suc_numeral add_One)
    then show ?thesis using False by (simp add: find_order.simps)
  next
    case True
    show ?thesis
    proof (cases k)
      case 0
      then show ?thesis using True by (simp add: find_order.simps [of sz])
    next
      case (Suc j)
      have "sz < 4097 * 2 ^ Suc j \<longleftrightarrow> sz div 2 < 4097 * 2 ^ j" by (simp add: less_mult_imp_div_less) linarith
      then show ?thesis using 1 [OF True, of j] True Suc by (simp add: find_order.simps [of sz])
    qed
  qed
qed

text \<open>The pages of a large block are too few exactly when the size is just above a power of two times the page
  size: \<open>find_order\<close> halves the size and forgets the remainder, so that, for example, 8193 bytes get
  two pages of 4096.\<close>

theorem find_order_short:
  "(PAGE_SIZE * 2 ^ find_order sz < sz) = (\<exists>k. 0 < k \<and> 4096 * 2 ^ k < sz \<and> sz < 4097 * 2 ^ k)"
proof
  let ?o = "find_order sz"
  assume s: "PAGE_SIZE * 2 ^ ?o < sz"
  then have "?o \<noteq> 0" by (cases "4096 < sz") (simp_all add: find_order.simps [of sz] PAGE_SIZE_def)
  then show "\<exists>k. 0 < k \<and> 4096 * 2 ^ k < sz \<and> sz < 4097 * 2 ^ k"
    using s find_order_least [of sz ?o] by (intro exI [of _ ?o]) (simp add: PAGE_SIZE_def)
next
  assume "\<exists>k. 0 < k \<and> 4096 * 2 ^ k < sz \<and> sz < 4097 * 2 ^ k"
  then obtain k where k: "4096 * 2 ^ k < sz" "sz < 4097 * 2 ^ k" by blast
  have "find_order sz \<le> k" using k(2) find_order_least by blast
  then have "(4096 :: nat) * 2 ^ find_order sz \<le> 4096 * 2 ^ k" by simp
  then show "PAGE_SIZE * 2 ^ find_order sz < sz" unfolding PAGE_SIZE_def using k(1) by linarith
qed

section \<open>An allocator that has just started\<close>

text \<open>A block that is its own neighbour is never put back: the search for its place does not end. \<open>kmalloc\<close> of no
  bytes takes the arena itself out, and \<open>kfree\<close> of what it returned hangs.\<close>

lemma free_place_ends: "free_place s b cur = Some p \<Longrightarrow> cur = b \<Longrightarrow> next_of s b = b \<Longrightarrow> False"
proof -
  assume e: "free_place s b cur = Some p" and "cur = b" "next_of s b = b"
  have "cur = b \<longrightarrow> next_of s b \<noteq> b"
    by (rule free_place.raw_induct [OF _ e, where P = "\<lambda>s b cur _. cur = b \<longrightarrow> next_of s b \<noteq> b"]) (auto split: if_splits)
  then show False using \<open>cur = b\<close> \<open>next_of s b = b\<close> by simp
qed

lemma kmalloc_zero_hangs:
  assumes "0 < arena"
  shows "\<exists>s'. kmalloc (slob_start arena) 0 pages = Some (arena + SLOB_UNIT, s', pages) \<and> kfree s' (arena + SLOB_UNIT) = None"
proof -
  let ?s = "slob_start arena"
  define s' where "s' = taken ?s arena arena 1"
  have s': "s' = ?s" by (simp add: s'_def taken_def slob_start_def set_next_def)
  have "slob_loop ?s 16 1 0 (slobfree ?s) (next_of ?s (slobfree ?s)) pages = Some (arena, s', pages)"
    using slob_loop_take [of 1 ?s arena 16 arena pages] by (simp add: s'_def) (simp add: slob_start_def)
  then have "kmalloc ?s 0 pages = Some (arena + SLOB_UNIT, s', pages)"
    using assms by (simp add: kmalloc_def slob_alloc_def slob_at_def SLOB_UNITS_def SLOB_UNIT_def PAGE_SIZE_def)
  moreover have "free_place ?s arena arena = None" using free_place_ends [of ?s arena arena] by (cases "free_place ?s arena arena") (auto simp: slob_start_def)
  then have "slob_free s' arena 0 = None" using assms by (simp add: slob_free_def s') (simp add: slob_start_def)
  moreover have "big_find s' m l (bigblocks s') = Some (l, 0)" for m l by (subst big_find.simps) (simp add: s' slob_start_def)
  ultimately show ?thesis by (intro exI [of _ s']) (simp add: kfree_def SLOB_UNIT_def)
qed

lemma start_stock:
  assumes "2 \<le> n"
  shows "stock (slob_start 512) {512} n [Some 8192] = {512 ..< 528} \<union> {8192 ..< 12288}"
  using assms by (simp add: stock_def slob_start_def region_def slob_end_def SLOB_UNIT_def PAGE_SIZE_def)

theorem kmalloc_kfree_witness:
  "\<exists>m s' pages' s'' A''. kmalloc (slob_start 512) 100 [Some 8192] = Some (m, s', pages') \<and> m \<noteq> 0 \<and> kfree s' m = Some (s'', None)
    \<and> free_bytes s'' A'' = {512 ..< 528} \<union> {8192 ..< 12288} \<and> kmalloc (slob_start 512) 4070 [Some 8192] = None"
proof -
  have ok: "slob_ok 512 (slob_start 512) {512}" by (rule start_ok) simp
  have u: "2 \<le> SLOB_UNITS (100 + SLOB_UNIT)" by (simp add: SLOB_UNITS_def SLOB_UNIT_def)
  have pg: "\<forall>p ps. [Some (8192 :: nat)] = Some p # ps \<longrightarrow> 512 + SLOB_UNIT < p \<and> free_bytes (slob_start 512) {512} \<inter> {p ..< p + PAGE_SIZE} = {}"
    by (auto simp: slob_start_def region_def slob_end_def SLOB_UNIT_def PAGE_SIZE_def)
  have big: "big_chain (slob_start 512) (bigblocks (slob_start 512)) []" "\<forall>x \<in> set []. bb_pages (slob_start 512) x \<notin> stock (slob_start 512) {512} (SLOB_UNITS (n + SLOB_UNIT)) [Some 8192]" for n
    by (simp_all add: slob_start_def)
  have l: "0 < (100 :: nat)" "(100 :: nat) < 4080" "0 < (4070 :: nat)" "(4070 :: nat) < 4080" "\<not> (4064 :: nat) \<le> 100" "(4064 :: nat) \<le> 4070" by simp_all
  from kmalloc_kfree [OF ok l(1,2) pg big] obtain m s' pages' where k: "kmalloc (slob_start 512) 100 [Some 8192] = Some (m, s', pages')"
    "m \<noteq> 0" "\<exists>s'' A''. kfree s' m = Some (s'', None) \<and> slob_ok 512 s'' A''
      \<and> free_bytes s'' A'' = stock (slob_start 512) {512} (SLOB_UNITS (100 + SLOB_UNIT)) [Some 8192]"
    by (auto split: if_splits) blast
  moreover have "kmalloc (slob_start 512) 4070 [Some 8192] = None"
    using kmalloc_kfree [OF ok l(3,4) pg big] l(6) by (simp only: if_True)
  ultimately show ?thesis unfolding start_stock [OF u] by blast
qed

definition demo_slob :: slob where
  "demo_slob = (slob_start 512)\<lparr>units := (\<lambda>_. 0)(512 := 1, 8192 := 256), next_of := (\<lambda>_. 0)(512 := 8192, 8192 := 512)\<rparr>"

lemma demo_slob_ok: "slob_ok 512 demo_slob {512, 8192}"
  by (simp add: slob_ok_def demo_slob_def slob_start_def ring_def is_succ_def apart_but_def slob_end_def SLOB_UNIT_def)

theorem kmalloc_kfree_large_witness:
  "\<exists>s' s''. kmalloc demo_slob 8193 [Some 65536] = Some (65536, s', []) \<and> ksize s' 65536 = Some 8192 \<and> kfree s' 65536 = Some (s'', Some (65536, 1))"
proof -
  have "find_order 8193 = 1" by (simp add: find_order.simps)
  then show ?thesis
    using kmalloc_kfree_large [OF demo_slob_ok, where sz = 8193 and a = 8192 and p = 65536 and ps = "[]"]
    by (auto simp: demo_slob_def PAGE_SIZE_def)
qed

end
