(* ===== verification/Swap.thy ===== *)
theory Swap
  imports ListH Prelude
begin

text \<open>
  The page replacement policies: first in first out (\<open>kern/mm/swap_fifo.c\<close> of the last lab, which queues at the
  tail, and of \<open>src/lab3\<close>, which queues at the head), least recently used and clock (\<open>swap_lru.c\<close> and
  \<open>swap_clock.c\<close> of \<open>src/lab3\<close>). A policy keeps the swappable pages in the list \<open>pra_list_head\<close>, linked
  through \<open>pra_page_link\<close>; a page is named by its link. The structure \<open>le2page\<close> makes of the head of an empty list is
  whatever lies there, so \<open>visited\<close> and the accessed bits are given for the head as well. \<open>swap_out\<close>, \<open>swap_in\<close> and the
  swap disk are in \<open>PageFault\<close>.
\<close>

section \<open>State\<close>

datatype pra_le = PraHead | Pra nat

text \<open>\<open>pte_a\<close> is the bit \<open>PTE_A\<close> of the entry that maps \<open>pra_vaddr\<close> of the page.\<close>

record swap =
  pra_list :: "pra_le dll"
  curr_ptr :: pra_le
  visited :: "pra_le \<Rightarrow> nat"
  pte_a :: "pra_le \<Rightarrow> bool"

definition link_pra :: "(pra_le dll \<Rightarrow> pra_le dll) \<Rightarrow> swap \<Rightarrow> swap" where
  "link_pra f s = s\<lparr>pra_list := f (pra_list s)\<rparr>"

section \<open>First in, first out\<close>

definition fifo_init_mm :: "swap \<Rightarrow> swap" where
  "fifo_init_mm = link_pra (\<lambda>d. list_init d PraHead)"

definition fifo_map_swappable :: "swap \<Rightarrow> pra_le \<Rightarrow> swap" where
  "fifo_map_swappable s page = link_pra (\<lambda>d. list_add_before d PraHead page) s"

definition fifo_swap_out_victim :: "swap \<Rightarrow> bool \<Rightarrow> (pra_le option \<times> swap) option" where
  "fifo_swap_out_victim s in_tick = do {
     kassert (\<not> in_tick);
     let le = list_next (pra_list s) PraHead;
     Some (Some le, link_pra (\<lambda>d. list_del d le) s)
   }"

text \<open>The same of \<open>src/lab3\<close>.\<close>

definition fifo3_map_swappable :: "swap \<Rightarrow> pra_le \<Rightarrow> swap" where
  "fifo3_map_swappable s page = link_pra (\<lambda>d. list_add d PraHead page) s"

definition fifo3_swap_out_victim :: "swap \<Rightarrow> bool \<Rightarrow> (pra_le option \<times> swap) option" where
  "fifo3_swap_out_victim s in_tick = do {
     kassert (\<not> in_tick);
     let le = list_prev (pra_list s) PraHead;
     if le \<noteq> PraHead then Some (Some le, link_pra (\<lambda>d. list_del d le) s) else Some (None, s)
   }"

section \<open>Least recently used\<close>

definition lru_map_swappable :: "swap \<Rightarrow> pra_le \<Rightarrow> swap" where
  "lru_map_swappable s page = link_pra (\<lambda>d. list_add d PraHead page) s"

definition lru_swap_out_victim :: "swap \<Rightarrow> bool \<Rightarrow> (pra_le option \<times> swap) option" where
  "lru_swap_out_victim s in_tick = do {
     kassert (\<not> in_tick);
     let le = list_prev (pra_list s) PraHead;
     if le \<noteq> PraHead then Some (Some le, link_pra (\<lambda>d. list_del d le) s) else Some (None, s)
   }"

partial_function (option) lru_tick_loop :: "swap \<Rightarrow> pra_le \<Rightarrow> swap option" where
  "lru_tick_loop s le =
     (if le \<noteq> PraHead then
        (let s = (if pte_a s le then (link_pra (\<lambda>d. list_add (list_del d le) PraHead le) s)\<lparr>pte_a := (pte_a s)(le := False)\<rparr> else s)
         in lru_tick_loop s (list_prev (pra_list s) PraHead))
      else Some s)"

definition lru_tick_event :: "swap \<Rightarrow> swap option" where
  "lru_tick_event s = lru_tick_loop s (list_next (pra_list s) PraHead)"

section \<open>Clock\<close>

definition clock_init_mm :: "swap \<Rightarrow> swap" where
  "clock_init_mm s = (link_pra (\<lambda>d. list_init d PraHead) s)\<lparr>curr_ptr := PraHead\<rparr>"

definition clock_map_swappable :: "swap \<Rightarrow> pra_le \<Rightarrow> swap" where
  "clock_map_swappable s page = (link_pra (\<lambda>d. list_add d (list_prev d PraHead) page) s)\<lparr>visited := (visited s)(page := 1)\<rparr>"

partial_function (option) clock_loop :: "swap \<Rightarrow> (pra_le \<times> swap) option" where
  "clock_loop s =
     (let s = (if curr_ptr s = PraHead then s\<lparr>curr_ptr := list_next (pra_list s) (curr_ptr s)\<rparr> else s);
          page = curr_ptr s
      in if visited s page \<noteq> 1 then Some (page, link_pra (\<lambda>d. list_del d (curr_ptr s)) s)
         else (let s = s\<lparr>visited := (visited s)(page := 0)\<rparr>
               in clock_loop (s\<lparr>curr_ptr := list_next (pra_list s) (curr_ptr s)\<rparr>)))"

definition clock_swap_out_victim :: "swap \<Rightarrow> bool \<Rightarrow> (pra_le \<times> swap) option" where
  "clock_swap_out_victim s in_tick = do { kassert (\<not> in_tick); clock_loop s }"

section \<open>The contract of a queue of pages\<close>

text \<open>Taking \<open>n\<close> victims.\<close>

fun victims :: "('s \<Rightarrow> ('p option \<times> 's) option) \<Rightarrow> 's \<Rightarrow> nat \<Rightarrow> ('p list \<times> 's) option" where
  "victims victim s 0 = Some ([], s)"
| "victims victim s (Suc n) = (case victim s of Some (Some p, s) \<Rightarrow> map_option (\<lambda>(ps, s). (p # ps, s)) (victims victim s n) | _ \<Rightarrow> None)"

text \<open>\<open>waits s ps\<close>: the swappable pages, the one that was mapped first in front.\<close>

locale victim_queue =
  fixes waits :: "'s \<Rightarrow> 'p list \<Rightarrow> bool"
    and add :: "'s \<Rightarrow> 'p \<Rightarrow> 's"
    and victim :: "'s \<Rightarrow> ('p option \<times> 's) option"
    and page_link :: "'p \<Rightarrow> bool"
  assumes add_last: "waits s ps \<Longrightarrow> page_link p \<Longrightarrow> p \<notin> set ps \<Longrightarrow> waits (add s p) (ps @ [p])"
    and victim_first: "waits s (p # ps) \<Longrightarrow> \<exists>s'. victim s = Some (Some p, s') \<and> waits s' ps"
begin

lemma add_all:
  "waits s ps \<Longrightarrow> distinct (ps @ qs) \<Longrightarrow> \<forall>q \<in> set qs. page_link q \<Longrightarrow> waits (fold (\<lambda>q s. add s q) qs s) (ps @ qs)"
proof (induction qs arbitrary: s ps)
  case Nil
  then show ?case by simp
next
  case (Cons q qs)
  then have "waits (add s q) (ps @ [q])" by (intro add_last) auto
  with Cons.IH [of "add s q" "ps @ [q]"] Cons.prems show ?case by simp
qed

lemma in_order: "waits s (ps @ qs) \<Longrightarrow> \<exists>s'. victims victim s (length ps) = Some (ps, s') \<and> waits s' qs"
proof (induction ps arbitrary: s)
  case Nil
  then show ?case by simp
next
  case (Cons p ps)
  then obtain s1 where "victim s = Some (Some p, s1)" "waits s1 (ps @ qs)" using victim_first by fastforce
  with Cons.IH [of s1] show ?case by auto
qed

end

definition queued :: "swap \<Rightarrow> pra_le list \<Rightarrow> bool" where
  "queued s ps \<longleftrightarrow> dlist (pra_list s) PraHead ps"

definition queued_rev :: "swap \<Rightarrow> pra_le list \<Rightarrow> bool" where
  "queued_rev s ps \<longleftrightarrow> dlist (pra_list s) PraHead (rev ps)"

lemma link_pra_simps [simp]: "pra_list (link_pra f s) = f (pra_list s)" "curr_ptr (link_pra f s) = curr_ptr s" "visited (link_pra f s) = visited s"
  "pte_a (link_pra f s) = pte_a s"
  by (simp_all add: link_pra_def)

interpretation fifo: victim_queue queued fifo_map_swappable "\<lambda>s. fifo_swap_out_victim s False" "\<lambda>p. p \<noteq> PraHead"
proof
  show "queued (fifo_map_swappable s p) (ps @ [p])" if "queued s ps" "p \<noteq> PraHead" "p \<notin> set ps" for s ps p
    using that by (simp add: queued_def fifo_map_swappable_def dlist_add_tail)
  show "\<exists>s'. fifo_swap_out_victim s False = Some (Some p, s') \<and> queued s' ps" if "queued s (p # ps)" for s p ps
    using that dlist_next_head [of "pra_list s" PraHead "p # ps"] dlist_del [of "pra_list s" PraHead "[]" p ps]
    by (simp add: queued_def fifo_swap_out_victim_def Let_def)
qed

lemma prev_victim:
  assumes "queued_rev s (p # ps)"
  shows "list_prev (pra_list s) PraHead = p" "p \<noteq> PraHead" "queued_rev (link_pra (\<lambda>d. list_del d p) s) ps"
  using assms dlist_prev_head [of "pra_list s" PraHead "rev ps @ [p]"] dlist_del [of "pra_list s" PraHead "rev ps" p "[]"]
    dlist_distinct [of "pra_list s" PraHead "rev ps @ [p]"]
  by (auto simp: queued_rev_def)

interpretation lru: victim_queue queued_rev lru_map_swappable "\<lambda>s. lru_swap_out_victim s False" "\<lambda>p. p \<noteq> PraHead"
proof
  show "queued_rev (lru_map_swappable s p) (ps @ [p])" if "queued_rev s ps" "p \<noteq> PraHead" "p \<notin> set ps" for s ps p
    using that by (simp add: queued_rev_def lru_map_swappable_def dlist_add_head)
  show "\<exists>s'. lru_swap_out_victim s False = Some (Some p, s') \<and> queued_rev s' ps" if "queued_rev s (p # ps)" for s p ps
    using prev_victim [OF that] by (simp add: lru_swap_out_victim_def Let_def)
qed

interpretation fifo3: victim_queue queued_rev fifo3_map_swappable "\<lambda>s. fifo3_swap_out_victim s False" "\<lambda>p. p \<noteq> PraHead"
proof
  show "queued_rev (fifo3_map_swappable s p) (ps @ [p])" if "queued_rev s ps" "p \<noteq> PraHead" "p \<notin> set ps" for s ps p
    using that by (simp add: queued_rev_def fifo3_map_swappable_def dlist_add_head)
  show "\<exists>s'. fifo3_swap_out_victim s False = Some (Some p, s') \<and> queued_rev s' ps" if "queued_rev s (p # ps)" for s p ps
    using prev_victim [OF that] by (simp add: fifo3_swap_out_victim_def Let_def)
qed

text \<open>Least recently used is first in, first out: whatever pages are mapped, the policy of \<open>swap_lru.c\<close> chooses the
  same victims in the same order as that of \<open>swap_fifo.c\<close>, namely the pages in the order in which they were
  mapped.\<close>

theorem lru_is_fifo:
  assumes "queued s []" "distinct qs" "PraHead \<notin> set qs" "n \<le> length qs"
  shows "map_option fst (victims (\<lambda>s. lru_swap_out_victim s False) (fold (\<lambda>q s. lru_map_swappable s q) qs s) n) = Some (take n qs)
    \<and> map_option fst (victims (\<lambda>s. fifo_swap_out_victim s False) (fold (\<lambda>q s. fifo_map_swappable s q) qs s) n) = Some (take n qs)"
proof -
  have q: "\<forall>q \<in> set qs. q \<noteq> PraHead" "distinct ([] @ qs)" "queued_rev s []" using assms by (auto simp: queued_def queued_rev_def)
  have l: "length (take n qs) = n" using assms(4) by simp
  have "queued_rev (fold (\<lambda>q s. lru_map_swappable s q) qs s) (take n qs @ drop n qs)" using lru.add_all [OF q(3,2,1)] by simp
  moreover have "queued (fold (\<lambda>q s. fifo_map_swappable s q) qs s) (take n qs @ drop n qs)" using fifo.add_all [OF assms(1) q(2,1)] by simp
  ultimately show ?thesis using lru.in_order fifo.in_order l by fastforce
qed

lemma lru_tick_never_ends:
  assumes e: "lru_tick_loop s le = Some s'" and "queued s xs" "xs \<noteq> []" "le \<in> set xs"
  shows False
proof -
  have "\<not> (\<exists>xs. queued s xs \<and> le \<in> set xs)"
  proof (rule lru_tick_loop.raw_induct [OF _ e, where P = "\<lambda>s le _. \<not> (\<exists>xs. queued s xs \<and> le \<in> set xs)"])
    fix f s le s'
    assume IH: "\<And>s le s'. f s le = Some s' \<Longrightarrow> \<not> (\<exists>xs. queued s xs \<and> le \<in> set xs)"
      and eq: "(if le \<noteq> PraHead then
          let s = if pte_a s le then link_pra (\<lambda>d. list_add (list_del d le) PraHead le) s\<lparr>pte_a := (pte_a s)(le := False)\<rparr> else s
          in f s (list_prev (pra_list s) PraHead) else Some s) = Some s'"
    show "\<not> (\<exists>xs. queued s xs \<and> le \<in> set xs)"
    proof
      assume "\<exists>xs. queued s xs \<and> le \<in> set xs"
      then obtain us vs where x: "queued s (us @ le # vs)" by (metis in_set_conv_decomp)
      then have h: "le \<noteq> PraHead" using dlist_distinct by (fastforce simp: queued_def)
      have d: "distinct (us @ le # vs)" "PraHead \<notin> set (us @ le # vs)" using dlist_distinct [OF x [unfolded queued_def]] by simp_all
      let ?s = "if pte_a s le then link_pra (\<lambda>d. list_add (list_del d le) PraHead le) s\<lparr>pte_a := (pte_a s)(le := False)\<rparr> else s"
      obtain ys where ys: "queued ?s ys" "ys \<noteq> []"
      proof (cases "pte_a s le")
        case True
        have "dlist (list_del (pra_list s) le) PraHead (us @ vs)" using x by (simp add: queued_def dlist_del)
        moreover have "le \<notin> set (PraHead # us @ vs)" using d by auto
        ultimately have "queued ?s (le # us @ vs)" using True by (simp add: queued_def dlist_add_head)
        then show ?thesis by (rule that) simp
      next
        case False
        then show ?thesis using x by (intro that [of "us @ le # vs"]) simp_all
      qed
      have "list_prev (pra_list ?s) PraHead = last (PraHead # ys)" using ys(1) unfolding queued_def by (rule dlist_prev_head)
      then have "list_prev (pra_list ?s) PraHead \<in> set ys" using ys(2) by simp
      moreover have "f ?s (list_prev (pra_list ?s) PraHead) = Some s'" using eq h by (simp only: if_True Let_def not_False_eq_True)
      ultimately show False using IH ys(1) by blast
    qed
  qed
  then show False using assms by blast
qed

text \<open>The tick of \<open>swap_lru.c\<close>, which is to move the pages used since the last one to the front, never ends as long as a
  page is swappable: the loop takes the last page of the list every time, so it comes back to a page whose
  accessed bit is clear for ever. On an empty list it returns.\<close>

theorem lru_tick_hangs:
  assumes "queued s xs"
  shows "lru_tick_event s = (if xs = [] then Some s else None)"
proof (cases xs)
  case Nil
  then show ?thesis using assms dlist_next_head [of "pra_list s" PraHead "[]"]
    by (simp add: lru_tick_event_def queued_def lru_tick_loop.simps)
next
  case (Cons x ys)
  have "list_next (pra_list s) PraHead = x" using assms dlist_next_head [of "pra_list s" PraHead xs] Cons by (simp add: queued_def)
  then have "lru_tick_event s = None" using lru_tick_never_ends [OF _ assms, of x] Cons
    by (cases "lru_tick_loop s x") (auto simp: lru_tick_event_def)
  then show ?thesis using Cons by simp
qed

section \<open>The hand of the clock\<close>

text \<open>The hand points at \<open>p\<close>, or at the head of the list just before it.\<close>

definition hand_at :: "swap \<Rightarrow> pra_le \<Rightarrow> bool" where
  "hand_at s p \<longleftrightarrow> p \<noteq> PraHead \<and> (curr_ptr s = p \<or> curr_ptr s = PraHead \<and> list_next (pra_list s) PraHead = p)"

text \<open>After \<open>a\<close> the hand comes to \<open>b\<close>.\<close>

definition hand_next :: "swap \<Rightarrow> pra_le \<Rightarrow> pra_le \<Rightarrow> bool" where
  "hand_next s a b \<longleftrightarrow> b \<noteq> PraHead \<and> (list_next (pra_list s) a = b \<or> list_next (pra_list s) a = PraHead \<and> list_next (pra_list s) PraHead = b)"

fun hand_path :: "swap \<Rightarrow> pra_le list \<Rightarrow> bool" where
  "hand_path s (a # b # ps) \<longleftrightarrow> hand_next s a b \<and> hand_path s (b # ps)"
| "hand_path s ps \<longleftrightarrow> True"

definition swept :: "swap \<Rightarrow> pra_le list \<Rightarrow> pra_le \<Rightarrow> swap" where
  "swept s ws z = s\<lparr>pra_list := list_del (pra_list s) z, curr_ptr := z, visited := (\<lambda>p. if p \<in> set ws then 0 else visited s p)\<rparr>"

lemma hand_path_cong: "pra_list s' = pra_list s \<Longrightarrow> hand_path s' ps = hand_path s ps"
  by (induction s ps rule: hand_path.induct) (simp_all add: hand_next_def)

lemma clock_walk:
  assumes "hand_at s (hd (ws @ [z]))" "hand_path s (ws @ [z])" "distinct ws" "\<forall>w \<in> set ws. visited s w = 1" "z \<in> set ws \<or> visited s z \<noteq> 1"
  shows "clock_loop s = Some (z, swept s ws z)"
  using assms
proof (induction ws arbitrary: s)
  case Nil
  define s1 where "s1 = (if curr_ptr s = PraHead then s\<lparr>curr_ptr := list_next (pra_list s) (curr_ptr s)\<rparr> else s)"
  have s1: "curr_ptr s1 = z" "visited s1 = visited s" "s1 = s\<lparr>curr_ptr := z\<rparr>" using Nil.prems(1) by (auto simp: hand_at_def s1_def)
  have "clock_loop s = Some (z, link_pra (\<lambda>d. list_del d z) s1)"
    using Nil.prems(5) s1(1,2) by (subst clock_loop.simps) (simp only: Let_def s1_def [symmetric], simp)
  then show ?case by (simp add: s1(3) swept_def link_pra_def)
next
  case (Cons w ws)
  define s1 where "s1 = (if curr_ptr s = PraHead then s\<lparr>curr_ptr := list_next (pra_list s) (curr_ptr s)\<rparr> else s)"
  have s1: "curr_ptr s1 = w" "visited s1 = visited s" "s1 = s\<lparr>curr_ptr := w\<rparr>" using Cons.prems(1) by (auto simp: hand_at_def s1_def)
  define s2 where "s2 = s\<lparr>visited := (visited s)(w := 0), curr_ptr := list_next (pra_list s) w\<rparr>"
  have "clock_loop s = clock_loop s2"
    using Cons.prems(4) s1 by (subst clock_loop.simps) (simp only: Let_def s1_def [symmetric], simp add: s2_def)
  moreover have "clock_loop s2 = Some (z, swept s2 ws z)"
  proof (rule Cons.IH)
    have "hand_next s w (hd (ws @ [z]))" using Cons.prems(2) by (cases ws) simp_all
    then show "hand_at s2 (hd (ws @ [z]))" by (auto simp: hand_at_def hand_next_def s2_def)
    have "hand_path s (ws @ [z])" using Cons.prems(2) by (cases ws) simp_all
    then show "hand_path s2 (ws @ [z])" by (simp add: s2_def hand_path_cong [of s2 s, unfolded s2_def])
    show "distinct ws" "\<forall>w \<in> set ws. visited s2 w = 1" "z \<in> set ws \<or> visited s2 z \<noteq> 1"
      using Cons.prems(3-5) by (auto simp: s2_def)
  qed
  moreover have "swept s2 ws z = swept s (w # ws) z" by (auto simp: swept_def s2_def fun_eq_iff)
  ultimately show ?case by simp
qed

text \<open>The pages in the order in which the hand reaches them.\<close>

definition clock_order :: "pra_le list \<Rightarrow> pra_le list \<Rightarrow> swap \<Rightarrow> bool" where
  "clock_order us vs s \<longleftrightarrow> queued s (us @ vs) \<and> (curr_ptr s = PraHead \<and> us = [] \<or> vs \<noteq> [] \<and> curr_ptr s = hd vs)"

lemma next_in_ring:
  assumes "queued s (us @ a # vs)"
  shows "list_next (pra_list s) a = hd (vs @ [PraHead])"
  using assms dlist_next_mid unfolding queued_def by metis

lemma path_linear: "queued s (us @ ps @ vs) \<Longrightarrow> hand_path s ps"
proof (induction ps arbitrary: us)
  case (Cons a ps)
  show ?case
  proof (cases ps)
    case (Cons b qs)
    have "list_next (pra_list s) a = b" using next_in_ring [of s us a "ps @ vs"] Cons.prems Cons by simp
    moreover have "b \<noteq> PraHead" using Cons.prems Cons dlist_distinct [of "pra_list s" PraHead "us @ (a # ps) @ vs"] by (auto simp: queued_def)
    ultimately have "hand_next s a b" by (simp add: hand_next_def)
    moreover have "hand_path s ps" using Cons.IH [of "us @ [a]"] Cons.prems by simp
    ultimately show ?thesis using Cons by simp
  qed simp
qed simp

lemma path_append: "hand_path s ps \<Longrightarrow> hand_path s qs \<Longrightarrow> (ps \<noteq> [] \<Longrightarrow> qs \<noteq> [] \<Longrightarrow> hand_next s (last ps) (hd qs)) \<Longrightarrow> hand_path s (ps @ qs)"
proof (induction ps rule: induct_list012)
  case (2 a)
  then show ?case by (cases qs) simp_all
qed simp_all

text \<open>The path goes round: after the last page comes the first.\<close>

lemma path_round:
  assumes "queued s (us @ vs)" "us @ vs \<noteq> []"
  shows "hand_path s (vs @ us @ [hd (vs @ us)])"
proof -
  have nh: "PraHead \<notin> set (us @ vs)" using dlist_distinct [OF assms(1) [unfolded queued_def]] by simp
  have h: "list_next (pra_list s) PraHead = hd (us @ vs)"
    using assms dlist_next_head [of "pra_list s" PraHead "us @ vs"] by (simp add: queued_def hd_append)
  have lst: "hand_next s (last (us @ vs)) (hd (us @ vs))"
  proof -
    have "list_next (pra_list s) (last (us @ vs)) = PraHead"
      using assms next_in_ring [of s "butlast (us @ vs)" "last (us @ vs)" "[]"] by simp
    moreover have "hd (us @ vs) \<noteq> PraHead" using nh assms(2) by (metis hd_in_set)
    ultimately show ?thesis using h by (simp add: hand_next_def)
  qed
  have p: "hand_path s us" "hand_path s vs" using path_linear [of s "[]" us vs] path_linear [of s us vs "[]"] assms(1) by simp_all
  have mid: "hand_next s (last us) (hd vs)" if "us \<noteq> []" "vs \<noteq> []"
  proof -
    have "list_next (pra_list s) (last us) = hd vs"
    proof -
      have "queued s (butlast us @ last us # vs)" using assms(1) that(1) by (metis append_butlast_last_id append.assoc append_Cons append_Nil)
      from next_in_ring [OF this] show ?thesis using that(2) by simp
    qed
    moreover have "hd vs \<noteq> PraHead" using nh that(2) by (metis Un_iff hd_in_set set_append)
    ultimately show ?thesis by (simp add: hand_next_def)
  qed
  show ?thesis
  proof (cases "us = []")
    case True
    then show ?thesis using p(2) lst assms(2) by (intro path_append) simp_all
  next
    case us: False
    have "hand_path s (us @ [hd (vs @ us)])"
    proof (rule path_append [OF p(1)])
      show "hand_next s (last us) (hd [hd (vs @ us)])" using lst mid us by (cases "vs = []") (simp_all add: hd_append)
    qed simp
    from path_append [OF p(2) this] show ?thesis using lst us by (cases "vs = []") (simp_all add: hd_append)
  qed
qed

lemma path_prefix: "hand_path s (ps @ qs) \<Longrightarrow> hand_path s ps"
  by (induction s ps rule: hand_path.induct) simp_all

definition clock_choice :: "swap \<Rightarrow> pra_le list \<Rightarrow> pra_le" where
  "clock_choice s order = (case find (\<lambda>p. visited s p \<noteq> 1) order of Some p \<Rightarrow> p | None \<Rightarrow> hd order)"

text \<open>C33: The clock gives a second chance: on any list of pages that is not empty the search ends, and the victim is the first page
  from the hand on that was not visited; the pages passed lose their mark, and if all were visited the
  first of them is taken in the second round. But the hand stays on the page it removed: asked again, the
  policy names the same page once more, although it has left the list.\<close>

theorem clock_second_chance:
  assumes c: "clock_order us vs s" "us @ vs \<noteq> []"
  shows "\<exists>s' s''. clock_swap_out_victim s False = Some (clock_choice s (vs @ us), s')
    \<and> queued s' (remove1 (clock_choice s (vs @ us)) (us @ vs))
    \<and> visited s' = (\<lambda>p. if p \<in> set (takeWhile (\<lambda>p. visited s p = 1) (vs @ us)) then 0 else visited s p)
    \<and> clock_swap_out_victim s' False = Some (clock_choice s (vs @ us), s'')"
proof -
  let ?order = "vs @ us" and ?z = "clock_choice s (vs @ us)"
  define ws where "ws = takeWhile (\<lambda>p. visited s p = 1) ?order"
  have q: "queued s (us @ vs)" using c(1) by (simp add: clock_order_def)
  have dis: "distinct (us @ vs)" "PraHead \<notin> set (us @ vs)" using dlist_distinct [OF q [unfolded queued_def]] by simp_all
  have ne: "?order \<noteq> []" using c(2) by auto
  have path: "hand_path s (?order @ [hd ?order])" using path_round [OF q c(2)] by simp
  have z: "?z \<in> set ?order \<and> hd (ws @ [?z]) = hd ?order \<and> hand_path s (ws @ [?z]) \<and> (?z \<in> set ws \<or> visited s ?z \<noteq> 1)"
  proof (cases "\<forall>p \<in> set ?order. visited s p = 1")
    case True
    then have f: "find (\<lambda>p. visited s p \<noteq> 1) ?order = None" by (auto simp: find_None_iff)
    have "ws = ?order" unfolding ws_def using True by (intro takeWhile_eq_all_conv [THEN iffD2])
    moreover have "?z = hd ?order" unfolding clock_choice_def f by simp
    ultimately show ?thesis using ne path by (simp add: hd_append split: if_splits)
  next
    case False
    then have "dropWhile (\<lambda>p. visited s p = 1) ?order \<noteq> []" unfolding dropWhile_eq_Nil_conv by blast
    then obtain y ys where d: "dropWhile (\<lambda>p. visited s p = 1) ?order = y # ys" by (cases "dropWhile (\<lambda>p. visited s p = 1) ?order") simp_all
    have o: "?order = ws @ y # ys" using takeWhile_dropWhile_id [of "\<lambda>p. visited s p = 1" ?order] unfolding ws_def d by (rule sym)
    have y: "visited s y \<noteq> 1" using hd_dropWhile [of "\<lambda>p. visited s p = 1" ?order] unfolding d by simp
    have w: "\<forall>p \<in> set ws. visited s p = 1" unfolding ws_def by (meson set_takeWhileD)
    have "find (\<lambda>p. visited s p \<noteq> 1) (ws @ y # ys) = Some y" using w y by (induction ws) simp_all
    then have "?z = y" unfolding clock_choice_def o by simp
    moreover have "hand_path s (ws @ [y])" using path path_prefix [of s "ws @ [y]" "ys @ [hd ?order]"] by (simp add: o)
    ultimately show ?thesis using y unfolding o by (cases ws) simp_all
  qed
  have "hand_at s (hd ?order)"
  proof -
    have "hd ?order \<noteq> PraHead" using dis(2) ne by (metis Un_commute hd_in_set set_append)
    moreover have "curr_ptr s = hd ?order \<or> curr_ptr s = PraHead \<and> list_next (pra_list s) PraHead = hd ?order"
      using c dlist_next_head [OF q [unfolded queued_def]] by (auto simp: clock_order_def hd_append)
    ultimately show ?thesis by (simp add: hand_at_def)
  qed
  moreover have "distinct ws" unfolding ws_def using dis(1) by (intro distinct_takeWhile) auto
  moreover have "\<forall>w \<in> set ws. visited s w = 1" unfolding ws_def by (meson set_takeWhileD)
  ultimately have v: "clock_loop s = Some (?z, swept s ws ?z)" using z by (intro clock_walk) simp_all
  obtain as bs where sp: "us @ vs = as @ ?z # bs" "?z \<notin> set as" using z by (metis Un_commute set_append split_list_first)
  have "queued (swept s ws ?z) (remove1 ?z (us @ vs))"
    using q sp dlist_del [of "pra_list s" PraHead as ?z bs] by (simp add: queued_def swept_def remove1_append)
  moreover have "?z \<noteq> PraHead" using z dis(2) by auto
  then have "hand_at (swept s ws ?z) (hd ([] @ [?z]))" by (simp add: hand_at_def swept_def)
  then have "clock_loop (swept s ws ?z) = Some (?z, swept (swept s ws ?z) [] ?z)"
    using z by (intro clock_walk) (auto simp: swept_def)
  ultimately show ?thesis using v by (auto simp: clock_swap_out_victim_def swept_def ws_def)
qed

section \<open>A list of two pages\<close>

definition demo_swap :: swap where
  "demo_swap = \<lparr>pra_list = \<lparr>nxt = (\<lambda>_. PraHead)(PraHead := Pra 1, Pra 1 := Pra 2), prv = (\<lambda>_. PraHead)(PraHead := Pra 2, Pra 2 := Pra 1)\<rparr>,
     curr_ptr = PraHead, visited = (\<lambda>_. 0)(Pra 1 := 1), pte_a = (\<lambda>_. False)\<rparr>"

lemma demo_swap_queued: "queued demo_swap [Pra 1, Pra 2]"
  by (simp add: queued_def dlist_def demo_swap_def)

theorem clock_second_chance_witness:
  "\<exists>s' s''. clock_swap_out_victim demo_swap False = Some (Pra 2, s') \<and> clock_swap_out_victim s' False = Some (Pra 2, s'') \<and> queued s' [Pra 1]"
proof -
  have "clock_order [] [Pra 1, Pra 2] demo_swap" using demo_swap_queued by (simp add: clock_order_def) (simp add: demo_swap_def)
  moreover have "clock_choice demo_swap [Pra 1, Pra 2] = Pra 2" by (simp add: clock_choice_def demo_swap_def)
  ultimately show ?thesis using clock_second_chance [of "[]" "[Pra 1, Pra 2]" demo_swap] by auto
qed

theorem lru_tick_hangs_witness: "lru_tick_event demo_swap = None"
  using lru_tick_hangs [OF demo_swap_queued] by simp

theorem lru_is_fifo_witness:
  "map_option fst (victims (\<lambda>s. lru_swap_out_victim s False) (fold (\<lambda>q s. lru_map_swappable s q) [Pra 5, Pra 3] (fifo_init_mm demo_swap)) 2) = Some [Pra 5, Pra 3]"
proof -
  have "queued (fifo_init_mm demo_swap) []" using dlist_init [of "pra_list demo_swap" PraHead] by (simp add: queued_def fifo_init_mm_def del: dlist_Nil)
  then show ?thesis using lru_is_fifo [of "fifo_init_mm demo_swap" "[Pra 5, Pra 3]" 2] by simp
qed

end
