(* ===== verification/Format.thy ===== *)
theory Format
  imports Strings
begin

text \<open>
  Formatted output, \<open>libs/printfmt.c\<close>. The callback \<open>putch\<close> only receives characters, so a routine
  that prints returns the list of the characters it passes to \<open>putch\<close>, in order; \<open>vsnprintf\<close> runs
  \<open>sprintputch\<close> over that list. The variable arguments are a sequence of 64 bit words and the index of
  the next one. The format is read from memory the output does not overwrite.
\<close>

definition text_bytes :: "string \<Rightarrow> byte list" where
  "text_bytes = map asc"

section \<open>Numbers\<close>

definition digit_char :: "nat \<Rightarrow> byte" where
  "digit_char d = text_bytes ''0123456789abcdef'' ! d"

partial_function (option) printnum :: "nat \<Rightarrow> nat \<Rightarrow> int \<Rightarrow> byte \<Rightarrow> byte list option" where
  "printnum num base width padc = do {
     before \<leftarrow> (if num \<ge> base then printnum (num div base) base (width - 1) padc
               else Some (replicate (nat (width - 1)) padc));
     Some (before @ [digit_char (num mod base)])
   }"

type_synonym va_list = "nat \<Rightarrow> 64 word"

definition getuint :: "va_list \<Rightarrow> nat \<Rightarrow> nat \<Rightarrow> nat \<times> nat" where
  "getuint args ap lflag = (if lflag \<ge> 1 then unat (args ap) else unat (ucast (args ap) :: 32 word), ap + 1)"

definition getint :: "va_list \<Rightarrow> nat \<Rightarrow> nat \<Rightarrow> int \<times> nat" where
  "getint args ap lflag = (if lflag \<ge> 1 then sint (args ap) else sint (ucast (args ap) :: 32 word), ap + 1)"

section \<open>Error messages\<close>

definition MAXERROR :: int where "MAXERROR = 24"

definition error_string :: "int \<Rightarrow> string option" where
  "error_string = map_of
    [(1, ''unspecified error''), (2, ''bad process''), (3, ''invalid parameter''), (4, ''out of memory''),
     (5, ''out of processes''), (6, ''segmentation fault''), (8, ''invalid elf file''), (9, ''process is killed''),
     (10, ''panic failure''), (13, ''no such device''), (14, ''device not available''), (15, ''device/file is busy''),
     (16, ''no such file or directory''), (17, ''is a directory''), (18, ''not a directory''), (19, ''cross device link''),
     (20, ''unimplemented feature''), (21, ''illegal seek''), (22, ''too many files are open''),
     (23, ''file or directory already exists''), (24, ''directory is not empty'')]"

text \<open>\<open>%e\<close>; \<open>-err\<close> wraps for the least \<open>int\<close>, and the table has no negative entries.\<close>

definition print_error :: "int \<Rightarrow> byte list option" where
  "print_error err =
     (let err = (if err < 0 then signed_take_bit 31 (- err) else err) in
      if err < 0 then None
      else if err > MAXERROR \<or> error_string err = None
      then do { digits \<leftarrow> printnum (nat err) 10 (-1) (asc CHR '' ''); Some (text_bytes ''error '' @ digits) }
      else Some (text_bytes (the (error_string err))))"

section \<open>vprintfmt\<close>

record spec =
  padc :: byte
  width :: int
  precision :: int
  lflag :: nat
  altflag :: bool

definition plain_spec :: spec where
  "plain_spec = \<lparr>padc = asc CHR '' '', width = -1, precision = -1, lflag = 0, altflag = False\<rparr>"

definition process_precision :: "int \<Rightarrow> spec \<Rightarrow> spec" where
  "process_precision prec sp = (if width sp < 0 then sp\<lparr>width := prec, precision := -1\<rparr> else sp\<lparr>precision := prec\<rparr>)"

partial_function (option) number_loop :: "mem \<Rightarrow> nat \<Rightarrow> byte \<Rightarrow> int \<Rightarrow> (int \<times> nat) option" where
  "number_loop m fmt ch prec =
     (let prec = signed_take_bit 31 (prec * 10 + uint ch - 48); ch = m fmt in
      if ch < asc CHR ''0'' \<or> asc CHR ''9'' < ch then Some (prec, fmt) else number_loop m (fmt + 1) ch prec)"

text \<open>The characters of a string, and the width left over.\<close>

partial_function (option) string_loop :: "mem \<Rightarrow> nat \<Rightarrow> int \<Rightarrow> int \<Rightarrow> bool \<Rightarrow> (byte list \<times> int) option" where
  "string_loop m p prec w alt =
     (let ch = m p in
      if ch \<noteq> 0 \<and> (prec < 0 \<or> prec - 1 \<ge> 0) then do {
        (rest, w) \<leftarrow> string_loop m (p + 1) (if prec < 0 then prec else prec - 1) (w - 1) alt;
        Some ((if alt \<and> (ch < asc CHR '' '' \<or> asc CHR ''~'' < ch) then asc CHR ''?'' else ch) # rest, w)
      } else Some ([], w))"

definition null_text :: mem where
  "null_text = put_bytes (\<lambda>_. 0) 0 (text_bytes ''(null)'')"

definition print_string :: "mem \<Rightarrow> nat \<Rightarrow> spec \<Rightarrow> byte list option" where
  "print_string m p sp = do {
     let m = (if p = 0 then null_text else m);
     let (left, w) = (if width sp > 0 \<and> padc sp \<noteq> asc CHR ''-'' then
        let w = signed_take_bit 31 (width sp - int (strnlen m p (unat (word_of_int (precision sp) :: 64 word))))
        in (replicate (nat w) (padc sp), if w > 0 then 0 else w)
       else ([], width sp));
     (out, w) \<leftarrow> string_loop m p (precision sp) w (altflag sp);
     Some (left @ out @ replicate (nat w) (asc CHR '' ''))
   }"

text \<open>The scan backwards to the character behind the \<open>%\<close>.\<close>

partial_function (option) back_to_percent :: "mem \<Rightarrow> nat \<Rightarrow> nat option" where
  "back_to_percent m fmt = (if m (fmt - 1) \<noteq> asc CHR ''%'' then back_to_percent m (fmt - 1) else Some fmt)"

text \<open>The cases that end an escape sequence, for the character \<open>ch\<close> before \<open>fmt\<close>.\<close>

definition number_case :: "nat \<Rightarrow> nat \<Rightarrow> spec \<Rightarrow> byte list \<Rightarrow> nat \<Rightarrow> nat \<Rightarrow> (byte list \<times> nat \<times> nat) option" where
  "number_case num base sp before fmt ap = do {
     digits \<leftarrow> printnum num base (width sp) (padc sp);
     Some (before @ digits, fmt, ap)
   }"

definition conversion :: "mem \<Rightarrow> va_list \<Rightarrow> byte \<Rightarrow> nat \<Rightarrow> nat \<Rightarrow> spec \<Rightarrow> (byte list \<times> nat \<times> nat) option" where
  "conversion m args ch fmt ap sp =
     (if ch = asc CHR ''c'' then Some ([ucast (args ap)], fmt, ap + 1)
      else if ch = asc CHR ''e'' then do { out \<leftarrow> print_error (sint (ucast (args ap) :: 32 word)); Some (out, fmt, ap + 1) }
      else if ch = asc CHR ''s'' then do { out \<leftarrow> print_string m (unat (args ap)) sp; Some (out, fmt, ap + 1) }
      else if ch = asc CHR ''d'' then
        let (num, ap) = getint args ap (lflag sp) in
        if num < 0 then number_case (nat (- num)) 10 sp [asc CHR ''-''] fmt ap else number_case (nat num) 10 sp [] fmt ap
      else if ch = asc CHR ''u'' then let (num, ap) = getuint args ap (lflag sp) in number_case num 10 sp [] fmt ap
      else if ch = asc CHR ''o'' then let (num, ap) = getuint args ap (lflag sp) in number_case num 8 sp [] fmt ap
      else if ch = asc CHR ''p'' then number_case (unat (args ap)) 16 sp (text_bytes ''0x'') fmt (ap + 1)
      else if ch = asc CHR ''x'' then let (num, ap) = getuint args ap (lflag sp) in number_case num 16 sp [] fmt ap
      else if ch = asc CHR ''%'' then Some ([ch], fmt, ap)
      else do { fmt \<leftarrow> back_to_percent m (fmt - 1); Some ([asc CHR ''%''], fmt, ap) })"

partial_function (option) reswitch :: "mem \<Rightarrow> va_list \<Rightarrow> nat \<Rightarrow> nat \<Rightarrow> spec \<Rightarrow> (byte list \<times> nat \<times> nat) option" where
  "reswitch m args fmt ap sp =
     (let ch = m fmt; fmt = fmt + 1 in
      if ch = asc CHR ''-'' then reswitch m args fmt ap (sp\<lparr>padc := asc CHR ''-''\<rparr>)
      else if ch = asc CHR ''0'' then reswitch m args fmt ap (sp\<lparr>padc := asc CHR ''0''\<rparr>)
      else if asc CHR ''1'' \<le> ch \<and> ch \<le> asc CHR ''9'' then do {
        (prec, fmt) \<leftarrow> number_loop m fmt ch 0;
        reswitch m args fmt ap (process_precision prec sp)
      }
      else if ch = asc CHR ''*'' then reswitch m args fmt (ap + 1) (process_precision (sint (ucast (args ap) :: 32 word)) sp)
      else if ch = asc CHR ''.'' then reswitch m args fmt ap (if width sp < 0 then sp\<lparr>width := 0\<rparr> else sp)
      else if ch = asc CHR ''#'' then reswitch m args fmt ap (sp\<lparr>altflag := True\<rparr>)
      else if ch = asc CHR ''l'' then reswitch m args fmt ap (sp\<lparr>lflag := lflag sp + 1\<rparr>)
      else conversion m args ch fmt ap sp)"

partial_function (option) vprintfmt :: "mem \<Rightarrow> nat \<Rightarrow> va_list \<Rightarrow> nat \<Rightarrow> byte list option" where
  "vprintfmt m fmt args ap =
     (let ch = m fmt; fmt = fmt + 1 in
      if ch \<noteq> asc CHR ''%'' then
        if ch = 0 then Some [] else do { rest \<leftarrow> vprintfmt m fmt args ap; Some (ch # rest) }
      else do {
        (out, fmt, ap) \<leftarrow> reswitch m args fmt ap plain_spec;
        rest \<leftarrow> vprintfmt m fmt args ap;
        Some (out @ rest)
      })"

section \<open>Printing into a buffer\<close>

record sprintbuf =
  sb_buf :: nat
  sb_ebuf :: nat
  sb_cnt :: int

definition sprintputch :: "byte \<Rightarrow> sprintbuf \<times> mem \<Rightarrow> sprintbuf \<times> mem" where
  "sprintputch ch = (\<lambda>(b, m).
     let b = b\<lparr>sb_cnt := sb_cnt b + 1\<rparr> in
     if sb_buf b < sb_ebuf b then (b\<lparr>sb_buf := sb_buf b + 1\<rparr>, m(sb_buf b := ch)) else (b, m))"

definition vsnprintf :: "mem \<Rightarrow> nat \<Rightarrow> nat \<Rightarrow> nat \<Rightarrow> va_list \<Rightarrow> (int \<times> mem) option" where
  "vsnprintf m str sz fmt args =
     (let b = \<lparr>sb_buf = str, sb_ebuf = str + sz - 1, sb_cnt = 0\<rparr> in
      if str = 0 \<or> sb_buf b > sb_ebuf b then Some (- E_INVAL, m)
      else do {
        out \<leftarrow> vprintfmt m fmt args 0;
        let (b, m) = fold sprintputch out (b, m);
        Some (sb_cnt b, m(sb_buf b := 0))
      })"

section \<open>Buffers\<close>

lemma sprintputch_step:
  "sprintputch ch (\<lparr>sb_buf = p, sb_ebuf = e, sb_cnt = c\<rparr>, m) =
    (if p < e then (\<lparr>sb_buf = Suc p, sb_ebuf = e, sb_cnt = c + 1\<rparr>, put_bytes m p [ch]) else (\<lparr>sb_buf = p, sb_ebuf = e, sb_cnt = c + 1\<rparr>, m))"
  by (simp add: sprintputch_def Let_def put_one)

lemma fold_sprintputch:
  "p \<le> e \<Longrightarrow> fold sprintputch out (\<lparr>sb_buf = p, sb_ebuf = e, sb_cnt = c\<rparr>, m)
   = (\<lparr>sb_buf = p + min (e - p) (length out), sb_ebuf = e, sb_cnt = c + int (length out)\<rparr>, put_bytes m p (take (e - p) out))"
proof (induction out arbitrary: p c m)
  case (Cons ch out)
  show ?case
  proof (cases "p < e")
    case True
    then have t: "e - p = Suc (e - Suc p)" by simp
    have "put_bytes (put_bytes m p [ch]) (Suc p) (take (e - Suc p) out) = put_bytes m p (take (e - p) (ch # out))"
      using put_put [of m p "[ch]" "take (e - Suc p) out"] by (simp add: t)
    then show ?thesis using True Cons.IH [of "Suc p" "c + 1" "put_bytes m p [ch]"] by (simp add: sprintputch_step t)
  next
    case False
    then show ?thesis using Cons.prems Cons.IH [of p "c + 1" m] by (simp add: sprintputch_step)
  qed
qed simp

text \<open>C30: \<open>vsnprintf\<close> never leaves its buffer: it stores the first \<open>size - 1\<close> characters of what \<open>vprintfmt\<close> prints
  and a null byte behind them, touches no other byte, and returns the length of the whole output; a
  null buffer or a size of zero is refused.\<close>

theorem vsnprintf_bounded:
  "vsnprintf m str sz fmt args =
    (if str = 0 \<or> sz = 0 then Some (- E_INVAL, m)
     else map_option (\<lambda>out. (int (length out), put_bytes m str (take (sz - 1) out @ [0]))) (vprintfmt m fmt args 0))"
proof (cases "str = 0 \<or> sz = 0")
  case True
  then show ?thesis by (auto simp: vsnprintf_def Let_def)
next
  case False
  then have s: "str \<le> str + sz - 1" "str + sz - 1 - str = sz - 1" by auto
  have "(put_bytes m str (take (sz - 1) out))(str + min (sz - 1) (length out) := 0) = put_bytes m str (take (sz - 1) out @ [0])" for out
    using put_put [of m str "take (sz - 1) out" "[0]"] by (simp add: put_one min.commute)
  then show ?thesis using False s by (cases "vprintfmt m fmt args 0") (simp_all add: vsnprintf_def Let_def fold_sprintputch not_less)
qed

section \<open>Printed numbers\<close>

function digits :: "nat \<Rightarrow> nat \<Rightarrow> nat list" where
  "digits base num = (if num < base \<or> base < 2 then [num] else digits base (num div base) @ [num mod base])"
  by pat_completeness auto
termination by (relation "measure snd") auto

declare digits.simps [simp del]

lemma digits_nonempty [simp]: "digits base num \<noteq> []"
  by (subst digits.simps) simp

lemma printnum_ok:
  assumes "2 \<le> base"
  shows "printnum num base w pc = Some (replicate (nat (w - int (length (digits base num)))) pc @ map digit_char (digits base num))"
proof (induction num arbitrary: w rule: less_induct)
  case (less num)
  show ?case
  proof (cases "num < base")
    case True
    then show ?thesis by (subst printnum.simps, subst (1 2) digits.simps) simp
  next
    case False
    then have "num div base < num" using assms by simp
    note IH = less.IH [OF this, of "w - 1"]
    have "digits base num = digits base (num div base) @ [num mod base]" using False assms by (subst digits.simps) simp
    then show ?thesis using False by (subst printnum.simps) (simp add: IH algebra_simps)
  qed
qed

lemma digits_less: "2 \<le> base \<Longrightarrow> d \<in> set (digits base num) \<Longrightarrow> d < base"
proof (induction base num rule: digits.induct)
  case (1 base num)
  show ?case
  proof (cases "num < base")
    case True
    then show ?thesis using 1(3) by (subst (asm) digits.simps) simp
  next
    case False
    then have "digits base num = digits base (num div base) @ [num mod base]" using 1(2) by (subst digits.simps) simp
    then show ?thesis using 1 False by auto
  qed
qed

lemma number_of_digits: "2 \<le> base \<Longrightarrow> number_of base (digits base num) = of_nat num"
proof (induction base num rule: digits.induct)
  case (1 base num)
  show ?case
  proof (cases "num < base")
    case True
    then show ?thesis by (subst digits.simps) (simp add: number_of_def)
  next
    case False
    have "of_nat (num div base) * of_nat base + of_nat (num mod base) = (of_nat num :: 64 word)"
      by (metis of_nat_add of_nat_mult div_mult_mod_eq)
    then show ?thesis using False 1 by (subst digits.simps) (simp add: number_of_def)
  qed
qed

lemma digit_value_char: "d < 16 \<Longrightarrow> digit_value (digit_char d) = Some d"
proof -
  have "\<forall>d \<in> set [0..<16]. digit_value (digit_char d) = Some d" by code_simp
  then show "d < 16 \<Longrightarrow> digit_value (digit_char d) = Some d" by simp
qed

text \<open>C31: What \<open>printnum\<close> prints in a base from 2 to 16, padded with blanks to any width, \<open>strtol\<close> reads back in
  that base: it returns the number (modulo \<open>2 ^ 64\<close>) and stops behind its last digit.\<close>

theorem printnum_strtol:
  assumes base: "2 \<le> base" "base \<le> 16" and mem: "cstring m s out" and out: "printnum num base w (asc CHR '' '') = Some out"
  shows "strtol m s base = Some (of_nat num, s + length out)"
proof -
  let ?ds = "digits base num"
  let ?k = "nat (w - int (length ?ds))"
  have o: "out = replicate ?k (asc CHR '' '') @ map digit_char ?ds" using out printnum_ok [OF base(1)] by simp
  have g: "get_bytes m s (length out) = out" "m (s + length out) = 0" using mem by (simp_all add: cstring_bytes)
  have k: "get_bytes m s ?k = replicate ?k (asc CHR '' '')" "get_bytes m (s + ?k) (length ?ds) = map digit_char ?ds"
    using g(1) unfolding o by (simp_all add: get_bytes_append)
  have d: "list_all2 (\<lambda>c d. digit_value c = Some d \<and> d < base) (map digit_char ?ds) ?ds"
    unfolding list_all2_conv_all_nth using digits_less [OF base(1)] base(2) by (auto intro!: digit_value_char dest: nth_mem less_le_trans)
  have stop: "ends_number base (m (s + ?k + length (map digit_char ?ds)))"
    using g(2) unfolding o by (simp add: ends_number_def digit_value_def asc_def add.assoc)
  have x: "m (s + ?k + 1) \<noteq> asc CHR ''x''"
  proof (cases "1 < length ?ds")
    case True
    then have "m (s + ?k + 1) = digit_char (?ds ! 1)" using arg_cong [OF k(2), of "\<lambda>xs. xs ! 1"] by simp
    moreover have "?ds ! 1 < 16" using True digits_less [OF base(1) nth_mem] base(2) by fastforce
    ultimately show ?thesis using digit_value_char [of "?ds ! 1"] by (auto simp: digit_value_def asc_def split: if_splits)
  next
    case False
    then have "length ?ds = 1" by (cases ?ds) auto
    then show ?thesis using g(2) unfolding o by (simp add: asc_def)
  qed
  have "strtol m s base = Some (number_of base ?ds, s + ?k + length (map digit_char ?ds))"
    by (rule strtol_ok [OF k(1) d _ _ stop]) (use k(2) base x in auto)
  then show ?thesis by (simp add: o number_of_digits [OF base(1)])
qed

section \<open>Every format is printed\<close>

lemma number_loop_returns:
  assumes "m e = 0"
  shows "fmt \<le> e \<Longrightarrow> \<exists>prec' fmt'. number_loop m fmt ch prec = Some (prec', fmt') \<and> fmt \<le> fmt' \<and> fmt' \<le> e"
proof (induction "e - fmt" arbitrary: fmt ch prec)
  case 0
  then have "m fmt < asc CHR ''0''" using assms by (simp add: asc_def)
  then show ?case using 0 by (subst number_loop.simps) (simp add: Let_def)
next
  case (Suc n)
  show ?case
  proof (cases "m fmt < asc CHR ''0'' \<or> asc CHR ''9'' < m fmt")
    case True
    then show ?thesis using Suc.prems by (subst number_loop.simps) (simp add: Let_def)
  next
    case False
    have "n = e - (fmt + 1)" "fmt + 1 \<le> e" using Suc.hyps(2) by auto
    from Suc.hyps(1) [OF this, of "m fmt" "signed_take_bit 31 (prec * 10 + uint ch - 48)"] False show ?thesis
      by (subst number_loop.simps) (auto simp: Let_def)
  qed
qed

lemma string_loop_returns:
  assumes "m e = 0"
  shows "p \<le> e \<Longrightarrow> \<exists>out w'. string_loop m p prec w alt = Some (out, w')"
proof (induction "e - p" arbitrary: p prec w)
  case 0
  then show ?case using assms by (subst string_loop.simps) (simp add: Let_def)
next
  case (Suc n)
  have "n = e - (p + 1)" "p + 1 \<le> e" using Suc.hyps(2) by auto
  from Suc.hyps(1) [OF this, of "if prec < 0 then prec else prec - 1" "w - 1"] show ?case
    by (subst string_loop.simps) (auto simp: Let_def)
qed

lemma back_to_percent_returns:
  assumes "0 < k" "m (k - 1) = asc CHR ''%''"
  shows "k \<le> fmt \<Longrightarrow> \<exists>fmt'. back_to_percent m fmt = Some fmt' \<and> k \<le> fmt' \<and> fmt' \<le> fmt"
proof (induction "fmt - k" arbitrary: fmt)
  case 0
  then show ?case using assms by (subst back_to_percent.simps) simp
next
  case (Suc n)
  have "n = (fmt - 1) - k" "k \<le> fmt - 1" using Suc.hyps(2) by auto
  from Suc.hyps(1) [OF this] Suc.prems show ?case
    by (subst back_to_percent.simps) (auto intro: le_trans [OF _ diff_le_self])
qed

text \<open>The arguments: every pointer leads to a string, and no \<open>int\<close> is the least one.\<close>

definition args_ok :: "mem \<Rightarrow> va_list \<Rightarrow> bool" where
  "args_ok m args \<longleftrightarrow> (\<forall>i. (\<exists>b \<ge> unat (args i). m b = 0) \<and> (ucast (args i) :: 32 word) \<noteq> 0x80000000)"

lemma print_error_returns: "(w :: 32 word) \<noteq> 0x80000000 \<Longrightarrow> \<exists>out. print_error (sint w) = Some out"
proof -
  assume w: "w \<noteq> 0x80000000"
  have "sint w \<noteq> - (2 ^ 31)"
  proof
    assume "sint w = - (2 ^ 31)"
    then have "of_int (sint w) = (of_int (- (2 ^ 31)) :: 32 word)" by (rule arg_cong)
    then have "w = of_int (- (2 ^ 31))" by (simp only: of_int_sint scast_id)
    then show False using w by simp
  qed
  moreover have "- (2 ^ 31) \<le> sint w" using sint_range_size [of w] by (simp add: word_size)
  ultimately have "- (2 ^ 31) < sint w" by simp
  then have "sint w < 0 \<Longrightarrow> signed_take_bit 31 (- sint w) = - sint w" by (simp add: signed_take_bit_int_eq_self)
  then show ?thesis by (auto simp: print_error_def Let_def printnum_ok)
qed

lemma print_string_returns:
  assumes "\<exists>b \<ge> p. m b = 0"
  shows "\<exists>out. print_string m p sp = Some out"
proof -
  have n: "null_text 6 = 0" by (simp add: null_text_def put_bytes_def text_bytes_def)
  obtain e where e: "(if p = 0 then null_text else m) e = 0" "p \<le> e" using assms n by (cases "p = 0") auto
  have l: "\<exists>out w'. string_loop (if p = 0 then null_text else m) p prec w alt = Some (out, w')" for prec w alt
    by (rule string_loop_returns [of _ e]) (use e in auto)
  have "\<exists>out. (case x of (left, w) \<Rightarrow> Option.bind (string_loop (if p = 0 then null_text else m) p prec w alt)
      (\<lambda>(out, w). Some (left @ out @ f w))) = Some out" for x prec alt f
    using l [of prec "snd x" alt] by (cases x) auto
  then show ?thesis unfolding print_string_def Let_def by (rule allI [THEN spec])
qed

lemma conversion_returns:
  assumes a: "args_ok m args" and k: "0 < k" "m (k - 1) = asc CHR ''%''" "k \<le> fmt" and e: "m e = 0" "fmt \<le> e"
  shows "\<exists>out fmt' ap'. conversion m args (m fmt) (fmt + 1) ap sp = Some (out, fmt', ap') \<and> k \<le> fmt' \<and> fmt' \<le> e"
proof -
  let ?ch = "m fmt"
  have num: "number_case n b sp before f ap = Some (before @ the (printnum n b (width sp) (padc sp)), f, ap)" if "2 \<le> b" for n b before f ap
    using printnum_ok [OF that] by (simp add: number_case_def)
  have er: "\<exists>out. print_error (sint (ucast (args ap) :: 32 word)) = Some out"
    by (rule print_error_returns) (use a in \<open>simp add: args_ok_def\<close>)
  have st: "\<exists>out. print_string m (unat (args ap)) sp = Some out"
    by (rule print_string_returns) (use a in \<open>simp add: args_ok_def\<close>)
  show ?thesis
  proof (cases "?ch \<in> asc ` set ''cesduopx%''")
    case True
    then have "?ch \<noteq> 0" by (auto simp: asc_def)
    then have "fmt + 1 \<le> e" using e by (cases "fmt = e") auto
    moreover have "\<exists>out ap'. conversion m args ?ch (fmt + 1) ap sp = Some (out, fmt + 1, ap')"
    proof -
      from er obtain eo where eo: "print_error (sint (ucast (args ap) :: 32 word)) = Some eo" by blast
      from st obtain so where so: "print_string m (unat (args ap)) sp = Some so" by blast
      from True consider "?ch = asc CHR ''c''" | "?ch = asc CHR ''e''" | "?ch = asc CHR ''s''" | "?ch = asc CHR ''d''" | "?ch = asc CHR ''u''"
        | "?ch = asc CHR ''o''" | "?ch = asc CHR ''p''" | "?ch = asc CHR ''x''" | "?ch = asc CHR ''%''" by auto
      then show ?thesis
        by cases (simp_all add: conversion_def asc_def num eo so getint_def getuint_def)
    qed
    ultimately show ?thesis using k(3) by (metis le_add1 le_trans)
  next
    case False
    from back_to_percent_returns [of k m fmt] k e(2) obtain f where
      "back_to_percent m fmt = Some f" "k \<le> f" "f \<le> e" by (meson le_trans)
    then show ?thesis using False unfolding conversion_def by simp
  qed
qed

definition stays :: "nat \<Rightarrow> nat \<Rightarrow> (byte list \<times> nat \<times> nat) option \<Rightarrow> bool" where
  "stays k e r \<longleftrightarrow> (\<exists>out fmt ap. r = Some (out, fmt, ap) \<and> k \<le> fmt \<and> fmt \<le> e)"

lemma reswitch_returns:
  assumes a: "args_ok m args" and k: "0 < k" "m (k - 1) = asc CHR ''%''" and e: "m e = 0"
  shows "k \<le> fmt \<Longrightarrow> fmt \<le> e \<Longrightarrow> stays k e (reswitch m args fmt ap sp)"
proof (induction "e - fmt" arbitrary: fmt ap sp rule: less_induct)
  case less
  let ?ch = "m fmt"
  have next': "stays k e (reswitch m args f ap sp)"
    if "fmt < f" "f \<le> e" for f ap sp
    by (rule less.hyps) (use that less.prems in auto)
  have lt: "fmt + 1 \<le> e" if "?ch \<noteq> 0" using that e less.prems(2) by (cases "fmt = e") auto
  note c = conversion_returns [OF a k less.prems(1) e less.prems(2), of ap sp, folded stays_def]
  show ?case
  proof (cases "?ch \<in> asc ` set ''-0*.#l''")
    case True
    then have "?ch \<noteq> 0" by (auto simp: asc_def)
    have n: "stays k e (reswitch m args (fmt + 1) ap sp)" for ap sp by (rule next' [OF _ lt [OF \<open>?ch \<noteq> 0\<close>]]) simp
    show ?thesis using True by (subst reswitch.simps) (auto simp: Let_def asc_def intro: n [simplified])
  next
    case no: False
    show ?thesis
    proof (cases "asc CHR ''1'' \<le> ?ch \<and> ?ch \<le> asc CHR ''9''")
      case True
      then have "?ch \<noteq> 0" by (auto simp: asc_def)
      from number_loop_returns [of m e "fmt + 1" ?ch 0] e lt [OF this] obtain prec f where
        f: "number_loop m (fmt + 1) ?ch 0 = Some (prec, f)" "fmt + 1 \<le> f" "f \<le> e" by blast
      have "stays k e (reswitch m args f ap (process_precision prec sp))" by (rule next') (use f(2,3) in auto)
      then show ?thesis using no True f(1) by (subst reswitch.simps) (simp add: Let_def)
    next
      case False
      then show ?thesis using no c by (subst reswitch.simps) (auto simp: Let_def)
    qed
  qed
qed

text \<open>C29: \<open>vprintfmt\<close> comes to an end for every format that is a string, whatever it contains (unknown
  conversions and a percent sign at the very end included), as long as its pointer arguments lead to
  strings and no \<open>int\<close> argument is the least one, whose message \<open>%e\<close> cannot look up.\<close>

theorem vprintfmt_returns:
  assumes "args_ok m args" "m e = 0" "fmt \<le> e"
  shows "\<exists>out. vprintfmt m fmt args ap = Some out"
  using assms(3)
proof (induction "e - fmt" arbitrary: fmt ap rule: less_induct)
  case less
  show ?case
  proof (cases "m fmt = 0")
    case True
    then show ?thesis by (subst vprintfmt.simps) (simp add: Let_def asc_def)
  next
    case False
    then have lt: "fmt + 1 \<le> e" using assms(2) less.prems by (cases "fmt = e") auto
    have IH: "\<exists>out. vprintfmt m f args ap = Some out" if "fmt < f" "f \<le> e" for f ap
      by (rule less.hyps) (use that in auto)
    show ?thesis
    proof (cases "m fmt = asc CHR ''%''")
      case True
      from reswitch_returns [OF assms(1) _ _ assms(2) _ lt, of "fmt + 1" ap plain_spec] True obtain out f ap' where
        f: "reswitch m args (fmt + 1) ap plain_spec = Some (out, f, ap')" "fmt + 1 \<le> f" "f \<le> e" by (auto simp: stays_def)
      from IH [of f ap'] f(2,3) obtain rest where "vprintfmt m f args ap' = Some rest" by auto
      then show ?thesis using True f(1) by (subst vprintfmt.simps) (simp add: Let_def)
    next
      case no: False
      from IH [of "fmt + 1" ap] lt obtain rest where "vprintfmt m (fmt + 1) args ap = Some rest" by auto
      then show ?thesis using no False by (subst vprintfmt.simps) (simp add: Let_def)
    qed
  qed
qed

section \<open>A message\<close>

text \<open>The format \<open>%5d%\<close> at 100 and the string \<open>fish\<close> at 200 in a memory that is zero elsewhere.\<close>

definition demo_text :: mem where
  "demo_text = put_bytes demo_mem 100 [0x25, 0x35, 0x64, 0x25, 0]"

lemma demo_args: "args_ok demo_text (\<lambda>i. 200)"
proof -
  have "demo_text 300 = 0" by (simp add: demo_text_def demo_mem_def put_bytes_def)
  then show ?thesis by (auto simp: args_ok_def intro!: exI [of _ 300])
qed

theorem vprintfmt_returns_witness:
  "\<exists>out. vprintfmt demo_text 100 (\<lambda>i. 200) 0 = Some out"
  by (rule vprintfmt_returns [OF demo_args, of 104]) (simp_all add: demo_text_def put_bytes_def)

theorem vsnprintf_bounded_witness:
  "vsnprintf demo_text 500 0 100 (\<lambda>i. 200) = Some (- E_INVAL, demo_text)"
  unfolding vsnprintf_bounded by simp

theorem printnum_strtol_witness:
  "strtol (put_bytes (\<lambda>_. 0) 100 [0x20, 0x32, 0x61]) 100 16 = Some (42, 103)"
proof -
  let ?m = "put_bytes (\<lambda>_. 0) 100 [0x20, 0x32, 0x61] :: mem"
  have d: "digits 16 42 = [2, 10]" by (subst digits.simps, subst digits.simps) simp
  have o: "printnum 42 16 3 (asc CHR '' '') = Some [0x20, 0x32, 0x61]"
    by (subst printnum_ok) (simp_all add: d digit_char_def text_bytes_def asc_def)
  have "cstring ?m 100 [0x20, 0x32, 0x61]" by (simp add: put_bytes_def)
  from printnum_strtol [OF _ _ this o] show ?thesis by simp
qed

end
