(* ===== verification/PageTable.thy ===== *)
theory PageTable
  imports PmmManager Vmm
begin

text \<open>
  Sv39 page tables, \<open>kern/mm/pmm.c\<close> over the macros of \<open>mmu.h\<close> and \<open>pmm.h\<close>. Physical pages are named
  by their index in \<open>pages\<close>; the page number in an entry is that index plus \<open>nbase\<close>. The state holds
  the manager's state, the 512 entries of every page that serves as a table, and the reference counts.
  The allocator is an argument, as the kernel calls it through \<open>pmm_manager\<close>; the page descriptors'
  \<open>ref\<close> fields, which no manager reads, are kept here. The part of
  \<open>pgdir_alloc_page\<close> for swappable pages and the swapping in \<open>alloc_pages\<close> are in \<open>PageFault\<close>; the TLB is not modelled, and
  neither are the entries of the kernel, which every root table has: the tables hold the user part of an address space.
\<close>

section \<open>mmu.h and pmm.h\<close>

type_synonym pte = "64 word"

definition PTE_V :: pte where "PTE_V = 1"
definition PTE_W :: pte where "PTE_W = 4"
definition PTE_U :: pte where "PTE_U = 0x10"

definition PDX1 :: "addr \<Rightarrow> nat" where "PDX1 la = unat (drop_bit 30 la AND 0x1FF)"
definition PDX0 :: "addr \<Rightarrow> nat" where "PDX0 la = unat (drop_bit 21 la AND 0x1FF)"
definition PTX :: "addr \<Rightarrow> nat" where "PTX la = unat (drop_bit 12 la AND 0x1FF)"
definition PPN :: "addr \<Rightarrow> nat" where "PPN la = unat (drop_bit 12 la)"
definition PTE_ADDR :: "pte \<Rightarrow> addr" where "PTE_ADDR e = push_bit 2 (e AND NOT 0x3FF)"
definition PTSIZE :: addr where "PTSIZE = PGSIZE * 512"

definition nbase :: nat where "nbase = 0x80000"

record 's vm =
  pm :: 's
  npage :: nat
  tab :: "nat \<Rightarrow> nat \<Rightarrow> pte"
  refs :: "nat \<Rightarrow> int"

definition page2ppn :: "nat \<Rightarrow> nat" where "page2ppn page = page + nbase"
definition page2pa :: "nat \<Rightarrow> addr" where "page2pa page = push_bit 12 (of_nat (page2ppn page))"

definition pte_create :: "nat \<Rightarrow> pte \<Rightarrow> pte" where
  "pte_create ppn flags = push_bit 10 (of_nat ppn) OR PTE_V OR flags"

definition pa2page :: "'s vm \<Rightarrow> addr \<Rightarrow> nat option" where
  "pa2page s pa = do { kassert (PPN pa < npage s); Some (PPN pa - nbase) }"

text \<open>\<open>KADDR\<close>: the page whose bytes are at the kernel address.\<close>

definition KADDR :: "'s vm \<Rightarrow> addr \<Rightarrow> nat option" where
  "KADDR s pa = do { kassert (PPN pa < npage s); Some (PPN pa - nbase) }"

definition pte2page :: "'s vm \<Rightarrow> pte \<Rightarrow> nat option" where
  "pte2page s e = do { kassert (e AND PTE_V \<noteq> 0); pa2page s (PTE_ADDR e) }"

definition set_page_ref :: "nat \<Rightarrow> int \<Rightarrow> 's vm \<Rightarrow> 's vm" where
  "set_page_ref page val s = s\<lparr>refs := (refs s)(page := val)\<rparr>"

definition set_entry_at :: "nat \<Rightarrow> nat \<Rightarrow> pte \<Rightarrow> 's vm \<Rightarrow> 's vm" where
  "set_entry_at t i e s = s\<lparr>tab := (tab s)(t := (tab s t)(i := e))\<rparr>"

section \<open>pmm.c\<close>

type_synonym 's alloc_fun = "'s \<Rightarrow> nat \<Rightarrow> (nat option \<times> 's) option"
type_synonym 's free_fun = "'s \<Rightarrow> nat \<Rightarrow> nat \<Rightarrow> 's option"

definition alloc_page :: "'s alloc_fun \<Rightarrow> 's vm \<Rightarrow> (nat option \<times> 's vm) option" where
  "alloc_page alloc s = do { (r, m) \<leftarrow> alloc (pm s) 1; Some (r, s\<lparr>pm := m\<rparr>) }"

definition free_page :: "'s free_fun \<Rightarrow> 's vm \<Rightarrow> nat \<Rightarrow> 's vm option" where
  "free_page release s page = do { m \<leftarrow> release (pm s) page 1; Some (s\<lparr>pm := m\<rparr>) }"

text \<open>One level of \<open>get_pte\<close>: make sure that entry \<open>i\<close> of table \<open>t\<close> leads to a table.\<close>

definition new_table :: "'s alloc_fun \<Rightarrow> 's vm \<Rightarrow> nat \<Rightarrow> nat \<Rightarrow> bool \<Rightarrow> (bool \<times> 's vm) option" where
  "new_table alloc s t i create =
     (if tab s t i AND PTE_V \<noteq> 0 then Some (True, s)
      else if \<not> create then Some (False, s)
      else do {
        (r, s) \<leftarrow> alloc_page alloc s;
        case r of None \<Rightarrow> Some (False, s)
        | Some page \<Rightarrow> do {
            let s = set_page_ref page 1 s;
            k \<leftarrow> KADDR s (page2pa page);
            let s = s\<lparr>tab := (tab s)(k := \<lambda>_. 0)\<rparr>;
            Some (True, set_entry_at t i (pte_create (page2ppn page) (PTE_U OR PTE_V)) s)
          }
      })"

definition get_pte :: "'s alloc_fun \<Rightarrow> 's vm \<Rightarrow> nat \<Rightarrow> addr \<Rightarrow> bool \<Rightarrow> ((nat \<times> nat) option \<times> 's vm) option" where
  "get_pte alloc s pgdir la create = do {
     (ok, s) \<leftarrow> new_table alloc s pgdir (PDX1 la) create;
     if \<not> ok then Some (None, s)
     else do {
       d \<leftarrow> KADDR s (PTE_ADDR (tab s pgdir (PDX1 la)));
       (ok, s) \<leftarrow> new_table alloc s d (PDX0 la) create;
       if \<not> ok then Some (None, s)
       else do {
         t \<leftarrow> KADDR s (PTE_ADDR (tab s d (PDX0 la)));
         Some (Some (t, PTX la), s)
       }
     }
   }"

definition get_page :: "'s alloc_fun \<Rightarrow> 's vm \<Rightarrow> nat \<Rightarrow> addr \<Rightarrow> (nat option \<times> (nat \<times> nat) option) option" where
  "get_page alloc s pgdir la = do {
     (p, s) \<leftarrow> get_pte alloc s pgdir la False;
     case p of None \<Rightarrow> Some (None, None)
     | Some (t, i) \<Rightarrow> if tab s t i AND PTE_V \<noteq> 0 then do { page \<leftarrow> pte2page s (tab s t i); Some (Some page, p) } else Some (None, p)
   }"

definition page_remove_pte :: "'s free_fun \<Rightarrow> 's vm \<Rightarrow> nat \<Rightarrow> nat \<Rightarrow> 's vm option" where
  "page_remove_pte release s t i =
     (if tab s t i AND PTE_V \<noteq> 0 then do {
        page \<leftarrow> pte2page s (tab s t i);
        let s = set_page_ref page (refs s page - 1) s;
        s \<leftarrow> (if refs s page = 0 then free_page release s page else Some s);
        Some (set_entry_at t i 0 s)
      } else Some s)"

definition page_remove :: "'s alloc_fun \<Rightarrow> 's free_fun \<Rightarrow> 's vm \<Rightarrow> nat \<Rightarrow> addr \<Rightarrow> 's vm option" where
  "page_remove alloc release s pgdir la = do {
     (p, s) \<leftarrow> get_pte alloc s pgdir la False;
     case p of None \<Rightarrow> Some s | Some (t, i) \<Rightarrow> page_remove_pte release s t i
   }"

definition page_insert :: "'s alloc_fun \<Rightarrow> 's free_fun \<Rightarrow> 's vm \<Rightarrow> nat \<Rightarrow> nat \<Rightarrow> addr \<Rightarrow> pte \<Rightarrow> (int \<times> 's vm) option" where
  "page_insert alloc release s pgdir page la perm = do {
     (p, s) \<leftarrow> get_pte alloc s pgdir la True;
     case p of None \<Rightarrow> Some (- E_NO_MEM, s)
     | Some (t, i) \<Rightarrow> do {
         let s = set_page_ref page (refs s page + 1) s;
         s \<leftarrow> (if tab s t i AND PTE_V \<noteq> 0 then do {
                  p \<leftarrow> pte2page s (tab s t i);
                  if p = page then Some (set_page_ref page (refs s page - 1) s)
                  else page_remove_pte release s t i
                } else Some s);
         Some (0, set_entry_at t i (pte_create (page2ppn page) (PTE_V OR perm)) s)
       }
   }"

definition pgdir_alloc_page :: "'s alloc_fun \<Rightarrow> 's free_fun \<Rightarrow> 's vm \<Rightarrow> nat \<Rightarrow> addr \<Rightarrow> pte \<Rightarrow> (nat option \<times> 's vm) option" where
  "pgdir_alloc_page alloc release s pgdir la perm = do {
     (r, s) \<leftarrow> alloc_page alloc s;
     case r of None \<Rightarrow> Some (None, s)
     | Some page \<Rightarrow> do {
         (ret, s) \<leftarrow> page_insert alloc release s pgdir page la perm;
         if ret \<noteq> 0 then do { s \<leftarrow> free_page release s page; Some (None, s) } else Some (Some page, s)
       }
   }"

partial_function (option) unmap_loop :: "'s alloc_fun \<Rightarrow> 's free_fun \<Rightarrow> 's vm \<Rightarrow> nat \<Rightarrow> addr \<Rightarrow> addr \<Rightarrow> 's vm option" where
  "unmap_loop alloc release s pgdir start end_a = do {
     (p, s) \<leftarrow> get_pte alloc s pgdir start False;
     (start, s) \<leftarrow> (case p of None \<Rightarrow> Some (ROUNDDOWN (start + PTSIZE) PTSIZE, s)
       | Some (t, i) \<Rightarrow> do {
           s \<leftarrow> (if tab s t i \<noteq> 0 then page_remove_pte release s t i else Some s);
           Some (start + PGSIZE, s)
         });
     if start \<noteq> 0 \<and> start < end_a then unmap_loop alloc release s pgdir start end_a else Some s
   }"

definition unmap_range :: "'s alloc_fun \<Rightarrow> 's free_fun \<Rightarrow> 's vm \<Rightarrow> nat \<Rightarrow> addr \<Rightarrow> addr \<Rightarrow> 's vm option" where
  "unmap_range alloc release s pgdir start end_a = do {
     kassert (start mod PGSIZE = 0 \<and> end_a mod PGSIZE = 0);
     kassert (USER_ACCESS start end_a);
     unmap_loop alloc release s pgdir start end_a
   }"

section \<open>Entries\<close>

lemma small_bits:
  fixes w :: pte
  assumes "unat w < 2 ^ k" "bit w n" shows "n < k"
proof (rule ccontr)
  assume "\<not> n < k"
  then have "(2 :: nat) ^ k \<le> 2 ^ n" by (intro power_increasing) auto
  then have "unat w div 2 ^ n = 0" using assms(1) by (meson div_less less_le_trans)
  moreover have "bit (unat w) n" using assms(2) by (simp add: bit_unsigned_iff bit_imp_le_length)
  ultimately show False by (simp add: bit_iff_odd)
qed

lemma small_of_nat: "k < 2 ^ 44 \<Longrightarrow> unat (of_nat k :: pte) = k"
  by (simp add: unat_of_nat)

lemma ppn_field:
  fixes p f :: pte
  assumes p: "\<And>n. bit p n \<Longrightarrow> n < 44" and f: "\<And>n. bit f n \<Longrightarrow> n < 10"
  shows "drop_bit 12 (PTE_ADDR (push_bit 10 p OR 1 OR f)) = p"
proof -
  have m: "(0x3FF :: pte) = mask 10" by (simp add: mask_eq_exp_minus_1)
  show ?thesis unfolding m PTE_ADDR_def by (rule bit_word_eqI) (auto simp: bit_simps dest: p f)
qed

lemma valid_bit: "e AND PTE_V \<noteq> 0 \<longleftrightarrow> bit e 0"
  by (simp add: PTE_V_def and_one_eq odd_iff_mod_2_eq_one bit_0)

lemma pte_fields:
  assumes "ppn < 2 ^ 44" "unat flags < 2 ^ 10"
  shows "PPN (PTE_ADDR (pte_create ppn flags)) = ppn" "pte_create ppn flags AND PTE_V \<noteq> 0"
proof -
  have n: "unat (of_nat ppn :: pte) = ppn" using assms(1) by (simp add: unat_of_nat)
  have "drop_bit 12 (PTE_ADDR (pte_create ppn flags)) = of_nat ppn"
    unfolding pte_create_def PTE_V_def
    by (rule ppn_field) (use small_bits [of "of_nat ppn" 44] small_bits [of flags 10] assms n in auto)
  then show "PPN (PTE_ADDR (pte_create ppn flags)) = ppn" using n by (simp add: PPN_def)
  show "pte_create ppn flags AND PTE_V \<noteq> 0" unfolding valid_bit by (simp add: pte_create_def PTE_V_def bit_simps)
qed

lemma ppn_page: "page + nbase < 2 ^ 44 \<Longrightarrow> PPN (page2pa page) = page + nbase"
proof -
  assume a: "page + nbase < 2 ^ 44"
  then have n: "unat (of_nat (page + nbase) :: addr) = page + nbase" by (rule small_of_nat)
  have "drop_bit 12 (push_bit 12 (of_nat (page + nbase) :: addr)) = of_nat (page + nbase)"
    by (rule bit_word_eqI) (use small_bits [of "of_nat (page + nbase)" 44] a n in \<open>force simp: bit_simps\<close>)
  then show ?thesis using n by (simp add: PPN_def page2pa_def page2ppn_def)
qed

section \<open>The tree of tables\<close>

text \<open>The page an entry leads to, and the page at the end of a path of entries from a root.\<close>

definition entry_page :: "pte \<Rightarrow> nat" where
  "entry_page e = PPN (PTE_ADDR e) - nbase"

definition child :: "'s vm \<Rightarrow> nat \<Rightarrow> nat \<Rightarrow> nat option" where
  "child s t i = (if i < 512 \<and> tab s t i AND PTE_V \<noteq> 0 then Some (entry_page (tab s t i)) else None)"

primrec node :: "'s vm \<Rightarrow> nat list \<Rightarrow> nat \<Rightarrow> nat option" where
  "node s [] t = Some t"
| "node s (i # p) t = (case child s t i of None \<Rightarrow> None | Some c \<Rightarrow> node s p c)"

definition path :: "addr \<Rightarrow> nat list" where
  "path la = [PDX1 la, PDX0 la, PTX la]"

text \<open>The leaf entry on a path of length three, zero when a table is missing.\<close>

definition leaf :: "'s vm \<Rightarrow> nat \<Rightarrow> nat list \<Rightarrow> pte" where
  "leaf s pgdir p = (case node s (butlast p) pgdir of None \<Rightarrow> 0 | Some t \<Rightarrow> tab s t (last p))"

definition paths :: "nat list set" where
  "paths = {p. length p = 3 \<and> set p \<subseteq> {..<512}}"

definition mappings :: "'s vm \<Rightarrow> nat \<Rightarrow> nat \<Rightarrow> nat list set" where
  "mappings s pgdir page = {p \<in> paths. node s p pgdir = Some page}"

text \<open>
  The invariant of one address space: the tables form a tree, no page is two tables, entries stay in
  physical memory, tables and mapped pages are allocated, no table is mapped, and a page is mapped at
  most as often as its reference count says.
\<close>

definition pt_ok :: "('s \<Rightarrow> bool) \<Rightarrow> ('s \<Rightarrow> nat set) \<Rightarrow> ('s \<Rightarrow> nat set) \<Rightarrow> 's vm \<Rightarrow> nat \<Rightarrow> bool" where
  "pt_ok good free allocated s pgdir \<longleftrightarrow> good (pm s) \<and> npage s \<le> 2 ^ 44 \<and> (\<forall>p \<in> free (pm s). p + nbase < npage s)
     \<and> (\<forall>p q f. length p \<le> 2 \<and> length q \<le> 2 \<and> node s p pgdir = Some f \<and> node s q pgdir = Some f \<longrightarrow> p = q)
     \<and> (\<forall>p t i. length p \<le> 2 \<and> node s p pgdir = Some t \<and> i < 512 \<and> tab s t i AND PTE_V \<noteq> 0 \<longrightarrow>
          nbase \<le> PPN (PTE_ADDR (tab s t i)) \<and> PPN (PTE_ADDR (tab s t i)) < npage s)
     \<and> (\<forall>p f. length p \<le> 3 \<and> node s p pgdir = Some f \<longrightarrow> f \<in> allocated (pm s))
     \<and> (\<forall>p q f. length p \<le> 2 \<and> length q = 3 \<and> node s p pgdir = Some f \<longrightarrow> node s q pgdir \<noteq> Some f)
     \<and> (\<forall>page. int (card (mappings s pgdir page)) \<le> refs s page)"

lemma pt_okD:
  assumes "pt_ok good free allocated s pgdir"
  shows "good (pm s)" "npage s \<le> 2 ^ 44" "p \<in> free (pm s) \<Longrightarrow> p + nbase < npage s"
    "length xs \<le> 2 \<Longrightarrow> length ys \<le> 2 \<Longrightarrow> node s xs pgdir = Some f \<Longrightarrow> node s ys pgdir = Some f \<Longrightarrow> xs = ys"
    "length xs \<le> 2 \<Longrightarrow> node s xs pgdir = Some t \<Longrightarrow> i < 512 \<Longrightarrow> tab s t i AND PTE_V \<noteq> 0 \<Longrightarrow>
      nbase \<le> PPN (PTE_ADDR (tab s t i)) \<and> PPN (PTE_ADDR (tab s t i)) < npage s"
    "length xs \<le> 3 \<Longrightarrow> node s xs pgdir = Some f \<Longrightarrow> f \<in> allocated (pm s)"
    "length xs \<le> 2 \<Longrightarrow> length ys = 3 \<Longrightarrow> node s xs pgdir = Some f \<Longrightarrow> node s ys pgdir \<noteq> Some f"
    "int (card (mappings s pgdir page)) \<le> refs s page"
  using assms unfolding pt_ok_def by blast+

lemma node_append: "node s (p @ q) t = Option.bind (node s p t) (node s q)"
  by (induction p arbitrary: t) (auto split: option.splits)

lemma node_snoc: "node s (p @ [i]) t = Option.bind (node s p t) (\<lambda>f. child s f i)"
  by (cases "node s p t") (auto simp: node_append split: option.splits)

text \<open>Paths that avoid a changed entry are unchanged.\<close>

lemma node_cong:
  assumes "\<And>q i f. p = q @ i # drop (Suc (length q)) p \<Longrightarrow> node s q t = Some f \<Longrightarrow> child s' f i = child s f i"
  shows "node s' p t = node s p t"
  using assms
proof (induction p arbitrary: t)
  case (Cons j p)
  have j: "child s' t j = child s t j" using Cons.prems [of "[]" j t] by simp
  show ?case
  proof (cases "child s t j")
    case (Some c)
    have "node s' p c = node s p c"
    proof (rule Cons.IH)
      fix q i f assume "p = q @ i # drop (Suc (length q)) p" "node s q c = Some f"
      then show "child s' f i = child s f i" using Cons.prems [of "j # q" i f] Some by simp
    qed
    then show ?thesis using j Some by simp
  qed (use j in simp)
qed simp

lemma paths_finite [simp]: "finite paths"
  by (rule finite_subset [OF _ finite_lists_length_eq [of "{..<512}" 3]]) (auto simp: paths_def)

lemma paths_split:
  assumes "q \<in> paths"
  shows "length (butlast q) = 2" "butlast q @ [last q] = q" "last q < 512"
proof -
  have "q \<noteq> []" using assms by (auto simp: paths_def)
  then show "length (butlast q) = 2" "butlast q @ [last q] = q"
    using assms by (auto simp: paths_def)
  show "last q < 512" using last_in_set [OF \<open>q \<noteq> []\<close>] assms by (auto simp: paths_def simp del: last_in_set)
qed

lemma index_less [simp]: "PDX1 la < 512" "PDX0 la < 512" "PTX la < 512"
proof -
  have "unat (w AND 0x1FF) < 512" for w :: addr
  proof -
    have "(0x1FF :: addr) = mask 9" by (simp add: mask_eq_exp_minus_1)
    then have "w AND 0x1FF = take_bit 9 w" by (simp add: take_bit_eq_mask)
    then show ?thesis unfolding unsigned_take_bit_eq using take_bit_nat_less_exp [of 9 "unat w"] by (simp add: unsigned_take_bit_eq)
  qed
  then show "PDX1 la < 512" "PDX0 la < 512" "PTX la < 512" by (simp_all add: PDX1_def PDX0_def PTX_def)
qed

lemma path_in [simp]: "path la \<in> paths" "length (path la) = 3"
  by (simp_all add: path_def paths_def)

section \<open>A new table\<close>

lemma attach:
  assumes inj: "\<And>xs ys f. length xs \<le> 2 \<Longrightarrow> length ys \<le> 2 \<Longrightarrow> node s xs r = Some f \<Longrightarrow> node s ys r = Some f \<Longrightarrow> xs = ys"
    and t: "node s p r = Some t" "length p \<le> 1" "i < 512" "child s t i = None"
    and fresh: "\<And>q. length q \<le> 3 \<Longrightarrow> node s q r \<noteq> Some g"
    and e: "e AND PTE_V \<noteq> 0" "entry_page e = g"
    and s': "s' = set_entry_at t i e (s\<lparr>tab := (tab s)(g := \<lambda>_. 0)\<rparr>)"
    and q: "length q \<le> 3"
  shows "node s' q r = (if q = p @ [i] then Some g else node s q r)"
proof -
  have gt: "g \<noteq> t" using fresh [of p] t(1,2) by auto
  have ch: "child s' f j = (if f = g then None else if f = t \<and> j = i then Some g else child s f j)" for f j
    using e t(3) gt by (auto simp: child_def s' set_entry_at_def)
  have same: "node s' q r = node s q r" if "length q \<le> 3" "\<And>w. q \<noteq> p @ i # w" for q
  proof (rule node_cong)
    fix q' j f assume a: "q = q' @ j # drop (Suc (length q')) q" "node s q' r = Some f"
    have l: "length q' \<le> 2" using that(1) a(1) by (metis One_nat_def add_le_cancel_left add_Suc_right le_trans length_append list.size(4) not_less_eq_eq numeral_3_eq_3 numeral_2_eq_2 le_add1 plus_1_eq_Suc add.commute Suc_le_mono)
    have "f \<noteq> g" using fresh [of q'] a(2) l by auto
    moreover have "\<not> (f = t \<and> j = i)"
    proof
      assume "f = t \<and> j = i"
      then have "q' = p" using inj [of q' p t] a(2) l t(1,2) by simp
      then show False using that(2) [of "drop (Suc (length q')) q"] a(1) \<open>f = t \<and> j = i\<close> by simp
    qed
    ultimately show "child s' f j = child s f j" by (auto simp: ch)
  qed
  show ?thesis
  proof (cases "\<exists>w. q = p @ i # w")
    case True
    then obtain w where w: "q = p @ i # w" by blast
    have "node s' p r = node s p r" by (rule same) (use t(2) in auto)
    then have "node s' q r = node s' w g" using t(1) by (simp add: w node_append ch gt [symmetric])
    moreover have "node s' w g = (if w = [] then Some g else None)" by (cases w) (simp_all add: ch)
    moreover have "node s q r = None" using t(1,4) by (simp add: w node_append)
    ultimately show ?thesis using w by auto
  next
    case False
    then show ?thesis using same [of q] q by auto
  qed
qed

text \<open>What making tables may do to an address space: nothing a mapping shows.\<close>

definition grows :: "('s \<Rightarrow> nat set) \<Rightarrow> ('s \<Rightarrow> nat set) \<Rightarrow> 's vm \<Rightarrow> 's vm \<Rightarrow> nat \<Rightarrow> bool" where
  "grows free allocated s s' pgdir \<longleftrightarrow> npage s' = npage s
     \<and> (\<forall>q \<in> paths. node s' q pgdir = node s q pgdir \<and> leaf s' pgdir q = leaf s pgdir q)
     \<and> (\<forall>q f. length q \<le> 2 \<and> node s q pgdir = Some f \<longrightarrow> node s' q pgdir = Some f)
     \<and> (\<forall>q f. length q \<le> 2 \<and> node s' q pgdir = Some f \<longrightarrow> node s q pgdir = Some f \<or> f \<in> free (pm s))
     \<and> (\<forall>g. g \<notin> free (pm s) \<longrightarrow> refs s' g = refs s g)
     \<and> allocated (pm s) \<subseteq> allocated (pm s') \<and> free (pm s') \<subseteq> free (pm s)"

lemma grows_refl [simp]: "grows free allocated s s pgdir"
  by (simp add: grows_def)

lemma grows_trans:
  assumes a: "grows free allocated s s1 pgdir" and b: "grows free allocated s1 s2 pgdir"
  shows "grows free allocated s s2 pgdir"
proof -
  have "node s q pgdir = Some f \<or> f \<in> free (pm s)" if "length q \<le> 2" "node s2 q pgdir = Some f" for q f
    using a b that unfolding grows_def by blast
  moreover have "refs s2 g = refs s g" if "g \<notin> free (pm s)" for g
    using a b that unfolding grows_def by (metis subsetD)
  ultimately show ?thesis using a b unfolding grows_def by auto
qed

lemma same_tab:
  assumes "tab s' = tab s"
  shows "node s' q x = node s q x" "leaf s' x q = leaf s x q"
proof -
  show n: "node s' q x = node s q x" for q by (rule node_cong) (simp add: child_def assms)
  show "leaf s' x q = leaf s x q" unfolding leaf_def n assms ..
qed

lemma leaf_path: "node s [PDX1 la, PDX0 la] pgdir = Some t \<Longrightarrow> leaf s pgdir (path la) = tab s t (PTX la)"
  by (simp add: leaf_def path_def del: node.simps)

section \<open>Clients of a page allocator\<close>

locale page_source = pmm_manager alloc granted free allocated inv release
  for alloc :: "'s \<Rightarrow> nat \<Rightarrow> (nat option \<times> 's) option" and granted :: "nat \<Rightarrow> nat"
    and free :: "'s \<Rightarrow> nat set" and allocated :: "'s \<Rightarrow> nat set" and inv :: "'s \<Rightarrow> bool"
    and release :: "'s \<Rightarrow> nat \<Rightarrow> nat \<Rightarrow> 's option" +
  assumes granted_one: "granted 1 = 1"
    and alloc_one: "inv s \<Longrightarrow> alloc s 1 = Some (None, s') \<Longrightarrow> free s = {}"
begin

lemma alloc_page_cases:
  assumes "inv (pm s)"
  obtains "alloc_page alloc s = Some (None, s)" "free (pm s) = {}"
  | g m where "alloc_page alloc s = Some (Some g, s\<lparr>pm := m\<rparr>)" "inv m" "g \<in> free (pm s)" "free m = free (pm s) - {g}"
      "allocated m = insert g (allocated (pm s))"
proof -
  obtain r m where a: "alloc (pm s) 1 = Some (r, m)" using alloc_total [OF assms, of 1] by auto
  show thesis
  proof (cases r)
    case None
    then have "m = pm s" using alloc_none [OF assms] a by simp
    then show thesis using that(1) a None alloc_one [OF assms] by (simp add: alloc_page_def)
  next
    case (Some g)
    have one: "{g ..< g + granted 1} = {g}" unfolding granted_one by auto
    have "inv m \<and> {g} \<subseteq> free (pm s) \<and> free m = free (pm s) - {g} \<and> allocated m = allocated (pm s) \<union> {g}"
      using alloc_some [OF assms] a Some unfolding one [symmetric] by blast
    then show thesis using that(2) [of g m] a Some by (auto simp: alloc_page_def)
  qed
qed

lemma free_not_node:
  assumes "pt_ok inv free allocated s pgdir" "g \<in> free (pm s)" "length q \<le> 3"
  shows "node s q pgdir \<noteq> Some g"
proof
  assume "node s q pgdir = Some g"
  then have "g \<in> allocated (pm s)" by (rule pt_okD(6) [OF assms(1,3)])
  then show False using free_allocated [OF pt_okD(1) [OF assms(1)]] assms(2) by blast
qed

lemma kaddr_entry:
  assumes "pt_ok inv free allocated s pgdir" "length p \<le> 2" "node s p pgdir = Some t" "i < 512" "tab s t i AND PTE_V \<noteq> 0"
  shows "KADDR s (PTE_ADDR (tab s t i)) = Some (entry_page (tab s t i))" "pte2page s (tab s t i) = Some (entry_page (tab s t i))"
    "node s (p @ [i]) pgdir = Some (entry_page (tab s t i))"
  using pt_okD(5) [OF assms] assms(3-5) by (simp_all add: KADDR_def pte2page_def pa2page_def entry_page_def node_snoc child_def)

lemma new_table_ok:
  assumes ok: "pt_ok inv free allocated s pgdir" and t: "node s p pgdir = Some t" "length p \<le> 1" "i < 512"
  shows "\<exists>b s'. new_table alloc s t i True = Some (b, s') \<and> pt_ok inv free allocated s' pgdir \<and> grows free allocated s s' pgdir
    \<and> (if b then \<exists>c. node s' (p @ [i]) pgdir = Some c \<and> KADDR s' (PTE_ADDR (tab s' t i)) = Some c else s' = s)"
proof (cases "tab s t i AND PTE_V \<noteq> 0")
  case True
  then have "new_table alloc s t i True = Some (True, s)" by (simp add: new_table_def)
  moreover have "length p \<le> 2" using t(2) by simp
  note k = kaddr_entry [OF ok this t(1,3) True]
  ultimately show ?thesis using ok k by (intro exI [of _ True] exI [of _ s]) auto
next
  case False
  from alloc_page_cases [OF pt_okD(1) [OF ok]] show ?thesis
  proof cases
    case 1
    then have "new_table alloc s t i True = Some (False, s)" using False by (simp add: new_table_def)
    then show ?thesis using ok by (intro exI [of _ False] exI [of _ s]) auto
  next
    case (2 g m)
    let ?e = "pte_create (page2ppn g) (PTE_U OR PTE_V)"
    have fl: "unat (PTE_U OR PTE_V) < 2 ^ 10" by (simp add: PTE_U_def PTE_V_def)
    have gl: "g + nbase < npage s" by (rule pt_okD(3) [OF ok 2(3)])
    then have gb: "g + nbase < 2 ^ 44" using pt_okD(2) [OF ok] by linarith
    note pf = pte_fields [OF gb fl, folded page2ppn_def]
    have ep: "entry_page ?e = g" using pf(1) by (simp add: entry_page_def page2ppn_def)
    define s1 where "s1 = (set_page_ref g 1 (s\<lparr>pm := m\<rparr>))"
    define s' where "s' = set_entry_at t i ?e (s1\<lparr>tab := (tab s1)(g := \<lambda>_. 0)\<rparr>)"
    have s1: "tab s1 = tab s" "npage s1 = npage s" "pm s1 = m" "refs s1 = (refs s)(g := 1)" by (simp_all add: s1_def set_page_ref_def)
    have nt: "new_table alloc s t i True = Some (True, s')"
      using False 2(1) gl ppn_page [OF gb] by (simp add: new_table_def KADDR_def kassert_def s'_def s1_def set_page_ref_def Let_def)
    have n1: "node s1 q r = node s q r" for q r by (rule node_cong) (simp add: child_def s1)
    have fresh: "length q \<le> 3 \<Longrightarrow> node s1 q pgdir \<noteq> Some g" for q using free_not_node [OF ok 2(3), of q] by (simp add: n1)
    have ch: "child s1 t i = None" using False by (simp add: child_def s1)
    have at: "node s' q pgdir = (if q = p @ [i] then Some g else node s q pgdir)" if "length q \<le> 3" for q
      using attach [of s1 pgdir p t i g ?e s' q, unfolded n1, OF pt_okD(4) [OF ok] t ch fresh [unfolded n1] pf(2) ep s'_def that] .
    have gt: "g \<noteq> t" using free_not_node [OF ok 2(3), of p] t by auto
    have tab': "tab s' = (tab s)(t := (tab s t)(i := ?e), g := \<lambda>_. 0)" using gt by (auto simp: s'_def set_entry_at_def s1 fun_eq_iff)
    have st: "npage s' = npage s" "pm s' = m" "refs s' = (refs s)(g := 1)" by (simp_all add: s'_def set_entry_at_def s1)
    have pt: "q = p" if "length q \<le> 2" "node s q pgdir = Some t" for q using pt_okD(4) [OF ok that(1) _ that(2) t(1)] t(2) by simp
    have np: "p @ [i] \<notin> paths" using t(2) by (auto simp: paths_def)
    have mp: "mappings s' pgdir page = mappings s pgdir page" for page
    proof -
      have "node s' q pgdir = node s q pgdir" if "q \<in> paths" for q
      proof -
        have "length q \<le> 3" "q \<noteq> p @ [i]" using that np by (auto simp: paths_def)
        then show ?thesis using at by simp
      qed
      then show ?thesis by (auto simp: mappings_def)
    qed
    have "mappings s pgdir g = {}" using free_not_node [OF ok 2(3)] by (auto simp: mappings_def paths_def)
    then have rf: "int (card (mappings s' pgdir page)) \<le> refs s' page" for page
      using pt_okD(8) [OF ok, of page] by (simp add: mp st)
    have "pt_ok inv free allocated s' pgdir"
      unfolding pt_ok_def
    proof (intro conjI allI impI; (elim conjE)?)
      show "inv (pm s')" "npage s' \<le> 2 ^ 44" using 2 pt_okD(2) [OF ok] by (simp_all add: st)
      show "\<forall>p \<in> free (pm s'). p + nbase < npage s'" using 2 pt_okD(3) [OF ok] by (simp add: st)
      show "x = y" if "length x \<le> 2" "length y \<le> 2" "node s' x pgdir = Some f" "node s' y pgdir = Some f" for x y f
        using that pt_okD(4) [OF ok that(1,2)] free_not_node [OF ok 2(3), of x] free_not_node [OF ok 2(3), of y] at [of x] at [of y]
        by (auto split: if_splits)
      show "nbase \<le> PPN (PTE_ADDR (tab s' f j))" "PPN (PTE_ADDR (tab s' f j)) < npage s'"
        if "length q \<le> 2" "node s' q pgdir = Some f" "j < 512" "tab s' f j AND PTE_V \<noteq> 0" for q f j
      proof -
        have "f \<noteq> g" using that(4) by (auto simp: tab')
        then have nq: "node s q pgdir = Some f" using that(1,2) at [of q] by (auto split: if_splits)
        have "nbase \<le> PPN (PTE_ADDR (tab s' f j)) \<and> PPN (PTE_ADDR (tab s' f j)) < npage s'"
        proof (cases "f = t \<and> j = i")
          case True
          then show ?thesis using pf(1) gl \<open>f \<noteq> g\<close> by (simp add: tab' st page2ppn_def)
        next
          case no: False
          then have "tab s' f j = tab s f j" using \<open>f \<noteq> g\<close> by (auto simp: tab')
          then show ?thesis using pt_okD(5) [OF ok that(1) nq that(3)] that(4) by (simp add: st)
        qed
        then show "nbase \<le> PPN (PTE_ADDR (tab s' f j))" "PPN (PTE_ADDR (tab s' f j)) < npage s'" by simp_all
      qed
      show "f \<in> allocated (pm s')" if "length q \<le> 3" "node s' q pgdir = Some f" for q f
        using that at [of q] pt_okD(6) [OF ok, of q f] 2(5) by (auto simp: st split: if_splits)
      show "node s' y pgdir \<noteq> Some f" if "length x \<le> 2" "length y = 3" "node s' x pgdir = Some f" for x y f
        using that at [of x] at [of y] pt_okD(7) [OF ok that(1,2)] free_not_node [OF ok 2(3), of y] t(2) by (auto split: if_splits)
      show "int (card (mappings s' pgdir page)) \<le> refs s' page" for page by (rule rf)
    qed
    moreover have "grows free allocated s s' pgdir"
      unfolding grows_def
    proof (intro conjI allI impI ballI)
      show "npage s' = npage s" by (simp add: st)
      show "node s' q pgdir = node s q pgdir" if "q \<in> paths" for q using at [of q] np that by (auto simp: paths_def)
      show "leaf s' pgdir q = leaf s pgdir q" if "q \<in> paths" for q
      proof -
        note l = paths_split [OF that]
        show ?thesis
        proof (cases "butlast q = p @ [i]")
          case True
          then have "node s (butlast q) pgdir = None" using t(1) False by (simp add: node_snoc child_def)
          then show ?thesis using True at [of "butlast q"] l by (simp add: leaf_def tab')
        next
          case no: False
          have "tab s' f = tab s f" if "node s (butlast q) pgdir = Some f" for f
          proof -
            have "f \<noteq> g" using that free_not_node [OF ok 2(3), of "butlast q"] l by auto
            moreover have "f \<noteq> t" using pt [of "butlast q"] that l t(2) by auto
            ultimately show ?thesis by (simp add: tab')
          qed
          then show ?thesis using at [of "butlast q"] no l by (auto simp: leaf_def split: option.splits)
        qed
      qed
      show "node s' q pgdir = Some f" if "length q \<le> 2 \<and> node s q pgdir = Some f" for q f
        using that at [of q] t ch by (auto simp: node_snoc child_def s1 split: if_splits)
      show "node s q pgdir = Some f \<or> f \<in> free (pm s)" if "length q \<le> 2 \<and> node s' q pgdir = Some f" for q f
        using that at [of q] 2(3) by (auto split: if_splits)
      show "refs s' x = refs s x" if "x \<notin> free (pm s)" for x using that 2(3) by (auto simp: st)
      show "allocated (pm s) \<subseteq> allocated (pm s')" "free (pm s') \<subseteq> free (pm s)" using 2 by (auto simp: st)
    qed
    moreover have "node s' (p @ [i]) pgdir = Some g \<and> KADDR s' (PTE_ADDR (tab s' t i)) = Some g"
      using at [of "p @ [i]"] t(2) pf(1) gl gt by (simp add: KADDR_def tab' st page2ppn_def)
    ultimately show ?thesis using nt by (intro exI [of _ True] exI [of _ s']) auto
  qed
qed

lemma node_leaf: "q \<in> paths \<Longrightarrow> node s q pgdir = (if leaf s pgdir q AND PTE_V \<noteq> 0 then Some (entry_page (leaf s pgdir q)) else None)"
  using paths_split [of q] node_snoc [of s "butlast q" "last q" pgdir]
  by (cases "node s (butlast q) pgdir") (auto simp: leaf_def child_def)

lemma get_pte_create:
  assumes ok: "pt_ok inv free allocated s pgdir"
  shows "\<exists>r s'. get_pte alloc s pgdir la True = Some (r, s') \<and> pt_ok inv free allocated s' pgdir \<and> grows free allocated s s' pgdir
    \<and> (case r of None \<Rightarrow> True | Some (t, i) \<Rightarrow> i = PTX la \<and> node s' [PDX1 la, PDX0 la] pgdir = Some t)"
proof -
  from new_table_ok [OF ok, of "[]" pgdir "PDX1 la"] obtain b s1 where
    one: "new_table alloc s pgdir (PDX1 la) True = Some (b, s1)" "pt_ok inv free allocated s1 pgdir" "grows free allocated s s1 pgdir"
    and b: "if b then \<exists>c. node s1 [PDX1 la] pgdir = Some c \<and> KADDR s1 (PTE_ADDR (tab s1 pgdir (PDX1 la))) = Some c else s1 = s"
    unfolding append_Nil by fastforce
  show ?thesis
  proof (cases b)
    case False
    then show ?thesis using one by (auto simp: get_pte_def)
  next
    case True
    then obtain d where d: "node s1 [PDX1 la] pgdir = Some d" "KADDR s1 (PTE_ADDR (tab s1 pgdir (PDX1 la))) = Some d" using b by auto
    from new_table_ok [OF one(2) d(1), of "PDX0 la"] obtain b2 s2 where
      two: "new_table alloc s1 d (PDX0 la) True = Some (b2, s2)" "pt_ok inv free allocated s2 pgdir" "grows free allocated s1 s2 pgdir"
      and b2: "if b2 then \<exists>c. node s2 ([PDX1 la] @ [PDX0 la]) pgdir = Some c \<and> KADDR s2 (PTE_ADDR (tab s2 d (PDX0 la))) = Some c else s2 = s1"
      by auto
    note g = grows_trans [OF one(3) two(3)]
    show ?thesis
    proof (cases b2)
      case False
      then show ?thesis using one(1) True d(2) two g by (auto simp: get_pte_def)
    next
      case b2t: True
      then obtain c where "node s2 ([PDX1 la] @ [PDX0 la]) pgdir = Some c" "KADDR s2 (PTE_ADDR (tab s2 d (PDX0 la))) = Some c"
        using b2 by auto
      then have c: "node s2 [PDX1 la, PDX0 la] pgdir = Some c" "KADDR s2 (PTE_ADDR (tab s2 d (PDX0 la))) = Some c"
        by (simp_all only: append.simps)
      have "get_pte alloc s pgdir la True = Some (Some (c, PTX la), s2)"
        using one(1) True d(2) two(1) b2t c(2) by (simp add: get_pte_def)
      then show ?thesis using two(2) g c(1) by (intro exI [of _ "Some (c, PTX la)"] exI [of _ s2]) (simp only: option.case prod.case simp_thms)
    qed
  qed
qed

lemma get_pte_lookup:
  assumes ok: "pt_ok inv free allocated s pgdir"
  shows "get_pte alloc s pgdir la False = Some (map_option (\<lambda>t. (t, PTX la)) (node s [PDX1 la, PDX0 la] pgdir), s)"
proof (cases "tab s pgdir (PDX1 la) AND PTE_V \<noteq> 0")
  case False
  then show ?thesis by (simp add: get_pte_def new_table_def child_def)
next
  case True
  let ?d = "entry_page (tab s pgdir (PDX1 la))"
  note k = kaddr_entry [OF ok, of "[]" pgdir "PDX1 la"]
  have d: "node s [PDX1 la] pgdir = Some ?d" "KADDR s (PTE_ADDR (tab s pgdir (PDX1 la))) = Some ?d" using k True by auto
  note k2 = kaddr_entry [OF ok _ d(1), of "PDX0 la"]
  show ?thesis
  proof (cases "tab s ?d (PDX0 la) AND PTE_V \<noteq> 0")
    case False
    then show ?thesis using True d by (simp add: get_pte_def new_table_def child_def)
  next
    case t2: True
    then show ?thesis using True d k2 by (simp add: get_pte_def new_table_def child_def)
  qed
qed

text \<open>Writing a leaf entry.\<close>

lemma set_leaf:
  fixes e :: pte
  assumes ok: "pt_ok inv free allocated s pgdir" and t: "node s [a, b] pgdir = Some t" and p: "[a, b, c] \<in> paths"
  defines "s' \<equiv> set_entry_at t c e s"
  shows "length q \<le> 2 \<Longrightarrow> node s' q pgdir = node s q pgdir"
    and "q \<in> paths \<Longrightarrow> leaf s' pgdir q = (if q = [a, b, c] then e else leaf s pgdir q)"
    and "length x \<le> 2 \<Longrightarrow> node s x pgdir = Some f \<Longrightarrow> x \<noteq> [a, b] \<Longrightarrow> tab s' f = tab s f"
proof -
  have tp: "q = [a, b]" if "length q \<le> 2" "node s q pgdir = Some t" for q
    using pt_okD(4) [OF ok that(1) _ that(2) t] by simp
  have keep: "child s' f j = child s f j" if "length q \<le> 1" "node s q pgdir = Some f" for q f j
    using tp [of q] that by (auto simp: child_def s'_def set_entry_at_def)
  show n: "node s' q pgdir = node s q pgdir" if "length q \<le> 2" for q
  proof (rule node_cong)
    fix q' j f assume a: "q = q' @ j # drop (Suc (length q')) q" "node s q' pgdir = Some f"
    have "length q' + 1 \<le> length q" using arg_cong [OF a(1), of length] by simp
    then show "child s' f j = child s f j" using keep [of q'] a(2) that by simp
  qed
  show "tab s' f = tab s f" if "length x \<le> 2" "node s x pgdir = Some f" "x \<noteq> [a, b]" for x f
    using tp [of x] that by (auto simp: s'_def set_entry_at_def)
  show "leaf s' pgdir q = (if q = [a, b, c] then e else leaf s pgdir q)" if "q \<in> paths" for q
  proof (cases "butlast q = [a, b]")
    case True
    then have "q = [a, b, c] \<longleftrightarrow> last q = c" using paths_split(2) [OF that] by (metis append_Cons append_Nil last_snoc)
    then show ?thesis using True t n [of "[a, b]"] by (simp add: leaf_def s'_def set_entry_at_def)
  next
    case False
    then have "q \<noteq> [a, b, c]" by auto
    moreover have "tab s' f = tab s f" if "node s (butlast q) pgdir = Some f" for f
      using tp [of "butlast q"] that False paths_split(1) [OF \<open>q \<in> paths\<close>] by (auto simp: s'_def set_entry_at_def)
    ultimately show ?thesis using n [of "butlast q"] paths_split(1) [OF that] by (auto simp: leaf_def split: option.splits)
  qed
qed

lemma pt_ok_set_leaf:
  fixes e :: pte
  assumes ok: "pt_ok inv free allocated s pgdir" and t: "node s [a, b] pgdir = Some t" and p: "[a, b, c] \<in> paths"
    and s': "s' = (set_entry_at t c e s)\<lparr>refs := r, pm := m\<rparr>"
    and m: "inv m" "\<And>x. x \<in> free m \<Longrightarrow> x + nbase < npage s"
    and e: "e AND PTE_V \<noteq> 0 \<Longrightarrow> nbase \<le> PPN (PTE_ADDR e) \<and> PPN (PTE_ADDR e) < npage s
      \<and> (\<forall>q. length q \<le> 2 \<longrightarrow> node s q pgdir \<noteq> Some (entry_page e))"
    and al: "\<And>q f. length q \<le> 2 \<Longrightarrow> node s q pgdir = Some f \<Longrightarrow> f \<in> allocated m"
      "\<And>q. q \<in> paths \<Longrightarrow> leaf s' pgdir q AND PTE_V \<noteq> 0 \<Longrightarrow> entry_page (leaf s' pgdir q) \<in> allocated m"
    and r: "\<And>page. int (card (mappings s' pgdir page)) \<le> r page"
  shows "pt_ok inv free allocated s' pgdir"
proof -
  note sl = set_leaf [OF ok t p, where e = e]
  let ?s = "set_entry_at t c e s"
  have nn: "node s' q x = node ?s q x" "leaf s' x q = leaf ?s x q" for q x by (rule same_tab, simp add: s')+
  have n: "node s' q pgdir = node s q pgdir" if "length q \<le> 2" for q using sl(1) [OF that] by (simp add: nn)
  have lf: "leaf s' pgdir q = (if q = [a, b, c] then e else leaf s pgdir q)" if "q \<in> paths" for q
    unfolding nn(2) by (rule sl(2) [OF that])
  have abc: "[a, b, c] \<in> paths" "c < 512" using p by (auto simp: paths_def)
  have three: "q \<in> paths" if "length q = 3" "node s' q pgdir = Some f" for q f
  proof -
    obtain i j k where q: "q = [i, j, k]" using \<open>length q = 3\<close> by (auto simp: numeral_3_eq_3 length_Suc_conv)
    then show ?thesis using that(2) by (auto simp: paths_def child_def split: option.splits if_splits)
  qed
  have nl: "node s' q pgdir = (if leaf s' pgdir q AND PTE_V \<noteq> 0 then Some (entry_page (leaf s' pgdir q)) else None)" if "q \<in> paths" for q
    by (rule node_leaf [OF that])
  show ?thesis
    unfolding pt_ok_def
  proof (intro conjI allI impI; (elim conjE)?)
    show "inv (pm s')" "npage s' \<le> 2 ^ 44" using m(1) pt_okD(2) [OF ok] by (simp_all add: s' set_entry_at_def)
    show "\<forall>p \<in> free (pm s'). p + nbase < npage s'" using m(2) by (simp add: s' set_entry_at_def)
    show "x = y" if "length x \<le> 2" "length y \<le> 2" "node s' x pgdir = Some f" "node s' y pgdir = Some f" for x y f
      using that pt_okD(4) [OF ok that(1,2)] n by simp
    have rg: "nbase \<le> PPN (PTE_ADDR (tab s' f j)) \<and> PPN (PTE_ADDR (tab s' f j)) < npage s'"
      if q: "length q \<le> 2" "node s' q pgdir = Some f" "j < 512" "tab s' f j AND PTE_V \<noteq> 0" for q f j
    proof (cases "f = t \<and> j = c")
      case True
      then show ?thesis using e that(4) by (simp add: s' set_entry_at_def)
    next
      case False
      then have "tab s' f j = tab s f j" by (auto simp: s' set_entry_at_def)
      then show ?thesis using pt_okD(5) [OF ok q(1) _ q(3), of f] q n [OF q(1)] by (simp add: s' set_entry_at_def)
    qed
    show "nbase \<le> PPN (PTE_ADDR (tab s' f j))" "PPN (PTE_ADDR (tab s' f j)) < npage s'"
      if "length q \<le> 2" "node s' q pgdir = Some f" "j < 512" "tab s' f j AND PTE_V \<noteq> 0" for q f j
      using rg [OF that] by simp_all
    show "f \<in> allocated (pm s')" if "length q \<le> 3" "node s' q pgdir = Some f" for q f
    proof (cases "length q \<le> 2")
      case True
      then show ?thesis using al(1) [OF True] n that(2) by (simp add: s')
    next
      case False
      then have q: "q \<in> paths" using three [of q f] that by simp
      then show ?thesis using al(2) [OF q] nl [OF q] that(2) by (auto simp: s' split: if_splits)
    qed
    show "node s' y pgdir \<noteq> Some f" if "length x \<le> 2" "length y = 3" "node s' x pgdir = Some f" for x y f
    proof
      assume y: "node s' y pgdir = Some f"
      have yp: "y \<in> paths" by (rule three [OF that(2) y])
      have x: "node s x pgdir = Some f" using n that by simp
      show False
      proof (cases "y = [a, b, c]")
        case True
        then show ?thesis using e nl [OF yp] lf [OF yp] y x that(1) by (auto split: if_splits)
      next
        case False
        then have "node s y pgdir = Some f" using nl [OF yp] lf [OF yp] y node_leaf [OF yp, of s pgdir] by simp
        then show ?thesis using pt_okD(7) [OF ok that(1,2) x] by simp
      qed
    qed
    show "int (card (mappings s' pgdir page)) \<le> refs s' page" for page using r by (simp add: s')
  qed
qed

lemma page_insert_ok:
  assumes ok: "pt_ok inv free allocated s pgdir" and pg: "page \<in> allocated (pm s)" "page + nbase < npage s"
    "\<And>q. length q \<le> 2 \<Longrightarrow> node s q pgdir \<noteq> Some page"
    and perm: "unat (PTE_V OR perm) < 2 ^ 10" and un: "leaf s pgdir (path la) AND PTE_V = 0"
  shows "\<exists>r s'. page_insert alloc release s pgdir page la perm = Some (r, s') \<and> pt_ok inv free allocated s' pgdir
    \<and> (r = - E_NO_MEM \<and> (\<forall>q \<in> paths. leaf s' pgdir q = leaf s pgdir q)
       \<or> r = 0 \<and> (\<forall>q \<in> paths. leaf s' pgdir q = (if q = path la then pte_create (page + nbase) (PTE_V OR perm) else leaf s pgdir q))
         \<and> refs s' page = refs s page + 1)"
proof -
  from get_pte_create [OF ok, of la] obtain r s1 where g: "get_pte alloc s pgdir la True = Some (r, s1)"
    "pt_ok inv free allocated s1 pgdir" "grows free allocated s s1 pgdir"
    "case r of None \<Rightarrow> True | Some (t, i) \<Rightarrow> i = PTX la \<and> node s1 [PDX1 la, PDX0 la] pgdir = Some t" by blast
  have lf1: "leaf s1 pgdir q = leaf s pgdir q" "node s1 q pgdir = node s q pgdir" if "q \<in> paths" for q
    using g(3) that by (auto simp: grows_def)
  show ?thesis
  proof (cases r)
    case None
    then have "page_insert alloc release s pgdir page la perm = Some (- E_NO_MEM, s1)" using g(1) by (simp add: page_insert_def)
    then show ?thesis using g(2) lf1 by (intro exI [of _ "- E_NO_MEM"] exI [of _ s1]) simp
  next
    case (Some p)
    then obtain t where p: "p = (t, PTX la)" "node s1 [PDX1 la, PDX0 la] pgdir = Some t" using g(4) by (cases p) auto
    let ?e = "pte_create (page + nbase) (PTE_V OR perm)"
    have inv1: "tab s1 t (PTX la) AND PTE_V = 0"
      using lf1(1) [OF path_in(1)] un leaf_path [OF p(2)] by simp
    have rp: "refs s1 page = refs s page" and np: "npage s1 = npage s"
      using g(3) pg(1) free_allocated [OF pt_okD(1) [OF ok]] by (auto simp: grows_def)
    have gb: "page + nbase < 2 ^ 44" using pg(2) pt_okD(2) [OF ok] by linarith
    note pf = pte_fields [OF gb perm]
    have ep: "entry_page ?e = page" using pf(1) by (simp add: entry_page_def)
    define s' where "s' = (set_entry_at t (PTX la) ?e s1)\<lparr>refs := (refs s1)(page := refs s1 page + 1), pm := pm s1\<rparr>"
    have pi: "page_insert alloc release s pgdir page la perm = Some (0, s')"
      using g(1) Some p(1) inv1 by (simp add: page_insert_def set_page_ref_def s'_def set_entry_at_def page2ppn_def Let_def)
    note sl = set_leaf [OF g(2) p(2) path_in(1) [unfolded path_def], where e = ?e]
    have nn: "leaf s' x q = leaf (set_entry_at t (PTX la) ?e s1) x q" for q x by (rule same_tab) (simp add: s'_def)
    have lf: "leaf s' pgdir q = (if q = path la then ?e else leaf s1 pgdir q)" if "q \<in> paths" for q
      unfolding nn path_def by (rule sl(2) [OF that])
    have mp: "mappings s' pgdir x = (if x = page then insert (path la) (mappings s1 pgdir x) else mappings s1 pgdir x)" for x
    proof -
      have "node s' q pgdir = (if q = path la then Some page else node s1 q pgdir)" if "q \<in> paths" for q
        using node_leaf [OF that, of s' pgdir] node_leaf [OF that, of s1 pgdir] lf [OF that] pf(2) ep
        by (cases "q = path la") simp_all
      moreover have "node s1 (path la) pgdir = None" using node_leaf [OF path_in(1) [of la], of s1 pgdir] lf1(1) [OF path_in(1)] un by simp
      ultimately show ?thesis using path_in(1) [of la] by (auto simp: mappings_def split: if_splits)
    qed
    have pn: "node s1 q pgdir \<noteq> Some page" if "length q \<le> 2" for q
      using g(3) pg(1,3) that free_allocated [OF pt_okD(1) [OF ok]] unfolding grows_def by blast
    have pa: "page \<in> allocated (pm s1)" using g(3) pg(1) by (auto simp: grows_def)
    have "pt_ok inv free allocated s' pgdir"
    proof (rule pt_ok_set_leaf [OF g(2) p(2) path_in(1) [unfolded path_def] s'_def])
      show "inv (pm s1)" "x \<in> free (pm s1) \<Longrightarrow> x + nbase < npage s1" for x using pt_okD(1,3) [OF g(2)] by auto
      show "nbase \<le> PPN (PTE_ADDR ?e) \<and> PPN (PTE_ADDR ?e) < npage s1 \<and> (\<forall>q. length q \<le> 2 \<longrightarrow> node s1 q pgdir \<noteq> Some (entry_page ?e))"
        using pf(1) pg(2) np pn by (simp add: ep)
      show "f \<in> allocated (pm s1)" if "length q \<le> 2" "node s1 q pgdir = Some f" for q f
        using pt_okD(6) [OF g(2) _ that(2)] that(1) by simp
      show "entry_page (leaf s' pgdir q) \<in> allocated (pm s1)" if "q \<in> paths" "leaf s' pgdir q AND PTE_V \<noteq> 0" for q
      proof (cases "q = path la")
        case True
        then show ?thesis using lf [OF that(1)] pa ep by simp
      next
        case False
        then have "node s1 q pgdir = Some (entry_page (leaf s' pgdir q))" using lf [OF that(1)] that(2) node_leaf [OF that(1), of s1 pgdir] by simp
        moreover have "length q \<le> 3" using that(1) by (simp add: paths_def)
        ultimately show ?thesis using pt_okD(6) [OF g(2)] by blast
      qed
      show "int (card (mappings s' pgdir x)) \<le> ((refs s1)(page := refs s1 page + 1)) x" for x
        using pt_okD(8) [OF g(2), of x] card_insert_le_m1 [of "Suc (card (mappings s1 pgdir x))" "mappings s1 pgdir x" "path la"]
        by (auto simp: mp)
    qed
    then show ?thesis using pi lf lf1(1) rp
      by (intro exI [of _ 0] exI [of _ s'] conjI disjI2 ballI) (simp_all add: s'_def)
  qed
qed

lemma page_remove_ok:
  assumes ok: "pt_ok inv free allocated s pgdir" and v: "leaf s pgdir (path la) AND PTE_V \<noteq> 0"
    and g: "g = entry_page (leaf s pgdir (path la))"
    and rel: "refs s g = 1 \<Longrightarrow> free (pm s) = {} \<or> (\<exists>q \<in> free (pm s). g < q)"
  shows "\<exists>s'. page_remove alloc release s pgdir la = Some s' \<and> pt_ok inv free allocated s' pgdir
    \<and> (\<forall>q \<in> paths. leaf s' pgdir q = (if q = path la then 0 else leaf s pgdir q))
    \<and> refs s' = (refs s)(g := refs s g - 1) \<and> free (pm s') = (if refs s g = 1 then insert g (free (pm s)) else free (pm s))"
proof -
  obtain t where t: "node s [PDX1 la, PDX0 la] pgdir = Some t"
    using v by (cases "node s [PDX1 la, PDX0 la] pgdir") (simp_all add: leaf_def path_def del: node.simps)
  have lt: "leaf s pgdir (path la) = tab s t (PTX la)" by (rule leaf_path [OF t])
  note k = kaddr_entry [OF ok _ t, of "PTX la"]
  have gp: "pte2page s (tab s t (PTX la)) = Some g" using k v g lt by simp
  have ng: "node s (path la) pgdir = Some g" using node_leaf [OF path_in(1) [of la], of s pgdir] v g by simp
  have ga: "g \<in> allocated (pm s)" by (rule pt_okD(6) [OF ok _ ng]) simp
  have gr: "g + nbase < npage s" using pt_okD(5) [OF ok _ t, of "PTX la"] v g lt by (simp add: entry_page_def)
  let ?r = "(refs s)(g := refs s g - 1)"
  obtain m where m: "(if refs s g = 1 then release (pm s) g 1 else Some (pm s)) = Some m" "inv m"
    "free m = (if refs s g = 1 then insert g (free (pm s)) else free (pm s))"
    "allocated m = (if refs s g = 1 then allocated (pm s) - {g} else allocated (pm s))"
  proof (cases "refs s g = 1")
    case True
    have one: "{g ..< g + 1} = {g}" by auto
    obtain m where "release (pm s) g 1 = Some m" "inv m" "free m = free (pm s) \<union> {g}" "allocated m = allocated (pm s) - {g}"
      using release_ok [OF pt_okD(1) [OF ok], of 1 g, unfolded one] ga rel [OF True] by auto
    then show thesis using that True by auto
  next
    case False
    then show thesis using that pt_okD(1) [OF ok] by auto
  qed
  define s' where "s' = (set_entry_at t (PTX la) 0 s)\<lparr>refs := ?r, pm := m\<rparr>"
  have pr: "page_remove alloc release s pgdir la = Some s'"
    using v lt gp m(1) by (auto simp: page_remove_def get_pte_lookup [OF ok] t page_remove_pte_def set_page_ref_def free_page_def
        s'_def set_entry_at_def Let_def pte2page_def pa2page_def simp del: node.simps split: if_splits)
  note sl = set_leaf [OF ok t path_in(1) [unfolded path_def], where e = 0]
  have nn: "leaf s' x q = leaf (set_entry_at t (PTX la) 0 s) x q" for q x by (rule same_tab) (simp add: s'_def)
  have lf: "leaf s' pgdir q = (if q = path la then 0 else leaf s pgdir q)" if "q \<in> paths" for q
    unfolding nn path_def by (rule sl(2) [OF that])
  have np: "node s' q pgdir = (if q = path la then None else node s q pgdir)" if "q \<in> paths" for q
    using node_leaf [OF that, of s' pgdir] node_leaf [OF that, of s pgdir] lf [OF that] by (cases "q = path la") simp_all
  have mp: "mappings s' pgdir x = mappings s pgdir x - {path la}" for x using np by (auto simp: mappings_def split: if_splits)
  have fm: "finite (mappings s pgdir x)" for x by (rule finite_subset [OF _ paths_finite]) (auto simp: mappings_def)
  have pm': "path la \<in> mappings s pgdir g" using ng by (simp add: mappings_def)
  have card_g: "int (card (mappings s' pgdir g)) \<le> refs s g - 1"
    using pt_okD(8) [OF ok, of g] card_Diff_singleton [OF pm'] card_gt_0_iff [of "mappings s pgdir g"] fm [of g] pm' by (auto simp: mp)
  have only: "q = path la" if "q \<in> paths" "node s q pgdir = Some g" "refs s g = 1" for q
  proof -
    have "mappings s' pgdir g = {}" using card_g that(3) fm [of g] by (simp add: mp)
    then show ?thesis using that np [OF that(1)] by (auto simp: mappings_def split: if_splits)
  qed
  have "pt_ok inv free allocated s' pgdir"
  proof (rule pt_ok_set_leaf [OF ok t path_in(1) [unfolded path_def] s'_def])
    show "inv m" by (rule m(2))
    show "x \<in> free m \<Longrightarrow> x + nbase < npage s" for x using m(3) pt_okD(3) [OF ok, of x] gr by (auto split: if_splits)
    show "nbase \<le> PPN (PTE_ADDR 0) \<and> PPN (PTE_ADDR 0) < npage s \<and> (\<forall>q. length q \<le> 2 \<longrightarrow> node s q pgdir \<noteq> Some (entry_page 0))"
      if "0 AND PTE_V \<noteq> 0" using that by simp
    show "f \<in> allocated m" if "length q \<le> 2" "node s q pgdir = Some f" for q f
      using pt_okD(6) [OF ok _ that(2)] pt_okD(7) [OF ok that(1) _ that(2), of "path la"] ng that(1) m(4) by auto
    show "entry_page (leaf s' pgdir q) \<in> allocated m" if q: "q \<in> paths" "leaf s' pgdir q AND PTE_V \<noteq> 0" for q
    proof -
      have ne: "q \<noteq> path la" "node s q pgdir = Some (entry_page (leaf s' pgdir q))"
        using lf [OF q(1)] q(2) node_leaf [OF q(1), of s pgdir] by (auto split: if_splits)
      then have "entry_page (leaf s' pgdir q) \<in> allocated (pm s)" using pt_okD(6) [OF ok _ ne(2)] q(1) by (simp add: paths_def)
      then show ?thesis using m(4) only [OF q(1)] ne by auto
    qed
    show "int (card (mappings s' pgdir x)) \<le> ?r x" for x
      using card_g pt_okD(8) [OF ok, of x] card_mono [OF fm [of x], of "mappings s' pgdir x"] by (auto simp: mp)
  qed
  then show ?thesis using pr lf m(3) by (intro exI [of _ s']) (simp add: s'_def)
qed

end

end
