(* ===== verification/PageMap.thy ===== *)
theory PageMap
  imports PageTable FirstFit
begin

text \<open>
  The page tables on the kernel's own allocator: the contract \<open>page_source\<close> holds for the first fit
  manager, and with it what \<open>page_insert\<close> and \<open>page_remove\<close> do to an address space.
\<close>

interpretation fs: page_source default_alloc_pages "\<lambda>n. n" free_pages_of allocated_pages pmm_inv default_free_pages
proof unfold_locales
  fix s s' :: pmm
  show "(1 :: nat) = 1" ..
  assume "pmm_inv s" and a: "default_alloc_pages s 1 = Some (None, s')"
  then obtain xs where xs: "free_area s xs" by (auto simp: pmm_inv_def)
  with default_alloc_cases [OF xs a] have "xs = []" by (cases xs) (auto simp: free_area_def)
  with free_pages_of_area [OF xs] show "free_pages_of s = {}" by (simp add: freeset_def)
qed

text \<open>C39: \<open>page_insert\<close> maps an allocated page at an unmapped address: it returns, and either reports that no
  page was left for a table, with every address mapped as before, or the entry of the address names
  exactly that page with the permissions asked for, every other address keeps its entry and the
  reference count rises by one. In both cases tables stay a tree of allocated pages that nothing maps, and
  no page is mapped more often than it is counted.\<close>

theorem page_insert_maps:
  assumes "pt_ok pmm_inv free_pages_of allocated_pages s pgdir" "page \<in> allocated_pages (pm s)" "page + nbase < npage s"
    and "\<And>q. length q \<le> 2 \<Longrightarrow> node s q pgdir \<noteq> Some page"
    and "unat (PTE_V OR perm) < 2 ^ 10" "leaf s pgdir (path la) AND PTE_V = 0"
  shows "\<exists>r s'. page_insert default_alloc_pages default_free_pages s pgdir page la perm = Some (r, s')
    \<and> pt_ok pmm_inv free_pages_of allocated_pages s' pgdir
    \<and> (r = - E_NO_MEM \<and> (\<forall>q \<in> paths. leaf s' pgdir q = leaf s pgdir q)
       \<or> r = 0 \<and> (\<forall>q \<in> paths. leaf s' pgdir q = (if q = path la then pte_create (page + nbase) (PTE_V OR perm) else leaf s pgdir q))
         \<and> refs s' page = refs s page + 1)"
  by (rule fs.page_insert_ok [OF assms])

text \<open>C40: \<open>page_remove\<close> unmaps an address: its entry becomes zero, every other address keeps its entry, the
  page's reference count drops by one, and the page returns to the free pages exactly when the count
  reaches zero, so no page that is still mapped is ever free. (The first fit manager can only take a
  page back when some free page lies above it.)\<close>

theorem page_remove_unmaps:
  assumes "pt_ok pmm_inv free_pages_of allocated_pages s pgdir" "leaf s pgdir (path la) AND PTE_V \<noteq> 0"
    and "g = entry_page (leaf s pgdir (path la))"
    and "refs s g = 1 \<Longrightarrow> free_pages_of (pm s) = {} \<or> (\<exists>q \<in> free_pages_of (pm s). g < q)"
  shows "\<exists>s'. page_remove default_alloc_pages default_free_pages s pgdir la = Some s'
    \<and> pt_ok pmm_inv free_pages_of allocated_pages s' pgdir
    \<and> (\<forall>q \<in> paths. leaf s' pgdir q = (if q = path la then 0 else leaf s pgdir q))
    \<and> refs s' = (refs s)(g := refs s g - 1)
    \<and> free_pages_of (pm s') = (if refs s g = 1 then insert g (free_pages_of (pm s)) else free_pages_of (pm s))"
  by (rule fs.page_remove_ok [OF assms])

section \<open>An address space\<close>

text \<open>Sixteen free pages from page 10 on; the first is made the root table, the second is mapped.\<close>

lemma demo_space:
  obtains s :: "pmm vm" where "pt_ok pmm_inv free_pages_of allocated_pages s 10" "11 \<in> allocated_pages (pm s)" "11 + nbase < npage s"
    "\<And>q. length q \<le> 2 \<Longrightarrow> node s q 10 \<noteq> Some 11" "\<And>p. leaf s 10 p = 0" "refs s 11 = 0" "free_pages_of (pm s) = {12..<26}" "tab s = (\<lambda>_ _. 0)"
proof -
  obtain m where m: "default_init_memmap (default_init boot_pmm) 10 16 = Some m" "free_area m [10]"
    "pg_property (pg m 10) = 16" "allocated_pages m = {}" "coalesced (pg m) [10]" using boot_memmap [of 16 10] by auto
  have inv: "pmm_inv m" using m by (auto simp: pmm_inv_def)
  have fr: "free_pages_of m = {10..<26}" using free_pages_of_area [OF m(2)] m(3) by (simp add: block_def)
  have al: "default_alloc_pages m 2 = Some (Some 10, take_block m 10 2)" using default_alloc_eq [OF m(2), of 2] m(3) by simp
  let ?m = "take_block m 10 2"
  note a = ff.alloc_some [OF inv al]
  have f2: "free_pages_of ?m = {12..<26}" using a fr by auto
  have a2: "allocated_pages ?m = {10, 11}" using a m(4) by auto
  define s :: "pmm vm" where "s = \<lparr>pm = ?m, npage = nbase + 100, tab = \<lambda>_ _. 0, refs = \<lambda>_. 0\<rparr>"
  have n: "node s q 10 = (if q = [] then Some 10 else None)" for q by (cases q) (simp_all add: child_def s_def)
  have mp: "mappings s 10 x = {}" for x by (auto simp: mappings_def n paths_def)
  have ps: "pm s = ?m" "npage s = nbase + 100" "tab s = (\<lambda>_ _. 0)" "refs s = (\<lambda>_. 0)" by (simp_all add: s_def)
  have im: "pmm_inv ?m" using a by blast
  have "pt_ok pmm_inv free_pages_of allocated_pages s 10"
    unfolding pt_ok_def mp ps f2 a2 n using im by (auto simp: nbase_def split: if_splits)
  moreover have "leaf s 10 p = 0" for p by (auto simp: leaf_def ps split: option.splits)
  ultimately show thesis using that [of s] by (simp add: ps a2 f2 n)
qed

theorem page_insert_maps_witness:
  "\<exists>s r (s' :: pmm vm). page_insert default_alloc_pages default_free_pages s 10 11 0x800000 0x10 = Some (r, s')
    \<and> leaf s 10 (path 0x800000) = 0 \<and> (r = - E_NO_MEM \<or> entry_page (leaf s' 10 (path 0x800000)) = 11)"
proof (rule demo_space)
  fix s :: "pmm vm"
  assume s: "pt_ok pmm_inv free_pages_of allocated_pages s 10" "11 \<in> allocated_pages (pm s)" "11 + nbase < npage s"
    "\<And>q. length q \<le> 2 \<Longrightarrow> node s q 10 \<noteq> Some 11" "\<And>p. leaf s 10 p = 0"
  have p: "unat (PTE_V OR (0x10 :: pte)) < 2 ^ 10" by (simp add: PTE_V_def)
  have "11 + nbase < 2 ^ 44" by (simp add: nbase_def)
  note e = pte_fields(1) [OF this p]
  from page_insert_maps [OF s(1-4) p, of "0x800000"] s(5) obtain r s' where
    "page_insert default_alloc_pages default_free_pages s 10 11 0x800000 0x10 = Some (r, s')"
    "r = - E_NO_MEM \<or> leaf s' 10 (path 0x800000) = pte_create (11 + nbase) (PTE_V OR 0x10)"
    using path_in(1) [of "0x800000"] by fastforce
  then show ?thesis using s(5) e unfolding entry_page_def by (metis add_diff_cancel_right')
qed

text \<open>Pages 10 to 12 are the tables that lead to page 13, mapped at the address with indices 0, \<open>j\<close> and 0.\<close>

lemma demo_mapping_at:
  assumes j: "j < 512"
  obtains s :: "pmm vm" where "pt_ok pmm_inv free_pages_of allocated_pages s 10" "leaf s 10 [0, j, 0] AND PTE_V \<noteq> 0"
    "entry_page (leaf s 10 [0, j, 0]) = 13" "refs s 13 = 1" "free_pages_of (pm s) = {14..<26}"
proof -
  obtain m where m: "default_init_memmap (default_init boot_pmm) 10 16 = Some m" "free_area m [10]"
    "pg_property (pg m 10) = 16" "allocated_pages m = {}" "coalesced (pg m) [10]" using boot_memmap [of 16 10] by auto
  have inv: "pmm_inv m" using m by (auto simp: pmm_inv_def)
  have fr: "free_pages_of m = {10..<26}" using free_pages_of_area [OF m(2)] m(3) by (simp add: block_def)
  have al: "default_alloc_pages m 4 = Some (Some 10, take_block m 10 4)" using default_alloc_eq [OF m(2), of 4] m(3) by simp
  let ?m = "take_block m 10 4"
  note a = ff.alloc_some [OF inv al]
  have f4: "free_pages_of ?m = {14..<26}" using a fr by auto
  have a4: "allocated_pages ?m = {10..<14}" using a m(4) by auto
  define w where "w = [0, j, 0 :: nat]"
  define s :: "pmm vm" where "s = \<lparr>pm = ?m, npage = nbase + 100,
    tab = \<lambda>f i. if 10 \<le> f \<and> f < 13 \<and> i = w ! (f - 10) then pte_create (Suc f + nbase) PTE_V else 0, refs = (\<lambda>_. 0)(13 := 1)\<rparr>"
  have ps: "pm s = ?m" "npage s = nbase + 100" "refs s = (\<lambda>_. 0)(13 := 1)"
    "tab s f i = (if 10 \<le> f \<and> f < 13 \<and> i = w ! (f - 10) then pte_create (Suc f + nbase) PTE_V else 0)" for f i by (simp_all add: s_def)
  have im: "pmm_inv ?m" using a by blast
  have wl: "length w = 3" "set w \<subseteq> {..<512}" using j by (simp_all add: w_def)
  have wi: "w ! k < 512" if "k < 3" for k using subsetD [OF wl(2) nth_mem [of k w]] wl(1) that by simp
  have pf: "PPN (PTE_ADDR (pte_create (Suc f + nbase) PTE_V)) = Suc f + nbase" "pte_create (Suc f + nbase) PTE_V AND PTE_V \<noteq> 0" if "f < 13" for f
    using that by (intro pte_fields; simp add: nbase_def PTE_V_def)+
  have ch: "child s f i = (if 10 \<le> f \<and> f < 13 \<and> i = w ! (f - 10) then Some (Suc f) else None)" for f i
    using pf wi [of "f - 10"] by (auto simp: child_def ps(4) entry_page_def)
  have n: "node s q f = Some g \<longleftrightarrow> q = [] \<and> g = f \<or> 10 \<le> f \<and> g = f + length q \<and> g \<le> 13 \<and> q = take (length q) (drop (f - 10) w)" for q f g
  proof (induction q arbitrary: f)
    case (Cons i q)
    show ?case
    proof (cases "10 \<le> f \<and> f < 13 \<and> i = w ! (f - 10)")
      case True
      note l = wl(1)
      have "f - 10 < length w" "Suc f - 10 = Suc (f - 10)" using True unfolding l by arith+
      then have "drop (f - 10) w = w ! (f - 10) # drop (Suc f - 10) w" by (simp only: Cons_nth_drop_Suc)
      moreover have "node s (i # q) f = node s q (Suc f)" using True by (simp add: ch)
      ultimately show ?thesis using Cons.IH [of "Suc f"] True by auto
    next
      case False
      have "i = w ! (f - 10)" if "10 \<le> f" "f + length (i # q) \<le> 13" "i # q = take (length (i # q)) (drop (f - 10) w)"
      proof -
        note l = wl(1)
        have "f - 10 < length w" using that(1,2) unfolding l by simp
        then have "drop (f - 10) w = w ! (f - 10) # drop (Suc (f - 10)) w" by (rule Cons_nth_drop_Suc [symmetric])
        then show ?thesis using that(3) by simp
      qed
      then show ?thesis using False by (auto simp: ch)
    qed
  qed auto
  have root: "node s q 10 = Some g \<longleftrightarrow> q = take (length q) w \<and> g = 10 + length q \<and> length q \<le> 3" for q g
    unfolding n by auto
  have mp: "mappings s 10 x = (if x = 13 then {w} else {})" for x
    using wl by (auto simp: mappings_def root paths_def)
  have pv: "nbase \<le> PPN (PTE_ADDR (tab s f i)) \<and> PPN (PTE_ADDR (tab s f i)) < npage s" if "tab s f i AND PTE_V \<noteq> 0" for f i
    using that pf(1) [of f] by (auto simp: ps split: if_splits)
  have "pt_ok pmm_inv free_pages_of allocated_pages s 10"
    unfolding pt_ok_def mp
  proof (intro conjI allI impI; (elim conjE)?)
    show "pmm_inv (pm s)" "npage s \<le> 2 ^ 44" "\<forall>p \<in> free_pages_of (pm s). p + nbase < npage s"
      using im by (auto simp: ps f4 nbase_def)
    show "p = q" if "node s p 10 = Some f" "node s q 10 = Some f" for p q f using that unfolding root by (metis add_left_cancel)
    show "nbase \<le> PPN (PTE_ADDR (tab s t i))" "PPN (PTE_ADDR (tab s t i)) < npage s" if "tab s t i AND PTE_V \<noteq> 0" for t i
      using pv [OF that] by simp_all
    show "f \<in> allocated_pages (pm s)" if "node s p 10 = Some f" "length p \<le> 3" for p f using that unfolding root by (auto simp: ps a4)
    show "node s q 10 \<noteq> Some f" if "length p \<le> 2" "length q = 3" "node s p 10 = Some f" for p q f using that unfolding root by auto
    show "int (card (if page = 13 then {w} else {})) \<le> refs s page" for page by (simp add: ps)
  qed
  moreover have "leaf s 10 w = pte_create (Suc 12 + nbase) PTE_V"
  proof -
    have "node s (butlast w) 10 = Some 12" unfolding root by (simp add: w_def)
    then show ?thesis by (simp add: leaf_def ps(4) w_def)
  qed
  ultimately show thesis using that [of s] pf [of 12] f4 ps(1,3) by (simp add: entry_page_def w_def)
qed

lemma demo_mapping:
  obtains s :: "pmm vm" where "pt_ok pmm_inv free_pages_of allocated_pages s 10" "leaf s 10 (path 0) AND PTE_V \<noteq> 0"
    "entry_page (leaf s 10 (path 0)) = 13" "refs s 13 = 1" "free_pages_of (pm s) = {14..<26}"
proof -
  have "path 0 = [0, 0, 0]" by (simp add: path_def PDX1_def PDX0_def PTX_def)
  then show thesis using demo_mapping_at [of 0] that by auto
qed

theorem page_remove_unmaps_witness:
  "\<exists>s (s' :: pmm vm). page_remove default_alloc_pages default_free_pages s 10 0 = Some s' \<and> 13 \<notin> free_pages_of (pm s)
    \<and> 13 \<in> free_pages_of (pm s') \<and> leaf s' 10 (path 0) = 0"
proof -
  obtain s :: "pmm vm" where s: "pt_ok pmm_inv free_pages_of allocated_pages s 10" "leaf s 10 (path 0) AND PTE_V \<noteq> 0"
    "entry_page (leaf s 10 (path 0)) = 13" "refs s 13 = 1" "free_pages_of (pm s) = {14..<26}" using demo_mapping by blast
  have "\<exists>q \<in> free_pages_of (pm s). 13 < q" unfolding s(5) by (intro bexI [of _ 20]) auto
  with page_remove_unmaps [OF s(1,2) s(3) [symmetric]] obtain s' where
    "page_remove default_alloc_pages default_free_pages s 10 0 = Some s'" "\<forall>q \<in> paths. leaf s' 10 q = (if q = path 0 then 0 else leaf s 10 q)"
    "free_pages_of (pm s') = insert 13 (free_pages_of (pm s))" using s(4) by auto
  moreover from this(2) have "leaf s' 10 (path 0) = 0" using path_in(1) [of 0] by simp
  ultimately show ?thesis using s(5) by (intro exI [of _ s] exI [of _ s']) simp
qed

end
