(* ===== verification/PageFault.thy ===== *)
theory PageFault
  imports PageMap Swap Disk
begin

text \<open>
  Page faults and the swap disk: \<open>alloc_pages\<close> and the last part of \<open>pgdir_alloc_page\<close> of \<open>kern/mm/pmm.c\<close>, \<open>do_pgfault\<close> of
  \<open>kern/mm/vmm.c\<close>, the page faults of \<open>kern/trap/trap.c\<close>, \<open>swap_in\<close> and \<open>swap_out\<close> of \<open>kern/mm/swap.c\<close> with the first in,
  first out manager, and \<open>kern/fs/swap/swapfs.c\<close>. The state adds to the page tables the contents of the physical pages, the queue
  of swappable pages and the swap device. \<open>check_mm\<close> says that \<open>check_mm_struct\<close> is set, which it is only while the kernel
  runs its checks at boot. \<open>pgfault_num\<close> and the messages are not modelled.
\<close>

section \<open>State\<close>

record 's space =
  sp_vm :: "'s vm"
  page_mem :: "nat \<Rightarrow> byte list"
  sp_swap :: swap
  pra_vaddr :: "nat \<Rightarrow> addr"
  swapdev :: blkdev
  max_swap_offset :: nat
  swap_init_ok :: bool
  check_mm :: bool

definition PTE_R :: pte where "PTE_R = 2"
definition READ_WRITE :: pte where "READ_WRITE = PTE_R OR PTE_W OR PTE_V"
definition PAGE_NSECT :: nat where "PAGE_NSECT = 4096 div SECTSIZE"
definition MAX_SWAP_OFFSET_LIMIT :: nat where "MAX_SWAP_OFFSET_LIMIT = 2 ^ 24"

section \<open>The swap disk\<close>

text \<open>The start of \<open>swap_init\<close>, with \<open>swapfs_init\<close>.\<close>

definition swap_init_offset :: "'s space \<Rightarrow> 's space option" where
  "swap_init_offset s = do {
     let m = dev_size (swapdev s) div PAGE_NSECT;
     kassert (7 \<le> m \<and> m < MAX_SWAP_OFFSET_LIMIT);
     Some (s\<lparr>max_swap_offset := m, swap_init_ok := True\<rparr>)
   }"

definition swap_offset :: "'s space \<Rightarrow> pte \<Rightarrow> nat option" where
  "swap_offset s e = do {
     let off = unat (drop_bit 8 e);
     kassert (off > 0 \<and> off < max_swap_offset s);
     Some off
   }"

definition swapfs_read :: "'s space \<Rightarrow> pte \<Rightarrow> nat \<Rightarrow> (int \<times> 's space) option" where
  "swapfs_read s e page = do {
     off \<leftarrow> swap_offset s e;
     (ret, buf) \<leftarrow> ide_read_secs (swapdev s) (off * PAGE_NSECT) (page_mem s page) PAGE_NSECT;
     Some (ret, s\<lparr>page_mem := (page_mem s)(page := buf)\<rparr>)
   }"

definition swapfs_write :: "'s space \<Rightarrow> pte \<Rightarrow> nat \<Rightarrow> (int \<times> 's space) option" where
  "swapfs_write s e page = do {
     off \<leftarrow> swap_offset s e;
     (ret, dev) \<leftarrow> ide_write_secs (swapdev s) (off * PAGE_NSECT) (page_mem s page) PAGE_NSECT;
     Some (ret, s\<lparr>swapdev := dev\<rparr>)
   }"

section \<open>Pages\<close>

text \<open>\<open>alloc_pages\<close>: when there is no page left and swapping is on, the code swaps out pages of \<open>check_mm_struct\<close>. That is null in a
  running kernel, and \<open>swap_out\<close> follows the pointer: the result is \<open>None\<close>.\<close>

definition alloc_pages :: "bool \<Rightarrow> 's alloc_fun \<Rightarrow> 's alloc_fun" where
  "alloc_pages swap_on alloc s n = do {
     (page, s) \<leftarrow> alloc s n;
     kassert (page \<noteq> None \<or> n > 1 \<or> \<not> swap_on);
     Some (page, s)
   }"

section \<open>swap.c\<close>

definition swap_map_swappable :: "'s space \<Rightarrow> nat \<Rightarrow> 's space" where
  "swap_map_swappable s page = s\<lparr>sp_swap := fifo_map_swappable (sp_swap s) (Pra page)\<rparr>"

text \<open>The entry that says where on the disk the page of an address is.\<close>

definition swap_slot :: "addr \<Rightarrow> pte" where
  "swap_slot v = push_bit 8 (v div PGSIZE + 1)"

text \<open>One round of \<open>swap_out\<close>. The head of an empty queue is no page. A null entry pointer is a crash, and the manager's
  \<open>free_pages\<close> sets the reference count of the page to zero.\<close>

definition swap_out_one :: "'s alloc_fun \<Rightarrow> 's free_fun \<Rightarrow> 's space \<Rightarrow> nat \<Rightarrow> bool \<Rightarrow> 's space option" where
  "swap_out_one alloc release s pgdir in_tick = do {
     (victim, sw) \<leftarrow> fifo_swap_out_victim (sp_swap s) in_tick;
     page \<leftarrow> (case victim of Some (Pra p) \<Rightarrow> Some p | _ \<Rightarrow> None);
     let s = s\<lparr>sp_swap := sw\<rparr>;
     let v = pra_vaddr s page;
     (p, vm) \<leftarrow> get_pte (alloc_pages (swap_init_ok s) alloc) (sp_vm s) pgdir v False;
     (t, i) \<leftarrow> p;
     kassert (tab vm t i AND PTE_V \<noteq> 0);
     (ret, s) \<leftarrow> swapfs_write s (swap_slot v) page;
     if ret \<noteq> 0 then Some (swap_map_swappable s page)
     else do {
       vm \<leftarrow> free_page release (set_entry_at t i (swap_slot v) vm) page;
       Some (s\<lparr>sp_vm := set_page_ref page 0 vm\<rparr>)
     }
   }"

primrec swap_out :: "'s alloc_fun \<Rightarrow> 's free_fun \<Rightarrow> 's space \<Rightarrow> nat \<Rightarrow> bool \<Rightarrow> nat \<Rightarrow> 's space option" where
  "swap_out alloc release s pgdir in_tick 0 = Some s"
| "swap_out alloc release s pgdir in_tick (Suc n) = do {
     s \<leftarrow> swap_out_one alloc release s pgdir in_tick;
     swap_out alloc release s pgdir in_tick n
   }"

definition swap_in :: "'s alloc_fun \<Rightarrow> 's space \<Rightarrow> nat \<Rightarrow> addr \<Rightarrow> (nat \<times> 's space) option" where
  "swap_in alloc s pgdir addr = do {
     (r, vm) \<leftarrow> alloc_page (alloc_pages (swap_init_ok s) alloc) (sp_vm s);
     page \<leftarrow> r;
     (p, vm) \<leftarrow> get_pte (alloc_pages (swap_init_ok s) alloc) vm pgdir addr False;
     (t, i) \<leftarrow> p;
     (ret, s) \<leftarrow> swapfs_read (s\<lparr>sp_vm := vm\<rparr>) (tab vm t i) page;
     Some (page, s)
   }"

section \<open>Page faults\<close>

text \<open>\<open>pgdir_alloc_page\<close> with its last part.\<close>

definition pgdir_alloc_swappable :: "'s alloc_fun \<Rightarrow> 's free_fun \<Rightarrow> 's space \<Rightarrow> nat \<Rightarrow> addr \<Rightarrow> pte \<Rightarrow> (nat option \<times> 's space) option" where
  "pgdir_alloc_swappable alloc release s pgdir la perm = do {
     (r, vm) \<leftarrow> pgdir_alloc_page (alloc_pages (swap_init_ok s) alloc) release (sp_vm s) pgdir la perm;
     let s = s\<lparr>sp_vm := vm\<rparr>;
     case r of None \<Rightarrow> Some (None, s)
     | Some page \<Rightarrow>
         if swap_init_ok s \<and> check_mm s then do {
           let s = swap_map_swappable s page;
           let s = s\<lparr>pra_vaddr := (pra_vaddr s)(page := la)\<rparr>;
           kassert (refs (sp_vm s) page = 1);
           Some (r, s)
         } else Some (r, s)
   }"

text \<open>The permissions of the entry for a page of an area.\<close>

definition area_perm :: "32 word \<Rightarrow> pte" where
  "area_perm flags = (if flags AND VM_WRITE \<noteq> 0 then PTE_U OR READ_WRITE else PTE_U)"

text \<open>Without memory descriptor, as in a kernel thread, \<open>find_vma\<close> finds nothing.\<close>

definition do_pgfault :: "'s alloc_fun \<Rightarrow> 's free_fun \<Rightarrow> mm option \<Rightarrow> 's space \<Rightarrow> nat \<Rightarrow> addr \<Rightarrow> (int \<times> mm option \<times> 's space) option" where
  "do_pgfault alloc release mo s pgdir addr = do {
     (v, mo, start, flags) \<leftarrow> (case mo of None \<Rightarrow> Some (0, mo, 0, 0)
       | Some mm \<Rightarrow> do { (v, mm) \<leftarrow> find_vma mm addr; Some (v, Some mm, vm_start (vmas mm v), vm_flags (vmas mm v)) });
     if v = 0 \<or> start > addr then Some (- E_INVAL, mo, s)
     else do {
       let perm = area_perm flags;
       let addr = ROUNDDOWN addr PGSIZE;
       (p, vm) \<leftarrow> get_pte (alloc_pages (swap_init_ok s) alloc) (sp_vm s) pgdir addr True;
       let s = s\<lparr>sp_vm := vm\<rparr>;
       case p of None \<Rightarrow> Some (- E_NO_MEM, mo, s)
       | Some (t, i) \<Rightarrow>
           if tab vm t i = 0 then do {
             (r, s) \<leftarrow> pgdir_alloc_swappable alloc release s pgdir addr perm;
             Some (if r = None then - E_NO_MEM else 0, mo, s)
           }
           else if swap_init_ok s then do {
             (page, s) \<leftarrow> swap_in alloc s pgdir addr;
             (_, vm) \<leftarrow> page_insert (alloc_pages (swap_init_ok s) alloc) release (sp_vm s) pgdir page addr perm;
             let s = swap_map_swappable (s\<lparr>sp_vm := vm\<rparr>) page;
             Some (0, mo, s\<lparr>pra_vaddr := (pra_vaddr s)(page := addr)\<rparr>)
           }
           else Some (- E_NO_MEM, mo, s)
     }
   }"

text \<open>The page faults of \<open>exception_handler\<close>, in a running kernel: an instruction page fault is only printed, and the other two
  go through \<open>pgfault_handler\<close> and panic when it fails.\<close>

datatype fault_cause = CAUSE_FETCH_PAGE_FAULT | CAUSE_LOAD_PAGE_FAULT | CAUSE_STORE_PAGE_FAULT

definition page_fault :: "'s alloc_fun \<Rightarrow> 's free_fun \<Rightarrow> fault_cause \<Rightarrow> mm option \<Rightarrow> 's space \<Rightarrow> nat \<Rightarrow> addr \<Rightarrow> (mm option \<times> 's space) option" where
  "page_fault alloc release cause mo s pgdir addr =
     (if cause = CAUSE_FETCH_PAGE_FAULT then Some (mo, s)
      else do {
        (ret, mo, s) \<leftarrow> do_pgfault alloc release mo s pgdir addr;
        kassert (ret = 0);
        Some (mo, s)
      })"

section \<open>Walking the tables with the kernel's allocator\<close>

lemma alloc_pages_eq: "alloc_pages b alloc m 1 = (case alloc m 1 of None \<Rightarrow> None
    | Some (None, m') \<Rightarrow> if b then None else Some (None, m') | Some (Some g, m') \<Rightarrow> Some (Some g, m'))"
  by (auto simp: alloc_pages_def split: option.splits)

lemma alloc_page_eq: "alloc_page (alloc_pages b alloc) s = (case alloc_page alloc s of None \<Rightarrow> None
    | Some (None, s') \<Rightarrow> if b then None else Some (None, s') | Some (Some g, s') \<Rightarrow> Some (Some g, s'))"
  unfolding alloc_page_def alloc_pages_eq by (auto split: option.splits)

lemma new_table_eq: "new_table (alloc_pages b alloc) s t i c =
    (case new_table alloc s t i c of Some (False, s') \<Rightarrow> if b \<and> c then None else Some (False, s') | r \<Rightarrow> r)"
  unfolding new_table_def alloc_page_eq KADDR_def Let_def
  by (auto split: option.splits simp: bind_kassert)

lemma get_pte_eq: "get_pte (alloc_pages b alloc) s pgdir la c =
    (case get_pte alloc s pgdir la c of Some (None, s') \<Rightarrow> if b \<and> c then None else Some (None, s') | r \<Rightarrow> r)"
proof (cases "new_table alloc s pgdir (PDX1 la) c")
  case (Some r)
  obtain ok s1 where r: "r = (ok, s1)" by (cases r)
  let ?k = "KADDR s1 (PTE_ADDR (tab s1 pgdir (PDX1 la)))"
  show ?thesis
  proof (cases "ok \<and> ?k \<noteq> None")
    case True
    then obtain d where d: "ok" "?k = Some d" by blast
    show ?thesis
    proof (cases "new_table alloc s1 d (PDX0 la) c")
      case (Some q)
      obtain ok2 s2 where q: "q = (ok2, s2)" by (cases q)
      show ?thesis using \<open>new_table alloc s pgdir (PDX1 la) c = Some r\<close> Some r q d
        by (cases ok2; cases "KADDR s2 (PTE_ADDR (tab s2 d (PDX0 la)))") (simp_all add: get_pte_def new_table_eq)
    qed (use Some r d in \<open>simp add: get_pte_def new_table_eq\<close>)
  next
    case False
    then show ?thesis using Some r by (cases ok) (simp_all add: get_pte_def new_table_eq)
  qed
qed (simp add: get_pte_def new_table_eq)

text \<open>An entry that maps a page is no place on the swap disk: its number is too large.\<close>

lemma mapped_offset:
  fixes e :: pte
  assumes "nbase \<le> PPN (PTE_ADDR e)"
  shows "2 ^ 21 \<le> unat (drop_bit 8 e)"
proof -
  let ?x = "e AND NOT 0x3FF"
  have "unat (push_bit 2 ?x) = (unat ?x * 4) mod 2 ^ 64" by (simp add: push_bit_eq_mult unat_word_ariths(2) mult.commute)
  then have "unat (push_bit 2 ?x) \<le> unat ?x * 4" by simp
  moreover have "unat ?x \<le> unat e" by (simp add: word_and_le2 word_le_nat_alt [symmetric])
  ultimately have "unat (push_bit 2 ?x) div 2 ^ 12 \<le> unat e * 4 div 2 ^ 12" by (intro div_le_mono) linarith
  then have "nbase \<le> unat e * 4 div 2 ^ 12" using assms by (simp add: PPN_def PTE_ADDR_def drop_bit_eq_div unat_div)
  then have "2 ^ 21 \<le> unat e div 2 ^ 8" by (simp add: nbase_def)
  then show ?thesis by (simp add: drop_bit_eq_div unat_div)
qed

section \<open>The swap disk keeps pages\<close>

definition swap_ready :: "'s space \<Rightarrow> bool" where
  "swap_ready s \<longleftrightarrow> max_swap_offset s = dev_size (swapdev s) div PAGE_NSECT \<and> max_swap_offset s < MAX_SWAP_OFFSET_LIMIT \<and> swap_init_ok s"

lemma swap_init_ready: "swap_init_offset s = Some s' \<Longrightarrow> swap_ready s'"
  by (auto simp: swap_init_offset_def swap_ready_def Let_def split: if_splits)

lemma swap_clip:
  assumes "swap_ready s" "off < max_swap_offset s"
  shows "ramdisk_clip (swapdev s) (off * PAGE_NSECT) PAGE_NSECT = PAGE_NSECT" "PAGE_NSECT \<le> MAX_NSECS"
    "off * PAGE_NSECT < MAX_DISK_NSECS" "off * PAGE_NSECT + PAGE_NSECT \<le> MAX_DISK_NSECS"
proof -
  have n: "PAGE_NSECT = 8" by (simp add: PAGE_NSECT_def SECTSIZE_def)
  have m: "off < dev_size (swapdev s) div 8" "off < 2 ^ 24" using assms by (simp_all add: swap_ready_def n MAX_SWAP_OFFSET_LIMIT_def)
  from m(1) have "(off + 1) * 8 \<le> dev_size (swapdev s)" by (simp add: less_eq_div_iff_mult_less_eq [symmetric])
  then show "ramdisk_clip (swapdev s) (off * PAGE_NSECT) PAGE_NSECT = PAGE_NSECT" by (auto simp: ramdisk_clip_def Let_def n)
  show "PAGE_NSECT \<le> MAX_NSECS" "off * PAGE_NSECT < MAX_DISK_NSECS" "off * PAGE_NSECT + PAGE_NSECT \<le> MAX_DISK_NSECS"
    using m(2) by (simp_all add: n MAX_NSECS_def MAX_DISK_NSECS_def)
qed

lemma swapfs_ok:
  assumes "swap_ready s" "off = unat (drop_bit 8 e)" "0 < off" "off < max_swap_offset s" "length (page_mem s p) = 4096"
  shows "swapfs_write s e p = Some (0, s\<lparr>swapdev := (swapdev s)\<lparr>dev_image := put_bytes (dev_image (swapdev s)) (off * 4096) (page_mem s p)\<rparr>\<rparr>)"
    "swapfs_read s e p = Some (0, s\<lparr>page_mem := (page_mem s)(p := get_bytes (dev_image (swapdev s)) (off * 4096) 4096)\<rparr>)"
proof -
  have o: "swap_offset s e = Some off" using assms by (simp add: swap_offset_def bind_kassert)
  have n: "PAGE_NSECT * SECTSIZE = 4096" by (simp add: PAGE_NSECT_def SECTSIZE_def)
  have k: "off * PAGE_NSECT * SECTSIZE = off * 4096" using n by (simp add: mult.assoc)
  note c = swap_clip [OF assms(1,4)]
  show "swapfs_write s e p = Some (0, s\<lparr>swapdev := (swapdev s)\<lparr>dev_image := put_bytes (dev_image (swapdev s)) (off * 4096) (page_mem s p)\<rparr>\<rparr>)"
    using c assms(5) by (simp add: swapfs_write_def o ide_write_secs_def ramdisk_write_def bind_kassert Let_def n k)
  show "swapfs_read s e p = Some (0, s\<lparr>page_mem := (page_mem s)(p := get_bytes (dev_image (swapdev s)) (off * 4096) 4096)\<rparr>)"
    using c assms(5) by (simp add: swapfs_read_def o ide_read_secs_def ramdisk_read_def bind_kassert Let_def n k)
qed

definition slot_of :: "addr \<Rightarrow> nat" where
  "slot_of v = unat v div 4096 + 1"

lemma swap_slot_entry:
  assumes "slot_of v < 2 ^ 24"
  shows "unat (drop_bit 8 (swap_slot v)) = slot_of v" "swap_slot v AND PTE_V = 0" "swap_slot v \<noteq> 0"
    "swap_slot v = of_nat (slot_of v * 256)"
proof -
  let ?x = "v div PGSIZE + 1"
  have x: "unat ?x = slot_of v" using assms by (simp add: slot_of_def unat_word_ariths(1) unat_div PGSIZE_def)
  have "unat ?x < 2 ^ 24" using x assms by simp
  then have b: "bit ?x n \<Longrightarrow> n < 24" for n by (rule small_bits)
  have "drop_bit 8 (push_bit 8 ?x) = ?x" by (rule bit_word_eqI) (use b in \<open>fastforce simp: bit_simps\<close>)
  then show e: "unat (drop_bit 8 (swap_slot v)) = slot_of v" using x by (simp add: swap_slot_def)
  have "\<not> bit (swap_slot v) 0" by (simp add: swap_slot_def bit_simps)
  then show "swap_slot v AND PTE_V = 0" using valid_bit [of "swap_slot v"] by simp
  show "swap_slot v \<noteq> 0" using e by (auto simp: slot_of_def)
  have "?x = of_nat (unat ?x)" by simp
  then have "?x = of_nat (slot_of v)" unfolding x .
  then show "swap_slot v = of_nat (slot_of v * 256)" by (simp add: swap_slot_def push_bit_eq_mult mult.commute)
qed

context page_source
begin

lemma get_pte_present:
  assumes ok: "pt_ok inv free allocated s pgdir" and t: "node s [PDX1 la, PDX0 la] pgdir = Some t"
  shows "get_pte (alloc_pages b alloc) s pgdir la c = Some (Some (t, PTX la), s)"
proof -
  have v1: "tab s pgdir (PDX1 la) AND PTE_V \<noteq> 0" using t by (auto simp: child_def split: if_splits)
  let ?d = "entry_page (tab s pgdir (PDX1 la))"
  note k = kaddr_entry [OF ok, of "[]" pgdir "PDX1 la"]
  have d: "node s [PDX1 la] pgdir = Some ?d" "KADDR s (PTE_ADDR (tab s pgdir (PDX1 la))) = Some ?d" using k v1 by auto
  have v2: "tab s ?d (PDX0 la) AND PTE_V \<noteq> 0" "t = entry_page (tab s ?d (PDX0 la))"
    using t v1 by (auto simp: child_def split: if_splits)
  note k2 = kaddr_entry [OF ok _ d(1), of "PDX0 la"]
  show ?thesis using v1 v2 d k2 by (simp add: get_pte_def new_table_def)
qed

text \<open>Each level takes one page at most, and fails only when there is none.\<close>

lemma new_table_free:
  assumes ok: "pt_ok inv free allocated s pgdir" and nt: "new_table alloc s t i True = Some (b, s')"
  shows "card (free (pm s)) \<le> card (free (pm s')) + 1" "\<not> b \<Longrightarrow> s' = s \<and> free (pm s) = {}"
proof -
  have "card (free (pm s)) \<le> card (free (pm s')) + 1 \<and> (\<not> b \<longrightarrow> s' = s \<and> free (pm s) = {})"
  proof (cases "tab s t i AND PTE_V \<noteq> 0")
    case True
    then show ?thesis using nt by (simp add: new_table_def)
  next
    case False
    from alloc_page_cases [OF pt_okD(1) [OF ok]] show ?thesis
    proof cases
      case 1
      then show ?thesis using nt False by (simp add: new_table_def)
    next
      case (2 g m)
      then have "b" "pm s' = m" using nt False
        by (auto simp: new_table_def Let_def set_page_ref_def set_entry_at_def elim!: bind_SomeE)
      moreover have "card (free (pm s)) \<le> card (free m) + 1" unfolding 2(4) using free_finite [OF pt_okD(1) [OF ok]] 2(3) by simp
      ultimately show ?thesis by simp
    qed
  qed
  then show "card (free (pm s)) \<le> card (free (pm s')) + 1" "\<not> b \<Longrightarrow> s' = s \<and> free (pm s) = {}" by auto
qed

lemma get_pte_free:
  assumes ok: "pt_ok inv free allocated s pgdir" and g: "get_pte alloc s pgdir la True = Some (r, s')"
  shows "card (free (pm s)) \<le> card (free (pm s')) + 2" "r = None \<Longrightarrow> card (free (pm s)) \<le> 1"
proof -
  from new_table_ok [OF ok, of "[]" pgdir "PDX1 la"] obtain b s1 where
    one: "new_table alloc s pgdir (PDX1 la) True = Some (b, s1)" "pt_ok inv free allocated s1 pgdir" by fastforce
  note f1 = new_table_free [OF ok one(1)]
  have "card (free (pm s)) \<le> card (free (pm s')) + 2 \<and> (r = None \<longrightarrow> card (free (pm s)) \<le> 1)"
  proof (cases b)
    case False
    then show ?thesis using f1 g one(1) by (simp add: get_pte_def)
  next
    case True
    then obtain d b2 s2 where two: "new_table alloc s1 d (PDX0 la) True = Some (b2, s2)"
      "s' = s2" "r = None \<Longrightarrow> \<not> b2"
      using g one(1) by (auto simp: get_pte_def elim!: bind_SomeE split: if_splits prod.splits)
    note f2 = new_table_free [OF one(2) two(1)]
    show ?thesis using f1(1) f2 two(2,3) by (auto simp: card_eq_0_iff)
  qed
  then show "card (free (pm s)) \<le> card (free (pm s')) + 2" "r = None \<Longrightarrow> card (free (pm s)) \<le> 1" by auto
qed

text \<open>A page that has just been allocated is not yet part of the address space.\<close>

lemma pt_ok_alloc:
  assumes ok: "pt_ok inv free allocated s pgdir" and m: "inv m" "g \<in> free (pm s)" "free m = free (pm s) - {g}"
    "allocated m = insert g (allocated (pm s))"
  shows "pt_ok inv free allocated (s\<lparr>pm := m\<rparr>) pgdir"
proof -
  let ?s = "s\<lparr>pm := m\<rparr>"
  have n: "node ?s q x = node s q x" for q x by (rule same_tab(1)) simp
  then have mp: "mappings ?s pgdir x = mappings s pgdir x" for x by (simp add: mappings_def)
  show ?thesis using ok m unfolding pt_ok_def n mp by auto
qed

lemma page_insert_present:
  assumes ok: "pt_ok inv free allocated s pgdir" and pg: "page \<in> allocated (pm s)" "page + nbase < npage s"
    "\<And>q. length q \<le> 2 \<Longrightarrow> node s q pgdir \<noteq> Some page"
    and perm: "unat (PTE_V OR perm) < 2 ^ 10" and un: "leaf s pgdir (path la) AND PTE_V = 0"
    and t: "node s [PDX1 la, PDX0 la] pgdir = Some t"
  shows "\<exists>s'. page_insert (alloc_pages b alloc) release s pgdir page la perm = Some (0, s') \<and> pt_ok inv free allocated s' pgdir
    \<and> (\<forall>q \<in> paths. leaf s' pgdir q = (if q = path la then pte_create (page + nbase) (PTE_V OR perm) else leaf s pgdir q))
    \<and> refs s' page = refs s page + 1 \<and> pm s' = pm s"
proof -
  let ?s' = "set_entry_at t (PTX la) (pte_create (page2ppn page) (PTE_V OR perm)) (set_page_ref page (refs s page + 1) s)"
  have nv: "tab s t (PTX la) AND PTE_V = 0" using un leaf_path [OF t] by simp
  have pi: "page_insert (alloc_pages c alloc) release s pgdir page la perm = Some (0, ?s')" for c
    using nv by (simp add: page_insert_def get_pte_present [OF ok t] Let_def set_page_ref_def)
  have "page_insert alloc release s pgdir page la perm = page_insert (alloc_pages False alloc) release s pgdir page la perm"
    using get_pte_present [OF ok t, of False True] get_pte_eq [of False alloc s pgdir la True]
    by (auto simp: page_insert_def split: option.splits)
  then show ?thesis using page_insert_ok [OF ok pg perm un] pi [of False] pi [of b]
    by (auto simp: E_NO_MEM_def set_entry_at_def set_page_ref_def)
qed

lemma pgdir_alloc_present:
  assumes ok: "pt_ok inv free allocated s pgdir" and perm: "unat (PTE_V OR perm) < 2 ^ 10" and un: "leaf s pgdir (path la) AND PTE_V = 0"
    and t: "node s [PDX1 la, PDX0 la] pgdir = Some t" and b: "b \<Longrightarrow> free (pm s) \<noteq> {}"
  obtains "pgdir_alloc_page (alloc_pages b alloc) release s pgdir la perm = Some (None, s)" "free (pm s) = {}"
  | g s' where "pgdir_alloc_page (alloc_pages b alloc) release s pgdir la perm = Some (Some g, s')" "pt_ok inv free allocated s' pgdir"
      "g \<in> free (pm s)" "refs s' g = refs s g + 1" "free (pm s') = free (pm s) - {g}"
      "\<forall>q \<in> paths. leaf s' pgdir q = (if q = path la then pte_create (g + nbase) (PTE_V OR perm) else leaf s pgdir q)"
proof -
  from alloc_page_cases [OF pt_okD(1) [OF ok]] show thesis
  proof cases
    case 1
    then have "alloc_page (alloc_pages b alloc) s = Some (None, s)" using b by (auto simp: alloc_page_eq)
    then show thesis using that(1) 1(2) by (simp add: pgdir_alloc_page_def)
  next
    case (2 g m)
    let ?s = "s\<lparr>pm := m\<rparr>"
    have al: "alloc_page (alloc_pages b alloc) s = Some (Some g, ?s)" by (simp add: alloc_page_eq 2(1))
    have same: "node ?s q x = node s q x" "leaf ?s x q = leaf s x q" for q x by (rule same_tab, simp)+
    obtain s' where s': "page_insert (alloc_pages b alloc) release ?s pgdir g la perm = Some (0, s')" "pt_ok inv free allocated s' pgdir"
      "\<forall>q \<in> paths. leaf s' pgdir q = (if q = path la then pte_create (g + nbase) (PTE_V OR perm) else leaf ?s pgdir q)"
      "refs s' g = refs ?s g + 1" "pm s' = pm ?s"
    proof -
      have "g + nbase < npage ?s" using pt_okD(3) [OF ok 2(3)] by simp
      moreover have "node ?s q pgdir \<noteq> Some g" if "length q \<le> 2" for q using free_not_node [OF ok 2(3), of q] that by (simp add: same)
      moreover have "leaf ?s pgdir (path la) AND PTE_V = 0" using un by (simp only: same)
      moreover have "node ?s [PDX1 la, PDX0 la] pgdir = Some t" unfolding same by (rule t)
      moreover have "g \<in> allocated (pm ?s)" using 2(5) by simp
      ultimately show thesis using page_insert_present [OF pt_ok_alloc [OF ok 2(2-5)], of g perm la t b] perm that by blast
    qed
    show thesis by (rule that(2) [of g s']) (use s' al 2 in \<open>simp_all add: pgdir_alloc_page_def same\<close>)
  qed
qed

lemma do_pgfault_fresh:
  assumes mm: "mm_ok mm vs" and ok: "pt_ok inv free allocated (sp_vm s) pgdir"
    and zero: "leaf (sp_vm s) pgdir (path (ROUNDDOWN addr PGSIZE)) = 0"
    and run: "\<not> check_mm s"
  shows "do_pgfault alloc release (Some mm) s pgdir addr = None \<and> card (free (pm (sp_vm s))) \<le> 2
    \<or> (\<exists>r mm' s'. do_pgfault alloc release (Some mm) s pgdir addr = Some (r, Some mm', s') \<and> mm_ok mm' vs
    \<and> pt_ok inv free allocated (sp_vm s') pgdir \<and> page_mem s' = page_mem s
    \<and> (r = - E_INVAL \<and> s' = s \<and> (\<forall>v \<in> set vs. \<not> covers mm addr v)
       \<or> r = - E_NO_MEM \<and> card (free (pm (sp_vm s))) \<le> 2 \<and> (\<forall>q \<in> paths. leaf (sp_vm s') pgdir q = leaf (sp_vm s) pgdir q)
       \<or> r = 0 \<and> (\<exists>v \<in> set vs. \<exists>g \<in> free (pm (sp_vm s)). covers mm addr v \<and>
            (\<forall>q \<in> paths. leaf (sp_vm s') pgdir q = (if q = path (ROUNDDOWN addr PGSIZE)
               then pte_create (g + nbase) (PTE_V OR area_perm (vm_flags (vmas mm v))) else leaf (sp_vm s) pgdir q)))))"
proof -
  let ?la = "ROUNDDOWN addr PGSIZE" and ?al = "alloc_pages (swap_init_ok s) alloc"
  from find_vma_ok [OF mm] obtain v c where v: "find_vma mm addr = Some (v, mm\<lparr>mmap_cache := c\<rparr>)" "mm_ok (mm\<lparr>mmap_cache := c\<rparr>) vs"
    "v = 0 \<and> (\<forall>v \<in> set vs. \<not> covers mm addr v) \<or> v \<in> set vs \<and> v \<noteq> 0 \<and> covers mm addr v" by blast
  show ?thesis
  proof (cases "v = 0")
    case True
    then have "do_pgfault alloc release (Some mm) s pgdir addr = Some (- E_INVAL, Some (mm\<lparr>mmap_cache := c\<rparr>), s)"
      using v by (simp add: do_pgfault_def)
    then show ?thesis using v ok True by blast
  next
    case False
    then have cv: "v \<in> set vs" "covers mm addr v" "\<not> vm_start (vmas mm v) > addr" using v(3) by (auto simp: covers_def)
    let ?perm = "area_perm (vm_flags (vmas mm v))"
    from get_pte_create [OF ok, of ?la] obtain p vm where g: "get_pte alloc (sp_vm s) pgdir ?la True = Some (p, vm)"
      "pt_ok inv free allocated vm pgdir" "grows free allocated (sp_vm s) vm pgdir"
      "case p of None \<Rightarrow> True | Some (t, i) \<Rightarrow> i = PTX ?la \<and> node vm [PDX1 ?la, PDX0 ?la] pgdir = Some t" by blast
    note cf = get_pte_free [OF ok g(1)]
    have lf: "leaf vm pgdir q = leaf (sp_vm s) pgdir q" if "q \<in> paths" for q using g(3) that by (simp add: grows_def)
    have gp: "get_pte ?al (sp_vm s) pgdir ?la True = (if p = None \<and> swap_init_ok s then None else Some (p, vm))"
      using g(1) by (cases p) (simp_all add: get_pte_eq)
    show ?thesis
    proof (cases p)
      case None
      have small: "card (free (pm (sp_vm s))) \<le> 2" using cf(2) [OF None] by simp
      show ?thesis
      proof (cases "swap_init_ok s")
        case True
        then have "do_pgfault alloc release (Some mm) s pgdir addr = None" using v(1) cv False gp None by (simp add: do_pgfault_def Let_def)
        then show ?thesis using small by simp
      next
        case off: False
        from None have "do_pgfault alloc release (Some mm) s pgdir addr = Some (- E_NO_MEM, Some (mm\<lparr>mmap_cache := c\<rparr>), s\<lparr>sp_vm := vm\<rparr>)"
          using v(1) cv False gp off by (simp add: do_pgfault_def Let_def)
        then show ?thesis using v(2) g(2) lf small
          by (intro disjI2 exI [of _ "- E_NO_MEM"] exI [of _ "mm\<lparr>mmap_cache := c\<rparr>"] exI [of _ "s\<lparr>sp_vm := vm\<rparr>"]) simp
      qed
    next
      case (Some q)
      then obtain t where q: "p = Some (t, PTX ?la)" "node vm [PDX1 ?la, PDX0 ?la] pgdir = Some t" using g(4) by (cases q) auto
      have z: "leaf vm pgdir (path ?la) = 0" "tab vm t (PTX ?la) = 0" using lf [OF path_in(1)] zero leaf_path [OF q(2)] by simp_all
      have pe: "unat (PTE_V OR ?perm) < 2 ^ 10" by (simp add: area_perm_def PTE_V_def PTE_U_def READ_WRITE_def PTE_R_def PTE_W_def)
      have un: "leaf vm pgdir (path ?la) AND PTE_V = 0" using z(1) by simp
      have step: "do_pgfault alloc release (Some mm) s pgdir addr = (case pgdir_alloc_page ?al release vm pgdir ?la ?perm of None \<Rightarrow> None
          | Some (r, vm') \<Rightarrow> Some (if r = None then - E_NO_MEM else 0, Some (mm\<lparr>mmap_cache := c\<rparr>), s\<lparr>sp_vm := vm'\<rparr>))"
        using v(1) cv False gp q(1) z(2) run
        by (auto simp: do_pgfault_def pgdir_alloc_swappable_def Let_def split: option.splits)
      show ?thesis
      proof (cases "swap_init_ok s \<and> free (pm vm) = {}")
        case True
        have "alloc_page ?al vm = None"
          using alloc_page_cases [OF pt_okD(1) [OF g(2)]] by cases (use True in \<open>simp_all add: alloc_page_eq\<close>)
        then have "do_pgfault alloc release (Some mm) s pgdir addr = None" unfolding step by (simp add: pgdir_alloc_page_def)
        then show ?thesis using True cf(1) by simp
      next
        case roomy: False
        show ?thesis
        proof (rule pgdir_alloc_present [OF g(2) pe un q(2), of "swap_init_ok s"])
          show "swap_init_ok s \<Longrightarrow> free (pm vm) \<noteq> {}" using roomy by blast
        next
          assume n: "pgdir_alloc_page ?al release vm pgdir ?la ?perm = Some (None, vm)" "free (pm vm) = {}"
          then show ?thesis using step cf(1) v(2) g(2) lf
            by (intro disjI2 exI [of _ "- E_NO_MEM"] exI [of _ "mm\<lparr>mmap_cache := c\<rparr>"] exI [of _ "s\<lparr>sp_vm := vm\<rparr>"]) simp
        next
          fix f vm'
          assume a: "pgdir_alloc_page ?al release vm pgdir ?la ?perm = Some (Some f, vm')" "pt_ok inv free allocated vm' pgdir" "f \<in> free (pm vm)"
            "\<forall>q \<in> paths. leaf vm' pgdir q = (if q = path ?la then pte_create (f + nbase) (PTE_V OR ?perm) else leaf vm pgdir q)"
          have "f \<in> free (pm (sp_vm s))" using g(3) a(3) by (auto simp: grows_def)
          then show ?thesis using step a v(2) cv lf
            by (intro disjI2 exI [of _ 0] exI [of _ "mm\<lparr>mmap_cache := c\<rparr>"] exI [of _ "s\<lparr>sp_vm := vm'\<rparr>"] conjI disjI2 bexI [of _ v] bexI [of _ f]) auto
        qed
      qed
    qed
  qed
qed

lemma do_pgfault_mapped:
  assumes mm: "mm_ok mm vs" and ok: "pt_ok inv free allocated (sp_vm s) pgdir" and v: "v \<in> set vs" "covers mm addr v"
    and mapped: "leaf (sp_vm s) pgdir (path (ROUNDDOWN addr PGSIZE)) AND PTE_V \<noteq> 0" and sw: "max_swap_offset s \<le> 2 ^ 21"
  shows "do_pgfault alloc release (Some mm) s pgdir addr =
    (if swap_init_ok s then None else Some (- E_NO_MEM, Some (snd (the (find_vma mm addr))), s))"
proof -
  let ?la = "ROUNDDOWN addr PGSIZE" and ?al = "alloc_pages (swap_init_ok s) alloc"
  from find_vma_ok [OF mm] v obtain w c where w: "find_vma mm addr = Some (w, mm\<lparr>mmap_cache := c\<rparr>)" "w \<noteq> 0" "covers mm addr w" by blast
  then have nf: "\<not> (w = 0 \<or> vm_start (vmas (mm\<lparr>mmap_cache := c\<rparr>) w) > addr)" by (auto simp: covers_def)
  obtain t where t: "node (sp_vm s) [PDX1 ?la, PDX0 ?la] pgdir = Some t"
    using mapped by (cases "node (sp_vm s) [PDX1 ?la, PDX0 ?la] pgdir") (simp_all add: leaf_def path_def del: node.simps)
  let ?e = "tab (sp_vm s) t (PTX ?la)"
  have e: "?e AND PTE_V \<noteq> 0" using mapped leaf_path [OF t] by simp
  then have z: "?e \<noteq> 0" by auto
  have off: "2 ^ 21 \<le> unat (drop_bit 8 ?e)" by (rule mapped_offset) (use pt_okD(5) [OF ok _ t _ e] in simp)
  have lt: "\<not> unat (drop_bit 8 ?e) < max_swap_offset s" using off sw by linarith
  note g = get_pte_present [OF ok t, of "swap_init_ok s"]
  have si: "swap_in alloc s pgdir ?la = None" if on: "swap_init_ok s"
  proof -
    from alloc_page_cases [OF pt_okD(1) [OF ok]] show ?thesis
    proof cases
      case 1
      then have "alloc_page ?al (sp_vm s) = None" using on by (simp add: alloc_page_eq)
      then show ?thesis by (simp add: swap_in_def)
    next
      case (2 f m)
      let ?vm = "(sp_vm s)\<lparr>pm := m\<rparr>"
      have "node ?vm [PDX1 ?la, PDX0 ?la] pgdir = Some t" unfolding same_tab(1) [of ?vm "sp_vm s", simplified] by (rule t)
      then have "get_pte ?al ?vm pgdir ?la False = Some (Some (t, PTX ?la), ?vm)"
        by (rule get_pte_present [OF pt_ok_alloc [OF ok 2(2-5)]])
      moreover have "alloc_page ?al (sp_vm s) = Some (Some f, ?vm)" by (simp add: alloc_page_eq 2(1))
      moreover have "tab ?vm t (PTX ?la) = ?e" by simp
      ultimately show ?thesis using lt by (simp add: swap_in_def swapfs_read_def swap_offset_def bind_kassert)
    qed
  qed
  show ?thesis using w nf g z si by (simp add: do_pgfault_def Let_def)
qed

text \<open>Writing an entry that maps nothing.\<close>

lemma pt_ok_set_invalid:
  assumes ok: "pt_ok inv free allocated s pgdir" and t: "node s [PDX1 la, PDX0 la] pgdir = Some t"
    and l: "leaf s pgdir (path la) AND PTE_V = 0" and e: "e AND PTE_V = 0"
  shows "pt_ok inv free allocated (set_entry_at t (PTX la) e s) pgdir"
proof -
  let ?s = "(set_entry_at t (PTX la) e s)\<lparr>refs := refs s, pm := pm s\<rparr>"
  have p: "[PDX1 la, PDX0 la, PTX la] \<in> paths" using path_in(1) [of la] by (simp add: path_def)
  have eq: "?s = set_entry_at t (PTX la) e s" by (simp add: set_entry_at_def)
  note sl = set_leaf [OF ok t p, where e = e, folded path_def]
  have nl: "node ?s q pgdir = node s q pgdir" if "q \<in> paths" for q
    using node_leaf [OF that, of ?s pgdir] node_leaf [OF that, of s pgdir] sl(2) [OF that] l e unfolding eq by (auto split: if_splits)
  then have mp: "mappings ?s pgdir x = mappings s pgdir x" for x by (auto simp: mappings_def)
  have "pt_ok inv free allocated ?s pgdir"
  proof (rule pt_ok_set_leaf [OF ok t p refl])
    show "inv (pm s)" "x \<in> free (pm s) \<Longrightarrow> x + nbase < npage s" for x using pt_okD(1,3) [OF ok] by auto
    show "nbase \<le> PPN (PTE_ADDR e) \<and> PPN (PTE_ADDR e) < npage s \<and> (\<forall>q. length q \<le> 2 \<longrightarrow> node s q pgdir \<noteq> Some (entry_page e))"
      if "e AND PTE_V \<noteq> 0" using that e by simp
    show "f \<in> allocated (pm s)" if "length q \<le> 2" "node s q pgdir = Some f" for q f using pt_okD(6) [OF ok _ that(2)] that(1) by simp
    show "entry_page (leaf ?s pgdir q) \<in> allocated (pm s)" if q: "q \<in> paths" "leaf ?s pgdir q AND PTE_V \<noteq> 0" for q
    proof -
      have "node s q pgdir = Some (entry_page (leaf ?s pgdir q))" using node_leaf [OF q(1), of ?s pgdir] q(2) nl [OF q(1)] by simp
      then show ?thesis using pt_okD(6) [OF ok, of q] q(1) by (simp add: paths_def)
    qed
    show "int (card (mappings ?s pgdir x)) \<le> refs s x" for x using pt_okD(8) [OF ok, of x] by (simp add: mp)
  qed
  then show ?thesis by (simp only: eq)
qed

lemma swap_out_one_ok:
  assumes ok: "pt_ok inv free allocated (sp_vm s) pgdir" and q: "dlist (pra_list (sp_swap s)) PraHead (map Pra (p # ps))"
    and v: "pra_vaddr s p = v" "leaf (sp_vm s) pgdir (path v) AND PTE_V \<noteq> 0" "entry_page (leaf (sp_vm s) pgdir (path v)) = p"
    and ready: "swap_ready s" "slot_of v < max_swap_offset s" "length (page_mem s p) = 4096"
    and one: "refs (sp_vm s) p = 1" and rel: "free (pm (sp_vm s)) = {} \<or> (\<exists>g \<in> free (pm (sp_vm s)). p < g)"
  shows "\<exists>vm sw img. swap_out_one alloc release s pgdir False
      = Some (s\<lparr>sp_vm := vm, sp_swap := sw, swapdev := (swapdev s)\<lparr>dev_image := img\<rparr>\<rparr>)
    \<and> pt_ok inv free allocated vm pgdir \<and> dlist (pra_list sw) PraHead (map Pra ps)
    \<and> (\<forall>q \<in> paths. leaf vm pgdir q = (if q = path v then swap_slot v else leaf (sp_vm s) pgdir q))
    \<and> free (pm vm) = insert p (free (pm (sp_vm s))) \<and> img = put_bytes (dev_image (swapdev s)) (slot_of v * 4096) (page_mem s p)"
proof -
  let ?vm = "sp_vm s" and ?i = "PTX v" and ?e = "swap_slot v"
  obtain t where t: "node ?vm [PDX1 v, PDX0 v] pgdir = Some t"
    using v(2) by (cases "node ?vm [PDX1 v, PDX0 v] pgdir") (simp_all add: leaf_def path_def del: node.simps)
  have lt: "leaf ?vm pgdir (path v) = tab ?vm t ?i" by (rule leaf_path [OF t])
  from page_remove_ok [OF ok v(2) v(3) [symmetric] rel] one obtain vm0 where
    r: "page_remove alloc release ?vm pgdir v = Some vm0" "pt_ok inv free allocated vm0 pgdir"
    "\<forall>q \<in> paths. leaf vm0 pgdir q = (if q = path v then 0 else leaf ?vm pgdir q)" "free (pm vm0) = insert p (free (pm ?vm))" by auto
  have "pte2page ?vm (tab ?vm t ?i) = Some p" using kaddr_entry(2) [OF ok _ t, of ?i] v(2,3) lt by simp
  then obtain m where m: "release (pm ?vm) p 1 = Some m" "vm0 = set_entry_at t ?i 0 ((set_page_ref p 0 ?vm)\<lparr>pm := m\<rparr>)"
    using r(1) v(2) lt one by (auto simp: page_remove_def get_pte_lookup [OF ok] t page_remove_pte_def set_page_ref_def free_page_def
        Let_def simp del: node.simps elim!: bind_SomeE)
  let ?vm1 = "set_entry_at t ?i ?e vm0"
  have sl: "slot_of v < 2 ^ 24" using ready(1,2) by (simp add: swap_ready_def MAX_SWAP_OFFSET_LIMIT_def)
  note en = swap_slot_entry [OF sl]
  have p3: "[PDX1 v, PDX0 v, ?i] \<in> paths" using path_in(1) [of v] by (simp add: path_def)
  have t0: "node vm0 [PDX1 v, PDX0 v] pgdir = Some t"
  proof -
    have "node vm0 q pgdir = node (set_entry_at t ?i 0 ?vm) q pgdir" for q
      by (rule same_tab(1)) (simp add: m(2) set_entry_at_def set_page_ref_def)
    then show ?thesis using set_leaf(1) [OF ok t p3, of "[PDX1 v, PDX0 v]" 0] t by (simp del: node.simps)
  qed
  have l0: "leaf vm0 pgdir (path v) AND PTE_V = 0" using r(3) path_in(1) [of v] by simp
  have ok1: "pt_ok inv free allocated ?vm1 pgdir" by (rule pt_ok_set_invalid [OF r(2) t0 l0 en(2)])
  have lf: "leaf ?vm1 pgdir q = (if q = path v then ?e else leaf ?vm pgdir q)" if "q \<in> paths" for q
    using set_leaf(2) [OF r(2) t0 p3 that, of ?e] r(3) that by (simp add: path_def)
  have fr: "free (pm ?vm1) = insert p (free (pm ?vm))" using r(4) by (simp add: set_entry_at_def)
  have vi: "fifo_swap_out_victim (sp_swap s) False = Some (Some (Pra p), link_pra (\<lambda>d. list_del d (Pra p)) (sp_swap s))"
    using dlist_next_head [OF q] by (simp add: fifo_swap_out_victim_def Let_def bind_kassert)
  let ?sw = "link_pra (\<lambda>d. list_del d (Pra p)) (sp_swap s)"
  have dl: "dlist (pra_list ?sw) PraHead (map Pra ps)" using dlist_del [of "pra_list (sp_swap s)" PraHead "[]" "Pra p"] q by simp
  let ?s = "s\<lparr>sp_swap := ?sw\<rparr>"
  have rs: "swap_ready ?s" using ready(1) by (simp add: swap_ready_def)
  have w: "swapfs_write ?s ?e p = Some (0, ?s\<lparr>swapdev := (swapdev s)\<lparr>dev_image := put_bytes (dev_image (swapdev s)) (slot_of v * 4096) (page_mem s p)\<rparr>\<rparr>)"
    using swapfs_ok(1) [OF rs en(1) [symmetric], of p] ready by (simp add: slot_of_def)
  have "set_page_ref p 0 ((set_entry_at t ?i ?e ?vm)\<lparr>pm := m\<rparr>) = ?vm1"
    by (simp add: m(2) set_entry_at_def set_page_ref_def)
  moreover have "tab ?vm t ?i AND PTE_V \<noteq> 0" using v(2) lt by simp
  ultimately have "swap_out_one alloc release s pgdir False
      = Some (s\<lparr>sp_vm := ?vm1, sp_swap := ?sw, swapdev := (swapdev s)\<lparr>dev_image := put_bytes (dev_image (swapdev s)) (slot_of v * 4096) (page_mem s p)\<rparr>\<rparr>)"
    using v(1) w m(1) by (simp add: swap_out_one_def vi get_pte_present [OF ok t] bind_kassert free_page_def set_entry_at_def Let_def)
  then show ?thesis using ok1 dl lf fr by blast
qed

lemma do_pgfault_swapped:
  assumes mm: "mm_ok mm vs" and ok: "pt_ok inv free allocated (sp_vm s) pgdir"
    and w: "w \<in> set vs" "covers mm addr w" and v: "v = ROUNDDOWN addr PGSIZE" "leaf (sp_vm s) pgdir (path v) = swap_slot v"
    and ready: "swap_ready s" "slot_of v < max_swap_offset s" "\<And>g. g \<in> free (pm (sp_vm s)) \<Longrightarrow> length (page_mem s g) = 4096"
    and f: "free (pm (sp_vm s)) \<noteq> {}"
    and q: "dlist (pra_list (sp_swap s)) PraHead (map Pra ps)" "\<And>p. p \<in> set ps \<Longrightarrow> p \<notin> free (pm (sp_vm s))"
  shows "\<exists>mm' s' g. do_pgfault alloc release (Some mm) s pgdir addr = Some (0, Some mm', s') \<and> mm_ok mm' vs
    \<and> pt_ok inv free allocated (sp_vm s') pgdir \<and> g \<in> free (pm (sp_vm s)) \<and> free (pm (sp_vm s')) = free (pm (sp_vm s)) - {g}
    \<and> page_mem s' = (page_mem s)(g := get_bytes (dev_image (swapdev s)) (slot_of v * 4096) 4096)
    \<and> (\<forall>q \<in> paths. leaf (sp_vm s') pgdir q = (if q = path v then pte_create (g + nbase) (PTE_V OR area_perm (vm_flags (vmas mm w)))
          else leaf (sp_vm s) pgdir q))
    \<and> dlist (pra_list (sp_swap s')) PraHead (map Pra (ps @ [g])) \<and> pra_vaddr s' g = v"
proof -
  let ?vm = "sp_vm s" and ?al = "alloc_pages (swap_init_ok s) alloc" and ?i = "PTX v"
  from find_vma_ok [OF mm] w obtain x c where x: "find_vma mm addr = Some (x, mm\<lparr>mmap_cache := c\<rparr>)" "x \<in> set vs" "covers mm addr x" "x \<noteq> 0"
    "mm_ok (mm\<lparr>mmap_cache := c\<rparr>) vs" by blast
  have xw: "x = w" by (rule covers_unique [OF mm x(2,3) w])
  then have nf: "\<not> (x = 0 \<or> vm_start (vmas (mm\<lparr>mmap_cache := c\<rparr>) x) > addr)" using x by (auto simp: covers_def)
  have sl: "slot_of v < 2 ^ 24" and on: "swap_init_ok s" using ready(1,2) by (simp_all add: swap_ready_def MAX_SWAP_OFFSET_LIMIT_def)
  note en = swap_slot_entry [OF sl]
  obtain t where t: "node ?vm [PDX1 v, PDX0 v] pgdir = Some t"
    using v(2) en(3) by (cases "node ?vm [PDX1 v, PDX0 v] pgdir") (simp_all add: leaf_def path_def del: node.simps)
  have te: "tab ?vm t ?i = swap_slot v" using leaf_path [OF t] v(2) by simp
  have "\<exists>g m. alloc_page alloc ?vm = Some (Some g, ?vm\<lparr>pm := m\<rparr>) \<and> inv m \<and> g \<in> free (pm ?vm) \<and> free m = free (pm ?vm) - {g}
      \<and> allocated m = insert g (allocated (pm ?vm))"
    using alloc_page_cases [OF pt_okD(1) [OF ok]] f by metis
  then obtain g m where g: "alloc_page alloc ?vm = Some (Some g, ?vm\<lparr>pm := m\<rparr>)" "inv m" "g \<in> free (pm ?vm)" "free m = free (pm ?vm) - {g}"
      "allocated m = insert g (allocated (pm ?vm))" by blast
  let ?vm1 = "?vm\<lparr>pm := m\<rparr>"
  have same: "node ?vm1 q y = node ?vm q y" "leaf ?vm1 y q = leaf ?vm y q" for q y by (rule same_tab, simp)+
  have ok1: "pt_ok inv free allocated ?vm1 pgdir" by (rule pt_ok_alloc [OF ok g(2-5)])
  have t1: "node ?vm1 [PDX1 v, PDX0 v] pgdir = Some t" unfolding same by (rule t)
  let ?s1 = "s\<lparr>sp_vm := ?vm1, page_mem := (page_mem s)(g := get_bytes (dev_image (swapdev s)) (slot_of v * 4096) 4096)\<rparr>"
  have rd: "swapfs_read (s\<lparr>sp_vm := ?vm1\<rparr>) (swap_slot v) g = Some (0, ?s1)"
    using swapfs_ok(2) [of "s\<lparr>sp_vm := ?vm1\<rparr>" "slot_of v" "swap_slot v" g] ready(1,2) ready(3) [OF g(3)] en(1)
    by (simp add: swap_ready_def slot_of_def)
  have si: "swap_in alloc s pgdir v = Some (g, ?s1)"
    using rd te by (simp add: swap_in_def alloc_page_eq g(1) get_pte_present [OF ok1 t1])
  let ?perm = "area_perm (vm_flags (vmas mm w))"
  have pe: "unat (PTE_V OR ?perm) < 2 ^ 10" by (simp add: area_perm_def PTE_V_def PTE_U_def READ_WRITE_def PTE_R_def PTE_W_def)
  obtain vm2 where p2: "page_insert ?al release ?vm1 pgdir g v ?perm = Some (0, vm2)" "pt_ok inv free allocated vm2 pgdir"
    "\<forall>q \<in> paths. leaf vm2 pgdir q = (if q = path v then pte_create (g + nbase) (PTE_V OR ?perm) else leaf ?vm1 pgdir q)"
    "pm vm2 = pm ?vm1"
  proof -
    have "g + nbase < npage ?vm1" using pt_okD(3) [OF ok g(3)] by simp
    moreover have "node ?vm1 q pgdir \<noteq> Some g" if "length q \<le> 2" for q using free_not_node [OF ok g(3), of q] that by (simp add: same)
    moreover have "leaf ?vm1 pgdir (path v) AND PTE_V = 0" using v(2) en(2) by (simp add: same)
    moreover have "g \<in> allocated (pm ?vm1)" using g(5) by simp
    ultimately show thesis using page_insert_present [OF ok1, of g ?perm v t "swap_init_ok s"] pe t1 that by blast
  qed
  define s' where "s' = ?s1\<lparr>sp_vm := vm2, sp_swap := fifo_map_swappable (sp_swap s) (Pra g), pra_vaddr := (pra_vaddr s)(g := v)\<rparr>"
  have "do_pgfault alloc release (Some mm) s pgdir addr = Some (0, Some (mm\<lparr>mmap_cache := c\<rparr>), s')"
    using x(1) nf get_pte_present [OF ok t] te en(3) on si p2(1) xw
    by (simp add: do_pgfault_def v(1) [symmetric] Let_def swap_map_swappable_def s'_def)
  moreover have "g \<notin> set ps" using q(2) g(3) by blast
  then have "dlist (pra_list (sp_swap s')) PraHead (map Pra (ps @ [g]))"
    using dlist_add_before [of "pra_list (sp_swap s)" PraHead "map Pra ps" "[]" "Pra g"] q(1)
    by (auto simp: s'_def fifo_map_swappable_def)
  ultimately show ?thesis using x(5) p2(2-4) g(3,4) same
    by (intro exI [of _ "mm\<lparr>mmap_cache := c\<rparr>"] exI [of _ s'] exI [of _ g]) (simp add: s'_def)
qed

end

section \<open>On the first fit manager\<close>

text \<open>C35: On an instruction page fault the handler returns with nothing changed. A load or store page fault in a
  running kernel (\<open>check_mm_struct\<close> null), of a process whose areas and tables are well formed, at an address whose entry is zero or maps a page
  (not one that was swapped out) and with a swap disk of at most \<open>2 ^ 21\<close> pages, either maps a page or takes the kernel down.
  \<open>exception_handler\<close> returns only when an area of the process holds the address and the entry of its page is zero, and then it does
  return if three pages are free: the page and two tables. When it returns, the entry names a page that was free, with the permissions
  of the area, every other address keeps its entry, the areas and the tables keep their invariants and no page's contents change: the
  new page is not cleared. So a load or store outside every area, or one that the entry of a mapped page does not permit, ends in a
  panic of the kernel, with or without swapping, and not in the end of the process.\<close>

theorem page_fault_served:
  assumes mm: "mm_ok mm vs" and ok: "pt_ok pmm_inv free_pages_of allocated_pages (sp_vm s) pgdir"
    and e: "e = leaf (sp_vm s) pgdir (path (ROUNDDOWN addr PGSIZE))" "e = 0 \<or> e AND PTE_V \<noteq> 0"
    and run: "\<not> check_mm s" "max_swap_offset s \<le> 2 ^ 21"
    and cause: "cause = CAUSE_LOAD_PAGE_FAULT \<or> cause = CAUSE_STORE_PAGE_FAULT"
  shows "page_fault default_alloc_pages default_free_pages CAUSE_FETCH_PAGE_FAULT (Some mm) s pgdir addr = Some (Some mm, s)
    \<and> (page_fault default_alloc_pages default_free_pages cause (Some mm) s pgdir addr \<noteq> None
         \<longrightarrow> (\<exists>v \<in> set vs. covers mm addr v) \<and> e = 0)
    \<and> ((\<exists>v \<in> set vs. covers mm addr v) \<and> e = 0 \<and> 3 \<le> card (free_pages_of (pm (sp_vm s)))
         \<longrightarrow> page_fault default_alloc_pages default_free_pages cause (Some mm) s pgdir addr \<noteq> None)
    \<and> (\<forall>mo' s'. page_fault default_alloc_pages default_free_pages cause (Some mm) s pgdir addr = Some (mo', s') \<longrightarrow>
         (\<exists>mm'. mo' = Some mm' \<and> mm_ok mm' vs) \<and> pt_ok pmm_inv free_pages_of allocated_pages (sp_vm s') pgdir \<and> page_mem s' = page_mem s
         \<and> (\<exists>v \<in> set vs. \<exists>g \<in> free_pages_of (pm (sp_vm s)). covers mm addr v \<and>
              (\<forall>q \<in> paths. leaf (sp_vm s') pgdir q = (if q = path (ROUNDDOWN addr PGSIZE)
                 then pte_create (g + nbase) (PTE_V OR area_perm (vm_flags (vmas mm v))) else leaf (sp_vm s) pgdir q))))"
proof -
  let ?pf = "\<lambda>c. page_fault default_alloc_pages default_free_pages c (Some mm) s pgdir addr"
    and ?f = "do_pgfault default_alloc_pages default_free_pages (Some mm) s pgdir addr"
    and ?few = "card (free_pages_of (pm (sp_vm s))) \<le> 2"
  have fetch: "?pf CAUSE_FETCH_PAGE_FAULT = Some (Some mm, s)" by (simp add: page_fault_def)
  have pf: "?pf cause = (case ?f of Some (r, mo, s') \<Rightarrow> if r = 0 then Some (mo, s') else None | None \<Rightarrow> None)"
    using cause by (auto simp: page_fault_def bind_kassert split: option.splits)
  show ?thesis
  proof (cases "e = 0")
    case True
    have z: "leaf (sp_vm s) pgdir (path (ROUNDDOWN addr PGSIZE)) = 0" using True e(1) by simp
    from fs.do_pgfault_fresh [OF mm ok z run(1)] show ?thesis
    proof (elim disjE conjE exE)
      assume "?f = None" ?few
      then show ?thesis using fetch pf by simp
    next
      fix r mm' s'
      assume "?f = Some (r, Some mm', s')" "r = - E_INVAL" "\<forall>v \<in> set vs. \<not> covers mm addr v"
      then show ?thesis using fetch pf by (simp add: E_INVAL_def)
    next
      fix r mm' s'
      assume "?f = Some (r, Some mm', s')" "r = - E_NO_MEM" ?few
      then show ?thesis using fetch pf by (simp add: E_NO_MEM_def)
    next
      fix r mm' s'
      assume f: "?f = Some (r, Some mm', s')" "mm_ok mm' vs" "pt_ok pmm_inv free_pages_of allocated_pages (sp_vm s') pgdir"
        "page_mem s' = page_mem s" "r = 0"
        and g: "\<exists>v \<in> set vs. \<exists>g \<in> free_pages_of (pm (sp_vm s)). covers mm addr v \<and>
            (\<forall>q \<in> paths. leaf (sp_vm s') pgdir q = (if q = path (ROUNDDOWN addr PGSIZE)
               then pte_create (g + nbase) (PTE_V OR area_perm (vm_flags (vmas mm v))) else leaf (sp_vm s) pgdir q))"
      have "?pf cause = Some (Some mm', s')" using f(1,5) pf by simp
      moreover have "\<exists>v \<in> set vs. covers mm addr v" using g by blast
      ultimately show ?thesis using f(2-4) g True fetch by simp
    qed
  next
    case False
    then have m: "leaf (sp_vm s) pgdir (path (ROUNDDOWN addr PGSIZE)) AND PTE_V \<noteq> 0" using e by simp
    have "?pf cause = None"
    proof (cases "\<exists>v \<in> set vs. covers mm addr v")
      case True
      then obtain v where "v \<in> set vs" "covers mm addr v" by blast
      from fs.do_pgfault_mapped [OF mm ok this m run(2)] show ?thesis by (simp add: pf E_NO_MEM_def)
    next
      case c: False
      from find_vma_ok [OF mm, of addr] obtain r c where "find_vma mm addr = Some (r, mm\<lparr>mmap_cache := c\<rparr>)" "r = 0"
        using c by metis
      then show ?thesis by (simp add: pf do_pgfault_def E_INVAL_def)
    qed
    then show ?thesis using False fetch by simp
  qed
qed

text \<open>C36: Swapping loses nothing. In a process with well-formed areas and tables, the page \<open>p\<close> that has been swappable longest is mapped once, at the page address \<open>v\<close> recorded for it,
  which an area of the process holds; the other queued pages are not free, swapping is on with a slot for \<open>v\<close> on the disk, and, as
  \<open>default_free_pages\<close> needs, no page is free or some page above \<open>p\<close> is. Then \<open>swap_out\<close> writes the page to the slot of its address,
  whose number is the page number of the address plus one, and nothing else to the disk; it takes the page from the queue, frees it, and
  leaves in its entry the slot number, shifted by eight and not valid. The fault at that address then brings it back: the entry names a page that
  was free, with the permissions of the area, and this page holds, byte for byte, what the page held that was swapped out. No other
  page's contents and no other entry change, the new page is the last of the queue and the tables keep their invariant.\<close>

theorem swap_round_trip:
  assumes mm: "mm_ok mm vs" and ok: "pt_ok pmm_inv free_pages_of allocated_pages (sp_vm s) pgdir"
    and w: "w \<in> set vs" "covers mm addr w" and v: "v = ROUNDDOWN addr PGSIZE" "pra_vaddr s p = v"
    and e: "e = leaf (sp_vm s) pgdir (path v)" "e AND PTE_V \<noteq> 0" "entry_page e = p" "refs (sp_vm s) p = 1"
    and q: "dlist (pra_list (sp_swap s)) PraHead (map Pra (p # ps))" "\<And>x. x \<in> set ps \<Longrightarrow> x \<notin> free_pages_of (pm (sp_vm s))"
    and ready: "swap_ready s" "slot_of v < max_swap_offset s" "\<And>g. length (page_mem s g) = 4096"
    and rel: "free_pages_of (pm (sp_vm s)) = {} \<or> (\<exists>g \<in> free_pages_of (pm (sp_vm s)). p < g)"
  shows "\<exists>s1 mm' s2 g. swap_out default_alloc_pages default_free_pages s pgdir False 1 = Some s1
    \<and> leaf (sp_vm s1) pgdir (path v) = of_nat (slot_of v * 256) \<and> leaf (sp_vm s1) pgdir (path v) AND PTE_V = 0
    \<and> swapdev s1 = (swapdev s)\<lparr>dev_image := put_bytes (dev_image (swapdev s)) (slot_of v * 4096) (page_mem s p)\<rparr>
    \<and> free_pages_of (pm (sp_vm s1)) = insert p (free_pages_of (pm (sp_vm s))) \<and> dlist (pra_list (sp_swap s1)) PraHead (map Pra ps)
    \<and> do_pgfault default_alloc_pages default_free_pages (Some mm) s1 pgdir addr = Some (0, Some mm', s2)
    \<and> mm_ok mm' vs \<and> pt_ok pmm_inv free_pages_of allocated_pages (sp_vm s2) pgdir
    \<and> g \<in> free_pages_of (pm (sp_vm s1)) \<and> free_pages_of (pm (sp_vm s2)) = free_pages_of (pm (sp_vm s1)) - {g}
    \<and> page_mem s2 = (page_mem s)(g := page_mem s p) \<and> dlist (pra_list (sp_swap s2)) PraHead (map Pra (ps @ [g]))
    \<and> (\<forall>q \<in> paths. leaf (sp_vm s2) pgdir q = (if q = path v then pte_create (g + nbase) (PTE_V OR area_perm (vm_flags (vmas mm w)))
          else leaf (sp_vm s) pgdir q))"
proof -
  obtain vm sw img where o: "swap_out_one default_alloc_pages default_free_pages s pgdir False
      = Some (s\<lparr>sp_vm := vm, sp_swap := sw, swapdev := (swapdev s)\<lparr>dev_image := img\<rparr>\<rparr>)"
    "pt_ok pmm_inv free_pages_of allocated_pages vm pgdir" "dlist (pra_list sw) PraHead (map Pra ps)"
    "\<forall>q \<in> paths. leaf vm pgdir q = (if q = path v then swap_slot v else leaf (sp_vm s) pgdir q)"
    "free_pages_of (pm vm) = insert p (free_pages_of (pm (sp_vm s)))"
    "img = put_bytes (dev_image (swapdev s)) (slot_of v * 4096) (page_mem s p)"
    using fs.swap_out_one_ok [OF ok q(1) v(2) _ _ ready e(4) rel] e(1-3) by blast
  let ?s1 = "s\<lparr>sp_vm := vm, sp_swap := sw, swapdev := (swapdev s)\<lparr>dev_image := img\<rparr>\<rparr>"
  have sl: "slot_of v < 2 ^ 24" using ready(1,2) by (simp add: swap_ready_def MAX_SWAP_OFFSET_LIMIT_def)
  have l1: "leaf (sp_vm ?s1) pgdir (path v) = swap_slot v" using o(4) path_in(1) [of v] by simp
  have ok1: "pt_ok pmm_inv free_pages_of allocated_pages (sp_vm ?s1) pgdir" using o(2) by simp
  have r1: "swap_ready ?s1" "slot_of v < max_swap_offset ?s1" "length (page_mem ?s1 g) = 4096" for g
    using ready by (simp_all add: swap_ready_def)
  have "p \<notin> set ps" using dlist_distinct [OF q(1)] by (auto simp: distinct_map)
  then have q1: "dlist (pra_list (sp_swap ?s1)) PraHead (map Pra ps)" "\<And>x. x \<in> set ps \<Longrightarrow> x \<notin> free_pages_of (pm (sp_vm ?s1))"
    using o(3,5) q(2) by auto
  have f1: "free_pages_of (pm (sp_vm ?s1)) \<noteq> {}" using o(5) by simp
  obtain mm' s2 g where b: "do_pgfault default_alloc_pages default_free_pages (Some mm) ?s1 pgdir addr = Some (0, Some mm', s2)" "mm_ok mm' vs"
    "pt_ok pmm_inv free_pages_of allocated_pages (sp_vm s2) pgdir" "g \<in> free_pages_of (pm (sp_vm ?s1))"
    "free_pages_of (pm (sp_vm s2)) = free_pages_of (pm (sp_vm ?s1)) - {g}"
    "page_mem s2 = (page_mem ?s1)(g := get_bytes (dev_image (swapdev ?s1)) (slot_of v * 4096) 4096)"
    "\<forall>q \<in> paths. leaf (sp_vm s2) pgdir q = (if q = path v then pte_create (g + nbase) (PTE_V OR area_perm (vm_flags (vmas mm w)))
          else leaf (sp_vm ?s1) pgdir q)"
    "dlist (pra_list (sp_swap s2)) PraHead (map Pra (ps @ [g]))"
    using fs.do_pgfault_swapped [OF mm ok1 w v(1) l1 r1 f1 q1] by blast
  have "page_mem s2 = (page_mem s)(g := page_mem s p)" using b(6) o(6) ready(3) [of p] by simp
  moreover have "\<forall>q \<in> paths. leaf (sp_vm s2) pgdir q = (if q = path v then pte_create (g + nbase) (PTE_V OR area_perm (vm_flags (vmas mm w)))
          else leaf (sp_vm s) pgdir q)" using b(7) o(4) by simp
  moreover have "swap_out default_alloc_pages default_free_pages s pgdir False 1 = Some ?s1" using o(1) by simp
  moreover have "swapdev ?s1 = (swapdev s)\<lparr>dev_image := put_bytes (dev_image (swapdev s)) (slot_of v * 4096) (page_mem s p)\<rparr>" using o(6) by simp
  moreover have "free_pages_of (pm (sp_vm ?s1)) = insert p (free_pages_of (pm (sp_vm s)))" using o(5) by simp
  moreover have "leaf (sp_vm ?s1) pgdir (path v) = of_nat (slot_of v * 256)" "leaf (sp_vm ?s1) pgdir (path v) AND PTE_V = 0"
    using l1 swap_slot_entry(2,4) [OF sl] by simp_all
  ultimately show ?thesis using q1(1) b(1-5,8) by metis
qed

section \<open>One process\<close>

definition fault_mm :: mm where
  "fault_mm = \<lparr>mmap_list = \<lparr>nxt = (\<lambda>_. Mmap)(Mmap := Vma 10), prv = (\<lambda>_. Mmap)(Mmap := Vma 10)\<rparr>,
     mmap_cache = 0, map_count = 1, mm_count = 1,
     vmas = (\<lambda>_. \<lparr>vm_start = 0, vm_end = 0, vm_flags = 0\<rparr>)(10 := \<lparr>vm_start = 0, vm_end = 0x2000, vm_flags = 3\<rparr>)\<rparr>"

lemma fault_mm_ok: "mm_ok fault_mm [10]" "covers fault_mm a 10 \<longleftrightarrow> a < 0x2000"
  by (simp_all add: mm_ok_def fault_mm_def dlist_def before_def covers_def)

definition fault_space :: "'s vm \<Rightarrow> 's space" where
  "fault_space vm = \<lparr>sp_vm = vm, page_mem = (\<lambda>g. replicate 4096 (of_nat g)), sp_swap = fifo_map_swappable (fifo_init_mm demo_swap) (Pra 13),
     pra_vaddr = \<lambda>_. 0, swapdev = \<lparr>dev_size = 64, dev_image = \<lambda>_. 0, d_blocks = 8, d_blocksize = 4096\<rparr>,
     max_swap_offset = 8, swap_init_ok = True, check_mm = False\<rparr>"

theorem page_fault_served_witness:
  "\<exists>(s :: pmm space) mo' s'. page_fault default_alloc_pages default_free_pages CAUSE_LOAD_PAGE_FAULT (Some fault_mm) s 10 0x1008 = Some (mo', s')
    \<and> leaf (sp_vm s) 10 (path 0x1000) = 0 \<and> leaf (sp_vm s') 10 (path 0x1000) AND PTE_V \<noteq> 0
    \<and> page_fault default_alloc_pages default_free_pages CAUSE_LOAD_PAGE_FAULT (Some fault_mm) s 10 0x9000 = None"
proof (rule demo_space)
  fix vm :: "pmm vm"
  assume vm: "pt_ok pmm_inv free_pages_of allocated_pages vm 10" "\<And>p. leaf vm 10 p = 0" "free_pages_of (pm vm) = {12..<26}"
  let ?s = "fault_space vm"
  have a: "pt_ok pmm_inv free_pages_of allocated_pages (sp_vm ?s) 10" "\<not> check_mm ?s" "max_swap_offset ?s \<le> 2 ^ 21"
    "3 \<le> card (free_pages_of (pm (sp_vm ?s)))" "\<And>p. leaf (sp_vm ?s) 10 p = 0"
    using vm by (simp_all add: fault_space_def)
  have r: "ROUNDDOWN 0x1008 PGSIZE = 0x1000" by (simp add: ROUNDDOWN_def PGSIZE_def)
  note t = page_fault_served [OF fault_mm_ok(1) a(1) refl disjI1 a(2,3) disjI1, OF a(5) refl]
  from t [of "0x1008"] have "page_fault default_alloc_pages default_free_pages CAUSE_LOAD_PAGE_FAULT (Some fault_mm) ?s 10 0x1008 \<noteq> None"
    using a(4) by (simp add: fault_mm_ok a(5) del: not_None_eq)
  then obtain mo' s' where s': "page_fault default_alloc_pages default_free_pages CAUSE_LOAD_PAGE_FAULT (Some fault_mm) ?s 10 0x1008 = Some (mo', s')" by auto
  with t [of "0x1008", unfolded r] obtain v g where "g \<in> free_pages_of (pm (sp_vm ?s))"
    "leaf (sp_vm s') 10 (path 0x1000) = pte_create (g + nbase) (PTE_V OR area_perm (vm_flags (vmas fault_mm v)))" using path_in(1) by metis
  moreover from this(1) have "g + nbase < 2 ^ 44" by (simp add: fault_space_def vm(3) nbase_def)
  moreover have "unat (PTE_V OR area_perm f) < 2 ^ 10" for f by (simp add: area_perm_def PTE_V_def PTE_U_def READ_WRITE_def PTE_R_def PTE_W_def)
  ultimately have "leaf (sp_vm s') 10 (path 0x1000) AND PTE_V \<noteq> 0" using pte_fields(2) by metis
  moreover have "page_fault default_alloc_pages default_free_pages CAUSE_LOAD_PAGE_FAULT (Some fault_mm) ?s 10 0x9000 = None"
    using t [of "0x9000"] fault_mm_ok(2) [of "0x9000"] by (simp del: not_None_eq)
  ultimately show ?thesis using s' a(5) by blast
qed

theorem swap_round_trip_witness:
  "\<exists>(s :: pmm space) s1 mm' s2 g. swap_out default_alloc_pages default_free_pages s 10 False 1 = Some s1
    \<and> entry_page (leaf (sp_vm s) 10 (path 0)) = 13 \<and> leaf (sp_vm s1) 10 (path 0) AND PTE_V = 0
    \<and> do_pgfault default_alloc_pages default_free_pages (Some fault_mm) s1 10 0x10 = Some (0, Some mm', s2)
    \<and> leaf (sp_vm s1) 10 (path 0) = 0x100 \<and> page_mem s2 g = replicate 4096 13 \<and> leaf (sp_vm s2) 10 (path 0) = pte_create (g + nbase) 0x17"
proof (rule demo_mapping)
  fix vm :: "pmm vm"
  assume vm: "pt_ok pmm_inv free_pages_of allocated_pages vm 10" "leaf vm 10 (path 0) AND PTE_V \<noteq> 0"
    "entry_page (leaf vm 10 (path 0)) = 13" "refs vm 13 = 1" "free_pages_of (pm vm) = {14..<26}"
  let ?s = "fault_space vm"
  have q: "dlist (pra_list (sp_swap ?s)) PraHead (map Pra [13])"
    using dlist_add_before [of "list_init (pra_list demo_swap) PraHead" PraHead "[]" "[]" "Pra 13"] dlist_init [of "pra_list demo_swap" PraHead]
    by (simp add: fault_space_def fifo_map_swappable_def fifo_init_mm_def del: dlist_Nil)
  have r: "ROUNDDOWN 0x10 PGSIZE = 0" by (simp add: ROUNDDOWN_def PGSIZE_def)
  have sr: "swap_ready ?s" "slot_of 0 < max_swap_offset ?s" "length (page_mem ?s g) = 4096" for g
    by (simp_all add: swap_ready_def fault_space_def PAGE_NSECT_def SECTSIZE_def MAX_SWAP_OFFSET_LIMIT_def slot_of_def)
  have sv: "sp_vm ?s = vm" "pra_vaddr ?s 13 = 0" "page_mem ?s 13 = replicate 4096 13" by (simp_all add: fault_space_def)
  have rel: "free_pages_of (pm vm) = {} \<or> (\<exists>g \<in> free_pages_of (pm vm). 13 < g)" unfolding vm(5) by (intro disjI2 bexI [of _ 20]) auto
  have c: "covers fault_mm 0x10 10" "10 \<in> set [10 :: nat]" using fault_mm_ok(2) [of "0x10"] by simp_all
  have none: "x \<in> set [] \<Longrightarrow> x \<notin> free_pages_of (pm vm)" for x :: nat by simp
  have z: "slot_of 0 = 1" by (simp add: slot_of_def)
  note t = swap_round_trip [of fault_mm "[10]" ?s 10 10 "0x10" 0 13 "leaf vm 10 (path 0)" "[]", unfolded sv, OF fault_mm_ok(1) vm(1) c(2,1)
      r [symmetric] refl refl vm(2-4) q none sr rel]
  show ?thesis
  proof (rule t [THEN exE], assumption, elim exE conjE)
    fix s1 mm' s2 g
    assume a: "swap_out default_alloc_pages default_free_pages ?s 10 False 1 = Some s1" "leaf (sp_vm s1) 10 (path 0) AND PTE_V = 0"
      "do_pgfault default_alloc_pages default_free_pages (Some fault_mm) s1 10 0x10 = Some (0, Some mm', s2)"
      "leaf (sp_vm s1) 10 (path 0) = of_nat (slot_of 0 * 256)" "page_mem s2 = (page_mem ?s)(g := replicate 4096 13)"
      "\<forall>q \<in> paths. leaf (sp_vm s2) 10 q = (if q = path 0 then pte_create (g + nbase) (PTE_V OR area_perm (vm_flags (vmas fault_mm 10)))
          else leaf vm 10 q)"
    have "PTE_V OR area_perm (vm_flags (vmas fault_mm 10)) = 0x17"
      by (simp add: fault_mm_def area_perm_def PTE_V_def PTE_U_def READ_WRITE_def PTE_R_def PTE_W_def VM_WRITE_def)
    then have "leaf (sp_vm s2) 10 (path 0) = pte_create (g + nbase) 0x17" using a(6) path_in(1) [of 0] by simp
    moreover have "leaf (sp_vm s1) 10 (path 0) = 0x100" using a(4) by (simp add: z)
    moreover have "page_mem s2 g = replicate 4096 13" by (simp only: a(5) fun_upd_same)
    moreover have "entry_page (leaf (sp_vm ?s) 10 (path 0)) = 13" by (simp only: sv(1) vm(3))
    ultimately show ?thesis using a(1-3) by blast
  qed
qed

end
