(* ===== verification/PairSpaces.thy ===== *)
theory PairSpaces
  imports PageFault
begin

text \<open>
  Two address spaces in one memory, as fork has them. The pair is well formed when both are, no page serves both as tables, and the
  mappings of both together are counted. The lemmas show what making tables and writing entries in one of them leaves of the
  other.
\<close>

section \<open>The pair\<close>

definition tables :: "'s vm \<Rightarrow> nat \<Rightarrow> nat set" where
  "tables s r = {f. \<exists>p. length p \<le> 2 \<and> node s p r = Some f}"

definition pair_ok :: "('s \<Rightarrow> bool) \<Rightarrow> ('s \<Rightarrow> nat set) \<Rightarrow> ('s \<Rightarrow> nat set) \<Rightarrow> 's vm \<Rightarrow> nat \<Rightarrow> nat \<Rightarrow> bool" where
  "pair_ok good free allocated s a b \<longleftrightarrow> pt_ok good free allocated s a \<and> pt_ok good free allocated s b
     \<and> tables s a \<inter> tables s b = {}
     \<and> (\<forall>q \<in> paths. \<forall>f. node s q a = Some f \<longrightarrow> f \<notin> tables s b) \<and> (\<forall>q \<in> paths. \<forall>f. node s q b = Some f \<longrightarrow> f \<notin> tables s a)
     \<and> (\<forall>x. int (card (mappings s a x) + card (mappings s b x)) \<le> refs s x)"

lemma pair_okD:
  assumes "pair_ok good free allocated s a b"
  shows "pt_ok good free allocated s a" "pt_ok good free allocated s b" "tables s a \<inter> tables s b = {}"
    "q \<in> paths \<Longrightarrow> node s q a = Some f \<Longrightarrow> f \<notin> tables s b" "q \<in> paths \<Longrightarrow> node s q b = Some f \<Longrightarrow> f \<notin> tables s a"
    "int (card (mappings s a x) + card (mappings s b x)) \<le> refs s x"
  using assms unfolding pair_ok_def by blast+

lemma pair_ok_sym: "pair_ok good free allocated s a b \<Longrightarrow> pair_ok good free allocated s b a"
  unfolding pair_ok_def by (auto simp: add.commute)

lemma deep_path: "length q = 3 \<Longrightarrow> node s q r = Some f \<Longrightarrow> q \<in> paths"
proof -
  assume q: "length q = 3" "node s q r = Some f"
  then obtain i j k where "q = [i, j, k]" by (auto simp: numeral_3_eq_3 length_Suc_conv)
  then show ?thesis using q(2) by (auto simp: paths_def child_def split: option.splits if_splits)
qed

text \<open>An address space sees only its own tables.\<close>

lemma same_tables:
  assumes t: "\<forall>f \<in> tables s a. tab s' f = tab s f"
  shows "length q \<le> 3 \<Longrightarrow> node s' q a = node s q a" "q \<in> paths \<Longrightarrow> leaf s' a q = leaf s a q" "tables s' a = tables s a"
    "mappings s' a x = mappings s a x"
proof -
  show n: "node s' q a = node s q a" if "length q \<le> 3" for q
  proof (rule node_cong)
    fix w j f assume w: "q = w @ j # drop (Suc (length w)) q" "node s w a = Some f"
    have "length w + 1 \<le> length q" using arg_cong [OF w(1), of length] by simp
    then have "length w \<le> 2" using that by simp
    then have "f \<in> tables s a" using w(2) unfolding tables_def by blast
    then show "child s' f j = child s f j" using t by (simp add: child_def)
  qed
  show "leaf s' a q = leaf s a q" if "q \<in> paths" for q
  proof -
    have l: "length (butlast q) = 2" using paths_split(1) [OF that] by simp
    then have b: "node s' (butlast q) a = node s (butlast q) a" by (intro n) simp
    have "tab s' f = tab s f" if "node s (butlast q) a = Some f" for f
      using t that l unfolding tables_def by (metis (mono_tags) le_refl mem_Collect_eq)
    then show ?thesis using b by (simp add: leaf_def split: option.splits)
  qed
  show "tables s' a = tables s a" using n by (auto simp: tables_def)
  show "mappings s' a x = mappings s a x" using n by (auto simp: mappings_def paths_def)
qed

text \<open>A change of one address space leaves the other one alone.\<close>

lemma pair_frame:
  assumes ok: "pair_ok good free allocated s a b" and b: "pt_ok good free allocated s' b"
    and t: "\<forall>f \<in> tables s a. tab s' f = tab s f" and n: "npage s' = npage s" and al: "allocated (pm s) \<subseteq> allocated (pm s')"
    and new: "tables s' b \<subseteq> tables s b \<union> free (pm s)" and disj: "free (pm s) \<inter> allocated (pm s) = {}"
    and mp: "\<And>q f. q \<in> paths \<Longrightarrow> node s' q b = Some f \<Longrightarrow> f \<notin> tables s a"
    and c: "\<And>x. int (card (mappings s a x) + card (mappings s' b x)) \<le> refs s' x"
  shows "pair_ok good free allocated s' a b"
proof -
  note st = same_tables [OF t]
  note oka = pair_okD(1) [OF ok]
  have na: "f \<in> allocated (pm s)" if "length q \<le> 3" "node s q a = Some f" for q f by (rule pt_okD(6) [OF oka that])
  have a: "pt_ok good free allocated s' a"
    unfolding pt_ok_def
  proof (intro conjI allI impI; (elim conjE)?)
    show "good (pm s')" "npage s' \<le> 2 ^ 44" "\<forall>p \<in> free (pm s'). p + nbase < npage s'" using pt_okD(1,2,3) [OF b] by auto
    show "p = q" if "length p \<le> 2" "length q \<le> 2" "node s' p a = Some f" "node s' q a = Some f" for p q f
      using pt_okD(4) [OF oka that(1,2)] that st(1) by simp
    show "nbase \<le> PPN (PTE_ADDR (tab s' f i))" "PPN (PTE_ADDR (tab s' f i)) < npage s'"
      if "length p \<le> 2" "node s' p a = Some f" "i < 512" "tab s' f i AND PTE_V \<noteq> 0" for p f i
    proof -
      have f: "node s p a = Some f" using st(1) [of p] that by simp
      then have "tab s' f = tab s f" using t that(1) unfolding tables_def by blast
      then show "nbase \<le> PPN (PTE_ADDR (tab s' f i))" "PPN (PTE_ADDR (tab s' f i)) < npage s'"
        using pt_okD(5) [OF oka that(1) f that(3)] that(4) n by simp_all
    qed
    show "f \<in> allocated (pm s')" if "length p \<le> 3" "node s' p a = Some f" for p f using na [of p f] st(1) [of p] that al by auto
    show "node s' q a \<noteq> Some f" if "length p \<le> 2" "length q = 3" "node s' p a = Some f" for p q f
      using pt_okD(7) [OF oka that(1,2)] that st(1) by simp
    show "int (card (mappings s' a page)) \<le> refs s' page" for page using c [of page] by (simp add: st(4))
  qed
  have "tables s a \<inter> free (pm s) = {}" 
  proof -
    have "f \<in> allocated (pm s)" if "f \<in> tables s a" for f
    proof -
      from that obtain p where "length p \<le> 2" "node s p a = Some f" by (auto simp: tables_def)
      then show ?thesis using na [of p f] by simp
    qed
    then show ?thesis using disj by blast
  qed
  then have "tables s' a \<inter> tables s' b = {}" using new pair_okD(3) [OF ok] unfolding st(3) by blast
  moreover have "f \<notin> tables s' b" if "q \<in> paths" "node s' q a = Some f" for q f
  proof -
    have q: "length q \<le> 3" "node s q a = Some f" using that st(1) [of q] by (auto simp: paths_def)
    then show ?thesis using pair_okD(4) [OF ok that(1)] na [OF q] new disj by blast
  qed
  ultimately show ?thesis unfolding pair_ok_def st(3,4) using a b mp c by blast
qed

section \<open>Working on one of the two\<close>

context page_source
begin

text \<open>Making tables in one address space writes to its own tables and to free pages only.\<close>

lemma new_table_frame:
  assumes ok: "pt_ok inv free allocated s r" and nt: "new_table alloc s t i True = Some (b, s')"
    and f: "f \<notin> free (pm s)" "f \<noteq> t"
  shows "tab s' f = tab s f"
proof (cases "tab s t i AND PTE_V \<noteq> 0")
  case True
  then show ?thesis using nt by (simp add: new_table_def)
next
  case False
  from alloc_page_cases [OF pt_okD(1) [OF ok]] show ?thesis
  proof cases
    case 1
    then show ?thesis using nt False by (simp add: new_table_def)
  next
    case (2 g m)
    have "g + nbase < npage s" by (rule pt_okD(3) [OF ok 2(3)])
    then have "g + nbase < 2 ^ 44" using pt_okD(2) [OF ok] by linarith
    then have "KADDR (s\<lparr>pm := m, refs := (refs s)(g := 1)\<rparr>) (page2pa g) = Some g"
      using ppn_page [of g] \<open>g + nbase < npage s\<close> by (simp add: KADDR_def)
    then show ?thesis using nt False 2(1,3) f by (auto simp: new_table_def Let_def set_page_ref_def set_entry_at_def split: if_splits)
  qed
qed

lemma get_pte_frame:
  assumes ok: "pt_ok inv free allocated s r" and g: "get_pte alloc s r la True = Some (p, s')"
    and f: "f \<notin> free (pm s)" "f \<notin> tables s r"
  shows "tab s' f = tab s f"
proof -
  have "node s [] r = Some r" by simp
  then have "r \<in> tables s r" unfolding tables_def by (metis (mono_tags) list.size(3) mem_Collect_eq zero_le)
  then have nr: "f \<noteq> r" using f(2) by blast
  from new_table_ok [OF ok, of "[]" r "PDX1 la"] obtain b s1 where
    one: "new_table alloc s r (PDX1 la) True = Some (b, s1)" "pt_ok inv free allocated s1 r" "grows free allocated s s1 r"
    and b: "if b then \<exists>c. node s1 ([] @ [PDX1 la]) r = Some c \<and> KADDR s1 (PTE_ADDR (tab s1 r (PDX1 la))) = Some c else s1 = s"
    by fastforce
  note f1 = new_table_frame [OF ok one(1) f(1) nr]
  show ?thesis
  proof (cases b)
    case False
    then show ?thesis using f1 g one(1) by (simp add: get_pte_def)
  next
    case True
    then obtain d where d: "node s1 [PDX1 la] r = Some d" "KADDR s1 (PTE_ADDR (tab s1 r (PDX1 la))) = Some d"
      using b unfolding append_Nil by auto
    then obtain b2 s2 where two: "new_table alloc s1 d (PDX0 la) True = Some (b2, s2)" "s' = s2"
      using g one(1) True by (auto simp: get_pte_def elim!: bind_SomeE split: if_splits prod.splits)
    have "node s [PDX1 la] r = Some d \<or> d \<in> free (pm s)" using one(3) d(1) unfolding grows_def
      by (metis One_nat_def Suc_1 le_SucI length_Cons list.size(3) order_refl)
    moreover have "length [PDX1 la] \<le> 2" by simp
    ultimately have "d \<in> tables s r \<or> d \<in> free (pm s)" unfolding tables_def by blast
    then have "f \<noteq> d" using f by blast
    moreover have "f \<notin> free (pm s1)" using one(3) f(1) by (auto simp: grows_def)
    ultimately show ?thesis using new_table_frame [OF one(2) two(1)] f1 two(2) by simp
  qed
qed

lemma pair_get_pte:
  assumes ok: "pair_ok inv free allocated s a b" and g: "get_pte alloc s b la True = Some (p, s')"
  shows "pair_ok inv free allocated s' a b" "grows free allocated s s' b" "pt_ok inv free allocated s' b"
    "case p of None \<Rightarrow> True | Some (t, i) \<Rightarrow> i = PTX la \<and> node s' [PDX1 la, PDX0 la] b = Some t"
    "\<forall>f \<in> tables s a. tab s' f = tab s f" "tables s' b \<subseteq> tables s b \<union> free (pm s)"
proof -
  note okb = pair_okD(2) [OF ok]
  show gr: "grows free allocated s s' b" and okb': "pt_ok inv free allocated s' b"
    and "case p of None \<Rightarrow> True | Some (t, i) \<Rightarrow> i = PTX la \<and> node s' [PDX1 la, PDX0 la] b = Some t"
    using get_pte_create [OF okb, of la] g by auto
  have nfree: "f \<notin> free (pm s)" if "f \<in> tables s a" for f
  proof -
    from that obtain q where "length q \<le> 2" "node s q a = Some f" by (auto simp: tables_def)
    then show ?thesis using free_not_node [OF pair_okD(1) [OF ok], of f q] by auto
  qed
  show fr: "\<forall>f \<in> tables s a. tab s' f = tab s f"
  proof
    fix f assume f: "f \<in> tables s a"
    then have "f \<notin> tables s b" using pair_okD(3) [OF ok] by blast
    then show "tab s' f = tab s f" by (rule get_pte_frame [OF okb g nfree [OF f]])
  qed
  show tb: "tables s' b \<subseteq> tables s b \<union> free (pm s)" using gr unfolding tables_def grows_def by blast
  have same: "node s' q b = node s q b" if "q \<in> paths" for q using gr that by (simp add: grows_def)
  then have mb: "mappings s' b x = mappings s b x" for x by (auto simp: mappings_def)
  show "pair_ok inv free allocated s' a b"
  proof (rule pair_frame [OF ok okb' fr _ _ tb free_allocated [OF pt_okD(1) [OF okb]]])
    show "npage s' = npage s" "allocated (pm s) \<subseteq> allocated (pm s')" using gr by (simp_all add: grows_def)
    show "f \<notin> tables s a" if "q \<in> paths" "node s' q b = Some f" for q f using pair_okD(5) [OF ok that(1)] that same by simp
    show "int (card (mappings s a x) + card (mappings s' b x)) \<le> refs s' x" for x
    proof (cases "x \<in> free (pm s)")
      case True
      then have "mappings s r x = {}" if "pt_ok inv free allocated s r" for r
        using free_not_node [OF that True] by (auto simp: mappings_def paths_def)
      then have "mappings s a x = {}" "mappings s' b x = {}" using pair_okD(1) [OF ok] okb by (simp_all add: mb)
      then show ?thesis using pt_okD(8) [OF okb', of x] by simp
    next
      case False
      then show ?thesis using pair_okD(6) [OF ok, of x] gr by (simp add: mb grows_def)
    qed
  qed
qed

lemma pair_alloc:
  assumes ok: "pair_ok inv free allocated s a b" and m: "inv m" "g \<in> free (pm s)" "free m = free (pm s) - {g}"
    "allocated m = insert g (allocated (pm s))"
  shows "pair_ok inv free allocated (s\<lparr>pm := m\<rparr>) a b"
proof -
  have n: "node (s\<lparr>pm := m\<rparr>) q r = node s q r" for q r by (rule same_tab(1)) simp
  have "tables (s\<lparr>pm := m\<rparr>) r = tables s r" "mappings (s\<lparr>pm := m\<rparr>) r x = mappings s r x" for r x
    by (simp_all add: tables_def mappings_def n)
  then show ?thesis using ok pt_ok_alloc [OF pair_okD(1) [OF ok] m] pt_ok_alloc [OF pair_okD(2) [OF ok] m]
    unfolding pair_ok_def n by simp
qed

text \<open>Mapping a page in one of the two.\<close>

lemma pair_insert:
  assumes ok: "pair_ok inv free allocated s a b" and pg: "page \<in> allocated (pm s)" "page + nbase < npage s"
    "page \<notin> tables s a" "page \<notin> tables s b"
    and perm: "unat (PTE_V OR perm) < 2 ^ 10" and un: "leaf s b (path la) AND PTE_V = 0"
    and t: "node s [PDX1 la, PDX0 la] b = Some t"
  shows "\<exists>s'. page_insert (alloc_pages c alloc) release s b page la perm = Some (0, s') \<and> pair_ok inv free allocated s' a b
    \<and> (\<forall>q \<in> paths. leaf s' b q = (if q = path la then pte_create (page + nbase) (PTE_V OR perm) else leaf s b q))
    \<and> (\<forall>q \<in> paths. leaf s' a q = leaf s a q) \<and> refs s' = (refs s)(page := refs s page + 1) \<and> pm s' = pm s \<and> npage s' = npage s"
proof -
  note okb = pair_okD(2) [OF ok]
  let ?e = "pte_create (page + nbase) (PTE_V OR perm)"
  let ?s' = "set_entry_at t (PTX la) (pte_create (page2ppn page) (PTE_V OR perm)) (set_page_ref page (refs s page + 1) s)"
  have pn: "node s q b \<noteq> Some page" if "length q \<le> 2" for q using pg(4) that unfolding tables_def by blast
  have nv: "tab s t (PTX la) AND PTE_V = 0" using un leaf_path [OF t] by simp
  have pi: "page_insert (alloc_pages c alloc) release s b page la perm = Some (0, ?s')"
    using nv by (simp add: page_insert_def get_pte_present [OF okb t] Let_def set_page_ref_def)
  then have r: "pt_ok inv free allocated ?s' b" "\<forall>q \<in> paths. leaf ?s' b q = (if q = path la then ?e else leaf s b q)"
    using page_insert_present [OF okb pg(1,2) pn perm un t, of c] by auto
  have tt: "t \<in> tables s b" using t unfolding tables_def by (intro CollectI exI [of _ "[PDX1 la, PDX0 la]"]) (simp del: node.simps)
  have fr: "\<forall>f \<in> tables s a. tab ?s' f = tab s f"
  proof
    fix f assume "f \<in> tables s a"
    then have "f \<noteq> t" using tt pair_okD(3) [OF ok] by blast
    then show "tab ?s' f = tab s f" by (simp add: set_entry_at_def set_page_ref_def)
  qed
  have gb: "page + nbase < 2 ^ 44" using pg(2) pt_okD(2) [OF okb] by linarith
  note pf = pte_fields [OF gb perm]
  have np: "node ?s' q b = (if q = path la then Some page else node s q b)" if "q \<in> paths" for q
    using node_leaf [OF that, of ?s' b] node_leaf [OF that, of s b] bspec [OF r(2) that] pf
    by (cases "q = path la") (simp_all add: entry_page_def)
  have nn: "node ?s' q b = node s q b" if "length q \<le> 2" for q
  proof -
    have "node ?s' q b = node (set_entry_at t (PTX la) (pte_create (page2ppn page) (PTE_V OR perm)) s) q b"
      by (rule same_tab(1)) (simp add: set_entry_at_def set_page_ref_def)
    then show ?thesis using set_leaf(1) [OF okb t path_in(1) [of la, unfolded path_def] that] by simp
  qed
  have mb: "mappings ?s' b x = (if x = page then insert (path la) (mappings s b x) else mappings s b x)" for x
  proof -
    have "node s (path la) b = None" using node_leaf [OF path_in(1) [of la], of s b] un by simp
    then show ?thesis using np path_in(1) [of la] by (auto simp: mappings_def split: if_splits)
  qed
  have pr: "pm ?s' = pm s" "npage ?s' = npage s" "refs ?s' = (refs s)(page := refs s page + 1)"
    by (simp_all add: set_entry_at_def set_page_ref_def)
  have "pair_ok inv free allocated ?s' a b"
  proof (rule pair_frame [OF ok r(1) fr pr(2) _ _ free_allocated [OF pt_okD(1) [OF okb]]])
    show "allocated (pm s) \<subseteq> allocated (pm ?s')" unfolding pr ..
    show "tables ?s' b \<subseteq> tables s b \<union> free (pm s)" using nn by (auto simp: tables_def)
    show "f \<notin> tables s a" if "q \<in> paths" "node ?s' q b = Some f" for q f
      using pair_okD(5) [OF ok that(1)] np [OF that(1)] that(2) pg(3) by (auto split: if_splits)
    show "int (card (mappings s a x) + card (mappings ?s' b x)) \<le> refs ?s' x" for x
    proof -
      have "finite (mappings s b x)" by (rule finite_subset [OF _ paths_finite]) (auto simp: mappings_def)
      then have "card (mappings ?s' b x) \<le> card (mappings s b x) + (if x = page then 1 else 0)" unfolding mb by (cases "x = page") (simp_all add: card_insert_if)
      then show ?thesis using pair_okD(6) [OF ok, of x] unfolding pr by auto
    qed
  qed
  then show ?thesis using pi r(2) same_tables(2) [OF fr] pr by blast
qed

lemma mapped_page:
  assumes ok: "pt_ok inv free allocated s r" and q: "q \<in> paths" "leaf s r q AND PTE_V \<noteq> 0"
  shows "entry_page (leaf s r q) \<in> allocated (pm s)" "entry_page (leaf s r q) + nbase < npage s" "entry_page (leaf s r q) \<notin> tables s r"
    "entry_page (leaf s r q) \<notin> free (pm s)" "node s q r = Some (entry_page (leaf s r q))"
proof -
  show n: "node s q r = Some (entry_page (leaf s r q))" using node_leaf [OF q(1), of s r] q(2) by simp
  then show a: "entry_page (leaf s r q) \<in> allocated (pm s)" using pt_okD(6) [OF ok, of q] q(1) by (simp add: paths_def)
  show "entry_page (leaf s r q) \<notin> tables s r" using pt_okD(7) [OF ok _ _ _, of _ q] n q(1) by (auto simp: tables_def paths_def)
  show "entry_page (leaf s r q) \<notin> free (pm s)" using free_allocated [OF pt_okD(1) [OF ok]] a by blast
  obtain t where t: "node s (butlast q) r = Some t" using q(2) by (auto simp: leaf_def split: option.splits)
  then have l: "leaf s r q = tab s t (last q)" by (simp add: leaf_def)
  have b: "length (butlast q) \<le> 2" "last q < 512" using paths_split [OF q(1)] by auto
  show "entry_page (leaf s r q) + nbase < npage s"
    using pt_okD(5) [OF ok b(1) t b(2)] q(2) unfolding l by (simp add: entry_page_def)
qed

text \<open>What both versions of the loop do first: the table of the child is made, and a page is allocated.\<close>

lemma pair_take:
  assumes ok: "pair_ok inv free allocated s a b" and mem: "3 \<le> card (free (pm s))"
  obtains t2 vm g m where "get_pte (alloc_pages c alloc) s b la True = Some (Some (t2, PTX la), vm)"
    "alloc_page (alloc_pages c alloc) vm = Some (Some g, vm\<lparr>pm := m\<rparr>)" "pair_ok inv free allocated (vm\<lparr>pm := m\<rparr>) a b"
    "\<forall>f \<in> tables s a. tab vm f = tab s f" "g \<in> free (pm s)" "g \<notin> free m" "free m \<subseteq> free (pm s)" "card (free (pm s)) \<le> card (free m) + 3"
    "g \<in> allocated m" "g + nbase < npage vm" "g \<notin> tables (vm\<lparr>pm := m\<rparr>) a" "g \<notin> tables (vm\<lparr>pm := m\<rparr>) b"
    "node (vm\<lparr>pm := m\<rparr>) [PDX1 la, PDX0 la] b = Some t2" "\<And>q. q \<in> paths \<Longrightarrow> leaf (vm\<lparr>pm := m\<rparr>) b q = leaf s b q"
    "\<And>q. q \<in> paths \<Longrightarrow> leaf (vm\<lparr>pm := m\<rparr>) a q = leaf s a q" "npage vm = npage s" "\<And>x. x \<notin> free (pm s) \<Longrightarrow> refs vm x = refs s x"
proof -
  note okb = pair_okD(2) [OF ok]
  from get_pte_create [OF okb, of la] obtain p vm where g: "get_pte alloc s b la True = Some (p, vm)" by blast
  note pg = pair_get_pte [OF ok g] and cf = get_pte_free [OF okb g]
  have ps: "p \<noteq> None"
  proof
    assume "p = None"
    from cf(2) [OF this] mem show False by simp
  qed
  then obtain t2 where p: "p = Some (t2, PTX la)" "node vm [PDX1 la, PDX0 la] b = Some t2"
    using pg(4) by (cases p) (auto simp del: node.simps)
  have gp: "get_pte (alloc_pages c alloc) s b la True = Some (Some (t2, PTX la), vm)" using g p(1) by (simp add: get_pte_eq)
  have ne: "free (pm vm) \<noteq> {}" using cf(1) mem by auto
  obtain g m where al: "alloc_page alloc vm = Some (Some g, vm\<lparr>pm := m\<rparr>)" "inv m" "g \<in> free (pm vm)" "free m = free (pm vm) - {g}"
      "allocated m = insert g (allocated (pm vm))"
    using alloc_page_cases [OF pt_okD(1) [OF pg(3)]] ne by metis
  let ?vm = "vm\<lparr>pm := m\<rparr>"
  have same: "node ?vm q r = node vm q r" "leaf ?vm r q = leaf vm r q" for q r by (rule same_tab, simp)+
  have tb: "tables ?vm r = tables vm r" for r by (simp add: tables_def same)
  have sub: "free (pm vm) \<subseteq> free (pm s)" using pg(2) by (simp add: grows_def)
  have nt: "g \<notin> tables vm r" if "pt_ok inv free allocated vm r" for r
  proof
    assume "g \<in> tables vm r"
    then obtain q where "length q \<le> 2" "node vm q r = Some g" by (auto simp: tables_def)
    then show False using free_not_node [OF that al(3), of q] by simp
  qed
  show thesis
  proof (rule that [OF gp])
    show "alloc_page (alloc_pages c alloc) vm = Some (Some g, ?vm)" by (simp add: alloc_page_eq al(1))
    show "pair_ok inv free allocated ?vm a b" by (rule pair_alloc [OF pg(1) al(2-5)])
    show "\<forall>f \<in> tables s a. tab vm f = tab s f" by (rule pg(5))
    show "g \<in> free (pm s)" "g \<notin> free m" "free m \<subseteq> free (pm s)" "g \<in> allocated m" using al sub by auto
    have "card (free (pm vm)) = card (free m) + 1" using card_Suc_Diff1 [OF free_finite [OF pt_okD(1) [OF pg(3)]] al(3)] al(4) by simp
    then show "card (free (pm s)) \<le> card (free m) + 3" using cf(1) by simp
    show "g + nbase < npage vm" by (rule pt_okD(3) [OF pg(3) al(3)])
    show "g \<notin> tables ?vm a" "g \<notin> tables ?vm b" unfolding tb by (rule nt, rule pair_okD [OF pg(1)])+
    show "node ?vm [PDX1 la, PDX0 la] b = Some t2" unfolding same by (rule p(2))
    show "leaf ?vm b q = leaf s b q" if "q \<in> paths" for q using pg(2) that by (simp add: same grows_def)
    show "leaf ?vm a q = leaf s a q" if "q \<in> paths" for q unfolding same by (rule same_tables(2) [OF pg(5) that])
    show "npage vm = npage s" "\<And>x. x \<notin> free (pm s) \<Longrightarrow> refs vm x = refs s x" using pg(2) by (simp_all add: grows_def)
  qed
qed

text \<open>An entry of one of the two address spaces is made to map a page, whatever it was before.\<close>

lemma pair_set_leaf:
  assumes ok: "pair_ok inv free allocated s a b" and x: "x \<in> allocated (pm s)" "x + nbase < npage s" "x \<notin> tables s a" "x \<notin> tables s b"
    and perm: "unat (PTE_V OR perm) < 2 ^ 10" and t: "node s [PDX1 la, PDX0 la] b = Some t"
    and s': "s' = (set_entry_at t (PTX la) (pte_create (page2ppn x) (PTE_V OR perm)) s)\<lparr>refs := r\<rparr>"
    and c: "\<And>y. int (card (mappings s a y) + card (if y = x then insert (path la) (mappings s b y) else mappings s b y - {path la})) \<le> r y"
  shows "pair_ok inv free allocated s' a b" "\<forall>q \<in> paths. leaf s' a q = leaf s a q"
    "\<forall>q \<in> paths. leaf s' b q = (if q = path la then pte_create (x + nbase) (PTE_V OR perm) else leaf s b q)"
proof -
  note okb = pair_okD(2) [OF ok]
  let ?e = "pte_create (x + nbase) (PTE_V OR perm)"
  have s2: "s' = (set_entry_at t (PTX la) ?e s)\<lparr>refs := r, pm := pm s\<rparr>" by (simp add: s' page2ppn_def set_entry_at_def)
  have p3: "[PDX1 la, PDX0 la, PTX la] \<in> paths" using path_in(1) [of la] by (simp add: path_def)
  note sl = set_leaf [OF okb t p3, where e = ?e, folded path_def]
  have nn: "node s' q y = node (set_entry_at t (PTX la) ?e s) q y" "leaf s' y q = leaf (set_entry_at t (PTX la) ?e s) y q" for q y
    by (rule same_tab, simp add: s2)+
  show lf: "\<forall>q \<in> paths. leaf s' b q = (if q = path la then ?e else leaf s b q)" unfolding nn using sl(2) by blast
  have gb: "x + nbase < 2 ^ 44" using x(2) pt_okD(2) [OF okb] by linarith
  note pf = pte_fields [OF gb perm]
  have ep: "entry_page ?e = x" using pf(1) by (simp add: entry_page_def)
  have np: "node s' q b = (if q = path la then Some x else node s q b)" if "q \<in> paths" for q
    using node_leaf [OF that, of s' b] node_leaf [OF that, of s b] bspec [OF lf that] pf ep by (cases "q = path la") simp_all
  then have mb: "mappings s' b y = (if y = x then insert (path la) (mappings s b y) else mappings s b y - {path la})" for y
    using path_in(1) [of la] by (auto simp: mappings_def split: if_splits)
  have n2: "node s' q b = node s q b" if "length q \<le> 2" for q unfolding nn using sl(1) [OF that] .
  have xb: "node s q b \<noteq> Some x" if "length q \<le> 2" for q using x(4) that unfolding tables_def by blast
  have b: "pt_ok inv free allocated s' b"
  proof (rule pt_ok_set_leaf [OF okb t p3 s2])
    show "inv (pm s)" "y \<in> free (pm s) \<Longrightarrow> y + nbase < npage s" for y using pt_okD(1,3) [OF okb] by auto
    show "nbase \<le> PPN (PTE_ADDR ?e) \<and> PPN (PTE_ADDR ?e) < npage s \<and> (\<forall>q. length q \<le> 2 \<longrightarrow> node s q b \<noteq> Some (entry_page ?e))"
      using pf(1) x(2) xb by (simp add: ep)
    show "f \<in> allocated (pm s)" if "length q \<le> 2" "node s q b = Some f" for q f using pt_okD(6) [OF okb _ that(2)] that(1) by simp
    show "entry_page (leaf s' b q) \<in> allocated (pm s)" if "q \<in> paths" "leaf s' b q AND PTE_V \<noteq> 0" for q
    proof (cases "q = path la")
      case True
      then show ?thesis using bspec [OF lf that(1)] ep x(1) by simp
    next
      case False
      then show ?thesis using bspec [OF lf that(1)] that(2) mapped_page(1) [OF okb that(1)] by simp
    qed
    show "int (card (mappings s' b y)) \<le> r y" for y using c [of y] by (simp add: mb)
  qed
  have tt: "t \<in> tables s b" using t unfolding tables_def by (intro CollectI exI [of _ "[PDX1 la, PDX0 la]"]) (simp del: node.simps)
  have fr: "\<forall>f \<in> tables s a. tab s' f = tab s f"
  proof
    fix f assume "f \<in> tables s a"
    then have "f \<noteq> t" using tt pair_okD(3) [OF ok] by blast
    then show "tab s' f = tab s f" by (simp add: s2 set_entry_at_def)
  qed
  show "pair_ok inv free allocated s' a b"
  proof (rule pair_frame [OF ok b fr _ _ _ free_allocated [OF pt_okD(1) [OF okb]]])
    show "npage s' = npage s" "allocated (pm s) \<subseteq> allocated (pm s')" by (simp_all add: s2 set_entry_at_def)
    show "tables s' b \<subseteq> tables s b \<union> free (pm s)" using n2 by (auto simp: tables_def)
    show "f \<notin> tables s a" if "q \<in> paths" "node s' q b = Some f" for q f
      using pair_okD(5) [OF ok that(1)] np [OF that(1)] that(2) x(3) by (auto split: if_splits)
    show "int (card (mappings s a y) + card (mappings s' b y)) \<le> refs s' y" for y
    proof -
      have "refs s' = r" by (simp add: s2)
      then show ?thesis using c [of y] by (simp add: mb)
    qed
  qed
  show "\<forall>q \<in> paths. leaf s' a q = leaf s a q" using same_tables(2) [OF fr] by blast
qed

text \<open>The same page with other permissions.\<close>

lemma pair_remap:
  assumes ok: "pair_ok inv free allocated s a b" and w: "w = leaf s b (path la)" "w AND PTE_V \<noteq> 0"
    and perm: "unat (PTE_V OR perm) < 2 ^ 10"
  shows "\<exists>s'. page_insert (alloc_pages c alloc) release s b (entry_page w) la perm = Some (0, s') \<and> pair_ok inv free allocated s' a b
    \<and> (\<forall>q \<in> paths. leaf s' a q = leaf s a q)
    \<and> (\<forall>q \<in> paths. leaf s' b q = (if q = path la then pte_create (entry_page w + nbase) (PTE_V OR perm) else leaf s b q))
    \<and> pm s' = pm s \<and> refs s' = refs s \<and> npage s' = npage s"
proof -
  note okb = pair_okD(2) [OF ok]
  let ?p = "entry_page w"
  have v: "leaf s b (path la) AND PTE_V \<noteq> 0" using w by simp
  note m = mapped_page [OF okb path_in(1) v, folded w(1)]
  obtain t where t: "node s [PDX1 la, PDX0 la] b = Some t"
    using v by (cases "node s [PDX1 la, PDX0 la] b") (simp_all add: leaf_def path_def del: node.simps)
  have tw: "tab s t (PTX la) = w" using leaf_path [OF t] w(1) by simp
  have "pte2page s w = Some ?p" using kaddr_entry(2) [OF okb _ t, of "PTX la"] tw w(2) by simp
  then have pt: "pte2page (set_page_ref y z s) w = Some ?p" for y z by (simp add: pte2page_def pa2page_def set_page_ref_def)
  define s' where "s' = (set_entry_at t (PTX la) (pte_create (page2ppn ?p) (PTE_V OR perm)) s)\<lparr>refs := refs s\<rparr>"
  have "page_insert (alloc_pages c alloc) release s b ?p la perm = Some (0, s')"
    using w(2) tw pt [of ?p "refs s ?p + 1"] by (simp add: page_insert_def get_pte_present [OF okb t] Let_def s'_def set_page_ref_def set_entry_at_def)
  moreover have "int (card (mappings s a y) + card (if y = ?p then insert (path la) (mappings s b y) else mappings s b y - {path la})) \<le> refs s y" for y
  proof -
    have "path la \<in> mappings s b y \<longleftrightarrow> y = ?p" using m(5) path_in(1) [of la] by (auto simp: mappings_def)
    then have "(if y = ?p then insert (path la) (mappings s b y) else mappings s b y - {path la}) = mappings s b y" by auto
    then show ?thesis using pair_okD(6) [OF ok, of y] by simp
  qed
  note pair_set_leaf [OF ok m(1,2) pair_okD(5) [OF ok path_in(1) m(5)] m(3) perm t s'_def this]
  moreover have "pm s' = pm s" "refs s' = refs s" "npage s' = npage s" by (simp_all add: s'_def set_entry_at_def)
  ultimately show ?thesis by blast
qed

text \<open>Another page in the place of one that is mapped more than once.\<close>

lemma pair_replace:
  assumes ok: "pair_ok inv free allocated s a b" and w: "w = leaf s b (path la)" "w AND PTE_V \<noteq> 0" "1 < refs s (entry_page w)"
    and x: "x \<in> allocated (pm s)" "x + nbase < npage s" "x \<notin> tables s a" "x \<notin> tables s b" "mappings s b x = {}"
    and perm: "unat (PTE_V OR perm) < 2 ^ 10"
  shows "\<exists>s'. page_insert (alloc_pages c alloc) release s b x la perm = Some (0, s') \<and> pair_ok inv free allocated s' a b
    \<and> (\<forall>q \<in> paths. leaf s' a q = leaf s a q)
    \<and> (\<forall>q \<in> paths. leaf s' b q = (if q = path la then pte_create (x + nbase) (PTE_V OR perm) else leaf s b q))
    \<and> pm s' = pm s \<and> refs s' = (refs s)(x := refs s x + 1, entry_page w := refs s (entry_page w) - 1) \<and> npage s' = npage s"
proof -
  note okb = pair_okD(2) [OF ok]
  let ?p = "entry_page w"
  have v: "leaf s b (path la) AND PTE_V \<noteq> 0" using w by simp
  note m = mapped_page [OF okb path_in(1) v, folded w(1)]
  obtain t where t: "node s [PDX1 la, PDX0 la] b = Some t"
    using v by (cases "node s [PDX1 la, PDX0 la] b") (simp_all add: leaf_def path_def del: node.simps)
  have tw: "tab s t (PTX la) = w" using leaf_path [OF t] w(1) by simp
  have "pte2page s w = Some ?p" using kaddr_entry(2) [OF okb _ t, of "PTX la"] tw w(2) by simp
  then have pt: "pte2page (set_page_ref y z s) w = Some ?p" for y z by (simp add: pte2page_def pa2page_def set_page_ref_def)
  have pm: "path la \<in> mappings s b y \<longleftrightarrow> y = ?p" for y using m(5) path_in(1) [of la] by (auto simp: mappings_def)
  have xp: "?p \<noteq> x" using pm [of x] x(5) by auto
  let ?r = "(refs s)(x := refs s x + 1, ?p := refs s ?p - 1)"
  define s' where "s' = (set_entry_at t (PTX la) (pte_create (page2ppn x) (PTE_V OR perm)) s)\<lparr>refs := ?r\<rparr>"
  have "page_insert (alloc_pages c alloc) release s b x la perm = Some (0, s')"
    using w(2,3) tw pt [of x "refs s x + 1"] xp
    by (simp add: page_insert_def get_pte_present [OF okb t] page_remove_pte_def Let_def s'_def set_page_ref_def set_entry_at_def fun_upd_twist)
  moreover have "int (card (mappings s a y) + card (if y = x then insert (path la) (mappings s b y) else mappings s b y - {path la})) \<le> ?r y" for y
  proof -
    have f: "finite (mappings s b y)" by (rule finite_subset [OF _ paths_finite]) (auto simp: mappings_def)
    consider "y = x" | "y = ?p" "y \<noteq> x" | "y \<noteq> ?p" "y \<noteq> x" by blast
    then show ?thesis
    proof cases
      case 1
      then show ?thesis using pair_okD(6) [OF ok, of x] x(5) xp by simp
    next
      case 2
      then have "card (mappings s b y) = Suc (card (mappings s b y - {path la}))" using f pm [of y] by (intro card.remove) auto
      then show ?thesis using pair_okD(6) [OF ok, of y] 2 by simp
    next
      case 3
      then have "mappings s b y - {path la} = mappings s b y" using pm [of y] by auto
      then show ?thesis using pair_okD(6) [OF ok, of y] 3 by simp
    qed
  qed
  note pair_set_leaf [OF ok x(1-4) perm t s'_def this]
  moreover have "pm s' = pm s" "refs s' = ?r" "npage s' = npage s" by (simp_all add: s'_def set_entry_at_def)
  ultimately show ?thesis by blast
qed

end

end
