(* ===== verification/PageWalk.thy ===== *)
theory PageWalk
  imports PageTable
begin

text \<open>
  Loops over the pages of a range of user addresses, as in \<open>copy_range\<close> and \<open>unmap_range\<close> of \<open>kern/mm/pmm.c\<close>: the numbers of
  pages, their paths in a page table, and a rule for a loop that goes on from page to page and past a missing table.
\<close>

text \<open>The path and the address of the page with number \<open>n\<close>.\<close>

definition page_path :: "nat \<Rightarrow> nat list" where
  "page_path n = [n div 2 ^ 18 mod 512, n div 2 ^ 9 mod 512, n mod 512]"

definition page_addr :: "nat \<Rightarrow> addr" where
  "page_addr n = of_nat (n * 4096)"

lemma page_addr_unat: "n \<le> 2 ^ 19 \<Longrightarrow> unat (page_addr n) = n * 4096"
  unfolding page_addr_def unat_of_nat by (rule mod_less) simp

lemma low_nine: "unat (x AND 0x1FF :: addr) = unat x mod 512"
proof -
  have "(0x1FF :: addr) = mask 9" by (simp add: mask_eq_exp_minus_1)
  then have "x AND 0x1FF = take_bit 9 x" by (simp add: take_bit_eq_mask)
  then show ?thesis by (simp add: unsigned_take_bit_eq take_bit_eq_mod unat_mod)
qed

lemma path_page: "path la = page_path (unat la div 4096)"
  by (simp add: path_def page_path_def PDX1_def PDX0_def PTX_def low_nine drop_bit_eq_div unat_div div_mult2_eq [symmetric])

lemma page_path_inj: "inj_on page_path {..< 2 ^ 27}"
proof (rule inj_onI)
  fix m n :: nat assume a: "m \<in> {..< 2 ^ 27}" "n \<in> {..< 2 ^ 27}" "page_path m = page_path n"
  have v: "k = (k div 2 ^ 18 mod 512 * 512 + k div 2 ^ 9 mod 512) * 512 + k mod 512" if "k < 2 ^ 27" for k :: nat
  proof -
    have "k div 2 ^ 18 mod 512 = k div 2 ^ 18" using that by (simp add: less_mult_imp_div_less)
    moreover have "k div 2 ^ 18 = k div 2 ^ 9 div 512" by (simp add: div_mult2_eq [symmetric])
    ultimately show ?thesis by simp
  qed
  show "m = n" using v [of m] v [of n] a by (simp add: page_path_def)
qed

lemma path_addr: "n \<le> 2 ^ 19 \<Longrightarrow> path (page_addr n) = page_path n"
  by (simp add: path_page page_addr_unat)

lemma aligned_addr:
  fixes a :: addr
  assumes "a mod PGSIZE = 0" "a \<le> USERTOP"
  shows "unat a div 4096 \<le> 2 ^ 19" "page_addr (unat a div 4096) = a"
proof -
  have "unat (a mod PGSIZE) = unat a mod 4096" by (simp add: PGSIZE_def unat_mod)
  then have m: "unat a div 4096 * 4096 = unat a" using assms(1) by auto
  show "unat a div 4096 \<le> 2 ^ 19" using assms(2) by (simp add: USERTOP_def word_le_nat_alt)
  show "page_addr (unat a div 4096) = a" unfolding page_addr_def m by simp
qed

lemma next_table:
  assumes "n < 2 ^ 19"
  shows "ROUNDDOWN (page_addr n + PTSIZE) PTSIZE = page_addr ((n div 512 + 1) * 512)"
proof -
  let ?m = "(n div 512 + 1) * 512"
  have pt: "unat PTSIZE = 2 ^ 21" by (simp add: PTSIZE_def PGSIZE_def)
  have "unat (page_addr n + PTSIZE) = n * 4096 + 2 ^ 21"
    using assms by (simp add: unat_word_ariths(1) pt page_addr_unat del: of_nat_mult)
  then have "unat (page_addr n + PTSIZE) div 2 ^ 21 = n div 512 + 1" by (simp add: div_add_self2 div_mult2_eq)
  then have "unat (ROUNDDOWN (page_addr n + PTSIZE) PTSIZE) = (n div 512 + 1) * 2 ^ 21 mod 2 ^ 64"
    by (simp add: ROUNDDOWN_def minus_mod_eq_div_mult unat_word_ariths(2) unat_div pt)
  also have "\<dots> = ?m * 4096" using assms by (simp add: less_mult_imp_div_less)
  also have "\<dots> = unat (page_addr ?m)"
  proof -
    have "n div 512 < 2 ^ 10" using assms by (simp add: less_mult_imp_div_less)
    then show ?thesis using page_addr_unat [of ?m] by simp
  qed
  finally show ?thesis by (rule unsigned_word_eqI)
qed

lemma no_table:
  assumes "node s [PDX1 (page_addr n), PDX0 (page_addr n)] r = None" "n \<le> 2 ^ 19" "k div 512 = n div 512"
  shows "leaf s r (page_path k) = 0"
proof -
  have "path (page_addr n) = page_path n" by (rule path_addr [OF assms(2)])
  then have "[PDX1 (page_addr n), PDX0 (page_addr n)] = [n div 2 ^ 18 mod 512, n div 2 ^ 9 mod 512]" by (simp add: path_def page_path_def)
  moreover have "k div 2 ^ 18 = n div 2 ^ 18" using assms(3) div_mult2_eq [of k 512 512] div_mult2_eq [of n 512 512] by simp
  ultimately show ?thesis using assms(1,3) by (simp add: leaf_def page_path_def del: node.simps)
qed

text \<open>A loop over a range that goes on from page \<open>n\<close> to some later page keeps \<open>I\<close> up to the end.\<close>

lemma range_walk:
  assumes step: "\<And>n s. I n s \<Longrightarrow> n < ne \<Longrightarrow> \<exists>m s'. n < m \<and> m \<le> 2 ^ 19 \<and> I (min m ne) s' \<and>
      loop s (page_addr n) = (if page_addr m \<noteq> 0 \<and> page_addr m < page_addr ne then loop s' (page_addr m) else result s')"
    and ne: "ne \<le> 2 ^ 19"
  shows "I n s \<Longrightarrow> n < ne \<Longrightarrow> \<exists>s'. loop s (page_addr n) = result s' \<and> I ne s'"
proof (induction "ne - n" arbitrary: n s rule: less_induct)
  case less
  from step [OF less.prems] obtain m s' where m: "n < m" "m \<le> 2 ^ 19" "I (min m ne) s'"
    "loop s (page_addr n) = (if page_addr m \<noteq> 0 \<and> page_addr m < page_addr ne then loop s' (page_addr m) else result s')" by blast
  have z: "page_addr m \<noteq> 0" using page_addr_unat [OF m(2)] m(1) by auto
  have l: "page_addr m < page_addr ne \<longleftrightarrow> m < ne"
    using page_addr_unat [OF m(2)] page_addr_unat [OF ne] by (simp add: word_less_nat_alt)
  show ?case
  proof (cases "m < ne")
    case True
    have "ne - m < ne - n" using m(1) True by simp
    moreover have "I m s'" using m(3) True by (simp add: min_def)
    ultimately have "\<exists>s''. loop s' (page_addr m) = result s'' \<and> I ne s''" using True by (rule less.hyps)
    then show ?thesis using m(4) z l True by simp
  next
    case False
    then have "min m ne = ne" by simp
    then show ?thesis using l m(3,4) False by auto
  qed
qed

lemma skip_table:
  assumes skip: "\<And>k. I k s \<Longrightarrow> k < ne \<Longrightarrow> leaf vm r (page_path k) = 0 \<Longrightarrow> I (Suc k) s"
    and none: "node vm [PDX1 (page_addr n), PDX0 (page_addr n)] r = None" and n: "I n s" "n < ne" "n < 2 ^ 19"
  shows "\<exists>m. n < m \<and> m \<le> 2 ^ 19 \<and> I (min m ne) s \<and> ROUNDDOWN (page_addr n + PTSIZE) PTSIZE = page_addr m"
proof -
  let ?m = "(n div 512 + 1) * 512"
  have nm: "n < ?m" by (simp add: dividend_less_div_times)
  have "n div 512 < 2 ^ 10" using n by (simp add: less_mult_imp_div_less)
  then have m2: "?m \<le> 2 ^ 19" by simp
  have "I (min k ne) s" if "n \<le> k" "k \<le> ?m" for k
    using that
  proof (induction k rule: dec_induct)
    case base
    then show ?case using n by (simp add: min_def)
  next
    case (step k)
    then have i: "I (min k ne) s" by simp
    show ?case
    proof (cases "k < ne")
      case True
      have "k div 512 = n div 512" using step by (intro div_nat_eqI) simp_all
      then have "leaf vm r (page_path k) = 0" using no_table [OF none] n by simp
      then show ?thesis using skip [of k] i True by (simp add: min_def)
    qed (use i in \<open>simp add: min_absorb2\<close>)
  qed
  then have "I (min ?m ne) s" using nm by simp
  then show ?thesis using nm m2 next_table [OF n(3)] by blast
qed

lemma next_page_addr: "page_addr n + PGSIZE = page_addr (Suc n)"
  by (simp add: page_addr_def PGSIZE_def algebra_simps)

lemma range_paths:
  assumes "start mod PGSIZE = 0" "end_a mod PGSIZE = 0" "USER_ACCESS start end_a"
  shows "path ` {start ..< end_a} = page_path ` {unat start div 4096 ..< unat end_a div 4096}"
    "unat start div 4096 < unat end_a div 4096" "unat end_a div 4096 \<le> 2 ^ 19"
    "page_addr (unat start div 4096) = start" "page_addr (unat end_a div 4096) = end_a"
proof -
  have u: "start < end_a" "end_a \<le> USERTOP" "start \<le> USERTOP" using assms(3) by (auto simp: USER_ACCESS_def)
  note a = aligned_addr [OF assms(1) u(3)] aligned_addr [OF assms(2) u(2)]
  show e: "page_addr (unat start div 4096) = start" "page_addr (unat end_a div 4096) = end_a" "unat end_a div 4096 \<le> 2 ^ 19" using a by simp_all
  have s4: "unat start = unat start div 4096 * 4096" "unat end_a = unat end_a div 4096 * 4096"
    using page_addr_unat [OF a(1)] page_addr_unat [OF a(3)] e by simp_all
  have "unat start < unat end_a" using u(1) by (simp add: word_less_nat_alt)
  then show "unat start div 4096 < unat end_a div 4096" using s4 by linarith
  show "path ` {start ..< end_a} = page_path ` {unat start div 4096 ..< unat end_a div 4096}"
  proof (intro equalityI subsetI)
    fix q assume "q \<in> path ` {start ..< end_a}"
    then obtain b where "b \<in> {start ..< end_a}" "q = path b" by blast
    then have b: "q = page_path (unat b div 4096)" "unat start \<le> unat b" "unat b < unat end_a"
      by (simp_all add: path_page word_le_nat_alt word_less_nat_alt)
    have "unat b div 4096 < unat end_a div 4096" using b(3) s4(2) by (metis less_mult_imp_div_less)
    then show "q \<in> page_path ` {unat start div 4096 ..< unat end_a div 4096}" using b(1,2) by (auto intro!: imageI div_le_mono)
  next
    fix q assume "q \<in> page_path ` {unat start div 4096 ..< unat end_a div 4096}"
    then obtain k where k: "q = page_path k" "unat start div 4096 \<le> k" "k < unat end_a div 4096" by auto
    have "k \<le> 2 ^ 19" using k(3) e(3) by simp
    note pk = path_addr [OF this] page_addr_unat [OF this]
    have "start \<le> page_addr k" "page_addr k < end_a" unfolding word_le_nat_alt word_less_nat_alt pk(2) using k s4 by linarith+
    then show "q \<in> path ` {start ..< end_a}" using k(1) pk(1) by (metis atLeastLessThan_iff image_eqI)
  qed
qed

lemma path_rounddown: "path (ROUNDDOWN a PGSIZE) = path a"
proof -
  have "unat (ROUNDDOWN a PGSIZE) = unat a - unat a mod 4096" unfolding ROUNDDOWN_def
    by (simp add: unat_sub word_le_nat_alt unat_mod PGSIZE_def)
  then have "unat (ROUNDDOWN a PGSIZE) div 4096 = unat a div 4096" by (simp add: minus_mod_eq_div_mult)
  then show ?thesis by (simp add: path_page)
qed

end
