(* ===== verification/CopyRange.thy ===== *)
theory CopyRange
  imports PairSpaces PageWalk
begin

text \<open>
  \<open>copy_range\<close> of \<open>kern/mm/pmm.c\<close>, which gives a new process a copy of its parent's pages, and the copy on write of
  \<open>src/lab5_with_COW\<close>, where \<open>copy_range\<close> shares the pages and \<open>do_pgfault\<close> copies one when it is written. Both run over the
  page tables of \<open>PageTable\<close> and the memory of \<open>PageFault\<close>.
\<close>

definition PTE_X :: pte where "PTE_X = 8"
definition PTE_USER :: pte where "PTE_USER = PTE_R OR PTE_W OR PTE_X OR PTE_U OR PTE_V"

section \<open>copy_range\<close>

text \<open>What the loop does with one address: the last lab's code, and that of \<open>src/lab5_with_COW\<close>. The result is the number that ends
  the call, if it is one.\<close>

definition copy_page :: "'s alloc_fun \<Rightarrow> 's free_fun \<Rightarrow> 's space \<Rightarrow> nat \<Rightarrow> addr \<Rightarrow> nat \<Rightarrow> nat \<Rightarrow> (int option \<times> 's space) option" where
  "copy_page alloc release s to start t i = do {
     let alloc = alloc_pages (swap_init_ok s) alloc;
     (np, vm) \<leftarrow> get_pte alloc (sp_vm s) to start True;
     if np = None then Some (Some (- E_NO_MEM), s\<lparr>sp_vm := vm\<rparr>)
     else do {
       let perm = tab vm t i AND PTE_USER;
       page \<leftarrow> pte2page vm (tab vm t i);
       (r, vm) \<leftarrow> alloc_page alloc vm;
       npage \<leftarrow> r;
       let s = s\<lparr>page_mem := (page_mem s)(npage := page_mem s page)\<rparr>;
       (ret, vm) \<leftarrow> page_insert alloc release vm to npage start perm;
       kassert (ret = 0);
       Some (None, s\<lparr>sp_vm := vm\<rparr>)
     }
   }"

definition share_page :: "'s alloc_fun \<Rightarrow> 's free_fun \<Rightarrow> bool \<Rightarrow> nat \<Rightarrow> 's space \<Rightarrow> nat \<Rightarrow> addr \<Rightarrow> nat \<Rightarrow> nat \<Rightarrow> (int option \<times> 's space) option" where
  "share_page alloc release share from s to start t i = do {
     let alloc = alloc_pages (swap_init_ok s) alloc;
     (np, vm) \<leftarrow> get_pte alloc (sp_vm s) to start True;
     if np = None then Some (Some (- E_NO_MEM), s\<lparr>sp_vm := vm\<rparr>)
     else do {
       let perm = tab vm t i AND PTE_USER;
       page \<leftarrow> pte2page vm (tab vm t i);
       (r, vm) \<leftarrow> alloc_page alloc vm;
       npage \<leftarrow> r;
       (ret, s) \<leftarrow> (if share then do {
            (_, vm) \<leftarrow> page_insert alloc release vm from page start (perm AND NOT PTE_W);
            (ret, vm) \<leftarrow> page_insert alloc release vm to page start (perm AND NOT PTE_W);
            Some (ret, s\<lparr>sp_vm := vm\<rparr>)
          } else do {
            let s = s\<lparr>page_mem := (page_mem s)(npage := page_mem s page)\<rparr>;
            (ret, vm) \<leftarrow> page_insert alloc release vm to npage start perm;
            Some (ret, s\<lparr>sp_vm := vm\<rparr>)
          });
       kassert (ret = 0);
       Some (None, s)
     }
   }"

partial_function (option) copy_loop ::
  "('s space \<Rightarrow> addr \<Rightarrow> ((nat \<times> nat) option \<times> 's vm) option) \<Rightarrow> ('s space \<Rightarrow> addr \<Rightarrow> nat \<Rightarrow> nat \<Rightarrow> (int option \<times> 's space) option)
     \<Rightarrow> 's space \<Rightarrow> addr \<Rightarrow> addr \<Rightarrow> (int \<times> 's space) option" where
  "copy_loop look page s start end_a = do {
     (p, vm) \<leftarrow> look s start;
     let s = s\<lparr>sp_vm := vm\<rparr>;
     (r, start, s) \<leftarrow> (case p of None \<Rightarrow> Some (None, ROUNDDOWN (start + PTSIZE) PTSIZE, s)
       | Some (t, i) \<Rightarrow> if tab vm t i AND PTE_V \<noteq> 0 then do { (r, s) \<leftarrow> page s start t i; Some (r, start + PGSIZE, s) }
                      else Some (None, start + PGSIZE, s));
     case r of Some ret \<Rightarrow> Some (ret, s)
     | None \<Rightarrow> if start \<noteq> 0 \<and> start < end_a then copy_loop look page s start end_a else Some (0, s)
   }"

definition copy_range :: "'s alloc_fun \<Rightarrow> 's free_fun \<Rightarrow> 's space \<Rightarrow> nat \<Rightarrow> nat \<Rightarrow> addr \<Rightarrow> addr \<Rightarrow> (int \<times> 's space) option" where
  "copy_range alloc release s to from start end_a = do {
     kassert (start mod PGSIZE = 0 \<and> end_a mod PGSIZE = 0);
     kassert (USER_ACCESS start end_a);
     copy_loop (\<lambda>s la. get_pte (alloc_pages (swap_init_ok s) alloc) (sp_vm s) from la False)
       (\<lambda>s. copy_page alloc release s to) s start end_a
   }"

definition copy_range_cow :: "'s alloc_fun \<Rightarrow> 's free_fun \<Rightarrow> 's space \<Rightarrow> nat \<Rightarrow> nat \<Rightarrow> addr \<Rightarrow> addr \<Rightarrow> bool \<Rightarrow> (int \<times> 's space) option" where
  "copy_range_cow alloc release s to from start end_a share = do {
     kassert (start mod PGSIZE = 0 \<and> end_a mod PGSIZE = 0);
     kassert (USER_ACCESS start end_a);
     copy_loop (\<lambda>s la. get_pte (alloc_pages (swap_init_ok s) alloc) (sp_vm s) from la False)
       (\<lambda>s. share_page alloc release share from s to) s start end_a
   }"

text \<open>\<open>do_pgfault\<close> of \<open>src/lab5_with_COW\<close>. The manager behind \<open>swap_map_swappable\<close> is set when swapping starts; a null page is a crash.\<close>

definition do_pgfault_cow :: "'s alloc_fun \<Rightarrow> 's free_fun \<Rightarrow> mm option \<Rightarrow> 's space \<Rightarrow> nat \<Rightarrow> addr \<Rightarrow> (int \<times> mm option \<times> 's space) option" where
  "do_pgfault_cow alloc release mo s pgdir addr = do {
     (v, mo, start, flags) \<leftarrow> (case mo of None \<Rightarrow> Some (0, mo, 0, 0)
       | Some mm \<Rightarrow> do { (v, mm) \<leftarrow> find_vma mm addr; Some (v, Some mm, vm_start (vmas mm v), vm_flags (vmas mm v)) });
     if v = 0 \<or> start > addr then Some (- E_INVAL, mo, s)
     else do {
       let perm = area_perm flags;
       let addr = ROUNDDOWN addr PGSIZE;
       (p, vm) \<leftarrow> get_pte (alloc_pages (swap_init_ok s) alloc) (sp_vm s) pgdir addr True;
       let s = s\<lparr>sp_vm := vm\<rparr>;
       case p of None \<Rightarrow> Some (- E_NO_MEM, mo, s)
       | Some (t, i) \<Rightarrow>
           if tab vm t i = 0 then do {
             (r, s) \<leftarrow> pgdir_alloc_swappable alloc release s pgdir addr perm;
             Some (if r = None then - E_NO_MEM else 0, mo, s)
           }
           else if tab vm t i AND PTE_V = 0 \<and> \<not> swap_init_ok s then Some (- E_NO_MEM, mo, s)
           else do {
             (page, s) \<leftarrow> (if tab vm t i AND PTE_V \<noteq> 0 then do {
                  page \<leftarrow> pte2page vm (tab vm t i);
                  if refs vm page > 1 then do {
                    (r, s) \<leftarrow> pgdir_alloc_swappable alloc release s pgdir addr perm;
                    newPage \<leftarrow> r;
                    Some (page, s\<lparr>page_mem := (page_mem s)(newPage := page_mem s page)\<rparr>)
                  } else do {
                    (_, vm) \<leftarrow> page_insert (alloc_pages (swap_init_ok s) alloc) release vm pgdir page addr perm;
                    Some (page, s\<lparr>sp_vm := vm\<rparr>)
                  }
                } else do {
                  (page, s) \<leftarrow> swap_in alloc s pgdir addr;
                  (_, vm) \<leftarrow> page_insert (alloc_pages (swap_init_ok s) alloc) release (sp_vm s) pgdir page addr perm;
                  Some (page, s\<lparr>sp_vm := vm\<rparr>)
                });
             kassert (swap_init_ok s);
             let s = swap_map_swappable s page;
             Some (0, mo, s\<lparr>pra_vaddr := (pra_vaddr s)(page := addr)\<rparr>)
           }
     }
   }"

section \<open>Walking over a range\<close>

text \<open>The loop calls \<open>page\<close> for the mapped pages of the range, in order. \<open>I n\<close> holds before page \<open>n\<close>.\<close>

lemma copy_loop_rule:
  assumes look: "\<And>n s. I n s \<Longrightarrow> look s (page_addr n) = Some (map_option (\<lambda>t. (t, PTX (page_addr n))) (node (sp_vm s) [PDX1 (page_addr n), PDX0 (page_addr n)] r), sp_vm s)"
    and page: "\<And>n s t. I n s \<Longrightarrow> n < ne \<Longrightarrow> node (sp_vm s) [PDX1 (page_addr n), PDX0 (page_addr n)] r = Some t \<Longrightarrow>
      leaf (sp_vm s) r (page_path n) AND PTE_V \<noteq> 0 \<Longrightarrow> \<exists>s'. page s (page_addr n) t (PTX (page_addr n)) = Some (None, s') \<and> I (Suc n) s'"
    and skip: "\<And>n s. I n s \<Longrightarrow> n < ne \<Longrightarrow> leaf (sp_vm s) r (page_path n) AND PTE_V = 0 \<Longrightarrow> I (Suc n) s"
    and ne: "ne \<le> 2 ^ 19" and start: "I n s" "n < ne"
  shows "\<exists>s'. copy_loop look page s (page_addr n) (page_addr ne) = Some (0, s') \<and> I ne s'"
proof (rule range_walk [where loop = "\<lambda>s a. copy_loop look page s a (page_addr ne)" and result = "\<lambda>s'. Some (0, s')" and I = I, OF _ ne start])
  fix n s assume i: "I n s" "n < ne"
  have n: "n < 2 ^ 19" using i(2) ne by simp
  let ?la = "page_addr n"
  note step = copy_loop.simps [of look page s ?la "page_addr ne"] look [OF i(1)]
  show "\<exists>m s'. n < m \<and> m \<le> 2 ^ 19 \<and> I (min m ne) s' \<and> copy_loop look page s ?la (page_addr ne)
      = (if page_addr m \<noteq> 0 \<and> page_addr m < page_addr ne then copy_loop look page s' (page_addr m) (page_addr ne) else Some (0, s'))"
  proof (cases "node (sp_vm s) [PDX1 ?la, PDX0 ?la] r")
    case None
    have sk: "I (Suc k) s" if "I k s" "k < ne" "leaf (sp_vm s) r (page_path k) = 0" for k by (rule skip [OF that(1,2)]) (simp add: that(3))
    from skip_table [where I = I and s = s, OF sk None i n] obtain m where m: "n < m" "m \<le> 2 ^ 19" "I (min m ne) s"
      "ROUNDDOWN (?la + PTSIZE) PTSIZE = page_addr m" by blast
    then show ?thesis using step(2) None by (intro exI [of _ m] exI [of _ s]) (subst step(1), simp del: node.simps)
  next
    case (Some t)
    have tl: "tab (sp_vm s) t (PTX ?la) = leaf (sp_vm s) r (page_path n)"
      using leaf_path [OF Some] path_addr [of n] n by simp
    have s2: "n < Suc n" "Suc n \<le> 2 ^ 19" "min (Suc n) ne = Suc n" using n i(2) by simp_all
    show ?thesis
    proof (cases "leaf (sp_vm s) r (page_path n) AND PTE_V = 0")
      case True
      have "I (min (Suc n) ne) s" using skip [OF i True] s2(3) by simp
      then show ?thesis using s2 step(2) Some True tl
        by (intro exI [of _ "Suc n"] exI [of _ s]) (subst step(1), simp add: next_page_addr del: node.simps)
    next
      case False
      from page [OF i Some False] obtain s' where s': "page s ?la t (PTX ?la) = Some (None, s')" "I (Suc n) s'" by blast
      then have "I (min (Suc n) ne) s'" using s2(3) by simp
      then show ?thesis using s2 step(2) Some False tl s'(1)
        by (intro exI [of _ "Suc n"] exI [of _ s']) (subst step(1), simp add: next_page_addr del: node.simps)
    qed
  qed
qed

text \<open>What copying the pages of \<open>N\<close> leaves: \<open>G\<close> gives the new page of each.\<close>

definition copied :: "('s \<Rightarrow> nat set) \<Rightarrow> 's space \<Rightarrow> 's space \<Rightarrow> nat \<Rightarrow> nat \<Rightarrow> nat list set \<Rightarrow> (nat list \<Rightarrow> nat) \<Rightarrow> bool" where
  "copied free s s' to from N G \<longleftrightarrow>
     (\<forall>q \<in> paths. leaf (sp_vm s') from q = leaf (sp_vm s) from q)
     \<and> (\<forall>q \<in> paths. leaf (sp_vm s') to q = (if q \<in> N \<and> leaf (sp_vm s) from q AND PTE_V \<noteq> 0
          then pte_create (G q + nbase) (PTE_V OR (leaf (sp_vm s) from q AND PTE_USER)) else leaf (sp_vm s) to q))
     \<and> (\<forall>q \<in> N. leaf (sp_vm s) from q AND PTE_V \<noteq> 0 \<longrightarrow> G q \<in> free (pm (sp_vm s)) \<and> G q \<notin> free (pm (sp_vm s'))
          \<and> page_mem s' (G q) = page_mem s (entry_page (leaf (sp_vm s) from q)))
     \<and> inj_on G {q \<in> N. leaf (sp_vm s) from q AND PTE_V \<noteq> 0}
     \<and> (\<forall>x. x \<notin> free (pm (sp_vm s)) \<longrightarrow> page_mem s' x = page_mem s x)"

lemma copied_none: "copied free s s to from {} G"
  by (simp add: copied_def)

lemma copied_skip: "copied free s s' to from N G \<Longrightarrow> leaf (sp_vm s) from q AND PTE_V = 0 \<Longrightarrow> copied free s s' to from (insert q N) G"
proof -
  assume a: "copied free s s' to from N G" "leaf (sp_vm s) from q AND PTE_V = 0"
  then have "{x \<in> insert q N. leaf (sp_vm s) from x AND PTE_V \<noteq> 0} = {x \<in> N. leaf (sp_vm s) from x AND PTE_V \<noteq> 0}" by auto
  then show ?thesis using a unfolding copied_def by auto
qed

lemma copied_step:
  assumes c: "copied free s s1 to from N G" and q: "q \<in> paths" "q \<notin> N" "N \<subseteq> paths"
    and w: "w = leaf (sp_vm s) from q" "w AND PTE_V \<noteq> 0" "entry_page w \<notin> free (pm (sp_vm s))"
    and g: "g \<in> free (pm (sp_vm s1))" "g \<notin> free (pm (sp_vm s2))" "free (pm (sp_vm s1)) \<subseteq> free (pm (sp_vm s))" "free (pm (sp_vm s2)) \<subseteq> free (pm (sp_vm s1))"
    and m: "page_mem s2 = (page_mem s1)(g := page_mem s1 (entry_page w))"
    and l: "\<forall>x \<in> paths. leaf (sp_vm s2) from x = leaf (sp_vm s1) from x"
      "\<forall>x \<in> paths. leaf (sp_vm s2) to x = (if x = q then pte_create (g + nbase) (PTE_V OR (w AND PTE_USER)) else leaf (sp_vm s1) to x)"
  shows "copied free s s2 to from (insert q N) (G(q := g))"
proof -
  let ?v = "\<lambda>x. leaf (sp_vm s) from x AND PTE_V \<noteq> 0"
  have old: "G x \<in> free (pm (sp_vm s))" "G x \<notin> free (pm (sp_vm s1))" "page_mem s1 (G x) = page_mem s (entry_page (leaf (sp_vm s) from x))"
    if "x \<in> N" "?v x" for x using c that unfolding copied_def by blast+
  have keep: "page_mem s1 x = page_mem s x" if "x \<notin> free (pm (sp_vm s))" for x using c that unfolding copied_def by blast
  show ?thesis
    unfolding copied_def
  proof (intro conjI)
    show "\<forall>x \<in> paths. leaf (sp_vm s2) from x = leaf (sp_vm s) from x" using c l(1) unfolding copied_def by simp
    show "\<forall>x \<in> paths. leaf (sp_vm s2) to x = (if x \<in> insert q N \<and> ?v x
          then pte_create ((G(q := g)) x + nbase) (PTE_V OR (leaf (sp_vm s) from x AND PTE_USER)) else leaf (sp_vm s) to x)"
      using c l(2) w unfolding copied_def by simp
    show "\<forall>x \<in> insert q N. ?v x \<longrightarrow> (G(q := g)) x \<in> free (pm (sp_vm s)) \<and> (G(q := g)) x \<notin> free (pm (sp_vm s2))
          \<and> page_mem s2 ((G(q := g)) x) = page_mem s (entry_page (leaf (sp_vm s) from x))"
    proof (intro ballI impI)
      fix x assume x: "x \<in> insert q N" "?v x"
      show "(G(q := g)) x \<in> free (pm (sp_vm s)) \<and> (G(q := g)) x \<notin> free (pm (sp_vm s2))
          \<and> page_mem s2 ((G(q := g)) x) = page_mem s (entry_page (leaf (sp_vm s) from x))"
      proof (cases "x = q")
        case True
        then show ?thesis using g w m keep [OF w(3)] by auto
      next
        case False
        then have xn: "x \<in> N" using x(1) by simp
        have "G x \<noteq> g" using old(2) [OF xn x(2)] g(1) by auto
        then show ?thesis using False old [OF xn x(2)] g(4) m by auto
      qed
    qed
    have "inj_on G {x \<in> N. ?v x}" using c unfolding copied_def by blast
    then have "inj_on (G(q := g)) {x \<in> N. ?v x}" using q(2) by (auto simp: inj_on_def)
    moreover have "(G(q := g)) q \<notin> (G(q := g)) ` {x \<in> N. ?v x}" using q(2) old(2) g(1) by auto
    moreover have "{x \<in> insert q N. ?v x} = insert q {x \<in> N. ?v x}" using w by auto
    ultimately show "inj_on (G(q := g)) {x \<in> insert q N. ?v x}" using q(2) by (simp add: inj_on_insert)
    show "\<forall>x. x \<notin> free (pm (sp_vm s)) \<longrightarrow> page_mem s2 x = page_mem s x"
      using keep g(1,3) m by auto
  qed
qed

text \<open>The entry both processes get for a shared page.\<close>

definition cow_entry :: "pte \<Rightarrow> pte" where
  "cow_entry w = pte_create (entry_page w + nbase) (PTE_V OR ((w AND PTE_USER) AND NOT PTE_W))"

text \<open>What sharing the pages of \<open>N\<close> leaves. Each takes a page that nobody gets.\<close>

definition shared :: "('s \<Rightarrow> nat set) \<Rightarrow> 's space \<Rightarrow> 's space \<Rightarrow> nat \<Rightarrow> nat \<Rightarrow> nat list set \<Rightarrow> bool" where
  "shared free s s' to from N \<longleftrightarrow>
     (\<forall>q \<in> paths. leaf (sp_vm s') from q = (if q \<in> N \<and> leaf (sp_vm s) from q AND PTE_V \<noteq> 0
        then cow_entry (leaf (sp_vm s) from q) else leaf (sp_vm s) from q))
     \<and> (\<forall>q \<in> paths. leaf (sp_vm s') to q = (if q \<in> N \<and> leaf (sp_vm s) from q AND PTE_V \<noteq> 0
        then cow_entry (leaf (sp_vm s) from q) else leaf (sp_vm s) to q))
     \<and> page_mem s' = page_mem s
     \<and> card (free (pm (sp_vm s'))) + card {q \<in> N. leaf (sp_vm s) from q AND PTE_V \<noteq> 0} \<le> card (free (pm (sp_vm s)))"

lemma shared_skip: "shared free s s' to from N \<Longrightarrow> leaf (sp_vm s) from q AND PTE_V = 0 \<Longrightarrow> shared free s s' to from (insert q N)"
proof -
  assume a: "shared free s s' to from N" "leaf (sp_vm s) from q AND PTE_V = 0"
  then have "{x \<in> insert q N. leaf (sp_vm s) from x AND PTE_V \<noteq> 0} = {x \<in> N. leaf (sp_vm s) from x AND PTE_V \<noteq> 0}" by auto
  then show ?thesis using a unfolding shared_def by auto
qed

lemma shared_step:
  assumes c: "shared free s s1 to from N" and q: "q \<in> paths" "q \<notin> N" "N \<subseteq> paths"
    and w: "leaf (sp_vm s) from q AND PTE_V \<noteq> 0" and g: "card (free (pm (sp_vm s2))) < card (free (pm (sp_vm s1)))"
    and m: "page_mem s2 = page_mem s1"
    and l: "\<forall>x \<in> paths. leaf (sp_vm s2) from x = (if x = q then cow_entry (leaf (sp_vm s) from q) else leaf (sp_vm s1) from x)"
      "\<forall>x \<in> paths. leaf (sp_vm s2) to x = (if x = q then cow_entry (leaf (sp_vm s) from q) else leaf (sp_vm s1) to x)"
  shows "shared free s s2 to from (insert q N)"
proof -
  have "{x \<in> insert q N. leaf (sp_vm s) from x AND PTE_V \<noteq> 0} = insert q {x \<in> N. leaf (sp_vm s) from x AND PTE_V \<noteq> 0}" using w by auto
  moreover have "finite {x \<in> N. leaf (sp_vm s) from x AND PTE_V \<noteq> 0}" using finite_subset [OF q(3)] by simp
  ultimately have "card {x \<in> insert q N. leaf (sp_vm s) from x AND PTE_V \<noteq> 0} = Suc (card {x \<in> N. leaf (sp_vm s) from x AND PTE_V \<noteq> 0})"
    using q(2) by simp
  then show ?thesis using c q(2) w g m l unfolding shared_def by auto
qed

context page_source
begin

lemma perm_small: "unat (PTE_V OR (w AND PTE_USER)) < 2 ^ 10" "unat (PTE_V OR ((w AND PTE_USER) AND NOT PTE_W)) < 2 ^ 10"
proof -
  have u: "PTE_USER = 0x1F" by (simp add: PTE_USER_def PTE_V_def PTE_W_def PTE_R_def PTE_X_def PTE_U_def)
  have x1: "n < 5" if "bit (0x1F :: pte) n" for n using small_bits [OF _ that, of 5] by simp
  have x2: "n < 5" if "bit (1 :: pte) n" for n using small_bits [OF _ that, of 5] by simp
  have b: "bit (PTE_V OR (w AND PTE_USER)) n \<Longrightarrow> n < 5" "bit (PTE_V OR ((w AND PTE_USER) AND NOT PTE_W)) n \<Longrightarrow> n < 5" for n
    using x1 [of n] x2 [of n] unfolding u PTE_V_def by (simp_all only: bit_or_iff bit_and_iff) blast+
  have lt: "unat x < 2 ^ 10" if "\<And>n. bit x n \<Longrightarrow> n < 5" for x :: pte
  proof -
    have "take_bit 10 x = x" by (rule bit_word_eqI) (use that in \<open>force simp: bit_simps\<close>)
    then show ?thesis by (metis take_bit_nat_less_exp unsigned_take_bit_eq)
  qed
  show "unat (PTE_V OR (w AND PTE_USER)) < 2 ^ 10" "unat (PTE_V OR ((w AND PTE_USER) AND NOT PTE_W)) < 2 ^ 10"
    by (rule lt, rule b, assumption)+
qed

lemma copy_page_ok:
  assumes ok: "pair_ok inv free allocated (sp_vm s) from to" and w: "w = leaf (sp_vm s) from (path la)" "w AND PTE_V \<noteq> 0"
    and t: "node (sp_vm s) [PDX1 la, PDX0 la] from = Some t" and un: "leaf (sp_vm s) to (path la) AND PTE_V = 0"
    and mem: "3 \<le> card (free (pm (sp_vm s)))"
  shows "\<exists>s' g. copy_page alloc release s to la t (PTX la) = Some (None, s') \<and> pair_ok inv free allocated (sp_vm s') from to
    \<and> g \<in> free (pm (sp_vm s)) \<and> g \<notin> free (pm (sp_vm s')) \<and> free (pm (sp_vm s')) \<subseteq> free (pm (sp_vm s))
    \<and> card (free (pm (sp_vm s))) \<le> card (free (pm (sp_vm s'))) + 3 \<and> page_mem s' = (page_mem s)(g := page_mem s (entry_page w))
    \<and> (\<forall>q \<in> paths. leaf (sp_vm s') from q = leaf (sp_vm s) from q)
    \<and> (\<forall>q \<in> paths. leaf (sp_vm s') to q = (if q = path la then pte_create (g + nbase) (PTE_V OR (w AND PTE_USER)) else leaf (sp_vm s) to q))"
proof -
  let ?c = "swap_init_ok s"
  from pair_take [OF ok mem, of ?c la] obtain t2 vm g m where
    g: "get_pte (alloc_pages ?c alloc) (sp_vm s) to la True = Some (Some (t2, PTX la), vm)"
    "alloc_page (alloc_pages ?c alloc) vm = Some (Some g, vm\<lparr>pm := m\<rparr>)" "pair_ok inv free allocated (vm\<lparr>pm := m\<rparr>) from to"
    "\<forall>f \<in> tables (sp_vm s) from. tab vm f = tab (sp_vm s) f" "g \<in> free (pm (sp_vm s))" "g \<notin> free m" "free m \<subseteq> free (pm (sp_vm s))"
    "card (free (pm (sp_vm s))) \<le> card (free m) + 3" "g \<in> allocated m" "g + nbase < npage vm" "g \<notin> tables (vm\<lparr>pm := m\<rparr>) from"
    "g \<notin> tables (vm\<lparr>pm := m\<rparr>) to" "node (vm\<lparr>pm := m\<rparr>) [PDX1 la, PDX0 la] to = Some t2"
    "\<And>q. q \<in> paths \<Longrightarrow> leaf (vm\<lparr>pm := m\<rparr>) to q = leaf (sp_vm s) to q"
    "\<And>q. q \<in> paths \<Longrightarrow> leaf (vm\<lparr>pm := m\<rparr>) from q = leaf (sp_vm s) from q" "npage vm = npage (sp_vm s)" by metis
  let ?vm = "vm\<lparr>pm := m\<rparr>"
  have "t \<in> tables (sp_vm s) from" using t unfolding tables_def by (intro CollectI exI [of _ "[PDX1 la, PDX0 la]"]) (simp del: node.simps)
  then have tw: "tab vm t (PTX la) = w" using g(4) leaf_path [OF t] w(1) by simp
  have "pte2page (sp_vm s) w = Some (entry_page w)"
    using kaddr_entry(2) [OF pair_okD(1) [OF ok] _ t, of "PTX la"] leaf_path [OF t] w by simp
  then have pt: "pte2page vm w = Some (entry_page w)" using g(16) by (simp add: pte2page_def pa2page_def)
  have un': "leaf ?vm to (path la) AND PTE_V = 0" using g(14) [OF path_in(1)] un by simp
  have gm: "g \<in> allocated (pm ?vm)" "g + nbase < npage ?vm" using g(9,10) by simp_all
  obtain vm' where p: "page_insert (alloc_pages ?c alloc) release ?vm to g la (w AND PTE_USER) = Some (0, vm')"
    "pair_ok inv free allocated vm' from to"
    "\<forall>q \<in> paths. leaf vm' to q = (if q = path la then pte_create (g + nbase) (PTE_V OR (w AND PTE_USER)) else leaf ?vm to q)"
    "\<forall>q \<in> paths. leaf vm' from q = leaf ?vm from q" "pm vm' = m"
    using pair_insert [OF g(3) gm g(11,12) perm_small(1) [of w] un' g(13), of ?c] by auto
  show ?thesis
  proof (intro exI conjI)
    show "copy_page alloc release s to la t (PTX la)
        = Some (None, s\<lparr>page_mem := (page_mem s)(g := page_mem s (entry_page w)), sp_vm := vm'\<rparr>)"
      using g(1,2) p(1) by (simp add: copy_page_def tw pt Let_def bind_kassert)
  qed (use g p in simp_all)
qed

lemma look_from:
  assumes "pt_ok inv free allocated (sp_vm s) r"
  shows "get_pte (alloc_pages c alloc) (sp_vm s) r la False
    = Some (map_option (\<lambda>t. (t, PTX la)) (node (sp_vm s) [PDX1 la, PDX0 la] r), sp_vm s)"
  unfolding get_pte_eq get_pte_lookup [OF assms]
  by (cases "node (sp_vm s) [PDX1 la, PDX0 la] r") (simp_all del: node.simps)

lemma copy_loop_ok:
  assumes ok: "pair_ok inv free allocated (sp_vm s) from to" and n: "ns < ne" "ne \<le> 2 ^ 19"
    and un: "\<forall>k \<in> {ns ..< ne}. leaf (sp_vm s) to (page_path k) AND PTE_V = 0" and mem: "3 * (ne - ns) \<le> card (free (pm (sp_vm s)))"
  shows "\<exists>s' G. copy_loop (\<lambda>s la. get_pte (alloc_pages (swap_init_ok s) alloc) (sp_vm s) from la False)
       (\<lambda>s. copy_page alloc release s to) s (page_addr ns) (page_addr ne) = Some (0, s')
    \<and> pair_ok inv free allocated (sp_vm s') from to \<and> copied free s s' to from (page_path ` {ns ..< ne}) G"
proof -
  define I where "I = (\<lambda>n s'. ns \<le> n \<and> n \<le> ne \<and> pair_ok inv free allocated (sp_vm s') from to \<and> (\<exists>G. copied free s s' to from (page_path ` {ns ..< n}) G)
    \<and> free (pm (sp_vm s')) \<subseteq> free (pm (sp_vm s)) \<and> 3 * (ne - n) \<le> card (free (pm (sp_vm s'))))"
  have inj: "page_path n \<notin> page_path ` {ns ..< n}" if "n < ne" for n
  proof
    assume "page_path n \<in> page_path ` {ns ..< n}"
    then obtain k where "k < n" "page_path n = page_path k" by auto
    then show False using inj_onD [OF page_path_inj, of n k] that \<open>ne \<le> 2 ^ 19\<close> by simp
  qed
  have pin: "page_path k \<in> paths" for k by (simp add: page_path_def paths_def)
  have sub: "page_path ` {ns ..< n} \<subseteq> paths" for n using pin by auto
  have ins: "page_path ` {ns ..< Suc n} = insert (page_path n) (page_path ` {ns ..< n})" if "ns \<le> n" for n
    using that by (simp add: atLeastLessThanSuc)
  have lf: "leaf (sp_vm s') from (page_path k) = leaf (sp_vm s) from (page_path k)" if "I n s'" for n s' k
    using that pin unfolding I_def copied_def by blast
  have "\<exists>s'. copy_loop (\<lambda>s la. get_pte (alloc_pages (swap_init_ok s) alloc) (sp_vm s) from la False)
       (\<lambda>s. copy_page alloc release s to) s (page_addr ns) (page_addr ne) = Some (0, s') \<and> I ne s'"
  proof (rule copy_loop_rule [where I = I, OF _ _ _ n(2) _ n(1)])
    show "I ns s" unfolding I_def using ok n(1) mem by (auto intro: exI [of _ "\<lambda>_. 0"] copied_none)
    show "get_pte (alloc_pages (swap_init_ok s') alloc) (sp_vm s') from (page_addr n) False
        = Some (map_option (\<lambda>t. (t, PTX (page_addr n))) (node (sp_vm s') [PDX1 (page_addr n), PDX0 (page_addr n)] from), sp_vm s')"
      if "I n s'" for n s' using that unfolding I_def by (intro look_from) (blast dest: pair_okD(1))
    show "I (Suc n) s'" if "I n s'" "n < ne" "leaf (sp_vm s') from (page_path n) AND PTE_V = 0" for n s'
    proof -
      from that(1) obtain G where g: "ns \<le> n" "copied free s s' to from (page_path ` {ns ..< n}) G" unfolding I_def by blast
      have "copied free s s' to from (page_path ` {ns ..< Suc n}) G"
        unfolding ins [OF g(1)] by (rule copied_skip [OF g(2)]) (use that(3) lf [OF that(1)] in simp)
      then show ?thesis using that(1,2) unfolding I_def by auto
    qed
    show "\<exists>s''. copy_page alloc release s' to (page_addr n) t (PTX (page_addr n)) = Some (None, s'') \<and> I (Suc n) s''"
      if i: "I n s'" "n < ne" "node (sp_vm s') [PDX1 (page_addr n), PDX0 (page_addr n)] from = Some t"
        "leaf (sp_vm s') from (page_path n) AND PTE_V \<noteq> 0" for n s' t
    proof -
      let ?w = "leaf (sp_vm s) from (page_path n)"
      have pa: "path (page_addr n) = page_path n" using i(2) n(2) by (intro path_addr) simp
      have w: "leaf (sp_vm s') from (path (page_addr n)) = ?w" "?w AND PTE_V \<noteq> 0" using lf [OF i(1)] i(4) pa by simp_all
      from i(1) obtain G where G: "copied free s s' to from (page_path ` {ns ..< n}) G" "ns \<le> n" "pair_ok inv free allocated (sp_vm s') from to"
        "free (pm (sp_vm s')) \<subseteq> free (pm (sp_vm s))" "3 * (ne - n) \<le> card (free (pm (sp_vm s')))" unfolding I_def by blast
      have "leaf (sp_vm s') to (page_path n) = leaf (sp_vm s) to (page_path n)"
        using G(1) pin inj [OF i(2)] unfolding copied_def by simp
      then have un': "leaf (sp_vm s') to (path (page_addr n)) AND PTE_V = 0" using un i(2) G(2) pa by simp
      have "3 \<le> card (free (pm (sp_vm s')))" using G(5) i(2) by linarith
      from copy_page_ok [OF G(3) w(1) [symmetric] w(2) i(3) un' this] obtain s'' g where
        c: "copy_page alloc release s' to (page_addr n) t (PTX (page_addr n)) = Some (None, s'')" "pair_ok inv free allocated (sp_vm s'') from to"
        "g \<in> free (pm (sp_vm s'))" "g \<notin> free (pm (sp_vm s''))" "free (pm (sp_vm s'')) \<subseteq> free (pm (sp_vm s'))"
        "card (free (pm (sp_vm s'))) \<le> card (free (pm (sp_vm s''))) + 3" "page_mem s'' = (page_mem s')(g := page_mem s' (entry_page ?w))"
        "\<forall>q \<in> paths. leaf (sp_vm s'') from q = leaf (sp_vm s') from q"
        "\<forall>q \<in> paths. leaf (sp_vm s'') to q = (if q = page_path n then pte_create (g + nbase) (PTE_V OR (?w AND PTE_USER)) else leaf (sp_vm s') to q)"
        unfolding pa by blast
      have "entry_page ?w \<notin> free (pm (sp_vm s))" using mapped_page(4) [OF pair_okD(1) [OF ok] pin w(2)] .
      from copied_step [OF G(1) pin inj [OF i(2)] sub refl w(2) this c(3,4) G(4) c(5,7-9)]
      have "copied free s s'' to from (page_path ` {ns ..< Suc n}) (G(page_path n := g))" unfolding ins [OF G(2)] .
      moreover have "3 * (ne - Suc n) \<le> card (free (pm (sp_vm s'')))" using c(6) G(5) by linarith
      moreover have "free (pm (sp_vm s'')) \<subseteq> free (pm (sp_vm s))" using c(5) G(4) by blast
      ultimately have "I (Suc n) s''" unfolding I_def using c(2) G(2) i(2) by auto
      then show ?thesis using c(1) by blast
    qed
  qed
  then show ?thesis unfolding I_def by blast
qed

section \<open>Sharing pages\<close>

lemma share_page_ok:
  assumes ok: "pair_ok inv free allocated (sp_vm s) from to" and w: "w = leaf (sp_vm s) from (path la)" "w AND PTE_V \<noteq> 0"
    and t: "node (sp_vm s) [PDX1 la, PDX0 la] from = Some t" and un: "leaf (sp_vm s) to (path la) AND PTE_V = 0"
    and mem: "3 \<le> card (free (pm (sp_vm s)))"
  shows "\<exists>s'. share_page alloc release True from s to la t (PTX la) = Some (None, s') \<and> pair_ok inv free allocated (sp_vm s') from to
    \<and> free (pm (sp_vm s')) \<subseteq> free (pm (sp_vm s)) \<and> card (free (pm (sp_vm s'))) < card (free (pm (sp_vm s)))
    \<and> card (free (pm (sp_vm s))) \<le> card (free (pm (sp_vm s'))) + 3 \<and> page_mem s' = page_mem s
    \<and> (\<forall>q \<in> paths. leaf (sp_vm s') from q = (if q = path la then cow_entry w else leaf (sp_vm s) from q))
    \<and> (\<forall>q \<in> paths. leaf (sp_vm s') to q = (if q = path la then cow_entry w else leaf (sp_vm s) to q))
    \<and> swap_init_ok s' = swap_init_ok s \<and> check_mm s' = check_mm s"
proof -
  let ?c = "swap_init_ok s" and ?p = "entry_page w" and ?perm = "(w AND PTE_USER) AND NOT PTE_W"
  from pair_take [OF ok mem, of ?c la] obtain t2 vm g m where
    g: "get_pte (alloc_pages ?c alloc) (sp_vm s) to la True = Some (Some (t2, PTX la), vm)"
    "alloc_page (alloc_pages ?c alloc) vm = Some (Some g, vm\<lparr>pm := m\<rparr>)" "pair_ok inv free allocated (vm\<lparr>pm := m\<rparr>) from to"
    "\<forall>f \<in> tables (sp_vm s) from. tab vm f = tab (sp_vm s) f" "g \<in> free (pm (sp_vm s))" "g \<notin> free m" "free m \<subseteq> free (pm (sp_vm s))"
    "card (free (pm (sp_vm s))) \<le> card (free m) + 3" "node (vm\<lparr>pm := m\<rparr>) [PDX1 la, PDX0 la] to = Some t2"
    "\<And>q. q \<in> paths \<Longrightarrow> leaf (vm\<lparr>pm := m\<rparr>) to q = leaf (sp_vm s) to q"
    "\<And>q. q \<in> paths \<Longrightarrow> leaf (vm\<lparr>pm := m\<rparr>) from q = leaf (sp_vm s) from q" "npage vm = npage (sp_vm s)" by metis
  let ?vm = "vm\<lparr>pm := m\<rparr>"
  have "t \<in> tables (sp_vm s) from" using t unfolding tables_def by (intro CollectI exI [of _ "[PDX1 la, PDX0 la]"]) (simp del: node.simps)
  then have tw: "tab vm t (PTX la) = w" using g(4) leaf_path [OF t] w(1) by simp
  have "pte2page (sp_vm s) w = Some ?p"
    using kaddr_entry(2) [OF pair_okD(1) [OF ok] _ t, of "PTX la"] leaf_path [OF t] w by simp
  then have pt: "pte2page vm w = Some ?p" using g(12) by (simp add: pte2page_def pa2page_def)
  have w1: "w = leaf ?vm from (path la)" using g(11) w(1) by simp
  have ce: "cow_entry w = pte_create (?p + nbase) (PTE_V OR ?perm)" by (simp add: cow_entry_def)
  obtain v1 where v1: "page_insert (alloc_pages ?c alloc) release ?vm from ?p la ?perm = Some (0, v1)" "pair_ok inv free allocated v1 to from"
    "\<forall>q \<in> paths. leaf v1 to q = leaf ?vm to q" "\<forall>q \<in> paths. leaf v1 from q = (if q = path la then cow_entry w else leaf ?vm from q)"
    "pm v1 = m" "npage v1 = npage ?vm"
    using pair_remap [OF pair_ok_sym [OF g(3)] w1 w(2) perm_small(2) [of w], of ?c] unfolding ce by auto
  note ok1 = pair_ok_sym [OF v1(2)]
  have l1: "leaf v1 from (path la) = cow_entry w" "leaf v1 to (path la) AND PTE_V = 0" using v1(3,4) g(10) un path_in(1) by simp_all
  have gb: "?p + nbase < 2 ^ 44"
    using mapped_page(2) [OF pair_okD(1) [OF ok] path_in(1) [of la]] w pt_okD(2) [OF pair_okD(1) [OF ok]] by simp
  have ep: "entry_page (cow_entry w) = ?p" "cow_entry w AND PTE_V \<noteq> 0"
    using pte_fields [OF gb perm_small(2)] by (simp_all add: ce entry_page_def)
  note m1 = mapped_page [OF pair_okD(1) [OF ok1] path_in(1) [of la], unfolded l1(1) ep(1), OF ep(2)]
  have tt: "\<exists>t3. node v1 [PDX1 la, PDX0 la] to = Some t3"
  proof -
    obtain t' where t': "node ?vm [PDX1 la, PDX0 la] from = Some t'"
      using w1 w(2) by (cases "node ?vm [PDX1 la, PDX0 la] from") (simp_all add: leaf_def path_def del: node.simps)
    have np: "page_insert (alloc_pages ?c alloc) release ?vm from ?p la ?perm
        = Some (0, set_entry_at t' (PTX la) (pte_create (page2ppn ?p) (PTE_V OR ?perm)) ?vm)"
    proof -
      have tw': "tab ?vm t' (PTX la) = w" using leaf_path [OF t'] w1 by simp
      have "pte2page (set_page_ref y z ?vm) w = Some ?p" for y z using pt by (simp add: pte2page_def pa2page_def set_page_ref_def)
      then show ?thesis using w(2) tw'
        by (simp add: page_insert_def get_pte_present [OF pair_okD(1) [OF g(3)] t'] Let_def set_page_ref_def set_entry_at_def)
    qed
    have tf: "t' \<in> tables ?vm from" using t' unfolding tables_def by (intro CollectI exI [of _ "[PDX1 la, PDX0 la]"]) (simp del: node.simps)
    have "\<forall>f \<in> tables ?vm to. tab v1 f = tab ?vm f"
    proof
      fix f assume "f \<in> tables ?vm to"
      then have "f \<noteq> t'" using tf pair_okD(3) [OF g(3)] by blast
      then show "tab v1 f = tab ?vm f" using np v1(1) by (auto simp: set_entry_at_def)
    qed
    from same_tables(1) [OF this, of "[PDX1 la, PDX0 la]"] g(9) show ?thesis by (simp del: node.simps)
  qed
  then obtain t3 where t3: "node v1 [PDX1 la, PDX0 la] to = Some t3" by blast
  obtain v2 where v2: "page_insert (alloc_pages ?c alloc) release v1 to ?p la ?perm = Some (0, v2)" "pair_ok inv free allocated v2 from to"
    "\<forall>q \<in> paths. leaf v2 to q = (if q = path la then cow_entry w else leaf v1 to q)" "\<forall>q \<in> paths. leaf v2 from q = leaf v1 from q" "pm v2 = pm v1"
    using pair_insert [OF ok1 m1(1,2,3) pair_okD(4) [OF ok1 path_in(1) m1(5)] perm_small(2) [of w] l1(2) t3, of ?c] unfolding ce by blast
  show ?thesis
  proof (intro exI conjI)
    show "share_page alloc release True from s to la t (PTX la) = Some (None, s\<lparr>sp_vm := v2\<rparr>)"
      using g(1,2) v1(1) v2(1) by (simp add: share_page_def tw pt Let_def bind_kassert)
    show "card (free (pm (sp_vm (s\<lparr>sp_vm := v2\<rparr>)))) < card (free (pm (sp_vm s)))"
      using g(5-7) v1(5) v2(5) free_finite [OF pt_okD(1) [OF pair_okD(1) [OF ok]]] by (auto intro!: psubset_card_mono)
  qed (use g v1 v2 in simp_all)
qed

lemma share_loop_ok:
  assumes ok: "pair_ok inv free allocated (sp_vm s) from to" and n: "ns < ne" "ne \<le> 2 ^ 19"
    and un: "\<forall>k \<in> {ns ..< ne}. leaf (sp_vm s) to (page_path k) AND PTE_V = 0" and mem: "3 * (ne - ns) + z \<le> card (free (pm (sp_vm s)))"
  shows "\<exists>s'. copy_loop (\<lambda>s la. get_pte (alloc_pages (swap_init_ok s) alloc) (sp_vm s) from la False)
       (\<lambda>s. share_page alloc release True from s to) s (page_addr ns) (page_addr ne) = Some (0, s')
    \<and> pair_ok inv free allocated (sp_vm s') from to \<and> shared free s s' to from (page_path ` {ns ..< ne}) \<and> z \<le> card (free (pm (sp_vm s')))
    \<and> swap_init_ok s' = swap_init_ok s \<and> check_mm s' = check_mm s"
proof -
  define I where "I = (\<lambda>n s'. ns \<le> n \<and> n \<le> ne \<and> pair_ok inv free allocated (sp_vm s') from to \<and> shared free s s' to from (page_path ` {ns ..< n})
    \<and> 3 * (ne - n) + z \<le> card (free (pm (sp_vm s'))) \<and> swap_init_ok s' = swap_init_ok s \<and> check_mm s' = check_mm s)"
  have new: "page_path k \<notin> page_path ` {ns ..< n}" if "n \<le> k" "k < ne" for n k
  proof
    assume "page_path k \<in> page_path ` {ns ..< n}"
    then obtain j where "j < n" "page_path k = page_path j" by auto
    then show False using inj_onD [OF page_path_inj, of k j] that \<open>ne \<le> 2 ^ 19\<close> by simp
  qed
  have pin: "page_path k \<in> paths" for k by (simp add: page_path_def paths_def)
  have sub: "page_path ` {ns ..< n} \<subseteq> paths" for n using pin by auto
  have ins: "page_path ` {ns ..< Suc n} = insert (page_path n) (page_path ` {ns ..< n})" if "ns \<le> n" for n
    using that by (simp add: atLeastLessThanSuc)
  have lf: "leaf (sp_vm s') from (page_path n) = leaf (sp_vm s) from (page_path n)" "leaf (sp_vm s') to (page_path n) = leaf (sp_vm s) to (page_path n)"
    if "I n s'" "n < ne" for n s'
    using that(1) pin new [OF order_refl that(2)] unfolding I_def shared_def by simp_all
  have "\<exists>s'. copy_loop (\<lambda>s la. get_pte (alloc_pages (swap_init_ok s) alloc) (sp_vm s) from la False)
       (\<lambda>s. share_page alloc release True from s to) s (page_addr ns) (page_addr ne) = Some (0, s') \<and> I ne s'"
  proof (rule copy_loop_rule [where I = I, OF _ _ _ n(2) _ n(1)])
    show "I ns s" unfolding I_def using ok n(1) mem by (simp add: shared_def)
    show "get_pte (alloc_pages (swap_init_ok s') alloc) (sp_vm s') from (page_addr n) False
        = Some (map_option (\<lambda>t. (t, PTX (page_addr n))) (node (sp_vm s') [PDX1 (page_addr n), PDX0 (page_addr n)] from), sp_vm s')"
      if "I n s'" for n s' using that unfolding I_def by (intro look_from) (blast dest: pair_okD(1))
    show "I (Suc n) s'" if "I n s'" "n < ne" "leaf (sp_vm s') from (page_path n) AND PTE_V = 0" for n s'
    proof -
      from that(1) have g: "ns \<le> n" "shared free s s' to from (page_path ` {ns ..< n})" unfolding I_def by blast+
      have "shared free s s' to from (page_path ` {ns ..< Suc n})"
        unfolding ins [OF g(1)] by (rule shared_skip [OF g(2)]) (use that(3) lf(1) [OF that(1,2)] in simp)
      then show ?thesis using that(1,2) unfolding I_def by auto
    qed
    show "\<exists>s''. share_page alloc release True from s' to (page_addr n) t (PTX (page_addr n)) = Some (None, s'') \<and> I (Suc n) s''"
      if i: "I n s'" "n < ne" "node (sp_vm s') [PDX1 (page_addr n), PDX0 (page_addr n)] from = Some t"
        "leaf (sp_vm s') from (page_path n) AND PTE_V \<noteq> 0" for n s' t
    proof -
      let ?w = "leaf (sp_vm s) from (page_path n)"
      have pa: "path (page_addr n) = page_path n" using i(2) n(2) by (intro path_addr) simp
      have w: "leaf (sp_vm s') from (path (page_addr n)) = ?w" "?w AND PTE_V \<noteq> 0" using lf(1) [OF i(1,2)] i(4) pa by simp_all
      from i(1) have G: "shared free s s' to from (page_path ` {ns ..< n})" "ns \<le> n" "pair_ok inv free allocated (sp_vm s') from to"
        "3 * (ne - n) + z \<le> card (free (pm (sp_vm s')))" "swap_init_ok s' = swap_init_ok s" "check_mm s' = check_mm s" unfolding I_def by blast+
      have un': "leaf (sp_vm s') to (path (page_addr n)) AND PTE_V = 0" using lf(2) [OF i(1,2)] un i(2) G(2) pa by simp
      have "3 \<le> card (free (pm (sp_vm s')))" using G(4) i(2) by linarith
      from share_page_ok [OF G(3) w(1) [symmetric] w(2) i(3) un' this] obtain s'' where
        c: "share_page alloc release True from s' to (page_addr n) t (PTX (page_addr n)) = Some (None, s'')" "pair_ok inv free allocated (sp_vm s'') from to"
        "card (free (pm (sp_vm s''))) < card (free (pm (sp_vm s')))"
        "card (free (pm (sp_vm s'))) \<le> card (free (pm (sp_vm s''))) + 3" "page_mem s'' = page_mem s'"
        "\<forall>q \<in> paths. leaf (sp_vm s'') from q = (if q = page_path n then cow_entry ?w else leaf (sp_vm s') from q)"
        "\<forall>q \<in> paths. leaf (sp_vm s'') to q = (if q = page_path n then cow_entry ?w else leaf (sp_vm s') to q)"
        "swap_init_ok s'' = swap_init_ok s'" "check_mm s'' = check_mm s'"
        unfolding pa by blast
      from shared_step [OF G(1) pin new [OF order_refl i(2)] sub w(2) c(3,5-7)]
      have "shared free s s'' to from (page_path ` {ns ..< Suc n})" unfolding ins [OF G(2)] .
      moreover have "3 * (ne - Suc n) + z \<le> card (free (pm (sp_vm s'')))" using c(4) G(4) i(2) by linarith
      ultimately have "I (Suc n) s''" unfolding I_def using c(2,8,9) G(2,5,6) i(2) by auto
      then show ?thesis using c(1) by blast
    qed
  qed
  then obtain s' where e: "copy_loop (\<lambda>s la. get_pte (alloc_pages (swap_init_ok s) alloc) (sp_vm s) from la False)
       (\<lambda>s. share_page alloc release True from s to) s (page_addr ns) (page_addr ne) = Some (0, s')" "I ne s'" by blast
  from e(2) show ?thesis unfolding I_def by (intro exI [of _ s']) (simp add: e(1))
qed

text \<open>A write to a page that another address space maps as well.\<close>

lemma cow_fault_ok:
  assumes mm: "mm_ok mm vs" and ok: "pair_ok inv free allocated (sp_vm s) a b" and x: "x \<in> set vs" "covers mm addr x"
    and w: "w = leaf (sp_vm s) b (path (ROUNDDOWN addr PGSIZE))" "w AND PTE_V \<noteq> 0" "1 < refs (sp_vm s) (entry_page w)"
    and run: "swap_init_ok s" "\<not> check_mm s" and mem: "1 \<le> card (free (pm (sp_vm s)))"
  shows "\<exists>mm' s' g. do_pgfault_cow alloc release (Some mm) s b addr = Some (0, Some mm', s') \<and> mm_ok mm' vs
    \<and> pair_ok inv free allocated (sp_vm s') a b \<and> g \<in> free (pm (sp_vm s)) \<and> page_mem s' = (page_mem s)(g := page_mem s (entry_page w))
    \<and> (\<forall>q \<in> paths. leaf (sp_vm s') a q = leaf (sp_vm s) a q)
    \<and> (\<forall>q \<in> paths. leaf (sp_vm s') b q = (if q = path (ROUNDDOWN addr PGSIZE)
         then pte_create (g + nbase) (PTE_V OR area_perm (vm_flags (vmas mm x))) else leaf (sp_vm s) b q))
    \<and> refs (sp_vm s') (entry_page w) = refs (sp_vm s) (entry_page w) - 1"
proof -
  let ?la = "ROUNDDOWN addr PGSIZE" and ?vm = "sp_vm s" and ?p = "entry_page w" and ?al = "alloc_pages (swap_init_ok s) alloc"
  note okb = pair_okD(2) [OF ok]
  from find_vma_ok [OF mm] x obtain y c where y: "find_vma mm addr = Some (y, mm\<lparr>mmap_cache := c\<rparr>)" "y \<in> set vs" "covers mm addr y" "y \<noteq> 0"
    "mm_ok (mm\<lparr>mmap_cache := c\<rparr>) vs" by blast
  have yx: "y = x" by (rule covers_unique [OF mm y(2,3) x])
  then have nf: "\<not> (y = 0 \<or> vm_start (vmas (mm\<lparr>mmap_cache := c\<rparr>) y) > addr)" using y by (auto simp: covers_def)
  have v: "leaf ?vm b (path ?la) AND PTE_V \<noteq> 0" using w by simp
  note m = mapped_page [OF okb path_in(1) v, folded w(1)]
  obtain t where t: "node ?vm [PDX1 ?la, PDX0 ?la] b = Some t"
    using v by (cases "node ?vm [PDX1 ?la, PDX0 ?la] b") (simp_all add: leaf_def path_def del: node.simps)
  have tw: "tab ?vm t (PTX ?la) = w" using leaf_path [OF t] w(1) by simp
  have z: "w \<noteq> 0" using w(2) by auto
  have pt: "pte2page ?vm w = Some ?p" using kaddr_entry(2) [OF okb _ t, of "PTX ?la"] tw w(2) by simp
  have ne: "free (pm ?vm) \<noteq> {}" using mem by auto
  obtain g n where al: "alloc_page alloc ?vm = Some (Some g, ?vm\<lparr>pm := n\<rparr>)" "inv n" "g \<in> free (pm ?vm)" "free n = free (pm ?vm) - {g}"
      "allocated n = insert g (allocated (pm ?vm))"
    using alloc_page_cases [OF pt_okD(1) [OF okb]] ne by metis
  let ?vm1 = "?vm\<lparr>pm := n\<rparr>"
  have same: "node ?vm1 q r = node ?vm q r" "leaf ?vm1 r q = leaf ?vm r q" for q r by (rule same_tab, simp)+
  have tb: "tables ?vm1 r = tables ?vm r" "mappings ?vm1 r u = mappings ?vm r u" for r u by (simp_all add: tables_def mappings_def same)
  have ok1: "pair_ok inv free allocated ?vm1 a b" by (rule pair_alloc [OF ok al(2-5)])
  have nn: "node ?vm q r \<noteq> Some g" if "pt_ok inv free allocated ?vm r" "length q \<le> 3" for q r by (rule free_not_node [OF that(1) al(3) that(2)])
  have gt: "g \<notin> tables ?vm1 a" "g \<notin> tables ?vm1 b" "mappings ?vm1 b g = {}"
    using nn [OF pair_okD(1) [OF ok]] nn [OF okb] unfolding tb by (auto simp: tables_def mappings_def paths_def)
  have gm: "g \<in> allocated (pm ?vm1)" "g + nbase < npage ?vm1" using al(5) pt_okD(3) [OF okb al(3)] by simp_all
  have w1: "w = leaf ?vm1 b (path ?la)" "1 < refs ?vm1 ?p" using w by (simp_all add: same)
  let ?perm = "area_perm (vm_flags (vmas mm x))"
  have pe: "unat (PTE_V OR ?perm) < 2 ^ 10" by (simp add: area_perm_def PTE_V_def PTE_U_def READ_WRITE_def PTE_R_def PTE_W_def)
  obtain v2 where v2: "page_insert ?al release ?vm1 b g ?la ?perm = Some (0, v2)" "pair_ok inv free allocated v2 a b"
    "\<forall>q \<in> paths. leaf v2 a q = leaf ?vm1 a q" "\<forall>q \<in> paths. leaf v2 b q = (if q = path ?la then pte_create (g + nbase) (PTE_V OR ?perm) else leaf ?vm1 b q)"
    "refs v2 = (refs ?vm1)(g := refs ?vm1 g + 1, ?p := refs ?vm1 ?p - 1)"
    using pair_replace [OF ok1 w1(1) w(2) w1(2) gm gt pe, of "swap_init_ok s"] by blast
  have pa: "pgdir_alloc_swappable alloc release s b ?la ?perm = Some (Some g, s\<lparr>sp_vm := v2\<rparr>)"
    using run v2(1) by (simp add: pgdir_alloc_swappable_def pgdir_alloc_page_def alloc_page_eq al(1) Let_def)
  define s' where "s' = (swap_map_swappable (s\<lparr>sp_vm := v2, page_mem := (page_mem s)(g := page_mem s ?p)\<rparr>) ?p)\<lparr>pra_vaddr := (pra_vaddr s)(?p := ?la)\<rparr>"
  have "do_pgfault_cow alloc release (Some mm) s b addr = Some (0, Some (mm\<lparr>mmap_cache := c\<rparr>), s')"
    using y(1) nf get_pte_present [OF okb t] tw z w(2,3) pt pa run yx
    by (simp add: do_pgfault_cow_def Let_def swap_map_swappable_def s'_def bind_kassert)
  moreover have "sp_vm s' = v2" "page_mem s' = (page_mem s)(g := page_mem s ?p)" by (simp_all add: s'_def swap_map_swappable_def)
  ultimately show ?thesis using y(5) v2 al(3) same
    by (intro exI [of _ "mm\<lparr>mmap_cache := c\<rparr>"] exI [of _ s'] exI [of _ g]) simp
qed

end

section \<open>Fork\<close>

text \<open>C37: \<open>copy_range\<close> gives a new process its own copy of its parent's pages. On two well-formed address spaces, for a range in user space in
  which the child maps nothing, and with three free pages for each page of the range, it returns 0. Then the child maps exactly
  the addresses of the range that the parent maps, with the parent's permissions; each of them has a page of its own, that was free
  and holds byte for byte what the parent's page holds. The parent's entries, the child's entries outside the range and the
  contents of every page that was in use are as before, and the pair of address spaces stays well formed: no page is a table of
  both.\<close>

theorem copy_range_copies:
  assumes ok: "pair_ok pmm_inv free_pages_of allocated_pages (sp_vm s) from to"
    and r: "start mod PGSIZE = 0" "end_a mod PGSIZE = 0" "USER_ACCESS start end_a" "N = path ` {start ..< end_a}"
    and un: "\<And>q. q \<in> N \<Longrightarrow> leaf (sp_vm s) to q AND PTE_V = 0"
    and mem: "3 * (unat end_a div 4096 - unat start div 4096) \<le> card (free_pages_of (pm (sp_vm s)))"
    and p: "parent = leaf (sp_vm s) from"
  shows "\<exists>s' G. copy_range default_alloc_pages default_free_pages s to from start end_a = Some (0, s')
    \<and> pair_ok pmm_inv free_pages_of allocated_pages (sp_vm s') from to
    \<and> (\<forall>q \<in> paths. leaf (sp_vm s') from q = parent q)
    \<and> (\<forall>q \<in> paths. leaf (sp_vm s') to q = (if q \<in> N \<and> parent q AND PTE_V \<noteq> 0
         then pte_create (G q + nbase) (PTE_V OR (parent q AND PTE_USER)) else leaf (sp_vm s) to q))
    \<and> (\<forall>q \<in> N. parent q AND PTE_V \<noteq> 0 \<longrightarrow> G q \<in> free_pages_of (pm (sp_vm s)) \<and> G q \<notin> free_pages_of (pm (sp_vm s'))
         \<and> page_mem s' (G q) = page_mem s (entry_page (parent q)))
    \<and> inj_on G {q \<in> N. parent q AND PTE_V \<noteq> 0}
    \<and> (\<forall>x. x \<notin> free_pages_of (pm (sp_vm s)) \<longrightarrow> page_mem s' x = page_mem s x)"
proof -
  note rp = range_paths [OF r(1-3)]
  have un': "\<forall>k \<in> {unat start div 4096 ..< unat end_a div 4096}. leaf (sp_vm s) to (page_path k) AND PTE_V = 0"
    using un unfolding r(4) rp(1) by blast
  from fs.copy_loop_ok [OF ok rp(2,3) un' mem] obtain s' G where
    "copy_range default_alloc_pages default_free_pages s to from start end_a = Some (0, s')"
    "pair_ok pmm_inv free_pages_of allocated_pages (sp_vm s') from to" "copied free_pages_of s s' to from N G"
    using r by (auto simp: copy_range_def bind_kassert rp)
  then show ?thesis unfolding copied_def p by (intro exI [of _ s'] exI [of _ G]) blast
qed

text \<open>C38: Copy on write separates parent and child. Two well-formed address spaces, a range in user space in which the child maps nothing,
  more than three free pages for each page of the range, and swapping on in a running kernel. After \<open>copy_range\<close> of
  \<open>src/lab5_with_COW\<close> with \<open>share\<close>, both map the parent's page
  at an address of the range, without the permission to write, and no contents have changed. When the child then writes there, \<open>do_pgfault\<close>
  gives it a page of its own, which was free and holds what the shared page holds, with the permissions of the area, while
  every entry of the parent and the contents of the parent's page stay as they are. But sharing loses memory: \<open>copy_range\<close>
  allocates a page for each page it shares, and nobody gets it.\<close>

theorem cow_isolates:
  assumes ok: "pair_ok pmm_inv free_pages_of allocated_pages (sp_vm s) from to"
    and r: "start mod PGSIZE = 0" "end_a mod PGSIZE = 0" "USER_ACCESS start end_a" "N = path ` {start ..< end_a}"
    and un: "\<And>q. q \<in> N \<Longrightarrow> leaf (sp_vm s) to q AND PTE_V = 0"
    and mem: "3 * (unat end_a div 4096 - unat start div 4096) < card (free_pages_of (pm (sp_vm s)))"
    and run: "swap_init_ok s" "\<not> check_mm s"
    and mm: "mm_ok mm vs" "v \<in> set vs" "covers mm addr v"
    and w: "start \<le> addr" "addr < end_a" "w = leaf (sp_vm s) from (path addr)" "w AND PTE_V \<noteq> 0"
  shows "\<exists>s1 mm' s2 g. copy_range_cow default_alloc_pages default_free_pages s to from start end_a True = Some (0, s1)
    \<and> page_mem s1 = page_mem s \<and> leaf (sp_vm s1) from (path addr) = cow_entry w \<and> leaf (sp_vm s1) to (path addr) = cow_entry w
    \<and> entry_page (cow_entry w) = entry_page w \<and> cow_entry w AND PTE_W = 0
    \<and> card (free_pages_of (pm (sp_vm s1))) + card {q \<in> N. leaf (sp_vm s) from q AND PTE_V \<noteq> 0} \<le> card (free_pages_of (pm (sp_vm s)))
    \<and> do_pgfault_cow default_alloc_pages default_free_pages (Some mm) s1 to addr = Some (0, Some mm', s2)
    \<and> pair_ok pmm_inv free_pages_of allocated_pages (sp_vm s2) from to
    \<and> g \<in> free_pages_of (pm (sp_vm s1)) \<and> leaf (sp_vm s2) to (path addr) = pte_create (g + nbase) (PTE_V OR area_perm (vm_flags (vmas mm v)))
    \<and> page_mem s2 = (page_mem s)(g := page_mem s (entry_page w)) \<and> g \<noteq> entry_page w
    \<and> (\<forall>q \<in> paths. leaf (sp_vm s2) from q = leaf (sp_vm s1) from q)"
proof -
  note rp = range_paths [OF r(1-3)]
  have un': "\<forall>k \<in> {unat start div 4096 ..< unat end_a div 4096}. leaf (sp_vm s) to (page_path k) AND PTE_V = 0"
    using un unfolding r(4) rp(1) by blast
  have mem1: "3 * (unat end_a div 4096 - unat start div 4096) + 1 \<le> card (free_pages_of (pm (sp_vm s)))" using mem by simp
  from fs.share_loop_ok [OF ok rp(2,3) un' mem1] obtain s1 where s1:
    "copy_range_cow default_alloc_pages default_free_pages s to from start end_a True = Some (0, s1)"
    "pair_ok pmm_inv free_pages_of allocated_pages (sp_vm s1) from to" "shared free_pages_of s s1 to from N"
    "1 \<le> card (free_pages_of (pm (sp_vm s1)))" "swap_init_ok s1 = swap_init_ok s" "check_mm s1 = check_mm s"
    using r by (auto simp: copy_range_cow_def bind_kassert rp)
  have aN: "path addr \<in> N" "path addr \<in> paths" using w(1,2) r(4) by auto
  have l1: "leaf (sp_vm s1) from (path addr) = cow_entry w" "leaf (sp_vm s1) to (path addr) = cow_entry w" "page_mem s1 = page_mem s"
    "card (free_pages_of (pm (sp_vm s1))) + card {q \<in> N. leaf (sp_vm s) from q AND PTE_V \<noteq> 0} \<le> card (free_pages_of (pm (sp_vm s)))"
    using s1(3) aN w(3,4) unfolding shared_def by auto
  note m = fs.mapped_page [OF pair_okD(1) [OF ok] aN(2), folded w(3), OF w(4)]
  have gb: "entry_page w + nbase < 2 ^ 44" using m(2) pt_okD(2) [OF pair_okD(1) [OF ok]] by linarith
  have ce: "entry_page (cow_entry w) = entry_page w" "cow_entry w AND PTE_V \<noteq> 0"
    using pte_fields [OF gb fs.perm_small(2)] by (simp_all add: cow_entry_def entry_page_def)
  have cw: "cow_entry w AND PTE_W = 0"
  proof -
    have e: "PTE_W = push_bit 2 (1 :: pte)" by (simp add: PTE_W_def)
    have "n = 2" if "bit PTE_W n" for n using that unfolding e bit_push_bit_iff bit_1_iff by auto
    moreover have "\<not> bit (cow_entry w) 2" by (simp add: cow_entry_def pte_create_def PTE_V_def PTE_W_def bit_simps)
    ultimately show ?thesis by (intro bit_word_eqI) (auto simp: bit_and_iff)
  qed
  have n1: "node (sp_vm s1) (path addr) from = Some (entry_page w)" "node (sp_vm s1) (path addr) to = Some (entry_page w)"
    using fs.node_leaf [OF aN(2), of "sp_vm s1"] l1(1,2) ce by simp_all
  have two: "1 < refs (sp_vm s1) (entry_page w)"
  proof -
    have "path addr \<in> mappings (sp_vm s1) from (entry_page w)" "path addr \<in> mappings (sp_vm s1) to (entry_page w)"
      using n1 aN(2) by (simp_all add: mappings_def)
    moreover have "finite (mappings (sp_vm s1) x (entry_page w))" for x by (rule finite_subset [OF _ paths_finite]) (auto simp: mappings_def)
    ultimately have "0 < card (mappings (sp_vm s1) from (entry_page w))" "0 < card (mappings (sp_vm s1) to (entry_page w))"
      by (auto simp: card_gt_0_iff)
    then show ?thesis using pair_okD(6) [OF s1(2), of "entry_page w"] by linarith
  qed
  have cw1: "cow_entry w = leaf (sp_vm s1) to (path (ROUNDDOWN addr PGSIZE))" "1 < refs (sp_vm s1) (entry_page (cow_entry w))"
    using l1(2) two ce(1) by (simp_all add: path_rounddown)
  obtain mm' s2 g where f: "do_pgfault_cow default_alloc_pages default_free_pages (Some mm) s1 to addr = Some (0, Some mm', s2)"
    "pair_ok pmm_inv free_pages_of allocated_pages (sp_vm s2) from to" "g \<in> free_pages_of (pm (sp_vm s1))"
    "page_mem s2 = (page_mem s1)(g := page_mem s1 (entry_page w))" "\<forall>q \<in> paths. leaf (sp_vm s2) from q = leaf (sp_vm s1) from q"
    "leaf (sp_vm s2) to (path addr) = pte_create (g + nbase) (PTE_V OR area_perm (vm_flags (vmas mm v)))"
    using fs.cow_fault_ok [OF mm(1) s1(2) mm(2,3) cw1(1) ce(2) cw1(2) _ _ s1(4)] s1(5,6) run aN(2) by (auto simp: ce(1) path_rounddown)
  have "entry_page w \<notin> free_pages_of (pm (sp_vm s1))"
    using fs.mapped_page(4) [OF pair_okD(1) [OF s1(2)] aN(2)] l1(1) ce by simp
  then have "g \<noteq> entry_page w" using f(3) by auto
  then show ?thesis using s1(1) l1 ce(1) cw f
    by (intro exI [of _ s1] exI [of _ mm'] exI [of _ s2] exI [of _ g]) simp
qed

section \<open>Two processes\<close>

text \<open>Pages 10 and 11 are the roots; the first address space maps a page at \<open>0x800000\<close>.\<close>

lemma demo_pair:
  obtains vm :: "pmm vm" where "pair_ok pmm_inv free_pages_of allocated_pages vm 10 11" "leaf vm 10 (path 0x800000) AND PTE_V \<noteq> 0"
    "\<And>q. q \<in> paths \<Longrightarrow> leaf vm 11 q = 0" "11 \<le> card (free_pages_of (pm vm))"
proof (rule demo_space)
  fix s :: "pmm vm"
  assume s: "pt_ok pmm_inv free_pages_of allocated_pages s 10" "11 \<in> allocated_pages (pm s)" "free_pages_of (pm s) = {12..<26}" "tab s = (\<lambda>_ _. 0)"
    "refs s 11 = 0"
  have n: "node s q r = (if q = [] then Some r else None)" for q r by (cases q) (simp_all add: child_def s(4))
  have mp: "mappings s r x = {}" for r x by (auto simp: mappings_def n paths_def)
  have tb: "tables s r = {r}" for r by (auto simp: tables_def n)
  have "10 \<in> allocated_pages (pm s)" using pt_okD(6) [OF s(1), of "[]" 10] by simp
  have z: "(0 :: pte) AND PTE_V = 0" by simp
  have r0: "0 \<le> refs s x" for x using pt_okD(8) [OF s(1), of x] by (simp add: mp)
  have i1: "pmm_inv (pm s)" "npage s \<le> 2 ^ 44" "\<forall>p \<in> free_pages_of (pm s). p + nbase < npage s" using pt_okD(1-3) [OF s(1)] by auto
  have p11: "pt_ok pmm_inv free_pages_of allocated_pages s 11"
    unfolding pt_ok_def mp n s(4) using i1 s(2) r0 by simp
  have ok: "pair_ok pmm_inv free_pages_of allocated_pages s 11 10"
    unfolding pair_ok_def mp tb n using s(1) p11 r0 by (simp add: paths_def)
  have "3 \<le> card (free_pages_of (pm s))" by (simp add: s(3))
  from fs.pair_take [OF ok this, of False "0x800000"] obtain t2 vm g m where g: "pair_ok pmm_inv free_pages_of allocated_pages (vm\<lparr>pm := m\<rparr>) 11 10"
    "card (free_pages_of (pm s)) \<le> card (free_pages_of m) + 3" "g \<in> allocated_pages m" "g + nbase < npage vm"
    "g \<notin> tables (vm\<lparr>pm := m\<rparr>) 11" "g \<notin> tables (vm\<lparr>pm := m\<rparr>) 10" "node (vm\<lparr>pm := m\<rparr>) [PDX1 0x800000, PDX0 0x800000] 10 = Some t2"
    "\<And>q. q \<in> paths \<Longrightarrow> leaf (vm\<lparr>pm := m\<rparr>) 10 q = leaf s 10 q" "\<And>q. q \<in> paths \<Longrightarrow> leaf (vm\<lparr>pm := m\<rparr>) 11 q = leaf s 11 q" by metis
  have lz: "leaf s r q = 0" for r q by (simp add: leaf_def s(4) split: option.splits)
  have u: "leaf (vm\<lparr>pm := m\<rparr>) 10 (path 0x800000) AND PTE_V = 0" using g(8) [OF path_in(1)] lz by simp
  have gm: "g \<in> allocated_pages (pm (vm\<lparr>pm := m\<rparr>))" "g + nbase < npage (vm\<lparr>pm := m\<rparr>)" using g(3,4) by simp_all
  have pe: "unat (PTE_V OR 0x16 :: pte) < 2 ^ 10" by (simp add: PTE_V_def)
  from fs.pair_insert [OF g(1) gm g(5,6) pe u g(7), of False] obtain v where
    v: "pair_ok pmm_inv free_pages_of allocated_pages v 11 10" "leaf v 10 (path 0x800000) = pte_create (g + nbase) (PTE_V OR 0x16)"
    "\<forall>q \<in> paths. leaf v 11 q = leaf (vm\<lparr>pm := m\<rparr>) 11 q" "pm v = m" using path_in(1) by fastforce
  have "g + nbase < 2 ^ 44" using gm(2) pt_okD(2) [OF pair_okD(1) [OF g(1)]] by simp
  from pte_fields(2) [OF this pe] v(2) have l: "leaf v 10 (path 0x800000) AND PTE_V \<noteq> 0" by simp
  show thesis
  proof (rule that [OF pair_ok_sym [OF v(1)] l])
    show "leaf v 11 q = 0" if "q \<in> paths" for q using v(3) g(9) [OF that] lz that by simp
    show "11 \<le> card (free_pages_of (pm v))" using g(2) v(4) by (simp add: s(3))
  qed
qed

definition fork_mm :: mm where
  "fork_mm = fault_mm\<lparr>vmas := (vmas fault_mm)(10 := \<lparr>vm_start = 0x800000, vm_end = 0x801000, vm_flags = 3\<rparr>)\<rparr>"

lemma fork_mm_ok: "mm_ok fork_mm [10]" "covers fork_mm 0x800010 10"
  by (simp_all add: mm_ok_def fork_mm_def fault_mm_def dlist_def before_def covers_def)

lemma fork_range: "(0x800000 :: addr) mod PGSIZE = 0" "(0x801000 :: addr) mod PGSIZE = 0" "USER_ACCESS 0x800000 0x801000"
  by (simp_all add: PGSIZE_def USER_ACCESS_def USERBASE_def USERTOP_def)

theorem copy_range_copies_witness:
  "\<exists>(s :: pmm space) s'. copy_range default_alloc_pages default_free_pages s 11 10 0x800000 0x801000 = Some (0, s')
    \<and> leaf (sp_vm s) 10 (path 0x800000) AND PTE_V \<noteq> 0
    \<and> page_mem s' (entry_page (leaf (sp_vm s') 11 (path 0x800000))) = page_mem s (entry_page (leaf (sp_vm s) 10 (path 0x800000)))"
proof (rule demo_pair)
  fix vm :: "pmm vm"
  assume vm: "pair_ok pmm_inv free_pages_of allocated_pages vm 10 11" "leaf vm 10 (path 0x800000) AND PTE_V \<noteq> 0"
    "\<And>q. q \<in> paths \<Longrightarrow> leaf vm 11 q = 0" "11 \<le> card (free_pages_of (pm vm))"
  let ?s = "fault_space vm" and ?q = "path 0x800000"
  have sv: "sp_vm ?s = vm" by (simp add: fault_space_def)
  have ok: "pair_ok pmm_inv free_pages_of allocated_pages (sp_vm ?s) 10 11" using vm(1) by (simp only: sv)
  have u: "leaf (sp_vm ?s) 11 q AND PTE_V = 0" if "q \<in> path ` {0x800000 ..< 0x801000}" for q using vm(3) that by (auto simp: sv)
  have m: "3 * (unat (0x801000 :: addr) div 4096 - unat (0x800000 :: addr) div 4096) \<le> card (free_pages_of (pm (sp_vm ?s)))" using vm(4) by (simp add: sv)
  from copy_range_copies [where start = "0x800000" and end_a = "0x801000"
      and N = "path ` {0x800000 ..< 0x801000}" and parent = "leaf (sp_vm ?s) 10", OF ok fork_range refl u m refl] obtain s' G where
    s': "copy_range default_alloc_pages default_free_pages ?s 11 10 0x800000 0x801000 = Some (0, s')"
    "\<forall>q \<in> paths. leaf (sp_vm s') 11 q = (if q \<in> path ` {0x800000 ..< 0x801000} \<and> leaf (sp_vm ?s) 10 q AND PTE_V \<noteq> 0
         then pte_create (G q + nbase) (PTE_V OR (leaf (sp_vm ?s) 10 q AND PTE_USER)) else leaf (sp_vm ?s) 11 q)"
    "\<forall>q \<in> path ` {0x800000 ..< 0x801000}. leaf (sp_vm ?s) 10 q AND PTE_V \<noteq> 0 \<longrightarrow> G q \<in> free_pages_of (pm (sp_vm ?s)) \<and> G q \<notin> free_pages_of (pm (sp_vm s'))
         \<and> page_mem s' (G q) = page_mem ?s (entry_page (leaf (sp_vm ?s) 10 q))" by blast
  have qN: "?q \<in> path ` {0x800000 ..< 0x801000}" by (rule imageI) simp
  have gq: "G ?q \<in> free_pages_of (pm vm)" "page_mem s' (G ?q) = page_mem ?s (entry_page (leaf vm 10 ?q))"
    using bspec [OF s'(3) qN] vm(2) by (simp_all add: sv)
  have "G ?q + nbase < 2 ^ 44" using pt_okD(3) [OF pair_okD(1) [OF vm(1)] gq(1)] pt_okD(2) [OF pair_okD(1) [OF vm(1)]] by linarith
  from pte_fields(1) [OF this fs.perm_small(1)] have "entry_page (leaf (sp_vm s') 11 ?q) = G ?q"
    using bspec [OF s'(2) path_in(1)] qN vm(2) by (simp add: sv entry_page_def)
  then show ?thesis using s'(1) gq(2) vm(2) by (intro exI [of _ ?s] exI [of _ s']) (simp add: sv)
qed

theorem cow_isolates_witness:
  "\<exists>(s :: pmm space) s1 mm' s2 g. copy_range_cow default_alloc_pages default_free_pages s 11 10 0x800000 0x801000 True = Some (0, s1)
    \<and> do_pgfault_cow default_alloc_pages default_free_pages (Some fork_mm) s1 11 0x800010 = Some (0, Some mm', s2)
    \<and> g \<noteq> entry_page (leaf (sp_vm s) 10 (path 0x800010)) \<and> page_mem s2 g = page_mem s (entry_page (leaf (sp_vm s) 10 (path 0x800010)))"
proof (rule demo_pair)
  fix vm :: "pmm vm"
  assume vm: "pair_ok pmm_inv free_pages_of allocated_pages vm 10 11" "leaf vm 10 (path 0x800000) AND PTE_V \<noteq> 0"
    "\<And>q. q \<in> paths \<Longrightarrow> leaf vm 11 q = 0" "11 \<le> card (free_pages_of (pm vm))"
  let ?s = "fault_space vm"
  have sv: "sp_vm ?s = vm" and run: "swap_init_ok ?s" "\<not> check_mm ?s" by (simp_all add: fault_space_def)
  have ok: "pair_ok pmm_inv free_pages_of allocated_pages (sp_vm ?s) 10 11" using vm(1) by (simp only: sv)
  have u: "leaf (sp_vm ?s) 11 q AND PTE_V = 0" if "q \<in> path ` {0x800000 ..< 0x801000}" for q using vm(3) that by (auto simp: sv)
  have m: "3 * (unat (0x801000 :: addr) div 4096 - unat (0x800000 :: addr) div 4096) < card (free_pages_of (pm (sp_vm ?s)))" using vm(4) by (simp add: sv)
  have "path 0x800010 = path 0x800000" by (simp add: path_page)
  then have w: "leaf (sp_vm ?s) 10 (path 0x800010) AND PTE_V \<noteq> 0" using vm(2) by (simp add: sv)
  have a: "(0x800000 :: addr) \<le> 0x800010" "(0x800010 :: addr) < 0x801000" "10 \<in> set [10 :: nat]" by simp_all
  from cow_isolates [where start = "0x800000" and end_a = "0x801000"
      and N = "path ` {0x800000 ..< 0x801000}" and mm = fork_mm and vs = "[10]" and v = 10 and addr = "0x800010" and w = "leaf (sp_vm ?s) 10 (path 0x800010)",
      OF ok fork_range refl u m run fork_mm_ok(1) a(3) fork_mm_ok(2) a(1,2) refl w] obtain s1 mm' s2 g where
    "copy_range_cow default_alloc_pages default_free_pages ?s 11 10 0x800000 0x801000 True = Some (0, s1)"
    "do_pgfault_cow default_alloc_pages default_free_pages (Some fork_mm) s1 11 0x800010 = Some (0, Some mm', s2)"
    "page_mem s2 = (page_mem ?s)(g := page_mem ?s (entry_page (leaf (sp_vm ?s) 10 (path 0x800010))))"
    "g \<noteq> entry_page (leaf (sp_vm ?s) 10 (path 0x800010))" by blast
  then show ?thesis by (intro exI [of _ ?s] exI [of _ s1] exI [of _ mm'] exI [of _ s2] exI [of _ g]) simp
qed

end
