(* ===== verification/Unmap.thy ===== *)
theory Unmap
  imports PageMap PageWalk
begin

text \<open>
  Taking an address space down: what \<open>unmap_range\<close> of \<open>kern/mm/pmm.c\<close> does to the pages of a range.
\<close>

section \<open>unmap_range\<close>

text \<open>What removing the mappings of \<open>N\<close> leaves.\<close>

definition unmapped :: "('s \<Rightarrow> nat set) \<Rightarrow> 's vm \<Rightarrow> 's vm \<Rightarrow> nat \<Rightarrow> nat list set \<Rightarrow> bool" where
  "unmapped free s s' pgdir N \<longleftrightarrow>
     (\<forall>q \<in> paths. leaf s' pgdir q = (if q \<in> N \<and> leaf s pgdir q AND PTE_V \<noteq> 0 then 0 else leaf s pgdir q))
     \<and> (\<forall>x. refs s' x = refs s x - int (card (mappings s pgdir x \<inter> N)))
     \<and> free (pm s') = free (pm s) \<union> {x. mappings s pgdir x \<inter> N \<noteq> {} \<and> refs s x = int (card (mappings s pgdir x \<inter> N))}"

lemma unmapped_skip:
  "unmapped free s s' pgdir N \<Longrightarrow> q \<in> paths \<Longrightarrow> (\<And>x. node s q pgdir \<noteq> Some x) \<Longrightarrow> leaf s pgdir q AND PTE_V = 0 \<Longrightarrow> unmapped free s s' pgdir (insert q N)"
proof -
  assume a: "unmapped free s s' pgdir N" "q \<in> paths" "\<And>x. node s q pgdir \<noteq> Some x" "leaf s pgdir q AND PTE_V = 0"
  have "mappings s pgdir x \<inter> insert q N = mappings s pgdir x \<inter> N" for x using a(3) by (auto simp: mappings_def)
  then show ?thesis using a(1,4) unfolding unmapped_def by auto
qed

lemma unmapped_step:
  assumes u: "unmapped free s s1 pgdir N" and q: "q \<in> paths" "q \<notin> N" "leaf s pgdir q AND PTE_V \<noteq> 0" "node s q pgdir = Some g"
    and l: "\<forall>p \<in> paths. leaf s2 pgdir p = (if p = q then 0 else leaf s1 pgdir p)" and r: "refs s2 = (refs s1)(g := refs s1 g - 1)"
    and f: "free (pm s2) = (if refs s1 g = 1 then insert g (free (pm s1)) else free (pm s1))"
    and cm: "int (card (mappings s pgdir g)) \<le> refs s g"
  shows "unmapped free s s2 pgdir (insert q N)"
proof -
  have m: "mappings s pgdir x \<inter> insert q N = (if x = g then insert q (mappings s pgdir x \<inter> N) else mappings s pgdir x \<inter> N)" for x
    using q(1,4) by (auto simp: mappings_def)
  have fin: "finite (mappings s pgdir x \<inter> N)" for x by (rule finite_subset [OF _ paths_finite]) (auto simp: mappings_def)
  have c: "card (mappings s pgdir x \<inter> insert q N) = card (mappings s pgdir x \<inter> N) + (if x = g then 1 else 0)" for x
    unfolding m using q(2) fin by simp
  show ?thesis
    unfolding unmapped_def
  proof (intro conjI)
    show "\<forall>p \<in> paths. leaf s2 pgdir p = (if p \<in> insert q N \<and> leaf s pgdir p AND PTE_V \<noteq> 0 then 0 else leaf s pgdir p)"
      using u l q(3) unfolding unmapped_def by simp
    show "\<forall>x. refs s2 x = refs s x - int (card (mappings s pgdir x \<inter> insert q N))"
      using u r unfolding unmapped_def c by simp
    have z: "x \<in> free (pm s2) \<longleftrightarrow> x \<in> free (pm s) \<union> {x. mappings s pgdir x \<inter> insert q N \<noteq> {} \<and> refs s x = int (card (mappings s pgdir x \<inter> insert q N))}" for x
    proof (cases "x = g")
      case True
      have rg: "refs s1 g = refs s g - int (card (mappings s pgdir g \<inter> N))" using u unfolding unmapped_def by blast
      have "g \<in> free (pm s1) \<longleftrightarrow> g \<in> free (pm s) \<or> mappings s pgdir g \<inter> N \<noteq> {} \<and> refs s g = int (card (mappings s pgdir g \<inter> N))"
        using u unfolding unmapped_def by blast
      moreover have "int (card (mappings s pgdir g \<inter> N)) < refs s g"
      proof -
        have "q \<in> mappings s pgdir g" using q(1,4) by (simp add: mappings_def)
        then have "card (mappings s pgdir g \<inter> N) < card (mappings s pgdir g)"
          using q(2) by (intro psubset_card_mono) (auto intro: finite_subset [OF _ paths_finite] simp: mappings_def)
        then show ?thesis using cm by simp
      qed
      moreover have "int (card (mappings s pgdir g \<inter> insert q N)) = int (card (mappings s pgdir g \<inter> N)) + 1" by (simp add: c)
      moreover have "mappings s pgdir g \<inter> insert q N \<noteq> {}" using m [of g] by auto
      moreover have "g \<in> free (pm s2) \<longleftrightarrow> refs s1 g = 1 \<or> g \<in> free (pm s1)" unfolding f by auto
      ultimately show ?thesis using True rg by auto
    next
      case False
      then show ?thesis using u f m [of x] unfolding unmapped_def by auto
    qed
    then show "free (pm s2) = free (pm s) \<union> {x. mappings s pgdir x \<inter> insert q N \<noteq> {} \<and> refs s x = int (card (mappings s pgdir x \<inter> insert q N))}"
      by blast
  qed
qed

context page_source
begin

lemma unmap_page:
  assumes "pt_ok inv free allocated s pgdir" "node s [PDX1 la, PDX0 la] pgdir = Some t"
  shows "page_remove alloc release s pgdir la = page_remove_pte release s t (PTX la)"
  using assms(2) by (simp add: page_remove_def get_pte_lookup [OF assms(1)] del: node.simps)

lemma unmap_loop_ok:
  assumes ok: "pt_ok inv free allocated s pgdir" and n: "ns < ne" "ne \<le> 2 ^ 19"
    and hi: "hi \<in> free (pm s)" "\<forall>k \<in> {ns ..< ne}. leaf s pgdir (page_path k) AND PTE_V \<noteq> 0 \<longrightarrow> entry_page (leaf s pgdir (page_path k)) < hi"
  shows "\<exists>s'. unmap_loop alloc release s pgdir (page_addr ns) (page_addr ne) = Some s' \<and> pt_ok inv free allocated s' pgdir
    \<and> unmapped free s s' pgdir (page_path ` {ns ..< ne})"
proof -
  define I where "I = (\<lambda>n s'. ns \<le> n \<and> n \<le> ne \<and> pt_ok inv free allocated s' pgdir \<and> unmapped free s s' pgdir (page_path ` {ns ..< n}))"
  have new: "page_path n \<notin> page_path ` {ns ..< n}" if "n < ne" for n
  proof
    assume "page_path n \<in> page_path ` {ns ..< n}"
    then obtain j where "j < n" "page_path n = page_path j" by auto
    then show False using inj_onD [OF page_path_inj, of n j] that \<open>ne \<le> 2 ^ 19\<close> by simp
  qed
  have pin: "page_path k \<in> paths" for k by (simp add: page_path_def paths_def)
  have ins: "page_path ` {ns ..< Suc n} = insert (page_path n) (page_path ` {ns ..< n})" if "ns \<le> n" for n
    using that by (simp add: atLeastLessThanSuc)
  have lf: "leaf s' pgdir (page_path n) = leaf s pgdir (page_path n)" if "I n s'" "n < ne" for n s'
    using that(1) pin new [OF that(2)] unfolding I_def unmapped_def by simp
  have skip: "I (Suc n) s'" if "I n s'" "n < ne" "leaf s' pgdir (page_path n) AND PTE_V = 0" for n s'
  proof -
    have z: "leaf s pgdir (page_path n) AND PTE_V = 0" using that(3) lf [OF that(1,2)] by simp
    then have "node s (page_path n) pgdir \<noteq> Some x" for x using node_leaf [OF pin, of s n pgdir] by simp
    then show ?thesis using that(1,2) unmapped_skip [OF _ pin _ z] unfolding I_def by (auto simp: ins)
  qed
  have "\<exists>s'. unmap_loop alloc release s pgdir (page_addr ns) (page_addr ne) = Some s' \<and> I ne s'"
  proof (rule range_walk [where loop = "\<lambda>s a. unmap_loop alloc release s pgdir a (page_addr ne)" and result = Some and I = I, OF _ n(2) _ n(1)])
    show "I ns s" unfolding I_def using ok n(1) by (simp add: unmapped_def)
    fix n s' assume i: "I n s'" "n < ne"
    have n19: "n < 2 ^ 19" using i(2) \<open>ne \<le> 2 ^ 19\<close> by simp
    have ok': "pt_ok inv free allocated s' pgdir" using i(1) by (simp add: I_def)
    let ?la = "page_addr n"
    note step = unmap_loop.simps [of alloc release s' pgdir ?la "page_addr ne"] get_pte_lookup [OF ok', of ?la]
    show "\<exists>m s''. n < m \<and> m \<le> 2 ^ 19 \<and> I (min m ne) s'' \<and> unmap_loop alloc release s' pgdir ?la (page_addr ne)
        = (if page_addr m \<noteq> 0 \<and> page_addr m < page_addr ne then unmap_loop alloc release s'' pgdir (page_addr m) (page_addr ne) else Some s'')"
    proof (cases "node s' [PDX1 ?la, PDX0 ?la] pgdir")
      case None
      have sk: "I (Suc k) s'" if "I k s'" "k < ne" "leaf s' pgdir (page_path k) = 0" for k by (rule skip [OF that(1,2)]) (simp add: that(3))
      from skip_table [where I = I and s = s', OF sk None i n19] obtain m where m: "n < m" "m \<le> 2 ^ 19" "I (min m ne) s'"
        "ROUNDDOWN (?la + PTSIZE) PTSIZE = page_addr m" by blast
      then show ?thesis using step(2) None by (intro exI [of _ m] exI [of _ s']) (subst step(1), simp del: node.simps)
    next
      case (Some t)
      have tl: "tab s' t (PTX ?la) = leaf s' pgdir (page_path n)"
        using leaf_path [OF Some] path_addr [of n] n19 by simp
      have s2: "n < Suc n" "Suc n \<le> 2 ^ 19" "min (Suc n) ne = Suc n" using n19 i(2) by simp_all
      show ?thesis
      proof (cases "leaf s' pgdir (page_path n) AND PTE_V = 0")
        case True
        have "I (min (Suc n) ne) s'" using skip [OF i True] s2(3) by simp
        then show ?thesis using s2 step(2) Some True tl
          by (intro exI [of _ "Suc n"] exI [of _ s']) (subst step(1), simp add: next_page_addr page_remove_pte_def del: node.simps)
      next
        case False
        have pa: "path ?la = page_path n" using n19 by (intro path_addr) simp
        let ?g = "entry_page (leaf s' pgdir (path ?la))"
        have gl: "leaf s' pgdir (path ?la) = leaf s pgdir (page_path n)" using lf [OF i] pa by simp
        have v: "leaf s' pgdir (path ?la) AND PTE_V \<noteq> 0" "leaf s pgdir (page_path n) AND PTE_V \<noteq> 0" using False lf [OF i] pa by simp_all
        have "ns \<le> n" using i(1) by (simp add: I_def)
        then have "?g < hi" using hi(2) i(2) v(2) gl by simp
        moreover have "hi \<in> free (pm s')" using hi(1) i(1) unfolding I_def unmapped_def by blast
        ultimately have rel: "free (pm s') = {} \<or> (\<exists>q \<in> free (pm s'). ?g < q)" by blast
        from page_remove_ok [OF ok' v(1) refl rel] obtain s'' where
          r: "page_remove alloc release s' pgdir ?la = Some s''" "pt_ok inv free allocated s'' pgdir"
          "\<forall>q \<in> paths. leaf s'' pgdir q = (if q = path ?la then 0 else leaf s' pgdir q)"
          "refs s'' = (refs s')(?g := refs s' ?g - 1)" "free (pm s'') = (if refs s' ?g = 1 then insert ?g (free (pm s')) else free (pm s'))" by blast
        have ng: "node s (page_path n) pgdir = Some ?g" using node_leaf [OF pin, of s n pgdir] v(2) gl by simp
        have "unmapped free s s'' pgdir (page_path ` {ns ..< Suc n})" unfolding ins [OF \<open>ns \<le> n\<close>]
        proof (rule unmapped_step [OF _ pin new [OF i(2)] v(2) ng])
          show "unmapped free s s' pgdir (page_path ` {ns ..< n})" using i(1) by (simp add: I_def)
        qed (use r pa pt_okD(8) [OF ok] in simp_all)
        then have "I (min (Suc n) ne) s''" using r(2) s2(3) i \<open>ns \<le> n\<close> unfolding I_def by simp
        moreover have "page_remove_pte release s' t (PTX ?la) = Some s''" using unmap_page [OF ok' Some] r(1) by simp
        moreover have "leaf s' pgdir (page_path n) \<noteq> 0" using False by auto
        ultimately show ?thesis using s2 step(2) Some tl
          by (intro exI [of _ "Suc n"] exI [of _ s'']) (subst step(1), simp add: next_page_addr del: node.simps)
      qed
    qed
  qed
  then show ?thesis unfolding I_def by blast
qed

end

text \<open>\<open>unmap_range\<close> takes exactly the mappings of its range out of an address space. It returns; the entries of the range that
  map a page become zero and every other entry is as before, the reference count of every page drops by the number of addresses of
  the range that map it, and the pages whose count this brings to zero are returned to the free pages, and only they. The address
  space stays well formed. (The first fit manager needs a free page above the ones it takes back.)\<close>

theorem unmap_range_clears:
  assumes ok: "pt_ok pmm_inv free_pages_of allocated_pages s pgdir"
    and r: "start mod PGSIZE = 0" "end_a mod PGSIZE = 0" "USER_ACCESS start end_a" "N = path ` {start ..< end_a}"
    and hi: "hi \<in> free_pages_of (pm s)" "\<And>q. q \<in> N \<Longrightarrow> leaf s pgdir q AND PTE_V \<noteq> 0 \<Longrightarrow> entry_page (leaf s pgdir q) < hi"
  shows "\<exists>s'. unmap_range default_alloc_pages default_free_pages s pgdir start end_a = Some s'
    \<and> pt_ok pmm_inv free_pages_of allocated_pages s' pgdir
    \<and> (\<forall>q \<in> paths. leaf s' pgdir q = (if q \<in> N \<and> leaf s pgdir q AND PTE_V \<noteq> 0 then 0 else leaf s pgdir q))
    \<and> (\<forall>x. refs s' x = refs s x - int (card (mappings s pgdir x \<inter> N)))
    \<and> free_pages_of (pm s') = free_pages_of (pm s) \<union> {x. mappings s pgdir x \<inter> N \<noteq> {} \<and> refs s x = int (card (mappings s pgdir x \<inter> N))}"
proof -
  note rp = range_paths [OF r(1-3)]
  have t: "\<forall>k \<in> {unat start div 4096 ..< unat end_a div 4096}. leaf s pgdir (page_path k) AND PTE_V \<noteq> 0 \<longrightarrow> entry_page (leaf s pgdir (page_path k)) < hi"
    using hi(2) unfolding r(4) rp(1) by blast
  from fs.unmap_loop_ok [OF ok rp(2,3) hi(1) t] obtain s' where
    "unmap_range default_alloc_pages default_free_pages s pgdir start end_a = Some s'"
    "pt_ok pmm_inv free_pages_of allocated_pages s' pgdir" "unmapped free_pages_of s s' pgdir N"
    using r by (auto simp: unmap_range_def bind_kassert rp)
  then show ?thesis unfolding unmapped_def by blast
qed

end
