(* ===== verification/Spec2Isabelle.thy ===== *)
theory Spec2Isabelle
  imports BestFit Sync Lifecycle RoundRobin Sysfile Kmalloc Swap Format CopyRange Unmap
begin

text \<open>
  A verification library for the ucore teaching kernel of this repository (RISC-V, Sv39). The last lab,
  \<open>src/lab8code/lab8\<close>, holds the whole kernel and is what the theories model; the best fit allocator is
  the one of \<open>src/lab2\<close>, three page replacement policies are those of \<open>src/lab3\<close>, and copy on write is that of
  \<open>src/lab5_with_COW\<close>. The other lab directories are earlier states of the same files.

  \<^bold>\<open>The program.\<close> Physical memory is an array of \<open>struct Page\<close>; a page manager hands out runs of pages
  (\<open>kern/mm/default_pmm.c\<close>). Page tables map them (\<open>kern/mm/pmm.c\<close>) under the memory map of a process, a
  sorted list of areas (\<open>kern/mm/vmm.c\<close>). Processes live in one list, in hash chains by number and in a
  family tree of four pointers (\<open>kern/process/proc.c\<close>); the core scheduler (\<open>kern/schedule/sched.c\<close>) moves
  them between states, keeps the timers and calls a scheduler class through function pointers; wait
  queues and semaphores (\<open>kern/sync\<close>) block and wake them. The simple file system (\<open>kern/fs/sfs\<close>) keeps
  files as blocks found through direct entries and one indirect block, on a block device over a RAM
  disk. \<open>libs\<close> holds the lists, the skew heap, strings and formatted output all of this uses.

  \<^bold>\<open>The theories\<close>, in the order of their imports:
  \<^item> \<open>Prelude\<close>: \<open>kassert\<close> and the error codes of \<open>libs/error.h\<close>. \<open>Bytes\<close>: ranges of bytes.
  \<^item> \<open>ListH\<close> (\<open>libs/list.h\<close>): the intrusive lists at pointer level, refined to sequences; the locale
    \<open>node_list\<close>. \<open>SkewHeap\<close> (\<open>libs/skew_heap.h\<close>): the heap with parent pointers, refined to trees.
  \<^item> \<open>PmmPage\<close>, \<open>FreeArea\<close>, \<open>PmmManager\<close>, \<open>FirstFit\<close>, \<open>BestFit\<close>: page descriptors, the code the list based
    managers share, the contract of a manager (locales \<open>pmm_alloc\<close> and \<open>pmm_manager\<close>), the two managers.
  \<^item> \<open>Vmm\<close>: areas and the checks of user addresses. \<open>PageTable\<close>: page tables over any manager (locale
    \<open>page_source\<close>, which extends \<open>pmm_manager\<close>); \<open>PageMap\<close>: the same on the first fit manager.
  \<^item> \<open>Proc\<close>, \<open>SchedClass\<close>, \<open>Stride\<close>, \<open>RoundRobin\<close>, \<open>Timer\<close>, \<open>Sync\<close>: process structures, the core scheduler over
    a scheduler class (a record of functions and a locale of laws), its two classes, the timers, wait
    queues and semaphores.
  \<^item> \<open>ProcTable\<close>, \<open>Family\<close>, \<open>Process\<close>, \<open>Lifecycle\<close>: process numbers and hash chains, the family pointers,
    \<open>do_fork\<close>, \<open>do_exit\<close>, \<open>do_wait\<close>, \<open>do_kill\<close> and their effect on the whole process table.
  \<^item> \<open>Bitmap\<close>, \<open>Disk\<close>, \<open>SfsBlock\<close>, \<open>SfsBmap\<close>, \<open>SfsFile\<close>, \<open>SfsIO\<close>: the free map, the disk, blocks and their
    allocation, the block map of a file, reading and writing, and what they do to contents.
  \<^item> \<open>SfsInode\<close>, \<open>SfsDir\<close>, \<open>SfsNode\<close>: status, synchronisation and length of a file, the entries of a directory, and
    the table of inodes in memory with its reference counts (\<open>kern/fs/vfs/inode.c\<close>).
  \<^item> \<open>Vfs\<close>, \<open>File\<close>, \<open>FileUse\<close>: paths, opening and the current directory (\<open>kern/fs/vfs\<close>), the open file table of a process
    (\<open>kern/fs/file.c\<close>, \<open>fs.c\<close>), and what a process sees of it.
  \<^item> \<open>UserCopy\<close>, \<open>Sysfile\<close>: copies between kernel and user memory (\<open>kern/mm/vmm.c\<close>) and the file system calls
    (\<open>kern/fs/sysfile.c\<close>), which move data between user memory and a file in pieces.
  \<^item> \<open>Slob\<close>, \<open>Kmalloc\<close>: the kernel memory allocator (\<open>kern/mm/kmalloc.c\<close>), its free list as a ring of blocks and as a set of
    free bytes. \<open>Swap\<close>: the page replacement policies, the last lab's and those of \<open>src/lab3\<close> (locale \<open>victim_queue\<close>).
    \<open>PageFault\<close>: page faults, \<open>swap_out\<close>, \<open>swap_in\<close> and the swap disk, over the page tables, the areas and the queue of \<open>Swap\<close>.
  \<^item> \<open>PageWalk\<close>, \<open>Unmap\<close>, \<open>PairSpaces\<close>, \<open>CopyRange\<close>: walks over a range of addresses, what \<open>unmap_range\<close> does to its pages, two
    address spaces over one memory, \<open>copy_range\<close>, and the copy on write of \<open>src/lab5_with_COW\<close>.
  \<^item> \<open>HashChains\<close>: hash tables of intrusive lists (locale \<open>hash_chains\<close>), for processes and for inodes.
  \<^item> \<open>Strings\<close> (\<open>libs/string.c\<close>) and \<open>Format\<close> (\<open>libs/printfmt.c\<close>).

  \<^bold>\<open>Conventions.\<close> A routine that may reach a failing \<open>assert\<close>, a \<open>panic\<close> or an endless pointer loop has a
  result of type \<open>'a option\<close>, and \<open>None\<close> is the kernel that does not come back; error numbers are the
  negative integers of the code. State is passed explicitly, in a record per component. Loops over linked
  structures and up to a terminating byte are \<open>partial_function\<close>s, and the lemmas prove that they return
  on well-formed states, so no fuel is used. A routine that blocks is split where it calls \<open>schedule\<close>.
  Words have their width where wrap-around matters (strides, addresses, table entries, hash values,
  offsets of blocks).

  \<^bold>\<open>Simplifications.\<close> Counts the code keeps in a C \<open>int\<close> and that no routine lets overflow in practice are unbounded integers: the
  reference counts of pages, \<open>runs\<close> of a process, field widths in formatted output. Block and sector numbers are natural numbers, and the
  one swap device is always valid. Clearing a new page table changes its entries, not the byte contents of the page. The exit code
  of \<open>do_wait\<close> is a result, whether or not the caller wants it. There is always a current process, so the tests for a null \<open>current\<close>
  are left out. \<open>vsnprintf\<close> computes the end of its buffer without wrap-around.

  \<^bold>\<open>What the lemmas show.\<close> Refinement of pointer structures to sequences, trees and sets; the invariants of
  the free list, the run queue, the timer list, the process table, the areas, the page tables and the file
  system, kept by every operation; the functional behaviour on each branch, with error results and the
  conditions of every panic; round trips (write and read, print and parse); termination of the searches
  and of formatted output; the bounds of buffers. Some properties state that the code fails: the double
  allocation after the ordered insertion loop, starvation by large stride priorities, the panic of
  round robin on a new process, reads that extend a file, ranges that panic in \<open>mm_map\<close>, large blocks that are
  too small, the clock that names a page twice, the tick of \<open>swap_lru.c\<close> that never ends, and the page faults of a
  process that stop the kernel.

  \<^bold>\<open>Not modelled.\<close> Boot code, traps other than page faults, system call dispatch, consoles, interrupts and the context switch;
  \<open>do_execve\<close> and \<open>load_icode\<close>; swapping out from within \<open>alloc_pages\<close> during the boot checks; the device list and
  mounting; locks of the file system; user programs, the tools
  that build images, and the self tests. The results of memory
  and file duplication, the root directory of a named device and the addresses \<open>kmalloc\<close> returns are
  arguments of the routines that call them.
\<close>

end
